(* ===== verification/Prelude.thy ===== *)
theory Prelude
  imports Main "HOL-Library.Word" "HOL-Library.Signed_Division" "HOL-Library.Sublist"
begin

text \<open>
  Shared vocabulary of the development.

  \<^item> Machine types: \<open>u8\<close>, \<open>u16\<close> and \<open>u32\<close> are the C types \<open>uchar\<close>, \<open>ushort\<close> and
    \<open>uint\<close> of types.h (words, arithmetic wraps); a C \<open>int\<close> is a HOL \<open>int\<close>, kept inside
    \<open>c_int\<close>, with the conversions \<open>to_uint\<close> and \<open>to_int\<close>.
  \<^item> Outcomes: C code that can stop the machine returns an \<open>outcome\<close>. \<open>Panic msg\<close> is a call of
    \<open>panic(msg)\<close>; \<open>Fault\<close> is behaviour that C leaves undefined (a null or wild pointer, an array
    index out of range, a signed overflow); \<open>Diverge\<close> is a loop that never ends.
  \<^item> The collections and generic lemmas that the component theories use.
\<close>

section \<open>Machine types\<close>

type_synonym u8 = "8 word"
type_synonym u16 = "16 word"
type_synonym u32 = "32 word"

text \<open>Range of a C \<open>int\<close>, and the conversions between \<open>int\<close> and \<open>uint\<close>.\<close>

definition c_int :: "int \<Rightarrow> bool" where
  "c_int x \<longleftrightarrow> - (2 ^ 31) \<le> x \<and> x < 2 ^ 31"

definition to_uint :: "int \<Rightarrow> u32" where
  "to_uint x = word_of_int x"

definition to_int :: "u32 \<Rightarrow> int" where
  "to_int w = sint w"

lemma to_uint_to_int [simp]: "to_uint (to_int w) = w"
  by (simp add: to_uint_def to_int_def)

lemma to_int_to_uint [simp]: "c_int x \<Longrightarrow> to_int (to_uint x) = x"
  by (simp add: to_uint_def to_int_def c_int_def signed_of_int signed_take_bit_int_eq_self_iff)

lemma c_int_to_int [simp]: "c_int (to_int w)"
  using sint_greater_eq [of w] sint_less [of w] by (simp add: c_int_def to_int_def)

lemma to_int_cases: "to_int a = (if a < 0x80000000 then uint a else uint a - 2 ^ 32)"
proof -
  have r: "0 \<le> uint a" "uint a < 2 ^ 32" using uint_lt2p [of a] by simp_all
  have "to_int a = (uint a + 2 ^ 31) mod 2 ^ 32 - 2 ^ 31"
    by (simp add: to_int_def sint_uint signed_take_bit_eq_take_bit_shift take_bit_eq_mod)
  moreover have "(uint a + 2 ^ 31) mod 2 ^ 32 = uint a + 2 ^ 31" if "uint a < 2 ^ 31"
    using r that by (simp add: mod_pos_pos_trivial)
  moreover have "(uint a + 2 ^ 31) mod 2 ^ 32 = uint a - 2 ^ 31" if "\<not> uint a < 2 ^ 31"
    using r that mod_add_self2 [of "uint a - 2 ^ 31" "2 ^ 32"] by (simp add: mod_pos_pos_trivial add.commute)
  ultimately show ?thesis by (auto simp: word_less_def)
qed

lemma to_int_low: "a < 0x80000000 \<Longrightarrow> to_int a = uint a"
  by (simp add: to_int_cases)

lemma to_int_nonneg: "0 \<le> to_int a \<longleftrightarrow> a < 0x80000000"
  using uint_lt2p [of a] by (auto simp: to_int_cases)

lemma uint_to_uint: "0 \<le> x \<Longrightarrow> x < 2 ^ 32 \<Longrightarrow> uint (to_uint x) = x"
  by (simp add: to_uint_def uint_word_of_int)

lemma uint_add_to_uint:
  assumes "0 \<le> i" "uint a + i < 2 ^ 32"
  shows "uint (a + to_uint i) = uint a + i"
proof -
  have "i < 2 ^ 32" using assms(2) uint_ge_0 [of a] by linarith
  then show ?thesis using assms by (simp add: uint_word_ariths uint_to_uint)
qed

lemma all_ones_le [simp]: "(0xFFFFFFFF :: u32) \<le> a \<longleftrightarrow> a = 0xFFFFFFFF"
  using uint_lt2p [of a] by (auto simp: word_le_def word_uint_eq_iff)

lemma unat_u32: "unat (n :: u32) < 2 ^ 32"
proof -
  have "unat n < 2 ^ LENGTH(32)" by (rule unsigned_less)
  then show ?thesis by simp
qed

lemma less_unat: "i < unat (n :: 'a::len word) \<longleftrightarrow> int i < uint n"
  by (simp flip: nat_uint_eq add: zless_nat_eq_int_zless)

lemma unat_minus1_u32 [simp]: "unat (- 1 :: u32) = 4294967295"
  by (simp add: unsigned_minus_1_eq_mask mask_eq_exp_minus_1)

lemma uint_u8_eq [simp]: "uint (x :: u8) = uint y \<longleftrightarrow> x = y"
  by (simp add: word_uint_eq_iff)

lemma uint_u8_0 [simp]: "uint (x :: u8) = 0 \<longleftrightarrow> x = 0"
  by (simp add: word_uint_eq_iff)

unbundle bit_operations_syntax

text \<open>Clearing the low bits of a word: the \<open>PGROUNDDOWN\<close> of mmu.h.\<close>

lemma word_and_not_mask: "(a :: 'a::len word) AND NOT (mask n) = a - a mod 2 ^ n"
proof -
  have "a = (a AND NOT (mask n)) OR (a AND mask n)" by (rule bit_word_eqI) (auto simp: bit_simps)
  also have "\<dots> = (a AND NOT (mask n)) + (a AND mask n)"
    by (rule disjunctive_add_eq_or [symmetric]) (auto intro: bit_word_eqI simp: bit_simps)
  also have "a AND mask n = a mod 2 ^ n" by (simp add: take_bit_eq_mask [symmetric] take_bit_eq_mod)
  finally show ?thesis by (metis add_diff_cancel_right')
qed
lemma uint_round_page: "uint ((a :: u32) AND NOT 0xFFF) = uint a - uint a mod 4096"
proof -
  have "a AND NOT 0xFFF = a - a mod 4096" using word_and_not_mask [of a 12] by (simp add: mask_eq_exp_minus_1)
  moreover have "uint (a mod 4096) \<le> uint a" by (simp add: uint_mod_distrib zmod_le_nonneg_dividend)
  ultimately show ?thesis by (simp add: uint_sub_if' uint_mod_distrib)
qed

lemma uint_round_page_neg: "uint ((a :: u32) AND - 4096) = uint a - uint a mod 4096"
  using uint_round_page [of a] by simp

section \<open>Outcomes\<close>

datatype 'a outcome = Ok 'a | Panic string | Fault | Diverge

primrec obind :: "'a outcome \<Rightarrow> ('a \<Rightarrow> 'b outcome) \<Rightarrow> 'b outcome" where
  "obind (Ok x) f = f x"
| "obind (Panic m) f = Panic m"
| "obind Fault f = Fault"
| "obind Diverge f = Diverge"

fun is_Ok :: "'a outcome \<Rightarrow> bool" where
  "is_Ok (Ok x) \<longleftrightarrow> True"
| "is_Ok _ \<longleftrightarrow> False"

lemma is_Ok_iff: "is_Ok r \<longleftrightarrow> (\<exists>x. r = Ok x)"
  by (cases r) auto

lemma obind_eq_Ok: "obind m f = Ok y \<longleftrightarrow> (\<exists>x. m = Ok x \<and> f x = Ok y)"
  by (cases m) auto

lemma obind_OkE:
  assumes "obind m f = Ok y"
  obtains x where "m = Ok x" "f x = Ok y"
  using assms by (auto simp: obind_eq_Ok)

lemma obind_assoc: "obind (obind m f) g = obind m (\<lambda>x. obind (f x) g)"
  by (cases m) auto

lemma obind_cong [fundef_cong]:
  "m = m' \<Longrightarrow> (\<And>x. m' = Ok x \<Longrightarrow> f x = f' x) \<Longrightarrow> obind m f = obind m' f'"
  by (cases m') auto

text \<open>Arrays: a C array index is an \<open>int\<close>; outside the bounds the access is undefined.\<close>

definition arr_get :: "'a list \<Rightarrow> int \<Rightarrow> 'a outcome" where
  "arr_get xs i = (if 0 \<le> i \<and> i < int (length xs) then Ok (xs ! nat i) else Fault)"

definition arr_set :: "'a list \<Rightarrow> int \<Rightarrow> 'a \<Rightarrow> 'a list outcome" where
  "arr_set xs i v = (if 0 \<le> i \<and> i < int (length xs) then Ok (xs[nat i := v]) else Fault)"

lemma arr_get_int [simp]: "i < length xs \<Longrightarrow> arr_get xs (int i) = Ok (xs ! i)"
  by (simp add: arr_get_def)

lemma arr_set_int [simp]: "i < length xs \<Longrightarrow> arr_set xs (int i) v = Ok (xs[i := v])"
  by (simp add: arr_set_def)

lemma arr_get_Ok: "arr_get xs i = Ok v \<longleftrightarrow> 0 \<le> i \<and> nat i < length xs \<and> v = xs ! nat i"
  by (auto simp: arr_get_def)

lemma arr_set_Ok: "arr_set xs i v = Ok ys \<longleftrightarrow> 0 \<le> i \<and> nat i < length xs \<and> ys = xs[nat i := v]"
  by (auto simp: arr_set_def)

section \<open>Lists\<close>

lemma find_append: "find P (xs @ ys) = (case find P xs of Some x \<Rightarrow> Some x | None \<Rightarrow> find P ys)"
  by (induction xs) auto

lemma find_None: "find P xs = None \<longleftrightarrow> (\<forall>x\<in>set xs. \<not> P x)"
  by (induction xs) auto

lemma find_SomeD: "find P xs = Some x \<Longrightarrow> x \<in> set xs \<and> P x"
  by (induction xs) (auto split: if_splits)

text \<open>Indices into a ring of \<open>n\<close> cells.\<close>

lemma mod_shift_inj: "((x :: nat) + i) mod n = (x + j) mod n \<Longrightarrow> i < n \<Longrightarrow> j < n \<Longrightarrow> i = j"
proof (induction i j rule: linorder_wlog)
  case (le i j)
  then have "n dvd (x + j) - (x + i)" by (subst mod_eq_dvd_iff_nat [symmetric]) auto
  then show ?case using le by (auto dest: dvd_imp_le)
qed simp

end
