(* ===== verification/Sh.thy ===== *)
theory Sh
  imports Prelude
begin

text \<open>
  The parser of the shell (sh.c). The line is the list \<open>buf\<close> of its bytes without the final NUL; a pointer
  into it is an offset, and \<open>es\<close> is its length. A token is the pair of its start and end. \<open>panic\<close> of the
  shell prints a message and exits: it is \<open>Panic\<close> here. The nodes come from \<open>malloc\<close>, which is taken to have
  memory left (the code does not check it). The recursion of \<open>parseline\<close>, \<open>parsepipe\<close>,
  \<open>parseexec\<close> and \<open>parseblock\<close> has fuel; the theorem at the end shows that it is enough for every line.
\<close>

section \<open>Commands\<close>

abbreviation (input) MAXARGS :: nat where "MAXARGS \<equiv> 10"

text \<open>The type of a word is a parameter: the parser makes trees of \<open>token\<close>s, and the words they stand for are
  byte lists.\<close>

type_synonym token = "nat \<times> nat"

datatype (words: 'w) cmd =
  EXEC "'w list" | REDIR "'w cmd" 'w u32 int | PIPE "'w cmd" "'w cmd" | LIST "'w cmd" "'w cmd" | BACK "'w cmd"

abbreviation (input) execcmd :: "'w cmd" where "execcmd \<equiv> EXEC []"
abbreviation (input) redircmd :: "'w cmd \<Rightarrow> 'w \<Rightarrow> u32 \<Rightarrow> int \<Rightarrow> 'w cmd" where "redircmd subcmd w md fd \<equiv> REDIR subcmd w md fd"
abbreviation (input) pipecmd :: "'w cmd \<Rightarrow> 'w cmd \<Rightarrow> 'w cmd" where "pipecmd left right \<equiv> PIPE left right"
abbreviation (input) listcmd :: "'w cmd \<Rightarrow> 'w cmd \<Rightarrow> 'w cmd" where "listcmd left right \<equiv> LIST left right"
abbreviation (input) backcmd :: "'w cmd \<Rightarrow> 'w cmd" where "backcmd subcmd \<equiv> BACK subcmd"

text \<open>\<open>parseexec\<close> keeps a pointer to the EXEC node below the redirections and adds the arguments there.\<close>

fun add_arg :: "'w \<Rightarrow> 'w cmd \<Rightarrow> 'w cmd outcome" where
  "add_arg w (EXEC ws) = (if length ws < MAXARGS then Ok (EXEC (ws @ [w])) else Fault)"
| "add_arg w (REDIR c t m d) = obind (add_arg w c) (\<lambda>c. Ok (REDIR c t m d))"
| "add_arg w c = Fault"

section \<open>Tokens\<close>

definition whitespace :: "u8 set" where "whitespace = {32, 9, 13, 10, 11}"
definition symbols :: "u8 set" where "symbols = {60, 124, 62, 38, 59, 40, 41}"

definition word_char :: "u8 \<Rightarrow> bool" where
  "word_char c \<longleftrightarrow> c \<notin> whitespace \<and> c \<notin> symbols"

definition cb :: "u8 list \<Rightarrow> nat \<Rightarrow> u8" where
  "cb buf s = (if s < length buf then buf ! s else 0)"

function skip_while :: "(u8 \<Rightarrow> bool) \<Rightarrow> u8 list \<Rightarrow> nat \<Rightarrow> nat" where
  "skip_while P buf s = (if s < length buf \<and> P (buf ! s) then skip_while P buf (Suc s) else s)"
  by pat_completeness auto

termination skip_while
  by (relation "measure (\<lambda>(P, buf, s). length buf - s)") auto

declare skip_while.simps [simp del]

abbreviation skip_white :: "u8 list \<Rightarrow> nat \<Rightarrow> nat" where
  "skip_white \<equiv> skip_while (\<lambda>c. c \<in> whitespace)"

text \<open>The kind of the token, where it is, and where the scan goes on. The kinds are the bytes of the code: 0
  at the end, 97 (a) for a word, 43 (+) for the append arrow, otherwise the symbol.\<close>

definition gettoken :: "u8 list \<Rightarrow> nat \<Rightarrow> u8 \<times> token \<times> nat" where
  "gettoken buf ps =
     (let q = skip_white buf ps;
          c = cb buf q;
          (ret, eq) =
            (if c = 0 then (0, q)
             else if c \<in> {124, 40, 41, 59, 38, 60} then (c, Suc q)
             else if c = 62 then (if cb buf (Suc q) = 62 then (43, Suc (Suc q)) else (62, Suc q))
             else (97, skip_while word_char buf q))
      in (ret, (q, eq), skip_white buf eq))"

definition peek :: "u8 list \<Rightarrow> nat \<Rightarrow> u8 set \<Rightarrow> bool \<times> nat" where
  "peek buf ps toks = (let s = skip_white buf ps in (cb buf s \<noteq> 0 \<and> cb buf s \<in> toks, s))"

section \<open>The parser\<close>

definition redir_of :: "u8 \<Rightarrow> 'w \<Rightarrow> 'w cmd \<Rightarrow> 'w cmd" where
  "redir_of tok w cmd =
     (if tok = 60 then redircmd cmd w 0 0
      else if tok = 62 then redircmd cmd w (0x001 OR 0x200) 1
      else if tok = 43 then redircmd cmd w (0x001 OR 0x200) 1
      else cmd)"

lemma skip_while_bounds: "s \<le> skip_while P buf s \<and> (s \<le> length buf \<longrightarrow> skip_while P buf s \<le> length buf)"
proof (induction P buf s rule: skip_while.induct)
  case (1 P buf s)
  then show ?case by (subst (1 2) skip_while.simps) auto
qed

lemma skip_while_stop: "skip_while P buf s < length buf \<Longrightarrow> \<not> P (buf ! skip_while P buf s)"
proof (induction P buf s rule: skip_while.induct)
  case (1 P buf s)
  then show ?case by (subst skip_while.simps) (auto simp: skip_while.simps [of P buf s] split: if_splits)
qed

lemma skip_while_all: "s \<le> k \<Longrightarrow> k < skip_while P buf s \<Longrightarrow> P (buf ! k)"
proof (induction P buf s rule: skip_while.induct)
  case (1 P buf s)
  then show ?case by (cases "k = s") (auto simp: skip_while.simps [of P buf s] split: if_splits)
qed

lemma skip_while_step: "s < length buf \<Longrightarrow> P (buf ! s) \<Longrightarrow> s < skip_while P buf s"
  using skip_while_bounds [of "Suc s" P buf] by (subst skip_while.simps) simp

lemma word_charI: "c \<notin> whitespace \<Longrightarrow> c \<notin> {124, 40, 41, 59, 38, 60} \<Longrightarrow> c \<noteq> 62 \<Longrightarrow> word_char c"
  by (auto simp: word_char_def symbols_def)

lemma gettoken_bounds:
  assumes "gettoken buf ps = (ret, (q, eq), ps')" "ps \<le> length buf"
  shows "ps \<le> q" "q \<le> eq" "eq \<le> ps'" "ps' \<le> length buf" "ret \<noteq> 0 \<Longrightarrow> q < eq"
proof -
  define x where "x = skip_white buf ps"
  let ?S = "{124, 40, 41, 59, 38, 60} :: u8 set"
  have x: "ps \<le> x" "x \<le> length buf" using skip_while_bounds [of ps] assms(2) by (auto simp: x_def)
  have lt: "x < length buf \<and> cb buf x = buf ! x" if "cb buf x \<noteq> 0" using that by (auto simp: cb_def split: if_splits)
  have wd: "x < skip_while word_char buf x \<and> skip_while word_char buf x \<le> length buf"
    if c: "cb buf x \<noteq> 0" "cb buf x \<notin> ?S" "cb buf x \<noteq> 62"
  proof -
    have "buf ! x \<notin> whitespace" using skip_while_stop [of "\<lambda>c. c \<in> whitespace" buf ps] lt [OF c(1)] by (simp add: x_def)
    then have "word_char (buf ! x)" using c(2,3) lt [OF c(1)] by (intro word_charI) simp_all
    then show ?thesis using skip_while_step [of x buf word_char] skip_while_bounds [of x word_char buf] lt [OF c(1)] x by blast
  qed
  have two: "Suc x < length buf" if "cb buf (Suc x) = 62" using that by (auto simp: cb_def split: if_splits)
  have q: "q = x" and e: "eq = (if cb buf x = 0 then x else if cb buf x \<in> ?S then Suc x
      else if cb buf x = 62 then (if cb buf (Suc x) = 62 then Suc (Suc x) else Suc x) else skip_while word_char buf x)"
    and r: "ret = 0 \<longleftrightarrow> cb buf x = 0" and p: "ps' = skip_white buf eq"
    using assms(1) by (auto simp: gettoken_def Let_def x_def [symmetric] split: if_splits)
  have b: "x \<le> eq \<and> eq \<le> length buf \<and> (cb buf x \<noteq> 0 \<longrightarrow> x < eq)"
    unfolding e using x lt two wd by (simp add: Suc_le_eq less_imp_le)
  then show "ps \<le> q" "q \<le> eq" "ret \<noteq> 0 \<Longrightarrow> q < eq" using x q r by auto
  show "eq \<le> ps'" "ps' \<le> length buf" using skip_while_bounds [of eq "\<lambda>c. c \<in> whitespace" buf] b p by auto
qed

lemma peek_bounds: "peek buf ps toks = (b, p) \<Longrightarrow> ps \<le> length buf \<Longrightarrow> ps \<le> p \<and> p \<le> length buf"
  using skip_while_bounds [of ps] by (auto simp: peek_def Let_def)

text \<open>After a successful \<open>peek\<close> the next token is not the end of the line.\<close>

lemma peek_token:
  assumes "peek buf ps toks = (True, p)" "gettoken buf p = (ret, t, p')"
  shows "ret \<noteq> 0" "ps \<le> p" "p < p'" "p' \<le> length buf"
proof -
  have c: "cb buf p \<noteq> 0" and p: "p = skip_white buf ps" using assms(1) by (auto simp: peek_def Let_def)
  have lt: "p < length buf" using c by (auto simp: cb_def split: if_splits)
  have "buf ! p \<notin> whitespace" using skip_while_stop [of "\<lambda>c. c \<in> whitespace" buf ps] lt p by simp
  then have s: "skip_white buf p = p" by (subst skip_while.simps) simp
  show "ps \<le> p" using skip_while_bounds [of ps] p by simp
  show r: "ret \<noteq> 0" using assms(2) c s by (auto simp: gettoken_def Let_def split: if_splits)
  obtain q e where "t = (q, e)" by fastforce
  then show "p < p'" "p' \<le> length buf" using gettoken_bounds [of buf p ret q e p'] assms(2) lt r by auto
qed


text \<open>The loops that consume one token or more in every round end by themselves.\<close>

function parseredirs :: "u8 list \<Rightarrow> token cmd \<Rightarrow> nat \<Rightarrow> (token cmd \<times> nat) outcome" where
  "parseredirs buf cmd ps =
     (case peek buf ps {60, 62} of (b, s) \<Rightarrow>
        if \<not> b then Ok (cmd, s)
        else case gettoken buf s of (tok, _, s1) \<Rightarrow>
          case gettoken buf s1 of (ret, w, s2) \<Rightarrow>
            if ret \<noteq> 97 then Panic ''missing file for redirection''
            else parseredirs buf (redir_of tok w cmd) s2)"
  by pat_completeness auto

termination parseredirs
proof (relation "measure (\<lambda>(buf, cmd, ps). length buf - ps)", goal_cases)
  case (2 buf cmd ps b s tok g h s1 ret u w s2)
  then have p: "peek buf ps {60, 62} = (True, s)" "gettoken buf s = (tok, h, s1)" by auto
  note t = peek_token [OF p]
  have "s1 \<le> s2" using gettoken_bounds [of buf s1 ret "fst w" "snd w" s2] 2 t(4) by auto
  then show ?case using t by auto
qed simp

declare parseredirs.simps [simp del]

function parse_amps :: "u8 list \<Rightarrow> token cmd \<Rightarrow> nat \<Rightarrow> token cmd \<times> nat" where
  "parse_amps buf cmd ps =
     (case peek buf ps {38} of (b, s) \<Rightarrow>
        if \<not> b then (cmd, s) else case gettoken buf s of (_, _, s1) \<Rightarrow> parse_amps buf (backcmd cmd) s1)"
  by pat_completeness auto

termination parse_amps
proof (relation "measure (\<lambda>(buf, cmd, ps). length buf - ps)", goal_cases)
  case (2 buf cmd ps b s tok g h s1)
  then have p: "peek buf ps {38} = (True, s)" "gettoken buf s = (tok, h, s1)" by auto
  show ?case using peek_token [OF p] by auto
qed simp

declare parse_amps.simps [simp del]

function parse_args :: "u8 list \<Rightarrow> nat \<Rightarrow> token cmd \<Rightarrow> nat \<Rightarrow> (token cmd \<times> nat) outcome" where
  "parse_args buf argc ret ps =
     (case peek buf ps {124, 41, 38, 59} of (b, s) \<Rightarrow>
        if b then Ok (ret, s)
        else case gettoken buf s of (tok, w, s1) \<Rightarrow>
          if tok = 0 then Ok (ret, s1)
          else if tok \<noteq> 97 then Panic ''syntax''
          else if MAXARGS \<le> Suc argc then obind (add_arg w ret) (\<lambda>ret. Panic ''too many args'')
          else obind (add_arg w ret) (\<lambda>ret. obind (parseredirs buf ret s1) (\<lambda>(ret, s2).
            parse_args buf (Suc argc) ret s2)))"
  by pat_completeness auto

termination parse_args
  by (relation "measure (\<lambda>(buf, argc, ret, ps). MAXARGS - argc)") auto

declare parse_args.simps [simp del]

fun parseline :: "nat \<Rightarrow> u8 list \<Rightarrow> nat \<Rightarrow> (token cmd \<times> nat) outcome"
  and parsepipe :: "nat \<Rightarrow> u8 list \<Rightarrow> nat \<Rightarrow> (token cmd \<times> nat) outcome"
  and parseblock :: "nat \<Rightarrow> u8 list \<Rightarrow> nat \<Rightarrow> (token cmd \<times> nat) outcome"
  and parseexec :: "nat \<Rightarrow> u8 list \<Rightarrow> nat \<Rightarrow> (token cmd \<times> nat) outcome" where
  "parseline 0 buf ps = Diverge"
| "parseline (Suc n) buf ps =
     obind (parsepipe n buf ps) (\<lambda>(cmd, s0). case parse_amps buf cmd s0 of (cmd, s1) \<Rightarrow>
       case peek buf s1 {59} of (b, s2) \<Rightarrow>
         if b then (case gettoken buf s2 of (_, _, s3) \<Rightarrow>
           obind (parseline n buf s3) (\<lambda>(right, s4). Ok (listcmd cmd right, s4)))
         else Ok (cmd, s2))"
| "parsepipe 0 buf ps = Diverge"
| "parsepipe (Suc n) buf ps =
     obind (parseexec n buf ps) (\<lambda>(cmd, s1).
       case peek buf s1 {124} of (b, s2) \<Rightarrow>
         if b then (case gettoken buf s2 of (_, _, s3) \<Rightarrow>
           obind (parsepipe n buf s3) (\<lambda>(right, s4). Ok (pipecmd cmd right, s4)))
         else Ok (cmd, s2))"
| "parseblock 0 buf ps = Diverge"
| "parseblock (Suc n) buf ps =
     (case peek buf ps {40} of (b, s) \<Rightarrow>
        if \<not> b then Panic ''parseblock''
        else case gettoken buf s of (_, _, s1) \<Rightarrow>
          obind (parseline n buf s1) (\<lambda>(cmd, s2).
            case peek buf s2 {41} of (b, s3) \<Rightarrow>
              if \<not> b then Panic ''syntax - missing )''
              else case gettoken buf s3 of (_, _, s4) \<Rightarrow> parseredirs buf cmd s4))"
| "parseexec 0 buf ps = Diverge"
| "parseexec (Suc n) buf ps =
     (case peek buf ps {40} of (b, s) \<Rightarrow>
        if b then parseblock n buf s
        else obind (parseredirs buf execcmd s) (\<lambda>(ret, s1). parse_args buf 0 ret s1))"

text \<open>\<open>nulterminate\<close> writes the terminators into the buffer, here the bytes of the line with its own NUL.\<close>

fun nulterminate :: "token cmd \<Rightarrow> u8 list \<Rightarrow> u8 list outcome" where
  "nulterminate (EXEC []) m = Ok m"
| "nulterminate (EXEC (w # ws)) m = obind (arr_set m (int (snd w)) 0) (nulterminate (EXEC ws))"
| "nulterminate (REDIR c w md fd) m = obind (nulterminate c m) (\<lambda>m. arr_set m (int (snd w)) 0)"
| "nulterminate (PIPE l r) m = obind (nulterminate l m) (nulterminate r)"
| "nulterminate (LIST l r) m = obind (nulterminate l m) (nulterminate r)"
| "nulterminate (BACK c) m = nulterminate c m"

definition parsecmd :: "u8 list \<Rightarrow> (token cmd \<times> u8 list) outcome" where
  "parsecmd buf =
     obind (parseline (4 * length buf + 4) buf 0) (\<lambda>(cmd, s).
       case peek buf s {} of (_, s1) \<Rightarrow>
         if s1 \<noteq> length buf then Panic ''syntax''
         else obind (nulterminate cmd (buf @ [0])) (\<lambda>m. Ok (cmd, m)))"

section \<open>The parser returns, and its tokens are words\<close>

definition good_tok :: "u8 list \<Rightarrow> token \<Rightarrow> bool" where
  "good_tok buf w \<longleftrightarrow> fst w < snd w \<and> snd w \<le> length buf \<and> (\<forall>k. fst w \<le> k \<and> k < snd w \<longrightarrow> word_char (buf ! k)) \<and>
     (snd w < length buf \<longrightarrow> \<not> word_char (buf ! snd w))"

definition parsed :: "u8 list \<Rightarrow> nat \<Rightarrow> (token cmd \<times> nat) outcome \<Rightarrow> bool" where
  "parsed buf ps r \<longleftrightarrow>
     (case r of Ok (c, p) \<Rightarrow> ps \<le> p \<and> p \<le> length buf \<and> (\<forall>w \<in> words c. good_tok buf w) | Panic _ \<Rightarrow> True | _ \<Rightarrow> False)"

lemma parsed_Ok [simp]: "parsed buf ps (Ok (c, p)) \<longleftrightarrow> ps \<le> p \<and> p \<le> length buf \<and> (\<forall>w \<in> words c. good_tok buf w)"
  and parsed_Panic [simp]: "parsed buf ps (Panic m)"
  by (simp_all add: parsed_def)

lemma parsed_bind:
  assumes "parsed buf ps m"
    and "\<And>c p. m = Ok (c, p) \<Longrightarrow> ps \<le> p \<Longrightarrow> p \<le> length buf \<Longrightarrow> \<forall>w \<in> words c. good_tok buf w \<Longrightarrow> parsed buf ps (f (c, p))"
  shows "parsed buf ps (obind m f)"
  using assms by (cases m) (auto simp: parsed_def)

lemma parsed_le: "parsed buf ps m \<Longrightarrow> qs \<le> ps \<Longrightarrow> parsed buf qs m"
  by (auto simp: parsed_def split: outcome.splits)

lemma gettoken_word:
  assumes g: "gettoken buf ps = (97, w, ps')" and le: "ps \<le> length buf"
  shows "good_tok buf w"
proof -
  define x where "x = skip_white buf ps"
  have w: "w = (x, skip_while word_char buf x)"
    using g by (auto simp: gettoken_def Let_def x_def [symmetric] split: if_splits)
  have b: "fst w < snd w" "snd w \<le> length buf" using gettoken_bounds [of buf ps 97 "fst w" "snd w" ps'] g le by auto
  show ?thesis unfolding good_tok_def using b skip_while_all [of x _ word_char buf] skip_while_stop [of word_char buf x]
    by (simp add: w)
qed

lemma words_redir_of: "words (redir_of tok w c) \<subseteq> insert w (words c)"
  by (auto simp: redir_of_def)

lemma parseredirs_parsed:
  assumes "ps \<le> length buf" "\<forall>w \<in> words cmd. good_tok buf w"
  shows "parsed buf ps (parseredirs buf cmd ps)"
  using assms
proof (induction buf cmd ps rule: parseredirs.induct)
  case (1 buf cmd ps)
  obtain b s where k: "peek buf ps {60, 62} = (b, s)" by fastforce
  obtain tok t s1 where g1: "gettoken buf s = (tok, t, s1)" using prod_cases3 by blast
  obtain ret w s2 where g2: "gettoken buf s1 = (ret, w, s2)" using prod_cases3 by blast
  have s: "ps \<le> s" "s \<le> length buf" using peek_bounds [OF k] 1(2) by auto
  have "parsed buf ps (parseredirs buf (redir_of tok w cmd) s2)" if b: "b" and r: "ret = 97"
  proof (rule parsed_le)
    have k': "peek buf ps {60, 62} = (True, s)" using k b by simp
    note t = peek_token [OF k' g1]
    have s2: "s1 \<le> s2" "s2 \<le> length buf" using gettoken_bounds [of buf s1 ret "fst w" "snd w" s2] g2 t(4) by auto
    have "good_tok buf w" using gettoken_word g2 r t(4) by blast
    then have "\<forall>w \<in> words (redir_of tok w cmd). good_tok buf w" using words_redir_of [of tok w cmd] 1(3) by blast
    then show "parsed buf s2 (parseredirs buf (redir_of tok w cmd) s2)"
      using 1(1) [OF k [symmetric] _ g1 [symmetric] refl g2 [symmetric] refl] s2 b r by auto
    show "ps \<le> s2" using t(2,3) s2 by simp
  qed
  then show ?case using s 1(3) by (subst parseredirs.simps) (auto simp: k g1 g2)
qed

lemma parse_amps_parsed:
  assumes "ps \<le> length buf" "parse_amps buf cmd ps = (c, p)"
  shows "ps \<le> p \<and> p \<le> length buf \<and> words c = words cmd"
  using assms
proof (induction buf cmd ps rule: parse_amps.induct)
  case (1 buf cmd ps)
  obtain b s where k: "peek buf ps {38} = (b, s)" by fastforce
  obtain tok t s1 where g: "gettoken buf s = (tok, t, s1)" using prod_cases3 by blast
  show ?case
  proof (cases b)
    case True
    have k': "peek buf ps {38} = (True, s)" using k True by simp
    note t = peek_token [OF k' g]
    have "parse_amps buf (BACK cmd) s1 = (c, p)" using 1(3) k g True by (subst (asm) parse_amps.simps) simp
    then have "s1 \<le> p \<and> p \<le> length buf \<and> words c = words (BACK cmd)"
      using 1(1) [OF k [symmetric] _ g [symmetric] refl] t(4) True by auto
    then show ?thesis using t by auto
  qed (use 1(2,3) k peek_bounds [OF k] in \<open>subst (asm) parse_amps.simps, auto\<close>)
qed

text \<open>The node below the redirections is an EXEC with as many arguments as were counted.\<close>

fun execs :: "nat \<Rightarrow> 'w cmd \<Rightarrow> bool" where
  "execs n (EXEC ws) \<longleftrightarrow> length ws = n"
| "execs n (REDIR c w md fd) \<longleftrightarrow> execs n c"
| "execs n c \<longleftrightarrow> False"

lemma execs_redir_of [simp]: "execs n (redir_of tok w c) = execs n c"
  by (simp add: redir_of_def)

lemma add_arg_execs: "execs n c \<Longrightarrow> n < MAXARGS \<Longrightarrow> \<exists>d. add_arg w c = Ok d \<and> execs (Suc n) d \<and> words d = insert w (words c)"
  by (induction n c rule: execs.induct) auto

lemma parseredirs_execs: "parseredirs buf cmd ps = Ok (c, p) \<Longrightarrow> execs n cmd \<Longrightarrow> execs n c"
proof (induction buf cmd ps rule: parseredirs.induct)
  case (1 buf cmd ps)
  from 1(2) have "parseredirs buf cmd ps = Ok (c, p)" .
  then show ?case using 1(1,3) by (subst (asm) parseredirs.simps) (auto split: prod.splits if_splits)
qed

lemma parse_args_parsed:
  assumes "ps \<le> length buf" "execs argc ret" "argc < MAXARGS" "\<forall>w \<in> words ret. good_tok buf w"
  shows "parsed buf ps (parse_args buf argc ret ps)"
  using assms
proof (induction "MAXARGS - argc" arbitrary: argc ret ps rule: less_induct)
  case less
  obtain b s where k: "peek buf ps {124, 41, 38, 59} = (b, s)" by fastforce
  obtain tok q e s1 where g: "gettoken buf s = (tok, (q, e), s1)" using prod_cases3 surj_pair by metis
  obtain d where d: "add_arg (q, e) ret = Ok d" "execs (Suc argc) d" "words d = insert (q, e) (words ret)"
    using add_arg_execs [OF less.prems(2,3)] by blast
  have s: "ps \<le> s" "s \<le> length buf" using peek_bounds [OF k less.prems(1)] by auto
  have s1: "s \<le> s1" "s1 \<le> length buf" using gettoken_bounds [OF g s(2)] by auto
  have "parsed buf s1 (obind (parseredirs buf d s1) (\<lambda>(ret, s2). parse_args buf (Suc argc) ret s2))"
    if "tok = 97" "Suc argc < MAXARGS"
  proof (rule parsed_bind)
    have "good_tok buf (q, e)" using gettoken_word g s(2) that by blast
    then show "parsed buf s1 (parseredirs buf d s1)" using parseredirs_parsed [OF s1(2)] d(3) less.prems(4) by auto
    fix c p
    assume "parseredirs buf d s1 = Ok (c, p)" "s1 \<le> p" "p \<le> length buf" "\<forall>w \<in> words c. good_tok buf w"
    then show "parsed buf s1 (case (c, p) of (ret, s2) \<Rightarrow> parse_args buf (Suc argc) ret s2)"
      using less.hyps [of "Suc argc" p c] parseredirs_execs [of buf d s1 c p "Suc argc"] d(2) that
      by (auto intro!: parsed_le [of buf p _ s1])
  qed
  then have "parsed buf ps (obind (parseredirs buf d s1) (\<lambda>(ret, s2). parse_args buf (Suc argc) ret s2))"
    if "tok = 97" "Suc argc < MAXARGS" using that parsed_le s(1) s1(1) by (meson le_trans)
  then show ?case using s s1 less.prems(4) d(1) by (subst parse_args.simps) (simp add: k g)
qed

text \<open>The operator that may follow a command: a token and the rest of the line, or nothing.\<close>

lemma parsed_op:
  assumes p: "ps \<le> s1" "s1 \<le> length buf" "\<forall>w \<in> words c. good_tok buf w"
    and f: "\<And>s3. s1 < s3 \<Longrightarrow> s3 \<le> length buf \<Longrightarrow> parsed buf s3 (f s3)"
    and K: "\<And>r. words (K r) = words c \<union> words r"
  shows "parsed buf ps (case peek buf s1 toks of (b, s2) \<Rightarrow>
    if b then (case gettoken buf s2 of (_, _, s3) \<Rightarrow> obind (f s3) (\<lambda>(r, s4). Ok (K r, s4))) else Ok (c, s2))"
proof -
  obtain b s2 where k: "peek buf s1 toks = (b, s2)" by fastforce
  obtain tok t s3 where g: "gettoken buf s2 = (tok, t, s3)" using prod_cases3 by blast
  note k' = peek_bounds [OF k p(2)]
  have "parsed buf ps (obind (f s3) (\<lambda>(r, s4). Ok (K r, s4)))" if b
  proof -
    note t = peek_token [of buf s1 toks s2 tok t s3]
    have s3: "s1 < s3" "s3 \<le> length buf" using t k g that by auto
    show ?thesis using s3 p K by (intro parsed_bind parsed_le [OF f]) auto
  qed
  then show ?thesis using k k' g p by simp
qed

lemma parsed_block:
  assumes k: "peek buf ps {40} = (True, s)" and g: "gettoken buf s = (tok, t, s1)"
    and f: "parsed buf s1 (parseline n buf s1)"
  shows "parsed buf s (parseblock (Suc n) buf s)"
proof -
  note t = peek_token [OF k g]
  have k0: "peek buf s {40} = (True, s)"
    using k skip_while_stop [of "\<lambda>c. c \<in> whitespace" buf ps] by (subst peek_def) (auto simp: peek_def Let_def cb_def skip_while.simps [of _ buf "skip_white buf ps"] split: if_splits)
  have "parsed buf s (case peek buf s2 {41} of (b, s3) \<Rightarrow> if \<not> b then Panic ''syntax - missing )''
      else case gettoken buf s3 of (_, _, s4) \<Rightarrow> parseredirs buf c s4)"
    if p: "s \<le> s2" "s2 \<le> length buf" "\<forall>w \<in> words c. good_tok buf w" for c s2
  proof -
    obtain b s3 where k: "peek buf s2 {41} = (b, s3)" by fastforce
    obtain tok t s4 where g: "gettoken buf s3 = (tok, t, s4)" using prod_cases3 by blast
    have "parsed buf s (parseredirs buf c s4)" if b
    proof -
      have "s2 < s4" "s4 \<le> length buf" using peek_token [of buf s2 "{41}" s3 tok t s4] k g that by auto
      then show ?thesis using p by (intro parsed_le [OF parseredirs_parsed]) auto
    qed
    then show ?thesis using k g by simp
  qed
  then show ?thesis using k0 g t by simp (intro parsed_bind parsed_le [OF f], auto)
qed

lemma parser_parsed:
  "(ps \<le> length buf \<and> 4 * (length buf - ps) + 4 \<le> n \<longrightarrow> parsed buf ps (parseline n buf ps)) \<and>
   (ps \<le> length buf \<and> 4 * (length buf - ps) + 3 \<le> n \<longrightarrow> parsed buf ps (parsepipe n buf ps)) \<and>
   (ps \<le> length buf \<and> 4 * (length buf - ps) + 2 \<le> n \<longrightarrow> parsed buf ps (parseexec n buf ps))"
proof (induction n arbitrary: ps rule: less_induct)
  case (less m)
  let ?L = "length buf"
  have line: "parsed buf ps (parseline n buf ps)" if "ps \<le> ?L" "4 * (?L - ps) + 4 \<le> n" "n < m" for ps n using less that by blast
  have pipe: "parsed buf ps (parsepipe n buf ps)" if "ps \<le> ?L" "4 * (?L - ps) + 3 \<le> n" "n < m" for ps n using less that by blast
  have exec: "parsed buf ps (parseexec n buf ps)" if "ps \<le> ?L" "4 * (?L - ps) + 2 \<le> n" "n < m" for ps n using less that by blast
  have 1: "parsed buf ps (parseline m buf ps)" if le: "ps \<le> ?L" and m: "4 * (?L - ps) + 4 \<le> m"
  proof -
    obtain n where n: "m = Suc n" using m by (cases m) auto
    show ?thesis unfolding n parseline.simps
    proof (rule parsed_bind [OF pipe], goal_cases)
      case (4 c p)
      obtain c' s1 where a: "parse_amps buf c p = (c', s1)" by fastforce
      show ?case using parse_amps_parsed [OF 4(3) a] 4 a m n by (simp, intro parsed_op line, auto)
    qed (use le m n in auto)
  qed
  have 2: "parsed buf ps (parsepipe m buf ps)" if le: "ps \<le> ?L" and m: "4 * (?L - ps) + 3 \<le> m"
  proof -
    obtain n where n: "m = Suc n" using m by (cases m) auto
    show ?thesis unfolding n parsepipe.simps
    proof (rule parsed_bind [OF exec], goal_cases)
      case (4 c p)
      then show ?case using m n by (simp, intro parsed_op pipe, auto)
    qed (use le m n in auto)
  qed
  have 3: "parsed buf ps (parseexec m buf ps)" if le: "ps \<le> ?L" and m: "4 * (?L - ps) + 2 \<le> m"
  proof -
    obtain n where n: "m = Suc (Suc n)" using m by (cases m; cases "m - 1") auto
    obtain b s where k: "peek buf ps {40} = (b, s)" by fastforce
    obtain tok t s1 where g: "gettoken buf s = (tok, t, s1)" using prod_cases3 by blast
    have s: "ps \<le> s" "s \<le> ?L" using peek_bounds [OF k le] by auto
    have "parsed buf ps (parseblock (Suc n) buf s)" if b
      using parsed_block [of buf ps s tok t s1 n] peek_token [of buf ps "{40}" s tok t s1] line [of s1 n] k g that m n s
      by (intro parsed_le [of buf s _ ps]) auto
    moreover have "parsed buf ps (obind (parseredirs buf (EXEC []) s) (\<lambda>(ret, s1). parse_args buf 0 ret s1))"
    proof (rule parsed_bind [OF parsed_le [OF parseredirs_parsed]], goal_cases)
      case (4 c p)
      then show ?case using parse_args_parsed [of p buf 0 c] parseredirs_execs [OF 4(1), of 0] by (auto intro: parsed_le)
    qed (use s in auto)
    ultimately show ?thesis by (simp add: n k)
  qed
  show ?case using 1 2 3 by blast
qed

section \<open>The terminators do not cut a word\<close>

lemma nulterminate_spec:
  assumes "\<forall>w \<in> words c. snd w < length m"
  shows "\<exists>m'. nulterminate c m = Ok m' \<and> length m' = length m \<and>
    (\<forall>k < length m. m' ! k = (if k \<in> snd ` words c then 0 else m ! k))"
  using assms
proof (induction c m rule: nulterminate.induct)
  case (2 w ws m)
  have a: "arr_set m (int (snd w)) 0 = Ok (m[snd w := 0])" using 2(2) by (simp add: arr_set_def)
  obtain m' where "nulterminate (EXEC ws) (m[snd w := 0]) = Ok m'" "length m' = length m"
    "\<forall>k < length m. m' ! k = (if k \<in> snd ` words (EXEC ws) then 0 else m[snd w := 0] ! k)"
    using 2(1) [of "m[snd w := 0]"] 2(2) by auto
  then show ?case using a by (auto simp: nth_list_update)
next
  case (3 c w md fd m)
  then obtain m1 where "nulterminate c m = Ok m1" "length m1 = length m"
    "\<forall>k < length m. m1 ! k = (if k \<in> snd ` words c then 0 else m ! k)" by auto
  moreover have "arr_set m1 (int (snd w)) 0 = Ok (m1[snd w := 0])" using 3(2) calculation by (simp add: arr_set_def)
  ultimately show ?case using 3(2) by (simp add: nth_list_update)
next
  case (4 l r m)
  then obtain m1 where m1: "nulterminate l m = Ok m1" "length m1 = length m"
    "\<forall>k < length m. m1 ! k = (if k \<in> snd ` words l then 0 else m ! k)" by auto
  then obtain m' where "nulterminate r m1 = Ok m'" "length m' = length m1"
    "\<forall>k < length m1. m' ! k = (if k \<in> snd ` words r then 0 else m1 ! k)" using 4(2) [of m1] 4(3) by auto
  then show ?case using m1 by auto
next
  case (5 l r m)
  then obtain m1 where m1: "nulterminate l m = Ok m1" "length m1 = length m"
    "\<forall>k < length m. m1 ! k = (if k \<in> snd ` words l then 0 else m ! k)" by auto
  then obtain m' where "nulterminate r m1 = Ok m'" "length m' = length m1"
    "\<forall>k < length m1. m' ! k = (if k \<in> snd ` words r then 0 else m1 ! k)" using 5(2) [of m1] 5(3) by auto
  then show ?case using m1 by auto
qed auto

text \<open>The C string at the start of a token, and the bytes the token stands for.\<close>

definition c_word :: "u8 list \<Rightarrow> token \<Rightarrow> u8 list" where
  "c_word m w = takeWhile (\<lambda>c. c \<noteq> 0) (drop (fst w) m)"

definition span :: "u8 list \<Rightarrow> token \<Rightarrow> u8 list" where
  "span buf w = take (snd w - fst w) (drop (fst w) buf)"

lemma takeWhile_prefix: "\<forall>x \<in> set xs. P x \<Longrightarrow> \<not> P y \<Longrightarrow> takeWhile P (xs @ y # ys) = xs"
  by (induction xs) auto

lemma good_tok_end: "good_tok buf w \<Longrightarrow> good_tok buf v \<Longrightarrow> fst v \<le> snd w \<Longrightarrow> snd w < snd v \<Longrightarrow> False"
  unfolding good_tok_def by (meson order.strict_trans1 order.strict_trans2)

lemma nulterminate_words:
  assumes g: "\<forall>w \<in> words c. good_tok buf w" and z: "0 \<notin> set buf"
  shows "\<exists>m. nulterminate c (buf @ [0]) = Ok m \<and> (\<forall>w \<in> words c. c_word m w = span buf w)"
proof -
  have "\<forall>w \<in> words c. snd w < length (buf @ [0])" using g by (auto simp: good_tok_def less_Suc_eq_le)
  then obtain m where m: "nulterminate c (buf @ [0]) = Ok m" "length m = Suc (length buf)"
    "\<forall>k < Suc (length buf). m ! k = (if k \<in> snd ` words c then 0 else (buf @ [0]) ! k)"
    using nulterminate_spec [of c "buf @ [0]"] by auto
  have "c_word m w = span buf w" if w: "w \<in> words c" for w
  proof -
    have gw: "good_tok buf w" using g w by blast
    then have b: "fst w < snd w" "snd w \<le> length buf" by (auto simp: good_tok_def)
    have same: "m ! k = buf ! k" if k: "fst w \<le> k" "k < snd w" for k
    proof -
      have "k \<notin> snd ` words c" using good_tok_end [OF _ gw] g k by blast
      then show ?thesis using m(3) k b by (simp add: nth_append)
    qed
    have "take (snd w - fst w) (drop (fst w) m) = span buf w"
      using b m(2) by (intro nth_equalityI) (auto simp: span_def same)
    moreover have "drop (fst w) m = take (snd w - fst w) (drop (fst w) m) @ m ! snd w # drop (Suc (snd w)) m"
      using b m(2) id_take_nth_drop [of "snd w - fst w" "drop (fst w) m"] by simp
    ultimately have "drop (fst w) m = span buf w @ m ! snd w # drop (Suc (snd w)) m" by simp
    moreover have "m ! snd w = 0" using m(3) w b by auto
    moreover have "\<forall>x \<in> set (span buf w). x \<noteq> 0" using z by (auto simp: span_def dest: in_set_takeD in_set_dropD)
    ultimately show ?thesis by (simp add: c_word_def takeWhile_prefix)
  qed
  then show ?thesis using m(1) by blast
qed

text \<open>
  C22. The shell's parser ends on every line: with the fuel of \<open>parsecmd\<close>, four calls for each byte and four
  more, the mutual recursion of \<open>parseline\<close>, \<open>parsepipe\<close>, \<open>parseexec\<close> and \<open>parseblock\<close> never runs out, and no
  argument or terminator is written outside its array. The result is a command or one of the shell's own
  error messages.
\<close>

theorem parsecmd_returns:
  "(\<exists>c m. parsecmd buf = Ok (c, m)) \<or> (\<exists>e. parsecmd buf = Panic e)"
proof -
  have p: "parsed buf 0 (parseline (4 * length buf + 4) buf 0)" using parser_parsed [of 0 buf "4 * length buf + 4"] by simp
  show ?thesis
  proof (cases "parseline (4 * length buf + 4) buf 0")
    case (Ok r)
    obtain c s where r: "r = (c, s)" by fastforce
    then have "\<forall>w \<in> words c. snd w < length (buf @ [0])" using p Ok by (auto simp: good_tok_def less_Suc_eq_le)
    then obtain m where "nulterminate c (buf @ [0]) = Ok m" using nulterminate_spec by blast
    then show ?thesis using Ok r by (auto simp: parsecmd_def split: prod.splits)
  qed (use p in \<open>auto simp: parsecmd_def parsed_def\<close>)
qed

end
