(* ===== verification/ShPrint.thy ===== *)
theory ShPrint
  imports Sh
begin

text \<open>
  The shell's grammar (sh.c). \<open>show_cmd\<close> writes a command tree as a line, with parentheses only where the
  grammar needs them; the theorem is that the parser reads every such line back as the tree it was written
  from.
\<close>

section \<open>Writing a command\<close>

definition is_word :: "u8 list \<Rightarrow> bool" where
  "is_word w \<longleftrightarrow> w \<noteq> [] \<and> (\<forall>c \<in> set w. word_char c \<and> c \<noteq> 0)"

definition redir_ok :: "u8 list \<times> u32 \<times> int \<Rightarrow> bool" where
  "redir_ok r \<longleftrightarrow> is_word (fst r) \<and> (snd r = (0, 0) \<or> snd r = (0x001 OR 0x200, 1))"

fun writable :: "u8 list cmd \<Rightarrow> bool" where
  "writable (EXEC ws) \<longleftrightarrow> length ws < MAXARGS \<and> (\<forall>w \<in> set ws. is_word w)"
| "writable (REDIR c w md fd) \<longleftrightarrow> writable c \<and> redir_ok (w, md, fd)"
| "writable (PIPE l r) \<longleftrightarrow> writable l \<and> writable r"
| "writable (LIST l r) \<longleftrightarrow> writable l \<and> writable r"
| "writable (BACK c) \<longleftrightarrow> writable c"

definition paren :: "bool \<Rightarrow> u8 list \<Rightarrow> u8 list" where
  "paren b t = (if b then [40, 32] @ t @ [41, 32] else t)"

definition show_args :: "u8 list list \<Rightarrow> u8 list" where
  "show_args ws = concat (map (\<lambda>w. w @ [32]) ws)"

definition show_redir :: "u8 list \<times> u32 \<times> int \<Rightarrow> u8 list" where
  "show_redir r = [if snd (snd r) = 0 then 60 else 62, 32] @ fst r @ [32]"

text \<open>The level says where the command stands: 0 a line, 1 the command before an ampersand, 2 a pipeline,
  3 a member of one.\<close>

fun show_at :: "nat \<Rightarrow> u8 list cmd \<Rightarrow> u8 list" where
  "show_at lv (EXEC ws) = show_args ws"
| "show_at lv (REDIR c w md fd) = show_at 3 c @ show_redir (w, md, fd)"
| "show_at lv (PIPE l r) = paren (2 < lv) (show_at 3 l @ [124, 32] @ show_at 2 r)"
| "show_at lv (BACK c) = paren (1 < lv) (show_at 1 c @ [38, 32])"
| "show_at lv (LIST l r) = paren (0 < lv) (show_at 1 l @ [59, 32] @ show_at 0 r)"

definition show_cmd :: "u8 list cmd \<Rightarrow> u8 list" where
  "show_cmd = show_at 0"

section \<open>Reading tokens\<close>

definition text_at :: "u8 list \<Rightarrow> nat \<Rightarrow> u8 list \<Rightarrow> bool" where
  "text_at buf p xs \<longleftrightarrow> p \<le> length buf \<and> drop p buf = xs"

definition fresh :: "u8 list \<Rightarrow> bool" where
  "fresh xs \<longleftrightarrow> xs = [] \<or> hd xs \<notin> whitespace \<and> hd xs \<noteq> 0"

lemma text_at_length: "text_at buf p xs \<Longrightarrow> length buf = p + length xs"
  by (auto simp: text_at_def)

lemma text_at_append: "text_at buf p (xs @ ys) \<Longrightarrow> text_at buf (p + length xs) ys"
proof -
  assume t: "text_at buf p (xs @ ys)"
  have "drop (p + length xs) buf = drop (length xs) (xs @ ys)"
    using t by (metis add.commute drop_drop text_at_def)
  then show ?thesis using text_at_length [OF t] by (simp add: text_at_def)
qed

lemma text_at_nth: "text_at buf p xs \<Longrightarrow> i < length xs \<Longrightarrow> p + i < length buf \<and> buf ! (p + i) = xs ! i"
  by (auto simp: text_at_def)

lemma text_at_cb: "text_at buf p xs \<Longrightarrow> cb buf p = (if xs = [] then 0 else hd xs)"
  using text_at_nth [of buf p xs 0] by (auto simp: cb_def text_at_def hd_conv_nth)

lemma text_at_span: "text_at buf p (w @ xs) \<Longrightarrow> span buf (p, p + length w) = w"
  by (auto simp: text_at_def span_def)

lemma skip_while_at:
  "text_at buf p (xs @ ys) \<Longrightarrow> \<forall>x \<in> set xs. P x \<Longrightarrow> ys = [] \<or> \<not> P (hd ys) \<Longrightarrow> skip_while P buf p = p + length xs"
proof (induction xs arbitrary: p)
  case Nil
  then show ?case using text_at_nth [of buf p ys 0]
    by (subst skip_while.simps) (auto simp: hd_conv_nth text_at_def)
next
  case (Cons x xs)
  have "text_at buf (p + length [x]) (xs @ ys)" using Cons(2) by (intro text_at_append) simp
  then have "skip_while P buf (Suc p) = Suc p + length xs" using Cons by simp
  then show ?case using Cons(3) text_at_nth [OF Cons(2), of 0] by (subst skip_while.simps) simp
qed

lemma skip_white_fresh: "text_at buf p xs \<Longrightarrow> fresh xs \<Longrightarrow> skip_white buf p = p"
  using skip_while_at [of buf p "[]" xs] by (auto simp: fresh_def)

lemma skip_white_space: "text_at buf p (32 # xs) \<Longrightarrow> fresh xs \<Longrightarrow> skip_white buf p = Suc p"
  using skip_while_at [of buf p "[32]" xs "\<lambda>c. c \<in> whitespace"] by (auto simp: fresh_def whitespace_def)

lemma peek_at: "text_at buf p xs \<Longrightarrow> fresh xs \<Longrightarrow> peek buf p toks = (xs \<noteq> [] \<and> hd xs \<in> toks, p)"
  by (auto simp: peek_def skip_white_fresh text_at_cb fresh_def)

lemma gettoken_end: "text_at buf p [] \<Longrightarrow> gettoken buf p = (0, (p, p), p)"
  using skip_white_fresh [of buf p "[]"] text_at_cb [of buf p "[]"] by (simp add: gettoken_def fresh_def)

lemma word_char_no_symbol: "word_char c \<Longrightarrow> c \<notin> {124, 40, 41, 59, 38, 60} \<and> c \<noteq> 62"
  by (auto simp: word_char_def symbols_def)

lemma word_fresh: "is_word w \<Longrightarrow> fresh (w @ xs)"
  by (cases w) (auto simp: is_word_def fresh_def word_char_def)

lemma gettoken_word_at:
  assumes t: "text_at buf p (w @ 32 # xs)" and w: "is_word w" and f: "fresh xs"
  shows "gettoken buf p = (97, (p, p + length w), p + length w + 1)"
proof -
  have s: "skip_white buf p = p" using skip_white_fresh [OF t] word_fresh [OF w] by simp
  have c: "cb buf p = hd w" using text_at_cb [OF t] w by (simp add: is_word_def)
  have "hd w \<in> set w" using w by (simp add: is_word_def)
  then have h: "word_char (hd w)" "hd w \<noteq> 0" using w by (auto simp: is_word_def)
  have e: "skip_while word_char buf p = p + length w"
    using skip_while_at [OF t, of word_char] w by (auto simp: is_word_def word_char_def whitespace_def)
  have "skip_white buf (p + length w) = Suc (p + length w)"
    using skip_white_space text_at_append [OF t] f by blast
  then show ?thesis unfolding gettoken_def s c Let_def using h word_char_no_symbol [OF h(1)] e by simp
qed

lemma gettoken_sym_at:
  assumes t: "text_at buf p (c # 32 # xs)" and c: "c \<in> {124, 40, 41, 59, 38, 60, 62}" and f: "fresh xs"
  shows "gettoken buf p = (c, (p, Suc p), Suc (Suc p))"
proof -
  have "fresh (c # 32 # xs)" using c by (auto simp: fresh_def whitespace_def)
  then have s: "skip_white buf p = p" using skip_white_fresh [OF t] by simp
  have cb: "cb buf p = c" "c \<noteq> 0" using text_at_cb [OF t] c by auto
  have n: "text_at buf (Suc p) (32 # xs)" using text_at_append [of buf p "[c]"] t by simp
  have "cb buf (Suc p) = 32" using text_at_cb [OF n] by simp
  then show ?thesis unfolding gettoken_def s cb Let_def using cb c skip_white_space [OF n f] by auto
qed

section \<open>Redirections and arguments\<close>

definition wrap :: "('w \<times> u32 \<times> int) list \<Rightarrow> 'w cmd \<Rightarrow> 'w cmd" where
  "wrap rs c = foldl (\<lambda>c (w, md, fd). REDIR c w md fd) c rs"

definition show_redirs :: "(u8 list \<times> u32 \<times> int) list \<Rightarrow> u8 list" where
  "show_redirs rs = concat (map show_redir rs)"

definition stop :: "u8 set \<Rightarrow> u8 list \<Rightarrow> bool" where
  "stop S xs \<longleftrightarrow> xs = [] \<or> hd xs \<in> S"

lemma stop_fresh: "stop S xs \<Longrightarrow> S \<subseteq> symbols \<Longrightarrow> fresh xs"
  by (auto simp: stop_def fresh_def symbols_def whitespace_def)

lemma show_redirs_simps [simp]: "show_redirs [] = []" "show_redirs (r # rs) = show_redir r @ show_redirs rs"
  by (simp_all add: show_redirs_def)

lemma show_args_simps [simp]: "show_args [] = []" "show_args (w # ws) = w @ 32 # show_args ws"
  by (simp_all add: show_args_def)

lemma wrap_simps [simp]: "wrap [] c = c" "wrap ((w, md, fd) # rs) c = wrap rs (REDIR c w md fd)"
  by (simp_all add: wrap_def)

lemma fresh_redirs: "fresh xs \<Longrightarrow> fresh (show_redirs rs @ xs)"
  by (cases rs) (auto simp: show_redir_def fresh_def whitespace_def)

lemma fresh_args: "\<forall>w \<in> set ws. is_word w \<Longrightarrow> fresh xs \<Longrightarrow> fresh (show_args ws @ xs)"
  by (cases ws) (simp_all add: word_fresh)

lemma parseredirs_at:
  assumes "text_at buf p (show_redirs rs @ xs)" "\<forall>r \<in> set rs. redir_ok r" "fresh xs" "xs = [] \<or> hd xs \<notin> {60, 62}"
  shows "\<exists>c p'. parseredirs buf cmd p = Ok (c, p') \<and> text_at buf p' xs \<and>
    map_cmd (span buf) c = wrap rs (map_cmd (span buf) cmd)"
  using assms
proof (induction rs arbitrary: p cmd)
  case Nil
  then have "peek buf p {60, 62} = (False, p)" using peek_at [of buf p xs] by auto
  then show ?case using Nil by (subst parseredirs.simps) simp
next
  case (Cons r rs)
  obtain w md fd where r: "r = (w, md, fd)" using prod_cases3 by blast
  let ?c = "if fd = 0 then 60 else 62 :: u8"
  let ?ys = "show_redirs rs @ xs"
  have t: "text_at buf p (?c # 32 # w @ 32 # ?ys)" using Cons(2) by (simp add: r show_redir_def)
  have w: "is_word w" and m: "(md, fd) = (0, 0) \<or> (md, fd) = (0x001 OR 0x200, 1)" using Cons(3) by (auto simp: r redir_ok_def)
  have f: "fresh ?ys" using fresh_redirs Cons(4) by blast
  have "fresh (?c # 32 # w @ 32 # ?ys)" by (simp add: fresh_def whitespace_def)
  then have k: "peek buf p {60, 62} = (True, p)" using peek_at [OF t] by simp
  have g1: "gettoken buf p = (?c, (p, Suc p), Suc (Suc p))" using gettoken_sym_at [OF t _ word_fresh [OF w]] by simp
  have t1: "text_at buf (Suc (Suc p)) (w @ 32 # ?ys)" using text_at_append [of buf p "[?c, 32]"] t by simp
  note g2 = gettoken_word_at [OF t1 w f]
  let ?q = "(Suc (Suc p), Suc (Suc p) + length w)"
  have t2: "text_at buf (Suc (Suc p) + length w + 1) ?ys" using text_at_append [of buf "Suc (Suc p)" "w @ [32]"] t1 by simp
  have "redir_of ?c ?q cmd = REDIR cmd ?q md fd" using m by (auto simp: redir_of_def)
  then have "parseredirs buf cmd p = parseredirs buf (REDIR cmd ?q md fd) (Suc (Suc p) + length w + 1)"
    by (subst parseredirs.simps) (simp add: k g1 g2 del: add_Suc)
  moreover have "span buf ?q = w" using text_at_span [OF t1] by simp
  ultimately show ?case using Cons.IH [OF t2 _ Cons(4,5), of "REDIR cmd ?q md fd"] Cons(3) by (simp add: r)
qed

lemma parse_args_stop:
  assumes "text_at buf p xs" "stop {124, 41, 38, 59} xs"
  shows "parse_args buf argc ret p = Ok (ret, p)"
proof -
  have "peek buf p {124, 41, 38, 59} = (xs \<noteq> [], p)"
    using peek_at [OF assms(1) stop_fresh [OF assms(2)]] assms(2) by (auto simp: stop_def symbols_def)
  then show ?thesis using gettoken_end [of buf p] assms(1) by (subst parse_args.simps) auto
qed

lemma parse_args_at:
  assumes "text_at buf p (show_args ws @ show_redirs rs @ xs)" "\<forall>w \<in> set ws. is_word w" "\<forall>r \<in> set rs. redir_ok r"
    and "stop {124, 41, 38, 59} xs" "length us + length ws < MAXARGS" "ws \<noteq> []"
  shows "\<exists>c p'. parse_args buf (length us) (EXEC us) p = Ok (c, p') \<and> text_at buf p' xs \<and>
    map_cmd (span buf) c = wrap rs (EXEC (map (span buf) us @ ws))"
  using assms
proof (induction ws arbitrary: p us)
  case (Cons w ws)
  let ?ys = "show_args ws @ show_redirs rs @ xs"
  have t: "text_at buf p (w @ 32 # ?ys)" and w: "is_word w" using Cons by auto
  have fx: "fresh xs" using stop_fresh [OF Cons(5)] by (simp add: symbols_def)
  then have f: "fresh ?ys" using fresh_args fresh_redirs Cons(3) by simp
  have "hd w \<in> set w" "w \<noteq> []" using w by (simp_all add: is_word_def)
  then have "hd (w @ 32 # ?ys) \<notin> {124, 41, 38, 59}" using w by (auto simp: is_word_def word_char_def symbols_def)
  then have k: "peek buf p {124, 41, 38, 59} = (False, p)" using peek_at [OF t word_fresh [OF w]] by auto
  note g = gettoken_word_at [OF t w f]
  let ?q = "(p, p + length w)" let ?p = "p + length w + 1"
  have t1: "text_at buf ?p ?ys" using text_at_append [of buf p "w @ [32]"] t by simp
  have sp: "span buf ?q = w" using text_at_span [OF t] by simp
  have step: "parse_args buf (length us) (EXEC us) p =
      obind (parseredirs buf (EXEC (us @ [?q])) ?p) (\<lambda>(ret, s2). parse_args buf (length (us @ [?q])) ret s2)"
    using Cons(6) by (subst parse_args.simps) (simp add: k g)
  show ?case
  proof (cases "ws = []")
    case True
    have "xs = [] \<or> hd xs \<notin> {60, 62}" using Cons(5) by (auto simp: stop_def)
    then obtain c p' where "parseredirs buf (EXEC (us @ [?q])) ?p = Ok (c, p')" "text_at buf p' xs"
      "map_cmd (span buf) c = wrap rs (map_cmd (span buf) (EXEC (us @ [?q])))"
      using parseredirs_at [of buf ?p rs xs "EXEC (us @ [?q])"] t1 Cons(4) fx True by auto
    then show ?thesis using step parse_args_stop [of buf p' xs] Cons(5) True sp by simp
  next
    case False
    then have "hd ?ys \<in> set (hd ws)" "is_word (hd ws)" using Cons(3) by (cases ws; auto simp: is_word_def)+
    then have "hd ?ys \<notin> {60, 62}" by (auto simp: is_word_def word_char_def symbols_def)
    then have "peek buf ?p {60, 62} = (False, ?p)" using peek_at [OF t1 f] by auto
    then have "parseredirs buf (EXEC (us @ [?q])) ?p = Ok (EXEC (us @ [?q]), ?p)" by (subst parseredirs.simps) simp
    then show ?thesis using step Cons.IH [OF t1 _ Cons(4,5), of "us @ [?q]"] Cons(3,6) False sp by simp
  qed
qed simp

section \<open>The levels of the grammar\<close>

definition reads :: "(nat \<Rightarrow> u8 list \<Rightarrow> nat \<Rightarrow> (token cmd \<times> nat) outcome) \<Rightarrow> nat \<Rightarrow> u8 set \<Rightarrow> nat \<Rightarrow> u8 list cmd \<Rightarrow> bool" where
  "reads f lv S k a \<longleftrightarrow> (\<forall>n buf p xs. text_at buf p (show_at lv a @ xs) \<longrightarrow> stop S xs \<longrightarrow>
     4 * length (show_at lv a @ xs) + k \<le> n \<longrightarrow>
     (\<exists>c p'. f n buf p = Ok (c, p') \<and> text_at buf p' xs \<and> map_cmd (span buf) c = a))"

abbreviation "r_exec \<equiv> reads parseexec 3 {124, 41, 38, 59} 2"
abbreviation "r_pipe \<equiv> reads parsepipe 2 {41, 38, 59} 3"
abbreviation "r_line \<equiv> reads parseline 0 {41} 4"

definition r_back :: "u8 list cmd \<Rightarrow> bool" where
  "r_back a \<longleftrightarrow> (\<forall>n buf p xs. text_at buf p (show_at 1 a @ xs) \<longrightarrow> stop {41, 38, 59} xs \<longrightarrow>
     4 * length (show_at 1 a @ xs) + 3 \<le> n \<longrightarrow>
     (\<exists>c p' c0 p0. parsepipe n buf p = Ok (c0, p0) \<and> parse_amps buf c0 p0 = parse_amps buf c p' \<and>
        text_at buf p' xs \<and> map_cmd (span buf) c = a))"

lemma readsI:
  assumes "\<And>n buf p xs. text_at buf p (show_at lv a @ xs) \<Longrightarrow> stop S xs \<Longrightarrow>
     4 * length (show_at lv a @ xs) + k \<le> Suc n \<Longrightarrow>
     \<exists>c p'. f (Suc n) buf p = Ok (c, p') \<and> text_at buf p' xs \<and> map_cmd (span buf) c = a" and "0 < k"
  shows "reads f lv S k a"
  unfolding reads_def
proof (intro allI impI)
  fix n buf p xs
  assume a: "text_at buf p (show_at lv a @ xs)" "stop S xs" "4 * length (show_at lv a @ xs) + k \<le> n"
  then obtain n' where "n = Suc n'" using assms(2) by (cases n) auto
  then show "\<exists>c p'. f n buf p = Ok (c, p') \<and> text_at buf p' xs \<and> map_cmd (span buf) c = a" using assms(1) a by blast
qed

lemma readsE:
  assumes "reads f lv S k a" "text_at buf p (show_at lv a @ xs)" "stop S xs" "4 * length (show_at lv a @ xs) + k \<le> n"
  obtains c p' where "f n buf p = Ok (c, p')" "text_at buf p' xs" "map_cmd (span buf) c = a"
  using assms unfolding reads_def by blast

text \<open>The operator after a command, where it comes and where it does not.\<close>

lemma op_there:
  assumes "text_at buf p (c # 32 # xs)" "c \<in> {124, 40, 41, 59, 38, 60, 62}" "c \<in> toks" "fresh xs"
  shows "peek buf p toks = (True, p)" "gettoken buf p = (c, (p, Suc p), Suc (Suc p))" "text_at buf (Suc (Suc p)) xs"
proof -
  have "fresh (c # 32 # xs)" using assms(2) by (auto simp: fresh_def whitespace_def)
  then show "peek buf p toks = (True, p)" using peek_at [OF assms(1)] assms(3) by simp
  show "gettoken buf p = (c, (p, Suc p), Suc (Suc p))" using gettoken_sym_at [OF assms(1,2,4)] .
  show "text_at buf (Suc (Suc p)) xs" using text_at_append [of buf p "[c, 32]" xs] assms(1) by simp
qed

lemma op_absent: "text_at buf p xs \<Longrightarrow> stop S xs \<Longrightarrow> S \<subseteq> symbols \<Longrightarrow> S \<inter> toks = {} \<Longrightarrow> peek buf p toks = (False, p)"
  using peek_at [of buf p xs toks] stop_fresh [of S xs] by (auto simp: stop_def)

lemma amps_absent: "text_at buf p xs \<Longrightarrow> stop {41, 59} xs \<Longrightarrow> parse_amps buf c p = (c, p)"
  using op_absent [of buf p xs "{41, 59}" "{38}"] by (subst parse_amps.simps) (simp add: symbols_def)

lemma fresh_symbol [simp]: "c \<in> {124, 40, 41, 59, 38, 60, 62} \<Longrightarrow> fresh (c # xs)"
  by (auto simp: fresh_def whitespace_def)

lemma fresh_show: "writable a \<Longrightarrow> fresh xs \<Longrightarrow> fresh (show_at lv a @ xs)"
proof (induction lv a arbitrary: xs rule: show_at.induct)
  case (2 lv c w md fd)
  have "fresh (show_redir (w, md, fd) @ xs)" by (simp add: show_redir_def)
  then show ?case using 2 by simp
qed (simp_all add: fresh_args paren_def)

lemma pipe_of_exec:
  assumes "r_exec a" "show_at 2 a = show_at 3 a"
  shows "r_pipe a"
proof (rule readsI)
  fix n buf p xs
  assume a: "text_at buf p (show_at 2 a @ xs)" "stop {41, 38, 59} xs" "4 * length (show_at 2 a @ xs) + 3 \<le> Suc n"
  have "stop {124, 41, 38, 59} xs" using a(2) by (auto simp: stop_def)
  then obtain c p' where "parseexec n buf p = Ok (c, p')" "text_at buf p' xs" "map_cmd (span buf) c = a"
    using readsE [OF assms(1), of buf p xs n] a assms(2) by auto
  then show "\<exists>c p'. parsepipe (Suc n) buf p = Ok (c, p') \<and> text_at buf p' xs \<and> map_cmd (span buf) c = a"
    using op_absent [of buf p' xs "{41, 38, 59}" "{124}"] a(2) by (simp add: symbols_def)
qed simp

lemma pipe_PIPE:
  assumes "r_exec l" "r_pipe r" "writable r"
  shows "r_pipe (PIPE l r)"
proof (rule readsI)
  fix n buf p xs
  assume a: "text_at buf p (show_at 2 (PIPE l r) @ xs)" "stop {41, 38, 59} xs"
    "4 * length (show_at 2 (PIPE l r) @ xs) + 3 \<le> Suc n"
  let ?ys = "124 # 32 # show_at 2 r @ xs"
  have "text_at buf p (show_at 3 l @ ?ys)" "stop {124, 41, 38, 59} ?ys" using a(1) by (simp_all add: paren_def stop_def)
  then obtain c p' where c: "parseexec n buf p = Ok (c, p')" "text_at buf p' ?ys" "map_cmd (span buf) c = l"
    using readsE [OF assms(1), of buf p ?ys n] a(3) by (auto simp: paren_def)
  have f: "fresh (show_at 2 r @ xs)" using fresh_show [OF assms(3)] stop_fresh [OF a(2)] by (simp add: symbols_def)
  note o = op_there [OF c(2) _ _ f, of "{124}"]
  obtain d p'' where "parsepipe n buf (Suc (Suc p')) = Ok (d, p'')" "text_at buf p'' xs" "map_cmd (span buf) d = r"
    using readsE [OF assms(2) o(3) a(2), of n] a(3) by (auto simp: paren_def)
  then show "\<exists>c p'. parsepipe (Suc n) buf p = Ok (c, p') \<and> text_at buf p' xs \<and> map_cmd (span buf) c = PIPE l r"
    using c o by simp
qed simp

lemma back_of_pipe:
  assumes "r_pipe a" "show_at 1 a = show_at 2 a"
  shows "r_back a"
  unfolding r_back_def assms(2) using assms(1) unfolding reads_def by blast

lemma back_BACK:
  assumes "r_back a"
  shows "r_back (BACK a)"
  unfolding r_back_def
proof (intro allI impI)
  fix n buf p xs
  assume a: "text_at buf p (show_at 1 (BACK a) @ xs)" "stop {41, 38, 59} xs" "4 * length (show_at 1 (BACK a) @ xs) + 3 \<le> n"
  have "text_at buf p (show_at 1 a @ 38 # 32 # xs)" "stop {41, 38, 59} (38 # 32 # xs)" using a(1) by (simp_all add: paren_def stop_def)
  then obtain c p' c0 p0 where c: "parsepipe n buf p = Ok (c0, p0)" "parse_amps buf c0 p0 = parse_amps buf c p'"
    "text_at buf p' (38 # 32 # xs)" "map_cmd (span buf) c = a"
    using assms [unfolded r_back_def, rule_format, of buf p "38 # 32 # xs" n] a(3) by (auto simp: paren_def)
  note o = op_there [OF c(3), of "{38}"]
  have f: "fresh xs" using stop_fresh [OF a(2)] by (simp add: symbols_def)
  have "parse_amps buf c p' = parse_amps buf (BACK c) (Suc (Suc p'))" using o f by (subst parse_amps.simps) simp
  then show "\<exists>c p' c0 p0. parsepipe n buf p = Ok (c0, p0) \<and> parse_amps buf c0 p0 = parse_amps buf c p' \<and>
      text_at buf p' xs \<and> map_cmd (span buf) c = BACK a"
    using c o f by (intro exI [of _ "BACK c"] exI [of _ "Suc (Suc p')"] exI [of _ c0] exI [of _ p0]) simp
qed

lemma back_amps:
  assumes "r_back a" "text_at buf p (show_at 1 a @ xs)" "stop {41, 59} xs" "4 * length (show_at 1 a @ xs) + 3 \<le> n"
  shows "\<exists>c0 p0 c p'. parsepipe n buf p = Ok (c0, p0) \<and> parse_amps buf c0 p0 = (c, p') \<and> text_at buf p' xs \<and>
    map_cmd (span buf) c = a"
proof -
  have "stop {41, 38, 59} xs" using assms(3) by (auto simp: stop_def)
  then obtain c p' c0 p0 where "parsepipe n buf p = Ok (c0, p0)" "parse_amps buf c0 p0 = parse_amps buf c p'"
    "text_at buf p' xs" "map_cmd (span buf) c = a"
    using assms(1) [unfolded r_back_def, rule_format, OF assms(2) _ assms(4)] by auto
  then show ?thesis using amps_absent [of buf p' xs c] assms(3) by simp
qed

lemma line_of_back:
  assumes "r_back a" "show_at 0 a = show_at 1 a"
  shows "r_line a"
proof (rule readsI)
  fix n buf p xs
  assume a: "text_at buf p (show_at 0 a @ xs)" "stop {41} xs" "4 * length (show_at 0 a @ xs) + 4 \<le> Suc n"
  have "stop {41, 59} xs" using a(2) by (auto simp: stop_def)
  then obtain c0 p0 c p' where "parsepipe n buf p = Ok (c0, p0)" "parse_amps buf c0 p0 = (c, p')" "text_at buf p' xs"
    "map_cmd (span buf) c = a" using back_amps [OF assms(1), of buf p xs n] a assms(2) by auto
  then show "\<exists>c p'. parseline (Suc n) buf p = Ok (c, p') \<and> text_at buf p' xs \<and> map_cmd (span buf) c = a"
    using op_absent [of buf p' xs "{41}" "{59}"] a(2) by (simp add: symbols_def)
qed simp

lemma line_LIST:
  assumes "r_back l" "r_line r" "writable r"
  shows "r_line (LIST l r)"
proof (rule readsI)
  fix n buf p xs
  assume a: "text_at buf p (show_at 0 (LIST l r) @ xs)" "stop {41} xs" "4 * length (show_at 0 (LIST l r) @ xs) + 4 \<le> Suc n"
  let ?ys = "59 # 32 # show_at 0 r @ xs"
  have "text_at buf p (show_at 1 l @ ?ys)" "stop {41, 59} ?ys" using a(1) by (simp_all add: paren_def stop_def)
  then obtain c0 p0 c p' where c: "parsepipe n buf p = Ok (c0, p0)" "parse_amps buf c0 p0 = (c, p')" "text_at buf p' ?ys"
    "map_cmd (span buf) c = l" using back_amps [OF assms(1), of buf p ?ys n] a(3) by (auto simp: paren_def)
  have f: "fresh (show_at 0 r @ xs)" using fresh_show [OF assms(3)] stop_fresh [OF a(2)] by (simp add: symbols_def)
  note o = op_there [OF c(3) _ _ f, of "{59}"]
  obtain d p'' where "parseline n buf (Suc (Suc p')) = Ok (d, p'')" "text_at buf p'' xs" "map_cmd (span buf) d = r"
    using readsE [OF assms(2) o(3) a(2), of n] a(3) by (auto simp: paren_def)
  then show "\<exists>c p'. parseline (Suc n) buf p = Ok (c, p') \<and> text_at buf p' xs \<and> map_cmd (span buf) c = LIST l r"
    using c o by simp
qed simp

lemma show_wrap: "show_at 3 (wrap rs c) = show_at 3 c @ show_redirs rs"
  by (induction rs arbitrary: c) auto

lemma exec_EXEC:
  assumes w: "writable (EXEC ws)" and rs: "\<forall>r \<in> set rs. redir_ok r"
  shows "r_exec (wrap rs (EXEC ws))"
proof (rule readsI)
  fix n buf p xs
  assume a: "text_at buf p (show_at 3 (wrap rs (EXEC ws)) @ xs)" "stop {124, 41, 38, 59} xs"
  then have t: "text_at buf p (show_args ws @ show_redirs rs @ xs)" by (simp add: show_wrap)
  have fx: "fresh xs" using stop_fresh [OF a(2)] by (simp add: symbols_def)
  have f: "fresh (show_args ws @ show_redirs rs @ xs)" using fresh_args fresh_redirs fx w by simp
  let ?h = "hd (show_args ws @ show_redirs rs @ xs)"
  have hw: "?h \<noteq> 40 \<and> ?h \<notin> {60, 62}" if "ws \<noteq> []"
  proof -
    have "?h \<in> set (hd ws)" "is_word (hd ws)" using that w by (cases ws; auto simp: is_word_def)+
    then show ?thesis by (auto simp: is_word_def word_char_def symbols_def)
  qed
  have "?h \<noteq> 40" if "show_args ws @ show_redirs rs @ xs \<noteq> []"
  proof (cases "ws = []")
    case True
    then show ?thesis using a(2) that by (cases rs) (auto simp: stop_def show_redir_def)
  qed (use hw in blast)
  then have k: "peek buf p {40} = (False, p)" using peek_at [OF t f] by auto
  show "\<exists>c p'. parseexec (Suc n) buf p = Ok (c, p') \<and> text_at buf p' xs \<and> map_cmd (span buf) c = wrap rs (EXEC ws)"
  proof (cases "ws = []")
    case True
    have "xs = [] \<or> hd xs \<notin> {60, 62}" using a(2) by (auto simp: stop_def)
    then obtain c p' where "parseredirs buf (EXEC []) p = Ok (c, p')" "text_at buf p' xs" "map_cmd (span buf) c = wrap rs (EXEC ws)"
      using parseredirs_at [of buf p rs xs "EXEC []"] t rs fx True by auto
    then show ?thesis using k parse_args_stop [of buf p' xs] a(2) by simp
  next
    case False
    have "peek buf p {60, 62} = (False, p)" using peek_at [OF t f] hw [OF False] by auto
    then have "parseredirs buf (EXEC []) p = Ok (EXEC [], p)" by (subst parseredirs.simps) simp
    then show ?thesis using k parse_args_at [OF t _ rs a(2), of "[]"] w False by simp
  qed
qed simp

lemma exec_block:
  assumes b: "r_line b" "writable b" and s: "show_at 3 b = [40, 32] @ show_at 0 b @ [41, 32]" and rs: "\<forall>r \<in> set rs. redir_ok r"
  shows "r_exec (wrap rs b)"
proof (rule readsI)
  fix n buf p xs
  assume a: "text_at buf p (show_at 3 (wrap rs b) @ xs)" "stop {124, 41, 38, 59} xs"
    "4 * length (show_at 3 (wrap rs b) @ xs) + 2 \<le> Suc n"
  let ?zs = "show_redirs rs @ xs"
  let ?ys = "41 # 32 # ?zs"
  obtain n' where n: "n = Suc n'" using a(3) s by (cases n) (auto simp: show_wrap)
  have fx: "fresh xs" using stop_fresh [OF a(2)] by (simp add: symbols_def)
  have t: "text_at buf p (40 # 32 # show_at 0 b @ ?ys)" using a(1) by (simp add: show_wrap s)
  note o1 = op_there [OF t _ _ fresh_show [OF b(2)], of "{40}"]
  obtain c p1 where c: "parseline n' buf (Suc (Suc p)) = Ok (c, p1)" "text_at buf p1 ?ys" "map_cmd (span buf) c = b"
    using readsE [OF b(1), of buf "Suc (Suc p)" ?ys n'] o1(3) a(3) by (auto simp: stop_def show_wrap s n)
  note o2 = op_there [OF c(2) _ _ fresh_redirs [OF fx], of "{41}"]
  have "xs = [] \<or> hd xs \<notin> {60, 62}" using a(2) by (auto simp: stop_def)
  then obtain d p2 where "parseredirs buf c (Suc (Suc p1)) = Ok (d, p2)" "text_at buf p2 xs"
    "map_cmd (span buf) d = wrap rs (map_cmd (span buf) c)"
    using parseredirs_at [of buf "Suc (Suc p1)" rs xs c] o2(3) rs fx by auto
  then show "\<exists>c p'. parseexec (Suc n) buf p = Ok (c, p') \<and> text_at buf p' xs \<and> map_cmd (span buf) c = wrap rs b"
    using o1 o2 c n by simp
qed simp

section \<open>Reading back\<close>

lemma wrap_snoc: "wrap (rs @ [(w, md, fd)]) c = REDIR (wrap rs c) w md fd"
  by (simp add: wrap_def)

fun is_redir :: "'w cmd \<Rightarrow> bool" where
  "is_redir (REDIR c w md fd) = True"
| "is_redir c = False"

lemma unwrap: "\<exists>rs b. c = wrap rs b \<and> \<not> is_redir b \<and> size b \<le> size c"
proof (induction c)
  case (REDIR c w md fd)
  then obtain rs b where "c = wrap rs b" "\<not> is_redir b" "size b \<le> size c" by blast
  then show ?case by (intro exI [of _ "rs @ [(w, md, fd)]"] exI [of _ b]) (auto simp: wrap_snoc)
qed (rule exI [of _ "[]"], simp)+

lemma writable_wrap: "writable (wrap rs b) \<longleftrightarrow> writable b \<and> (\<forall>r \<in> set rs. redir_ok r)"
  by (induction rs arbitrary: b) auto

lemma exec_redirs:
  assumes "writable (REDIR c w md fd)" "\<And>b. writable b \<Longrightarrow> size b < size (REDIR c w md fd) \<Longrightarrow> r_line b"
  shows "r_exec (REDIR c w md fd)"
proof -
  obtain rs b where c: "c = wrap rs b" "\<not> is_redir b" "size b \<le> size c" using unwrap by blast
  let ?rs = "rs @ [(w, md, fd)]"
  have e: "REDIR c w md fd = wrap ?rs b" using c(1) by (simp add: wrap_snoc)
  have b: "writable b" and rs: "\<forall>r \<in> set ?rs. redir_ok r" using assms(1) c(1) by (auto simp: writable_wrap)
  have "r_line b" using assms(2) [OF b] c(3) by simp
  then show ?thesis unfolding e
  proof (cases b)
    case (EXEC ws)
    then show "r_exec (wrap ?rs b)" using exec_EXEC [OF _ rs] b by simp
  qed (use exec_block [OF _ b _ rs] c(2) in \<open>auto simp: paren_def\<close>)
qed

lemma parser_reads: "writable a \<Longrightarrow> r_exec a \<and> r_pipe a \<and> r_back a \<and> r_line a"
proof (induction a rule: measure_induct_rule [of size])
  case (less a)
  have IH: "r_exec b \<and> r_pipe b \<and> r_back b \<and> r_line b" if "writable b" "size b < size a" for b using less that by blast
  show ?case
  proof (cases a)
    case (EXEC ws)
    have e: "r_exec a" using exec_EXEC [of ws "[]"] less.prems EXEC by simp
    note p = pipe_of_exec [OF e]
    note b = back_of_pipe [OF p]
    show ?thesis using e p b line_of_back [OF b] EXEC by simp
  next
    case (REDIR c w md fd)
    have e: "r_exec a" using exec_redirs less.prems IH REDIR by blast
    note p = pipe_of_exec [OF e]
    note b = back_of_pipe [OF p]
    show ?thesis using e p b line_of_back [OF b] REDIR by simp
  next
    case (PIPE l r)
    have p: "r_pipe a" using pipe_PIPE IH [of l] IH [of r] less.prems PIPE by simp
    note b = back_of_pipe [OF p]
    note l = line_of_back [OF b]
    show ?thesis using p b l exec_block [of a "[]"] less.prems PIPE by (simp add: paren_def)
  next
    case (BACK c)
    have b: "r_back a" using back_BACK IH [of c] less.prems BACK by simp
    note l = line_of_back [OF b]
    have e: "r_exec a" using l exec_block [of a "[]"] less.prems BACK by (simp add: paren_def)
    show ?thesis using e b l pipe_of_exec [OF e] BACK by (simp add: paren_def)
  next
    case (LIST l r)
    have l: "r_line a" using line_LIST IH [of l] IH [of r] less.prems LIST by simp
    have e: "r_exec a" using l exec_block [of a "[]"] less.prems LIST by (simp add: paren_def)
    note p = pipe_of_exec [OF e]
    show ?thesis using e p l back_of_pipe [OF p] LIST by (simp add: paren_def)
  qed
qed

lemma show_nonzero: "writable a \<Longrightarrow> 0 \<notin> set (show_at lv a)"
  by (induction lv a rule: show_at.induct)
    (auto simp: show_args_def show_redir_def paren_def redir_ok_def is_word_def)

text \<open>
  C12. Reading back a command: every tree of commands with at most nine words each, nonempty words without
  blanks and the two kinds of redirection of the shell can be written as a line, and \<open>parsecmd\<close> reads the
  line as that tree. The words are compared after \<open>nulterminate\<close>, as the C strings that \<open>exec\<close> and
  \<open>open\<close> get.
\<close>

theorem parsecmd_show:
  assumes "writable a"
  shows "\<exists>c m. parsecmd (show_cmd a) = Ok (c, m) \<and> map_cmd (c_word m) c = a"
proof -
  let ?t = "show_cmd a"
  have "text_at ?t 0 (show_at 0 a @ [])" by (simp add: text_at_def show_cmd_def)
  then obtain c p where c: "parseline (4 * length ?t + 4) ?t 0 = Ok (c, p)" "text_at ?t p []" "map_cmd (span ?t) c = a"
    using readsE [of parseline 0 "{41}" 4 a ?t 0 "[]" "4 * length ?t + 4"] parser_reads [OF assms]
    by (auto simp: stop_def show_cmd_def)
  have "parsed ?t 0 (Ok (c, p))" using parser_parsed [of 0 ?t "4 * length ?t + 4"] c(1) by simp
  then obtain m where m: "nulterminate c (?t @ [0]) = Ok m" "\<forall>w \<in> words c. c_word m w = span ?t w"
    using nulterminate_words [of c ?t] show_nonzero [OF assms, of 0] by (auto simp: show_cmd_def)
  have "peek ?t p {} = (False, p)" "p = length ?t" using peek_at [OF c(2)] c(2) by (auto simp: fresh_def text_at_def)
  moreover have "map_cmd (c_word m) c = map_cmd (span ?t) c" using m(2) by (intro cmd.map_cong) auto
  ultimately show ?thesis using c m(1) by (auto simp: parsecmd_def)
qed

text \<open>The line \<open>ls | wc > f & ; echo hi \<close> and its tree.\<close>

definition demo_cmd :: "u8 list cmd" where
  "demo_cmd = LIST (BACK (PIPE (EXEC [[108, 115]]) (REDIR (EXEC [[119, 99]]) [102] (0x001 OR 0x200) 1)))
     (EXEC [[101, 99, 104, 111], [104, 105]])"

theorem parsecmd_show_witness:
  "\<exists>c m. parsecmd [108, 115, 32, 124, 32, 119, 99, 32, 62, 32, 102, 32, 38, 32, 59, 32, 101, 99, 104, 111, 32, 104, 105, 32]
     = Ok (c, m) \<and> map_cmd (c_word m) c = demo_cmd"
proof -
  have "writable demo_cmd" by code_simp
  moreover have "show_cmd demo_cmd = [108, 115, 32, 124, 32, 119, 99, 32, 62, 32, 102, 32, 38, 32, 59, 32, 101, 99, 104, 111, 32, 104, 105, 32]"
    by code_simp
  ultimately show ?thesis using parsecmd_show [of demo_cmd] by simp
qed

end
