(* ===== verification/Grep.thy ===== *)
theory Grep
  imports Prelude
begin

text \<open>
  The user program grep (grep.c): the matcher for patterns with \<open>^\<close>, \<open>.\<close>, \<open>*\<close> and \<open>$\<close>, and the loop that cuts the
  input into lines. A C string is the list of its bytes without the NUL. The system call \<open>read\<close> is the argument
  \<open>rd\<close>: for a number of bytes it gives the bytes read, none at the end or on an error. The bytes that the
  program writes are collected in order. A loop that reads for ever has the value \<open>None\<close>.
\<close>

section \<open>Code\<close>

function matchhere :: "u8 list \<Rightarrow> u8 list \<Rightarrow> bool"
  and matchstar :: "u8 \<Rightarrow> u8 list \<Rightarrow> u8 list \<Rightarrow> bool" where
  "matchhere re tx =
     (case re of
        [] \<Rightarrow> True
      | c # re1 \<Rightarrow>
          if re1 \<noteq> [] \<and> hd re1 = 42 then matchstar c (tl re1) tx
          else if c = 36 \<and> re1 = [] then tx = []
          else case tx of [] \<Rightarrow> False | x # rest \<Rightarrow> (c = 46 \<or> c = x) \<and> matchhere re1 rest)"
| "matchstar c re tx =
     (matchhere re tx \<or> (case tx of [] \<Rightarrow> False | x # rest \<Rightarrow> (x = c \<or> c = 46) \<and> matchstar c re rest))"
  by pat_completeness auto
termination
  by (relation "inv_image (less_than <*lex*> less_than <*lex*> less_than)
      (case_sum (\<lambda>(re, tx). (length re, length tx, 0 :: nat)) (\<lambda>(c, re, tx). (length re, length tx, 1)))")
    (auto split: if_splits)

declare matchhere.simps [simp del] matchstar.simps [simp del]

fun match_from :: "u8 list \<Rightarrow> u8 list \<Rightarrow> bool" where
  "match_from re tx = (matchhere re tx \<or> (case tx of [] \<Rightarrow> False | x # rest \<Rightarrow> match_from re rest))"

declare match_from.simps [simp del]

definition grep_match :: "u8 list \<Rightarrow> u8 list \<Rightarrow> bool" where
  "grep_match re tx = (if re \<noteq> [] \<and> hd re = 94 then matchhere (tl re) tx else match_from re tx)"

text \<open>The lines in the buffer from \<open>p\<close> on: what is written, and the part after the last newline that \<open>strchr\<close>
  finds.\<close>

function grep_lines :: "u8 list \<Rightarrow> u8 list \<Rightarrow> u8 list \<times> u8 list" where
  "grep_lines pattern p =
     (if 10 \<in> set (takeWhile (\<lambda>x. x \<noteq> 0) p) then
        let line = takeWhile (\<lambda>x. x \<noteq> 10) p;
            (out, q) = grep_lines pattern (drop (Suc (length line)) p)
        in (if grep_match pattern line then line @ [10] @ out else out, q)
      else ([], p))"
  by auto
termination
  by (relation "measure (\<lambda>(_, p). length p)") (auto intro!: diff_less)

declare grep_lines.simps [simp del]

partial_function (option) grep_loop :: "('s \<Rightarrow> nat \<Rightarrow> u8 list \<times> 's) \<Rightarrow> u8 list \<Rightarrow> u8 list \<Rightarrow> u8 list \<Rightarrow> 's \<Rightarrow> u8 list option" where
  "grep_loop rd pattern out buf s =
     (let (bs, s) = rd s (1023 - length buf) in
      if bs = [] then Some out
      else
        let (o1, p) = grep_lines pattern (buf @ bs) in
        grep_loop rd pattern (out @ o1) (if length p = length (buf @ bs) then [] else p) s)"

declare grep_loop.simps [code]

definition grep :: "('s \<Rightarrow> nat \<Rightarrow> u8 list \<times> 's) \<Rightarrow> u8 list \<Rightarrow> 's \<Rightarrow> u8 list option" where
  "grep rd pattern s = grep_loop rd pattern [] [] s"

section \<open>Patterns\<close>

datatype item = One u8 | Star u8

fun items :: "u8 list \<Rightarrow> item list \<times> bool" where
  "items [] = ([], False)"
| "items [c] = (if c = 36 then ([], True) else ([One c], False))"
| "items (c # d # re) = (if d = 42 then map_prod ((#) (Star c)) id (items re) else map_prod ((#) (One c)) id (items (d # re)))"

definition fits_char :: "u8 \<Rightarrow> u8 \<Rightarrow> bool" where
  "fits_char c x \<longleftrightarrow> c = 46 \<or> c = x"

inductive lang :: "item list \<Rightarrow> u8 list \<Rightarrow> bool" where
  lang_Nil: "lang [] []"
| lang_One: "fits_char c x \<Longrightarrow> lang is u \<Longrightarrow> lang (One c # is) (x # u)"
| lang_skip: "lang is u \<Longrightarrow> lang (Star c # is) u"
| lang_Star: "fits_char c x \<Longrightarrow> lang (Star c # is) u \<Longrightarrow> lang (Star c # is) (x # u)"

inductive_simps lang_simps: "lang [] u" "lang (One c # is) u"
inductive_cases lang_StarE: "lang (Star c # is) u"

text \<open>A pattern matches at the start of a text: a prefix is in its language, all of the text if it ends in \<open>$\<close>.\<close>

definition pre :: "item list \<Rightarrow> bool \<Rightarrow> u8 list \<Rightarrow> bool" where
  "pre is a tx \<longleftrightarrow> (\<exists>u v. tx = u @ v \<and> lang is u \<and> (a \<longrightarrow> v = []))"

definition starts :: "u8 list \<Rightarrow> u8 list \<Rightarrow> bool" where
  "starts re tx \<longleftrightarrow> pre (fst (items re)) (snd (items re)) tx"

lemma pre_Nil: "pre [] a tx \<longleftrightarrow> (a \<longrightarrow> tx = [])"
  by (simp add: pre_def lang_simps)

lemma pre_One: "pre (One c # is) a tx \<longleftrightarrow> (case tx of [] \<Rightarrow> False | x # rest \<Rightarrow> fits_char c x \<and> pre is a rest)"
proof (cases tx)
  case (Cons x rest)
  have "(\<exists>u v. x # rest = u @ v \<and> lang (One c # is) u \<and> (a \<longrightarrow> v = [])) \<longleftrightarrow> (\<exists>u v. rest = u @ v \<and> fits_char c x \<and> lang is u \<and> (a \<longrightarrow> v = []))"
    by (auto simp: lang_simps Cons_eq_append_conv)
  then show ?thesis using Cons by (auto simp: pre_def)
qed (simp add: pre_def lang_simps)

lemma pre_Star: "pre (Star c # is) a tx \<longleftrightarrow> pre is a tx \<or> (case tx of [] \<Rightarrow> False | x # rest \<Rightarrow> fits_char c x \<and> pre (Star c # is) a rest)"
  (is "?l \<longleftrightarrow> ?r")
proof
  assume ?l
  then obtain u v where u: "tx = u @ v" "lang (Star c # is) u" "a \<longrightarrow> v = []" by (auto simp: pre_def)
  from u(2) show ?r by (rule lang_StarE) (use u in \<open>auto simp: pre_def\<close>)
next
  assume ?r
  then consider "pre is a tx" | x u v where "tx = x # u @ v" "fits_char c x" "lang (Star c # is) u" "a \<longrightarrow> v = []"
    by (auto simp: pre_def split: list.splits)
  then show ?l
  proof cases
    case 1
    then show ?thesis by (auto simp: pre_def intro: lang_skip)
  next
    case (2 x u v)
    then show ?thesis unfolding pre_def by (intro exI [of _ "x # u"] exI [of _ v]) (auto intro: lang_Star)
  qed
qed

lemma items_One: "\<not> (re \<noteq> [] \<and> hd re = 42) \<Longrightarrow> \<not> (c = 36 \<and> re = []) \<Longrightarrow> items (c # re) = map_prod ((#) (One c)) id (items re)"
  by (cases re) auto

lemma items_Star: "re \<noteq> [] \<and> hd re = 42 \<Longrightarrow> items (c # re) = map_prod ((#) (Star c)) id (items (tl re))"
  by (cases re) auto

lemma match_starts:
  "matchhere re tx \<longleftrightarrow> starts re tx"
  "matchstar c re tx \<longleftrightarrow> pre (Star c # fst (items re)) (snd (items re)) tx"
proof (induction re tx and c re tx rule: matchhere_matchstar.induct)
  case (1 re tx)
  show ?case
  proof (cases re)
    case (Cons c re1)
    note ih = 1 [OF Cons]
    show ?thesis
    proof (cases "re1 \<noteq> [] \<and> hd re1 = 42")
      case True
      then show ?thesis using ih(1) Cons by (simp add: matchhere.simps [of "c # re1"] starts_def items_Star)
    next
      case False
      then show ?thesis using ih(2) Cons
        by (cases "c = 36 \<and> re1 = []") (auto simp: matchhere.simps [of "c # re1"] matchhere.simps [of "[36]"] starts_def items_One pre_One pre_Nil fits_char_def split: list.splits)
    qed
  qed (simp add: matchhere.simps starts_def pre_Nil)
next
  case (2 c re tx)
  then show ?case
    by (subst matchstar.simps, subst pre_Star) (auto simp: starts_def fits_char_def split: list.splits)
qed

lemma match_from_starts: "match_from re tx \<longleftrightarrow> (\<exists>pr rest. tx = pr @ rest \<and> starts re rest)"
proof (induction tx)
  case (Cons x tx)
  then show ?case by (simp add: match_from.simps [of re "x # tx"] match_starts Cons_eq_append_conv) blast
qed (simp add: match_from.simps match_starts)

text \<open>
  C21. \<open>match\<close> of grep decides its patterns: with a first \<open>^\<close> a prefix of the text has to be in the language of the pattern,
  otherwise some part of it; with a final \<open>$\<close> that part ends where the text ends.
\<close>

theorem grep_match_language:
  "grep_match re tx \<longleftrightarrow>
    (let anchored = re \<noteq> [] \<and> hd re = 94; (is, last) = items (if anchored then tl re else re) in
     \<exists>a u b. tx = a @ u @ b \<and> lang is u \<and> (anchored \<longrightarrow> a = []) \<and> (last \<longrightarrow> b = []))"
  by (auto simp: grep_match_def match_starts match_from_starts starts_def pre_def Let_def split: prod.splits)

section \<open>Lines\<close>

text \<open>The complete lines of a file, and what follows the last newline.\<close>

fun split_lines :: "u8 list \<Rightarrow> u8 list list \<times> u8 list" where
  "split_lines [] = ([], [])"
| "split_lines (x # xs) =
     (case split_lines xs of
        ([], tail) \<Rightarrow> if x = 10 then ([[]], tail) else ([], x # tail)
      | (l # ls, tail) \<Rightarrow> if x = 10 then ([] # l # ls, tail) else ((x # l) # ls, tail))"

abbreviation lines :: "u8 list \<Rightarrow> u8 list list" where
  "lines f \<equiv> fst (split_lines f)"

definition selected :: "u8 list \<Rightarrow> u8 list list \<Rightarrow> u8 list" where
  "selected pattern ls = concat (map (\<lambda>l. l @ [10]) (filter (grep_match pattern) ls))"

text \<open>\<open>read\<close> of a file: the bytes that are left, as many as asked for.\<close>

definition file_read :: "u8 list \<Rightarrow> nat \<Rightarrow> u8 list \<times> u8 list" where
  "file_read f n = (take n f, drop n f)"

lemma split_none: "10 \<notin> set xs \<Longrightarrow> split_lines xs = ([], xs)"
  by (induction xs) auto

lemma split_line: "10 \<notin> set l \<Longrightarrow> split_lines (l @ 10 # xs) = (l # lines xs, snd (split_lines xs))"
  by (induction l) (auto split: prod.splits list.splits)

lemma line_cases:
  assumes "10 \<in> set xs"
  shows "\<exists>ys. xs = takeWhile (\<lambda>x. x \<noteq> 10) xs @ 10 # ys \<and> drop (Suc (length (takeWhile (\<lambda>x. x \<noteq> 10) xs))) xs = ys \<and> 10 \<notin> set (takeWhile (\<lambda>x. x \<noteq> 10) xs)"
  using assms by (induction xs) auto

lemma grep_lines_selected:
  "0 \<notin> set p \<Longrightarrow> grep_lines pattern p = (selected pattern (lines p), snd (split_lines p))"
proof (induction pattern p rule: grep_lines.induct)
  case (1 pattern p)
  have z: "takeWhile (\<lambda>x. x \<noteq> 0) p = p" using 1(2) by (auto simp: takeWhile_eq_all_conv)
  show ?case
  proof (cases "10 \<in> set p")
    case True
    define l where "l = takeWhile (\<lambda>x. x \<noteq> 10) p"
    obtain ys where y: "p = l @ 10 # ys" "drop (Suc (length l)) p = ys" "10 \<notin> set l" using line_cases [OF True] unfolding l_def by blast
    have "grep_lines pattern ys = (selected pattern (lines ys), snd (split_lines ys))"
      using 1(1) [of l] True z y 1(2) set_drop_subset [of "Suc (length l)" p] unfolding l_def by auto
    then have "grep_lines pattern p = (if grep_match pattern l then l @ [10] @ selected pattern (lines ys) else selected pattern (lines ys), snd (split_lines ys))"
      using True y(2) by (subst grep_lines.simps) (simp add: z l_def [symmetric] Let_def)
    then show ?thesis using split_line [OF y(3), of ys] y(1) by (simp add: selected_def)
  qed (simp add: grep_lines.simps [of _ p] z split_none selected_def)
qed

lemma split_append:
  "split_lines (xs @ ys) = (lines xs @ lines (snd (split_lines xs) @ ys), snd (split_lines (snd (split_lines xs) @ ys)))"
proof (induction xs)
  case (Cons x xs)
  show ?case
  proof (cases "split_lines xs")
    case (Pair ls tail)
    then show ?thesis using Cons by (cases ls) (auto split: prod.splits list.splits)
  qed
qed simp

lemma split_tail: "10 \<notin> set (snd (split_lines xs))" "length (snd (split_lines xs)) \<le> length xs"
    "10 \<in> set xs \<Longrightarrow> length (snd (split_lines xs)) < length xs" "set (snd (split_lines xs)) \<subseteq> set xs"
  by (induction xs) (auto split: prod.splits list.splits simp: split_none)

lemma long_line: "10 \<in> set (xs @ ys) \<Longrightarrow> 10 \<notin> set xs \<Longrightarrow> \<exists>l\<in>set (lines (xs @ ys)). length xs \<le> length l"
proof -
  assume h: "10 \<in> set (xs @ ys)" "10 \<notin> set xs"
  then obtain w zs where y: "ys = w @ 10 # zs" "10 \<notin> set w" using line_cases [of ys] by auto
  then have "split_lines (xs @ ys) = ((xs @ w) # lines zs, snd (split_lines zs))" using split_line [of "xs @ w" zs] h(2) by simp
  then show ?thesis by simp
qed

lemma grep_loop_file:
  "0 \<notin> set (buf @ f) \<Longrightarrow> 10 \<notin> set buf \<Longrightarrow> length buf < 1023 \<Longrightarrow> \<forall>l\<in>set (lines (buf @ f)). length l < 1023 \<Longrightarrow>
    grep_loop file_read pattern out buf f = Some (out @ selected pattern (lines (buf @ f)))"
proof (induction "length f" arbitrary: f buf out rule: less_induct)
  case less
  show ?case
  proof (cases "f = []")
    case True
    then show ?thesis using less.prems by (simp add: grep_loop.simps [of file_read] file_read_def split_none selected_def)
  next
    case False
    define n where "n = 1023 - length buf"
    define b g p where "b = buf @ take n f" and "g = drop n f" and "p = snd (split_lines b)"
    have bg: "buf @ f = b @ g" by (simp add: b_def g_def)
    have n: "take n f \<noteq> []" "length g < length f" using False less.prems(3) by (cases f; auto simp: n_def g_def)+
    have z: "0 \<notin> set b" "0 \<notin> set g" using less.prems(1) unfolding bg by auto
    have run: "grep_loop file_read pattern out buf f =
        grep_loop file_read pattern (out @ selected pattern (lines b)) (if length p = length b then [] else p) g"
      using n(1) grep_lines_selected [OF z(1)] by (subst grep_loop.simps) (simp add: file_read_def n_def [symmetric] b_def [symmetric] g_def [symmetric] p_def [symmetric])
    note sp = split_append [of b g, folded p_def]
    show ?thesis
    proof (cases "10 \<in> set b")
      case True
      have q: "10 \<notin> set p" "length p < length b" "0 \<notin> set (p @ g)" using split_tail [of b] True z by (auto simp: p_def)
      have "length b \<le> 1023" using less.prems(3) by (simp add: b_def n_def)
      then have "grep_loop file_read pattern (out @ selected pattern (lines b)) p g = Some ((out @ selected pattern (lines b)) @ selected pattern (lines (p @ g)))"
        using less.hyps [OF n(2) q(3,1)] q(2) less.prems(4) sp bg by simp
      then show ?thesis using run q(2) sp unfolding bg by (simp add: selected_def)
    next
      case False
      then have s: "split_lines b = ([], b)" by (rule split_none)
      have l: "lines (b @ g) = lines g"
      proof (cases "g = []")
        case True
        then show ?thesis using s by simp
      next
        case False
        then have "length b = 1023" using less.prems(3) by (simp add: b_def g_def n_def)
        then have "10 \<notin> set (b @ g)" using long_line [of b g] \<open>10 \<notin> set b\<close> less.prems(4) unfolding bg by fastforce
        then show ?thesis using split_none [of "b @ g"] split_none [of g] by simp
      qed
      have "grep_loop file_read pattern out [] g = Some (out @ selected pattern (lines g))"
        using less.hyps [OF n(2), of "[]"] less.prems(4) z(2) l unfolding bg by simp
      then show ?thesis using run s l unfolding bg p_def by (simp add: selected_def)
    qed
  qed
qed

text \<open>
  C24. On a file without NUL bytes whose lines have at most 1022 bytes, \<open>grep\<close> ends and writes exactly the lines
  that match the pattern, in order, each with its newline; the bytes after the last newline are ignored.
\<close>

theorem grep_selects:
  assumes "0 \<notin> set f" "\<forall>l\<in>set (lines f). length l \<le> 1022"
  shows "grep file_read pattern f = Some (concat (map (\<lambda>l. l @ [10]) (filter (grep_match pattern) (lines f))))"
proof -
  have "\<forall>l\<in>set (lines f). length l < 1023" using assms(2) by fastforce
  then show ?thesis using grep_loop_file [of "[]" f pattern "[]"] assms(1) by (simp add: grep_def selected_def)
qed

text \<open>A reader that gives the line in two parts: the first part is dropped.\<close>

fun part_read :: "u8 list list \<Rightarrow> nat \<Rightarrow> u8 list \<times> u8 list list" where
  "part_read [] n = ([], [])"
| "part_read (c # cs) n = (take n c, if n < length c then drop n c # cs else cs)"

lemma grep_drops_part: "grep part_read [97, 98] [[97], [98, 10]] = Some [] \<and> grep file_read [97, 98] [97, 98, 10] = Some [97, 98, 10]"
  by code_simp

theorem grep_selects_witness:
  "grep file_read [94, 97, 46, 42, 36] [97, 98, 10, 98, 97, 10, 97] = Some [97, 98, 10]"
proof -
  have "grep_match [94, 97, 46, 42, 36] [97, 98]" "\<not> grep_match [94, 97, 46, 42, 36] [98, 97]" by code_simp+
  then show ?thesis using grep_selects [of "[97, 98, 10, 98, 97, 10, 97]" "[94, 97, 46, 42, 36]"] by simp
qed

theorem grep_match_language_witness:
  "grep_match [97, 46, 42, 99, 36] [120, 97, 98, 99] \<and>
    (\<exists>a u b. [120, 97, 98, 99] = a @ u @ b \<and> lang [One 97, Star 46, One 99] u \<and> b = [])"
proof -
  have m: "grep_match [97, 46, 42, 99, 36] [120, 97, 98, 99]" by code_simp
  then show ?thesis using grep_match_language [of "[97, 46, 42, 99, 36]" "[120, 97, 98, 99]"] by simp
qed

end
