(* ===== verification/Console.thy ===== *)
theory Console
  imports Prelude
begin

text \<open>
  The console (console.c) and the printing routines of printf.c. The screen is the text memory \<open>crt\<close> with the cursor
  position of its controller; \<open>serial\<close> are the bytes sent to the serial port, which uart.c drives. The keys that
  \<open>getc\<close> returns before it has no more are the list given to \<open>consoleintr\<close>. \<open>consoleread\<close> is cut where it
  sleeps: a run goes from its start, or from the return of \<open>sleep\<close>, to its end or to the next \<open>sleep\<close>. The lock
  of the console is held throughout a run; the inode lock, which is given up and taken again around it, belongs to the
  file system.
\<close>

section \<open>Screen\<close>

record console =
  cons_buf :: "u8 list"
  cons_r :: u32
  cons_w :: u32
  cons_e :: u32
  crt :: "u16 list"
  crt_pos :: int
  serial :: "u8 list"
  panicked :: bool

abbreviation BACKSPACE :: int where
  "BACKSPACE \<equiv> 0x100"

text \<open>\<open>memmove\<close> of the rows 1 to 23 to the top, and clearing the rest of row 23.\<close>

definition scroll_up :: "int \<Rightarrow> u16 list \<Rightarrow> u16 list" where
  "scroll_up p m =
     (let m = take (23 * 80) (drop 80 m) @ drop (23 * 80) m in
      take (nat p) m @ replicate (24 * 80 - nat p) 0 @ drop (24 * 80) m)"

definition cgaputc :: "int \<Rightarrow> console \<Rightarrow> console outcome" where
  "cgaputc c s =
     obind (if c = 10 then Ok (crt_pos s + (80 - crt_pos s smod 80), crt s)
            else if c = BACKSPACE then Ok (if crt_pos s > 0 then crt_pos s - 1 else crt_pos s, crt s)
            else obind (arr_set (crt s) (crt_pos s) (word_of_int (c AND 0xFF) OR 0x700)) (\<lambda>m. Ok (crt_pos s + 1, m)))
       (\<lambda>(p, m).
     if p < 0 \<or> p > 25 * 80 then Panic ''pos under/overflow''
     else
       let (p, m) = (if p div 80 \<ge> 24 then (p - 80, scroll_up (p - 80) m) else (p, m)) in
       obind (arr_set m p (32 OR 0x700)) (\<lambda>m. Ok (s\<lparr>crt := m, crt_pos := p\<rparr>)))"

definition uartputc :: "int \<Rightarrow> console \<Rightarrow> console" where
  "uartputc c s = s\<lparr>serial := serial s @ [word_of_int c]\<rparr>"

definition consputc :: "int \<Rightarrow> console \<Rightarrow> console outcome" where
  "consputc c s =
     (if panicked s then Diverge
      else cgaputc c (if c = BACKSPACE then uartputc 8 (uartputc 32 (uartputc 8 s)) else uartputc c s))"

fun consputs :: "u8 list \<Rightarrow> console \<Rightarrow> console outcome" where
  "consputs [] s = Ok s"
| "consputs (c # cs) s = obind (consputc (uint c) s) (consputs cs)"

section \<open>Numbers and formats\<close>

text \<open>The digits as they are printed, the most significant first; \<open>room\<close> is what is left of the sixteen
  characters of \<open>buf\<close>.\<close>

fun int_digits :: "nat \<Rightarrow> u8 list \<Rightarrow> u32 \<Rightarrow> u32 \<Rightarrow> u8 list outcome" where
  "int_digits 0 digits base x = Fault"
| "int_digits (Suc room) digits base x =
     (if base = 0 then Fault
      else
        obind (arr_get digits (uint (x mod base))) (\<lambda>d.
        if x div base = 0 then Ok [d] else obind (int_digits room digits base (x div base)) (\<lambda>r. Ok (r @ [d]))))"

definition int_chars :: "u8 list \<Rightarrow> int \<Rightarrow> u32 \<Rightarrow> bool \<Rightarrow> u8 list outcome" where
  "int_chars digits xx base sign =
     (if sign \<and> xx < 0 then
        if c_int (- xx) then
          obind (int_digits 16 digits base (to_uint (- xx))) (\<lambda>r. if length r < 16 then Ok (45 # r) else Fault)
        else Fault
      else int_digits 16 digits base (to_uint xx))"

definition printint :: "int \<Rightarrow> u32 \<Rightarrow> bool \<Rightarrow> u8 list outcome" where
  "printint = int_chars [48, 49, 50, 51, 52, 53, 54, 55, 56, 57, 97, 98, 99, 100, 101, 102]"

definition u_printint :: "int \<Rightarrow> u32 \<Rightarrow> bool \<Rightarrow> u8 list outcome" where
  "u_printint = int_chars [48, 49, 50, 51, 52, 53, 54, 55, 56, 57, 65, 66, 67, 68, 69, 70]"

text \<open>The characters that a format gives. \<open>args\<close> are the words after \<open>fmt\<close> on the stack, and \<open>str\<close> the string at an
  address.\<close>

definition null_string :: "u8 list" where
  "null_string = [40, 110, 117, 108, 108, 41]"

definition next_arg :: "u32 list \<Rightarrow> (u32 \<Rightarrow> u32 list \<Rightarrow> 'a outcome) \<Rightarrow> 'a outcome" where
  "next_arg args f = (case args of [] \<Rightarrow> Fault | a # args \<Rightarrow> f a args)"

definition emit :: "u8 list \<Rightarrow> u8 list outcome \<Rightarrow> u8 list outcome" where
  "emit cs r = obind r (\<lambda>out. Ok (cs @ out))"

fun cprintf_chars :: "(u32 \<Rightarrow> u8 list) \<Rightarrow> u8 list \<Rightarrow> u32 list \<Rightarrow> u8 list outcome" where
  "cprintf_chars str [] args = Ok []"
| "cprintf_chars str [c] args = (if c = 37 then Ok [] else Ok [c])"
| "cprintf_chars str (c # d # fmt) args =
     (if c \<noteq> 37 then emit [c] (cprintf_chars str (d # fmt) args)
      else if d = 100 then next_arg args (\<lambda>a args. obind (printint (to_int a) 10 True) (\<lambda>cs. emit cs (cprintf_chars str fmt args)))
      else if d = 120 \<or> d = 112 then next_arg args (\<lambda>a args. obind (printint (to_int a) 16 False) (\<lambda>cs. emit cs (cprintf_chars str fmt args)))
      else if d = 115 then next_arg args (\<lambda>a args. emit (if a = 0 then null_string else str a) (cprintf_chars str fmt args))
      else if d = 37 then emit [37] (cprintf_chars str fmt args)
      else emit [37, d] (cprintf_chars str fmt args))"

definition cprintf :: "(u32 \<Rightarrow> u8 list) \<Rightarrow> u8 list \<Rightarrow> u32 list \<Rightarrow> console \<Rightarrow> console outcome" where
  "cprintf str fmt args s = obind (cprintf_chars str fmt args) (\<lambda>cs. consputs cs s)"

fun printf_chars :: "(u32 \<Rightarrow> u8 list) \<Rightarrow> bool \<Rightarrow> u8 list \<Rightarrow> u32 list \<Rightarrow> u8 list outcome" where
  "printf_chars str percent [] args = Ok []"
| "printf_chars str False (c # fmt) args =
     (if c = 37 then printf_chars str True fmt args else emit [c] (printf_chars str False fmt args))"
| "printf_chars str True (c # fmt) args =
     (if c = 100 then next_arg args (\<lambda>a args. obind (u_printint (to_int a) 10 True) (\<lambda>cs. emit cs (printf_chars str False fmt args)))
      else if c = 120 \<or> c = 112 then next_arg args (\<lambda>a args. obind (u_printint (to_int a) 16 False) (\<lambda>cs. emit cs (printf_chars str False fmt args)))
      else if c = 115 then next_arg args (\<lambda>a args. emit (if a = 0 then null_string else str a) (printf_chars str False fmt args))
      else if c = 99 then next_arg args (\<lambda>a args. emit [ucast a] (printf_chars str False fmt args))
      else if c = 37 then emit [c] (printf_chars str False fmt args)
      else emit [37, c] (printf_chars str False fmt args))"

definition u_printf :: "(u32 \<Rightarrow> u8 list) \<Rightarrow> u8 list \<Rightarrow> u32 list \<Rightarrow> u8 list outcome" where
  "u_printf str fmt args = printf_chars str False fmt args"

section \<open>Input\<close>

definition cell :: "u32 \<Rightarrow> nat" where
  "cell i = unat (i mod 128)"

fun kill_line :: "nat \<Rightarrow> console \<Rightarrow> console outcome" where
  "kill_line 0 s = Diverge"
| "kill_line (Suc n) s =
     (if cons_e s \<noteq> cons_w s \<and> cons_buf s ! cell (cons_e s - 1) \<noteq> 10 then
        obind (consputc BACKSPACE (s\<lparr>cons_e := cons_e s - 1\<rparr>)) (kill_line n)
      else Ok s)"

text \<open>One key: whether the process list is wanted, whether readers are woken, and the new state.\<close>

definition console_key :: "int \<Rightarrow> console \<Rightarrow> (bool \<times> bool \<times> console) outcome" where
  "console_key c s =
     (if c = 16 then Ok (True, False, s)
      else if c = 21 then obind (kill_line (Suc (unat (cons_e s - cons_w s))) s) (\<lambda>s. Ok (False, False, s))
      else if c = 8 \<or> c = 127 then
        if cons_e s \<noteq> cons_w s then
          obind (consputc BACKSPACE (s\<lparr>cons_e := cons_e s - 1\<rparr>)) (\<lambda>s. Ok (False, False, s))
        else Ok (False, False, s)
      else if c \<noteq> 0 \<and> cons_e s - cons_r s < 128 then
        let c = (if c = 13 then 10 else c) in
        obind (consputc c (s\<lparr>cons_buf := (cons_buf s)[cell (cons_e s) := word_of_int c], cons_e := cons_e s + 1\<rparr>)) (\<lambda>s.
        if c = 10 \<or> c = 4 \<or> cons_e s = cons_r s + 128 then Ok (False, True, s\<lparr>cons_w := cons_e s\<rparr>) else Ok (False, False, s))
      else Ok (False, False, s))"

fun consoleintr :: "int list \<Rightarrow> console \<Rightarrow> (bool \<times> bool \<times> console) outcome" where
  "consoleintr [] s = Ok (False, False, s)"
| "consoleintr (c # cs) s =
     obind (console_key c s) (\<lambda>(dump, wake, s).
     obind (consoleintr cs s) (\<lambda>(dump', wake', s). Ok (dump \<or> dump', wake \<or> wake', s)))"

text \<open>\<open>got\<close> are the bytes stored at \<open>dst\<close> so far, \<open>n\<close> the room that is left.\<close>

datatype cread = Done "u8 list" | Killed | Sleeping nat "u8 list"

fun consoleread_run :: "nat \<Rightarrow> u8 list \<Rightarrow> bool \<Rightarrow> console \<Rightarrow> cread \<times> console" where
  "consoleread_run 0 got killed s = (Done got, s)"
| "consoleread_run (Suc n) got killed s =
     (if cons_r s = cons_w s then (if killed then Killed else Sleeping (Suc n) got, s)
      else
        let c = cons_buf s ! cell (cons_r s); s1 = s\<lparr>cons_r := cons_r s + 1\<rparr> in
        if c = 4 then (Done got, if got \<noteq> [] then s else s1)
        else if c = 10 then (Done (got @ [c]), s1)
        else consoleread_run n (got @ [c]) killed s1)"

definition consoleread :: "int \<Rightarrow> bool \<Rightarrow> console \<Rightarrow> cread \<times> console" where
  "consoleread n killed s = consoleread_run (nat n) [] killed s"

definition consolewrite :: "u8 list \<Rightarrow> console \<Rightarrow> (int \<times> console) outcome" where
  "consolewrite bs s = obind (consputs bs s) (\<lambda>s. Ok (int (length bs), s))"

section \<open>The screen never overflows\<close>

definition screen_ok :: "console \<Rightarrow> bool" where
  "screen_ok s \<longleftrightarrow> 24 * 80 < length (crt s) \<and> 0 \<le> crt_pos s \<and> crt_pos s < 24 * 80 \<and> \<not> panicked s"

lemma length_scroll_up: "0 \<le> p \<Longrightarrow> p \<le> 24 * 80 \<Longrightarrow> 24 * 80 < length m \<Longrightarrow> length (scroll_up p m) = length m"
  by (simp add: scroll_up_def Let_def)

lemma cgaputc_ok:
  assumes "screen_ok s"
  shows "\<exists>m p. cgaputc c s = Ok (s\<lparr>crt := m, crt_pos := p\<rparr>) \<and> screen_ok (s\<lparr>crt := m, crt_pos := p\<rparr>)"
proof -
  have h: "1920 < length (crt s)" "0 \<le> crt_pos s" "crt_pos s < 1920" "\<not> panicked s" using assms by (simp_all add: screen_ok_def)
  have sm: "crt_pos s smod 80 = crt_pos s mod 80" using h(2) by (cases "crt_pos s = 0") (auto simp: smod_int_alt_def sgn_if)
  have "crt_pos s div 80 \<le> 23" using h(3) zdiv_mono1 [of "crt_pos s" 1919 80] by simp
  then have "crt_pos s + (80 - crt_pos s mod 80) \<le> 1920" "0 \<le> crt_pos s + (80 - crt_pos s mod 80)"
    using h(2) div_mult_mod_eq [of "crt_pos s" 80] pos_mod_bound [of 80 "crt_pos s"] by linarith+
  then have "\<exists>p m. (if c = 10 then Ok (crt_pos s + (80 - crt_pos s smod 80), crt s)
            else if c = BACKSPACE then Ok (if crt_pos s > 0 then crt_pos s - 1 else crt_pos s, crt s)
            else obind (arr_set (crt s) (crt_pos s) (word_of_int (c AND 0xFF) OR 0x700)) (\<lambda>m. Ok (crt_pos s + 1, m))) = Ok (p, m) \<and>
      0 \<le> p \<and> p \<le> 1920 \<and> length m = length (crt s)"
    using h by (simp add: sm arr_set_def)
  then obtain p m where pm: "(if c = 10 then Ok (crt_pos s + (80 - crt_pos s smod 80), crt s)
            else if c = BACKSPACE then Ok (if crt_pos s > 0 then crt_pos s - 1 else crt_pos s, crt s)
            else obind (arr_set (crt s) (crt_pos s) (word_of_int (c AND 0xFF) OR 0x700)) (\<lambda>m. Ok (crt_pos s + 1, m))) = Ok (p, m)"
    and r: "0 \<le> p" "p \<le> 1920" "length m = length (crt s)" by blast
  have "p div 80 \<ge> 24 \<longleftrightarrow> p = 1920" using r(1,2) zdiv_mono1 [of p 1919 80] by auto
  define P M where "P = (if p = 1920 then 1840 else p)" and "M = (if p = 1920 then scroll_up 1840 m else m)[nat P := 32 OR 0x700]"
  have "cgaputc c s = Ok (s\<lparr>crt := M, crt_pos := P\<rparr>)"
    using pm r h \<open>p div 80 \<ge> 24 \<longleftrightarrow> p = 1920\<close> by (simp add: cgaputc_def arr_set_def length_scroll_up P_def M_def)
  moreover have "screen_ok (s\<lparr>crt := M, crt_pos := P\<rparr>)" using r h by (simp add: screen_ok_def length_scroll_up P_def M_def)
  ultimately show ?thesis by blast
qed

lemma consputc_ok:
  assumes "screen_ok s"
  shows "\<exists>t m p. consputc c s = Ok (s\<lparr>serial := t, crt := m, crt_pos := p\<rparr>) \<and> screen_ok (s\<lparr>serial := t, crt := m, crt_pos := p\<rparr>)"
proof -
  define t where "t = serial s @ (if c = BACKSPACE then [8, 32, 8] else [word_of_int c])"
  have "consputc c s = cgaputc c (s\<lparr>serial := t\<rparr>)" using assms by (simp add: consputc_def uartputc_def screen_ok_def t_def)
  moreover have "screen_ok (s\<lparr>serial := t\<rparr>)" using assms by (simp add: screen_ok_def)
  ultimately show ?thesis using cgaputc_ok [of "s\<lparr>serial := t\<rparr>" c] by metis
qed

section \<open>The input buffer as two lists\<close>

definition ring :: "u8 list \<Rightarrow> u32 \<Rightarrow> nat \<Rightarrow> u8 list" where
  "ring b r n = map (\<lambda>k. b ! cell (r + of_nat k)) [0..<n]"

definition ready :: "console \<Rightarrow> u8 list" where
  "ready s = ring (cons_buf s) (cons_r s) (unat (cons_w s - cons_r s))"

definition editing :: "console \<Rightarrow> u8 list" where
  "editing s = ring (cons_buf s) (cons_w s) (unat (cons_e s - cons_w s))"

definition input_ok :: "console \<Rightarrow> bool" where
  "input_ok s \<longleftrightarrow> length (cons_buf s) = 128 \<and> unat (cons_w s - cons_r s) + unat (cons_e s - cons_w s) \<le> 128 \<and> 10 \<notin> set (editing s)"

lemma length_ring [simp]: "length (ring b r n) = n"
  by (simp add: ring_def)

lemma cell_add: "cell (r + of_nat k) = (unat r + k) mod 128"
proof -
  have "unat (r + of_nat k) mod 128 = (unat r + k) mod 128"
    by (simp add: unat_word_ariths unat_of_nat mod_mod_cancel mod_add_right_eq)
  then show ?thesis by (simp add: cell_def unat_mod_distrib)
qed

lemma cell_less: "cell i < 128"
  by (simp add: cell_def unat_mod_distrib)

lemma ring_Suc: "ring b r (Suc n) = ring b r n @ [b ! cell (r + of_nat n)]"
  by (simp add: ring_def)

lemma ring_add: "ring b r (m + n) = ring b r m @ ring b (r + of_nat m) n"
  by (induction n) (simp_all add: ring_Suc ring_def [of _ _ 0] add.assoc)

lemma ring_Cons: "ring b r (Suc n) = b ! cell r # ring b (r + 1) n"
  using ring_add [of b r 1 n] by (simp add: ring_def)

lemma ring_update:
  assumes "length b = 128" "n < 128"
  shows "ring (b[cell (r + of_nat n) := x]) r (Suc n) = ring b r n @ [x]"
proof -
  have "cell (r + of_nat j) \<noteq> cell (r + of_nat n)" if "j < n" for j
    using mod_shift_inj [of "unat r" j 128 n] that assms(2) by (auto simp: cell_add)
  then have "ring (b[cell (r + of_nat n) := x]) r n = ring b r n" unfolding ring_def by (intro map_cong refl) (metis atLeastLessThan_iff nth_list_update_neq set_upt)
  then show ?thesis using assms(1) cell_less by (simp add: ring_Suc)
qed

text \<open>Both lists together are the cells from \<open>r\<close> to \<open>e\<close>.\<close>

lemma input_total:
  assumes "input_ok s"
  shows "unat (cons_e s - cons_r s) = length (ready s) + length (editing s)"
    "ready s @ editing s = ring (cons_buf s) (cons_r s) (length (ready s) + length (editing s))"
    "cons_w s = cons_r s + of_nat (length (ready s))" "cons_e s = cons_r s + of_nat (length (ready s) + length (editing s))"
proof -
  have le: "unat (cons_w s - cons_r s) + unat (cons_e s - cons_w s) \<le> 128" using assms by (simp add: input_ok_def)
  have "unat (cons_e s - cons_r s) = unat ((cons_w s - cons_r s) + (cons_e s - cons_w s))" by simp
  also have "\<dots> = unat (cons_w s - cons_r s) + unat (cons_e s - cons_w s)" using le by (subst unat_plus_if') simp
  finally show u: "unat (cons_e s - cons_r s) = length (ready s) + length (editing s)" by (simp add: ready_def editing_def)
  show w: "cons_w s = cons_r s + of_nat (length (ready s))" by (simp add: ready_def)
  show "cons_e s = cons_r s + of_nat (length (ready s) + length (editing s))" unfolding u [symmetric] by simp
  show "ready s @ editing s = ring (cons_buf s) (cons_r s) (length (ready s) + length (editing s))"
    using w by (simp add: ring_add) (simp add: ready_def editing_def)
qed


definition holds :: "console \<Rightarrow> u8 list \<Rightarrow> u8 list \<Rightarrow> bool" where
  "holds s rd ed \<longleftrightarrow> length (cons_buf s) = 128 \<and> length rd + length ed \<le> 128 \<and> cons_w s = cons_r s + of_nat (length rd) \<and>
     cons_e s = cons_r s + of_nat (length rd + length ed) \<and> ring (cons_buf s) (cons_r s) (length rd + length ed) = rd @ ed"

lemma unat_small: "k \<le> 128 \<Longrightarrow> unat (of_nat k :: u32) = k"
  by (simp add: unat_of_nat)

lemma holds_iff: "input_ok s \<and> ready s = rd \<and> editing s = ed \<longleftrightarrow> holds s rd ed \<and> 10 \<notin> set ed"
proof
  assume h: "input_ok s \<and> ready s = rd \<and> editing s = ed"
  have "length (ready s) + length (editing s) \<le> 128" "length (cons_buf s) = 128" "10 \<notin> set (editing s)"
    using h by (auto simp: input_ok_def ready_def editing_def)
  then show "holds s rd ed \<and> 10 \<notin> set ed" using input_total(2,3,4) [of s] h unfolding holds_def by metis
next
  assume h: "holds s rd ed \<and> 10 \<notin> set ed"
  then have u: "unat (cons_w s - cons_r s) = length rd" "unat (cons_e s - cons_w s) = length ed"
    by (simp_all add: holds_def unat_small)
  have "ready s @ editing s = rd @ ed" using h u by (simp add: holds_def ready_def editing_def ring_add)
  then have "ready s = rd" "editing s = ed" using u by (simp_all add: ready_def editing_def)
  then show "input_ok s \<and> ready s = rd \<and> editing s = ed" using h u by (simp add: input_ok_def holds_def)
qed

lemma holds_cong:
  "cons_buf s' = cons_buf s \<Longrightarrow> cons_r s' = cons_r s \<Longrightarrow> cons_w s' = cons_w s \<Longrightarrow> cons_e s' = cons_e s \<Longrightarrow> holds s' rd ed = holds s rd ed"
  by (simp add: holds_def)

lemma holds_tests:
  assumes "holds s rd ed"
  shows "cons_e s = cons_w s \<longleftrightarrow> ed = []" "ed \<noteq> [] \<Longrightarrow> cons_buf s ! cell (cons_e s - 1) = last ed"
    "cons_e s - cons_r s < 128 \<longleftrightarrow> length rd + length ed < 128" "cons_e s = cons_r s + 128 \<longleftrightarrow> length rd + length ed = 128"
    "cons_r s = cons_w s \<longleftrightarrow> rd = []"
proof -
  note h = assms [unfolded holds_def]
  have n: "(of_nat k :: u32) = of_nat j \<longleftrightarrow> k = j" if "k \<le> 128" "j \<le> 128" for k j using unat_small that by metis
  show "cons_e s = cons_w s \<longleftrightarrow> ed = []" using h n [of "length ed" 0] by simp
  show "cons_r s = cons_w s \<longleftrightarrow> rd = []" using h n [of "length rd" 0] by (simp del: of_nat_add)
  show "cons_e s - cons_r s < 128 \<longleftrightarrow> length rd + length ed < 128"
    using h unat_small [of "length rd + length ed"] by (simp add: word_less_nat_alt del: of_nat_add)
  show "cons_e s = cons_r s + 128 \<longleftrightarrow> length rd + length ed = 128"
    using h n [of "length rd + length ed" 128] by (simp del: of_nat_add)
  assume "ed \<noteq> []"
  then obtain es x where e: "ed = es @ [x]" by (metis append_butlast_last_id)
  then show "cons_buf s ! cell (cons_e s - 1) = last ed" using h by (simp add: ring_Suc)
qed

lemma holds_put:
  assumes "holds s rd ed" "length rd + length ed < 128"
  shows "holds (s\<lparr>cons_buf := (cons_buf s)[cell (cons_e s) := x], cons_e := cons_e s + 1\<rparr>) rd (ed @ [x])"
  using assms ring_update [of "cons_buf s" "length rd + length ed" "cons_r s" x] by (simp add: holds_def)

lemma holds_drop: "holds s rd (ed @ [x]) \<Longrightarrow> holds (s\<lparr>cons_e := cons_e s - 1\<rparr>) rd ed"
  by (simp add: holds_def ring_Suc)

lemma holds_commit: "holds s rd ed \<Longrightarrow> holds (s\<lparr>cons_w := cons_e s\<rparr>) (rd @ ed) []"
  by (simp add: holds_def)


section \<open>Typing and reading\<close>

text \<open>What a key does to the bytes that are ready for reading and to the line that is being typed.\<close>

definition typed :: "int \<Rightarrow> u8 list \<times> u8 list \<Rightarrow> u8 list \<times> u8 list" where
  "typed c = (\<lambda>(rd, ed).
     if c = 16 \<or> c = 0 then (rd, ed)
     else if c = 21 then (rd, [])
     else if c = 8 \<or> c = 127 then (rd, butlast ed)
     else if length rd + length ed < 128 then
       let x = (if c = 13 then 10 else word_of_int c) in
       if x = 10 \<or> x = 4 \<or> length rd + length ed = 127 then (rd @ ed @ [x], []) else (rd, ed @ [x])
     else (rd, ed))"

lemma echo:
  assumes "screen_ok s" "holds s rd ed"
  shows "\<exists>s'. consputc c s = Ok s' \<and> screen_ok s' \<and> holds s' rd ed \<and> cons_r s' = cons_r s \<and> cons_e s' = cons_e s"
proof -
  obtain t m p where "consputc c s = Ok (s\<lparr>serial := t, crt := m, crt_pos := p\<rparr>)" "screen_ok (s\<lparr>serial := t, crt := m, crt_pos := p\<rparr>)"
    using consputc_ok [OF assms(1)] by blast
  moreover have "holds (s\<lparr>serial := t, crt := m, crt_pos := p\<rparr>) rd ed" using assms(2) by (simp add: holds_def)
  ultimately show ?thesis by simp
qed

lemma screen_input [simp]: "screen_ok (s\<lparr>cons_e := e\<rparr>) = screen_ok s" "screen_ok (s\<lparr>cons_w := w\<rparr>) = screen_ok s"
    "screen_ok (s\<lparr>cons_buf := b\<rparr>) = screen_ok s" "screen_ok (s\<lparr>cons_r := r\<rparr>) = screen_ok s"
  by (simp_all add: screen_ok_def)

lemma rub_out:
  assumes "screen_ok s" "holds s rd (ed @ [x])"
  shows "\<exists>s'. consputc BACKSPACE (s\<lparr>cons_e := cons_e s - 1\<rparr>) = Ok s' \<and> screen_ok s' \<and> holds s' rd ed \<and> cons_r s' = cons_r s"
  using echo [of "s\<lparr>cons_e := cons_e s - 1\<rparr>" rd ed BACKSPACE] holds_drop [OF assms(2)] assms(1) by auto

lemma kill_line_ok:
  assumes "screen_ok s" "holds s rd ed" "10 \<notin> set ed" "length ed < n"
  shows "\<exists>s'. kill_line n s = Ok s' \<and> screen_ok s' \<and> holds s' rd [] \<and> cons_r s' = cons_r s"
  using assms
proof (induction ed arbitrary: s n rule: rev_induct)
  case Nil
  then show ?case using holds_tests(1) [of s rd "[]"] by (cases n) auto
next
  case (snoc x ed)
  obtain k where k: "n = Suc k" using snoc.prems(4) by (cases n) auto
  obtain s1 where s1: "consputc BACKSPACE (s\<lparr>cons_e := cons_e s - 1\<rparr>) = Ok s1" "screen_ok s1" "holds s1 rd ed" "cons_r s1 = cons_r s"
    using rub_out [OF snoc.prems(1,2)] by blast
  have "kill_line n s = kill_line k s1" using s1(1) k holds_tests(1,2) [OF snoc.prems(2)] snoc.prems(3) by simp
  then show ?case using snoc.IH [OF s1(2,3)] snoc.prems(3,4) k s1(4) by simp
qed

lemma console_key_char:
  assumes s: "screen_ok s" "holds s rd ed" "10 \<notin> set ed"
    and c: "0 \<le> c" "c < 256" "c \<notin> {16, 0, 21, 8, 127}" "length rd + length ed < 128" and t: "typed c (rd, ed) = (rd', ed')"
  shows "\<exists>dump s'. console_key c s = Ok (dump, rd' \<noteq> rd, s') \<and> screen_ok s' \<and> holds s' rd' ed' \<and> 10 \<notin> set ed' \<and> cons_r s' = cons_r s"
proof -
  note te = holds_tests [OF s(2)]
  define x :: u8 where "x = (if c = 13 then 10 else word_of_int c)"
  define d :: int where "d = (if c = 13 then 10 else c)"
  let ?s = "s\<lparr>cons_buf := (cons_buf s)[cell (cons_e s) := x], cons_e := cons_e s + 1\<rparr>"
  obtain s1 where s1: "consputc d ?s = Ok s1" "screen_ok s1" "holds s1 rd (ed @ [x])" "cons_r s1 = cons_r s" "cons_e s1 = cons_e s + 1"
    using echo [of ?s rd "ed @ [x]" d] holds_put [OF s(2) c(4), of x] s(1) by auto
  have xd: "word_of_int d = x" "x = 10 \<longleftrightarrow> d = 10" "x = 4 \<longleftrightarrow> d = 4"
    using c by (auto simp: x_def d_def word_uint_eq_iff uint_word_of_int)
  have full: "cons_e s1 = cons_r s1 + 128 \<longleftrightarrow> length rd + length ed = 127" using holds_tests(4) [OF s1(3)] by auto
  have k: "console_key c s = (if d = 10 \<or> d = 4 \<or> length rd + length ed = 127 then Ok (False, True, s1\<lparr>cons_w := cons_e s1\<rparr>) else Ok (False, False, s1))"
    using c(3,4) te(3) s1(1) xd(1) full by (simp add: console_key_def Let_def d_def [symmetric])
  have ty: "typed c (rd, ed) = (if d = 10 \<or> d = 4 \<or> length rd + length ed = 127 then (rd @ ed @ [x], []) else (rd, ed @ [x]))"
    using c(3,4) xd by (simp add: typed_def x_def [symmetric])
  show ?thesis
  proof (cases "d = 10 \<or> d = 4 \<or> length rd + length ed = 127")
    case True
    then show ?thesis using k ty t holds_commit [OF s1(3)] s1(2,4) by auto
  next
    case False
    then show ?thesis using k ty t s1 s(3) xd by auto
  qed
qed

lemma console_key_ok:
  assumes s: "screen_ok s" "holds s rd ed" "10 \<notin> set ed" and c: "0 \<le> c" "c < 256" and t: "typed c (rd, ed) = (rd', ed')"
  shows "\<exists>dump s'. console_key c s = Ok (dump, rd' \<noteq> rd, s') \<and> screen_ok s' \<and> holds s' rd' ed' \<and> 10 \<notin> set ed' \<and> cons_r s' = cons_r s"
proof -
  note te = holds_tests [OF s(2)]
  have u: "unat (cons_e s - cons_w s) = length ed" using s(2) unat_small [of "length ed"] by (simp add: holds_def)
  consider "c = 16 \<or> c = 0 \<or> c \<notin> {21, 8, 127} \<and> \<not> length rd + length ed < 128" | "c = 21" | "c = 8 \<or> c = 127"
    | "c \<notin> {16, 0, 21, 8, 127}" "length rd + length ed < 128" by auto
  then show ?thesis
  proof cases
    case 1
    then have "console_key c s = Ok (c = 16, False, s)" "typed c (rd, ed) = (rd, ed)" using te(3) by (auto simp: console_key_def typed_def)
    then show ?thesis using s t by auto
  next
    case 2
    obtain s1 where "kill_line (Suc (length ed)) s = Ok s1" "screen_ok s1" "holds s1 rd []" "cons_r s1 = cons_r s"
      using kill_line_ok [OF s, of "Suc (length ed)"] by auto
    moreover have "console_key c s = obind (kill_line (Suc (length ed)) s) (\<lambda>s. Ok (False, False, s))" "typed c (rd, ed) = (rd, [])"
      using 2 by (simp_all add: console_key_def typed_def u)
    ultimately show ?thesis using t by auto
  next
    case 3
    show ?thesis
    proof (cases ed rule: rev_cases)
      case (snoc es x)
      obtain s1 where "consputc BACKSPACE (s\<lparr>cons_e := cons_e s - 1\<rparr>) = Ok s1" "screen_ok s1" "holds s1 rd es" "cons_r s1 = cons_r s"
        using rub_out [of s rd es x] s(1,2) snoc by blast
      moreover have "console_key c s = obind (consputc BACKSPACE (s\<lparr>cons_e := cons_e s - 1\<rparr>)) (\<lambda>s. Ok (False, False, s))"
        "typed c (rd, ed) = (rd, es)" using 3 te(1) snoc by (auto simp: console_key_def typed_def)
      ultimately show ?thesis using t s(3) snoc by auto
    next
      case Nil
      have "console_key c s = Ok (False, False, s)" "typed c (rd, ed) = (rd, [])" using 3 te(1) Nil by (auto simp: console_key_def typed_def)
      then show ?thesis using t s Nil by auto
    qed
  next
    case 4
    show ?thesis by (rule console_key_char [OF s c 4 t])
  qed
qed

lemma typed_grows: "\<exists>ys. fst (typed c (rd, ed)) = rd @ ys"
  by (simp add: typed_def Let_def)

lemma fold_typed_grows: "\<exists>ys. fst (fold typed cs p) = fst p @ ys"
proof (induction cs arbitrary: p)
  case (Cons c cs)
  obtain ys zs where "fst (typed c p) = fst p @ ys" "fst (fold typed cs (typed c p)) = fst (typed c p) @ zs"
    using typed_grows [of c "fst p" "snd p"] Cons [of "typed c p"] by auto
  then show ?case by simp
qed simp

lemma consoleintr_ok:
  assumes "screen_ok s" "holds s rd ed" "10 \<notin> set ed" "\<forall>c\<in>set cs. 0 \<le> c \<and> c < 256" "fold typed cs (rd, ed) = (rd', ed')"
  shows "\<exists>dump s'. consoleintr cs s = Ok (dump, rd' \<noteq> rd, s') \<and> screen_ok s' \<and> holds s' rd' ed' \<and> 10 \<notin> set ed'"
  using assms
proof (induction cs arbitrary: s rd ed)
  case (Cons c cs)
  obtain rd1 ed1 where t: "typed c (rd, ed) = (rd1, ed1)" by (cases "typed c (rd, ed)")
  obtain dump1 s1 where s1: "console_key c s = Ok (dump1, rd1 \<noteq> rd, s1)" "screen_ok s1" "holds s1 rd1 ed1" "10 \<notin> set ed1"
    using console_key_ok [OF Cons.prems(1-3) _ _ t] Cons.prems(4) by auto
  obtain dump2 s2 where s2: "consoleintr cs s1 = Ok (dump2, rd' \<noteq> rd1, s2)" "screen_ok s2" "holds s2 rd' ed'" "10 \<notin> set ed'"
    using Cons.IH [OF s1(2-4)] Cons.prems(4,5) t by auto
  obtain ys zs where "rd1 = rd @ ys" "rd' = rd1 @ zs" using typed_grows [of c rd ed] fold_typed_grows [of cs "(rd1, ed1)"] t Cons.prems(5) by auto
  then have "(rd1 \<noteq> rd \<or> rd' \<noteq> rd1) \<longleftrightarrow> rd' \<noteq> rd" by auto
  then show ?case using s1(1) s2 by auto
qed auto

text \<open>
  C18. The console edits lines. From a sound buffer and screen, \<open>consoleintr\<close> handles any keys without a panic: the
  bytes ready for reading and the line being typed change as the keys say (backspace takes the last character,
  control-U the whole line; a newline, control-D or a full buffer hands the line over), and readers are woken exactly when there is
  more to read.
\<close>

theorem console_typing:
  assumes "screen_ok s" "input_ok s" "\<forall>c\<in>set cs. 0 \<le> c \<and> c < 256"
  shows "\<exists>dump wake s'. consoleintr cs s = Ok (dump, wake, s') \<and> screen_ok s' \<and> input_ok s' \<and>
    (ready s', editing s') = fold typed cs (ready s, editing s) \<and> (wake \<longleftrightarrow> ready s' \<noteq> ready s)"
proof -
  obtain rd' ed' where f: "fold typed cs (ready s, editing s) = (rd', ed')" by (cases "fold typed cs (ready s, editing s)")
  have "holds s (ready s) (editing s)" "10 \<notin> set (editing s)" using holds_iff [of s "ready s" "editing s"] assms(2) by auto
  from consoleintr_ok [OF assms(1) this assms(3) f] show ?thesis using f holds_iff by metis
qed

lemma holds_take: "holds s (x # rd) ed \<Longrightarrow> holds (s\<lparr>cons_r := cons_r s + 1\<rparr>) rd ed \<and> cons_buf s ! cell (cons_r s) = x"
  by (simp add: holds_def ring_Cons add.assoc)

lemma consoleread_run_ok:
  assumes "holds s rd ed" "l = takeWhile (\<lambda>x. x \<noteq> 10 \<and> x \<noteq> 4) rd"
  shows "\<exists>r s' rd'. consoleread_run n got killed s = (r, s') \<and> holds s' rd' ed \<and>
    (if n \<le> length l then r = Done (got @ take n l) \<and> rd' = drop n rd
     else if l = rd then r = (if killed then Killed else Sleeping (n - length l) (got @ l)) \<and> rd' = []
     else if rd ! length l = 10 then r = Done (got @ l @ [10]) \<and> rd' = drop (Suc (length l)) rd
     else r = Done (got @ l) \<and> rd' = drop (if got @ l = [] then 1 else length l) rd)"
  using assms
proof (induction n arbitrary: s rd l got)
  case 0
  then show ?case by auto
next
  case (Suc n)
  show ?case
  proof (cases rd)
    case Nil
    then show ?thesis using Suc.prems holds_tests(5) [OF Suc.prems(1)] by auto
  next
    case (Cons x rd1)
    let ?s = "s\<lparr>cons_r := cons_r s + 1\<rparr>"
    have h: "holds ?s rd1 ed" "cons_buf s ! cell (cons_r s) = x" "cons_r s \<noteq> cons_w s"
      using holds_take Suc.prems(1) holds_tests(5) [OF Suc.prems(1)] Cons by auto
    consider "x = 4" | "x = 10" | "x \<noteq> 4" "x \<noteq> 10" by auto
    then show ?thesis
    proof cases
      case 3
      define l1 where "l1 = takeWhile (\<lambda>x. x \<noteq> 10 \<and> x \<noteq> 4) rd1"
      have l: "l = x # l1" using Suc.prems(2) Cons 3 by (simp add: l1_def)
      have "consoleread_run (Suc n) got killed s = consoleread_run n (got @ [x]) killed ?s" using h 3 by simp
      moreover obtain r s' rd' where "consoleread_run n (got @ [x]) killed ?s = (r, s')" "holds s' rd' ed"
        "if n \<le> length l1 then r = Done ((got @ [x]) @ take n l1) \<and> rd' = drop n rd1
         else if l1 = rd1 then r = (if killed then Killed else Sleeping (n - length l1) ((got @ [x]) @ l1)) \<and> rd' = []
         else if rd1 ! length l1 = 10 then r = Done ((got @ [x]) @ l1 @ [10]) \<and> rd' = drop (Suc (length l1)) rd1
         else r = Done ((got @ [x]) @ l1) \<and> rd' = drop (if (got @ [x]) @ l1 = [] then 1 else length l1) rd1"
        using Suc.IH [OF h(1) l1_def, of "got @ [x]"] by blast
      ultimately show ?thesis using l Cons
        by (intro exI [of _ r] exI [of _ s'] exI [of _ rd']) (simp del: consoleread_run.simps split: if_splits)
    qed (use h Suc.prems Cons in auto)
  qed
qed

text \<open>
  C30. \<open>consoleread\<close> of \<open>n\<close> bytes, with \<open>l\<close> the bytes that are ready up to the first newline or control-D. It returns \<open>n\<close> bytes if the
  line is that long, otherwise the line with its newline; before a control-D it returns the bytes in front of it, and the
  control-D itself is taken only by the read that finds nothing else, which returns no bytes. If there is no end of line
  the process sleeps with what it has, or returns if it was killed. The line being typed is not touched.
\<close>

theorem consoleread_line:
  assumes "input_ok s" "l = takeWhile (\<lambda>x. x \<noteq> 10 \<and> x \<noteq> 4) (ready s)"
  shows "\<exists>r s'. consoleread (int n) killed s = (r, s') \<and> input_ok s' \<and> editing s' = editing s \<and>
    (if n \<le> length l then r = Done (take n l) \<and> ready s' = drop n (ready s)
     else if l = ready s then r = (if killed then Killed else Sleeping (n - length l) l) \<and> ready s' = []
     else if ready s ! length l = 10 then r = Done (l @ [10]) \<and> ready s' = drop (Suc (length l)) (ready s)
     else r = Done l \<and> ready s' = drop (if l = [] then 1 else length l) (ready s))"
proof -
  have "holds s (ready s) (editing s)" "10 \<notin> set (editing s)" using holds_iff [of s "ready s" "editing s"] assms(1) by auto
  then obtain r s' rd' where "consoleread_run n [] killed s = (r, s')" "holds s' rd' (editing s)"
    "if n \<le> length l then r = Done ([] @ take n l) \<and> rd' = drop n (ready s)
     else if l = ready s then r = (if killed then Killed else Sleeping (n - length l) ([] @ l)) \<and> rd' = []
     else if ready s ! length l = 10 then r = Done ([] @ l @ [10]) \<and> rd' = drop (Suc (length l)) (ready s)
     else r = Done ([] @ l) \<and> rd' = drop (if [] @ l = [] then 1 else length l) (ready s)"
    using consoleread_run_ok [OF _ assms(2), of s "editing s" n "[]" killed] by blast
  moreover have "input_ok s'" "ready s' = rd'" "editing s' = editing s"
    using holds_iff [of s' rd' "editing s"] \<open>holds s' rd' (editing s)\<close> \<open>10 \<notin> set (editing s)\<close> by auto
  ultimately show ?thesis by (simp add: consoleread_def)
qed

section \<open>Numbers read back\<close>

definition decimal_value :: "u8 list \<Rightarrow> int" where
  "decimal_value ds = foldl (\<lambda>a d. a * 10 + (uint d - 48)) 0 ds"

lemma int_digits_decimal:
  assumes D: "length D = 16" "\<And>i. i < 10 \<Longrightarrow> uint (D ! i) = 48 + int i"
  shows "uint x < 10 ^ k \<Longrightarrow> 0 < k \<Longrightarrow> k \<le> room \<Longrightarrow>
    \<exists>ds. int_digits room D 10 x = Ok ds \<and> decimal_value ds = uint x \<and> ds \<noteq> [] \<and> length ds \<le> k \<and> (\<forall>d\<in>set ds. 48 \<le> uint d \<and> uint d \<le> 57)"
proof (induction k arbitrary: x room)
  case (Suc k)
  obtain r where r: "room = Suc r" using Suc.prems(3) by (cases room) auto
  have m: "uint (x mod 10) = uint x mod 10" "uint (x div 10) = uint x div 10" by (simp_all add: uint_mod_distrib uint_div_distrib)
  define i where "i = nat (uint x mod 10)"
  have i: "i < 10" "int i = uint x mod 10" by (simp_all add: i_def nat_less_iff)
  have g: "arr_get D (uint (x mod 10)) = Ok (D ! i)" using i m D(1) by (simp add: arr_get_def i_def)
  have d: "uint (D ! i) = 48 + uint x mod 10" using D(2) [OF i(1)] i(2) by simp
  show ?case
  proof (cases "x div 10 = 0")
    case True
    then have "uint x mod 10 = uint x" using m(2) div_mult_mod_eq [of "uint x" 10] by simp
    then show ?thesis using True r g d i(1) by (auto simp: decimal_value_def)
  next
    case False
    have lt: "uint (x div 10) < 10 ^ k" using Suc.prems(1) m(2) by simp
    have "uint (x div 10) \<noteq> 0" using False word_uint_eq_iff [of "x div 10" 0] by simp
    then have "0 < k" using lt uint_ge_0 [of "x div 10"] by (cases k) auto
    then obtain ds where ds: "int_digits r D 10 (x div 10) = Ok ds" "decimal_value ds = uint (x div 10)" "length ds \<le> k"
        "\<forall>d\<in>set ds. 48 \<le> uint d \<and> uint d \<le> 57" using Suc.IH [OF lt, of r] Suc.prems(3) r by auto
    have "decimal_value (ds @ [D ! i]) = uint x" using ds(2) d m(2) by (simp add: decimal_value_def)
    then show ?thesis using False r g ds d i by auto
  qed
qed simp

text \<open>The decimal digits that \<open>printint\<close> gives stand for the number it is given.\<close>

lemma printint_decimal:
  assumes "c_int xx" "xx \<noteq> - (2 ^ 31)"
  shows "\<exists>ds. decimal_value ds = \<bar>xx\<bar> \<and> (\<forall>d\<in>set ds. 48 \<le> uint d \<and> uint d \<le> 57) \<and> printint xx 10 True = Ok (if xx < 0 then 45 # ds else ds)"
proof -
  let ?D = "[48, 49, 50, 51, 52, 53, 54, 55, 56, 57, 97, 98, 99, 100, 101, 102] :: u8 list"
  have D: "length ?D = 16" "uint (?D ! i) = 48 + int i" if "i < 10" for i
    using that by (simp_all add: eval_nat_numeral less_Suc_eq) auto
  have a: "0 \<le> \<bar>xx\<bar>" "\<bar>xx\<bar> < 2 ^ 31" using assms by (auto simp: c_int_def)
  then have u: "uint (to_uint \<bar>xx\<bar>) = \<bar>xx\<bar>" by (simp add: uint_to_uint)
  then obtain ds where "int_digits 16 ?D 10 (to_uint \<bar>xx\<bar>) = Ok ds" "decimal_value ds = \<bar>xx\<bar>" "length ds \<le> 10"
      "\<forall>d\<in>set ds. 48 \<le> uint d \<and> uint d \<le> 57"
    using int_digits_decimal [of ?D "to_uint \<bar>xx\<bar>" 10 16] D a by auto
  then show ?thesis using a assms by (intro exI [of _ ds]) (auto simp: printint_def int_chars_def c_int_def)
qed

definition demo_console :: console where
  "demo_console = \<lparr>cons_buf = replicate 128 0, cons_r = 0, cons_w = 0, cons_e = 0, crt = replicate 2000 0, crt_pos = 1900, serial = [], panicked = False\<rparr>"

lemma demo_console_ok: "screen_ok demo_console" "input_ok demo_console" "ready demo_console = []" "editing demo_console = []"
  by (simp_all add: screen_ok_def input_ok_def ready_def editing_def ring_def demo_console_def)

theorem console_typing_witness:
  "\<exists>dump s'. consoleintr [120, 8, 104, 105, 13, 121] demo_console = Ok (dump, True, s') \<and> screen_ok s' \<and> ready s' = [104, 105, 10] \<and> editing s' = [121]"
proof -
  have "fold typed [120, 8, 104, 105, 13, 121] ([], []) = ([104, 105, 10], [121])" by (simp add: typed_def)
  then show ?thesis
    using console_typing [of demo_console "[120, 8, 104, 105, 13, 121]"] demo_console_ok by auto
qed

definition demo_line :: console where
  "demo_line = demo_console\<lparr>cons_buf := [104, 105, 10, 33] @ replicate 124 0, cons_w := 3, cons_e := 4\<rparr>"

lemma demo_line_ok: "input_ok demo_line" "ready demo_line = [104, 105, 10]" "editing demo_line = [33]"
  by code_simp+

theorem consoleread_line_witness:
  "\<exists>s'. consoleread 100 False demo_line = (Done [104, 105, 10], s') \<and> ready s' = [] \<and> editing s' = [33]"
  using consoleread_line [OF demo_line_ok(1) refl, of 100 False] demo_line_ok(2,3) by auto

end
