(* ===== verification/Wmap.thy ===== *)
theory Wmap
  imports Prelude
begin

text \<open>
  The table of memory mappings of sysproc.c: a hash table with \<open>MEM_HASH_SIZE\<close> heads stored in
  the array \<open>table\<close> and overflow nodes taken one after the other from the array \<open>nodePool\<close>.
  Pointers to nodes are values of \<open>nptr\<close>; the two arrays are the store they point into, so that
  updates through a pointer are seen by every other pointer to the same node.

  Loops that follow \<open>next\<close> pointers carry fuel. A chain visits at most every node of the two
  arrays once, so \<open>chain_fuel\<close> steps are enough unless the chain is cyclic, and then the C loop
  does not end: running out of fuel is the outcome \<open>Diverge\<close>.
\<close>

unbundle bit_operations_syntax

section \<open>Data\<close>

abbreviation (input) MEM_HASH_SIZE :: nat where "MEM_HASH_SIZE \<equiv> 19"
abbreviation (input) MAX_WMMAP_INFO :: nat where "MAX_WMMAP_INFO \<equiv> 16"
abbreviation (input) PGSIZE_int :: int where "PGSIZE_int \<equiv> 4096"
abbreviation (input) no_addr :: u32 where "no_addr \<equiv> 0xFFFFFFFF"

datatype nptr = Tab nat | Pool nat

record memHashNode =
  startAddress :: u32
  numPages :: int
  mlength :: int
  mfd :: int
  mflags :: int
  loadedPages :: int
  mnext :: "nptr option"

record wmap_state =
  table :: "memHashNode list"
  nodePool :: "memHashNode list"
  mostRecent :: "nptr option"
  hashInit :: int
  poolCounter :: nat

text \<open>The C globals are zero initialised.\<close>

definition zero_node :: memHashNode where
  "zero_node = \<lparr>startAddress = 0, numPages = 0, mlength = 0, mfd = 0, mflags = 0,
     loadedPages = 0, mnext = None\<rparr>"

definition wmap_boot :: wmap_state where
  "wmap_boot = \<lparr>table = replicate MEM_HASH_SIZE zero_node,
     nodePool = replicate MAX_WMMAP_INFO zero_node,
     mostRecent = None, hashInit = -1, poolCounter = 0\<rparr>"

text \<open>Reading and writing through a node pointer.\<close>

fun nget :: "wmap_state \<Rightarrow> nptr \<Rightarrow> memHashNode outcome" where
  "nget st (Tab i) = (if i < length (table st) then Ok (table st ! i) else Fault)"
| "nget st (Pool k) = (if k < length (nodePool st) then Ok (nodePool st ! k) else Fault)"

fun nset :: "wmap_state \<Rightarrow> nptr \<Rightarrow> memHashNode \<Rightarrow> wmap_state outcome" where
  "nset st (Tab i) n =
     (if i < length (table st) then Ok (st\<lparr>table := (table st)[i := n]\<rparr>) else Fault)"
| "nset st (Pool k) n =
     (if k < length (nodePool st) then Ok (st\<lparr>nodePool := (nodePool st)[k := n]\<rparr>) else Fault)"

text \<open>The address \<open>&table[index]\<close>: a negative index or one past the end is out of bounds.\<close>

definition tab_at :: "wmap_state \<Rightarrow> int \<Rightarrow> nptr outcome" where
  "tab_at st i = (if 0 \<le> i \<and> i < int (length (table st)) then Ok (Tab (nat i)) else Fault)"

definition chain_fuel :: "wmap_state \<Rightarrow> nat" where
  "chain_fuel st = Suc (Suc (length (table st) + length (nodePool st)))"

section \<open>Operations\<close>

text \<open>\<open>hash\<close>: C's \<open>%\<close> truncates towards zero, so a negative key has a negative hash.\<close>

definition hash :: "int \<Rightarrow> int" where
  "hash key = key smod int MEM_HASH_SIZE"

definition initHashTable :: "wmap_state \<Rightarrow> wmap_state" where
  "initHashTable st = st\<lparr>table := map (\<lambda>n. n\<lparr>startAddress := no_addr, mnext := None\<rparr>)
     (table st)\<rparr>"

definition hashInsert :: "u32 \<Rightarrow> int \<Rightarrow> int \<Rightarrow> int \<Rightarrow> int \<Rightarrow> wmap_state \<Rightarrow> wmap_state outcome" where
  "hashInsert start len npages fd flags st =
     obind (tab_at st (hash (to_int start))) (\<lambda>p.
     obind (nget st p) (\<lambda>h.
     if startAddress h = no_addr then
       obind (nset st p (h\<lparr>startAddress := start, mlength := len, numPages := npages,
                           mfd := fd, mflags := flags, loadedPages := 0\<rparr>)) (\<lambda>st.
       Ok (st\<lparr>mostRecent := Some p\<rparr>))
     else
       let q = Pool (poolCounter st); st = st\<lparr>poolCounter := Suc (poolCounter st)\<rparr> in
       obind (nset st q \<lparr>startAddress = start, numPages = npages, mlength = len, mfd = fd,
                         mflags = flags, loadedPages = 0, mnext = mnext h\<rparr>) (\<lambda>st.
       obind (nset st p (h\<lparr>mnext := Some q\<rparr>)) (\<lambda>st.
       Ok (st\<lparr>mostRecent := Some q\<rparr>)))))"

fun search_loop :: "nat \<Rightarrow> wmap_state \<Rightarrow> nptr option \<Rightarrow> u32 \<Rightarrow> nptr option outcome" where
  "search_loop 0 st p v = Diverge"
| "search_loop (Suc k) st None v = Ok None"
| "search_loop (Suc k) st (Some p) v =
     obind (nget st p) (\<lambda>n. if startAddress n = v then Ok (Some p)
                            else search_loop k st (mnext n) v)"

definition hashSearch :: "int \<Rightarrow> wmap_state \<Rightarrow> nptr option outcome" where
  "hashSearch v st =
     obind (tab_at st (hash v)) (\<lambda>p. search_loop (chain_fuel st) st (Some p) (to_uint v))"

text \<open>\<open>removeValue\<close>: the traversal keeps the pointer to the node before; the result of the loop
  is the pair \<open>(prev, node)\<close> that it ends with.\<close>

fun remove_loop :: "nat \<Rightarrow> wmap_state \<Rightarrow> nptr option \<Rightarrow> nptr option \<Rightarrow> u32 \<Rightarrow>
    (nptr option \<times> nptr option) outcome" where
  "remove_loop 0 st prev p v = Diverge"
| "remove_loop (Suc k) st prev None v = Ok (prev, None)"
| "remove_loop (Suc k) st prev (Some p) v =
     obind (nget st p) (\<lambda>n. if startAddress n \<noteq> v then remove_loop k st (Some p) (mnext n) v
                            else Ok (prev, Some p))"

definition removeValue :: "int \<Rightarrow> wmap_state \<Rightarrow> (int \<times> wmap_state) outcome" where
  "removeValue v st =
     obind (tab_at st (hash v)) (\<lambda>p.
     obind (nget st p) (\<lambda>h.
     if startAddress h = to_uint v then
       (case mnext h of
          Some q \<Rightarrow>
            obind (nget st q) (\<lambda>t.
            obind (nset st p (h\<lparr>startAddress := startAddress t, mnext := mnext t\<rparr>)) (\<lambda>st.
            Ok (1, st)))
        | None \<Rightarrow>
            obind (nset st p (h\<lparr>startAddress := no_addr, mnext := None\<rparr>)) (\<lambda>st. Ok (1, st)))
     else
       obind (remove_loop (chain_fuel st) st None (Some p) (to_uint v)) (\<lambda>(prev, node).
       case node of
         None \<Rightarrow> Ok (-1, st)
       | Some q \<Rightarrow>
           (case prev of
              None \<Rightarrow> Ok (1, st)
            | Some r \<Rightarrow>
                obind (nget st q) (\<lambda>n.
                obind (nget st r) (\<lambda>m.
                obind (nset st r (m\<lparr>mnext := mnext n\<rparr>)) (\<lambda>st.
                obind (nget st q) (\<lambda>n.
                obind (nset st q (n\<lparr>startAddress := no_addr, mnext := None\<rparr>)) (\<lambda>st.
                Ok (1, st)))))))))) "

text \<open>First page beyond the region of a node.\<close>

definition node_end :: "memHashNode \<Rightarrow> u32" where
  "node_end n = startAddress n + to_uint (numPages n * PGSIZE_int)"

text \<open>\<open>covers n a\<close> is the test of \<open>pageInMappings\<close>: both comparisons are unsigned, and the sum
  wraps at 32 bits.\<close>

definition covers :: "memHashNode \<Rightarrow> u32 \<Rightarrow> bool" where
  "covers n a \<longleftrightarrow> startAddress n \<le> a \<and> a < node_end n"

fun cover_loop :: "nat \<Rightarrow> wmap_state \<Rightarrow> nptr option \<Rightarrow> u32 \<Rightarrow> nptr option outcome" where
  "cover_loop 0 st p a = Diverge"
| "cover_loop (Suc k) st None a = Ok None"
| "cover_loop (Suc k) st (Some p) a =
     obind (nget st p) (\<lambda>n. if covers n a then Ok (Some p) else cover_loop k st (mnext n) a)"

fun cover_scan :: "nat list \<Rightarrow> wmap_state \<Rightarrow> u32 \<Rightarrow> nptr option outcome" where
  "cover_scan [] st a = Ok None"
| "cover_scan (i # is) st a =
     obind (tab_at st (int i)) (\<lambda>p.
     obind (cover_loop (chain_fuel st) st (Some p) a) (\<lambda>r.
     case r of Some q \<Rightarrow> Ok (Some q) | None \<Rightarrow> cover_scan is st a))"

definition pageInMappings :: "int \<Rightarrow> wmap_state \<Rightarrow> nptr option outcome" where
  "pageInMappings address st =
     obind (hashSearch address st) (\<lambda>r.
     case r of
       Some p \<Rightarrow> Ok (Some p)
     | None \<Rightarrow> cover_scan [0..<MEM_HASH_SIZE] st (to_uint address))"

text \<open>\<open>getwmapinfo\<close> fills the arrays of \<open>struct wmapinfo\<close>, of size \<open>MAX_WMMAP_INFO\<close>.\<close>

record wmapinfo =
  total_mmaps :: int
  wi_addr :: "int list"
  wi_length :: "int list"
  wi_n_loaded_pages :: "int list"

definition wmapinfo_zero :: wmapinfo where
  "wmapinfo_zero = \<lparr>total_mmaps = 0, wi_addr = replicate MAX_WMMAP_INFO 0,
     wi_length = replicate MAX_WMMAP_INFO 0, wi_n_loaded_pages = replicate MAX_WMMAP_INFO 0\<rparr>"

definition info_add :: "memHashNode \<Rightarrow> int \<times> wmapinfo \<Rightarrow> (int \<times> wmapinfo) outcome" where
  "info_add n = (\<lambda>(pageCount, w).
     obind (arr_set (wi_addr w) pageCount (to_int (startAddress n))) (\<lambda>as.
     obind (arr_set (wi_length w) pageCount (mlength n)) (\<lambda>ls.
     obind (arr_set (wi_n_loaded_pages w) pageCount (loadedPages n)) (\<lambda>ps.
     Ok (pageCount + 1, w\<lparr>wi_addr := as, wi_length := ls, wi_n_loaded_pages := ps,
                           total_mmaps := total_mmaps w + 1\<rparr>)))))"

fun info_chain :: "nat \<Rightarrow> wmap_state \<Rightarrow> nptr option \<Rightarrow> int \<times> wmapinfo \<Rightarrow> (int \<times> wmapinfo) outcome" where
  "info_chain 0 st p acc = Diverge"
| "info_chain (Suc k) st None acc = Ok acc"
| "info_chain (Suc k) st (Some p) acc =
     obind (nget st p) (\<lambda>n. obind (info_add n acc) (\<lambda>acc. info_chain k st (mnext n) acc))"

fun info_scan :: "nat list \<Rightarrow> wmap_state \<Rightarrow> int \<times> wmapinfo \<Rightarrow> (int \<times> wmapinfo) outcome" where
  "info_scan [] st acc = Ok acc"
| "info_scan (i # is) st acc =
     obind (tab_at st (int i)) (\<lambda>p.
     obind (nget st p) (\<lambda>h.
     if startAddress h \<noteq> no_addr then
       obind (info_add h acc) (\<lambda>acc.
       obind (info_chain (chain_fuel st) st (mnext h) acc) (\<lambda>acc. info_scan is st acc))
     else info_scan is st acc))"

definition getwmapinfo :: "wmap_state \<Rightarrow> (int \<times> wmapinfo \<times> wmap_state) outcome" where
  "getwmapinfo st =
     (if hashInit st = -1 then
        Ok (0, wmapinfo_zero, (initHashTable st)\<lparr>hashInit := 0\<rparr>)
      else
        obind (info_scan [0..<MEM_HASH_SIZE] st (0, wmapinfo_zero)) (\<lambda>(_, w). Ok (0, w, st)))"

section \<open>wmap\<close>

abbreviation (input) MAP_PRIVATE :: int where "MAP_PRIVATE \<equiv> 1"
abbreviation (input) MAP_SHARED :: int where "MAP_SHARED \<equiv> 2"
abbreviation (input) MAP_ANONYMOUS :: int where "MAP_ANONYMOUS \<equiv> 4"
abbreviation (input) MAP_FIXED :: int where "MAP_FIXED \<equiv> 8"
abbreviation (input) MREMAP_MAYMOVE :: int where "MREMAP_MAYMOVE \<equiv> 1"
abbreviation (input) FAILED :: u32 where "FAILED \<equiv> 0xFFFFFFFF"
abbreviation (input) MMAPBASE :: u32 where "MMAPBASE \<equiv> 0x60000000"

definition round_down :: "u32 \<Rightarrow> u32" where
  "round_down a = a AND NOT 0xFFF"

text \<open>\<open>roundLength\<close>; the addition is on signed integers, and overflows for a length in the last
  page below \<open>INT_MAX\<close>.\<close>

definition roundLength :: "int \<Rightarrow> int outcome" where
  "roundLength len =
     (if len mod PGSIZE_int \<noteq> 0
      then let r = len + (PGSIZE_int - len mod PGSIZE_int) in if c_int r then Ok r else Fault
      else Ok len)"

text \<open>The \<open>for\<close> loop of \<open>wmap\<close>, over the lookup \<open>look\<close> it calls: the offset of the first page
  that is already mapped, or the whole length.\<close>

function scan_run :: "(u32 \<Rightarrow> 'p option outcome) \<Rightarrow> int \<Rightarrow> int \<Rightarrow> u32 \<Rightarrow> int outcome" where
  "scan_run look i rl addr =
     (if i < rl then
        obind (look (addr + to_uint i)) (\<lambda>r.
        if r \<noteq> None then Ok i else scan_run look (i + PGSIZE_int) rl addr)
      else Ok i)"
  by pat_completeness auto
termination
  by (relation "measure (\<lambda>(look, i, rl, addr). nat (rl - i))") auto

declare scan_run.simps [simp del]

text \<open>The lookup of a page address: \<open>pageInMappings(addr + i)\<close> converts the sum to \<open>int\<close>.\<close>

definition look_page :: "wmap_state \<Rightarrow> u32 \<Rightarrow> nptr option outcome" where
  "look_page st a = pageInMappings (to_int a) st"

text \<open>The \<open>do ... while\<close> loop. Each round moves past the end of a mapping, so it ends within as
  many rounds as there are nodes.\<close>

fun place_loop :: "nat \<Rightarrow> u32 \<Rightarrow> u32 \<Rightarrow> int \<Rightarrow> wmap_state \<Rightarrow> u32 outcome" where
  "place_loop 0 base addr rl st = Diverge"
| "place_loop (Suc k) base addr rl st =
     obind (scan_run (look_page st) 0 rl addr) (\<lambda>i.
     if i = rl then Ok addr
     else
       obind (look_page st (addr + to_uint i)) (\<lambda>r.
       obind (case r of None \<Rightarrow> Ok (addr + 0x1000)
              | Some p \<Rightarrow> obind (nget st p) (\<lambda>n. Ok (node_end n))) (\<lambda>addr.
       if base \<noteq> addr then place_loop k base addr rl st else Ok addr)))"

definition wmap :: "u32 \<Rightarrow> int \<Rightarrow> int \<Rightarrow> int \<Rightarrow> wmap_state \<Rightarrow> (u32 \<times> wmap_state) outcome" where
  "wmap addr len flags fd st =
     (let addr = (if addr mod 4096 \<noteq> 0 then round_down addr else addr);
          st = (if hashInit st = -1 then (initHashTable st)\<lparr>hashInit := 1\<rparr> else st)
      in
      if len \<le> 0 then Ok (FAILED, st)
      else
        obind (roundLength len) (\<lambda>rl.
        if flags AND MAP_FIXED \<noteq> 0 then
          if addr < 0x60000000 \<or> 0x80000000 \<le> addr then Ok (FAILED, st)
          else
            obind (look_page st addr) (\<lambda>r.
            if r \<noteq> None then Ok (FAILED, st)
            else
              obind (hashInsert addr len (rl div PGSIZE_int) fd flags st) (\<lambda>st. Ok (addr, st)))
        else
          obind (look_page st addr) (\<lambda>r.
          obind (case r of
                   None \<Rightarrow> (case mostRecent st of
                              None \<Rightarrow> Fault
                            | Some p \<Rightarrow> obind (nget st p) (\<lambda>n. Ok (node_end n)))
                 | Some p \<Rightarrow> obind (nget st p) (\<lambda>n. Ok (node_end n))) (\<lambda>addr.
          let addr = (if addr < 0x60000000 \<or> 0x80000000 \<le> addr then MMAPBASE else addr) in
          obind (place_loop (chain_fuel st) addr addr rl st) (\<lambda>addr.
          obind (hashInsert addr len (rl div PGSIZE_int) fd flags st) (\<lambda>st. Ok (addr, st)))))))"

section \<open>Process creation and exit\<close>

text \<open>\<open>forkHelper\<close> inserts every mapping again, into the table it walks over.\<close>

fun fork_chain :: "nat \<Rightarrow> nptr option \<Rightarrow> wmap_state \<Rightarrow> wmap_state outcome" where
  "fork_chain 0 p st = Diverge"
| "fork_chain (Suc k) None st = Ok st"
| "fork_chain (Suc k) (Some p) st =
     obind (nget st p) (\<lambda>n.
     if startAddress n \<noteq> no_addr then
       obind (hashInsert (startAddress n) (mlength n) (numPages n) (mfd n) (mflags n) st) (\<lambda>st.
       obind (nget st p) (\<lambda>n. fork_chain k (mnext n) st))
     else Ok st)"

fun fork_scan :: "nat list \<Rightarrow> wmap_state \<Rightarrow> wmap_state outcome" where
  "fork_scan [] st = Ok st"
| "fork_scan (i # is) st =
     obind (tab_at st (int i)) (\<lambda>p.
     obind (fork_chain (chain_fuel st) (Some p) st) (\<lambda>st. fork_scan is st))"

definition forkHelper :: "wmap_state \<Rightarrow> (int \<times> wmap_state) outcome" where
  "forkHelper st = obind (fork_scan [0..<MEM_HASH_SIZE] st) (\<lambda>st. Ok (0, st))"

text \<open>\<open>exitHelper\<close> removes mappings while it follows the links of the chain.\<close>

fun exit_chain :: "nat \<Rightarrow> nptr option \<Rightarrow> wmap_state \<Rightarrow> wmap_state outcome" where
  "exit_chain 0 p st = Diverge"
| "exit_chain (Suc k) None st = Ok st"
| "exit_chain (Suc k) (Some p) st =
     obind (nget st p) (\<lambda>n.
     if startAddress n \<noteq> no_addr then
       obind (removeValue (to_int (startAddress n)) st) (\<lambda>(_, st).
       obind (nget st p) (\<lambda>n. exit_chain k (mnext n) st))
     else Ok st)"

fun exit_scan :: "nat list \<Rightarrow> wmap_state \<Rightarrow> wmap_state outcome" where
  "exit_scan [] st = Ok st"
| "exit_scan (i # is) st =
     obind (tab_at st (int i)) (\<lambda>p.
     obind (exit_chain (chain_fuel st) (Some p) st) (\<lambda>st. exit_scan is st))"

definition exitHelper :: "wmap_state \<Rightarrow> (int \<times> wmap_state) outcome" where
  "exitHelper st = obind (exit_scan [0..<MEM_HASH_SIZE] st) (\<lambda>st. Ok (0, st))"

end
