(* ===== verification/WmapTable.thy ===== *)
theory WmapTable
  imports Wmap "HOL-Library.Multiset"
begin

text \<open>
  Invariant of the mapping table of Wmap and the behaviour of its operations. \<open>wmap_wf st cs\<close>
  says that the chain of bucket \<open>i\<close> runs through the pool nodes \<open>cs i\<close>, that no node is shared
  and that every entry sits in the bucket of its hash; \<open>live\<close> are the nodes reachable from the
  heads and \<open>addrs\<close> is the multiset of their start addresses, which is the abstract value of the
  table. Insertion adds to it, removal takes one occurrence out, and search decides membership.
  The lookup contract \<open>page_lookup\<close> is what the placement search of \<open>wmap\<close> relies on.
\<close>

section \<open>Well-formed tables\<close>

primrec plink :: "memHashNode list \<Rightarrow> nptr option \<Rightarrow> nat list \<Rightarrow> bool" where
  "plink pool p [] \<longleftrightarrow> p = None"
| "plink pool p (k # ks) \<longleftrightarrow> p = Some (Pool k) \<and> k < length pool \<and> plink pool (mnext (pool ! k)) ks"

definition entry_ok :: "nat \<Rightarrow> memHashNode \<Rightarrow> bool" where
  "entry_ok i n \<longleftrightarrow> startAddress n < 0x80000000 \<and> hash (to_int (startAddress n)) = int i \<and>
     1 \<le> numPages n \<and> numPages n * PGSIZE_int < 2 ^ 31"

definition wmap_wf :: "wmap_state \<Rightarrow> (nat \<Rightarrow> nat list) \<Rightarrow> bool" where
  "wmap_wf st cs \<longleftrightarrow>
     length (table st) = MEM_HASH_SIZE \<and> length (nodePool st) = MAX_WMMAP_INFO \<and>
     poolCounter st \<le> MAX_WMMAP_INFO \<and>
     (\<forall>i<MEM_HASH_SIZE. distinct (cs i)) \<and>
     (\<forall>i<MEM_HASH_SIZE. \<forall>j<MEM_HASH_SIZE. i \<noteq> j \<longrightarrow> set (cs i) \<inter> set (cs j) = {}) \<and>
     (\<forall>i<MEM_HASH_SIZE. plink (nodePool st) (mnext (table st ! i)) (cs i)) \<and>
     (\<forall>i<MEM_HASH_SIZE. \<forall>k\<in>set (cs i). k < poolCounter st \<and> entry_ok i (nodePool st ! k)) \<and>
     (\<forall>i<MEM_HASH_SIZE. startAddress (table st ! i) = no_addr \<and> cs i = [] \<or>
        entry_ok i (table st ! i))"

definition wmap_inv :: "wmap_state \<Rightarrow> bool" where
  "wmap_inv st \<longleftrightarrow> (\<exists>cs. wmap_wf st cs)"

fun nd :: "wmap_state \<Rightarrow> nptr \<Rightarrow> memHashNode" where
  "nd st (Tab i) = table st ! i"
| "nd st (Pool k) = nodePool st ! k"

definition bptrs :: "wmap_state \<Rightarrow> (nat \<Rightarrow> nat list) \<Rightarrow> nat \<Rightarrow> nptr list" where
  "bptrs st cs i = (if startAddress (table st ! i) = no_addr then [] else Tab i # map Pool (cs i))"

inductive live :: "wmap_state \<Rightarrow> nptr \<Rightarrow> bool" for st where
  live_head: "i < MEM_HASH_SIZE \<Longrightarrow> startAddress (table st ! i) \<noteq> no_addr \<Longrightarrow> live st (Tab i)"
| live_next: "live st p \<Longrightarrow> mnext (nd st p) = Some q \<Longrightarrow> live st q"

definition mapped :: "wmap_state \<Rightarrow> u32 \<Rightarrow> bool" where
  "mapped st a \<longleftrightarrow> (\<exists>p. live st p \<and> covers (nd st p) a)"

subsection \<open>Chains\<close>

lemma plink_update [simp]: "k \<notin> set ks \<Longrightarrow> plink (pool[k := n]) p ks \<longleftrightarrow> plink pool p ks"
  by (induction ks arbitrary: p) auto

lemma plink_length: "plink pool p ks \<Longrightarrow> set ks \<subseteq> {..<length pool}"
  by (induction ks arbitrary: p) auto

lemma search_loop_plink:
  "plink (nodePool st) p ks \<Longrightarrow> length ks < f \<Longrightarrow>
   search_loop f st p v = Ok (find (\<lambda>p. startAddress (nd st p) = v) (map Pool ks))"
proof (induction ks arbitrary: p f)
  case Nil
  then show ?case by (cases f) auto
next
  case (Cons k ks)
  then show ?case by (cases f) auto
qed

lemma cover_loop_plink:
  "plink (nodePool st) p ks \<Longrightarrow> length ks < f \<Longrightarrow>
   cover_loop f st p a = Ok (find (\<lambda>p. covers (nd st p) a) (map Pool ks))"
proof (induction ks arbitrary: p f)
  case Nil
  then show ?case by (cases f) auto
next
  case (Cons k ks)
  then show ?case by (cases f) auto
qed

lemma remove_loop_plink:
  "plink (nodePool st) p ks \<Longrightarrow> length ks < f \<Longrightarrow>
   remove_loop f st prev p v =
     Ok (let as = takeWhile (\<lambda>k. startAddress (nodePool st ! k) \<noteq> v) ks;
             bs = dropWhile (\<lambda>k. startAddress (nodePool st ! k) \<noteq> v) ks
         in (if as = [] then prev else Some (Pool (last as)),
             if bs = [] then None else Some (Pool (hd bs))))"
proof (induction ks arbitrary: p f prev)
  case Nil
  then show ?case by (cases f) auto
next
  case (Cons k ks)
  then show ?case by (cases f) (auto simp: Let_def)
qed

subsection \<open>Consequences of well-formedness\<close>

lemma wf_lengths [dest]:
  assumes "wmap_wf st cs"
  shows "length (table st) = MEM_HASH_SIZE" "length (nodePool st) = MAX_WMMAP_INFO"
    "poolCounter st \<le> MAX_WMMAP_INFO"
  using assms by (auto simp: wmap_wf_def)

lemma wf_plink: "wmap_wf st cs \<Longrightarrow> i < MEM_HASH_SIZE \<Longrightarrow> plink (nodePool st) (mnext (table st ! i)) (cs i)"
  by (simp add: wmap_wf_def)

lemma wf_pool: "wmap_wf st cs \<Longrightarrow> i < MEM_HASH_SIZE \<Longrightarrow> k \<in> set (cs i) \<Longrightarrow>
    k < poolCounter st \<and> entry_ok i (nodePool st ! k)"
  by (simp add: wmap_wf_def)

lemma wf_distinct: "wmap_wf st cs \<Longrightarrow> i < MEM_HASH_SIZE \<Longrightarrow> distinct (cs i)"
  by (simp add: wmap_wf_def)

lemma wf_disj: "wmap_wf st cs \<Longrightarrow> i < MEM_HASH_SIZE \<Longrightarrow> j < MEM_HASH_SIZE \<Longrightarrow> j \<noteq> i \<Longrightarrow>
    set (cs j) \<inter> set (cs i) = {}"
  by (simp add: wmap_wf_def)

lemma wf_head: "wmap_wf st cs \<Longrightarrow> i < MEM_HASH_SIZE \<Longrightarrow>
    startAddress (table st ! i) = no_addr \<and> cs i = [] \<or> entry_ok i (table st ! i)"
  by (simp add: wmap_wf_def)

lemma entry_ok_not_none: "entry_ok i n \<Longrightarrow> startAddress n \<noteq> no_addr"
  by (auto simp: entry_ok_def)

lemma wf_chain_short:
  assumes "wmap_wf st cs" "i < MEM_HASH_SIZE"
  shows "length (cs i) \<le> MAX_WMMAP_INFO"
proof -
  have "distinct (cs i)" using assms by (simp add: wmap_wf_def)
  moreover have "set (cs i) \<subseteq> {..<MAX_WMMAP_INFO}"
    using plink_length [OF wf_plink [OF assms]] wf_lengths [OF assms(1)] by simp
  ultimately show ?thesis
    by (metis card_lessThan card_mono distinct_card finite_lessThan)
qed

lemma wf_fuel: "wmap_wf st cs \<Longrightarrow> i < MEM_HASH_SIZE \<Longrightarrow> Suc (length (cs i)) < chain_fuel st"
  using wf_chain_short [of st cs i] wf_lengths [of st cs] by (simp add: chain_fuel_def)

lemma hash_bounds: "0 \<le> v \<Longrightarrow> 0 \<le> hash v \<and> hash v < int MEM_HASH_SIZE"
  by (cases "v = 0") (auto simp: hash_def smod_int_alt_def sgn_if)

lemma hash_nat: "0 \<le> v \<Longrightarrow> nat (hash v) < MEM_HASH_SIZE"
  using hash_bounds [of v] by auto

lemma tab_at_int: "i < length (table st) \<Longrightarrow> tab_at st (int i) = Ok (Tab i)"
  by (simp add: tab_at_def)

lemma tab_at_hash: "wmap_wf st cs \<Longrightarrow> 0 \<le> v \<Longrightarrow> tab_at st (hash v) = Ok (Tab (nat (hash v)))"
  using hash_bounds [of v] by (auto simp: tab_at_def wf_lengths)

lemma to_uint_not_none: "0 \<le> v \<Longrightarrow> v < 2 ^ 31 \<Longrightarrow> to_uint v \<noteq> no_addr"
  by (auto simp: word_uint_eq_iff uint_to_uint)

lemma hashSearch_spec:
  assumes wf: "wmap_wf st cs" and v: "0 \<le> v" "v < 2 ^ 31"
  shows "hashSearch v st =
    Ok (find (\<lambda>p. startAddress (nd st p) = to_uint v) (bptrs st cs (nat (hash v))))"
proof -
  let ?i = "nat (hash v)"
  have i: "?i < MEM_HASH_SIZE" using v(1) by (rule hash_nat)
  obtain f where f: "chain_fuel st = Suc f" "length (cs ?i) < f"
    using wf_fuel [OF wf i] by (cases "chain_fuel st") auto
  have "search_loop f st (mnext (table st ! ?i)) (to_uint v) =
      Ok (find (\<lambda>p. startAddress (nd st p) = to_uint v) (map Pool (cs ?i)))"
    using wf_plink [OF wf i] f(2) by (rule search_loop_plink)
  then show ?thesis
    using wf_head [OF wf i] i to_uint_not_none [OF v] wf_lengths [OF wf]
      entry_ok_not_none [of ?i "table st ! ?i"]
    by (auto simp: hashSearch_def tab_at_hash [OF wf v(1)] f(1) bptrs_def)
qed

lemma cover_scan_spec:
  assumes wf: "wmap_wf st cs" and a: "a \<noteq> no_addr" and sub: "set js \<subseteq> {..<MEM_HASH_SIZE}"
  shows "cover_scan js st a = Ok (find (\<lambda>p. covers (nd st p) a) (concat (map (bptrs st cs) js)))"
  using sub
proof (induction js)
  case Nil
  then show ?case by simp
next
  case (Cons i js)
  have i: "i < MEM_HASH_SIZE" using Cons.prems by simp
  obtain f where f: "chain_fuel st = Suc f" "length (cs i) < f"
    using wf_fuel [OF wf i] by (cases "chain_fuel st") auto
  have "cover_loop f st (mnext (table st ! i)) a = Ok (find (\<lambda>p. covers (nd st p) a) (map Pool (cs i)))"
    using wf_plink [OF wf i] f(2) by (rule cover_loop_plink)
  then have "cover_loop (chain_fuel st) st (Some (Tab i)) a =
      Ok (find (\<lambda>p. covers (nd st p) a) (bptrs st cs i))"
    using wf_head [OF wf i] i a wf_lengths [OF wf] entry_ok_not_none [of i "table st ! i"]
    by (auto simp: f(1) bptrs_def covers_def)
  then show ?case
    using Cons i wf_lengths [OF wf]
    by (simp add: tab_at_int find_append split: option.split)
qed

subsection \<open>Live nodes\<close>

definition aptrs :: "wmap_state \<Rightarrow> (nat \<Rightarrow> nat list) \<Rightarrow> nptr list" where
  "aptrs st cs = concat (map (bptrs st cs) [0..<MEM_HASH_SIZE])"

lemma plink_next:
  "plink pool p ks \<Longrightarrow> k \<in> set ks \<Longrightarrow> mnext (pool ! k) = Some q \<Longrightarrow> \<exists>k'\<in>set ks. q = Pool k'"
proof (induction ks arbitrary: p)
  case Nil
  then show ?case by simp
next
  case (Cons a ks)
  then show ?case by (cases ks) auto
qed

lemma plink_live:
  "plink (nodePool st) p ks \<Longrightarrow> (\<And>q. p = Some q \<Longrightarrow> live st q) \<Longrightarrow> k \<in> set ks \<Longrightarrow> live st (Pool k)"
proof (induction ks arbitrary: p)
  case Nil
  then show ?case by simp
next
  case (Cons a ks)
  have a: "live st (Pool a)" using Cons.prems by simp
  show ?case
  proof (cases "k = a")
    case False
    then show ?thesis
      using Cons.prems Cons.IH [of "mnext (nodePool st ! a)"] live_next [OF a] by auto
  qed (use a in simp)
qed

lemma set_aptrs: "p \<in> set (aptrs st cs) \<longleftrightarrow> (\<exists>i<MEM_HASH_SIZE. p \<in> set (bptrs st cs i))"
  by (auto simp: aptrs_def)

lemma live_aptrs:
  assumes wf: "wmap_wf st cs"
  shows "live st p \<longleftrightarrow> p \<in> set (aptrs st cs)"
proof
  assume "live st p"
  then show "p \<in> set (aptrs st cs)"
  proof induction
    case (live_head i)
    then show ?case by (auto simp: set_aptrs bptrs_def)
  next
    case (live_next p q)
    then obtain i where i: "i < MEM_HASH_SIZE" "p \<in> set (bptrs st cs i)" by (auto simp: set_aptrs)
    have "q \<in> set (map Pool (cs i))"
    proof (cases p)
      case (Tab j)
      then show ?thesis
        using i live_next.hyps wf_plink [OF wf i(1)]
        by (cases "cs i") (auto simp: bptrs_def split: if_splits)
    next
      case (Pool k)
      then show ?thesis
        using i live_next.hyps plink_next [OF wf_plink [OF wf i(1)], of k q]
        by (auto simp: bptrs_def split: if_splits)
    qed
    then show ?case using i by (auto simp: set_aptrs bptrs_def split: if_splits)
  qed
next
  assume "p \<in> set (aptrs st cs)"
  then obtain i where i: "i < MEM_HASH_SIZE" "p \<in> set (bptrs st cs i)" by (auto simp: set_aptrs)
  then have h: "startAddress (table st ! i) \<noteq> no_addr" by (auto simp: bptrs_def split: if_splits)
  have t: "live st (Tab i)" using i(1) h by (rule live_head)
  then show "live st p"
    using i h plink_live [OF wf_plink [OF wf i(1)]] live_next [OF t]
    by (auto simp: bptrs_def)
qed

lemma bptrs_entry_ok:
  "wmap_wf st cs \<Longrightarrow> i < MEM_HASH_SIZE \<Longrightarrow> p \<in> set (bptrs st cs i) \<Longrightarrow> entry_ok i (nd st p)"
  using wf_head [of st cs i] wf_pool [of st cs i] by (auto simp: bptrs_def split: if_splits)

lemma live_entry_ok: "wmap_wf st cs \<Longrightarrow> live st p \<Longrightarrow> \<exists>i<MEM_HASH_SIZE. entry_ok i (nd st p)"
  using bptrs_entry_ok by (fastforce simp: live_aptrs set_aptrs)

lemma live_nget: "wmap_wf st cs \<Longrightarrow> live st p \<Longrightarrow> nget st p = Ok (nd st p)"
  using wf_lengths [of st cs] wf_pool [of st cs]
  by (fastforce simp: live_aptrs set_aptrs bptrs_def split: if_splits)

lemma uint_node_end:
  assumes "entry_ok i n"
  shows "uint (node_end n) = uint (startAddress n) + numPages n * PGSIZE_int"
proof -
  have "uint (startAddress n) < 2 ^ 31" "0 \<le> numPages n * PGSIZE_int" "numPages n * PGSIZE_int < 2 ^ 31"
    using assms by (auto simp: entry_ok_def word_less_def)
  then show ?thesis by (simp add: node_end_def uint_word_ariths uint_to_uint)
qed

lemma covers_uint:
  "entry_ok i n \<Longrightarrow> covers n a \<longleftrightarrow>
     uint (startAddress n) \<le> uint a \<and> uint a < uint (startAddress n) + numPages n * PGSIZE_int"
  by (simp add: covers_def word_le_def word_less_def uint_node_end)

lemma covers_start: "entry_ok i n \<Longrightarrow> covers n (startAddress n)"
  by (simp add: covers_uint) (simp add: entry_ok_def)

subsection \<open>Page lookup\<close>

lemma look_page_spec:
  assumes wf: "wmap_wf st cs" and a: "a < 0x80000000"
  shows "look_page st a =
    Ok (case find (\<lambda>p. startAddress (nd st p) = a) (bptrs st cs (nat (hash (to_int a)))) of
          Some p \<Rightarrow> Some p
        | None \<Rightarrow> find (\<lambda>p. covers (nd st p) a) (aptrs st cs))"
proof -
  have v: "0 \<le> to_int a" "to_int a < 2 ^ 31"
    using a by (auto simp: to_int_low word_less_def)
  have "a \<noteq> no_addr" using a by auto
  then have "cover_scan [0..<MEM_HASH_SIZE] st a = Ok (find (\<lambda>p. covers (nd st p) a) (aptrs st cs))"
    unfolding aptrs_def by (intro cover_scan_spec [OF wf]) auto
  then show ?thesis
    by (simp add: look_page_def pageInMappings_def hashSearch_spec [OF wf v] split: option.split)
qed

lemma look_page_None:
  assumes wf: "wmap_wf st cs" and a: "a < 0x80000000"
  shows "look_page st a = Ok None \<longleftrightarrow> \<not> mapped st a"
proof -
  let ?i = "nat (hash (to_int a))"
  have i: "?i < MEM_HASH_SIZE" using a by (intro hash_nat) (simp add: to_int_nonneg)
  have "mapped st a" if "p \<in> set (bptrs st cs ?i)" "startAddress (nd st p) = a" for p
    using that bptrs_entry_ok [OF wf i that(1)] covers_start [of ?i "nd st p"] i
    by (auto simp: mapped_def live_aptrs [OF wf] set_aptrs)
  then show ?thesis
    by (auto simp: look_page_spec [OF assms] mapped_def live_aptrs [OF wf] find_None
        split: option.split dest: find_SomeD)
qed

lemma look_page_Some:
  assumes wf: "wmap_wf st cs" and a: "a < 0x80000000" and r: "look_page st a = Ok (Some p)"
  shows "live st p \<and> covers (nd st p) a"
proof -
  let ?i = "nat (hash (to_int a))"
  have i: "?i < MEM_HASH_SIZE" using a by (intro hash_nat) (simp add: to_int_nonneg)
  have "live st p \<and> covers (nd st p) a" if "p \<in> set (bptrs st cs ?i)" "startAddress (nd st p) = a"
    using that bptrs_entry_ok [OF wf i that(1)] covers_start [of ?i "nd st p"] i
    by (auto simp: live_aptrs [OF wf] set_aptrs)
  then show ?thesis
    using r by (auto simp: look_page_spec [OF wf a] live_aptrs [OF wf] split: option.splits dest!: find_SomeD)
qed

lemma look_page_total: "wmap_wf st cs \<Longrightarrow> a < 0x80000000 \<Longrightarrow> \<exists>r. look_page st a = Ok r"
  by (simp add: look_page_spec)

section \<open>The lookup contract and its clients\<close>

text \<open>What \<open>wmap\<close> and \<open>can_grow_in_place\<close> rely on: below the kernel half of the address space
  the lookup returns, and it finds a node exactly for the mapped addresses.\<close>

locale page_lookup =
  fixes inv :: "'s \<Rightarrow> bool" and look :: "'s \<Rightarrow> u32 \<Rightarrow> 'p option outcome" and busy :: "'s \<Rightarrow> u32 \<Rightarrow> bool"
  assumes look_total: "inv s \<Longrightarrow> a < 0x80000000 \<Longrightarrow> \<exists>r. look s a = Ok r"
    and look_None: "inv s \<Longrightarrow> a < 0x80000000 \<Longrightarrow> look s a = Ok None \<longleftrightarrow> \<not> busy s a"
begin

lemma look_Some: "inv s \<Longrightarrow> a < 0x80000000 \<Longrightarrow> busy s a \<Longrightarrow> \<exists>p. look s a = Ok (Some p)"
  using look_total [of s a] look_None [of s a] by fastforce

text \<open>The scan stops at the first busy page, or runs through when there is none.\<close>

lemma scan_run_spec:
  assumes "inv s" "uint addr + rl \<le> 2 ^ 31" "0 \<le> i" "i \<le> rl" "PGSIZE_int dvd rl - i"
  shows "\<exists>j. scan_run (look s) i rl addr = Ok j \<and> i \<le> j \<and> j \<le> rl \<and> PGSIZE_int dvd j - i \<and>
    (\<forall>k. i \<le> k \<and> k < j \<and> PGSIZE_int dvd k - i \<longrightarrow> \<not> busy s (addr + to_uint k)) \<and>
    (j < rl \<longrightarrow> busy s (addr + to_uint j))"
  using assms
proof (induction "look s" i rl addr rule: scan_run.induct)
  case (1 i rl addr)
  show ?case
  proof (cases "i < rl")
    case False
    with 1 have "i = rl" by simp
    then show ?thesis by (intro exI [of _ rl]) (auto simp: scan_run.simps)
  next
    case True
    have low: "addr + to_uint i < 0x80000000"
      using True "1.prems"(2,3) by (simp add: word_less_def uint_add_to_uint)
    show ?thesis
    proof (cases "busy s (addr + to_uint i)")
      case b: True
      then show ?thesis using look_Some [OF "1.prems"(1) low b] True 1
        by (auto simp: scan_run.simps [of _ i])
    next
      case b: False
      then have l: "look s (addr + to_uint i) = Ok None" using look_None [OF "1.prems"(1) low] by simp
      have step: "i + PGSIZE_int \<le> rl" using True zdvd_imp_le [OF "1.prems"(5)] by simp
      have d: "PGSIZE_int dvd rl - (i + PGSIZE_int)"
        using "1.prems"(5) by (metis diff_diff_eq dvd_diff dvd_refl)
      obtain j where j: "scan_run (look s) (i + PGSIZE_int) rl addr = Ok j" "i + PGSIZE_int \<le> j" "j \<le> rl"
          "PGSIZE_int dvd j - (i + PGSIZE_int)" "j < rl \<longrightarrow> busy s (addr + to_uint j)"
        and free: "\<And>k. i + PGSIZE_int \<le> k \<Longrightarrow> k < j \<Longrightarrow> PGSIZE_int dvd k - (i + PGSIZE_int) \<Longrightarrow>
          \<not> busy s (addr + to_uint k)"
        using "1.hyps" [OF True l] 1(3,4) \<open>0 \<le> i\<close> step d "1.prems"(1) by auto
      have "\<not> busy s (addr + to_uint k)" if "i \<le> k" "k < j" "PGSIZE_int dvd k - i" for k
      proof (cases "k = i")
        case False
        then have "i + PGSIZE_int \<le> k" using that(1) zdvd_imp_le [OF that(3)] by simp
        moreover have "PGSIZE_int dvd k - (i + PGSIZE_int)"
          using that(3) by (metis diff_diff_eq dvd_diff dvd_refl)
        ultimately show ?thesis using free that(2) by blast
      qed (use b in simp)
      moreover have "PGSIZE_int dvd j - i"
        using j(4) by (metis diff_add_cancel diff_diff_eq dvd_add dvd_refl)
      ultimately show ?thesis
        using j l True by (auto simp: scan_run.simps [of _ i])
    qed
  qed
qed

end

interpretation tab: page_lookup wmap_inv look_page mapped
  by unfold_locales (auto simp: wmap_inv_def look_page_total look_page_None)

section \<open>Insertion\<close>

definition payload :: "memHashNode \<Rightarrow> u32 \<times> int \<times> int \<times> int \<times> int \<times> int" where
  "payload n = (startAddress n, numPages n, mlength n, mfd n, mflags n, loadedPages n)"

lemma payload_mnext [simp]: "payload (n\<lparr>mnext := x\<rparr>) = payload n"
  by (simp add: payload_def)

lemma payload_relink [simp]: "payload (xs[i := (xs ! i)\<lparr>mnext := x\<rparr>] ! j) = payload (xs ! j)"
  by (cases "i < length xs"; cases "i = j") (auto simp: list_update_beyond)

lemma entry_ok_payload: "payload m = payload n \<Longrightarrow> entry_ok i m \<longleftrightarrow> entry_ok i n"
  by (auto simp: payload_def entry_ok_def)

lemma hashInsert_head:
  assumes wf: "wmap_wf st cs" and ok: "entry_ok i n" and n: "loadedPages n = 0"
    and empty: "startAddress (table st ! i) = no_addr" and i: "i < MEM_HASH_SIZE"
  shows "hashInsert (startAddress n) (mlength n) (numPages n) (mfd n) (mflags n) st =
    Ok (st\<lparr>table := (table st)[i := n\<lparr>mnext := None\<rparr>], mostRecent := Some (Tab i)\<rparr>)"
proof -
  have "hash (to_int (startAddress n)) = int i" using ok by (simp add: entry_ok_def)
  moreover have "mnext (table st ! i) = None"
    using wf_plink [OF wf i] wf_head [OF wf i] empty entry_ok_not_none [of i "table st ! i"] by auto
  ultimately show ?thesis
    using i empty n wf_lengths [OF wf]
    by (cases n; cases "table st ! i") (simp add: hashInsert_def tab_at_int)
qed

lemma hashInsert_head_wf:
  assumes wf: "wmap_wf st cs" and ok: "entry_ok i n"
    and empty: "startAddress (table st ! i) = no_addr" and i: "i < MEM_HASH_SIZE"
  shows "wmap_wf (st\<lparr>table := (table st)[i := n\<lparr>mnext := None\<rparr>], mostRecent := Some (Tab i)\<rparr>) cs"
proof -
  have "cs i = []" using wf_head [OF wf i] empty entry_ok_not_none [of i "table st ! i"] by auto
  moreover have "entry_ok i (n\<lparr>mnext := None\<rparr>)" using ok by (simp add: entry_ok_def)
  ultimately show ?thesis
    using wf i by (auto simp: wmap_wf_def nth_list_update)
qed

definition pool_insert :: "nat \<Rightarrow> memHashNode \<Rightarrow> wmap_state \<Rightarrow> wmap_state" where
  "pool_insert i n st = st\<lparr>
     nodePool := (nodePool st)[poolCounter st := n\<lparr>mnext := mnext (table st ! i)\<rparr>],
     table := (table st)[i := (table st ! i)\<lparr>mnext := Some (Pool (poolCounter st))\<rparr>],
     poolCounter := Suc (poolCounter st), mostRecent := Some (Pool (poolCounter st))\<rparr>"

lemma hashInsert_pool:
  assumes wf: "wmap_wf st cs" and ok: "entry_ok i n" and n: "loadedPages n = 0"
    and full: "startAddress (table st ! i) \<noteq> no_addr" and i: "i < MEM_HASH_SIZE"
    and room: "poolCounter st < MAX_WMMAP_INFO"
  shows "hashInsert (startAddress n) (mlength n) (numPages n) (mfd n) (mflags n) st =
    Ok (pool_insert i n st)"
proof -
  have "hash (to_int (startAddress n)) = int i" using ok by (simp add: entry_ok_def)
  then show ?thesis
    using i full n room wf_lengths [OF wf]
    by (cases n) (simp add: hashInsert_def tab_at_int pool_insert_def Let_def)
qed

lemma wf_fresh: "wmap_wf st cs \<Longrightarrow> j < MEM_HASH_SIZE \<Longrightarrow> poolCounter st \<notin> set (cs j)"
  using wf_pool by fastforce

lemma pool_insert_wf:
  assumes wf: "wmap_wf st cs" and ok: "entry_ok i n"
    and full: "startAddress (table st ! i) \<noteq> no_addr" and i: "i < MEM_HASH_SIZE"
    and room: "poolCounter st < MAX_WMMAP_INFO"
  shows "wmap_wf (pool_insert i n st) (cs(i := poolCounter st # cs i))"
proof -
  let ?k = "poolCounter st" and ?st = "pool_insert i n st" and ?cs = "cs(i := poolCounter st # cs i)"
  have fresh: "?k \<notin> set (cs j)" if "j < MEM_HASH_SIZE" for j using wf_fresh [OF wf that] .
  have len: "length (table st) = MEM_HASH_SIZE" "length (nodePool st) = MAX_WMMAP_INFO"
    using wf_lengths [OF wf] by auto
  have "entry_ok i (n\<lparr>mnext := mnext (table st ! i)\<rparr>)" using ok by (simp add: entry_ok_def)
  then have "k < poolCounter ?st \<and> entry_ok j (nodePool ?st ! k)"
    if "j < MEM_HASH_SIZE" "k \<in> set (?cs j)" for j k
    using wf_pool [OF wf that(1)] fresh [OF that(1)] that room len
    by (cases "k = ?k") (force simp: pool_insert_def split: if_splits)+
  then have pool: "\<forall>j<MEM_HASH_SIZE. \<forall>k\<in>set (?cs j). k < poolCounter ?st \<and> entry_ok j (nodePool ?st ! k)"
    by blast
  have links: "\<forall>j<MEM_HASH_SIZE. plink (nodePool ?st) (mnext (table ?st ! j)) (?cs j)"
    using wf_plink [OF wf] fresh i room len by (auto simp: pool_insert_def nth_list_update)
  have heads: "\<forall>j<MEM_HASH_SIZE. startAddress (table ?st ! j) = no_addr \<and> ?cs j = [] \<or>
      entry_ok j (table ?st ! j)"
    using wf_head [OF wf] i full len by (auto simp: pool_insert_def nth_list_update entry_ok_def)
  have "\<forall>j<MEM_HASH_SIZE. distinct (?cs j)"
    using wf fresh i by (auto simp: wmap_wf_def)
  moreover have "\<forall>j<MEM_HASH_SIZE. \<forall>k<MEM_HASH_SIZE. j \<noteq> k \<longrightarrow> set (?cs j) \<inter> set (?cs k) = {}"
    using wf fresh i by (auto simp: wmap_wf_def)
  ultimately show ?thesis
    using pool links heads room len unfolding wmap_wf_def by (simp add: pool_insert_def)
qed

text \<open>One statement for both branches of \<open>hashInsert\<close>. \<open>has_room\<close> is the case distinction of the
  code: the head of the bucket is free, or a node of the pool is left.\<close>

definition has_room :: "u32 \<Rightarrow> wmap_state \<Rightarrow> bool" where
  "has_room a st \<longleftrightarrow> startAddress (table st ! nat (hash (to_int a))) = no_addr \<or>
     poolCounter st < MAX_WMMAP_INFO"

definition other_live :: "wmap_state \<Rightarrow> (nat \<Rightarrow> nat list) \<Rightarrow> nat \<Rightarrow> nptr \<Rightarrow> bool" where
  "other_live st cs i q \<longleftrightarrow> (\<exists>j<MEM_HASH_SIZE. j \<noteq> i \<and> q \<in> set (bptrs st cs j))"

lemma live_split:
  "wmap_wf st cs \<Longrightarrow> i < MEM_HASH_SIZE \<Longrightarrow> live st q \<longleftrightarrow> q \<in> set (bptrs st cs i) \<or> other_live st cs i q"
  by (auto simp: live_aptrs set_aptrs other_live_def)

lemma live_upd:
  assumes "wmap_wf st' cs'" "i < MEM_HASH_SIZE"
    and "\<And>j. bptrs st' cs' j = (if j = i then xs else bptrs st cs j)"
  shows "live st' q \<longleftrightarrow> q \<in> set xs \<or> other_live st cs i q"
  using assms by (auto simp: live_aptrs set_aptrs other_live_def)

lemma bptrs_upd_head:
  "i < length (table st) \<Longrightarrow> startAddress n \<noteq> no_addr \<Longrightarrow>
   bptrs (st\<lparr>table := (table st)[i := n], mostRecent := r\<rparr>) cs j =
     (if j = i then Tab i # map Pool (cs i) else bptrs st cs j)"
  by (auto simp: bptrs_def)

lemma bptrs_pool_insert:
  assumes "i < length (table st)" "startAddress (table st ! i) \<noteq> no_addr"
  shows "bptrs (pool_insert i n st) (cs(i := poolCounter st # cs i)) j =
    (if j = i then Tab i # Pool (poolCounter st) # map Pool (cs i) else bptrs st cs j)"
  using assms by (auto simp: bptrs_def pool_insert_def nth_list_update)

lemma hashInsert_ok:
  assumes wf: "wmap_wf st cs" and n: "loadedPages n = 0" "startAddress n < 0x80000000"
      "1 \<le> numPages n" "numPages n * PGSIZE_int < 2 ^ 31"
    and room: "has_room (startAddress n) st"
  obtains st' cs' p where
    "hashInsert (startAddress n) (mlength n) (numPages n) (mfd n) (mflags n) st = Ok st'"
    "wmap_wf st' cs'" "mostRecent st' = Some p" "\<not> live st p" "payload (nd st' p) = payload n"
    "\<And>q. live st' q \<longleftrightarrow> q = p \<or> live st q" "\<And>q. live st q \<Longrightarrow> payload (nd st' q) = payload (nd st q)"
    "hashInit st' = hashInit st"
proof -
  let ?i = "nat (hash (to_int (startAddress n)))"
  have v: "0 \<le> to_int (startAddress n)" using n(2) by (simp add: to_int_nonneg)
  have i: "?i < MEM_HASH_SIZE" using v by (rule hash_nat)
  have ok: "entry_ok ?i n" using n v hash_bounds [OF v] by (simp add: entry_ok_def)
  have len: "length (table st) = MEM_HASH_SIZE" "length (nodePool st) = MAX_WMMAP_INFO"
    using wf_lengths [OF wf] by auto
  show thesis
  proof (cases "startAddress (table st ! ?i) = no_addr")
    case True
    let ?st = "st\<lparr>table := (table st)[?i := n\<lparr>mnext := None\<rparr>], mostRecent := Some (Tab ?i)\<rparr>"
    have nil: "cs ?i = []" using wf_head [OF wf i] True entry_ok_not_none [of ?i "table st ! ?i"] by auto
    have wf': "wmap_wf ?st cs" by (rule hashInsert_head_wf [OF wf ok True i])
    have b: "bptrs ?st cs j = (if j = ?i then [Tab ?i] else bptrs st cs j)" for j
      using bptrs_upd_head [of ?i st "n\<lparr>mnext := None\<rparr>"] i len nil entry_ok_not_none [OF ok] by simp
    have b0: "bptrs st cs ?i = []" using True by (simp add: bptrs_def)
    show thesis
    proof (rule that [OF hashInsert_head [OF wf ok n(1) True i] wf', of "Tab ?i"])
      show "live ?st q \<longleftrightarrow> q = Tab ?i \<or> live st q" for q
        by (simp add: live_upd [OF wf' i b] live_split [OF wf i] b0)
      show nl: "\<not> live st (Tab ?i)"
        using b0 by (auto simp: live_aptrs [OF wf] set_aptrs bptrs_def split: if_splits)
      show "payload (nd ?st q) = payload (nd st q)" if "live st q" for q
        using nl that by (cases q; cases "q = Tab ?i") auto
    qed (use i len in \<open>auto simp: payload_def\<close>)
  next
    case False
    then have pc: "poolCounter st < MAX_WMMAP_INFO" using room by (simp add: has_room_def)
    let ?st = "pool_insert ?i n st" and ?cs = "cs(?i := poolCounter st # cs ?i)" and ?p = "Pool (poolCounter st)"
    have wf': "wmap_wf ?st ?cs" by (rule pool_insert_wf [OF wf ok False i pc])
    have b: "bptrs ?st ?cs j = (if j = ?i then Tab ?i # ?p # map Pool (cs ?i) else bptrs st cs j)" for j
      using bptrs_pool_insert [of ?i st n cs] i len False by simp
    have b0: "bptrs st cs ?i = Tab ?i # map Pool (cs ?i)" using False by (simp add: bptrs_def)
    show thesis
    proof (rule that [OF hashInsert_pool [OF wf ok n(1) False i pc] wf', of ?p])
      show "live ?st q \<longleftrightarrow> q = ?p \<or> live st q" for q
        by (auto simp: live_upd [OF wf' i b] live_split [OF wf i] b0)
      show nl: "\<not> live st ?p"
        using wf_fresh [OF wf] by (auto simp: live_aptrs [OF wf] set_aptrs bptrs_def split: if_splits)
      show "payload (nd ?st q) = payload (nd st q)" if "live st q" for q
        using nl that by (cases q; cases "q = ?p") (auto simp: pool_insert_def)
    qed (use pc len in \<open>auto simp: payload_def pool_insert_def\<close>)
  qed
qed

lemma hashInsert_no_room:
  assumes wf: "wmap_wf st cs" and a: "a < 0x80000000" and room: "\<not> has_room a st"
  shows "hashInsert a len np fd flags st = Fault"
proof -
  have v: "0 \<le> to_int a" using a by (simp add: to_int_nonneg)
  show ?thesis
    using room wf_lengths [OF wf] hash_nat [OF v]
    by (simp add: hashInsert_def tab_at_hash [OF wf v] has_room_def Let_def)
qed

section \<open>The table as a bag of start addresses\<close>

definition addrs :: "wmap_state \<Rightarrow> u32 multiset" where
  "addrs st = image_mset (\<lambda>p. startAddress (nd st p)) (mset_set {p. live st p})"

lemma finite_live: "wmap_wf st cs \<Longrightarrow> finite {p. live st p}"
  by (simp add: live_aptrs)

lemma payload_start: "payload m = payload n \<Longrightarrow> startAddress m = startAddress n"
  by (simp add: payload_def)

lemma addrs_insert:
  assumes "wmap_wf st cs" "\<not> live st p" "\<And>q. live st' q \<longleftrightarrow> q = p \<or> live st q"
    and "\<And>q. live st q \<Longrightarrow> startAddress (nd st' q) = startAddress (nd st q)"
  shows "addrs st' = add_mset (startAddress (nd st' p)) (addrs st)"
proof -
  have "{q. live st' q} = insert p {q. live st q}" using assms(3) by auto
  then have "mset_set {q. live st' q} = add_mset p (mset_set {q. live st q})"
    using assms(2) finite_live [OF assms(1)] by simp
  moreover have "image_mset (\<lambda>q. startAddress (nd st' q)) (mset_set {q. live st q}) = addrs st"
    unfolding addrs_def using assms(4) finite_live [OF assms(1)] by (intro image_mset_cong) simp
  ultimately show ?thesis by (simp add: addrs_def)
qed

lemma addrs_iff: "wmap_wf st cs \<Longrightarrow> a \<in># addrs st \<longleftrightarrow> (\<exists>p. live st p \<and> startAddress (nd st p) = a)"
  using finite_live by (auto simp: addrs_def)

subsection \<open>Search\<close>

lemma hashSearch_live:
  assumes wf: "wmap_wf st cs" and v: "0 \<le> v" "v < 2 ^ 31"
  shows "\<exists>r. hashSearch v st = Ok r \<and>
    (case r of Some p \<Rightarrow> live st p \<and> startAddress (nd st p) = to_uint v
     | None \<Rightarrow> \<forall>p. live st p \<longrightarrow> startAddress (nd st p) \<noteq> to_uint v)"
proof -
  let ?i = "nat (hash v)" and ?P = "\<lambda>p. startAddress (nd st p) = to_uint v"
  have i: "?i < MEM_HASH_SIZE" using v(1) by (rule hash_nat)
  have inb: "p \<in> set (bptrs st cs ?i)" if "live st p" "?P p" for p
  proof -
    obtain j where j: "j < MEM_HASH_SIZE" "p \<in> set (bptrs st cs j)"
      using \<open>live st p\<close> by (auto simp: live_aptrs [OF wf] set_aptrs)
    have "hash v = int j"
      using bptrs_entry_ok [OF wf j] that(2) v by (simp add: entry_ok_def c_int_def)
    then show ?thesis using j by simp
  qed
  show ?thesis
  proof (cases "find ?P (bptrs st cs ?i)")
    case None
    then have "\<forall>p. live st p \<longrightarrow> \<not> ?P p" using inb by (auto simp: find_None)
    with None show ?thesis by (simp add: hashSearch_spec [OF assms])
  next
    case (Some p)
    then show ?thesis
      using find_SomeD [OF Some] i
      by (auto simp: hashSearch_spec [OF assms] live_aptrs [OF wf] set_aptrs)
  qed
qed

section \<open>Removal\<close>

lemma removeValue_single:
  assumes wf: "wmap_wf st cs" and v: "0 \<le> v" "i = nat (hash v)"
    and h: "startAddress (table st ! i) = to_uint v" and nil: "cs i = []"
  shows "removeValue v st =
    Ok (1, st\<lparr>table := (table st)[i := (table st ! i)\<lparr>startAddress := no_addr, mnext := None\<rparr>]\<rparr>)"
proof -
  have i: "i < MEM_HASH_SIZE" using v hash_nat by simp
  have "mnext (table st ! i) = None" using wf_plink [OF wf i] nil by simp
  then show ?thesis
    using h v i wf_lengths [OF wf] by (simp add: removeValue_def tab_at_hash [OF wf v(1)])
qed

lemma removeValue_shift:
  assumes wf: "wmap_wf st cs" and v: "0 \<le> v" "i = nat (hash v)"
    and h: "startAddress (table st ! i) = to_uint v" and ne: "cs i = k # ks"
  shows "removeValue v st =
    Ok (1, st\<lparr>table := (table st)[i := (table st ! i)
      \<lparr>startAddress := startAddress (nodePool st ! k), mnext := mnext (nodePool st ! k)\<rparr>]\<rparr>)"
proof -
  have i: "i < MEM_HASH_SIZE" using v hash_nat by simp
  have "mnext (table st ! i) = Some (Pool k)" "k < length (nodePool st)"
    using wf_plink [OF wf i] ne by auto
  then show ?thesis
    using h v i wf_lengths [OF wf] by (simp add: removeValue_def tab_at_hash [OF wf v(1)])
qed

lemma plink_unlink:
  "plink pool p (as @ k # bs) \<Longrightarrow> distinct (as @ k # bs) \<Longrightarrow> as \<noteq> [] \<Longrightarrow>
   plink (pool[last as := (pool ! last as)\<lparr>mnext := mnext (pool ! k)\<rparr>]) p (as @ bs)"
proof (induction as arbitrary: p)
  case Nil
  then show ?case by simp
next
  case (Cons a as)
  show ?case
  proof (cases "as = []")
    case False
    then have "last as \<noteq> a" using Cons.prems(2) last_in_set [of as] by auto
    with False Cons show ?thesis by simp
  qed (use Cons.prems in simp)
qed

lemma plink_mid: "plink pool p (as @ k # bs) \<Longrightarrow> k < length pool \<and> plink pool (mnext (pool ! k)) bs"
  by (induction as arbitrary: p) auto

definition unlink :: "nat \<Rightarrow> nat list \<Rightarrow> nat \<Rightarrow> wmap_state \<Rightarrow> wmap_state" where
  "unlink i as k st =
     (let m = mnext (nodePool st ! k);
          st = (if as = [] then st\<lparr>table := (table st)[i := (table st ! i)\<lparr>mnext := m\<rparr>]\<rparr>
                else st\<lparr>nodePool := (nodePool st)[last as := (nodePool st ! last as)\<lparr>mnext := m\<rparr>]\<rparr>)
      in st\<lparr>nodePool := (nodePool st)[k := (nodePool st ! k)\<lparr>startAddress := no_addr, mnext := None\<rparr>]\<rparr>)"

lemma takeWhile_split:
  "\<forall>x\<in>set as. P x \<Longrightarrow> \<not> P k \<Longrightarrow>
   takeWhile P (as @ k # bs) = as \<and> dropWhile P (as @ k # bs) = k # bs"
  by (induction as) auto

lemma remove_loop_bucket:
  assumes wf: "wmap_wf st cs" and i: "i < MEM_HASH_SIZE" and h: "startAddress (table st ! i) \<noteq> v"
  shows "remove_loop (chain_fuel st) st None (Some (Tab i)) v =
    Ok (let as = takeWhile (\<lambda>k. startAddress (nodePool st ! k) \<noteq> v) (cs i);
            bs = dropWhile (\<lambda>k. startAddress (nodePool st ! k) \<noteq> v) (cs i)
        in (if as = [] then Some (Tab i) else Some (Pool (last as)),
            if bs = [] then None else Some (Pool (hd bs))))"
proof -
  obtain f where f: "chain_fuel st = Suc f" "length (cs i) < f"
    using wf_fuel [OF wf i] by (cases "chain_fuel st") auto
  show ?thesis
    using h i wf_lengths [OF wf] remove_loop_plink [OF wf_plink [OF wf i] f(2)] by (simp add: f(1))
qed

lemma removeValue_chain:
  assumes wf: "wmap_wf st cs" and v: "0 \<le> v" "i = nat (hash v)"
    and h: "startAddress (table st ! i) \<noteq> to_uint v" and ks: "cs i = as @ k # bs"
    and as: "\<forall>j\<in>set as. startAddress (nodePool st ! j) \<noteq> to_uint v"
    and k: "startAddress (nodePool st ! k) = to_uint v"
  shows "removeValue v st = Ok (1, unlink i as k st)"
proof -
  have i: "i < MEM_HASH_SIZE" using v hash_nat by simp
  have d: "distinct (cs i)" using wf i by (simp add: wmap_wf_def)
  have len: "j < length (nodePool st)" if "j \<in> set (cs i)" for j
    using plink_length [OF wf_plink [OF wf i]] that by auto
  have "remove_loop (chain_fuel st) st None (Some (Tab i)) (to_uint v) =
      Ok (if as = [] then Some (Tab i) else Some (Pool (last as)), Some (Pool k))"
    using as k by (simp add: remove_loop_bucket [OF wf i h] ks takeWhile_split Let_def)
  moreover have kl: "k < length (nodePool st)" using len ks by simp
  moreover have "as \<noteq> [] \<Longrightarrow> last as < length (nodePool st) \<and> last as \<noteq> k"
    using len d last_in_set [of as] by (auto simp: ks)
  ultimately show ?thesis
    using h v i kl wf_lengths [OF wf]
    by (auto simp: removeValue_def tab_at_hash [OF wf v(1)] unlink_def Let_def)
qed

lemma removeValue_absent:
  assumes wf: "wmap_wf st cs" and v: "0 \<le> v" "i = nat (hash v)"
    and h: "startAddress (table st ! i) \<noteq> to_uint v"
    and as: "\<forall>j\<in>set (cs i). startAddress (nodePool st ! j) \<noteq> to_uint v"
  shows "removeValue v st = Ok (-1, st)"
proof -
  have i: "i < MEM_HASH_SIZE" using v hash_nat by simp
  have "dropWhile (\<lambda>k. startAddress (nodePool st ! k) \<noteq> to_uint v) (cs i) = []"
    using as by (simp add: dropWhile_eq_Nil_conv)
  then have "\<exists>prev. remove_loop (chain_fuel st) st None (Some (Tab i)) (to_uint v) = Ok (prev, None)"
    by (simp add: remove_loop_bucket [OF wf i h] Let_def)
  then show ?thesis
    using h v i wf_lengths [OF wf] by (auto simp: removeValue_def tab_at_hash [OF wf v(1)])
qed

lemma unlink_wf:
  assumes wf: "wmap_wf st cs" and i: "i < MEM_HASH_SIZE" and ks: "cs i = as @ k # bs"
  shows "wmap_wf (unlink i as k st) (cs(i := as @ bs))"
proof -
  let ?st = "unlink i as k st" and ?cs = "cs(i := as @ bs)"
  have len: "length (table st) = MEM_HASH_SIZE" "length (nodePool st) = MAX_WMMAP_INFO"
    using wf_lengths [OF wf] by auto
  have d: "distinct (cs i)" using wf i by (simp add: wmap_wf_def)
  have disj: "set (cs j) \<inter> set (cs i) = {}" if "j < MEM_HASH_SIZE" "j \<noteq> i" for j
    using wf i that by (simp add: wmap_wf_def)
  have sub: "set (?cs j) \<subseteq> set (cs j) - {k}" if "j < MEM_HASH_SIZE" for j
    using d disj [OF that] ks by auto
  have pay: "j \<noteq> k \<Longrightarrow> payload (nodePool ?st ! j) = payload (nodePool st ! j)" for j
    by (simp add: unlink_def Let_def)
  have "x < poolCounter ?st \<and> entry_ok j (nodePool ?st ! x)" if "j < MEM_HASH_SIZE" "x \<in> set (?cs j)" for j x
  proof -
    have x: "x \<in> set (cs j)" "x \<noteq> k" using sub [OF that(1)] that(2) by auto
    then show ?thesis
      using wf_pool [OF wf that(1) x(1)] entry_ok_payload [OF pay [OF x(2)]]
      by (simp add: unlink_def Let_def)
  qed
  then have pool: "\<forall>j<MEM_HASH_SIZE. \<forall>x\<in>set (?cs j). x < poolCounter ?st \<and> entry_ok j (nodePool ?st ! x)"
    by blast
  have heads: "startAddress (table ?st ! j) = no_addr \<and> ?cs j = [] \<or> entry_ok j (table ?st ! j)"
    if "j < MEM_HASH_SIZE" for j
    using wf_head [OF wf that] i ks len entry_ok_payload [of "table ?st ! j" "table st ! j" j]
    by (auto simp: unlink_def Let_def)
  have links: "plink (nodePool ?st) (mnext (table ?st ! j)) (?cs j)" if j: "j < MEM_HASH_SIZE" for j
  proof (cases "j = i")
    case True
    then show ?thesis
      using wf_plink [OF wf i] d i len plink_unlink [of "nodePool st" "mnext (table st ! i)" as k bs]
        plink_mid [of "nodePool st" "mnext (table st ! i)" as k bs]
      by (auto simp: unlink_def Let_def ks)
  next
    case False
    then have "as \<noteq> [] \<Longrightarrow> last as \<notin> set (cs j)" "k \<notin> set (cs j)"
      using disj [OF j False] last_in_set [of as] by (auto simp: ks)
    with False show ?thesis
      using wf_plink [OF wf j] by (cases "as = []") (simp_all add: unlink_def Let_def)
  qed
  have "\<forall>j<MEM_HASH_SIZE. distinct (?cs j)" using wf d ks by (auto simp: wmap_wf_def)
  moreover have "\<forall>j<MEM_HASH_SIZE. \<forall>x<MEM_HASH_SIZE. j \<noteq> x \<longrightarrow> set (?cs j) \<inter> set (?cs x) = {}"
    using wf_disj [OF wf] sub by blast
  ultimately show ?thesis
    using pool heads links len wf_lengths(3) [OF wf] unfolding wmap_wf_def
    by (simp add: unlink_def Let_def)
qed

lemma shift_wf:
  assumes wf: "wmap_wf st cs" and i: "i < MEM_HASH_SIZE" and ks: "cs i = k # ks"
    and h: "startAddress (table st ! i) \<noteq> no_addr"
  shows "wmap_wf (st\<lparr>table := (table st)[i := (table st ! i)
      \<lparr>startAddress := startAddress (nodePool st ! k), mnext := mnext (nodePool st ! k)\<rparr>]\<rparr>)
    (cs(i := ks))"
proof -
  have "entry_ok i (table st ! i)" using wf_head [OF wf i] h by simp
  moreover have "entry_ok i (nodePool st ! k)" using wf_pool [OF wf i] ks by simp
  ultimately have "entry_ok i ((table st ! i)\<lparr>startAddress := startAddress (nodePool st ! k),
      mnext := mnext (nodePool st ! k)\<rparr>)" by (simp add: entry_ok_def)
  moreover have "plink (nodePool st) (mnext (nodePool st ! k)) ks" using wf_plink [OF wf i] ks by simp
  moreover have "distinct (k # ks)" using wf_distinct [OF wf i] ks by simp
  moreover have "set ks \<inter> set (cs j) = {}" "set (cs j) \<inter> set ks = {}" if "j < MEM_HASH_SIZE" "j \<noteq> i" for j
    using wf_disj [OF wf i that] ks by auto
  ultimately show ?thesis
    using wf i ks unfolding wmap_wf_def by (auto simp: nth_list_update)
qed

lemma single_wf:
  assumes wf: "wmap_wf st cs" and i: "i < MEM_HASH_SIZE" and nil: "cs i = []"
  shows "wmap_wf (st\<lparr>table := (table st)[i := (table st ! i)\<lparr>startAddress := no_addr, mnext := None\<rparr>]\<rparr>) cs"
  using wf i nil by (auto simp: wmap_wf_def nth_list_update)

lemma distinct_bptrs: "wmap_wf st cs \<Longrightarrow> i < MEM_HASH_SIZE \<Longrightarrow> distinct (bptrs st cs i)"
  by (auto simp: bptrs_def wmap_wf_def distinct_map inj_on_def)

lemma other_live_disj:
  assumes wf: "wmap_wf st cs" and i: "i < MEM_HASH_SIZE" and q: "other_live st cs i q"
  shows "q \<notin> set (bptrs st cs i)" "q \<noteq> Tab i" "k \<in> set (cs i) \<Longrightarrow> q \<noteq> Pool k"
proof -
  obtain j where j: "j < MEM_HASH_SIZE" "j \<noteq> i" "q \<in> set (bptrs st cs j)"
    using q by (auto simp: other_live_def)
  moreover have "set (cs j) \<inter> set (cs i) = {}" using wf i j by (simp add: wmap_wf_def)
  ultimately show "q \<notin> set (bptrs st cs i)" "q \<noteq> Tab i" "k \<in> set (cs i) \<Longrightarrow> q \<noteq> Pool k"
    by (auto simp: bptrs_def split: if_splits)
qed

lemma bptrs_unlink:
  assumes "i < length (table st)" "startAddress (table st ! i) \<noteq> no_addr"
  shows "bptrs (unlink i as k st) (cs(i := as @ bs)) j =
    (if j = i then Tab i # map Pool (as @ bs) else bptrs st cs j)"
  using assms by (auto simp: bptrs_def unlink_def Let_def nth_list_update)

lemma addrs_remove:
  assumes "wmap_wf st cs" "live st p" "\<And>q. live st' q \<longleftrightarrow> live st q \<and> q \<noteq> p"
    and "\<And>q. live st' q \<Longrightarrow> startAddress (nd st' q) = startAddress (nd st q)"
  shows "addrs st' = addrs st - {#startAddress (nd st p)#}"
proof -
  have "{q. live st q} = insert p {q. live st' q}" "\<not> live st' p" using assms(2,3) by auto
  then have "mset_set {q. live st q} = add_mset p (mset_set {q. live st' q})"
    using finite_live [OF assms(1)] by simp
  moreover have "image_mset (\<lambda>q. startAddress (nd st q)) (mset_set {q. live st' q}) = addrs st'"
    unfolding addrs_def using assms(3,4) finite_live [OF assms(1)]
    by (intro image_mset_cong) (simp add: elem_mset_set)
  ultimately show ?thesis by (simp add: addrs_def)
qed

lemma addrs_shift:
  assumes "wmap_wf st cs" "live st p" "live st t" "p \<noteq> t" "\<And>q. live st' q \<longleftrightarrow> live st q \<and> q \<noteq> p"
    and "\<And>q. live st' q \<Longrightarrow> q \<noteq> t \<Longrightarrow> startAddress (nd st' q) = startAddress (nd st q)"
    and "startAddress (nd st' t) = startAddress (nd st p)"
  shows "addrs st' = addrs st - {#startAddress (nd st t)#}"
proof -
  let ?R = "{q. live st q \<and> q \<noteq> p \<and> q \<noteq> t}"
  have fin: "finite ?R" using finite_live [OF assms(1)] by simp
  have "{q. live st q} = insert p (insert t ?R)" "{q. live st' q} = insert t ?R"
    using assms(2-5) by auto
  then have "mset_set {q. live st q} = add_mset p (add_mset t (mset_set ?R))"
      "mset_set {q. live st' q} = add_mset t (mset_set ?R)"
    using fin assms(4) by simp_all
  moreover have "image_mset (\<lambda>q. startAddress (nd st' q)) (mset_set ?R) =
      image_mset (\<lambda>q. startAddress (nd st q)) (mset_set ?R)"
    using assms(5,6) fin by (intro image_mset_cong) simp
  ultimately show ?thesis using assms(7) by (simp add: addrs_def)
qed

lemma removeValue_unlink:
  assumes wf: "wmap_wf st cs" and v: "0 \<le> v" "v < 2 ^ 31" "i = nat (hash v)"
    and h: "startAddress (table st ! i) \<noteq> to_uint v" and ks: "cs i = as @ k # bs"
    and as: "\<forall>j\<in>set as. startAddress (nodePool st ! j) \<noteq> to_uint v"
    and k: "startAddress (nodePool st ! k) = to_uint v"
  obtains st' cs' where "removeValue v st = Ok (1, st')" "wmap_wf st' cs'" "live st (Pool k)"
    "\<And>q. live st' q \<longleftrightarrow> live st q \<and> q \<noteq> Pool k"
    "\<And>q. live st' q \<Longrightarrow> payload (nd st' q) = payload (nd st q)"
proof
  have i: "i < MEM_HASH_SIZE" using v hash_nat by simp
  have ne: "startAddress (table st ! i) \<noteq> no_addr" using wf_head [OF wf i] ks entry_ok_not_none by auto
  show "removeValue v st = Ok (1, unlink i as k st)"
    by (rule removeValue_chain [OF wf v(1,3) h ks as k])
  show wf': "wmap_wf (unlink i as k st) (cs(i := as @ bs))" by (rule unlink_wf [OF wf i ks])
  have b0: "bptrs st cs i = Tab i # map Pool (as @ k # bs)" using ne ks by (simp add: bptrs_def)
  have b: "bptrs (unlink i as k st) (cs(i := as @ bs)) j =
      (if j = i then Tab i # map Pool (as @ bs) else bptrs st cs j)" for j
    using i ne wf_lengths [OF wf] by (intro bptrs_unlink) auto
  have d: "k \<notin> set as" "k \<notin> set bs" using wf_distinct [OF wf i] ks by auto
  show "live st (Pool k)" by (simp add: live_split [OF wf i] b0)
  show "live (unlink i as k st) q \<longleftrightarrow> live st q \<and> q \<noteq> Pool k" for q
    using d other_live_disj(3) [OF wf i, of q k]
    by (auto simp: live_upd [OF wf' i b] live_split [OF wf i] b0 ks)
  then show "payload (nd (unlink i as k st) q) = payload (nd st q)" if "live (unlink i as k st) q" for q
    using that by (cases q) (auto simp: unlink_def Let_def)
qed

lemma removeValue_ok:
  assumes wf: "wmap_wf st cs" and v: "0 \<le> v" "v < 2 ^ 31"
  shows "\<exists>r st' cs'. removeValue v st = Ok (r, st') \<and> wmap_wf st' cs' \<and>
    addrs st' = addrs st - {#to_uint v#} \<and>
    (if to_uint v \<in># addrs st then r = 1 else r = -1 \<and> st' = st)"
proof -
  define i where "i = nat (hash v)"
  have i: "i < MEM_HASH_SIZE" using v hash_nat by (simp add: i_def)
  have len: "length (table st) = MEM_HASH_SIZE" using wf_lengths [OF wf] by simp
  consider (single) "startAddress (table st ! i) = to_uint v" "cs i = []"
    | (shift) k ks where "startAddress (table st ! i) = to_uint v" "cs i = k # ks"
    | (chain) as k bs where "startAddress (table st ! i) \<noteq> to_uint v" "cs i = as @ k # bs"
        "\<forall>j\<in>set as. startAddress (nodePool st ! j) \<noteq> to_uint v" "startAddress (nodePool st ! k) = to_uint v"
    | (absent) "startAddress (table st ! i) \<noteq> to_uint v"
        "\<forall>j\<in>set (cs i). startAddress (nodePool st ! j) \<noteq> to_uint v"
    using split_list_first_prop [of "cs i" "\<lambda>j. startAddress (nodePool st ! j) = to_uint v"]
    by (metis neq_Nil_conv)
  then show ?thesis
  proof cases
    case single
    let ?st = "st\<lparr>table := (table st)[i := (table st ! i)\<lparr>startAddress := no_addr, mnext := None\<rparr>]\<rparr>"
    have wf': "wmap_wf ?st cs" by (rule single_wf [OF wf i single(2)])
    have b0: "bptrs st cs i = [Tab i]" using single to_uint_not_none [OF v] by (simp add: bptrs_def)
    have b: "bptrs ?st cs j = (if j = i then [] else bptrs st cs j)" for j
      using i len by (simp add: bptrs_def)
    have l: "live st (Tab i)" by (simp add: live_split [OF wf i] b0)
    have "addrs ?st = addrs st - {#startAddress (nd st (Tab i))#}"
    proof (rule addrs_remove [OF wf l])
      show l': "live ?st q \<longleftrightarrow> live st q \<and> q \<noteq> Tab i" for q
        using other_live_disj(2) [OF wf i, of q]
        by (auto simp: live_upd [OF wf' i b] live_split [OF wf i] b0)
      show "startAddress (nd ?st q) = startAddress (nd st q)" if "live ?st q" for q
        using that l' by (cases q) auto
    qed
    then show ?thesis
      using removeValue_single [OF wf v(1) i_def single] wf' single l
      by (auto simp: addrs_iff [OF wf])
  next
    case (shift k ks)
    let ?st = "st\<lparr>table := (table st)[i := (table st ! i)
      \<lparr>startAddress := startAddress (nodePool st ! k), mnext := mnext (nodePool st ! k)\<rparr>]\<rparr>"
    have ne: "startAddress (table st ! i) \<noteq> no_addr" using shift to_uint_not_none [OF v] by simp
    have wf': "wmap_wf ?st (cs(i := ks))" by (rule shift_wf [OF wf i shift(2) ne])
    have nk: "startAddress (nodePool st ! k) \<noteq> no_addr"
      using wf_pool [OF wf i, of k] shift(2) entry_ok_not_none by auto
    have b0: "bptrs st cs i = Tab i # Pool k # map Pool ks" using shift ne by (simp add: bptrs_def)
    have b: "bptrs ?st (cs(i := ks)) j = (if j = i then Tab i # map Pool ks else bptrs st cs j)" for j
      using i len nk by (simp add: bptrs_def)
    have l: "live st (Tab i)" "live st (Pool k)" by (simp_all add: live_split [OF wf i] b0)
    have "addrs ?st = addrs st - {#startAddress (nd st (Tab i))#}"
    proof (rule addrs_shift [OF wf l(2) l(1)])
      show l': "live ?st q \<longleftrightarrow> live st q \<and> q \<noteq> Pool k" for q
        using other_live_disj(3) [OF wf i, of q k] wf_distinct [OF wf i] shift(2)
        by (auto simp: live_upd [OF wf' i b] live_split [OF wf i] b0)
      show "startAddress (nd ?st q) = startAddress (nd st q)" if "live ?st q" "q \<noteq> Tab i" for q
        using that by (cases q) auto
    qed (use i len in auto)
    then show ?thesis
      using removeValue_shift [OF wf v(1) i_def shift] wf' shift l
      by (auto simp: addrs_iff [OF wf])
  next
    case (chain as k bs)
    obtain st' cs' where r: "removeValue v st = Ok (1, st')" "wmap_wf st' cs'" "live st (Pool k)"
        "\<And>q. live st' q \<longleftrightarrow> live st q \<and> q \<noteq> Pool k"
        "\<And>q. live st' q \<Longrightarrow> payload (nd st' q) = payload (nd st q)"
      by (fact removeValue_unlink [OF wf v i_def chain])
    have "addrs st' = addrs st - {#startAddress (nd st (Pool k))#}"
      by (rule addrs_remove [OF wf r(3,4)]) (rule payload_start [OF r(5)])
    then show ?thesis
      using r chain by (auto simp: addrs_iff [OF wf])
  next
    case absent
    have "\<not> (live st p \<and> startAddress (nd st p) = to_uint v)" for p
      using hashSearch_spec [OF wf v] hashSearch_live [OF wf v] absent
      by (auto simp: bptrs_def find_None i_def [symmetric] split: option.splits if_splits dest!: find_SomeD)
    then have "to_uint v \<notin># addrs st" by (auto simp: addrs_iff [OF wf])
    then show ?thesis
      using removeValue_absent [OF wf v(1) i_def absent] wf by (auto simp: diff_single_trivial)
  qed
qed

end
