(* ===== verification/WmapPlace.thy ===== *)
theory WmapPlace
  imports WmapTable
begin

text \<open>
  The placement search of \<open>wmap\<close> and the call itself. \<open>free_at\<close> says what a placement is,
  \<open>search_start\<close> where the search begins, \<open>first_fit\<close> what it returns, \<open>region_added\<close> what a successful call does to the table.
  The container contract \<open>addr_bag\<close> is proved for the hash table, and the clients' facts about
  insertion, lookup and removal are read off its interpretation \<open>wt\<close>.
\<close>

section \<open>Placement\<close>

text \<open>A table all of whose regions are page aligned and lie in the window that \<open>wmap\<close> serves.\<close>

definition windowed :: "wmap_state \<Rightarrow> bool" where
  "windowed st \<longleftrightarrow> (\<forall>p. live st p \<longrightarrow> PGSIZE_int dvd uint (startAddress (nd st p)) \<and>
     0x60000000 \<le> uint (startAddress (nd st p)) \<and>
     uint (startAddress (nd st p)) + numPages (nd st p) * PGSIZE_int \<le> 2 ^ 31)"

text \<open>\<open>free_at st rl b\<close>: a region of \<open>rl\<close> bytes at the page boundary \<open>b\<close> lies below the kernel
  and meets no mapping.\<close>

definition free_at :: "wmap_state \<Rightarrow> int \<Rightarrow> int \<Rightarrow> bool" where
  "free_at st rl b \<longleftrightarrow> PGSIZE_int dvd b \<and> 0 \<le> b \<and> b + rl \<le> 2 ^ 31 \<and>
     (\<forall>x. b \<le> x \<and> x < b + rl \<longrightarrow> \<not> mapped st (to_uint x))"

lemma scan_run_Ok:
  "scan_run look i rl addr = Ok j \<Longrightarrow> i \<le> j \<and>
    (\<forall>k. i \<le> k \<and> k < j \<and> PGSIZE_int dvd k - i \<longrightarrow> look (addr + to_uint k) = Ok None) \<and>
    (j < rl \<longrightarrow> (\<exists>p. look (addr + to_uint j) = Ok (Some p)))"
proof (induction look i rl addr rule: scan_run.induct)
  case (1 look i rl addr)
  show ?case
  proof (cases "i < rl")
    case False
    with "1.prems" show ?thesis by (auto simp: scan_run.simps [of _ i])
  next
    case True
    then obtain r where r: "look (addr + to_uint i) = Ok r"
        "(if r \<noteq> None then Ok i else scan_run look (i + PGSIZE_int) rl addr) = Ok j"
      using "1.prems" by (auto simp: scan_run.simps [of _ i] obind_eq_Ok)
    show ?thesis
    proof (cases r)
      case None
      then have IH: "i + PGSIZE_int \<le> j" "j < rl \<longrightarrow> (\<exists>p. look (addr + to_uint j) = Ok (Some p))"
          "\<And>k. i + PGSIZE_int \<le> k \<Longrightarrow> k < j \<Longrightarrow> PGSIZE_int dvd k - (i + PGSIZE_int) \<Longrightarrow> look (addr + to_uint k) = Ok None"
        using "1.IH" [OF True] r by auto
      have "look (addr + to_uint k) = Ok None" if k: "i \<le> k" "k < j" "PGSIZE_int dvd k - i" for k
      proof (cases "k = i")
        case False
        then have "i + PGSIZE_int \<le> k" using k(1) zdvd_imp_le [OF k(3)] by simp
        moreover have "PGSIZE_int dvd k - (i + PGSIZE_int)"
          using k(3) by (metis diff_diff_eq dvd_diff dvd_refl)
        ultimately show ?thesis using IH(3) k(2) by blast
      qed (use r None in simp)
      then show ?thesis using IH(1,2) by auto
    next
      case (Some p)
      then show ?thesis using r by auto
    qed
  qed
qed

text \<open>The first address of the kernel half has a negative hash, so the lookup reads outside the
  table there.\<close>

lemma look_page_kernel: "look_page st 0x80000000 = Fault"
proof -
  have "to_int 0x80000000 = - 2147483648" by (simp add: to_int_cases)
  then show ?thesis
    by (simp add: look_page_def pageInMappings_def hashSearch_def hash_def smod_int_alt_def tab_at_def)
qed

lemma page_covers:
  assumes ok: "entry_ok i n" and al: "PGSIZE_int dvd uint (startAddress n)"
    and x: "0 \<le> x" "x < 2 ^ 32" and p: "p = x - x mod PGSIZE_int"
  shows "covers n (to_uint x) \<longleftrightarrow> covers n (to_uint p)"
proof -
  define b where "b = x div PGSIZE_int"
  have pb: "p = PGSIZE_int * b" "PGSIZE_int * b \<le> x" "x < PGSIZE_int * b + PGSIZE_int" "0 \<le> b"
    using x p by (auto simp: b_def minus_mod_eq_mult_div)
  obtain a where a: "uint (startAddress n) = PGSIZE_int * a" using al by (elim dvdE)
  have key: "PGSIZE_int * c \<le> x \<longleftrightarrow> PGSIZE_int * c \<le> PGSIZE_int * b" for c
  proof
    assume "PGSIZE_int * c \<le> x"
    then have "PGSIZE_int * c < PGSIZE_int * (b + 1)" using pb(3) by simp
    then have "c \<le> b" by simp
    then show "PGSIZE_int * c \<le> PGSIZE_int * b" by simp
  qed (use pb in linarith)
  have "PGSIZE_int * a + numPages n * PGSIZE_int = PGSIZE_int * (a + numPages n)"
    by (simp add: algebra_simps)
  then have "x < PGSIZE_int * a + numPages n * PGSIZE_int \<longleftrightarrow>
      PGSIZE_int * b < PGSIZE_int * a + numPages n * PGSIZE_int"
    using key [of "a + numPages n"] by (simp only: not_le [symmetric])
  moreover have "uint (to_uint x) = x" "uint (to_uint p) = p"
    using x pb by (auto intro!: uint_to_uint)
  ultimately show ?thesis using key [of a] pb(1) by (simp only: covers_uint [OF ok] a)
qed


lemma scan_run_extend:
  "scan_run look i m addr = Ok j \<Longrightarrow> m \<le> rl \<Longrightarrow>
    scan_run look i rl addr = (if j < m then Ok j else scan_run look j rl addr)"
proof (induction look i m addr rule: scan_run.induct)
  case (1 look i m addr)
  show ?case
  proof (cases "i < m")
    case True
    then obtain r where r: "look (addr + to_uint i) = Ok r"
        "(if r \<noteq> None then Ok i else scan_run look (i + PGSIZE_int) m addr) = Ok j"
      using "1.prems" by (auto simp: scan_run.simps [of _ i] obind_eq_Ok)
    then show ?thesis
      using True "1.prems" "1.IH" [OF True] by (auto simp: scan_run.simps [of _ i rl])
  qed (use "1.prems" in \<open>simp add: scan_run.simps [of _ i m]\<close>)
qed

lemma mapped_page:
  assumes wf: "wmap_wf st cs" and w: "windowed st" and x: "0 \<le> x" "x < 2 ^ 32"
  shows "mapped st (to_uint x) \<longleftrightarrow> mapped st (to_uint (x - x mod PGSIZE_int))"
proof -
  have "covers (nd st p) (to_uint x) \<longleftrightarrow> covers (nd st p) (to_uint (x - x mod PGSIZE_int))" if "live st p" for p
    using live_entry_ok [OF wf that] w that page_covers [OF _ _ x refl] by (auto simp only: windowed_def)
  then show ?thesis by (auto simp: mapped_def)
qed

text \<open>The three ways a scan from a page boundary ends.\<close>

lemma scan_run_cases:
  assumes inv: "wmap_inv st" and a: "uint addr \<le> 2 ^ 31" "PGSIZE_int dvd uint addr"
    and rl: "0 < rl" "PGSIZE_int dvd rl"
  obtains (busy) j where "scan_run (look_page st) 0 rl addr = Ok j" "0 \<le> j" "j < rl"
      "uint addr + j < 2 ^ 31" "PGSIZE_int dvd j" "mapped st (addr + to_uint j)"
  | (free) "scan_run (look_page st) 0 rl addr = Ok rl" "uint addr + rl \<le> 2 ^ 31"
      "\<And>k. 0 \<le> k \<Longrightarrow> k < rl \<Longrightarrow> PGSIZE_int dvd k \<Longrightarrow> \<not> mapped st (addr + to_uint k)"
  | (full) "scan_run (look_page st) 0 rl addr = Fault" "2 ^ 31 < uint addr + rl"
proof -
  define m where "m = min rl (2 ^ 31 - uint addr)"
  have m: "0 \<le> m" "m \<le> rl" "uint addr + m \<le> 2 ^ 31" "PGSIZE_int dvd m"
    using a rl by (auto simp: m_def min_def dvd_diff)
  obtain j where j: "scan_run (look_page st) 0 m addr = Ok j" "0 \<le> j" "j \<le> m" "PGSIZE_int dvd j"
      "\<And>k. 0 \<le> k \<Longrightarrow> k < j \<Longrightarrow> PGSIZE_int dvd k \<Longrightarrow> \<not> mapped st (addr + to_uint k)"
      "j < m \<Longrightarrow> mapped st (addr + to_uint j)"
    using tab.scan_run_spec [OF inv m(3) order_refl m(1)] m(4) by auto
  have ext: "scan_run (look_page st) 0 rl addr = (if j < m then Ok j else scan_run (look_page st) j rl addr)"
    by (rule scan_run_extend [OF j(1) m(2)])
  consider "j < m" | "j = m" "m = rl" | "j = m" "m < rl" using j(3) m(2) by linarith
  then show ?thesis
  proof cases
    case 1
    then show ?thesis using busy [of j] ext j m by auto
  next
    case 2
    then show ?thesis using free ext j m by (auto simp: scan_run.simps [of _ rl])
  next
    case 3
    then have e: "uint addr + m = 2 ^ 31" by (auto simp: m_def min_def split: if_splits)
    then have "uint (addr + to_uint m) = uint (0x80000000 :: u32)"
      using m(1) by (simp add: uint_add_to_uint)
    then have "addr + to_uint m = 0x80000000" by (simp only: word_uint_eq_iff)
    then have "scan_run (look_page st) j rl addr = Fault"
      using 3 by (simp add: scan_run.simps [of _ m] look_page_kernel)
    then show ?thesis using full ext 3 e by simp
  qed
qed


lemma free_at_scan:
  assumes wf: "wmap_wf st cs" and w: "windowed st"
    and a: "PGSIZE_int dvd uint addr" "uint addr + rl \<le> 2 ^ 31"
    and free: "\<And>k. 0 \<le> k \<Longrightarrow> k < rl \<Longrightarrow> PGSIZE_int dvd k \<Longrightarrow> \<not> mapped st (addr + to_uint k)"
  shows "free_at st rl (uint addr)"
proof -
  have "\<not> mapped st (to_uint x)" if x: "uint addr \<le> x" "x < uint addr + rl" for x
  proof -
    let ?k = "x - x mod PGSIZE_int - uint addr"
    have d: "PGSIZE_int dvd ?k" using a(1) by (simp add: minus_mod_eq_mult_div)
    have "uint addr div PGSIZE_int \<le> x div PGSIZE_int" using x(1) by (simp add: zdiv_mono1)
    then have "0 \<le> ?k" using a(1) by (auto simp: minus_mod_eq_mult_div elim!: dvdE)
    moreover have "?k < rl" using x(2) pos_mod_sign [of PGSIZE_int x] by simp
    moreover have "addr + to_uint ?k = to_uint (x - x mod PGSIZE_int)"
      by (simp add: to_uint_def)
    ultimately have "\<not> mapped st (to_uint (x - x mod PGSIZE_int))" using free d by metis
    moreover have "0 \<le> x" using x(1) uint_ge_0 [of addr] by linarith
    moreover have "x < 2 ^ 32" using x(2) a(2) by simp
    ultimately show ?thesis using mapped_page [OF wf w] by blast
  qed
  then show ?thesis using a by (simp add: free_at_def)
qed

lemma live_bound:
  assumes "wmap_wf st cs"
  shows "card {p. live st p \<and> P p} < chain_fuel st"
proof -
  have "{p. live st p \<and> P p} \<subseteq> Tab ` {..<length (table st)} \<union> Pool ` {..<length (nodePool st)}"
  proof
    fix p assume "p \<in> {p. live st p \<and> P p}"
    then have "\<exists>n. nget st p = Ok n" using live_nget [OF assms] by auto
    then show "p \<in> Tab ` {..<length (table st)} \<union> Pool ` {..<length (nodePool st)}"
      by (cases p) (auto split: if_splits)
  qed
  then have "card {p. live st p \<and> P p} \<le> card (Tab ` {..<length (table st)} \<union> Pool ` {..<length (nodePool st)})"
    by (intro card_mono) auto
  also have "\<dots> \<le> length (table st) + length (nodePool st)"
    by (rule order_trans [OF card_Un_le]) (intro add_mono; rule order_trans [OF card_image_le]; simp)
  finally show ?thesis by (simp add: chain_fuel_def)
qed


text \<open>A round that meets the mapping \<open>p\<close> skips only placements that are not free.\<close>

lemma skip_mapping:
  assumes wf: "wmap_wf st cs" and w: "windowed st"
    and p: "live st p" "covers (nd st p) (addr + to_uint j)"
    and j: "0 \<le> j" "j < rl" "uint addr + j < 2 ^ 31"
  shows "uint addr + j < uint (node_end (nd st p))" "uint (node_end (nd st p)) \<le> 2 ^ 31"
    "PGSIZE_int dvd uint (node_end (nd st p))"
    "uint addr \<le> b \<Longrightarrow> b < uint (node_end (nd st p)) \<Longrightarrow> \<not> free_at st rl b"
proof -
  obtain i where ok: "entry_ok i (nd st p)" using live_entry_ok [OF wf p(1)] by blast
  have u: "uint (addr + to_uint j) = uint addr + j" using j by (intro uint_add_to_uint) auto
  note c = p(2) [unfolded covers_uint [OF ok] u]
  show "uint addr + j < uint (node_end (nd st p))" using c by (simp add: uint_node_end [OF ok])
  show "uint (node_end (nd st p)) \<le> 2 ^ 31" "PGSIZE_int dvd uint (node_end (nd st p))"
    using w p(1) by (auto simp: uint_node_end [OF ok] windowed_def)
  show "\<not> free_at st rl b" if b: "uint addr \<le> b" "b < uint (node_end (nd st p))"
  proof
    assume f: "free_at st rl b"
    define x where "x = max b (uint addr + j)"
    have b0: "0 \<le> x" using order_trans [OF uint_ge_0 b(1)] by (simp add: x_def le_max_iff_disj)
    have x: "b \<le> x" "x < b + rl" "x < 2 ^ 32" "x < uint (node_end (nd st p))"
        "uint (startAddress (nd st p)) \<le> x"
      using b j c f by (auto simp: x_def free_at_def max_def uint_node_end [OF ok])
    then have "covers (nd st p) (to_uint x)" using b0
      by (simp add: covers_uint [OF ok] uint_to_uint uint_node_end [OF ok])
    then have "mapped st (to_uint x)" using p(1) by (auto simp: mapped_def)
    then show False using f x by (simp add: free_at_def)
  qed
qed

text \<open>The result of the placement search: the first free placement from \<open>b0\<close> on, or a fault when
  there is none.\<close>

definition first_fit :: "wmap_state \<Rightarrow> int \<Rightarrow> int \<Rightarrow> u32 outcome \<Rightarrow> bool" where
  "first_fit st rl b0 r \<longleftrightarrow>
     (case r of
        Ok a \<Rightarrow> b0 \<le> uint a \<and> free_at st rl (uint a) \<and> (\<forall>b. b0 \<le> b \<and> b < uint a \<longrightarrow> \<not> free_at st rl b)
      | Fault \<Rightarrow> \<forall>b\<ge>b0. \<not> free_at st rl b
      | _ \<Rightarrow> False)"

lemma place_loop_first_fit:
  assumes wf: "wmap_wf st cs" and w: "windowed st" and rl: "0 < rl" "PGSIZE_int dvd rl"
  shows "uint base \<le> uint addr \<Longrightarrow> uint addr \<le> 2 ^ 31 \<Longrightarrow> PGSIZE_int dvd uint addr \<Longrightarrow>
    (\<And>b. uint base \<le> b \<Longrightarrow> b < uint addr \<Longrightarrow> \<not> free_at st rl b) \<Longrightarrow>
    card {p. live st p \<and> uint addr < uint (node_end (nd st p))} < k \<Longrightarrow>
    first_fit st rl (uint base) (place_loop k base addr rl st)"
proof (induction k arbitrary: addr)
  case (Suc k)
  have inv: "wmap_inv st" using wf by (auto simp: wmap_inv_def)
  show ?case
  proof (cases rule: scan_run_cases [OF inv Suc.prems(2,3) rl])
    case (1 j)
    have low: "addr + to_uint j < 0x80000000" using 1 by (simp add: word_less_def uint_add_to_uint)
    obtain p where p: "look_page st (addr + to_uint j) = Ok (Some p)"
      using tab.look_Some [OF inv low 1(6)] by blast
    note l = look_page_Some [OF wf low p]
    let ?a = "node_end (nd st p)"
    note sk = skip_mapping [OF wf w l [THEN conjunct1] l [THEN conjunct2] 1(2-4)]
    have run: "place_loop (Suc k) base addr rl st = place_loop k base ?a rl st"
      using 1(1,3) p l live_nget [OF wf] sk(1) Suc.prems(1) 1(2) by auto
    have gap: "\<not> free_at st rl b" if "uint base \<le> b" "b < uint ?a" for b
      using sk(4) [of b] Suc.prems(4) [of b] that by (cases "b < uint addr") auto
    have "{q. live st q \<and> uint ?a < uint (node_end (nd st q))} \<subset> {q. live st q \<and> uint addr < uint (node_end (nd st q))}"
      using sk(1) 1(2) l by force
    then have "card {q. live st q \<and> uint ?a < uint (node_end (nd st q))} <
        card {q. live st q \<and> uint addr < uint (node_end (nd st q))}"
      using finite_live [OF wf] by (intro psubset_card_mono) auto
    then show ?thesis
      unfolding run using Suc.prems sk gap 1(2) by (intro Suc.IH) auto
  next
    case 2
    then have "free_at st rl (uint addr)"
      by (intro free_at_scan [OF wf w Suc.prems(3)])
    then show ?thesis using 2(1) Suc.prems(1,4) by (simp add: first_fit_def)
  next
    case 3
    have "\<not> free_at st rl b" if "uint base \<le> b" for b
      using that Suc.prems(4) [of b] 3(2) by (cases "b < uint addr") (auto simp: free_at_def)
    then show ?thesis using 3(1) by (simp add: first_fit_def)
  qed
qed simp


section \<open>wmap\<close>

lemma roundLength_Ok:
  assumes "0 < len" "roundLength len = Ok rl"
  shows "len \<le> rl" "rl < len + PGSIZE_int" "PGSIZE_int dvd rl" "0 < rl"
proof -
  have "PGSIZE_int dvd len + (PGSIZE_int - len mod PGSIZE_int)"
    by (metis add.commute diff_add_eq dvd_add dvd_minus_mod dvd_refl)
  moreover have "0 \<le> len mod PGSIZE_int" "len mod PGSIZE_int < PGSIZE_int" by simp_all
  ultimately show "len \<le> rl" "rl < len + PGSIZE_int" "PGSIZE_int dvd rl" "0 < rl"
    using assms by (auto simp: roundLength_def Let_def split: if_splits)
qed

lemma roundLength_c_int: "c_int len \<Longrightarrow> roundLength len = Ok rl \<Longrightarrow> c_int rl"
  by (auto simp: roundLength_def Let_def split: if_splits)

text \<open>Insertion of a region of \<open>rl\<close> bytes.\<close>

lemma hashInsert_region:
  assumes wf: "wmap_wf st cs" and a: "a < 0x80000000" and room: "has_room a st"
    and rl: "0 < rl" "PGSIZE_int dvd rl" "rl < 2 ^ 31"
  obtains st' cs' p where "hashInsert a len (rl div PGSIZE_int) fd flags st = Ok st'" "wmap_wf st' cs'"
    "addrs st' = add_mset a (addrs st)" "hashInit st' = hashInit st"
    "\<And>x. mapped st' x \<longleftrightarrow> mapped st x \<or> uint a \<le> uint x \<and> uint x < uint a + rl"
    "mostRecent st' = Some p" "live st' p" "uint (node_end (nd st' p)) = uint a + rl"
    "windowed st' \<longleftrightarrow> windowed st \<and> PGSIZE_int dvd uint a \<and> 0x60000000 \<le> uint a \<and> uint a + rl \<le> 2 ^ 31"
proof -
  define n where "n = \<lparr>startAddress = a, numPages = rl div PGSIZE_int, mlength = len, mfd = fd,
    mflags = flags, loadedPages = 0, mnext = None\<rparr>"
  have np: "rl div PGSIZE_int * PGSIZE_int = rl" using rl(2) by simp
  then have "1 \<le> rl div PGSIZE_int" using rl(1) by (simp add: int_one_le_iff_zero_less)
  with np a rl(3) room have n: "loadedPages n = 0" "startAddress n < 0x80000000" "1 \<le> numPages n"
      "numPages n * PGSIZE_int < 2 ^ 31" "has_room (startAddress n) st"
    by (simp_all add: n_def)
  obtain st' cs' p where r: "hashInsert a len (rl div PGSIZE_int) fd flags st = Ok st'" "wmap_wf st' cs'"
      "mostRecent st' = Some p" "\<not> live st p" "payload (nd st' p) = payload n"
      "\<And>q. live st' q \<longleftrightarrow> q = p \<or> live st q" "\<And>q. live st q \<Longrightarrow> payload (nd st' q) = payload (nd st q)"
      "hashInit st' = hashInit st"
    by (rule hashInsert_ok [OF wf n]) (simp add: n_def)
  have pn: "startAddress (nd st' p) = a" "numPages (nd st' p) * PGSIZE_int = rl"
    using r(5) np by (auto simp: payload_def n_def)
  have old: "startAddress (nd st' q) = startAddress (nd st q)" "numPages (nd st' q) = numPages (nd st q)"
    if "live st q" for q using r(7) [OF that] by (auto simp: payload_def)
  have lp: "live st' p" using r(6) by simp
  obtain i where ok: "entry_ok i (nd st' p)" using live_entry_ok [OF r(2) lp] by blast
  show ?thesis
  proof
    show "addrs st' = add_mset a (addrs st)"
      using addrs_insert [OF wf r(4,6) old(1)] pn by simp
    show "mapped st' x \<longleftrightarrow> mapped st x \<or> uint a \<le> uint x \<and> uint x < uint a + rl" for x
      using covers_uint [OF ok, of x] old by (auto simp: mapped_def r(6) pn covers_def node_end_def)
    show "uint (node_end (nd st' p)) = uint a + rl" by (simp add: uint_node_end [OF ok] pn)
    show "windowed st' \<longleftrightarrow> windowed st \<and> PGSIZE_int dvd uint a \<and> 0x60000000 \<le> uint a \<and> uint a + rl \<le> 2 ^ 31"
      using old by (auto simp: windowed_def r(6) pn)
  qed (use r lp in auto)
qed


text \<open>\<open>mostRecent\<close> may point to a node that was removed since; what \<open>wmap\<close> needs is that the end
  it reads there is a page boundary or outside the window.\<close>

definition recent_ok :: "wmap_state \<Rightarrow> bool" where
  "recent_ok st \<longleftrightarrow> (\<exists>p n. mostRecent st = Some p \<and> nget st p = Ok n \<and>
     (PGSIZE_int dvd uint (node_end n) \<or> uint (node_end n) < 0x60000000 \<or> 2 ^ 31 \<le> uint (node_end n)))"

definition page_of :: "u32 \<Rightarrow> u32" where
  "page_of addr = (if addr mod 4096 \<noteq> 0 then round_down addr else addr)"

lemma uint_page_of: "uint (page_of a) = uint a - uint a mod PGSIZE_int"
  by (auto simp: page_of_def round_down_def uint_round_page_neg word_uint_eq_iff uint_mod_distrib)

lemma page_of_low: "a < 0x80000000 \<Longrightarrow> page_of a < 0x80000000"
  using uint_page_of [of a] pos_mod_sign [of PGSIZE_int "uint a"] by (simp add: word_less_def)

lemma live_end:
  assumes "wmap_wf st cs" "windowed st" "live st p"
  shows "nget st p = Ok (nd st p)" "PGSIZE_int dvd uint (node_end (nd st p))" "uint (node_end (nd st p)) \<le> 2 ^ 31"
proof -
  obtain i where "entry_ok i (nd st p)" using live_entry_ok [OF assms(1,3)] by blast
  then show "PGSIZE_int dvd uint (node_end (nd st p))" "uint (node_end (nd st p)) \<le> 2 ^ 31"
    using assms(2,3) by (auto simp: windowed_def uint_node_end)
qed (rule live_nget [OF assms(1,3)])

text \<open>What a successful \<open>wmap\<close> does to the table.\<close>

definition region_added :: "u32 \<Rightarrow> int \<Rightarrow> wmap_state \<Rightarrow> wmap_state \<Rightarrow> bool" where
  "region_added a rl st st' \<longleftrightarrow> wmap_inv st' \<and> windowed st' \<and> recent_ok st' \<and> hashInit st' = hashInit st \<and>
     addrs st' = add_mset a (addrs st) \<and>
     (\<forall>x. mapped st' x \<longleftrightarrow> mapped st x \<or> uint a \<le> uint x \<and> uint x < uint a + rl)"

lemma hashInsert_added:
  assumes wf: "wmap_wf st cs" and w: "windowed st" and room: "has_room a st"
    and rl: "0 < rl" "PGSIZE_int dvd rl"
    and a: "PGSIZE_int dvd uint a" "0x60000000 \<le> uint a" "uint a + rl \<le> 2 ^ 31"
  shows "\<exists>st'. hashInsert a len (rl div PGSIZE_int) fd flags st = Ok st' \<and> region_added a rl st st'"
proof -
  have lo: "a < 0x80000000" "rl < 2 ^ 31" using a rl by (simp_all add: word_less_def)
  obtain st' cs' p where r: "hashInsert a len (rl div PGSIZE_int) fd flags st = Ok st'" "wmap_wf st' cs'"
    "addrs st' = add_mset a (addrs st)" "hashInit st' = hashInit st"
    "\<And>x. mapped st' x \<longleftrightarrow> mapped st x \<or> uint a \<le> uint x \<and> uint x < uint a + rl"
    "mostRecent st' = Some p" "live st' p" "uint (node_end (nd st' p)) = uint a + rl"
    "windowed st' \<longleftrightarrow> windowed st \<and> PGSIZE_int dvd uint a \<and> 0x60000000 \<le> uint a \<and> uint a + rl \<le> 2 ^ 31"
    by (fact hashInsert_region [OF wf lo(1) room rl lo(2)])
  moreover from r have "recent_ok st'"
    using live_end [OF r(2) _ r(7)] a w by (auto simp: recent_ok_def)
  ultimately show ?thesis using a w by (auto simp: region_added_def wmap_inv_def)
qed


text \<open>The calls of \<open>wmap\<close> on a table that is set up: the requested address is rounded down, and the
  start of the search is the end of the mapping found there, or of the most recent one.\<close>

lemma wmap_fixed_unfold:
  assumes "hashInit st \<noteq> -1" "0 < len" "roundLength len = Ok rl" "flags AND MAP_FIXED \<noteq> 0"
  shows "wmap addr len flags fd st =
    (if page_of addr < 0x60000000 \<or> 0x80000000 \<le> page_of addr then Ok (FAILED, st)
     else obind (look_page st (page_of addr)) (\<lambda>r. if r \<noteq> None then Ok (FAILED, st)
       else obind (hashInsert (page_of addr) len (rl div PGSIZE_int) fd flags st) (\<lambda>st. Ok (page_of addr, st))))"
  unfolding wmap_def page_of_def [symmetric] using assms by (simp add: Let_def)

definition clip_base :: "u32 \<Rightarrow> u32" where
  "clip_base a = (if a < 0x60000000 \<or> 0x80000000 \<le> a then MMAPBASE else a)"

lemma wmap_search_unfold:
  assumes "hashInit st \<noteq> -1" "0 < len" "roundLength len = Ok rl" "flags AND MAP_FIXED = 0"
    "look_page st (page_of addr) = Ok r"
    "nget st p = Ok n" "r = Some p \<or> r = None \<and> mostRecent st = Some p"
  shows "wmap addr len flags fd st =
    (let base = clip_base (node_end n) in
     obind (place_loop (chain_fuel st) base base rl st) (\<lambda>a.
     obind (hashInsert a len (rl div PGSIZE_int) fd flags st) (\<lambda>st. Ok (a, st))))"
proof -
  have "obind (look_page st (page_of addr)) (\<lambda>r. obind (case r of
       None \<Rightarrow> (case mostRecent st of None \<Rightarrow> Fault | Some p \<Rightarrow> obind (nget st p) (\<lambda>n. Ok (node_end n)))
     | Some p \<Rightarrow> obind (nget st p) (\<lambda>n. Ok (node_end n))) f) = f (node_end n)" for f :: "u32 \<Rightarrow> (u32 \<times> wmap_state) outcome"
    using assms(5-7) by (auto split: option.splits)
  with assms(1-4) show ?thesis by (simp add: wmap_def page_of_def clip_base_def Let_def)
qed

lemma clip_base_props:
  assumes "PGSIZE_int dvd uint a \<or> uint a < 0x60000000 \<or> 2 ^ 31 \<le> uint a"
  shows "PGSIZE_int dvd uint (clip_base a)" "0x60000000 \<le> uint (clip_base a)" "uint (clip_base a) < 2 ^ 31"
  using assms by (auto simp: clip_base_def word_less_def word_le_def)

text \<open>Where the search begins: at the end of the mapping that has the requested page, and otherwise at the
  end that the node \<open>mostRecent\<close> points to has; at the base of the window when that end is outside of it. There is
  no start when no mapping has the page and \<open>mostRecent\<close> is null.\<close>

definition search_start :: "wmap_state \<Rightarrow> u32 \<Rightarrow> u32 option" where
  "search_start st addr =
     (case look_page st (page_of addr) of
        Ok r \<Rightarrow> map_option (\<lambda>p. clip_base (node_end (nd st p))) (if r = None then mostRecent st else r)
      | _ \<Rightarrow> None)"

lemma search_start_Some:
  assumes "wmap_wf st cs" "windowed st" "mostRecent st = None \<or> recent_ok st" "addr < 0x80000000" "search_start st addr = Some b"
  obtains r p n where "look_page st (page_of addr) = Ok r" "nget st p = Ok n" "r = Some p \<or> r = None \<and> mostRecent st = Some p"
    "b = clip_base (node_end n)" "PGSIZE_int dvd uint b" "0x60000000 \<le> uint b" "uint b < 2 ^ 31"
proof -
  note low = page_of_low [OF assms(4)]
  obtain r where r: "look_page st (page_of addr) = Ok r" using look_page_total [OF assms(1) low] by blast
  obtain p where p: "r = Some p \<or> r = None \<and> mostRecent st = Some p" "b = clip_base (node_end (nd st p))"
    using assms(5) r by (cases r) (auto simp: search_start_def)
  obtain n where n: "nget st p = Ok n" "PGSIZE_int dvd uint (node_end n) \<or> uint (node_end n) < 0x60000000 \<or> 2 ^ 31 \<le> uint (node_end n)"
    using assms(3) look_page_Some [OF assms(1) low] live_end [OF assms(1,2)] r p(1)
    by (cases r) (fastforce simp: recent_ok_def)+
  then have "nd st p = n" by (cases p) (auto split: if_splits)
  then show ?thesis using that [OF r n(1) p(1)] p(2) clip_base_props [OF n(2)] by simp
qed

lemma search_start_None:
  assumes "wmap_wf st cs" "addr < 0x80000000" "search_start st addr = None"
  shows "look_page st (page_of addr) = Ok None" "mostRecent st = None"
  using look_page_total [OF assms(1) page_of_low [OF assms(2)]] assms(3) by (auto simp: search_start_def split: if_splits)

text \<open>
  C4. Consider a call of \<open>wmap\<close> without \<open>MAP_FIXED\<close>, with an address below the kernel and a positive length that can be
  rounded up without overflow, on a well-formed table that is set up, whose regions are page aligned and in
  the window, and whose \<open>mostRecent\<close> is null or points to a node with an end at a page boundary or outside the
  window. When the requested page is mapped the search begins at the end of that mapping, otherwise at the end
  of the most recent node, or at the base of the window when that end is outside of it. If from there on a
  run of free pages of the rounded length ends below the kernel, and a node is left for it (the head of the
  bucket of the first such run, or one of the pool), the new region is placed at this first run: the call returns its address, adds exactly that
  region to the mapped addresses and keeps the table well-formed. In all other cases the call makes an invalid
  access: when there is no such run, when the nodes are used up, and when the page is not mapped and
  \<open>mostRecent\<close> is null, as before the first mapping.
\<close>

theorem wmap_placed:
  assumes st: "wmap_inv st" "windowed st" "mostRecent st = None \<or> recent_ok st" "hashInit st \<noteq> -1"
    and args: "flags AND MAP_FIXED = 0" "addr < 0x80000000" "0 < len" "roundLength len = Ok rl"
  shows "case search_start st addr of
      None \<Rightarrow> wmap addr len flags fd st = Fault
    | Some b \<Rightarrow> 0x60000000 \<le> b \<and> b < 0x80000000 \<and>
       (if \<exists>x\<ge>uint b. free_at st rl x
        then \<exists>a. b \<le> a \<and> free_at st rl (uint a) \<and> (\<forall>x. uint b \<le> x \<and> x < uint a \<longrightarrow> \<not> free_at st rl x) \<and>
          (if has_room a st then \<exists>st'. wmap addr len flags fd st = Ok (a, st') \<and> region_added a rl st st'
           else wmap addr len flags fd st = Fault)
        else wmap addr len flags fd st = Fault)"
proof -
  obtain cs where wf: "wmap_wf st cs" using st(1) by (auto simp: wmap_inv_def)
  note rl = roundLength_Ok [OF args(3,4)]
  show ?thesis
  proof (cases "search_start st addr")
    case None
    then show ?thesis using search_start_None [OF wf args(2) None] st(4) args by (simp add: wmap_def page_of_def Let_def)
  next
    case (Some b)
    obtain r p n where r: "look_page st (page_of addr) = Ok r" "nget st p = Ok n" "r = Some p \<or> r = None \<and> mostRecent st = Some p"
        "b = clip_base (node_end n)" "PGSIZE_int dvd uint b" "0x60000000 \<le> uint b" "uint b < 2 ^ 31"
      by (rule search_start_Some [OF wf st(2,3) args(2) Some])
    let ?L = "place_loop (chain_fuel st) b b rl st"
    have fit: "first_fit st rl (uint b) ?L"
      using r by (intro place_loop_first_fit [OF wf st(2) rl(4,3)] live_bound [OF wf]) auto
    have w: "wmap addr len flags fd st = obind ?L (\<lambda>a.
       obind (hashInsert a len (rl div PGSIZE_int) fd flags st) (\<lambda>st. Ok (a, st)))"
      using wmap_search_unfold [OF st(4) args(3,4,1) r(1-3)] by (simp add: Let_def r(4))
    have bb: "0x60000000 \<le> b" "b < 0x80000000" using r(6,7) by (simp_all add: word_le_def word_less_def)
    show ?thesis
    proof (cases ?L)
      case (Ok a)
      then have a: "uint b \<le> uint a" "free_at st rl (uint a)" "\<forall>x. uint b \<le> x \<and> x < uint a \<longrightarrow> \<not> free_at st rl x"
        using fit by (auto simp: first_fit_def)
      have lo: "PGSIZE_int dvd uint a" "0x60000000 \<le> uint a" "uint a + rl \<le> 2 ^ 31" "a < 0x80000000"
        using a r(6) rl by (auto simp: free_at_def word_less_def)
      have "if has_room a st then \<exists>st'. wmap addr len flags fd st = Ok (a, st') \<and> region_added a rl st st' else wmap addr len flags fd st = Fault"
        using hashInsert_added [OF wf st(2) _ rl(4,3) lo(1-3), of len fd flags] hashInsert_no_room [OF wf lo(4)] w Ok by auto
      then show ?thesis using Some bb a by (auto simp: word_le_def)
    qed (use Some bb fit w in \<open>auto simp: first_fit_def\<close>)
  qed
qed


text \<open>
  C36. A call of \<open>wmap\<close> with \<open>MAP_FIXED\<close> on a well-formed table returns \<open>FAILED\<close> and leaves the
  table alone when the page is outside the window or already mapped; otherwise, when the region ends
  below the kernel and the pool has a node left, it returns the rounded address and adds exactly
  the region.
\<close>

theorem wmap_fixed:
  assumes st: "wmap_inv st" "windowed st" "hashInit st \<noteq> -1"
    and args: "flags AND MAP_FIXED \<noteq> 0" "0 < len" "roundLength len = Ok rl"
  shows "(page_of addr < 0x60000000 \<or> 0x80000000 \<le> page_of addr \<or> mapped st (page_of addr) \<longrightarrow>
        wmap addr len flags fd st = Ok (FAILED, st)) \<and>
     (0x60000000 \<le> page_of addr \<and> uint (page_of addr) + rl \<le> 2 ^ 31 \<and> \<not> mapped st (page_of addr) \<and>
      has_room (page_of addr) st \<longrightarrow>
        (\<exists>st'. wmap addr len flags fd st = Ok (page_of addr, st') \<and> region_added (page_of addr) rl st st'))"
proof -
  obtain cs where wf: "wmap_wf st cs" using st(1) by (auto simp: wmap_inv_def)
  note rl = roundLength_Ok [OF args(2,3)]
  note unf = wmap_fixed_unfold [OF st(3) args(2,3,1)]
  have al: "PGSIZE_int dvd uint (page_of addr)" by (simp add: uint_page_of dvd_minus_mod)
  have "wmap addr len flags fd st = Ok (FAILED, st)"
    if "page_of addr < 0x60000000 \<or> 0x80000000 \<le> page_of addr \<or> mapped st (page_of addr)"
    using that tab.look_Some [OF st(1), of "page_of addr"] by (auto simp: unf not_le)
  moreover have "\<exists>st'. wmap addr len flags fd st = Ok (page_of addr, st') \<and> region_added (page_of addr) rl st st'"
    if h: "0x60000000 \<le> page_of addr" "uint (page_of addr) + rl \<le> 2 ^ 31" "\<not> mapped st (page_of addr)"
      "has_room (page_of addr) st"
  proof -
    have lo: "page_of addr < 0x80000000" using h(2) rl(4) by (simp add: word_less_def)
    have "0x60000000 \<le> uint (page_of addr)" using h(1) by (simp add: word_le_def)
    then show ?thesis
      using hashInsert_added [OF wf st(2) h(4) rl(4,3) al _ h(2), of len fd flags] look_page_None [OF wf lo] h(1,3) lo
      by (auto simp: unf not_less not_le)
  qed
  ultimately show ?thesis by blast
qed


section \<open>The first mapping\<close>

definition wmap_ready :: wmap_state where
  "wmap_ready = (initHashTable wmap_boot)\<lparr>hashInit := 1\<rparr>"

lemma initHashTable_wf:
  assumes "length (table st) = MEM_HASH_SIZE" "length (nodePool st) = MAX_WMMAP_INFO" "poolCounter st \<le> MAX_WMMAP_INFO"
  shows "wmap_wf (initHashTable st) (\<lambda>_. [])"
  using assms by (auto simp: wmap_wf_def initHashTable_def)

lemma ready_wf: "wmap_wf wmap_ready (\<lambda>_. [])"
proof -
  have "wmap_wf (initHashTable wmap_boot) (\<lambda>_. [])" by (rule initHashTable_wf) (simp_all add: wmap_boot_def)
  then show ?thesis by (simp add: wmap_ready_def wmap_wf_def)
qed

lemma ready_not_live: "\<not> live wmap_ready p"
  using ready_wf by (auto simp: live_aptrs set_aptrs bptrs_def wmap_ready_def initHashTable_def wmap_boot_def)

lemma ready_props: "wmap_inv wmap_ready" "windowed wmap_ready" "\<not> mapped wmap_ready a" "hashInit wmap_ready = 1"
  "has_room a wmap_ready"
  using ready_wf ready_not_live
  by (auto simp: wmap_inv_def windowed_def mapped_def wmap_ready_def initHashTable_def wmap_boot_def has_room_def)

lemma wmap_boot_ready: "hashInit st \<noteq> -1 \<Longrightarrow> st = (initHashTable wmap_boot)\<lparr>hashInit := 1\<rparr> \<Longrightarrow>
    wmap addr len flags fd wmap_boot = wmap addr len flags fd st"
  by (simp add: wmap_def wmap_boot_def)

text \<open>A table with one mapping of one page at the base of the window.\<close>

definition wmap_demo :: wmap_state where
  "wmap_demo = (case wmap 0x60000000 4096 14 (-1) wmap_boot of Ok (_, st) \<Rightarrow> st | _ \<Rightarrow> wmap_boot)"

lemma demo_added: "region_added 0x60000000 4096 wmap_ready wmap_demo"
proof -
  have p: "page_of 0x60000000 = 0x60000000" by code_simp
  have f: "(14 :: int) AND MAP_FIXED \<noteq> 0" by simp
  have r: "roundLength 4096 = Ok 4096" by (simp add: roundLength_def)
  obtain st where "wmap 0x60000000 4096 14 (-1) wmap_ready = Ok (0x60000000, st)" "region_added 0x60000000 4096 wmap_ready st"
    using hashInsert_added [of wmap_ready "\<lambda>_. []" "0x60000000" 4096 4096 "-1" 14, OF ready_wf ready_props(2,5)]
      tab.look_None [OF ready_props(1), of "0x60000000"]
    by (auto simp: wmap_fixed_unfold [OF _ _ r f] p ready_props)
  then show ?thesis by (simp add: wmap_demo_def wmap_boot_ready [OF _ wmap_ready_def] ready_props)
qed

lemma demo_start: "search_start wmap_demo 0 = Some 0x60001000" "poolCounter wmap_demo = 0"
  by code_simp+

lemma demo_free_at: "free_at wmap_demo 8192 0x60001000"
proof -
  have "\<not> mapped wmap_demo (to_uint x)" if "0x60001000 \<le> x" "x < 0x60003000" for x
  proof -
    have "uint (to_uint x) = x" using that by (simp add: to_uint_def uint_word_of_int)
    then show ?thesis using demo_added that ready_props(3) by (simp add: region_added_def)
  qed
  then show ?thesis by (simp add: free_at_def)
qed

text \<open>Two pages behind the first mapping.\<close>

theorem wmap_placed_witness:
  "\<exists>st'. wmap 0 8192 6 (-1) wmap_demo = Ok (0x60001000, st') \<and> region_added 0x60001000 8192 wmap_demo st'"
proof -
  have d: "wmap_inv wmap_demo" "windowed wmap_demo" "mostRecent wmap_demo = None \<or> recent_ok wmap_demo" "hashInit wmap_demo \<noteq> -1"
    using demo_added by (simp_all add: region_added_def ready_props)
  have r: "roundLength 8192 = Ok 8192" by (simp add: roundLength_def)
  have ar: "(6 :: int) AND MAP_FIXED = 0" "(0 :: u32) < 0x80000000" "(0 :: int) < 8192" by simp_all
  have f: "\<exists>x\<ge>uint (0x60001000 :: u32). free_at wmap_demo 8192 x" "has_room a wmap_demo" for a
    using demo_free_at demo_start(2) by (auto simp: has_room_def)
  obtain a where a: "0x60001000 \<le> a" "\<forall>x. uint (0x60001000 :: u32) \<le> x \<and> x < uint a \<longrightarrow> \<not> free_at wmap_demo 8192 x"
      "\<exists>st'. wmap 0 8192 6 (-1) wmap_demo = Ok (a, st') \<and> region_added a 8192 wmap_demo st'"
    using wmap_placed [of wmap_demo 6 0 8192 8192 "-1", OF d ar r, unfolded demo_start(1) option.case if_P [OF f(1)] if_P [OF f(2)]] by blast
  then have "a = 0x60001000" using demo_free_at by (auto simp: word_le_def word_uint_eq_iff)
  then show ?thesis using a(3) by simp
qed

theorem wmap_fixed_witness:
  "wmap 0x60000000 5 8 3 wmap_demo = Ok (FAILED, wmap_demo)"
proof -
  have w: "wmap_inv wmap_demo" "windowed wmap_demo" "hashInit wmap_demo \<noteq> -1" "mapped wmap_demo 0x60000000"
    using demo_added by (simp_all add: region_added_def ready_props)
  have "page_of 0x60000000 = 0x60000000" by code_simp
  then show ?thesis
    using wmap_fixed [of wmap_demo 8 5 4096 "0x60000000" 3, OF w(1-3)] w(4) by (simp add: roundLength_def c_int_def)
qed


section \<open>The table as a bag of start addresses\<close>

text \<open>The contract of a container of start addresses with possible repetition: what the mapping
  system calls rely on when they insert, look up and remove.\<close>

locale addr_bag =
  fixes inv :: "'s \<Rightarrow> bool" and bag :: "'s \<Rightarrow> u32 multiset"
    and fits :: "'s \<Rightarrow> 'e \<Rightarrow> bool" and key :: "'e \<Rightarrow> u32"
    and ins :: "'e \<Rightarrow> 's \<Rightarrow> 's outcome" and search :: "u32 \<Rightarrow> 's \<Rightarrow> 'p option outcome"
    and del :: "u32 \<Rightarrow> 's \<Rightarrow> (int \<times> 's) outcome"
  assumes ins_ok: "inv s \<Longrightarrow> fits s e \<Longrightarrow> \<exists>s'. ins e s = Ok s' \<and> inv s' \<and> bag s' = add_mset (key e) (bag s)"
    and search_ok: "inv s \<Longrightarrow> a < 0x80000000 \<Longrightarrow> \<exists>r. search a s = Ok r \<and> (r \<noteq> None \<longleftrightarrow> a \<in># bag s)"
    and del_ok: "inv s \<Longrightarrow> a < 0x80000000 \<Longrightarrow> \<exists>r s'. del a s = Ok (r, s') \<and> inv s' \<and>
      bag s' = bag s - {#a#} \<and> (r = 1 \<longleftrightarrow> a \<in># bag s)"
    and fits_key: "fits s e \<Longrightarrow> key e < 0x80000000"
begin

text \<open>A removal undoes an insertion, up to the layout of the table.\<close>

lemma del_ins:
  assumes "inv s" "fits s e"
  shows "\<exists>s' s''. ins e s = Ok s' \<and> del (key e) s' = Ok (1, s'') \<and> inv s'' \<and> bag s'' = bag s"
proof -
  obtain s' where s': "ins e s = Ok s'" "inv s'" "bag s' = add_mset (key e) (bag s)"
    using ins_ok [OF assms] by blast
  obtain r s'' where "del (key e) s' = Ok (r, s'')" "inv s''" "bag s'' = bag s' - {#key e#}" "r = 1 \<longleftrightarrow> key e \<in># bag s'"
    using del_ok [OF s'(2) fits_key [OF assms(2)]] by blast
  then show ?thesis using s' by auto
qed

lemma search_ins:
  assumes "inv s" "fits s e" "a < 0x80000000"
  shows "\<exists>s' r r'. ins e s = Ok s' \<and> search a s = Ok r \<and> search a s' = Ok r' \<and>
    (r' \<noteq> None \<longleftrightarrow> a = key e \<or> r \<noteq> None)"
proof -
  obtain s' where s': "ins e s = Ok s'" "inv s'" "bag s' = add_mset (key e) (bag s)"
    using ins_ok [OF assms(1,2)] by blast
  show ?thesis using s' search_ok [OF assms(1,3)] search_ok [OF s'(2) assms(3)] by auto
qed

end

definition node_fits :: "wmap_state \<Rightarrow> memHashNode \<Rightarrow> bool" where
  "node_fits st n \<longleftrightarrow> startAddress n < 0x80000000 \<and> 1 \<le> numPages n \<and> numPages n * PGSIZE_int < 2 ^ 31 \<and>
     has_room (startAddress n) st"

definition insert_node :: "memHashNode \<Rightarrow> wmap_state \<Rightarrow> wmap_state outcome" where
  "insert_node n = hashInsert (startAddress n) (mlength n) (numPages n) (mfd n) (mflags n)"

lemma insert_node_ok:
  assumes wf: "wmap_wf st cs" and n: "node_fits st n"
  shows "\<exists>st'. insert_node n st = Ok st' \<and> wmap_inv st' \<and> addrs st' = add_mset (startAddress n) (addrs st)"
proof -
  let ?n = "n\<lparr>loadedPages := 0\<rparr>"
  have f: "loadedPages ?n = 0" "startAddress ?n < 0x80000000" "1 \<le> numPages ?n" "numPages ?n * PGSIZE_int < 2 ^ 31"
      "has_room (startAddress ?n) st"
    using n by (simp_all add: node_fits_def)
  obtain st' cs' p where r: "hashInsert (startAddress ?n) (mlength ?n) (numPages ?n) (mfd ?n) (mflags ?n) st = Ok st'"
    "wmap_wf st' cs'" "mostRecent st' = Some p" "\<not> live st p" "payload (nd st' p) = payload ?n"
    "\<And>q. live st' q \<longleftrightarrow> q = p \<or> live st q" "\<And>q. live st q \<Longrightarrow> payload (nd st' q) = payload (nd st q)"
    "hashInit st' = hashInit st"
    by (fact hashInsert_ok [OF wf f])
  have "startAddress (nd st' p) = startAddress n" using r(5) by (simp add: payload_def)
  then show ?thesis
    using addrs_insert [OF wf r(4,6) payload_start [OF r(7)]] r(1,2)
    by (auto simp: insert_node_def wmap_inv_def)
qed

interpretation wt: addr_bag wmap_inv addrs node_fits startAddress insert_node
  "\<lambda>a. hashSearch (to_int a)" "\<lambda>a. removeValue (to_int a)"
proof unfold_locales
  fix st :: wmap_state and n a
  show "\<exists>s'. insert_node n st = Ok s' \<and> wmap_inv s' \<and> addrs s' = add_mset (startAddress n) (addrs st)"
    if "wmap_inv st" "node_fits st n" using that insert_node_ok by (auto simp: wmap_inv_def)
  show "startAddress n < 0x80000000" if "node_fits st n" using that by (simp add: node_fits_def)
  assume inv: "wmap_inv st" and a: "a < (0x80000000 :: u32)"
  then obtain cs where wf: "wmap_wf st cs" by (auto simp: wmap_inv_def)
  have v: "0 \<le> to_int a" "to_int a < 2 ^ 31" using a by (auto simp: to_int_low word_less_def)
  show "\<exists>r. hashSearch (to_int a) st = Ok r \<and> (r \<noteq> None \<longleftrightarrow> a \<in># addrs st)"
    using hashSearch_live [OF wf v] by (auto simp: addrs_iff [OF wf] split: option.splits)
  show "\<exists>r s'. removeValue (to_int a) st = Ok (r, s') \<and> wmap_inv s' \<and> addrs s' = addrs st - {#a#} \<and> (r = 1 \<longleftrightarrow> a \<in># addrs st)"
    using removeValue_ok [OF wf v] by (auto simp: wmap_inv_def split: if_splits)
qed


text \<open>
  After \<open>hashInsert\<close> of a mapping into a well-formed table with room, \<open>hashSearch\<close> finds an
  address below the kernel exactly when it is the inserted one or was found before.
\<close>

theorem hashInsert_hashSearch:
  assumes "wmap_inv st" "node_fits st n" "a < 0x80000000"
  shows "\<exists>st' r r'. hashInsert (startAddress n) (mlength n) (numPages n) (mfd n) (mflags n) st = Ok st' \<and>
    hashSearch (to_int a) st = Ok r \<and> hashSearch (to_int a) st' = Ok r' \<and>
    (r' \<noteq> None \<longleftrightarrow> a = startAddress n \<or> r \<noteq> None)"
  using wt.search_ins [OF assms] by (simp add: insert_node_def)

text \<open>
  C37. \<open>removeValue\<close> undoes \<open>hashInsert\<close>: on a well-formed table with room, inserting a mapping and
  removing its address succeeds with result 1 and gives back the same bag of start addresses, in a
  well-formed table.
\<close>

theorem hashInsert_removeValue:
  assumes "wmap_inv st" "node_fits st n"
  shows "\<exists>st' st''. hashInsert (startAddress n) (mlength n) (numPages n) (mfd n) (mflags n) st = Ok st' \<and>
    removeValue (to_int (startAddress n)) st' = Ok (1, st'') \<and> wmap_inv st'' \<and> addrs st'' = addrs st"
  using wt.del_ins [OF assms] by (simp add: insert_node_def)

definition demo_node :: memHashNode where
  "demo_node = \<lparr>startAddress = 0x60013000, numPages = 2, mlength = 8192, mfd = -1, mflags = 14,
     loadedPages = 0, mnext = None\<rparr>"

lemma demo_fits: "wmap_inv wmap_demo" "node_fits wmap_demo demo_node"
proof -
  show "wmap_inv wmap_demo" using demo_added by (simp add: region_added_def)
  show "node_fits wmap_demo demo_node" by code_simp
qed

theorem hashInsert_hashSearch_witness:
  "\<exists>st' r r'. hashInsert 0x60013000 8192 2 (-1) 14 wmap_demo = Ok st' \<and>
    hashSearch (to_int 0x60013000) wmap_demo = Ok r \<and> hashSearch (to_int 0x60013000) st' = Ok r' \<and> r' \<noteq> None"
  using hashInsert_hashSearch [OF demo_fits, of "0x60013000"] by (auto simp: demo_node_def)

theorem hashInsert_removeValue_witness:
  "\<exists>st' st''. hashInsert 0x60013000 8192 2 (-1) 14 wmap_demo = Ok st' \<and>
    removeValue (to_int 0x60013000) st' = Ok (1, st'') \<and> wmap_inv st'' \<and> addrs st'' = addrs wmap_demo"
  using hashInsert_removeValue [OF demo_fits] by (simp add: demo_node_def)

text \<open>
  Removing the first mapping of a bucket that holds two keeps the length, the page count, the
  descriptor and the flags of the removed mapping in the entry of the one that stays: the mapping
  of two pages at \<open>0x60013000\<close> is left with one page.
\<close>

theorem removeValue_keeps_length:
  "obind (hashInsert 0x60013000 8192 2 (-1) 14 wmap_demo) (\<lambda>st. removeValue (to_int 0x60000000) st) =
     obind (hashInsert 0x60013000 8192 2 (-1) 14 wmap_demo) (\<lambda>st.
       Ok (1, st\<lparr>table := (table st)[7 := \<lparr>startAddress = 0x60013000, numPages = 1, mlength = 4096,
                    mfd = -1, mflags = 14, loadedPages = 0, mnext = None\<rparr>]\<rparr>))"
  by code_simp

end
