(* ===== verification/Memory.thy ===== *)
theory Memory
  imports Prelude
begin

text \<open>
  Byte-addressed memory and the string routines of string.c (kernel) and ulib.c (user).

  Memory maps 32-bit addresses to bytes; pointer arithmetic is word arithmetic, so that it wraps
  at 32 bits as the machine does. \<open>ld32\<close> and \<open>st32\<close> are the little-endian accesses of the x86.
  A loop counted by \<open>n\<close> recurses on a natural number; a loop that runs until it meets a NUL
  byte is a \<open>partial_function\<close>, whose value is \<open>None\<close> when it never ends.
\<close>

section \<open>Memory\<close>

type_synonym mem = "u32 \<Rightarrow> u8"

definition ld32 :: "mem \<Rightarrow> u32 \<Rightarrow> u32" where
  "ld32 m a = ucast (m a) OR push_bit 8 (ucast (m (a + 1))) OR
     push_bit 16 (ucast (m (a + 2))) OR push_bit 24 (ucast (m (a + 3)))"

definition st32 :: "mem \<Rightarrow> u32 \<Rightarrow> u32 \<Rightarrow> mem" where
  "st32 m a v = m(a := ucast v, a + 1 := ucast (drop_bit 8 v),
     a + 2 := ucast (drop_bit 16 v), a + 3 := ucast (drop_bit 24 v))"

lemma offset_neq [simp]:
  "(a :: u32) + 1 \<noteq> a" "a + 2 \<noteq> a" "a + 3 \<noteq> a" "a \<noteq> a + 1" "a \<noteq> a + 2" "a \<noteq> a + 3"
  by simp_all

lemma st32_bytes [simp]:
  "st32 m a v a = ucast v" "st32 m a v (a + 1) = ucast (drop_bit 8 v)"
  "st32 m a v (a + 2) = ucast (drop_bit 16 v)" "st32 m a v (a + 3) = ucast (drop_bit 24 v)"
  by (simp_all add: st32_def)

lemma ld32_st32_same [simp]: "ld32 (st32 m a v) a = v"
proof (rule bit_word_eqI)
  fix n assume "n < LENGTH(32)"
  then consider "n < 8" | "8 \<le> n" "n < 16" | "16 \<le> n" "n < 24" | "24 \<le> n" "n < 32" by fastforce
  then show "bit (ld32 (st32 m a v) a) n \<longleftrightarrow> bit v n"
    by cases (auto simp: ld32_def st32_bytes bit_simps)
qed

text \<open>Accesses at multiples of four meet only when they are the same.\<close>

definition aligned4 :: "u32 \<Rightarrow> bool" where
  "aligned4 a \<longleftrightarrow> a mod 4 = 0"

lemma aligned4_uint: "aligned4 a \<longleftrightarrow> 4 dvd uint a"
proof -
  have "uint (a mod 4) = uint a mod 4" by (simp add: uint_mod_distrib)
  then show ?thesis by (simp add: aligned4_def word_uint_eq_iff dvd_eq_mod_eq_0)
qed

lemma uint_plus4:
  assumes "aligned4 a" "uint k < 4"
  shows "uint (a + k) = uint a + uint k"
proof -
  obtain c where c: "uint a = 4 * c" using assms(1) by (auto simp: aligned4_uint)
  have "4 * c < 4 * 2 ^ 30" using c uint_lt2p [of a] by simp
  then have "c \<le> 2 ^ 30 - 1" by simp
  then have "uint a + uint k < 2 ^ 32" using c assms(2) by simp
  then show ?thesis by (simp add: uint_plus_if')
qed

lemma aligned4_cell:
  assumes "aligned4 a" "aligned4 b" "a + i = b + j" "uint i < 4" "uint j < 4"
  shows "a = b"
proof -
  have e: "uint a + uint i = uint b + uint j"
    using assms(3) uint_plus4 [OF assms(1,4)] uint_plus4 [OF assms(2,5)] by simp
  obtain c d where "uint a = 4 * c" "uint b = 4 * d" using assms(1,2) by (auto simp: aligned4_uint elim!: dvdE)
  with e assms(4,5) uint_ge_0 [of i] uint_ge_0 [of j] have "uint a = uint b" by presburger
  then show ?thesis by (simp add: word_uint_eq_iff)
qed

lemma st32_other:
  assumes "\<And>k. uint k < 4 \<Longrightarrow> x \<noteq> a + k"
  shows "st32 m a v x = m x"
  using assms [of 0] assms [of 1] assms [of 2] assms [of 3] by (simp add: st32_def)

lemma ld32_cong:
  assumes "\<And>k. uint k < 4 \<Longrightarrow> m (a + k) = m' (a + k)"
  shows "ld32 m a = ld32 m' a"
  using assms [of 0] assms [of 1] assms [of 2] assms [of 3] by (simp add: ld32_def)

lemma ld32_st32_other [simp]:
  assumes "aligned4 a" "aligned4 b" "a \<noteq> b"
  shows "ld32 (st32 m a v) b = ld32 m b"
  by (rule ld32_cong, rule st32_other) (use aligned4_cell [OF assms(1,2)] assms(3) in metis)

section \<open>Routines of string.c\<close>

text \<open>The string instructions of x86.h: \<open>rep stosb\<close> and \<open>rep stosl\<close> with the direction flag clear.\<close>

fun stosb :: "mem \<Rightarrow> u32 \<Rightarrow> u8 \<Rightarrow> nat \<Rightarrow> mem" where
  "stosb m a data 0 = m"
| "stosb m a data (Suc k) = stosb (m(a := data)) (a + 1) data k"

fun stosl :: "mem \<Rightarrow> u32 \<Rightarrow> u32 \<Rightarrow> nat \<Rightarrow> mem" where
  "stosl m a data 0 = m"
| "stosl m a data (Suc k) = stosl (st32 m a data) (a + 4) data k"

definition memset :: "mem \<Rightarrow> u32 \<Rightarrow> int \<Rightarrow> u32 \<Rightarrow> mem" where
  "memset m dst c n =
     (if dst mod 4 = 0 \<and> n mod 4 = 0 then
        let c = c AND 0xFF in
        stosl m dst (to_uint (push_bit 24 c OR push_bit 16 c OR push_bit 8 c OR c)) (unat (n div 4))
      else stosb m dst (word_of_int c) (unat n))"

fun memcmp_loop :: "mem \<Rightarrow> u32 \<Rightarrow> u32 \<Rightarrow> nat \<Rightarrow> int" where
  "memcmp_loop m s1 s2 0 = 0"
| "memcmp_loop m s1 s2 (Suc k) =
     (if m s1 \<noteq> m s2 then uint (m s1) - uint (m s2) else memcmp_loop m (s1 + 1) (s2 + 1) k)"

definition memcmp :: "mem \<Rightarrow> u32 \<Rightarrow> u32 \<Rightarrow> u32 \<Rightarrow> int" where
  "memcmp m v1 v2 n = memcmp_loop m v1 v2 (unat n)"

fun copy_down :: "mem \<Rightarrow> u32 \<Rightarrow> u32 \<Rightarrow> nat \<Rightarrow> mem" where
  "copy_down m d s 0 = m"
| "copy_down m d s (Suc k) = copy_down (m(d - 1 := m (s - 1))) (d - 1) (s - 1) k"

fun copy_up :: "mem \<Rightarrow> u32 \<Rightarrow> u32 \<Rightarrow> nat \<Rightarrow> mem" where
  "copy_up m d s 0 = m"
| "copy_up m d s (Suc k) = copy_up (m(d := m s)) (d + 1) (s + 1) k"

definition memmove :: "mem \<Rightarrow> u32 \<Rightarrow> u32 \<Rightarrow> u32 \<Rightarrow> mem" where
  "memmove m dst src n =
     (if src < dst \<and> src + n > dst then copy_down m (dst + n) (src + n) (unat n)
      else copy_up m dst src (unat n))"

definition memcpy :: "mem \<Rightarrow> u32 \<Rightarrow> u32 \<Rightarrow> u32 \<Rightarrow> mem" where
  "memcpy m dst src n = memmove m dst src n"

fun strncmp_loop :: "mem \<Rightarrow> u32 \<Rightarrow> u32 \<Rightarrow> nat \<Rightarrow> int" where
  "strncmp_loop m p q 0 = 0"
| "strncmp_loop m p q (Suc k) =
     (if m p \<noteq> 0 \<and> m p = m q then strncmp_loop m (p + 1) (q + 1) k
      else uint (m p) - uint (m q))"

definition strncmp :: "mem \<Rightarrow> u32 \<Rightarrow> u32 \<Rightarrow> u32 \<Rightarrow> int" where
  "strncmp m p q n = strncmp_loop m p q (unat n)"

fun strncpy_pad :: "mem \<Rightarrow> u32 \<Rightarrow> nat \<Rightarrow> mem" where
  "strncpy_pad m s 0 = m"
| "strncpy_pad m s (Suc k) = strncpy_pad (m(s := 0)) (s + 1) k"

fun strncpy_loop :: "mem \<Rightarrow> u32 \<Rightarrow> u32 \<Rightarrow> nat \<Rightarrow> mem" where
  "strncpy_loop m s t 0 = m"
| "strncpy_loop m s t (Suc k) =
     (let m' = m(s := m t) in
      if m t \<noteq> 0 then strncpy_loop m' (s + 1) (t + 1) k else strncpy_pad m' (s + 1) k)"

definition strncpy :: "mem \<Rightarrow> u32 \<Rightarrow> u32 \<Rightarrow> int \<Rightarrow> mem" where
  "strncpy m s t n = strncpy_loop m s t (nat n)"

text \<open>\<open>safestrcpy\<close>: the counter is decremented before the test, so that at most \<open>n - 1\<close> bytes are
  copied; the loop returns the memory and the place for the final NUL.\<close>

fun safestrcpy_loop :: "mem \<Rightarrow> u32 \<Rightarrow> u32 \<Rightarrow> nat \<Rightarrow> mem \<times> u32" where
  "safestrcpy_loop m s t 0 = (m, s)"
| "safestrcpy_loop m s t (Suc k) =
     (let m' = m(s := m t) in
      if m t \<noteq> 0 then safestrcpy_loop m' (s + 1) (t + 1) k else (m', s + 1))"

definition safestrcpy :: "mem \<Rightarrow> u32 \<Rightarrow> u32 \<Rightarrow> int \<Rightarrow> mem" where
  "safestrcpy m s t n =
     (if n \<le> 0 then m
      else let (m, s) = safestrcpy_loop m s t (nat (n - 1)) in m(s := 0))"

partial_function (option) strlen_loop :: "mem \<Rightarrow> u32 \<Rightarrow> int \<Rightarrow> int option" where
  "strlen_loop m s n = (if m (s + to_uint n) \<noteq> 0 then strlen_loop m s (n + 1) else Some n)"

definition strlen :: "mem \<Rightarrow> u32 \<Rightarrow> int option" where
  "strlen m s = strlen_loop m s 0"

section \<open>Routines of ulib.c\<close>

text \<open>The user library has its own copies; names that clash with the kernel's carry \<open>u_\<close>.\<close>

partial_function (option) strcpy_loop :: "mem \<Rightarrow> u32 \<Rightarrow> u32 \<Rightarrow> mem option" where
  "strcpy_loop m s t =
     (let m' = m(s := m t) in if m t \<noteq> 0 then strcpy_loop m' (s + 1) (t + 1) else Some m')"

definition u_strcpy :: "mem \<Rightarrow> u32 \<Rightarrow> u32 \<Rightarrow> mem option" where
  "u_strcpy m s t = strcpy_loop m s t"

partial_function (option) u_strcmp :: "mem \<Rightarrow> u32 \<Rightarrow> u32 \<Rightarrow> int option" where
  "u_strcmp m p q =
     (if m p \<noteq> 0 \<and> m p = m q then u_strcmp m (p + 1) (q + 1)
      else Some (uint (m p) - uint (m q)))"

definition u_strlen :: "mem \<Rightarrow> u32 \<Rightarrow> u32 option" where
  "u_strlen m s = map_option to_uint (strlen_loop m s 0)"

definition u_memset :: "mem \<Rightarrow> u32 \<Rightarrow> int \<Rightarrow> u32 \<Rightarrow> mem" where
  "u_memset m dst c n = stosb m dst (word_of_int c) (unat n)"

partial_function (option) u_strchr :: "mem \<Rightarrow> u32 \<Rightarrow> u8 \<Rightarrow> u32 option" where
  "u_strchr m s c =
     (if m s \<noteq> 0 then if m s = c then Some s else u_strchr m (s + 1) c else Some 0)"

text \<open>\<open>gets\<close>: what \<open>read(0, &c, 1)\<close> delivers is the argument \<open>inp\<close>, the bytes up to the end of
  the input; the result is the memory and the input that is left.\<close>

fun gets_loop :: "mem \<Rightarrow> u32 \<Rightarrow> nat \<Rightarrow> u8 list \<Rightarrow> mem \<times> u32 \<times> u8 list" where
  "gets_loop m p 0 inp = (m, p, inp)"
| "gets_loop m p (Suc k) [] = (m, p, [])"
| "gets_loop m p (Suc k) (c # inp) =
     (let m' = m(p := c) in
      if c = 10 \<or> c = 13 then (m', p + 1, inp) else gets_loop m' (p + 1) k inp)"

definition u_gets :: "mem \<Rightarrow> u32 \<Rightarrow> int \<Rightarrow> u8 list \<Rightarrow> mem \<times> u8 list" where
  "u_gets m buf maxn inp = (let (m, p, inp) = gets_loop m buf (nat (maxn - 1)) inp in (m(p := 0), inp))"

text \<open>\<open>atoi\<close>: the arithmetic is on \<open>int\<close>; leaving its range is undefined.\<close>

partial_function (option) atoi_loop :: "mem \<Rightarrow> u32 \<Rightarrow> int \<Rightarrow> int outcome option" where
  "atoi_loop m s n =
     (if 48 \<le> m s \<and> m s \<le> 57 then
        if c_int (n * 10) \<and> c_int (n * 10 + uint (m s)) then atoi_loop m (s + 1) (n * 10 + uint (m s) - 48)
        else Some Fault
      else Some (Ok n))"

definition u_atoi :: "mem \<Rightarrow> u32 \<Rightarrow> int outcome option" where
  "u_atoi m s = atoi_loop m s 0"

definition u_memmove :: "mem \<Rightarrow> u32 \<Rightarrow> u32 \<Rightarrow> int \<Rightarrow> mem" where
  "u_memmove m vdst vsrc n = copy_up m vdst vsrc (nat n)"

end
