(* ===== verification/Cstring.thy ===== *)
theory Cstring
  imports Memory
begin

text \<open>
  Behaviour of the string routines. \<open>poke\<close> is the abstract store of a byte sequence, \<open>copied\<close> a copy
  that reads before it writes, \<open>cstr\<close> says that a NUL-terminated string lies at an address and
  \<open>away\<close> that two ranges do not meet. The loops are shown equal to these, which gives the
  contracts that the file system and the process code use.
\<close>

section \<open>Filling\<close>

lemma unat_minus_1: "(x :: u32) \<noteq> 0 \<Longrightarrow> unat (x - 1) = unat x - 1"
  by (rule unat_minus_one)

lemma stosb_bytes:
  "k \<le> 2 ^ 32 \<Longrightarrow> stosb m a d k = (\<lambda>x. if unat (x - a) < k then d else m x)"
proof (induction k arbitrary: m a)
  case (Suc k)
  have "stosb m a d (Suc k) = (\<lambda>x. if unat (x - (a + 1)) < k then d else (m(a := d)) x)"
    using Suc by simp
  also have "\<dots> = (\<lambda>x. if unat (x - a) < Suc k then d else m x)"
  proof
    fix x
    show "(if unat (x - (a + 1)) < k then d else (m(a := d)) x) = (if unat (x - a) < Suc k then d else m x)"
    proof (cases "x = a")
      case False
      then have "x - a \<noteq> 0" by simp
      then have "unat (x - a - 1) = unat (x - a) - 1" "unat (x - a) \<noteq> 0"
        by (rule unat_minus_1) (simp add: unat_eq_zero False)
      with False show ?thesis by (auto simp: diff_diff_eq)
    qed simp
  qed
  finally show ?case .
qed simp


lemma stosb_add: "stosb m a d (j + k) = stosb (stosb m a d j) (a + of_nat j) d k"
  by (induction j arbitrary: m a) (simp_all add: algebra_simps)

definition rep4 :: "u8 \<Rightarrow> u32" where
  "rep4 c = ucast c OR push_bit 8 (ucast c) OR push_bit 16 (ucast c) OR push_bit 24 (ucast c)"

lemma u8_high [simp]: "8 \<le> n \<Longrightarrow> \<not> bit (c :: u8) n"
  using bit_imp_le_length [of c n] by auto

lemma rep4_bytes:
  "ucast (rep4 c) = c" "ucast (drop_bit 8 (rep4 c)) = c" "ucast (drop_bit 16 (rep4 c)) = c"
  "ucast (drop_bit 24 (rep4 c)) = c"
  by (auto intro!: bit_word_eqI simp: rep4_def bit_simps)

lemma st32_rep4: "st32 m a (rep4 c) = stosb m a c 4"
proof -
  have "stosb m a c 4 = m(a := c, a + 1 := c, a + 2 := c, a + 3 := c)"
    by (simp add: eval_nat_numeral add.assoc)
  then show ?thesis by (simp add: st32_def rep4_bytes)
qed

lemma stosl_rep4: "stosl m a (rep4 c) k = stosb m a c (4 * k)"
proof (induction k arbitrary: m a)
  case (Suc k)
  have "stosb m a c (4 * Suc k) = stosb (stosb m a c 4) (a + of_nat 4) c (4 * k)"
    using stosb_add [of m a c 4 "4 * k"] by simp
  then show ?case using Suc by (simp add: st32_rep4)
qed simp

lemma fill_word: "to_uint (let c = c AND 0xFF in push_bit 24 c OR push_bit 16 c OR push_bit 8 c OR c) = rep4 (word_of_int c)"
proof -
  have "c AND 0xFF = take_bit 8 c" by (simp add: take_bit_eq_mask mask_eq_exp_minus_1)
  then show ?thesis
    by (simp add: to_uint_def rep4_def Let_def) (rule bit_word_eqI, auto simp: bit_simps)
qed

lemma memset_value:
  "memset m dst c n = (\<lambda>x. if x - dst < n then word_of_int c else m x)"
proof -
  have le: "unat n \<le> 2 ^ 32" using unat_u32 [of n] by simp
  have "memset m dst c n = stosb m dst (word_of_int c) (unat n)"
  proof (cases "dst mod 4 = 0 \<and> n mod 4 = 0")
    case True
    then have "4 * unat (n div 4) = unat n"
      by (auto simp: word_unat_eq_iff unat_mod unat_div)
    then show ?thesis using True fill_word [of c]
      by (simp add: memset_def Let_def stosl_rep4)
  qed (auto simp: memset_def)
  then show ?thesis using stosb_bytes [OF le] by (simp add: word_less_nat_alt)
qed

text \<open>
  \<open>memset\<close> sets exactly the \<open>n\<close> bytes from \<open>dst\<close> on to the low byte of \<open>c\<close>, whether it takes
  the word-wise or the byte-wise path, and also when the range wraps around the address space.
\<close>

theorem memset_bytes:
  "memset m dst c n = (\<lambda>x. if x - dst < n then word_of_int c else m x)"
  by (rule memset_value)


section \<open>Copying\<close>

text \<open>The value of a copy of \<open>k\<close> bytes from \<open>s\<close> to \<open>d\<close> that reads everything before it writes.\<close>

definition copied :: "mem \<Rightarrow> u32 \<Rightarrow> u32 \<Rightarrow> nat \<Rightarrow> mem" where
  "copied m d s k = (\<lambda>x. if unat (x - d) < k then m (s + (x - d)) else m x)"

lemma copy_up_copied:
  assumes "\<And>i j. i < j \<Longrightarrow> j < k \<Longrightarrow> d + of_nat i \<noteq> s + of_nat j" "k \<le> 2 ^ 32"
  shows "copy_up m d s k = copied m d s k"
  using assms
proof (induction k arbitrary: m d s)
  case 0
  then show ?case by (simp add: copied_def)
next
  case (Suc k)
  have "copy_up m d s (Suc k) = copied (m(d := m s)) (d + 1) (s + 1) k"
  proof -
    have "d + 1 + of_nat i \<noteq> s + 1 + of_nat j" if "i < j" "j < k" for i j
      using Suc.prems(1) [of "Suc i" "Suc j"] that by (simp add: algebra_simps)
    then show ?thesis using Suc by simp
  qed
  also have "\<dots> = copied m d s (Suc k)"
  proof
    fix x
    show "copied (m(d := m s)) (d + 1) (s + 1) k x = copied m d s (Suc k) x"
    proof (cases "x = d")
      case False
      then have "x - d \<noteq> 0" by simp
      then have u: "unat (x - d - 1) = unat (x - d) - 1" "unat (x - d) \<noteq> 0"
        by (rule unat_minus_1) (simp add: unat_eq_zero False)
      have e: "s + 1 + (x - (d + 1)) = s + (x - d)" "x - (d + 1) = x - d - 1" by simp_all
      have "s + (x - d) \<noteq> d" if "unat (x - d) < Suc k"
        using Suc.prems(1) [of 0 "unat (x - d)"] that u(2) by auto
      then show ?thesis using u False by (auto simp: copied_def e)
    next
      case True
      then show ?thesis using Suc.prems(2) by (simp add: copied_def)
    qed
  qed
  finally show ?case .
qed


lemma copy_down_copied:
  assumes "\<And>i j. j < i \<Longrightarrow> i < k \<Longrightarrow> d + of_nat i \<noteq> s + of_nat j" "k \<le> 2 ^ 32"
  shows "copy_down m (d + of_nat k) (s + of_nat k) k = copied m d s k"
  using assms
proof (induction k arbitrary: m)
  case 0
  then show ?case by (simp add: copied_def)
next
  case (Suc k)
  let ?m = "m(d + of_nat k := m (s + of_nat k))"
  have "copy_down m (d + of_nat (Suc k)) (s + of_nat (Suc k)) (Suc k) = copy_down ?m (d + of_nat k) (s + of_nat k) k"
    by (simp add: algebra_simps)
  also have "\<dots> = copied ?m d s k" using Suc by simp
  also have "\<dots> = copied m d s (Suc k)"
  proof
    fix x
    have k: "unat (of_nat k :: u32) = k" using Suc.prems(2) by (simp add: unsigned_of_nat take_bit_nat_eq_self)
    show "copied ?m d s k x = copied m d s (Suc k) x"
    proof (cases "unat (x - d) < k")
      case True
      have "s + (x - d) \<noteq> d + of_nat k"
        using Suc.prems(1) [of "unat (x - d)" k] True by auto
      then show ?thesis using True by (auto simp: copied_def)
    next
      case False
      then have "unat (x - d) < Suc k \<longleftrightarrow> unat (x - d) = unat (of_nat k :: u32)" using k by auto
      also have "\<dots> \<longleftrightarrow> x = d + of_nat k" by (auto simp: word_unat_eq_iff [symmetric] algebra_simps)
      finally show ?thesis using False by (auto simp: copied_def k)
    qed
  qed
  finally show ?case .
qed

lemma memmove_value:
  assumes "uint src + uint n < 2 ^ 32" "uint dst + uint n \<le> 2 ^ 32"
  shows "memmove m dst src n = (\<lambda>x. if x - dst < n then m (src + (x - dst)) else m x)"
proof -
  let ?k = "unat n"
  have k: "int ?k = uint n" "of_nat ?k = n" "?k \<le> 2 ^ 32" using unat_u32 [of n] by simp_all
  have off: "uint (a + of_nat i) = uint a + int i" if "i < ?k" "uint a + uint n \<le> 2 ^ 32" for a :: u32 and i
  proof -
    have "int i < uint n" using that(1) k(1) by linarith
    then have "uint a + int i < 2 ^ 32" using that(2) by linarith
    then show ?thesis using uint_add_to_uint [of "int i" a] by (simp add: to_uint_def)
  qed
  have sn: "uint (src + n) = uint src + uint n" using assms(1) by (simp add: uint_plus_if')
  have "memmove m dst src n = copied m dst src ?k"
  proof (cases "src < dst \<and> src + n > dst")
    case True
    have "dst + of_nat i \<noteq> src + of_nat j" if "j < i" "i < ?k" for i j
      using off [OF that(2) assms(2)] off [of j src] assms(1) that True
      by (auto simp: word_less_def dest: arg_cong [of _ _ uint])
    then show ?thesis using True copy_down_copied [of ?k dst src] k by (simp add: memmove_def)
  next
    case False
    have "dst + of_nat i \<noteq> src + of_nat j" if "i < j" "j < ?k" for i j
    proof
      assume "dst + of_nat i = src + of_nat j"
      then have "uint (dst + of_nat i) = uint (src + of_nat j)" by simp
      then have "uint dst + int i = uint src + int j"
        using off [of i dst] off [of j src] assms that by simp
      then show False using False that k(1) by (auto simp: word_less_def sn)
    qed
    then show ?thesis using False copy_up_copied [of ?k dst src] k by (auto simp: memmove_def)
  qed
  then show ?thesis by (simp add: copied_def word_less_nat_alt)
qed

text \<open>
  C29. \<open>memmove\<close> copies correctly between overlapping ranges in either direction: for ranges that do
  not wrap around the address space, the destination gets the bytes that the source held before the
  call, and no other byte changes.
\<close>

theorem memmove_overlap:
  assumes "uint src + uint n < 2 ^ 32" "uint dst + uint n \<le> 2 ^ 32"
  shows "memmove m dst src n = (\<lambda>x. if x - dst < n then m (src + (x - dst)) else m x)"
  using assms by (rule memmove_value)


section \<open>NUL-terminated strings\<close>

primrec cstr :: "mem \<Rightarrow> u32 \<Rightarrow> u8 list \<Rightarrow> bool" where
  "cstr m a [] \<longleftrightarrow> m a = 0"
| "cstr m a (c # cs) \<longleftrightarrow> m a = c \<and> c \<noteq> 0 \<and> cstr m (a + 1) cs"

lemma cstr_cong: "(\<And>j. j \<le> length cs \<Longrightarrow> m (a + of_nat j) = m' (a + of_nat j)) \<Longrightarrow> cstr m a cs \<longleftrightarrow> cstr m' a cs"
proof (induction cs arbitrary: a)
  case Nil
  from Nil [of 0] show ?case by simp
next
  case (Cons c cs)
  have "m (a + 1 + of_nat j) = m' (a + 1 + of_nat j)" if "j \<le> length cs" for j
    using Cons.prems [of "Suc j"] that by (simp add: algebra_simps)
  then show ?case using Cons.IH [of "a + 1"] Cons.prems [of 0] by simp
qed

lemma cstr_nonzero: "cstr m a cs \<Longrightarrow> 0 \<notin> set cs"
  by (induction cs arbitrary: a) auto

lemma strlen_loop_cstr: "cstr m (s + to_uint n) cs \<Longrightarrow> strlen_loop m s n = Some (n + int (length cs))"
proof (induction cs arbitrary: n)
  case Nil
  then show ?case by (simp add: strlen_loop.simps)
next
  case (Cons c cs)
  then have "cstr m (s + to_uint (n + 1)) cs" by (simp add: to_uint_def algebra_simps)
  then show ?case using Cons by (simp add: strlen_loop.simps [of m s n])
qed

lemma strncmp_loop_zero:
  "cstr m p xs \<Longrightarrow> cstr m q ys \<Longrightarrow> strncmp_loop m p q k = 0 \<longleftrightarrow> take k xs = take k ys"
proof (induction k arbitrary: p q xs ys)
  case (Suc k)
  then show ?case by (cases xs; cases ys) auto
qed simp

lemma u_strcmp_cstr:
  "cstr m p xs \<Longrightarrow> cstr m q ys \<Longrightarrow> \<exists>r. u_strcmp m p q = Some r \<and> (r = 0 \<longleftrightarrow> xs = ys)"
proof (induction xs arbitrary: p q ys)
  case Nil
  then show ?case by (cases ys) (auto simp: u_strcmp.simps)
next
  case (Cons x xs)
  show ?case
  proof (cases ys)
    case Nil
    then show ?thesis using Cons.prems by (auto simp: u_strcmp.simps [of m p])
  next
    case (Cons y ys')
    then show ?thesis
      using Cons.IH [of "p + 1" "q + 1" ys'] Cons.prems by (auto simp: u_strcmp.simps [of m p])
  qed
qed

lemma strncpy_pad_bytes: "strncpy_pad m s k = stosb m s 0 k"
  by (induction k arbitrary: m s) simp_all

text \<open>The bytes \<open>strncpy\<close> stores: the string, cut at \<open>k\<close> bytes and padded with zeros to \<open>k\<close>.\<close>

definition padded :: "nat \<Rightarrow> u8 list \<Rightarrow> u8 list" where
  "padded k xs = take k (xs @ replicate k 0)"

lemma length_padded [simp]: "length (padded k xs) = k"
  by (simp add: padded_def)

definition poke :: "mem \<Rightarrow> u32 \<Rightarrow> u8 list \<Rightarrow> mem" where
  "poke m a xs = (\<lambda>x. if unat (x - a) < length xs then xs ! unat (x - a) else m x)"

lemma poke_Nil [simp]: "poke m a [] = m"
  by (simp add: poke_def)

lemma poke_Cons:
  assumes "length xs < 2 ^ 32"
  shows "poke m a (c # xs) = poke (m(a := c)) (a + 1) xs"
proof
  fix x
  show "poke m a (c # xs) x = poke (m(a := c)) (a + 1) xs x"
  proof (cases "x = a")
    case True
    then show ?thesis using assms by (simp add: poke_def)
  next
    case False
    then have "x - a \<noteq> 0" by simp
    then have "unat (x - a - 1) = unat (x - a) - 1" "unat (x - a) \<noteq> 0"
      by (rule unat_minus_1) (simp add: unat_eq_zero False)
    then show ?thesis using False by (auto simp: poke_def nth_Cons diff_diff_eq [symmetric] split: nat.split)
  qed
qed

lemma stosb_poke: "k \<le> 2 ^ 32 \<Longrightarrow> stosb m a d k = poke m a (replicate k d)"
  by (auto simp: stosb_bytes poke_def fun_eq_iff)

text \<open>\<open>away m d k a n\<close>: no byte of the \<open>k\<close> from \<open>d\<close> on is one of the \<open>n\<close> from \<open>a\<close> on.\<close>

definition away :: "u32 \<Rightarrow> nat \<Rightarrow> u32 \<Rightarrow> nat \<Rightarrow> bool" where
  "away d k a n \<longleftrightarrow> (\<forall>i<k. \<forall>j<n. d + of_nat i \<noteq> a + of_nat j)"

lemma awayI:
  assumes "uint d + int k \<le> 2 ^ 32" "uint a + int n \<le> 2 ^ 32"
    and "uint d + int k \<le> uint a \<or> uint a + int n \<le> uint d"
  shows "away d k a n"
  unfolding away_def
proof (intro allI impI notI)
  fix i j assume h: "i < k" "j < n" "d + of_nat i = a + of_nat j"
  have "uint (x + of_nat l) = uint x + int l" if "uint x + int l < 2 ^ 32" for x :: u32 and l
    using uint_add_to_uint [of "int l" x] that by (simp add: to_uint_def)
  then have "uint d + int i = uint a + int j" using h assms(1,2) by (metis (no_types, lifting) add_strict_left_mono of_nat_less_iff order_less_le_trans)
  then show False using h assms(3) by linarith
qed

lemma away_step: "away d (Suc k) a (Suc n) \<Longrightarrow> away (d + 1) k (a + 1) n"
  unfolding away_def
proof (intro allI impI)
  fix i j assume h: "\<forall>i<Suc k. \<forall>j<Suc n. d + of_nat i \<noteq> a + of_nat j" "i < k" "j < n"
  then have "d + of_nat (Suc i) \<noteq> a + of_nat (Suc j)" by blast
  then show "d + 1 + of_nat i \<noteq> a + 1 + of_nat j" by (simp add: algebra_simps)
qed

lemma away_upd: "away d (Suc k) a (Suc (length cs)) \<Longrightarrow> cstr (m(d := v)) a cs \<longleftrightarrow> cstr m a cs"
proof (rule cstr_cong)
  fix j assume h: "away d (Suc k) a (Suc (length cs))" "j \<le> length cs"
  then have "d + of_nat 0 \<noteq> a + of_nat j" unfolding away_def using le_imp_less_Suc by blast
  then show "(m(d := v)) (a + of_nat j) = m (a + of_nat j)" by simp
qed

lemma strncpy_loop_poke:
  assumes "cstr m t xs" "away s k t (Suc (length xs))" "k \<le> 2 ^ 32"
  shows "strncpy_loop m s t k = poke m s (padded k xs)"
  using assms
proof (induction k arbitrary: m s t xs)
  case 0
  then show ?case by (simp add: padded_def)
next
  case (Suc k)
  show ?case
  proof (cases xs)
    case Nil
    then show ?thesis using Suc.prems
      by (simp add: padded_def strncpy_pad_bytes stosb_poke poke_Cons Let_def)
  next
    case (Cons c cs)
    have "cstr (m(s := c)) (t + 1) cs"
      using away_upd [OF Suc.prems(2), of m c] Suc.prems(1) Cons by simp
    moreover have "away (s + 1) k (t + 1) (Suc (length cs))" using away_step Suc.prems(2) Cons by simp
    moreover have pad: "padded (Suc k) (c # cs) = c # padded k cs"
      by (simp add: padded_def flip: replicate_append_same)
    moreover have "k \<le> 2 ^ 32" using Suc.prems(3) by simp
    ultimately have "strncpy_loop (m(s := c)) (s + 1) (t + 1) k = poke (m(s := c)) (s + 1) (padded k cs)"
      by (intro Suc.IH)
    then show ?thesis
      using Suc.prems Cons pad by (simp add: poke_Cons Let_def)
  qed
qed


lemma away_Suc_le: "away d k a n \<Longrightarrow> k' \<le> k \<Longrightarrow> n' \<le> n \<Longrightarrow> away d k' a n'"
  by (auto simp: away_def)

lemma safestrcpy_loop_poke:
  assumes "cstr m t xs" "away s k t (Suc (length xs))" "k < 2 ^ 32 - 1" "safestrcpy_loop m s t k = (m', s')"
  shows "m'(s' := 0) = poke m s (if length xs < k then xs @ [0, 0] else take k xs @ [0])"
  using assms
proof (induction k arbitrary: m s t xs)
  case 0
  then show ?case by (simp add: poke_Cons)
next
  case (Suc k)
  show ?case
  proof (cases xs)
    case Nil
    then show ?thesis using Suc.prems by (simp add: poke_Cons Let_def)
  next
    case (Cons c cs)
    have "cstr (m(s := c)) (t + 1) cs"
      using away_upd [OF Suc.prems(2), of m c] Suc.prems(1) Cons by simp
    moreover have "away (s + 1) k (t + 1) (Suc (length cs))" using away_step Suc.prems(2) Cons by simp
    moreover have "k < 2 ^ 32 - 1" using Suc.prems(3) by simp
    moreover have "safestrcpy_loop (m(s := c)) (s + 1) (t + 1) k = (m', s')"
      using Suc.prems Cons by (simp add: Let_def)
    ultimately have "m'(s' := 0) = poke (m(s := c)) (s + 1) (if length cs < k then cs @ [0, 0] else take k cs @ [0])"
      by (rule Suc.IH)
    then show ?thesis using Suc.prems(3) Cons by (simp add: poke_Cons)
  qed
qed

lemma poke_at: "i < length xs \<Longrightarrow> length xs \<le> 2 ^ 32 \<Longrightarrow> poke m a xs (a + of_nat i) = xs ! i"
  by (simp add: poke_def unsigned_of_nat take_bit_nat_eq_self)

lemma cstr_poke: "0 \<notin> set ys \<Longrightarrow> length ys + length zs < 2 ^ 32 \<Longrightarrow> cstr (poke m a (ys @ 0 # zs)) a ys"
proof (induction ys arbitrary: m a)
  case Nil
  then show ?case by (simp add: poke_def)
next
  case (Cons y ys)
  then show ?case using Cons.IH [of "m(a := y)" "a + 1"]
    by (simp add: poke_Cons) (simp add: poke_def)
qed

lemma strncmp_loop_field:
  "(\<And>i. i < k \<Longrightarrow> m (p + of_nat i) = padded k xs ! i) \<Longrightarrow> 0 \<notin> set xs \<Longrightarrow> cstr m q ys \<Longrightarrow>
    strncmp_loop m p q k = 0 \<longleftrightarrow> take k xs = take k ys"
proof (induction k arbitrary: p q xs ys)
  case (Suc k)
  have p0: "m p = padded (Suc k) xs ! 0" using Suc.prems(1) [of 0] by simp
  have tl: "m (p + 1 + of_nat i) = padded (Suc k) xs ! Suc i" if "i < k" for i
    using Suc.prems(1) [of "Suc i"] that by (simp add: algebra_simps)
  show ?case
  proof (cases xs)
    case Nil
    then have "m p = 0" using p0 by (simp add: padded_def)
    then show ?thesis using Nil Suc.prems(3) by (cases ys) auto
  next
    case (Cons c cs)
    have pad: "padded (Suc k) (c # cs) = c # padded k cs"
      by (simp add: padded_def flip: replicate_append_same)
    have "m p = c" "c \<noteq> 0" "0 \<notin> set cs" using p0 Cons pad Suc.prems(2) by auto
    moreover have "strncmp_loop m (p + 1) (q + 1) k = 0 \<longleftrightarrow> take k cs = take k ys'"
      if "cstr m (q + 1) ys'" for ys'
      using Suc.IH [of "p + 1" cs "q + 1" ys'] tl Cons pad that \<open>0 \<notin> set cs\<close> by simp
    ultimately show ?thesis using Cons Suc.prems(3) by (cases ys) auto
  qed
qed simp

lemma cstr_poke_other:
  assumes "cstr m q ys" "away s (length xs) q (Suc (length ys))"
  shows "cstr (poke m s xs) q ys"
proof -
  have "poke m s xs (q + of_nat j) = m (q + of_nat j)" if "j \<le> length ys" for j
  proof -
    have "\<not> unat (q + of_nat j - s) < length xs"
    proof
      assume "unat (q + of_nat j - s) < length xs"
      then have "s + of_nat (unat (q + of_nat j - s)) \<noteq> q + of_nat j"
        using assms(2) that unfolding away_def using le_imp_less_Suc by blast
      then show False by simp
    qed
    then show ?thesis by (simp add: poke_def)
  qed
  then show ?thesis using assms(1) cstr_cong [of ys "poke m s xs" q m] by simp
qed

text \<open>
  Names stored with \<open>strncpy\<close> in a field of \<open>n\<close> bytes and compared with \<open>strncmp\<close> over \<open>n\<close> bytes,
  as directory entries are: the comparison with any string is 0 exactly when the two names agree in
  their first \<open>n\<close> bytes, also when the field is filled up to its last byte and has no NUL.
\<close>

theorem strncpy_strncmp:
  assumes "cstr m t xs" "cstr m q ys" "0 \<le> n" "n < 2 ^ 31"
    and "away s (nat n) t (Suc (length xs))" "away s (nat n) q (Suc (length ys))"
  shows "strncmp (strncpy m s t n) s q (to_uint n) = 0 \<longleftrightarrow> take (nat n) xs = take (nat n) ys"
proof -
  have le: "nat n \<le> 2 ^ 32" using assms(3,4) by simp
  have m: "strncpy m s t n = poke m s (padded (nat n) xs)"
    using strncpy_loop_poke [OF assms(1,5) le] by (simp add: strncpy_def)
  have "uint (to_uint n) = n" using assms(3,4) by (simp add: uint_to_uint)
  then have u: "unat (to_uint n) = nat n" by (simp flip: nat_uint_eq)
  show ?thesis unfolding strncmp_def u m
    by (rule strncmp_loop_field)
      (use assms le cstr_nonzero in \<open>auto intro!: poke_at cstr_poke_other\<close>)
qed

text \<open>
  \<open>safestrcpy\<close> always leaves a NUL-terminated string, the source cut at \<open>n - 1\<close> bytes, and
  writes no byte outside the \<open>n\<close> bytes of its destination.
\<close>

theorem safestrcpy_terminates:
  assumes "cstr m t xs" "0 < n" "n < 2 ^ 31" "away s (nat n) t (Suc (length xs))"
  shows "cstr (safestrcpy m s t n) s (take (nat (n - 1)) xs) \<and>
    (\<forall>x. nat n \<le> unat (x - s) \<longrightarrow> safestrcpy m s t n x = m x)"
proof -
  let ?k = "nat (n - 1)"
  let ?w = "if length xs < ?k then xs @ [0, 0] else take ?k xs @ [0]"
  have "away s ?k t (Suc (length xs))" by (rule away_Suc_le [OF assms(4)]) auto
  then have m: "safestrcpy m s t n = poke m s ?w"
    using safestrcpy_loop_poke [OF assms(1), of s ?k] assms(2,3) by (auto simp: safestrcpy_def split: prod.splits)
  have "\<exists>zs. ?w = take ?k xs @ 0 # zs \<and> length ?w \<le> nat n"
    using assms(2) by auto
  then obtain zs where zs: "?w = take ?k xs @ 0 # zs" "length ?w \<le> nat n" by blast
  have "0 \<notin> set (take ?k xs)" using cstr_nonzero [OF assms(1)] by (meson in_set_takeD)
  moreover have "length (take ?k xs) + length zs < 2 ^ 32" using zs assms(3) by auto
  ultimately have "cstr (poke m s ?w) s (take ?k xs)" unfolding zs(1) by (rule cstr_poke)
  then show ?thesis unfolding m using zs(2) by (auto simp: poke_def)
qed


section \<open>Numbers\<close>

definition decimal :: "int \<Rightarrow> u8 list \<Rightarrow> int" where
  "decimal = foldl (\<lambda>n c. n * 10 + (uint c - 48))"

lemma decimal_ge: "\<forall>c\<in>set ds. 48 \<le> c \<Longrightarrow> 0 \<le> n \<Longrightarrow> n \<le> decimal n ds"
proof (induction ds arbitrary: n)
  case (Cons c ds)
  then have "48 \<le> uint c" by (simp add: word_le_def)
  then have "n \<le> n * 10 + (uint c - 48)" "0 \<le> n * 10 + (uint c - 48)" using Cons.prems(2) by linarith+
  then show ?case using Cons.IH [of "n * 10 + (uint c - 48)"] Cons.prems(1) by (simp add: decimal_def)
qed (simp add: decimal_def)

definition digits :: "u8 list \<Rightarrow> bool" where
  "digits ds \<longleftrightarrow> (\<forall>c\<in>set ds. 48 \<le> c \<and> c \<le> 57)"

lemma atoi_loop_decimal:
  assumes "cstr m s (ds @ cs)" "digits ds" "cs = [] \<or> \<not> digits [hd cs]" "0 \<le> n" "decimal n ds < 2 ^ 31 - 48"
  shows "atoi_loop m s n = Some (Ok (decimal n ds))"
  using assms
proof (induction ds arbitrary: s n)
  case Nil
  then have "\<not> (48 \<le> m s \<and> m s \<le> 57)" by (cases cs) (auto simp: digits_def)
  then show ?case by (auto simp: atoi_loop.simps [of m s] decimal_def)
next
  case (Cons c ds)
  let ?n = "n * 10 + (uint c - 48)"
  have c: "m s = c" "48 \<le> c" "c \<le> 57" "digits ds" using Cons.prems by (auto simp: digits_def)
  then have u: "48 \<le> uint c" "uint c \<le> 57" by (simp_all add: word_le_def)
  have d: "decimal n (c # ds) = decimal ?n ds" by (simp add: decimal_def)
  have "?n \<le> decimal ?n ds" using c(4) Cons.prems(4) u by (intro decimal_ge) (auto simp: digits_def)
  then have r: "c_int (n * 10)" "c_int (n * 10 + uint c)" using Cons.prems(4,5) d u by (auto simp: c_int_def)
  have "atoi_loop m (s + 1) ?n = Some (Ok (decimal ?n ds))"
    using Cons.prems c u d by (intro Cons.IH) auto
  then show ?case using c r d by (simp add: atoi_loop.simps [of m s] algebra_simps)
qed

text \<open>
  \<open>atoi\<close> returns the decimal value of the digits its argument starts with, when that value is
  at least 48 below \<open>INT_MAX\<close>.
\<close>

theorem u_atoi_decimal:
  assumes "cstr m s (ds @ cs)" "digits ds" "cs = [] \<or> \<not> digits [hd cs]" "decimal 0 ds < 2 ^ 31 - 48"
  shows "u_atoi m s = Some (Ok (decimal 0 ds))"
  using atoi_loop_decimal [OF assms(1-3) _ assms(4)] by (simp add: u_atoi_def)


section \<open>Examples\<close>

definition demo_mem :: mem where
  "demo_mem = (\<lambda>_. 0)(0x100 := 97, 0x101 := 98, 0x102 := 99, 0x200 := 97, 0x201 := 98, 0x202 := 100,
     0x300 := 52, 0x301 := 50, 0x302 := 32)"

theorem memmove_overlap_witness:
  "memmove demo_mem 0x101 0x100 3 0x103 = 99 \<and> memmove demo_mem 0x101 0x100 3 0x104 = 0"
  using memmove_overlap [of "0x100" 3 "0x101" demo_mem] by (simp add: demo_mem_def)

theorem strncpy_strncmp_witness:
  "strncmp (strncpy demo_mem 0x400 0x100 2) 0x400 0x200 (to_uint 2) = 0"
proof -
  have h: "cstr demo_mem 0x100 [97, 98, 99]" "cstr demo_mem 0x200 [97, 98, 100]"
    by (simp_all add: demo_mem_def)
  have a: "away 0x400 (nat 2) 0x100 (Suc (length [97, 98, 99 :: u8]))" "away 0x400 (nat 2) 0x200 (Suc (length [97, 98, 100 :: u8]))"
    by (rule awayI; simp)+
  show ?thesis using strncpy_strncmp [OF h _ _ a] by simp
qed

theorem safestrcpy_terminates_witness:
  "cstr (safestrcpy demo_mem 0x400 0x100 3) 0x400 [97, 98]"
proof -
  have h: "cstr demo_mem 0x100 [97, 98, 99]" by (simp add: demo_mem_def)
  have a: "away 0x400 (nat 3) 0x100 (Suc (length [97, 98, 99 :: u8]))"
    by (rule awayI; simp)
  show ?thesis using safestrcpy_terminates [OF h _ _ a] by simp
qed

theorem u_atoi_decimal_witness: "u_atoi demo_mem 0x300 = Some (Ok 42)"
proof -
  have h: "cstr demo_mem 0x300 ([52, 50] @ [32])" "digits [52, 50]" "[32] = [] \<or> \<not> digits [hd [32]]"
      "decimal 0 [52, 50] = 42"
    by code_simp+
  show ?thesis using u_atoi_decimal [OF h(1-3)] h(4) by simp
qed

end
