(* ===== verification/Kalloc.thy ===== *)
theory Kalloc
  imports Cstring
begin

text \<open>
  The page allocator of kalloc.c. The free list is linked through the free pages themselves, so the
  state is the byte memory together with the list head. The linker symbol \<open>end\<close> is the argument
  \<open>kend\<close>. The lock of the allocator is not part of this sequential model; \<open>use_lock\<close> records
  whether the allocator takes it.
\<close>

section \<open>Model\<close>

abbreviation (input) PGSIZE :: u32 where "PGSIZE \<equiv> 4096"
abbreviation (input) KERNBASE :: u32 where "KERNBASE \<equiv> 0x80000000"
abbreviation (input) PHYSTOP :: u32 where "PHYSTOP \<equiv> 0xE000000"
abbreviation (input) EXTMEM :: u32 where "EXTMEM \<equiv> 0x100000"
abbreviation (input) DEVSPACE :: u32 where "DEVSPACE \<equiv> 0xFE000000"

definition V2P :: "u32 \<Rightarrow> u32" where "V2P a = a - KERNBASE"
definition P2V :: "u32 \<Rightarrow> u32" where "P2V a = a + KERNBASE"

definition PGROUNDUP :: "u32 \<Rightarrow> u32" where
  "PGROUNDUP sz = (sz + PGSIZE - 1) AND NOT (PGSIZE - 1)"

definition PGROUNDDOWN :: "u32 \<Rightarrow> u32" where
  "PGROUNDDOWN a = a AND NOT (PGSIZE - 1)"

record kst =
  kmem :: mem
  use_lock :: bool
  freelist :: u32

definition kfree :: "u32 \<Rightarrow> u32 \<Rightarrow> kst \<Rightarrow> kst outcome" where
  "kfree kend v st =
     (if v mod PGSIZE \<noteq> 0 \<or> v < kend \<or> V2P v \<ge> PHYSTOP then Panic ''kfree''
      else
        let m = memset (kmem st) v 1 PGSIZE;
            m = st32 m v (freelist st)
        in Ok (st\<lparr>kmem := m, freelist := v\<rparr>))"

definition kalloc :: "kst \<Rightarrow> u32 \<times> kst" where
  "kalloc st =
     (let r = freelist st in
      (r, if r \<noteq> 0 then st\<lparr>freelist := ld32 (kmem st) r\<rparr> else st))"

text \<open>The loop of \<open>freerange\<close>. It ends because \<open>kfree\<close> panics for a page above \<open>PHYSTOP\<close>.\<close>

lemma kfree_Ok_below: "kfree kend v st = Ok st' \<Longrightarrow> v - KERNBASE < PHYSTOP"
  by (auto simp: kfree_def V2P_def Let_def not_le split: if_splits)

lemma kernel_page_range:
  assumes "v - KERNBASE < PHYSTOP"
  shows "uint v = 2 ^ 31 + uint (v - KERNBASE)" "uint v < 0x8E000000"
proof -
  have "uint (v - KERNBASE) < 0xE000000" using assms by (simp add: word_less_def)
  moreover have "uint v = uint ((v - KERNBASE) + KERNBASE)" by simp
  moreover have "uint ((v - KERNBASE) + KERNBASE) = uint (v - KERNBASE) + 2 ^ 31"
    using calculation(1) by (subst uint_plus_if') (simp del: diff_add_cancel)
  ultimately show "uint v = 2 ^ 31 + uint (v - KERNBASE)" "uint v < 0x8E000000" by simp_all
qed

function freerange_loop :: "u32 \<Rightarrow> u32 \<Rightarrow> u32 \<Rightarrow> kst \<Rightarrow> kst outcome" where
  "freerange_loop kend p vend st =
     (if p + PGSIZE \<le> vend then
        obind (kfree kend p st) (\<lambda>st. freerange_loop kend (p + PGSIZE) vend st)
      else Ok st)"
  by pat_completeness auto
termination
proof (relation "measure (\<lambda>(kend, p, vend, st). nat (2 ^ 32 - uint p))")
  fix kend p vend :: u32 and st st' :: kst
  assume "kfree kend p st = Ok st'"
  then have "uint p < 0x8E000000" using kfree_Ok_below kernel_page_range(2) by blast
  then have "uint (p + PGSIZE) = uint p + 4096" by (subst uint_plus_if') simp
  then show "((kend, p + PGSIZE, vend, st'), kend, p, vend, st) \<in> measure (\<lambda>(kend, p, vend, st). nat (2 ^ 32 - uint p))"
    using \<open>uint p < 0x8E000000\<close> by simp
qed simp

declare freerange_loop.simps [simp del]

definition freerange :: "u32 \<Rightarrow> u32 \<Rightarrow> u32 \<Rightarrow> kst \<Rightarrow> kst outcome" where
  "freerange kend vstart vend st = freerange_loop kend (PGROUNDUP vstart) vend st"

definition kinit1 :: "u32 \<Rightarrow> u32 \<Rightarrow> u32 \<Rightarrow> kst \<Rightarrow> kst outcome" where
  "kinit1 kend vstart vend st = freerange kend vstart vend (st\<lparr>use_lock := False\<rparr>)"

definition kinit2 :: "u32 \<Rightarrow> u32 \<Rightarrow> u32 \<Rightarrow> kst \<Rightarrow> kst outcome" where
  "kinit2 kend vstart vend st =
     obind (freerange kend vstart vend st) (\<lambda>st. Ok (st\<lparr>use_lock := True\<rparr>))"

section \<open>Pages\<close>

lemma uint_PGROUNDDOWN: "uint (PGROUNDDOWN a) = uint a - uint a mod 4096"
  using uint_round_page [of a] by (simp add: PGROUNDDOWN_def)

definition page_aligned :: "u32 \<Rightarrow> bool" where
  "page_aligned a \<longleftrightarrow> a mod PGSIZE = 0"

lemma page_aligned_uint: "page_aligned a \<longleftrightarrow> 4096 dvd uint a"
proof -
  have "uint (a mod PGSIZE) = uint a mod 4096" by (simp add: uint_mod_distrib)
  then show ?thesis by (simp add: page_aligned_def word_uint_eq_iff dvd_eq_mod_eq_0)
qed

lemma page_aligned_4: "page_aligned a \<Longrightarrow> aligned4 a"
  unfolding page_aligned_uint aligned4_uint by (rule dvd_trans [of 4 4096]) simp

lemma page_aligned_bound: "page_aligned a \<Longrightarrow> uint a \<le> 2 ^ 32 - 4096"
proof -
  assume "page_aligned a"
  then obtain c where c: "uint a = 4096 * c" by (auto simp: page_aligned_uint elim!: dvdE)
  have "4096 * c < 4096 * 2 ^ 20" using c uint_lt2p [of a] by simp
  then show ?thesis using c by simp
qed

lemma page_PGROUNDDOWN [simp]: "page_aligned (PGROUNDDOWN a)"
  by (simp add: page_aligned_uint uint_PGROUNDDOWN dvd_minus_mod)

lemma PGROUNDDOWN_aligned [simp]: "page_aligned a \<Longrightarrow> PGROUNDDOWN a = a"
  by (auto simp: page_aligned_uint uint_PGROUNDDOWN word_uint_eq_iff dvd_eq_mod_eq_0)

text \<open>The bytes of the page at \<open>v\<close> are those whose address rounds down to \<open>v\<close>.\<close>

lemma in_page: "page_aligned v \<Longrightarrow> x - v < PGSIZE \<longleftrightarrow> PGROUNDDOWN x = v"
proof
  assume v: "page_aligned v" "x - v < PGSIZE"
  let ?k = "x - v"
  have k: "0 \<le> uint ?k" "uint ?k < 4096" using v(2) by (simp_all add: word_less_def)
  have "uint (v + ?k) = uint v + uint ?k"
    using page_aligned_bound [OF v(1)] k by (subst uint_plus_if') (simp del: add_diff_cancel_left' diff_add_cancel add.commute)
  then have "uint x = uint v + uint ?k" by simp
  moreover have "(uint v + uint ?k) mod 4096 = uint ?k"
    using v(1) k by (auto simp: page_aligned_uint elim!: dvdE)
  ultimately show "PGROUNDDOWN x = v" by (simp add: word_uint_eq_iff uint_PGROUNDDOWN)
next
  assume v: "page_aligned v" "PGROUNDDOWN x = v"
  then have "uint v = uint x - uint x mod 4096" using uint_PGROUNDDOWN [of x] by simp
  then have "uint (x - v) = uint x mod 4096" by (simp add: uint_sub_if' zmod_le_nonneg_dividend)
  then show "x - v < PGSIZE" by (simp add: word_less_def)
qed

lemma page_offset: "page_aligned v \<Longrightarrow> k < PGSIZE \<Longrightarrow> PGROUNDDOWN (v + k) = v"
  using in_page [of v "v + k"] by simp

lemma ld32_page:
  assumes "page_aligned v" "k \<le> 4092" "aligned4 k" "\<And>x. PGROUNDDOWN x = v \<Longrightarrow> m x = m' x"
  shows "ld32 m (v + k) = ld32 m' (v + k)"
proof (rule ld32_cong)
  fix j :: u32 assume j: "uint j < 4"
  have "uint (k + j) = uint k + uint j" using uint_plus4 [OF assms(3) j] by simp
  then have "k + j < PGSIZE" using assms(2) j by (simp add: word_less_def word_le_def)
  then have "PGROUNDDOWN (v + (k + j)) = v" by (rule page_offset [OF assms(1)])
  then show "m (v + k + j) = m' (v + k + j)" using assms(4) by (simp add: add.assoc)
qed

lemma st32_page:
  assumes "page_aligned v" "k \<le> 4092" "aligned4 k" "PGROUNDDOWN x \<noteq> v"
  shows "st32 m (v + k) w x = m x"
proof (rule st32_other)
  fix j :: u32 assume j: "uint j < 4"
  have "uint (k + j) = uint k + uint j" using uint_plus4 [OF assms(3) j] by simp
  then have "k + j < PGSIZE" using assms(2) j by (simp add: word_less_def word_le_def)
  then have "PGROUNDDOWN (v + (k + j)) = v" by (rule page_offset [OF assms(1)])
  then show "x \<noteq> v + k + j" using assms(4) by (metis add.assoc)
qed

section \<open>The free list\<close>

text \<open>A page that the allocator may hand out.\<close>

definition page_ok :: "u32 \<Rightarrow> u32 \<Rightarrow> bool" where
  "page_ok kend v \<longleftrightarrow> page_aligned v \<and> kend \<le> v \<and> V2P v < PHYSTOP"

primrec flist :: "mem \<Rightarrow> u32 \<Rightarrow> u32 list \<Rightarrow> bool" where
  "flist m p [] \<longleftrightarrow> p = 0"
| "flist m p (x # xs) \<longleftrightarrow> p = x \<and> flist m (ld32 m x) xs"

definition kinv :: "u32 \<Rightarrow> kst \<Rightarrow> u32 list \<Rightarrow> bool" where
  "kinv kend st xs \<longleftrightarrow> flist (kmem st) (freelist st) xs \<and> distinct xs \<and> (\<forall>x\<in>set xs. page_ok kend x)"

lemma page_ok_nonzero: "page_ok kend v \<Longrightarrow> v \<noteq> 0"
  by (auto simp: page_ok_def V2P_def)

lemma flist_cong: "(\<And>x. x \<in> set xs \<Longrightarrow> ld32 m x = ld32 m' x) \<Longrightarrow> flist m p xs = flist m' p xs"
  by (induction xs arbitrary: p) auto

text \<open>Writes outside the free pages do not disturb the list.\<close>

lemma kinv_frame:
  assumes "kinv kend st xs" "\<And>x. PGROUNDDOWN x \<in> set xs \<Longrightarrow> m x = kmem st x"
  shows "kinv kend (st\<lparr>kmem := m\<rparr>) xs"
proof -
  have "ld32 m v = ld32 (kmem st) v" if "v \<in> set xs" for v
    using ld32_page [of v 0 m "kmem st"] assms that by (simp add: kinv_def page_ok_def aligned4_def)
  then show ?thesis using assms(1) flist_cong [of xs m "kmem st"] by (simp add: kinv_def)
qed

lemma kalloc_Cons:
  assumes "kinv kend st (x # xs)"
  shows "\<exists>st'. kalloc st = (x, st') \<and> kinv kend st' xs \<and> kmem st' = kmem st"
  using assms page_ok_nonzero [of kend x] by (auto simp: kinv_def kalloc_def)

lemma kalloc_Nil: "kinv kend st [] \<Longrightarrow> kalloc st = (0, st)"
  by (auto simp: kinv_def kalloc_def)

lemma kfree_inv:
  assumes inv: "kinv kend st xs" and v: "page_ok kend v" "v \<notin> set xs"
  shows "\<exists>st'. kfree kend v st = Ok st' \<and> kinv kend st' (v # xs) \<and>
    (\<forall>x. PGROUNDDOWN x \<noteq> v \<longrightarrow> kmem st' x = kmem st x)"
proof -
  have al: "page_aligned v" using v(1) by (simp add: page_ok_def)
  let ?m = "st32 (memset (kmem st) v 1 PGSIZE) v (freelist st)"
  have other: "?m x = kmem st x" if "PGROUNDDOWN x \<noteq> v" for x
    using st32_page [OF al, of 0 x] that in_page [OF al, of x] by (simp add: aligned4_def memset_value)
  have "kinv kend (st\<lparr>kmem := ?m\<rparr>) xs"
    using v(2) by (intro kinv_frame [OF inv] other) auto
  then have "kinv kend (st\<lparr>kmem := ?m, freelist := v\<rparr>) (v # xs)" using v inv by (auto simp: kinv_def)
  moreover have "kfree kend v st = Ok (st\<lparr>kmem := ?m, freelist := v\<rparr>)"
    using v(1) by (auto simp: kfree_def Let_def page_ok_def page_aligned_def not_le)
  ultimately show ?thesis using other by auto
qed

section \<open>The contract of the allocator\<close>

text \<open>What the rest of the kernel relies on, with the set of free pages as the abstract state:
  an allocation takes a page out of it and touches no memory, a release puts one back and touches
  only that page.\<close>

locale page_alloc =
  fixes inv :: "'s \<Rightarrow> bool" and free :: "'s \<Rightarrow> u32 set" and bytes :: "'s \<Rightarrow> mem" and legal :: "u32 \<Rightarrow> bool"
    and alloc :: "'s \<Rightarrow> u32 \<times> 's" and release :: "u32 \<Rightarrow> 's \<Rightarrow> 's outcome"
  assumes alloc_some: "inv s \<Longrightarrow> free s \<noteq> {} \<Longrightarrow> \<exists>v s'. alloc s = (v, s') \<and> v \<in> free s \<and> v \<noteq> 0 \<and> inv s' \<and>
      free s' = free s - {v} \<and> bytes s' = bytes s"
    and alloc_none: "inv s \<Longrightarrow> free s = {} \<Longrightarrow> alloc s = (0, s)"
    and release_ok: "inv s \<Longrightarrow> legal v \<Longrightarrow> v \<notin> free s \<Longrightarrow> \<exists>s'. release v s = Ok s' \<and> inv s' \<and>
      free s' = insert v (free s) \<and> (\<forall>x. PGROUNDDOWN x \<noteq> v \<longrightarrow> bytes s' x = bytes s x)"
    and free_legal: "inv s \<Longrightarrow> v \<in> free s \<Longrightarrow> legal v"
begin

text \<open>Two pages handed out one after the other are different.\<close>

lemma alloc_alloc:
  assumes "inv s" "alloc s = (v, s')" "alloc s' = (w, s'')" "w \<noteq> 0"
  shows "v \<noteq> 0 \<and> v \<noteq> w \<and> legal v \<and> legal w"
proof -
  have a: "free s \<noteq> {}" using alloc_none [OF assms(1)] assms(2-4) by fastforce
  then have v: "v \<in> free s" "v \<noteq> 0" "inv s'" "free s' = free s - {v}"
    using alloc_some [OF assms(1)] assms(2) by auto
  then have "free s' \<noteq> {}" using alloc_none [OF v(3)] assms(3,4) by auto
  then have "w \<in> free s'" using alloc_some [OF v(3)] assms(3) by auto
  then show ?thesis using v free_legal assms(1) by auto
qed

text \<open>An allocated page can be released, and then the same pages are free as before.\<close>

lemma alloc_release:
  assumes "inv s" "alloc s = (v, s')" "v \<noteq> 0"
  shows "\<exists>s''. release v s' = Ok s'' \<and> inv s'' \<and> free s'' = free s"
proof -
  have "free s \<noteq> {}" using alloc_none [OF assms(1)] assms(2,3) by fastforce
  then have v: "v \<in> free s" "inv s'" "free s' = free s - {v}"
    using alloc_some [OF assms(1)] assms(2) by auto
  then show ?thesis using release_ok [of s' v] free_legal [OF assms(1)] by auto
qed

end

definition kfree_pages :: "u32 \<Rightarrow> kst \<Rightarrow> u32 set" where
  "kfree_pages kend st = {v. \<exists>xs. kinv kend st xs \<and> v \<in> set xs}"

definition kalloc_inv :: "u32 \<Rightarrow> kst \<Rightarrow> bool" where
  "kalloc_inv kend st \<longleftrightarrow> (\<exists>xs. kinv kend st xs)"

lemma flist_unique: "flist m p xs \<Longrightarrow> flist m p ys \<Longrightarrow> 0 \<notin> set xs \<Longrightarrow> 0 \<notin> set ys \<Longrightarrow> xs = ys"
proof (induction xs arbitrary: p ys)
  case Nil
  then show ?case by (cases ys) auto
next
  case (Cons x xs)
  then show ?case by (cases ys) auto
qed

lemma kfree_pages_eq: "kinv kend st xs \<Longrightarrow> kfree_pages kend st = set xs"
proof -
  assume inv: "kinv kend st xs"
  have "ys = xs" if "kinv kend st ys" for ys
    using that inv flist_unique [of "kmem st" "freelist st" ys xs] page_ok_nonzero by (auto simp: kinv_def)
  then show ?thesis using inv unfolding kfree_pages_def by blast
qed

interpretation ka: page_alloc "kalloc_inv kend" "kfree_pages kend" kmem "page_ok kend" kalloc "kfree kend" for kend
proof unfold_locales
  fix st assume "kalloc_inv kend st"
  then obtain xs where xs: "kinv kend st xs" by (auto simp: kalloc_inv_def)
  show "\<exists>v s'. kalloc st = (v, s') \<and> v \<in> kfree_pages kend st \<and> v \<noteq> 0 \<and> kalloc_inv kend s' \<and>
      kfree_pages kend s' = kfree_pages kend st - {v} \<and> kmem s' = kmem st" if "kfree_pages kend st \<noteq> {}"
  proof (cases xs)
    case Nil
    then show ?thesis using that kfree_pages_eq [OF xs] by simp
  next
    case (Cons x ys)
    then obtain st' where "kalloc st = (x, st')" "kinv kend st' ys" "kmem st' = kmem st"
      using kalloc_Cons xs by blast
    moreover have "x \<notin> set ys" "x \<noteq> 0" using xs Cons page_ok_nonzero by (auto simp: kinv_def)
    ultimately show ?thesis using kfree_pages_eq xs Cons by (force simp: kalloc_inv_def)
  qed
  show "kalloc st = (0, st)" if "kfree_pages kend st = {}"
    using that kfree_pages_eq [OF xs] kalloc_Nil xs by simp
  show "page_ok kend v" if "v \<in> kfree_pages kend st" for v
    using that kfree_pages_eq [OF xs] xs by (auto simp: kinv_def)
  show "\<exists>s'. kfree kend v st = Ok s' \<and> kalloc_inv kend s' \<and> kfree_pages kend s' = insert v (kfree_pages kend st) \<and>
      (\<forall>x. PGROUNDDOWN x \<noteq> v \<longrightarrow> kmem s' x = kmem st x)" if "page_ok kend v" "v \<notin> kfree_pages kend st" for v
    using kfree_inv [OF xs that(1)] that(2) kfree_pages_eq [OF xs] kfree_pages_eq [of kend _ "v # xs"]
    by (fastforce simp: kalloc_inv_def)
qed

section \<open>Initialisation\<close>

lemma uint_PGROUNDUP:
  assumes "uint a \<le> 2 ^ 32 - 4096"
  shows "uint (PGROUNDUP a) = (uint a + 4095) div 4096 * 4096"
proof -
  have e: "a + PGSIZE - 1 = a + 4095" by simp
  have "uint (a + 4095) = uint a + 4095" using assms by (subst uint_plus_if') simp
  then show ?thesis
    using uint_PGROUNDDOWN [of "a + 4095"] by (simp add: PGROUNDUP_def PGROUNDDOWN_def e minus_mod_eq_div_mult)
qed

definition pages_from :: "u32 \<Rightarrow> nat \<Rightarrow> u32 list" where
  "pages_from p n = map (\<lambda>i. p + of_nat i * PGSIZE) [0..<n]"

lemma pages_from_0 [simp]: "pages_from p 0 = []"
  by (simp add: pages_from_def)

lemma pages_from_Suc: "pages_from p (Suc n) = p # pages_from (p + PGSIZE) n"
  by (simp add: pages_from_def upt_rec [of 0] map_Suc_upt [symmetric] algebra_simps del: upt_Suc)

lemma freerange_loop_pages:
  assumes "kinv kend st xs" "distinct (pages_from p n)" "\<forall>x\<in>set (pages_from p n). page_ok kend x \<and> x \<notin> set xs"
    and "uint p + int n * 4096 \<le> uint vend" "uint vend < uint p + int n * 4096 + 4096" "uint vend < 2 ^ 32 - 4096"
  shows "\<exists>st'. freerange_loop kend p vend st = Ok st' \<and> kinv kend st' (rev (pages_from p n) @ xs) \<and>
    (\<forall>x. PGROUNDDOWN x \<notin> set (pages_from p n) \<longrightarrow> kmem st' x = kmem st x)"
  using assms
proof (induction n arbitrary: p st xs)
  case 0
  have "uint (p + PGSIZE) = uint p + 4096" using 0 by (subst uint_plus_if') simp
  then show ?case using 0 by (subst freerange_loop.simps) (simp add: word_le_def)
next
  case (Suc n)
  have nw: "uint (p + PGSIZE) = uint p + 4096" using Suc.prems(4,6) by (subst uint_plus_if') simp
  have p: "page_ok kend p" "p \<notin> set xs" using Suc.prems(3) by (auto simp: pages_from_Suc)
  obtain st1 where st1: "kfree kend p st = Ok st1" "kinv kend st1 (p # xs)"
      "\<And>x. PGROUNDDOWN x \<noteq> p \<Longrightarrow> kmem st1 x = kmem st x"
    using kfree_inv [OF Suc.prems(1) p] by blast
  have "\<exists>st'. freerange_loop kend (p + PGSIZE) vend st1 = Ok st' \<and>
      kinv kend st' (rev (pages_from (p + PGSIZE) n) @ p # xs) \<and>
      (\<forall>x. PGROUNDDOWN x \<notin> set (pages_from (p + PGSIZE) n) \<longrightarrow> kmem st' x = kmem st1 x)"
    using Suc.prems nw by (intro Suc.IH [OF st1(2)]) (auto simp: pages_from_Suc)
  moreover have "p + PGSIZE \<le> vend" using Suc.prems(4) nw by (simp add: word_le_def)
  ultimately show ?case
    using st1 by (subst freerange_loop.simps) (auto simp: pages_from_Suc)
qed

text \<open>
  \<open>freerange\<close> puts exactly the whole pages between the rounded-up start and the end of the
  range on the free list, in front of the pages that were free, keeps the list well-formed and
  writes to no other page.
\<close>

theorem freerange_pages:
  assumes "kinv kend st xs" "p = PGROUNDUP vstart" "n = nat ((uint vend - uint p) div 4096)"
    and "uint p \<le> uint vend" "uint vend < 2 ^ 32 - 4096"
    and "distinct (pages_from p n)" "\<forall>x\<in>set (pages_from p n). page_ok kend x \<and> x \<notin> set xs"
  shows "\<exists>st'. freerange kend vstart vend st = Ok st' \<and> kinv kend st' (rev (pages_from p n) @ xs) \<and>
    (\<forall>x. PGROUNDDOWN x \<notin> set (pages_from p n) \<longrightarrow> kmem st' x = kmem st x)"
proof -
  have n: "int n = (uint vend - uint p) div 4096" using assms(3,4) by simp
  have "uint p + int n * 4096 \<le> uint vend" "uint vend < uint p + int n * 4096 + 4096"
    using div_mult_mod_eq [of "uint vend - uint p" 4096] pos_mod_bound [of 4096 "uint vend - uint p"]
      pos_mod_sign [of 4096 "uint vend - uint p"] n by linarith+
  then show ?thesis
    using freerange_loop_pages [OF assms(1,6,7) _ _ assms(5)] assms(2) by (simp add: freerange_def)
qed

text \<open>
  C26. The page allocator hands out no page twice: two allocations in a row give different legal
  pages, and when the second succeeded so did the first.
\<close>

theorem kalloc_distinct:
  assumes "kalloc_inv kend st" "kalloc st = (v, st')" "kalloc st' = (w, st'')" "w \<noteq> 0"
  shows "v \<noteq> 0 \<and> v \<noteq> w \<and> page_ok kend v \<and> page_ok kend w"
  by (rule ka.alloc_alloc [OF assms])

text \<open>
  C27. A page obtained from \<open>kalloc\<close> can be given back with \<open>kfree\<close>, which does not panic, and then
  the same pages are free as before the allocation.
\<close>

theorem kalloc_kfree:
  assumes "kalloc_inv kend st" "kalloc st = (v, st')" "v \<noteq> 0"
  shows "\<exists>st''. kfree kend v st' = Ok st'' \<and> kalloc_inv kend st'' \<and> kfree_pages kend st'' = kfree_pages kend st"
  by (rule ka.alloc_release [OF assms])

text \<open>A machine with two free pages above the kernel image.\<close>

definition kst0 :: kst where
  "kst0 = \<lparr>kmem = (\<lambda>_. 0), use_lock = False, freelist = 0\<rparr>"

definition kst2 :: kst where
  "kst2 = kst0\<lparr>kmem := st32 (\<lambda>_. 0) 0x80200000 0x80201000, freelist := 0x80200000\<rparr>"

lemma kst0_inv: "kinv 0x80108000 kst0 []"
  by (simp add: kinv_def kst0_def)

lemma kst2_inv: "kinv 0x80108000 kst2 [0x80200000, 0x80201000]"
  by (simp add: kinv_def kst2_def page_ok_def page_aligned_def V2P_def aligned4_def)
    (simp add: ld32_def)

lemma kst2_ready: "kalloc_inv 0x80108000 kst2"
  using kst2_inv by (auto simp: kalloc_inv_def)

theorem freerange_pages_witness:
  "\<exists>st'. freerange 0x80108000 0x80110000 0x80112000 kst0 = Ok st' \<and> kinv 0x80108000 st' [0x80111000, 0x80110000]"
proof -
  have p: "PGROUNDUP 0x80110000 = 0x80110000" by (simp add: PGROUNDUP_def)
  have n: "pages_from 0x80110000 2 = [0x80110000, 0x80111000]" by (simp add: pages_from_def upt_rec)
  show ?thesis
    using freerange_pages [OF kst0_inv, of "0x80110000" "0x80110000" 2 "0x80112000"]
    by (simp add: p n page_ok_def page_aligned_def V2P_def) blast
qed

theorem kalloc_distinct_witness:
  "fst (kalloc kst2) \<noteq> fst (kalloc (snd (kalloc kst2))) \<and> page_ok 0x80108000 (fst (kalloc kst2))"
proof -
  have a: "kalloc kst2 = (0x80200000, snd (kalloc kst2))"
      "kalloc (snd (kalloc kst2)) = (0x80201000, snd (kalloc (snd (kalloc kst2))))"
    by (simp_all add: kalloc_def kst2_def)
  then have f: "fst (kalloc kst2) = 0x80200000" "fst (kalloc (snd (kalloc kst2))) = 0x80201000"
    by (metis fst_conv)+
  show ?thesis unfolding f using kalloc_distinct [OF kst2_ready a] by simp
qed

theorem kalloc_kfree_witness:
  "\<exists>st''. kfree 0x80108000 0x80200000 (snd (kalloc kst2)) = Ok st'' \<and>
    kfree_pages 0x80108000 st'' = kfree_pages 0x80108000 kst2"
proof -
  have "kalloc kst2 = (0x80200000, snd (kalloc kst2))" by (simp add: kalloc_def kst2_def)
  then show ?thesis using kalloc_kfree [OF kst2_ready, of "0x80200000" "snd (kalloc kst2)"] by auto
qed

end
