(* ===== verification/Vm.thy ===== *)
theory Vm
  imports Kalloc
begin

text \<open>
  The virtual memory code of vm.c. Page directories and page tables live in the byte memory of the
  allocator; a page table entry is read and written with \<open>ld32\<close> and \<open>st32\<close>. The linker symbols
  \<open>end\<close> and \<open>data\<close> are the arguments \<open>kend\<close> and \<open>kdata\<close>; \<open>readi\<close> of fs.c is an argument of
  \<open>loaduvm\<close>. Loops over pages carry the number of rounds they can make; a loop that needs more
  never ends in C either.
\<close>

section \<open>Addresses and entries\<close>

abbreviation (input) PTE_P :: u32 where "PTE_P \<equiv> 1"
abbreviation (input) PTE_W :: u32 where "PTE_W \<equiv> 2"
abbreviation (input) PTE_U :: u32 where "PTE_U \<equiv> 4"
abbreviation (input) KERNLINK :: u32 where "KERNLINK \<equiv> 0x80100000"

definition PDX :: "u32 \<Rightarrow> u32" where "PDX va = drop_bit 22 va AND 0x3FF"
definition PTX :: "u32 \<Rightarrow> u32" where "PTX va = drop_bit 12 va AND 0x3FF"

definition PGADDR :: "u32 \<Rightarrow> u32 \<Rightarrow> u32 \<Rightarrow> u32" where
  "PGADDR d t off = push_bit 22 d OR push_bit 12 t OR off"

definition PTE_ADDR :: "u32 \<Rightarrow> u32" where "PTE_ADDR pte = pte AND NOT 0xFFF"
definition PTE_FLAGS :: "u32 \<Rightarrow> u32" where "PTE_FLAGS pte = pte AND 0xFFF"

definition present :: "u32 \<Rightarrow> bool" where "present e \<longleftrightarrow> e AND PTE_P \<noteq> 0"

section \<open>Walking and mapping\<close>

definition walkpgdir :: "u32 \<Rightarrow> u32 \<Rightarrow> bool \<Rightarrow> kst \<Rightarrow> u32 \<times> kst" where
  "walkpgdir pgdir va alloc st =
     (let pde = pgdir + 4 * PDX va; e = ld32 (kmem st) pde in
      if present e then (P2V (PTE_ADDR e) + 4 * PTX va, st)
      else if \<not> alloc then (0, st)
      else
        let (pgtab, st) = kalloc st in
        if pgtab = 0 then (0, st)
        else
          let m = memset (kmem st) pgtab 0 PGSIZE;
              m = st32 m pde (V2P pgtab OR PTE_P OR PTE_W OR PTE_U)
          in (pgtab + 4 * PTX va, st\<lparr>kmem := m\<rparr>))"

fun map_loop :: "nat \<Rightarrow> u32 \<Rightarrow> u32 \<Rightarrow> u32 \<Rightarrow> u32 \<Rightarrow> u32 \<Rightarrow> kst \<Rightarrow> (int \<times> kst) outcome" where
  "map_loop 0 pgdir a lst pa perm st = Diverge"
| "map_loop (Suc k) pgdir a lst pa perm st =
     (let (pte, st) = walkpgdir pgdir a True st in
      if pte = 0 then Ok (-1, st)
      else if present (ld32 (kmem st) pte) then Ok (-1, st)
      else
        let st = st\<lparr>kmem := st32 (kmem st) pte (pa OR perm OR PTE_P)\<rparr> in
        if a = lst then Ok (0, st)
        else map_loop k pgdir (a + PGSIZE) lst (pa + PGSIZE) perm st)"

definition mappages :: "u32 \<Rightarrow> u32 \<Rightarrow> u32 \<Rightarrow> u32 \<Rightarrow> u32 \<Rightarrow> kst \<Rightarrow> (int \<times> kst) outcome" where
  "mappages pgdir va sz pa perm st =
     (let a = PGROUNDDOWN va; lst = PGROUNDDOWN (va + sz - 1) in
      map_loop (Suc (unat (lst - a) div 4096)) pgdir a lst pa perm st)"

section \<open>Releasing\<close>

text \<open>The loop of \<open>deallocuvm\<close>. Where a whole page table is missing the counter jumps to the last
  page below the next directory entry, and the increment of the loop moves it on from there.\<close>

fun dealloc_loop :: "nat \<Rightarrow> u32 \<Rightarrow> u32 \<Rightarrow> u32 \<Rightarrow> u32 \<Rightarrow> kst \<Rightarrow> kst outcome" where
  "dealloc_loop 0 kend pgdir a oldsz st = Diverge"
| "dealloc_loop (Suc k) kend pgdir a oldsz st =
     (if a < oldsz then
        let (pte, st) = walkpgdir pgdir a False st in
        if pte = 0 then dealloc_loop k kend pgdir (PGADDR (PDX a + 1) 0 0 - PGSIZE + PGSIZE) oldsz st
        else if present (ld32 (kmem st) pte) then
          let pa = PTE_ADDR (ld32 (kmem st) pte) in
          if pa = 0 then Panic ''kfree''
          else
            obind (kfree kend (P2V pa) st) (\<lambda>st.
            dealloc_loop k kend pgdir (a + PGSIZE) oldsz (st\<lparr>kmem := st32 (kmem st) pte 0\<rparr>))
        else dealloc_loop k kend pgdir (a + PGSIZE) oldsz st
      else Ok st)"

definition deallocuvm :: "u32 \<Rightarrow> u32 \<Rightarrow> u32 \<Rightarrow> u32 \<Rightarrow> kst \<Rightarrow> (u32 \<times> kst) outcome" where
  "deallocuvm kend pgdir oldsz newsz st =
     (if newsz \<ge> oldsz then Ok (oldsz, st)
      else
        let a = PGROUNDUP newsz in
        obind (dealloc_loop (Suc (Suc (unat (oldsz - newsz) div 4096))) kend pgdir a oldsz st) (\<lambda>st.
        Ok (newsz, st)))"

fun freevm_loop :: "nat \<Rightarrow> u32 \<Rightarrow> u32 \<Rightarrow> u32 \<Rightarrow> kst \<Rightarrow> kst outcome" where
  "freevm_loop 0 kend pgdir i st = Ok st"
| "freevm_loop (Suc k) kend pgdir i st =
     (let e = ld32 (kmem st) (pgdir + 4 * i) in
      if present e then
        obind (kfree kend (P2V (PTE_ADDR e)) st) (\<lambda>st. freevm_loop k kend pgdir (i + 1) st)
      else freevm_loop k kend pgdir (i + 1) st)"

definition freevm :: "u32 \<Rightarrow> u32 \<Rightarrow> kst \<Rightarrow> kst outcome" where
  "freevm kend pgdir st =
     (if pgdir = 0 then Panic ''freevm: no pgdir''
      else
        obind (deallocuvm kend pgdir KERNBASE 0 st) (\<lambda>(_, st).
        obind (freevm_loop 1024 kend pgdir 0 st) (\<lambda>st.
        kfree kend pgdir st)))"

section \<open>Kernel and user address spaces\<close>

text \<open>The table \<open>kmap\<close>: virtual start, physical start and end, permissions.\<close>

definition kmap :: "u32 \<Rightarrow> (u32 \<times> u32 \<times> u32 \<times> u32) list" where
  "kmap kdata = [(KERNBASE, 0, EXTMEM, PTE_W), (KERNLINK, V2P KERNLINK, V2P kdata, 0),
     (kdata, V2P kdata, PHYSTOP, PTE_W), (DEVSPACE, DEVSPACE, 0, PTE_W)]"

fun kmap_loop :: "(u32 \<times> u32 \<times> u32 \<times> u32) list \<Rightarrow> u32 \<Rightarrow> u32 \<Rightarrow> kst \<Rightarrow> (u32 \<times> kst) outcome" where
  "kmap_loop [] kend pgdir st = Ok (pgdir, st)"
| "kmap_loop ((virt, ps, pe, perm) # ks) kend pgdir st =
     obind (mappages pgdir virt (pe - ps) ps perm st) (\<lambda>(r, st).
     if r < 0 then obind (freevm kend pgdir st) (\<lambda>st. Ok (0, st))
     else kmap_loop ks kend pgdir st)"

definition setupkvm :: "u32 \<Rightarrow> u32 \<Rightarrow> kst \<Rightarrow> (u32 \<times> kst) outcome" where
  "setupkvm kend kdata st =
     (let (pgdir, st) = kalloc st in
      if pgdir = 0 then Ok (0, st)
      else
        let st = st\<lparr>kmem := memset (kmem st) pgdir 0 PGSIZE\<rparr> in
        if P2V PHYSTOP > DEVSPACE then Panic ''PHYSTOP too high''
        else kmap_loop (kmap kdata) kend pgdir st)"

text \<open>\<open>inituvm\<close> uses the page and the mapping without looking at their success.\<close>

definition inituvm :: "u32 \<Rightarrow> u32 \<Rightarrow> u32 \<Rightarrow> kst \<Rightarrow> kst outcome" where
  "inituvm pgdir init sz st =
     (if sz \<ge> PGSIZE then Panic ''inituvm: more than a page''
      else
        let (mem, st) = kalloc st;
            st = st\<lparr>kmem := memset (kmem st) mem 0 PGSIZE\<rparr>
        in
        obind (mappages pgdir 0 PGSIZE (V2P mem) (PTE_W OR PTE_U) st) (\<lambda>(_, st).
        Ok (st\<lparr>kmem := memmove (kmem st) mem init sz\<rparr>)))"

text \<open>\<open>loaduvm\<close>: \<open>readi dst off n st\<close> is the call \<open>readi(ip, dst, off, n)\<close> of fs.c.\<close>

fun load_loop :: "nat \<Rightarrow> (u32 \<Rightarrow> u32 \<Rightarrow> u32 \<Rightarrow> kst \<Rightarrow> int \<times> kst) \<Rightarrow> u32 \<Rightarrow> u32 \<Rightarrow> u32 \<Rightarrow> u32 \<Rightarrow> u32 \<Rightarrow> kst \<Rightarrow>
    (int \<times> kst) outcome" where
  "load_loop 0 readi pgdir addr offset sz i st = Diverge"
| "load_loop (Suc k) readi pgdir addr offset sz i st =
     (if i < sz then
        let (pte, st) = walkpgdir pgdir (addr + i) False st in
        if pte = 0 then Panic ''loaduvm: address should exist''
        else
          let pa = PTE_ADDR (ld32 (kmem st) pte);
              n = (if sz - i < PGSIZE then sz - i else PGSIZE);
              (r, st) = readi (P2V pa) (offset + i) n st
          in
          if to_uint r \<noteq> n then Ok (-1, st)
          else load_loop k readi pgdir addr offset sz (i + PGSIZE) st
      else Ok (0, st))"

definition loaduvm :: "(u32 \<Rightarrow> u32 \<Rightarrow> u32 \<Rightarrow> kst \<Rightarrow> int \<times> kst) \<Rightarrow> u32 \<Rightarrow> u32 \<Rightarrow> u32 \<Rightarrow> u32 \<Rightarrow> kst \<Rightarrow>
    (int \<times> kst) outcome" where
  "loaduvm readi pgdir addr offset sz st =
     (if addr mod PGSIZE \<noteq> 0 then Panic ''loaduvm: addr must be page aligned''
      else load_loop (Suc (Suc (unat sz div 4096))) readi pgdir addr offset sz 0 st)"

text \<open>\<open>allocuvm\<close>; the result is the new size, or 0 after an error.\<close>

fun alloc_loop :: "nat \<Rightarrow> u32 \<Rightarrow> u32 \<Rightarrow> u32 \<Rightarrow> u32 \<Rightarrow> u32 \<Rightarrow> kst \<Rightarrow> (u32 \<times> kst) outcome" where
  "alloc_loop 0 kend pgdir oldsz newsz a st = Diverge"
| "alloc_loop (Suc k) kend pgdir oldsz newsz a st =
     (if a < newsz then
        let (mem, st) = kalloc st in
        if mem = 0 then
          obind (deallocuvm kend pgdir newsz oldsz st) (\<lambda>(_, st). Ok (0, st))
        else
          let st = st\<lparr>kmem := memset (kmem st) mem 0 PGSIZE\<rparr> in
          obind (mappages pgdir a PGSIZE (V2P mem) (PTE_W OR PTE_U) st) (\<lambda>(r, st).
          if r < 0 then
            obind (deallocuvm kend pgdir newsz oldsz st) (\<lambda>(_, st).
            obind (kfree kend mem st) (\<lambda>st. Ok (0, st)))
          else alloc_loop k kend pgdir oldsz newsz (a + PGSIZE) st)
      else Ok (newsz, st))"

definition allocuvm :: "u32 \<Rightarrow> u32 \<Rightarrow> u32 \<Rightarrow> u32 \<Rightarrow> kst \<Rightarrow> (u32 \<times> kst) outcome" where
  "allocuvm kend pgdir oldsz newsz st =
     (if newsz \<ge> KERNBASE then Ok (0, st)
      else if newsz < oldsz then Ok (oldsz, st)
      else alloc_loop (Suc (Suc (unat (newsz - oldsz) div 4096))) kend pgdir oldsz newsz (PGROUNDUP oldsz) st)"

definition clearpteu :: "u32 \<Rightarrow> u32 \<Rightarrow> kst \<Rightarrow> kst outcome" where
  "clearpteu pgdir uva st =
     (let (pte, st) = walkpgdir pgdir uva False st in
      if pte = 0 then Panic ''clearpteu''
      else Ok (st\<lparr>kmem := st32 (kmem st) pte (ld32 (kmem st) pte AND NOT PTE_U)\<rparr>))"

fun copy_loop :: "nat \<Rightarrow> u32 \<Rightarrow> u32 \<Rightarrow> u32 \<Rightarrow> u32 \<Rightarrow> u32 \<Rightarrow> kst \<Rightarrow> (u32 \<times> kst) outcome" where
  "copy_loop 0 kend pgdir d sz i st = Diverge"
| "copy_loop (Suc k) kend pgdir d sz i st =
     (if i < sz then
        let (pte, st) = walkpgdir pgdir i False st in
        if pte = 0 then Panic ''copyuvm: pte should exist''
        else
          let e = ld32 (kmem st) pte in
          if \<not> present e then Panic ''copyuvm: page not present''
          else
            let pa = PTE_ADDR e; flags = PTE_FLAGS e; (mem, st) = kalloc st in
            if mem = 0 then obind (freevm kend d st) (\<lambda>st. Ok (0, st))
            else
              let st = st\<lparr>kmem := memmove (kmem st) mem (P2V pa) PGSIZE\<rparr> in
              obind (mappages d i PGSIZE (V2P mem) flags st) (\<lambda>(r, st).
              if r < 0 then
                obind (kfree kend mem st) (\<lambda>st. obind (freevm kend d st) (\<lambda>st. Ok (0, st)))
              else copy_loop k kend pgdir d sz (i + PGSIZE) st)
      else Ok (d, st))"

definition copyuvm :: "u32 \<Rightarrow> u32 \<Rightarrow> u32 \<Rightarrow> u32 \<Rightarrow> kst \<Rightarrow> (u32 \<times> kst) outcome" where
  "copyuvm kend kdata pgdir sz st =
     obind (setupkvm kend kdata st) (\<lambda>(d, st).
     if d = 0 then Ok (0, st)
     else copy_loop (Suc (Suc (unat sz div 4096))) kend pgdir d sz 0 st)"

text \<open>\<open>uva2ka\<close> reads through the result of the walk without a check: where the page table is
  missing it follows a null pointer.\<close>

definition uva2ka :: "u32 \<Rightarrow> u32 \<Rightarrow> kst \<Rightarrow> u32 outcome" where
  "uva2ka pgdir uva st =
     (let (pte, st) = walkpgdir pgdir uva False st in
      if pte = 0 then Fault
      else
        let e = ld32 (kmem st) pte in
        if e AND PTE_P = 0 then Ok 0
        else if e AND PTE_U = 0 then Ok 0
        else Ok (P2V (PTE_ADDR e)))"

fun copyout_loop :: "nat \<Rightarrow> u32 \<Rightarrow> u32 \<Rightarrow> u32 \<Rightarrow> u32 \<Rightarrow> kst \<Rightarrow> (int \<times> kst) outcome" where
  "copyout_loop 0 pgdir va buf len st = Diverge"
| "copyout_loop (Suc k) pgdir va buf len st =
     (if len > 0 then
        let va0 = PGROUNDDOWN va in
        obind (uva2ka pgdir va0 st) (\<lambda>pa0.
        if pa0 = 0 then Ok (-1, st)
        else
          let n = PGSIZE - (va - va0);
              n = (if n > len then len else n);
              st = st\<lparr>kmem := memmove (kmem st) (pa0 + (va - va0)) buf n\<rparr>
          in copyout_loop k pgdir (va0 + PGSIZE) (buf + n) (len - n) st)
      else Ok (0, st))"

definition copyout :: "u32 \<Rightarrow> u32 \<Rightarrow> u32 \<Rightarrow> u32 \<Rightarrow> kst \<Rightarrow> (int \<times> kst) outcome" where
  "copyout pgdir va p len st = copyout_loop (Suc (Suc (Suc (unat len div 4096)))) pgdir va p len st"

end
