(* ===== verification/VmTable.thy ===== *)
theory VmTable
  imports Vm
begin

text \<open>
  Correctness of the page-table code. \<open>xlate\<close> is the translation the processor performs: the walk
  through directory and table of the present entries. \<open>pt_ok\<close> says that the directory and the tables
  of an address space are distinct pages outside a set of others, which in the lemmas is the set of
  free pages.
\<close>

section \<open>Indices\<close>

lemma PDX_less: "PDX va < 1024" and PTX_less: "PTX va < 1024"
proof -
  have "drop_bit n va AND 0x3FF < 1024" for n
  proof -
    have "drop_bit n va AND 0x3FF = take_bit 10 (drop_bit n va)" by (simp add: take_bit_eq_mask mask_eq_exp_minus_1)
    moreover have "uint (take_bit 10 (drop_bit n va)) < 2 ^ 10" using take_bit_int_less_exp [of 10 "uint (drop_bit n va)"]
      by (simp add: unsigned_take_bit_eq)
    ultimately show ?thesis by (simp add: word_less_def)
  qed
  then show "PDX va < 1024" "PTX va < 1024" by (simp_all add: PDX_def PTX_def)
qed

lemma uint_times4: "i < 1024 \<Longrightarrow> uint (4 * i :: u32) = 4 * uint i"
  by (simp add: word_less_def uint_word_ariths)

lemma entry_offset:
  assumes "(i :: u32) < 1024"
  shows "4 * i \<le> 4092" "aligned4 (4 * i)"
  using assms by (simp_all add: word_le_def uint_times4 aligned4_uint word_less_def)

lemma entry_inj: "(i :: u32) < 1024 \<Longrightarrow> j < 1024 \<Longrightarrow> 4 * i = 4 * j \<Longrightarrow> i = j"
  using uint_times4 [of i] uint_times4 [of j] by (simp add: word_uint_eq_iff)

lemma entry_aligned: "page_aligned p \<Longrightarrow> i < 1024 \<Longrightarrow> aligned4 (p + 4 * i)"
proof -
  assume p: "page_aligned p" and i: "i < (1024 :: u32)"
  have "uint (p + 4 * i) = uint p + 4 * uint i"
    using page_aligned_bound [OF p] i by (subst uint_plus_if') (simp add: uint_times4 word_less_def)
  moreover have "4 dvd uint p" using page_aligned_4 [OF p] by (simp add: aligned4_uint)
  ultimately show ?thesis by (simp add: aligned4_uint)
qed

lemma page_entry: "page_aligned p \<Longrightarrow> i < 1024 \<Longrightarrow> PGROUNDDOWN (p + 4 * i) = p"
proof -
  assume p: "page_aligned p" and i: "i < (1024 :: u32)"
  have "4 * i < PGSIZE" using entry_offset(1) [OF i] by (simp add: word_le_def word_less_def)
  then show ?thesis by (rule page_offset [OF p])
qed

lemma bit_PGROUNDDOWN: "bit (PGROUNDDOWN a) n \<longleftrightarrow> bit a n \<and> 12 \<le> n"
proof -
  have "PGROUNDDOWN a = a AND NOT (mask 12)" by (simp add: PGROUNDDOWN_def mask_eq_exp_minus_1)
  then have "bit (PGROUNDDOWN a) n \<longleftrightarrow> bit a n \<and> n < 32 \<and> 12 \<le> n"
    by (simp only: bit_simps) (auto simp: bit_imp_le_length not_less)
  then show ?thesis using bit_imp_le_length [of a n] by auto
qed

text \<open>Directory and table index together determine the page.\<close>

lemma page_index: "PDX a = PDX b \<and> PTX a = PTX b \<longleftrightarrow> PGROUNDDOWN a = PGROUNDDOWN b"
proof -
  have m: "x AND 0x3FF = take_bit 10 x" for x :: u32
    by (simp add: take_bit_eq_mask mask_eq_exp_minus_1)
  have "PDX a = PDX b \<and> PTX a = PTX b \<longleftrightarrow> (\<forall>n. 12 \<le> n \<longrightarrow> n < 32 \<longrightarrow> bit a n = bit b n)"
  proof
    assume e: "PDX a = PDX b \<and> PTX a = PTX b"
    show "\<forall>n. 12 \<le> n \<longrightarrow> n < 32 \<longrightarrow> bit a n = bit b n"
    proof (intro allI impI)
      fix n :: nat assume n: "12 \<le> n" "n < 32"
      have "bit (PTX x) (n - 12) = bit x n" if "n < 22" for x
        using n that by (simp add: PTX_def m bit_simps) linarith
      moreover have "bit (PDX x) (n - 22) = bit x n" if "22 \<le> n" for x
        using n that by (simp add: PDX_def m bit_simps) linarith
      ultimately show "bit a n = bit b n" using e by (metis not_less)
    qed
  qed (auto intro!: bit_word_eqI simp: PDX_def PTX_def m bit_simps)
  also have "\<dots> \<longleftrightarrow> PGROUNDDOWN a = PGROUNDDOWN b"
    by (auto simp: bit_PGROUNDDOWN bit_eq_iff)
  finally show ?thesis .
qed

section \<open>Translation\<close>

definition pde_of :: "mem \<Rightarrow> u32 \<Rightarrow> u32 \<Rightarrow> u32" where
  "pde_of m pgdir i = ld32 m (pgdir + 4 * i)"

definition tab_of :: "mem \<Rightarrow> u32 \<Rightarrow> u32 \<Rightarrow> u32" where
  "tab_of m pgdir i = P2V (PTE_ADDR (pde_of m pgdir i))"

definition xlate :: "mem \<Rightarrow> u32 \<Rightarrow> u32 \<Rightarrow> u32 option" where
  "xlate m pgdir va =
     (if present (pde_of m pgdir (PDX va)) then
        let e = ld32 m (tab_of m pgdir (PDX va) + 4 * PTX va) in if present e then Some e else None
      else None)"

definition pt_ok :: "u32 \<Rightarrow> mem \<Rightarrow> u32 \<Rightarrow> u32 set \<Rightarrow> bool" where
  "pt_ok kend m pgdir F \<longleftrightarrow> page_ok kend pgdir \<and> pgdir \<notin> F \<and>
     (\<forall>i<1024. present (pde_of m pgdir i) \<longrightarrow>
        page_ok kend (tab_of m pgdir i) \<and> tab_of m pgdir i \<noteq> pgdir \<and> tab_of m pgdir i \<notin> F) \<and>
     (\<forall>i<1024. \<forall>j<1024. present (pde_of m pgdir i) \<longrightarrow> present (pde_of m pgdir j) \<longrightarrow> i \<noteq> j \<longrightarrow>
        tab_of m pgdir i \<noteq> tab_of m pgdir j)"

lemma pt_okD:
  assumes "pt_ok kend m pgdir F"
  shows "page_ok kend pgdir" "pgdir \<notin> F"
    "i < 1024 \<Longrightarrow> present (pde_of m pgdir i) \<Longrightarrow> page_ok kend (tab_of m pgdir i)"
    "i < 1024 \<Longrightarrow> present (pde_of m pgdir i) \<Longrightarrow> tab_of m pgdir i \<noteq> pgdir"
    "i < 1024 \<Longrightarrow> present (pde_of m pgdir i) \<Longrightarrow> tab_of m pgdir i \<notin> F"
    "i < 1024 \<Longrightarrow> j < 1024 \<Longrightarrow> present (pde_of m pgdir i) \<Longrightarrow> present (pde_of m pgdir j) \<Longrightarrow> i \<noteq> j \<Longrightarrow>
      tab_of m pgdir i \<noteq> tab_of m pgdir j"
  using assms unfolding pt_ok_def by blast+

lemma pt_okI:
  assumes "page_ok kend pgdir" "pgdir \<notin> F"
    "\<And>i. i < 1024 \<Longrightarrow> present (pde_of m pgdir i) \<Longrightarrow>
       page_ok kend (tab_of m pgdir i) \<and> tab_of m pgdir i \<noteq> pgdir \<and> tab_of m pgdir i \<notin> F"
    "\<And>i j. i < 1024 \<Longrightarrow> j < 1024 \<Longrightarrow> present (pde_of m pgdir i) \<Longrightarrow> present (pde_of m pgdir j) \<Longrightarrow> i \<noteq> j \<Longrightarrow>
      tab_of m pgdir i \<noteq> tab_of m pgdir j"
  shows "pt_ok kend m pgdir F"
  using assms unfolding pt_ok_def by blast

lemma pt_ok_page [simp]: "pt_ok kend m pgdir F \<Longrightarrow> page_aligned pgdir"
  by (simp add: pt_ok_def page_ok_def)

lemma pt_ok_tab:
  "pt_ok kend m pgdir F \<Longrightarrow> i < 1024 \<Longrightarrow> present (pde_of m pgdir i) \<Longrightarrow>
    page_aligned (tab_of m pgdir i) \<and> tab_of m pgdir i \<noteq> pgdir \<and> tab_of m pgdir i \<notin> F \<and> tab_of m pgdir i \<noteq> 0"
  using page_ok_nonzero [of kend "tab_of m pgdir i"] unfolding pt_ok_def page_ok_def by blast

lemma pde_of_cong:
  "page_aligned pgdir \<Longrightarrow> i < 1024 \<Longrightarrow> (\<And>x. PGROUNDDOWN x = pgdir \<Longrightarrow> m' x = m x) \<Longrightarrow>
    pde_of m' pgdir i = pde_of m pgdir i"
  unfolding pde_of_def by (rule ld32_page) (auto simp: entry_offset)

lemma pt_ok_subset: "pt_ok kend m pgdir F \<Longrightarrow> G \<subseteq> F \<Longrightarrow> pt_ok kend m pgdir G"
  by (auto simp: pt_ok_def)

text \<open>Writes outside the directory keep the shape of the address space; writes outside directory and
  tables keep its translation.\<close>

lemma pt_ok_frame:
  assumes ok: "pt_ok kend m pgdir F" and same: "\<And>x. PGROUNDDOWN x = pgdir \<Longrightarrow> m' x = m x"
  shows "pt_ok kend m' pgdir F" "i < 1024 \<Longrightarrow> pde_of m' pgdir i = pde_of m pgdir i"
    "i < 1024 \<Longrightarrow> tab_of m' pgdir i = tab_of m pgdir i"
proof -
  have pde: "pde_of m' pgdir i = pde_of m pgdir i" if "i < 1024" for i
    using pde_of_cong [OF pt_ok_page [OF ok] that same] .
  then show "i < 1024 \<Longrightarrow> pde_of m' pgdir i = pde_of m pgdir i" by blast
  show "i < 1024 \<Longrightarrow> tab_of m' pgdir i = tab_of m pgdir i" using pde by (simp add: tab_of_def)
  show "pt_ok kend m' pgdir F" using ok pde by (simp add: pt_ok_def tab_of_def)
qed

lemma xlate_frame:
  assumes ok: "pt_ok kend m pgdir F" and same: "\<And>x. PGROUNDDOWN x = pgdir \<Longrightarrow> m' x = m x"
    and tabs: "\<And>i x. i < 1024 \<Longrightarrow> present (pde_of m pgdir i) \<Longrightarrow> PGROUNDDOWN x = tab_of m pgdir i \<Longrightarrow> m' x = m x"
  shows "xlate m' pgdir va = xlate m pgdir va"
proof -
  note f = pt_ok_frame(2,3) [OF ok same PDX_less]
  have "ld32 m' (tab_of m pgdir (PDX va) + 4 * PTX va) = ld32 m (tab_of m pgdir (PDX va) + 4 * PTX va)"
    if p: "present (pde_of m pgdir (PDX va))"
    using pt_ok_tab [OF ok PDX_less p] tabs [OF PDX_less p] entry_offset [OF PTX_less]
    by (intro ld32_page) auto
  then show ?thesis by (simp add: xlate_def f)
qed

text \<open>Writing the entry of one page.\<close>

lemma xlate_write:
  assumes ok: "pt_ok kend m pgdir F" and p: "present (pde_of m pgdir (PDX va))"
    and m': "m' = st32 m (tab_of m pgdir (PDX va) + 4 * PTX va) e"
  shows "xlate m' pgdir b = (if PGROUNDDOWN b = PGROUNDDOWN va then if present e then Some e else None else xlate m pgdir b)"
    "pt_ok kend m' pgdir F" "x \<notin> {x. PGROUNDDOWN x = tab_of m pgdir (PDX va)} \<Longrightarrow> m' x = m x"
proof -
  let ?t = "tab_of m pgdir (PDX va)"
  note t = pt_ok_tab [OF ok PDX_less p]
  note off = entry_offset [OF PTX_less]
  show other: "m' x = m x" if "x \<notin> {x. PGROUNDDOWN x = ?t}" for x
    using that t off unfolding m' by (intro st32_page) auto
  have same: "m' x = m x" if "PGROUNDDOWN x = pgdir" for x using other that t by auto
  show "pt_ok kend m' pgdir F" by (rule pt_ok_frame(1) [OF ok same])
  note f = pt_ok_frame(2,3) [OF ok same PDX_less]
  have "ld32 m' (tab_of m pgdir (PDX b) + 4 * PTX b) =
      (if PDX b = PDX va \<and> PTX b = PTX va then e else ld32 m (tab_of m pgdir (PDX b) + 4 * PTX b))"
    if q: "present (pde_of m pgdir (PDX b))"
  proof (cases "PDX b = PDX va")
    case True
    have "?t + 4 * PTX va \<noteq> ?t + 4 * PTX b" if "PTX b \<noteq> PTX va"
      using entry_inj [OF PTX_less PTX_less, of b va] that by auto
    then show ?thesis using t True entry_aligned [OF _ PTX_less] by (simp add: m')
  next
    case False
    then have "tab_of m pgdir (PDX b) \<noteq> ?t" using pt_okD(6) [OF ok PDX_less PDX_less q p] by blast
    then have "ld32 m' (tab_of m pgdir (PDX b) + 4 * PTX b) = ld32 m (tab_of m pgdir (PDX b) + 4 * PTX b)"
      using other pt_ok_tab [OF ok PDX_less q] entry_offset [OF PTX_less] by (intro ld32_page) auto
    then show ?thesis using False by simp
  qed
  then show "xlate m' pgdir b = (if PGROUNDDOWN b = PGROUNDDOWN va then if present e then Some e else None else xlate m pgdir b)"
    using p by (auto simp: xlate_def f page_index [symmetric] Let_def)
qed

section \<open>The walk\<close>

lemma PTE_ADDR_eq: "PTE_ADDR e = PGROUNDDOWN e"
  by (simp add: PTE_ADDR_def PGROUNDDOWN_def)

lemma present_bit: "present e \<longleftrightarrow> bit e 0"
  by (simp add: present_def and_one_eq odd_iff_mod_2_eq_one bit_0)

text \<open>A directory entry that points to the page \<open>v\<close>.\<close>

lemma V2P_aligned: "page_aligned v \<Longrightarrow> page_aligned (V2P v)"
proof -
  assume "page_aligned v"
  then have "4096 dvd uint v - 2 ^ 31" "4096 dvd 2 ^ 31 + uint v"
    by (simp_all add: page_aligned_uint dvd_add dvd_diff)
  then show ?thesis
    by (simp add: page_aligned_uint V2P_def uint_sub_if')
qed

lemma new_entry:
  assumes "page_aligned v" "f < PGSIZE" "bit f 0"
  shows "present (V2P v OR f)" "P2V (PTE_ADDR (V2P v OR f)) = v"
proof -
  have f: "\<not> bit f n" if "12 \<le> n" for n
  proof
    assume "bit f n"
    moreover have "f = take_bit 12 f" using assms(2)
      by (simp add: take_bit_eq_mod word_uint_eq_iff uint_mod_distrib word_less_def)
    ultimately show False using that by (metis bit_take_bit_iff not_less)
  qed
  have "PGROUNDDOWN (V2P v OR f) = PGROUNDDOWN (V2P v)"
    by (rule bit_word_eqI) (auto simp: bit_PGROUNDDOWN bit_simps f)
  also have "\<dots> = V2P v" using V2P_aligned [OF assms(1)] by simp
  finally show "P2V (PTE_ADDR (V2P v OR f)) = v" by (simp add: PTE_ADDR_eq P2V_def V2P_def)
  show "present (V2P v OR f)" using assms(3) by (simp add: present_bit bit_simps)
qed

lemma ld32_zero: "(\<And>k. uint k < 4 \<Longrightarrow> m (a + k) = 0) \<Longrightarrow> ld32 m a = 0"
  using ld32_cong [of m a "\<lambda>_. 0"] by (simp add: ld32_def)

text \<open>Hooking a fresh, zeroed table into the directory.\<close>

lemma pde_after:
  assumes al: "page_aligned pgdir" "page_aligned v" "v \<noteq> pgdir" and d: "i < 1024" and j: "j < 1024"
  shows "pde_of (st32 (memset m v 0 PGSIZE) (pgdir + 4 * i) w) pgdir j = (if j = i then w else pde_of m pgdir j)"
proof -
  let ?m = "st32 (memset m v 0 PGSIZE) (pgdir + 4 * i) w"
  have "pgdir + 4 * i \<noteq> pgdir + 4 * j" if "j \<noteq> i" using entry_inj [OF d j] that by auto
  then have "pde_of ?m pgdir j = (if j = i then w else ld32 (memset m v 0 PGSIZE) (pgdir + 4 * j))"
    using entry_aligned [OF al(1)] d j by (simp add: pde_of_def)
  moreover have "ld32 (memset m v 0 PGSIZE) (pgdir + 4 * j) = ld32 m (pgdir + 4 * j)"
    using in_page [OF al(2)] al(3) entry_offset [OF j] by (intro ld32_page [OF al(1)]) (auto simp: memset_value)
  ultimately show ?thesis by (simp add: pde_of_def)
qed

lemma new_table:
  assumes ok: "pt_ok kend m pgdir (insert v F)" and v: "page_ok kend v" "v \<notin> F" and d: "i < 1024"
    and np: "\<not> present (pde_of m pgdir i)"
    and m': "m' = st32 (memset m v 0 PGSIZE) (pgdir + 4 * i) (V2P v OR 7)"
  shows "pt_ok kend m' pgdir F" "present (pde_of m' pgdir i)" "tab_of m' pgdir i = v"
    "xlate m' pgdir b = xlate m pgdir b" "PGROUNDDOWN x \<noteq> pgdir \<Longrightarrow> PGROUNDDOWN x \<noteq> v \<Longrightarrow> m' x = m x"
    "j < 1024 \<Longrightarrow> present (pde_of m' pgdir j) \<Longrightarrow>
      tab_of m' pgdir j = v \<or> present (pde_of m pgdir j) \<and> tab_of m' pgdir j = tab_of m pgdir j"
proof -
  have al: "page_aligned pgdir" "page_aligned v" "v \<noteq> pgdir"
    using pt_okD(1,2) [OF ok] v(1) by (auto simp: page_ok_def)
  note off = entry_offset [OF d]
  show other: "m' x = m x" if "PGROUNDDOWN x \<noteq> pgdir" "PGROUNDDOWN x \<noteq> v" for x
    using st32_page [OF al(1) off, of x] that in_page [OF al(2), of x] by (simp add: m' memset_value)
  have ent: "present (V2P v OR 7)" "P2V (PTE_ADDR (V2P v OR 7)) = v"
    using new_entry [OF al(2), of 7] by (auto simp: bit_0)
  have pde: "pde_of m' pgdir j = (if j = i then V2P v OR 7 else pde_of m pgdir j)" if "j < 1024" for j
    unfolding m' by (rule pde_after [OF al d that])
  then have tab: "tab_of m' pgdir j = (if j = i then v else tab_of m pgdir j)" if "j < 1024" for j
    using that ent by (simp add: tab_of_def)
  show "present (pde_of m' pgdir i)" "tab_of m' pgdir i = v" using pde [OF d] tab [OF d] ent by simp_all
  show "tab_of m' pgdir j = v \<or> present (pde_of m pgdir j) \<and> tab_of m' pgdir j = tab_of m pgdir j"
    if "j < 1024" "present (pde_of m' pgdir j)" using that pde [of j] tab [of j] by auto
  have old: "page_ok kend (tab_of m pgdir j)" "tab_of m pgdir j \<noteq> pgdir" "tab_of m pgdir j \<noteq> v" "tab_of m pgdir j \<notin> F"
    if "j < 1024" "present (pde_of m pgdir j)" for j using pt_okD(3-5) [OF ok that] by auto
  show "pt_ok kend m' pgdir F"
  proof (rule pt_okI)
    show "page_ok kend (tab_of m' pgdir j) \<and> tab_of m' pgdir j \<noteq> pgdir \<and> tab_of m' pgdir j \<notin> F"
      if "j < 1024" "present (pde_of m' pgdir j)" for j
      using that v al(3) old [of j] pde [of j] tab [of j] by (cases "j = i") simp_all
    show "tab_of m' pgdir j \<noteq> tab_of m' pgdir l"
      if "j < 1024" "l < 1024" "present (pde_of m' pgdir j)" "present (pde_of m' pgdir l)" "j \<noteq> l" for j l
      using that old(3) [of j] old(3) [of l] pde [of j] tab [of j] pde [of l] tab [of l] pt_okD(6) [OF ok, of j l]
      by (cases "j = i"; cases "l = i") auto
  qed (use pt_okD(1,2) [OF ok] in auto)
  show "xlate m' pgdir b = xlate m pgdir b"
  proof (cases "PDX b = i")
    case True
    have z: "m' x = 0" if "PGROUNDDOWN x = v" for x
      using st32_page [OF al(1) off, of x] in_page [OF al(2), of x] that al(3) by (simp add: m' memset_value)
    have "ld32 m' (v + 4 * PTX b) = 0"
      using ld32_page [OF al(2) entry_offset [OF PTX_less], of m' "\<lambda>_. 0"] z by (simp add: ld32_zero)
    then show ?thesis using True np pde [OF PDX_less, of b] tab [OF PDX_less, of b] by (simp add: xlate_def present_def)
  next
    case False
    have "ld32 m' (tab_of m pgdir (PDX b) + 4 * PTX b) = ld32 m (tab_of m pgdir (PDX b) + 4 * PTX b)"
      if "present (pde_of m pgdir (PDX b))"
      using old [OF PDX_less that] other entry_offset [OF PTX_less] by (intro ld32_page) (auto simp: page_ok_def)
    then show ?thesis using False pde [OF PDX_less, of b] tab [OF PDX_less, of b] by (simp add: xlate_def)
  qed
qed

text \<open>The pages that make up an address space, the number of page tables it can still need, and what an
  operation on it may change: these pages and the free pages it takes, one for each new table.\<close>

definition absent :: "mem \<Rightarrow> u32 \<Rightarrow> nat" where
  "absent m pgdir = card {i. i < 1024 \<and> \<not> present (pde_of m pgdir i)}"

definition pt_pages :: "mem \<Rightarrow> u32 \<Rightarrow> u32 set" where
  "pt_pages m pgdir = insert pgdir {tab_of m pgdir i |i. i < 1024 \<and> present (pde_of m pgdir i)}"

definition pt_step :: "u32 \<Rightarrow> u32 \<Rightarrow> kst \<Rightarrow> u32 list \<Rightarrow> kst \<Rightarrow> u32 list \<Rightarrow> bool" where
  "pt_step kend pgdir st xs st' xs' \<longleftrightarrow>
     kinv kend st' xs' \<and> pt_ok kend (kmem st') pgdir (set xs') \<and> set xs' \<subseteq> set xs \<and>
     length xs' + absent (kmem st) pgdir = length xs + absent (kmem st') pgdir \<and>
     pt_pages (kmem st') pgdir \<subseteq> pt_pages (kmem st) pgdir \<union> (set xs - set xs') \<and>
     (\<forall>x. PGROUNDDOWN x \<notin> pt_pages (kmem st) pgdir \<union> (set xs - set xs') \<longrightarrow> kmem st' x = kmem st x)"

lemma pt_step_refl: "kinv kend st xs \<Longrightarrow> pt_ok kend (kmem st) pgdir (set xs) \<Longrightarrow> pt_step kend pgdir st xs st xs"
  by (simp add: pt_step_def)

lemma pt_step_trans:
  assumes a: "pt_step kend pgdir st xs st1 xs1" and b: "pt_step kend pgdir st1 xs1 st2 xs2"
  shows "pt_step kend pgdir st xs st2 xs2"
  unfolding pt_step_def
proof (intro conjI allI impI)
  have sub: "set xs2 \<subseteq> set xs1" "set xs1 \<subseteq> set xs"
      "pt_pages (kmem st1) pgdir \<subseteq> pt_pages (kmem st) pgdir \<union> (set xs - set xs1)"
      "pt_pages (kmem st2) pgdir \<subseteq> pt_pages (kmem st1) pgdir \<union> (set xs1 - set xs2)"
    using a b unfolding pt_step_def by blast+
  then show "set xs2 \<subseteq> set xs" "pt_pages (kmem st2) pgdir \<subseteq> pt_pages (kmem st) pgdir \<union> (set xs - set xs2)"
    by blast+
  fix x assume x: "PGROUNDDOWN x \<notin> pt_pages (kmem st) pgdir \<union> (set xs - set xs2)"
  then have "PGROUNDDOWN x \<notin> pt_pages (kmem st) pgdir \<union> (set xs - set xs1)"
      "PGROUNDDOWN x \<notin> pt_pages (kmem st1) pgdir \<union> (set xs1 - set xs2)" using sub by blast+
  then have "kmem st1 x = kmem st x" "kmem st2 x = kmem st1 x" using a b unfolding pt_step_def by blast+
  then show "kmem st2 x = kmem st x" by simp
qed (use a b in \<open>simp_all add: pt_step_def\<close>)

lemma absent_after:
  assumes "page_aligned pgdir" "page_aligned v" "v \<noteq> pgdir" "i < 1024"
    and np: "\<not> present (pde_of m pgdir i)" and p: "present (pde_of (st32 (memset m v 0 PGSIZE) (pgdir + 4 * i) w) pgdir i)"
  shows "absent m pgdir = Suc (absent (st32 (memset m v 0 PGSIZE) (pgdir + 4 * i) w) pgdir)"
proof -
  let ?m = "st32 (memset m v 0 PGSIZE) (pgdir + 4 * i) w"
  have "present (pde_of ?m pgdir j) \<longleftrightarrow> j = i \<or> present (pde_of m pgdir j)" if "j < 1024" for j
    using pde_after [OF assms(1-4) that, of m w] p by auto
  then have "{j. j < 1024 \<and> \<not> present (pde_of m pgdir j)} = insert i {j. j < 1024 \<and> \<not> present (pde_of ?m pgdir j)}"
    using np assms(4) by auto
  moreover have "i \<notin> {j. j < 1024 \<and> \<not> present (pde_of ?m pgdir j)}" using p by simp
  ultimately show ?thesis by (simp add: absent_def)
qed

lemma absent_pos: "\<not> present (pde_of m pgdir (PDX va)) \<Longrightarrow> 0 < absent m pgdir"
  unfolding absent_def by (subst card_gt_0_iff) (auto intro: PDX_less)

lemma walkpgdir_alloc:
  assumes inv: "kinv kend st xs" and ok: "pt_ok kend (kmem st) pgdir (set xs)"
  obtains (full) "walkpgdir pgdir va True st = (0, st)" "xs = []" "\<not> present (pde_of (kmem st) pgdir (PDX va))"
  | (found) st' xs' where "walkpgdir pgdir va True st = (tab_of (kmem st') pgdir (PDX va) + 4 * PTX va, st')"
      "tab_of (kmem st') pgdir (PDX va) + 4 * PTX va \<noteq> 0"
      "pt_step kend pgdir st xs st' xs'" "present (pde_of (kmem st') pgdir (PDX va))"
      "\<And>b. xlate (kmem st') pgdir b = xlate (kmem st) pgdir b"
proof (cases "present (pde_of (kmem st) pgdir (PDX va))")
  case True
  note t = pt_ok_tab [OF ok PDX_less True]
  have "PGROUNDDOWN (tab_of (kmem st) pgdir (PDX va) + 4 * PTX va) \<noteq> 0"
    using t page_entry [OF _ PTX_less] by simp
  then have nz: "tab_of (kmem st) pgdir (PDX va) + 4 * PTX va \<noteq> 0" by (auto simp: PGROUNDDOWN_def)
  show ?thesis using found [of st xs] True nz pt_step_refl [OF inv ok]
    by (simp add: walkpgdir_def pde_of_def tab_of_def)
next
  case np: False
  show ?thesis
  proof (cases xs)
    case Nil
    then show ?thesis using full np kalloc_Nil [of kend st] inv
      by (simp add: walkpgdir_def pde_of_def)
  next
    case (Cons v ys)
    obtain st1 where st1: "kalloc st = (v, st1)" "kinv kend st1 ys" "kmem st1 = kmem st"
      using kalloc_Cons inv Cons by blast
    let ?m = "st32 (memset (kmem st) v 0 PGSIZE) (pgdir + 4 * PDX va) (V2P v OR 7)"
    have v: "page_ok kend v" "v \<notin> set ys" "v \<noteq> 0" using inv Cons page_ok_nonzero [of kend v] by (auto simp: kinv_def)
    have ok': "pt_ok kend (kmem st) pgdir (insert v (set ys))" using ok Cons by simp
    note nt = new_table [OF ok' v(1,2) PDX_less np refl]
    have w: "walkpgdir pgdir va True st = (v + 4 * PTX va, st1\<lparr>kmem := ?m\<rparr>)"
      using np v(3) st1 by (simp add: walkpgdir_def pde_of_def)
    have "pgdir \<notin> set ys" using pt_okD(2) [OF ok] Cons by simp
    then have k: "kinv kend (st1\<lparr>kmem := ?m\<rparr>) ys" using v(2) st1(3) nt(5)
      by (intro kinv_frame [OF st1(2)]) (metis (no_types, lifting))
    have "PGROUNDDOWN (v + 4 * PTX va) \<noteq> 0" using page_entry [OF _ PTX_less, of v va] v by (simp add: page_ok_def)
    then have nz: "v + 4 * PTX va \<noteq> 0" by (auto simp: PGROUNDDOWN_def)
    have "pt_pages ?m pgdir \<subseteq> insert v (pt_pages (kmem st) pgdir)"
      using nt(6) by (auto simp: pt_pages_def)
    moreover have "PGROUNDDOWN x \<noteq> pgdir \<and> PGROUNDDOWN x \<noteq> v"
      if "PGROUNDDOWN x \<notin> pt_pages (kmem st) pgdir \<union> (set xs - set ys)" for x
      using that v(2) Cons by (auto simp: pt_pages_def)
    moreover have "absent (kmem st) pgdir = Suc (absent ?m pgdir)"
      using absent_after [of pgdir v "PDX va" "kmem st" "V2P v OR 7"] ok v np nt(2) Cons pt_okD(2) [OF ok] PDX_less
      by (auto simp: page_ok_def)
    ultimately have "pt_step kend pgdir st xs (st1\<lparr>kmem := ?m\<rparr>) ys"
      using k nt(1,5) v(2) Cons unfolding pt_step_def by auto
    then show ?thesis
      by (rule found [of "st1\<lparr>kmem := ?m\<rparr>" ys, rotated 2]) (use w nz nt in auto)
  qed
qed

section \<open>Mapping a run of pages\<close>

lemma pt_step_write:
  assumes "kinv kend st xs" "pt_ok kend (kmem st) pgdir (set xs)" "present (pde_of (kmem st) pgdir (PDX va))"
  shows "pt_step kend pgdir st xs (st\<lparr>kmem := st32 (kmem st) (tab_of (kmem st) pgdir (PDX va) + 4 * PTX va) e\<rparr>) xs"
proof -
  let ?m = "st32 (kmem st) (tab_of (kmem st) pgdir (PDX va) + 4 * PTX va) e"
  note w = xlate_write [OF assms(2,3) refl]
  note t = pt_ok_tab [OF assms(2) PDX_less assms(3)]
  have m: "?m x = kmem st x" if "PGROUNDDOWN x \<noteq> tab_of (kmem st) pgdir (PDX va)" for x using w(3) that by simp
  have "kinv kend (st\<lparr>kmem := ?m\<rparr>) xs" using t by (intro kinv_frame [OF assms(1)] m) auto
  moreover have "pt_pages ?m pgdir \<subseteq> pt_pages (kmem st) pgdir" "absent ?m pgdir = absent (kmem st) pgdir"
  proof -
    have "?m x = kmem st x" if "PGROUNDDOWN x = pgdir" for x using m t that by auto
    note f = pt_ok_frame(2,3) [OF assms(2) this]
    show "pt_pages ?m pgdir \<subseteq> pt_pages (kmem st) pgdir" using f unfolding pt_pages_def by auto
    show "absent ?m pgdir = absent (kmem st) pgdir" unfolding absent_def using f(1) by (intro arg_cong [of _ _ card]) auto
  qed
  moreover have "tab_of (kmem st) pgdir (PDX va) \<in> pt_pages (kmem st) pgdir"
    using PDX_less assms(3) unfolding pt_pages_def by blast
  ultimately show ?thesis using w(2) unfolding pt_step_def by (auto intro!: m)
qed

definition in_run :: "u32 \<Rightarrow> nat \<Rightarrow> u32 \<Rightarrow> bool" where
  "in_run a n b \<longleftrightarrow> unat (PGROUNDDOWN b - a) < n * 4096"

lemma in_run_Suc:
  assumes "page_aligned a"
  shows "in_run a (Suc n) b \<longleftrightarrow> PGROUNDDOWN b = a \<or> in_run (a + PGSIZE) n b \<and> PGROUNDDOWN b \<noteq> a"
proof (cases "PGROUNDDOWN b = a")
  case False
  let ?d = "PGROUNDDOWN b - a"
  have "page_aligned ?d"
  proof -
    have "4096 dvd uint (PGROUNDDOWN b)" "4096 dvd uint a" using assms by (simp_all flip: page_aligned_uint)
    then show ?thesis by (auto simp: page_aligned_uint uint_sub_if' dvd_diff dvd_add)
  qed
  moreover have "uint ?d \<noteq> 0" using False by (simp add: uint_0_iff)
  then have "0 < uint ?d" using uint_ge_0 [of ?d] by linarith
  ultimately have "4096 \<le> uint ?d" by (simp add: page_aligned_uint zdvd_imp_le)
  then have "uint (?d - PGSIZE) = uint ?d - 4096" by (simp add: uint_sub_if')
  then have "unat (?d - PGSIZE) = unat ?d - 4096" "4096 \<le> unat ?d"
    using \<open>4096 \<le> uint ?d\<close> by (simp_all flip: nat_uint_eq)
  then show ?thesis using False by (auto simp: in_run_def diff_diff_eq [symmetric])
qed (simp add: in_run_def)

definition map_post :: "u32 \<Rightarrow> nat \<Rightarrow> u32 \<Rightarrow> u32 \<Rightarrow> mem \<Rightarrow> mem \<Rightarrow> u32 \<Rightarrow> bool" where
  "map_post a n pa perm m m' pgdir \<longleftrightarrow> (\<forall>b. xlate m' pgdir b =
     (if in_run a n b then Some ((pa + (PGROUNDDOWN b - a)) OR perm OR PTE_P) else xlate m pgdir b)) \<and>
     (\<forall>b. in_run a n b \<longrightarrow> xlate m pgdir b = None)"

lemma present_or_P: "present (x OR y OR PTE_P)"
  by (simp add: present_bit bit_simps)

lemma map_loop_spec:
  assumes "kinv kend st xs" "pt_ok kend (kmem st) pgdir (set xs)" "page_aligned a" "uint a + int (Suc n) * 4096 \<le> 2 ^ 32"
    and "n < k"
  shows "\<exists>r st' xs'. map_loop k pgdir a (a + of_nat n * PGSIZE) pa perm st = Ok (r, st') \<and>
    pt_step kend pgdir st xs st' xs' \<and>
    (r = 0 \<and> map_post a (Suc n) pa perm (kmem st) (kmem st') pgdir \<or>
     r = -1 \<and> (xs' = [] \<and> 0 < absent (kmem st') pgdir \<or> (\<exists>b. in_run a (Suc n) b \<and> xlate (kmem st) pgdir b \<noteq> None)) \<and>
       (\<forall>b. \<not> in_run a (Suc n) b \<longrightarrow> xlate (kmem st') pgdir b = xlate (kmem st) pgdir b))"
  using assms
proof (induction k arbitrary: n a pa st xs)
  case (Suc k)
  show ?case
  proof (cases rule: walkpgdir_alloc [OF Suc.prems(1,2), of a])
    case 1
    then show ?thesis using pt_step_refl [OF Suc.prems(1,2)] absent_pos by auto
  next
    case (2 st1 xs1)
    let ?pte = "tab_of (kmem st1) pgdir (PDX a) + 4 * PTX a"
    have st1: "kinv kend st1 xs1" "pt_ok kend (kmem st1) pgdir (set xs1)" using 2(3) by (auto simp: pt_step_def)
    have pte: "xlate (kmem st) pgdir b = (if present (ld32 (kmem st1) ?pte) then Some (ld32 (kmem st1) ?pte) else None)"
      if "PGROUNDDOWN b = a" for b
    proof -
      have "PDX b = PDX a" "PTX b = PTX a" using that page_index [of b a] Suc.prems(3) by auto
      then have "xlate (kmem st1) pgdir b = (if present (ld32 (kmem st1) ?pte) then Some (ld32 (kmem st1) ?pte) else None)"
        using 2(4) by (simp add: xlate_def Let_def)
      then show ?thesis using 2(5) by simp
    qed
    have ina: "in_run a (Suc n) a" using Suc.prems(3) by (simp add: in_run_def)
    show ?thesis
    proof (cases "present (ld32 (kmem st1) ?pte)")
      case True
      then have "xlate (kmem st) pgdir a \<noteq> None" using pte [of a] Suc.prems(3) by simp
      then show ?thesis using 2 True ina by (auto intro!: exI [of _ xs1])
    next
      case False
      let ?e = "pa OR perm OR PTE_P"
      let ?st = "st1\<lparr>kmem := st32 (kmem st1) ?pte ?e\<rparr>"
      note w = xlate_write(1) [OF st1(2) 2(4) refl, of ?e]
      have x2: "xlate (kmem ?st) pgdir b = (if PGROUNDDOWN b = a then Some ?e else xlate (kmem st) pgdir b)" for b
        using w [of b] 2(5) [of b] Suc.prems(3) present_or_P by simp
      have na: "xlate (kmem st) pgdir b = None" if "PGROUNDDOWN b = a" for b
        using that pte [of b] False by simp
      have step: "pt_step kend pgdir st xs ?st xs1"
        by (rule pt_step_trans [OF 2(3) pt_step_write [OF st1 2(4)]])
      show ?thesis
      proof (cases n)
        case 0
        have "map_post a (Suc n) pa perm (kmem st) (kmem ?st) pgdir"
          using x2 na 0 Suc.prems(3) in_run_Suc [OF Suc.prems(3), of 0]
          by (auto simp: map_post_def in_run_def [of _ 0])
        then show ?thesis using 2(1,2) False step 0 by auto
      next
        case (Suc n')
        have nw: "uint (a + PGSIZE) = uint a + 4096"
          using Suc.prems(4) Suc by (subst uint_plus_if') simp
        have "uint a + int n * 4096 + 4096 \<le> 4294967296" using Suc.prems(4) by simp
        then have nb: "int n * 4096 < 4294967296" "n * 4096 \<le> 4294963200" using uint_ge_0 [of a] by linarith+
        have neq: "a \<noteq> a + of_nat n * PGSIZE"
        proof
          assume "a = a + of_nat n * PGSIZE"
          then have "uint (of_nat n * PGSIZE :: u32) = 0" by simp
          moreover have "uint (of_nat n * PGSIZE :: u32) = int n * 4096"
            using nb uint_to_uint [of "int n * 4096"] by (simp add: to_uint_def)
          ultimately show False using Suc by simp
        qed
        have st2: "kinv kend ?st xs1" "pt_ok kend (kmem ?st) pgdir (set xs1)" using step by (auto simp: pt_step_def)
        have al: "page_aligned (a + PGSIZE)" using Suc.prems(3) nw by (simp add: page_aligned_uint)
        have lst: "a + PGSIZE + of_nat n' * PGSIZE = a + of_nat n * PGSIZE" using Suc by (simp add: algebra_simps)
        have run: "map_loop (Suc k) pgdir a (a + of_nat n * PGSIZE) pa perm st =
            map_loop k pgdir (a + PGSIZE) (a + PGSIZE + of_nat n' * PGSIZE) (pa + PGSIZE) perm ?st"
          unfolding lst using 2(1,2) False neq by (simp add: Let_def)
        have b: "uint (a + PGSIZE) + int (Suc n') * 4096 \<le> 2 ^ 32" "n' < k" using nw Suc.prems(4,5) Suc by auto
        obtain r st' xs' where IH: "map_loop k pgdir (a + PGSIZE) (a + PGSIZE + of_nat n' * PGSIZE) (pa + PGSIZE) perm ?st = Ok (r, st')"
            "pt_step kend pgdir ?st xs1 st' xs'"
            "r = 0 \<and> map_post (a + PGSIZE) (Suc n') (pa + PGSIZE) perm (kmem ?st) (kmem st') pgdir \<or>
             r = -1 \<and> (xs' = [] \<and> 0 < absent (kmem st') pgdir \<or> (\<exists>b. in_run (a + PGSIZE) (Suc n') b \<and> xlate (kmem ?st) pgdir b \<noteq> None)) \<and>
             (\<forall>b. \<not> in_run (a + PGSIZE) (Suc n') b \<longrightarrow> xlate (kmem st') pgdir b = xlate (kmem ?st) pgdir b)"
          using Suc.IH [OF st2 al b, of "pa + PGSIZE"] by blast
        have notfirst: "PGROUNDDOWN b \<noteq> a" if "in_run (a + PGSIZE) (Suc n') b" for b
        proof
          assume "PGROUNDDOWN b = a"
          then have "unat (- 4096 :: u32) < n * 4096" using that Suc by (simp add: in_run_def)
          moreover have "unat (- 4096 :: u32) = 4294963200" by simp
          ultimately show False using nb by linarith
        qed
        have runs: "in_run a (Suc n) b \<longleftrightarrow> PGROUNDDOWN b = a \<or> in_run (a + PGSIZE) (Suc n') b" for b
          using in_run_Suc [OF Suc.prems(3), of n b] notfirst [of b] Suc by auto
        have pa: "pa + PGSIZE + (PGROUNDDOWN b - (a + PGSIZE)) = pa + (PGROUNDDOWN b - a)" for b by simp
        show ?thesis
          unfolding run IH(1)
        proof (intro exI conjI)
          show "pt_step kend pgdir st xs st' xs'" by (rule pt_step_trans [OF step IH(2)])
          show "r = 0 \<and> map_post a (Suc n) pa perm (kmem st) (kmem st') pgdir \<or>
             r = -1 \<and> (xs' = [] \<and> 0 < absent (kmem st') pgdir \<or> (\<exists>b. in_run a (Suc n) b \<and> xlate (kmem st) pgdir b \<noteq> None)) \<and>
             (\<forall>b. \<not> in_run a (Suc n) b \<longrightarrow> xlate (kmem st') pgdir b = xlate (kmem st) pgdir b)"
            using IH(3)
          proof (elim disjE conjE)
            assume r: "r = 0" "map_post (a + PGSIZE) (Suc n') (pa + PGSIZE) perm (kmem ?st) (kmem st') pgdir"
            have "map_post a (Suc n) pa perm (kmem st) (kmem st') pgdir"
              using r(2) unfolding map_post_def pa runs x2 using na notfirst by (metis add.right_neutral cancel_comm_monoid_add_class.diff_cancel)
            then show ?thesis using r(1) by simp
          qed (use notfirst x2 in \<open>auto simp: runs\<close>)
        qed simp
      qed
    qed
  qed
qed simp

lemma mappages_run:
  assumes inv: "kinv kend st xs" "pt_ok kend (kmem st) pgdir (set xs)"
    and sz: "0 < sz" "uint va + uint sz \<le> 2 ^ 32"
    and n: "n = nat ((uint va + uint sz - 1) div 4096 - uint va div 4096)"
  shows "\<exists>r st' xs'. mappages pgdir va sz pa perm st = Ok (r, st') \<and> pt_step kend pgdir st xs st' xs' \<and>
    (r = 0 \<and> map_post (PGROUNDDOWN va) (Suc n) pa perm (kmem st) (kmem st') pgdir \<or>
     r = -1 \<and> (xs' = [] \<and> 0 < absent (kmem st') pgdir \<or> (\<exists>b. in_run (PGROUNDDOWN va) (Suc n) b \<and> xlate (kmem st) pgdir b \<noteq> None)) \<and>
       (\<forall>b. \<not> in_run (PGROUNDDOWN va) (Suc n) b \<longrightarrow> xlate (kmem st') pgdir b = xlate (kmem st) pgdir b))"
proof -
  let ?a = "PGROUNDDOWN va" and ?l = "PGROUNDDOWN (va + sz - 1)"
  have pos: "0 < uint sz" using sz(1) by (simp add: word_less_def)
  have "uint (va + (sz - 1)) = uint va + (uint sz - 1)"
    using pos sz(2) by (subst uint_plus_if') (simp add: uint_sub_if')
  then have e: "uint (va + sz - 1) = uint va + uint sz - 1" by (simp add: add_diff_eq)
  have a: "uint ?a = uint va div 4096 * 4096" by (simp add: uint_PGROUNDDOWN minus_mod_eq_div_mult)
  have l: "uint ?l = (uint va + uint sz - 1) div 4096 * 4096" by (simp add: uint_PGROUNDDOWN e minus_mod_eq_div_mult)
  have "uint va div 4096 \<le> (uint va + uint sz - 1) div 4096" using pos by (intro zdiv_mono1) auto
  then have nn: "int n = (uint va + uint sz - 1) div 4096 - uint va div 4096" using n by simp
  then have la: "uint ?l = uint ?a + int n * 4096" using a l by (simp add: algebra_simps)
  have "(uint va + uint sz - 1) div 4096 \<le> (2 ^ 32 - 1) div 4096" using sz(2) by (intro zdiv_mono1) auto
  then have b: "uint ?a + int (Suc n) * 4096 \<le> 2 ^ 32" using a nn by (simp add: algebra_simps)
  have "uint (?a + of_nat n * PGSIZE) = uint ?a + int n * 4096"
    using uint_add_to_uint [of "int n * 4096" ?a] b by (simp add: to_uint_def)
  then have leq: "?l = ?a + of_nat n * PGSIZE" using la by (simp add: word_uint_eq_iff)
  have "uint (?l - ?a) = int n * 4096" using la by (simp add: uint_sub_if')
  then have u: "unat (?l - ?a) div 4096 = n" by (simp flip: nat_uint_eq add: nat_mult_distrib)
  show ?thesis
    using map_loop_spec [OF inv page_PGROUNDDOWN b, of "Suc n" pa perm]
    unfolding mappages_def Let_def u unfolding leq by simp
qed

text \<open>
  C7. \<open>mappages\<close> on a sound address space and a well-formed free list: it returns, keeps both
  invariants and writes only to pages of the address space and to free pages it takes. When it
  returns 0, each page of the range was unmapped and is now translated to the corresponding physical
  page with the given permissions, and every other translation is as before. When it returns -1, no
  free page is left or a page of the range was mapped already, and no translation outside the range
  has changed.
\<close>

theorem mappages_spec:
  assumes inv: "kinv kend st xs" "pt_ok kend (kmem st) pgdir (set xs)"
    and sz: "0 < sz" "uint va + uint sz \<le> 2 ^ 32"
    and n: "n = nat ((uint va + uint sz - 1) div 4096 - uint va div 4096)"
  shows "\<exists>r st' xs'. mappages pgdir va sz pa perm st = Ok (r, st') \<and> pt_step kend pgdir st xs st' xs' \<and>
    (r = 0 \<and> map_post (PGROUNDDOWN va) (Suc n) pa perm (kmem st) (kmem st') pgdir \<or>
     r = -1 \<and> (xs' = [] \<and> 0 < absent (kmem st') pgdir \<or> (\<exists>b. in_run (PGROUNDDOWN va) (Suc n) b \<and> xlate (kmem st) pgdir b \<noteq> None)) \<and>
       (\<forall>b. \<not> in_run (PGROUNDDOWN va) (Suc n) b \<longrightarrow> xlate (kmem st') pgdir b = xlate (kmem st) pgdir b))"
  using assms by (rule mappages_run)

lemma kst2_zero: "PGROUNDDOWN x \<noteq> 0x80200000 \<Longrightarrow> kmem kst2 x = 0"
  using st32_page [of "0x80200000" 0 x] by (simp add: kst2_def page_aligned_def aligned4_def)

lemma kst2_pt: "pt_ok 0x80108000 (kmem kst2) 0x80300000 (set [0x80200000, 0x80201000])"
proof -
  have "pde_of (kmem kst2) 0x80300000 i = 0" if "i < 1024" for i
    using ld32_page [of "0x80300000" "4 * i" "kmem kst2" "\<lambda>_. 0"] entry_offset [OF that] kst2_zero
    by (simp add: pde_of_def page_aligned_def ld32_zero)
  then show ?thesis
    by (intro pt_okI) (simp_all add: page_ok_def page_aligned_def V2P_def present_def)
qed

theorem mappages_spec_witness:
  "\<exists>r st' xs'. mappages 0x80300000 0x1000 0x2000 0x400000 6 kst2 = Ok (r, st') \<and>
    pt_step 0x80108000 0x80300000 kst2 [0x80200000, 0x80201000] st' xs' \<and>
    (r = 0 \<and> map_post 0x1000 (Suc 1) 0x400000 6 (kmem kst2) (kmem st') 0x80300000 \<or>
     r = -1 \<and> (xs' = [] \<and> 0 < absent (kmem st') 0x80300000 \<or> (\<exists>b. in_run 0x1000 (Suc 1) b \<and> xlate (kmem kst2) 0x80300000 b \<noteq> None)) \<and>
       (\<forall>b. \<not> in_run 0x1000 (Suc 1) b \<longrightarrow> xlate (kmem st') 0x80300000 b = xlate (kmem kst2) 0x80300000 b))"
proof -
  have p: "PGROUNDDOWN 0x1000 = 0x1000" by (simp add: PGROUNDDOWN_def)
  show ?thesis
    using mappages_spec [OF kst2_inv kst2_pt, of "0x2000" "0x1000" 1 "0x400000" 6]
    by (simp add: p)
qed

section \<open>Copying to user memory\<close>

text \<open>The kernel address of a user byte: where the processor would write it in user mode.\<close>

definition ukva :: "mem \<Rightarrow> u32 \<Rightarrow> u32 \<Rightarrow> u32 option" where
  "ukva m pgdir va =
     (case xlate m pgdir va of
        Some e \<Rightarrow> if e AND PTE_U = 0 \<or> P2V (PTE_ADDR e) = 0 then None
                  else Some (P2V (PTE_ADDR e) + (va - PGROUNDDOWN va))
      | None \<Rightarrow> None)"

lemma page_aligned_step: "page_aligned a \<Longrightarrow> page_aligned (a + PGSIZE)"
  by (auto simp: page_aligned_uint uint_plus_if' dvd_add dvd_diff)

lemma xlate_page: "PGROUNDDOWN b = PGROUNDDOWN a \<Longrightarrow> xlate m pgdir b = xlate m pgdir a"
  using page_index [of b a] by (simp add: xlate_def)

lemma P2V_aligned: "page_aligned v \<Longrightarrow> page_aligned (P2V v)"
proof -
  assume "page_aligned v"
  then have "4096 dvd uint v + 2 ^ 31" "4096 dvd uint v + 2 ^ 31 - 2 ^ 32"
    by (simp_all add: page_aligned_uint dvd_add dvd_diff)
  then show ?thesis by (simp add: page_aligned_uint P2V_def uint_plus_if')
qed

lemma page_rest: "va - PGROUNDDOWN va < PGSIZE"
  using in_page [OF page_PGROUNDDOWN, of va] by simp

lemma walkpgdir_look:
  "walkpgdir pgdir va False st =
     (if present (pde_of (kmem st) pgdir (PDX va)) then (tab_of (kmem st) pgdir (PDX va) + 4 * PTX va, st) else (0, st))"
  by (simp add: walkpgdir_def pde_of_def tab_of_def Let_def)

lemma uva2ka_ukva:
  assumes ok: "pt_ok kend (kmem st) pgdir F" and u: "ukva (kmem st) pgdir va = Some x"
  shows "\<exists>pa0. uva2ka pgdir (PGROUNDDOWN va) st = Ok pa0 \<and> pa0 \<noteq> 0 \<and> page_aligned pa0 \<and> x = pa0 + (va - PGROUNDDOWN va)"
proof -
  obtain e where e: "xlate (kmem st) pgdir va = Some e" "e AND PTE_U \<noteq> 0" "P2V (PTE_ADDR e) \<noteq> 0"
      "x = P2V (PTE_ADDR e) + (va - PGROUNDDOWN va)"
    using u by (auto simp: ukva_def split: option.splits if_splits)
  have i: "PDX (PGROUNDDOWN va) = PDX va" "PTX (PGROUNDDOWN va) = PTX va" using page_index [of "PGROUNDDOWN va" va] by simp_all
  have p: "present (pde_of (kmem st) pgdir (PDX va))" "ld32 (kmem st) (tab_of (kmem st) pgdir (PDX va) + 4 * PTX va) = e" "present e"
    using e(1) by (auto simp: xlate_def Let_def split: if_splits)
  have "PGROUNDDOWN (tab_of (kmem st) pgdir (PDX va) + 4 * PTX va) \<noteq> 0"
    using pt_ok_tab [OF ok PDX_less p(1)] page_entry [OF _ PTX_less] by simp
  then have nz: "tab_of (kmem st) pgdir (PDX va) + 4 * PTX va \<noteq> 0" by (auto simp: PGROUNDDOWN_def)
  have "uva2ka pgdir (PGROUNDDOWN va) st = Ok (P2V (PTE_ADDR e))"
    using p nz e(2) by (simp add: uva2ka_def walkpgdir_look i present_def)
  then show ?thesis using e P2V_aligned [of "PTE_ADDR e"] by (simp add: PTE_ADDR_eq)
qed

text \<open>The bytes a copy to user memory writes: byte \<open>i\<close> goes to the kernel address of \<open>va + i\<close>.\<close>

definition user_write :: "mem \<Rightarrow> u32 \<Rightarrow> u32 \<Rightarrow> u32 \<Rightarrow> nat \<Rightarrow> mem \<Rightarrow> bool" where
  "user_write m pgdir va p n m' \<longleftrightarrow>
     (\<forall>i<n. \<exists>x. ukva m pgdir (va + of_nat i) = Some x \<and> m' x = m (p + of_nat i)) \<and>
     (\<forall>x. (\<forall>i<n. ukva m pgdir (va + of_nat i) \<noteq> Some x) \<longrightarrow> m' x = m x)"

definition user_ready :: "mem \<Rightarrow> u32 \<Rightarrow> u32 \<Rightarrow> u32 \<Rightarrow> nat \<Rightarrow> bool" where
  "user_ready m pgdir va p n \<longleftrightarrow> uint va + int n \<le> 2 ^ 32 \<and> uint p + int n < 2 ^ 32 \<and>
     (\<forall>i<n. \<exists>x. ukva m pgdir (va + of_nat i) = Some x \<and> PGROUNDDOWN x \<notin> pt_pages m pgdir \<and>
        (\<forall>j<n. x \<noteq> p + of_nat j) \<and> (\<forall>j<n. j \<noteq> i \<longrightarrow> ukva m pgdir (va + of_nat j) \<noteq> Some x))"

lemma ukva_frame:
  assumes ok: "pt_ok kend m pgdir F" and same: "\<And>x. PGROUNDDOWN x \<in> pt_pages m pgdir \<Longrightarrow> m' x = m x"
  shows "ukva m' pgdir va = ukva m pgdir va" "pt_ok kend m' pgdir F" "pt_pages m' pgdir = pt_pages m pgdir"
proof -
  have s: "m' x = m x" if "PGROUNDDOWN x = pgdir" for x using same that by (simp add: pt_pages_def)
  have "xlate m' pgdir va = xlate m pgdir va"
    by (rule xlate_frame [OF ok s]) (auto intro!: same simp: pt_pages_def)
  then show "ukva m' pgdir va = ukva m pgdir va" by (simp add: ukva_def)
  show "pt_ok kend m' pgdir F" by (rule pt_ok_frame(1) [OF ok s])
  show "pt_pages m' pgdir = pt_pages m pgdir" using pt_ok_frame(2,3) [OF ok s]
    unfolding pt_pages_def by (intro arg_cong [of _ _ "insert pgdir"] Collect_cong) metis
qed

lemma user_write_trans:
  assumes w1: "user_write m pgdir va p j m1" and w2: "user_write m1 pgdir (va + of_nat j) (p + of_nat j) k m2"
    and r: "user_ready m pgdir va p (j + k)" and u: "\<And>b. ukva m1 pgdir b = ukva m pgdir b"
  shows "user_write m pgdir va p (j + k) m2"
  unfolding user_write_def
proof (intro conjI allI impI)
  have u2: "ukva m1 pgdir (va + of_nat j + of_nat i) = ukva m pgdir (va + of_nat (j + i))" for i
    using u by (simp add: add.assoc)
  have keep: "m1 (p + of_nat i) = m (p + of_nat i)" if "i < j + k" for i
  proof -
    have "ukva m pgdir (va + of_nat l) \<noteq> Some (p + of_nat i)" if "l < j" for l
      using r that \<open>i < j + k\<close> unfolding user_ready_def by (metis option.inject trans_less_add1)
    then show ?thesis using w1 unfolding user_write_def by blast
  qed
  fix i assume i: "i < j + k"
  obtain x where x: "ukva m pgdir (va + of_nat i) = Some x" "\<And>l. l < j + k \<Longrightarrow> l \<noteq> i \<Longrightarrow> ukva m pgdir (va + of_nat l) \<noteq> Some x"
    using r i unfolding user_ready_def by blast
  show "\<exists>x. ukva m pgdir (va + of_nat i) = Some x \<and> m2 x = m (p + of_nat i)"
  proof (cases "i < j")
    case True
    have "m1 x = m (p + of_nat i)" using w1 True x(1) unfolding user_write_def by (metis option.inject)
    moreover have "m2 x = m1 x"
    proof -
      have "ukva m1 pgdir (va + of_nat j + of_nat l) \<noteq> Some x" if "l < k" for l
        using x(2) [of "j + l"] that True u2 by simp
      then show ?thesis using w2 unfolding user_write_def by blast
    qed
    ultimately show ?thesis using x(1) by simp
  next
    case False
    then have "i - j < k" "j + (i - j) = i" using i by auto
    then obtain y where "ukva m pgdir (va + of_nat i) = Some y" "m2 y = m1 (p + of_nat i)"
      using w2 u2 [of "i - j"] unfolding user_write_def by (metis add.assoc of_nat_add)
    then show ?thesis using keep [OF i] by simp
  qed
next
  fix x assume x: "\<forall>i<j + k. ukva m pgdir (va + of_nat i) \<noteq> Some x"
  have "ukva m1 pgdir (va + of_nat j + of_nat l) \<noteq> Some x" if "l < k" for l
    using x that u by (simp add: add.assoc flip: of_nat_add)
  then have "m2 x = m1 x" using w2 unfolding user_write_def by blast
  moreover have "m1 x = m x" using w1 x unfolding user_write_def by (meson trans_less_add1)
  ultimately show "m2 x = m x" by simp
qed

lemma user_readyE:
  assumes "user_ready m pgdir va p n" "i < n"
  obtains x where "ukva m pgdir (va + of_nat i) = Some x" "PGROUNDDOWN x \<notin> pt_pages m pgdir"
    "\<And>l. l < n \<Longrightarrow> x \<noteq> p + of_nat l" "\<And>l. l < n \<Longrightarrow> l \<noteq> i \<Longrightarrow> ukva m pgdir (va + of_nat l) \<noteq> Some x"
proof -
  have "\<exists>x. ukva m pgdir (va + of_nat i) = Some x \<and> PGROUNDDOWN x \<notin> pt_pages m pgdir \<and>
        (\<forall>j<n. x \<noteq> p + of_nat j) \<and> (\<forall>j<n. j \<noteq> i \<longrightarrow> ukva m pgdir (va + of_nat j) \<noteq> Some x)"
    using assms unfolding user_ready_def by simp
  then show ?thesis using that by blast
qed

lemma user_ready_suffix:
  assumes r: "user_ready m pgdir va p (j + k)" and u: "\<And>b. ukva m' pgdir b = ukva m pgdir b"
    and pg: "pt_pages m' pgdir = pt_pages m pgdir"
  shows "user_ready m' pgdir (va + of_nat j) (p + of_nat j) k"
proof -
  have b: "uint va + int j + int k \<le> 2 ^ 32" "uint p + int j + int k < 2 ^ 32" using r by (auto simp: user_ready_def)
  have "uint (va + of_nat j) + int k \<le> 2 ^ 32"
  proof (cases "uint va + int j < 2 ^ 32")
    case True
    then show ?thesis using b(1) uint_add_to_uint [of "int j" va] by (simp add: to_uint_def)
  next
    case False
    then show ?thesis using b(1) uint_lt2p [of "va + of_nat j"] by simp
  qed
  moreover have "uint (p + of_nat j) + int k < 2 ^ 32"
    using b(2) uint_add_to_uint [of "int j" p] by (simp add: to_uint_def)
  moreover have "\<exists>x. ukva m' pgdir (va + of_nat j + of_nat i) = Some x \<and> PGROUNDDOWN x \<notin> pt_pages m' pgdir \<and>
        (\<forall>l<k. x \<noteq> p + of_nat j + of_nat l) \<and> (\<forall>l<k. l \<noteq> i \<longrightarrow> ukva m' pgdir (va + of_nat j + of_nat l) \<noteq> Some x)"
    if "i < k" for i
  proof -
    have ji: "j + i < j + k" using that by simp
    obtain x where x: "ukva m pgdir (va + of_nat (j + i)) = Some x" "PGROUNDDOWN x \<notin> pt_pages m pgdir"
        "\<And>l. l < j + k \<Longrightarrow> x \<noteq> p + of_nat l" "\<And>l. l < j + k \<Longrightarrow> l \<noteq> j + i \<Longrightarrow> ukva m pgdir (va + of_nat l) \<noteq> Some x"
      by (fact user_readyE [OF r ji])
    have "x \<noteq> p + of_nat j + of_nat l" "l \<noteq> i \<Longrightarrow> ukva m' pgdir (va + of_nat j + of_nat l) \<noteq> Some x" if "l < k" for l
      using x(3) [of "j + l"] x(4) [of "j + l"] that u by (auto simp: add.assoc)
    then show ?thesis using x(1,2) pg u by (auto simp: add.assoc)
  qed
  ultimately show ?thesis unfolding user_ready_def by blast
qed

text \<open>One round of the loop: up to the end of the page.\<close>

lemma copyout_round:
  assumes ok: "pt_ok kend (kmem st) pgdir F" and r: "user_ready (kmem st) pgdir va p (unat len)" and len: "0 < len"
    and n: "n = (if PGSIZE - (va - PGROUNDDOWN va) > len then len else PGSIZE - (va - PGROUNDDOWN va))"
  obtains pa0 where "uva2ka pgdir (PGROUNDDOWN va) st = Ok pa0" "pa0 \<noteq> 0"
    "user_write (kmem st) pgdir va p (unat n) (memmove (kmem st) (pa0 + (va - PGROUNDDOWN va)) p n)"
proof -
  let ?off = "va - PGROUNDDOWN va" and ?m = "kmem st"
  have off: "uint ?off < 4096" using page_rest [of va] by (simp add: word_less_def)
  have rest: "uint (PGSIZE - ?off) = 4096 - uint ?off" using off by (simp add: uint_sub_if')
  have nl: "n \<le> len" "uint n + uint ?off \<le> 4096" using n rest by (auto simp: word_less_def word_le_def)
  have ul: "unat n \<le> unat len" using nl(1) by (simp add: word_le_nat_alt)
  have "0 < unat len" using len by (simp add: word_less_nat_alt)
  then obtain x0 where x0: "ukva ?m pgdir va = Some x0" using r unfolding user_ready_def by fastforce
  obtain pa0 where pa0: "uva2ka pgdir (PGROUNDDOWN va) st = Ok pa0" "pa0 \<noteq> 0" "page_aligned pa0" "x0 = pa0 + ?off"
    using uva2ka_ukva [OF ok x0] by blast
  have i: "uint (of_nat i :: u32) = int i" "PGROUNDDOWN (va + of_nat i) = PGROUNDDOWN va"
      "ukva ?m pgdir (va + of_nat i) = Some (pa0 + ?off + of_nat i)" if "i < unat n" for i
  proof -
    have ni: "int i < uint n" using that by (simp add: less_unat)
    then show u: "uint (of_nat i :: u32) = int i" using uint_to_uint [of "int i"] uint_lt2p [of n] by (simp add: to_uint_def)
    have "uint (?off + of_nat i) = uint ?off + int i" using u ni nl(2) by (subst uint_plus_if') simp
    then have "?off + of_nat i < PGSIZE" using ni nl(2) by (simp add: word_less_def)
    then show pg: "PGROUNDDOWN (va + of_nat i) = PGROUNDDOWN va"
      using in_page [OF page_PGROUNDDOWN, of "va + of_nat i" va] by (simp add: algebra_simps)
    then show "ukva ?m pgdir (va + of_nat i) = Some (pa0 + ?off + of_nat i)"
      using x0 pa0(4) xlate_page [OF pg, of ?m pgdir] by (auto simp: ukva_def split: option.splits if_splits)
  qed
  have dst: "uint (pa0 + ?off) + uint n \<le> 2 ^ 32"
  proof -
    have "uint (pa0 + ?off) = uint pa0 + uint ?off" using page_aligned_bound [OF pa0(3)] off by (subst uint_plus_if') simp
    then show ?thesis using nl(2) page_aligned_bound [OF pa0(3)] by simp
  qed
  have "uint n \<le> uint len" using nl(1) by (simp add: word_le_def)
  moreover have "uint p + int (unat len) < 2 ^ 32" using r by (simp add: user_ready_def)
  ultimately have src: "uint p + uint n < 2 ^ 32" by simp
  have mm: "memmove ?m (pa0 + ?off) p n = (\<lambda>x. if x - (pa0 + ?off) < n then ?m (p + (x - (pa0 + ?off))) else ?m x)"
    by (rule memmove_value [OF src dst])
  have "user_write ?m pgdir va p (unat n) (memmove ?m (pa0 + ?off) p n)"
    unfolding user_write_def mm
  proof (intro conjI allI impI)
    fix l assume l: "l < unat n"
    then have "of_nat l < n" using i(1) [OF l] by (simp add: word_less_def less_unat)
    then show "\<exists>x. ukva ?m pgdir (va + of_nat l) = Some x \<and>
        (if x - (pa0 + ?off) < n then ?m (p + (x - (pa0 + ?off))) else ?m x) = ?m (p + of_nat l)"
      using i(3) [OF l] by simp
  next
    fix x assume x: "\<forall>l<unat n. ukva ?m pgdir (va + of_nat l) \<noteq> Some x"
    have "\<not> x - (pa0 + ?off) < n"
    proof
      assume "x - (pa0 + ?off) < n"
      then have d: "unat (x - (pa0 + ?off)) < unat n" by (simp add: word_less_nat_alt)
      have "pa0 + ?off + of_nat (unat (x - (pa0 + ?off))) = x" by simp
      then show False using x d i(3) [OF d] by metis
    qed
    then show "(if x - (pa0 + ?off) < n then ?m (p + (x - (pa0 + ?off))) else ?m x) = ?m x" by simp
  qed
  then show ?thesis using that pa0(1,2) by blast
qed

lemma copyout_loop_spec:
  assumes "pt_ok kend (kmem st) pgdir F" "user_ready (kmem st) pgdir va p (unat len)"
    and "unat len + unat (va - PGROUNDDOWN va) < k * 4096"
  shows "\<exists>st'. copyout_loop (Suc k) pgdir va p len st = Ok (0, st') \<and>
    user_write (kmem st) pgdir va p (unat len) (kmem st') \<and> freelist st' = freelist st"
  using assms
proof (induction k arbitrary: va p len st)
  case (Suc k)
  let ?m = "kmem st" and ?off = "va - PGROUNDDOWN va"
  show ?case
  proof (cases "len = 0")
    case True
    then show ?thesis by (simp add: user_write_def)
  next
    case False
    then have pos: "0 < len" by (simp add: word_neq_0_conv)
    define n where "n = (if PGSIZE - ?off > len then len else PGSIZE - ?off)"
    obtain pa0 where pa0: "uva2ka pgdir (PGROUNDDOWN va) st = Ok pa0" "pa0 \<noteq> 0"
        "user_write ?m pgdir va p (unat n) (memmove ?m (pa0 + ?off) p n)"
      by (rule copyout_round [OF Suc.prems(1,2) pos n_def])
    let ?st = "st\<lparr>kmem := memmove ?m (pa0 + ?off) p n\<rparr>"
    have off: "uint ?off < 4096" using page_rest [of va] by (simp add: word_less_def)
    have rest: "uint (PGSIZE - ?off) = 4096 - uint ?off" using off by (simp add: uint_sub_if')
    have nl: "uint n \<le> uint len" "uint n = uint len \<or> uint n = 4096 - uint ?off" "0 < uint n"
      using n_def rest pos off by (auto simp: word_less_def)
    have "n \<le> len" using nl(1) by (simp add: word_le_def)
    then have ln: "unat n \<le> unat len" "unat (len - n) = unat len - unat n"
      by (simp add: word_le_nat_alt, rule unat_sub)
    have same: "memmove ?m (pa0 + ?off) p n x = ?m x" if "PGROUNDDOWN x \<in> pt_pages ?m pgdir" for x
    proof -
      have "ukva ?m pgdir (va + of_nat i) \<noteq> Some x" if "i < unat n" for i
        using user_readyE [OF Suc.prems(2), of i] that ln(1) \<open>PGROUNDDOWN x \<in> _\<close>
        by (metis option.inject order_less_le_trans)
      then show ?thesis using pa0(3) unfolding user_write_def by blast
    qed
    note fr = ukva_frame [OF Suc.prems(1) same]
    have run: "copyout_loop (Suc (Suc k)) pgdir va p len st = copyout_loop (Suc k) pgdir (PGROUNDDOWN va + PGSIZE) (p + n) (len - n) ?st"
      using pos pa0(1,2) by (simp add: n_def Let_def)
    show ?thesis
    proof (cases "n = len")
      case True
      then show ?thesis using pa0(3) run by auto
    next
      case False
      then have n: "uint n = 4096 - uint ?off" using nl(2) by (simp add: word_uint_eq_iff)
      then have "n = PGSIZE - ?off" using rest by (simp add: word_uint_eq_iff)
      then have va: "PGROUNDDOWN va + PGSIZE = va + of_nat (unat n)" by simp
      have al: "PGROUNDDOWN (PGROUNDDOWN va + PGSIZE) = PGROUNDDOWN va + PGSIZE"
        by (intro PGROUNDDOWN_aligned page_aligned_step page_PGROUNDDOWN)
      have len: "unat len = unat n + unat (len - n)" using ln by simp
      have "user_ready (kmem ?st) pgdir (va + of_nat (unat n)) (p + of_nat (unat n)) (unat (len - n))"
        using Suc.prems(2) fr(1,3) unfolding len by (intro user_ready_suffix) simp_all
      moreover have "unat (len - n) < k * 4096"
        using Suc.prems(3) len n off by (simp flip: nat_uint_eq)
      ultimately obtain st' where st': "copyout_loop (Suc k) pgdir (PGROUNDDOWN va + PGSIZE) (p + n) (len - n) ?st = Ok (0, st')"
          "user_write (kmem ?st) pgdir (va + of_nat (unat n)) (p + of_nat (unat n)) (unat (len - n)) (kmem st')" "freelist st' = freelist ?st"
        using Suc.IH [of ?st "va + of_nat (unat n)" "p + n" "len - n"] fr(2) va al by auto
      have "user_write ?m pgdir va p (unat n + unat (len - n)) (kmem st')"
        by (rule user_write_trans [OF pa0(3)]) (use st'(2) Suc.prems(2) fr(1) len in simp_all)
      then show ?thesis using run st'(1,3) len by simp
    qed
  qed
qed (auto simp: user_write_def)

text \<open>
  C15. \<open>copyout\<close> writes the \<open>len\<close> bytes at \<open>p\<close> to the user addresses from \<open>va\<close> on, page by page through
  the given page directory: byte \<open>i\<close> ends up at the physical byte that \<open>va + i\<close> translates to, every
  other byte of memory is unchanged, and it returns 0. This holds when the range is mapped for the
  user, to bytes that are pairwise different and belong neither to the page tables nor to the source.
\<close>

theorem copyout_writes:
  assumes "pt_ok kend (kmem st) pgdir F" "user_ready (kmem st) pgdir va p (unat len)"
  shows "\<exists>st'. copyout pgdir va p len st = Ok (0, st') \<and> user_write (kmem st) pgdir va p (unat len) (kmem st') \<and>
    freelist st' = freelist st"
proof -
  have "uint (va - PGROUNDDOWN va) < 4096" using page_rest [of va] by (simp add: word_less_def)
  then have "unat (va - PGROUNDDOWN va) < 4096" by (simp flip: nat_uint_eq)
  moreover have "unat len < Suc (unat len div 4096) * 4096"
    using div_mult_mod_eq [of "unat len" 4096] mod_less_divisor [of 4096 "unat len"] by simp
  ultimately have "unat len + unat (va - PGROUNDDOWN va) < Suc (Suc (unat len div 4096)) * 4096" by simp
  from copyout_loop_spec [OF assms this] show ?thesis by (simp add: copyout_def)
qed

text \<open>An address space with one user page at \<open>0x1000\<close>.\<close>

definition kst_user :: kst where
  "kst_user = kst0\<lparr>kmem := st32 (st32 (\<lambda>_. 0) 0x80300000 0x301007) 0x80301004 0x400007\<rparr>"

lemma user_pde: "i < 1024 \<Longrightarrow> pde_of (kmem kst_user) 0x80300000 i = (if i = 0 then 0x301007 else 0)"
proof -
  assume i: "i < 1024"
  have al: "page_aligned 0x80300000" "page_aligned 0x80301000" by (simp_all add: page_aligned_def)
  have "ld32 (kmem kst_user) (0x80300000 + 4 * i) = ld32 (st32 (\<lambda>_. 0) 0x80300000 0x301007) (0x80300000 + 4 * i)"
  proof (rule ld32_page [OF al(1) entry_offset [OF i]])
    fix x assume "PGROUNDDOWN x = 0x80300000"
    then show "kmem kst_user x = st32 (\<lambda>_. 0) 0x80300000 0x301007 x"
      using st32_page [OF al(2), of 4 x] by (simp add: kst_user_def aligned4_def)
  qed
  moreover have "ld32 (st32 (\<lambda>_. 0) 0x80300000 0x301007) (0x80300000 + 4 * i) = 0" if "i \<noteq> 0"
  proof -
    have "0x80300000 + 4 * 0 \<noteq> 0x80300000 + 4 * i" using entry_inj [of 0 i] i that by auto
    then show ?thesis
      using ld32_st32_other [OF page_aligned_4 [OF al(1)] entry_aligned [OF al(1) i], of "\<lambda>_. 0" "0x301007"]
      by (simp add: ld32_zero)
  qed
  ultimately show ?thesis by (auto simp: pde_of_def)
qed

lemma user_index: "PDX 0x1000 = 0" "PTX 0x1000 = 1" "P2V (PTE_ADDR 0x301007) = 0x80301000" "P2V (PTE_ADDR 0x400007) = 0x80400000"
  "present 0x301007" "present 0x400007" "\<not> present 0" "PGROUNDDOWN 0x1000 = 0x1000" "PGROUNDDOWN 0x1001 = 0x1000"
  by code_simp+

lemma user_tab: "tab_of (kmem kst_user) 0x80300000 0 = 0x80301000"
  by (simp add: tab_of_def user_pde user_index)

lemma user_pt_ok: "pt_ok 0x80108000 (kmem kst_user) 0x80300000 {}"
proof (rule pt_okI)
  fix i :: u32 assume i: "i < 1024" "present (pde_of (kmem kst_user) 0x80300000 i)"
  then have "i = 0" using user_pde [OF i(1)] user_index by (auto split: if_splits)
  then show "page_ok 0x80108000 (tab_of (kmem kst_user) 0x80300000 i) \<and> tab_of (kmem kst_user) 0x80300000 i \<noteq> 0x80300000 \<and>
      tab_of (kmem kst_user) 0x80300000 i \<notin> {}"
    by (simp add: user_tab page_ok_def page_aligned_def V2P_def)
next
  fix i j :: u32 assume h: "i < 1024" "j < 1024" "present (pde_of (kmem kst_user) 0x80300000 i)"
    "present (pde_of (kmem kst_user) 0x80300000 j)" "i \<noteq> j"
  then have "i = 0" "j = 0" using user_pde [OF h(1)] user_pde [OF h(2)] user_index by (auto split: if_splits)
  then show "tab_of (kmem kst_user) 0x80300000 i \<noteq> tab_of (kmem kst_user) 0x80300000 j" using h(5) by simp
qed (simp_all add: page_ok_def page_aligned_def V2P_def)

lemma user_pages: "pt_pages (kmem kst_user) 0x80300000 \<subseteq> {0x80300000, 0x80301000}"
proof
  fix x assume "x \<in> pt_pages (kmem kst_user) 0x80300000"
  then consider "x = 0x80300000" | i where "x = tab_of (kmem kst_user) 0x80300000 i" "i < 1024" "present (pde_of (kmem kst_user) 0x80300000 i)"
    by (auto simp: pt_pages_def)
  then show "x \<in> {0x80300000, 0x80301000}"
  proof cases
    case 2
    then have "i = 0" using user_pde [OF 2(2)] user_index by (auto split: if_splits)
    then show ?thesis using 2(1) user_tab by simp
  qed simp
qed

lemma user_ukva: "ukva (kmem kst_user) 0x80300000 0x1000 = Some 0x80400000" "ukva (kmem kst_user) 0x80300000 0x1001 = Some 0x80400001"
proof -
  have "ld32 (kmem kst_user) 0x80301004 = 0x400007" by (simp add: kst_user_def)
  then have x: "xlate (kmem kst_user) 0x80300000 0x1000 = Some 0x400007"
    by (simp add: xlate_def user_index user_pde user_tab)
  then show "ukva (kmem kst_user) 0x80300000 0x1000 = Some 0x80400000" by (simp add: ukva_def user_index)
  have "xlate (kmem kst_user) 0x80300000 0x1001 = Some 0x400007"
    using x xlate_page [of "0x1001" "0x1000"] user_index by simp
  then show "ukva (kmem kst_user) 0x80300000 0x1001 = Some 0x80400001" by (simp add: ukva_def user_index)
qed

lemma user_demo_ready: "user_ready (kmem kst_user) 0x80300000 0x1000 0x80500000 (unat (2 :: u32))"
proof -
  have p: "PGROUNDDOWN 0x80400000 = 0x80400000" "PGROUNDDOWN 0x80400001 = 0x80400000" by code_simp+
  have lt: "i < unat (2 :: u32) \<longleftrightarrow> i = 0 \<or> i = 1" for i by auto
  show ?thesis
    unfolding user_ready_def lt using user_pages by (auto simp: user_ukva p)
qed

theorem copyout_writes_witness:
  "\<exists>st'. copyout 0x80300000 0x1000 0x80500000 2 kst_user = Ok (0, st') \<and>
    user_write (kmem kst_user) 0x80300000 0x1000 0x80500000 (unat (2 :: u32)) (kmem st') \<and> freelist st' = 0"
  using copyout_writes [OF user_pt_ok user_demo_ready] by (simp add: kst_user_def kst0_def)

end
