(* ===== verification/VmCopy.thy ===== *)
theory VmCopy
  imports VmTable
begin

text \<open>
  Copying an address space (vm.c): \<open>setupkvm\<close> makes a directory that maps nothing below \<open>KERNBASE\<close>, and
  \<open>copyuvm\<close> gives the child the parent's bytes in frames of its own.
\<close>

section \<open>Looking up an entry\<close>

lemma loaded_walk:
  assumes "pt_ok kend (kmem k) pgdir F" "xlate (kmem k) pgdir a = Some e"
  shows "fst (walkpgdir pgdir a False k) \<noteq> 0" "ld32 (kmem k) (fst (walkpgdir pgdir a False k)) = e"
    "fst (walkpgdir pgdir a False k) = tab_of (kmem k) pgdir (PDX a) + 4 * PTX a" "present (pde_of (kmem k) pgdir (PDX a))"
proof -
  have p: "present (pde_of (kmem k) pgdir (PDX a))" "ld32 (kmem k) (tab_of (kmem k) pgdir (PDX a) + 4 * PTX a) = e"
    using assms(2) by (auto simp: xlate_def Let_def split: if_splits)
  have "PGROUNDDOWN (tab_of (kmem k) pgdir (PDX a) + 4 * PTX a) \<noteq> 0"
    using pt_ok_tab [OF assms(1) PDX_less p(1)] page_entry [OF _ PTX_less] by simp
  then show "fst (walkpgdir pgdir a False k) \<noteq> 0" using p by (auto simp: walkpgdir_look PGROUNDDOWN_def)
  show "ld32 (kmem k) (fst (walkpgdir pgdir a False k)) = e" "fst (walkpgdir pgdir a False k) = tab_of (kmem k) pgdir (PDX a) + 4 * PTX a"
    "present (pde_of (kmem k) pgdir (PDX a))" using p by (simp_all add: walkpgdir_look)
qed

section \<open>A fresh directory\<close>

lemma card_entries: "card {i :: u32. i < 1024} = 1024"
proof -
  have u: "unat (of_nat k :: u32) = k" if "k < 1024" for k using that by (simp add: unat_of_nat take_bit_nat_eq_self)
  have "{i :: u32. i < 1024} = of_nat ` {..<1024}"
  proof safe
    fix i :: u32 assume "i < 1024"
    then have "unat i < 1024" by (simp add: word_less_nat_alt)
    then show "i \<in> of_nat ` {..<1024}" by (intro image_eqI [of _ _ "unat i"]) simp_all
  qed (use u in \<open>auto simp: word_less_nat_alt\<close>)
  moreover have "inj_on (of_nat :: nat \<Rightarrow> u32) {..<1024}" by (rule inj_onI) (metis u lessThan_iff)
  ultimately show ?thesis by (simp add: card_image)
qed

lemma fresh_pgdir:
  assumes inv: "kinv kend st xs" and d: "kalloc st = (d, k)" "d \<noteq> 0"
  shows "\<exists>ys. xs = d # ys \<and> kinv kend (k\<lparr>kmem := memset (kmem k) d 0 PGSIZE\<rparr>) ys \<and>
    pt_ok kend (memset (kmem k) d 0 PGSIZE) d (set ys) \<and> pt_pages (memset (kmem k) d 0 PGSIZE) d = {d} \<and>
    absent (memset (kmem k) d 0 PGSIZE) d = 1024 \<and>
    (\<forall>b. xlate (memset (kmem k) d 0 PGSIZE) d b = None) \<and>
    (\<forall>x. PGROUNDDOWN x \<noteq> d \<longrightarrow> memset (kmem k) d 0 PGSIZE x = kmem st x)"
proof -
  obtain ys where xs: "xs = d # ys" using inv d kalloc_Nil [of kend st] kalloc_Cons [of kend st] by (cases xs) auto
  have k: "kinv kend k ys" "kmem k = kmem st" using kalloc_Cons [of kend st d ys] inv d xs by auto
  have dd: "page_ok kend d" "d \<notin> set ys" using inv xs by (auto simp: kinv_def)
  then have al: "page_aligned d" by (simp add: page_ok_def)
  let ?m = "memset (kmem k) d 0 PGSIZE"
  have m: "?m x = (if PGROUNDDOWN x = d then 0 else kmem st x)" for x
    using in_page [OF al, of x] k(2) by (simp add: memset_value)
  have z: "pde_of ?m d i = 0" if "i < 1024" for i
  proof -
    have "ld32 ?m (d + 4 * i) = ld32 (\<lambda>_. 0) (d + 4 * i)"
      using m entry_offset [OF that] by (intro ld32_page [OF al]) auto
    then show ?thesis by (simp add: pde_of_def ld32_zero)
  qed
  have "pt_ok kend ?m d (set ys)" using dd z by (intro pt_okI) (auto simp: present_def)
  moreover have "pt_pages ?m d = {d}" using z by (auto simp: pt_pages_def present_def)
  moreover have "absent ?m d = 1024"
  proof -
    have "{i. i < 1024 \<and> \<not> present (pde_of ?m d i)} = {i. i < 1024}" using z by (auto simp: present_def)
    then show ?thesis by (simp add: absent_def card_entries)
  qed
  moreover have "xlate ?m d b = None" for b using z [OF PDX_less] by (simp add: xlate_def present_def)
  moreover have "kinv kend (k\<lparr>kmem := ?m\<rparr>) ys" using m dd(2) k(2) by (intro kinv_frame [OF k(1)]) auto
  ultimately show ?thesis using xs m by auto
qed

lemma kernel_run:
  assumes "KERNBASE \<le> virt" "uint (PGROUNDDOWN virt) + int (Suc n) * 4096 \<le> 2 ^ 32" "b < KERNBASE"
  shows "\<not> in_run (PGROUNDDOWN virt) (Suc n) b"
proof -
  have v: "2 ^ 31 \<le> uint (PGROUNDDOWN virt)"
  proof -
    have "2 ^ 31 \<le> uint virt" using assms(1) by (simp add: word_le_def)
    then have "2 ^ 31 div 4096 \<le> uint virt div 4096" by (rule zdiv_mono1) simp
    then show ?thesis by (simp add: uint_PGROUNDDOWN minus_mod_eq_mult_div)
  qed
  have b: "uint (PGROUNDDOWN b) < 2 ^ 31"
    using assms(3) pos_mod_sign [of 4096 "uint b"] by (simp add: uint_PGROUNDDOWN word_less_def)
  have "uint (PGROUNDDOWN b - PGROUNDDOWN virt) = uint (PGROUNDDOWN b) - uint (PGROUNDDOWN virt) + 2 ^ 32"
    using v b by (simp add: uint_sub_if')
  then have "int (Suc n) * 4096 \<le> uint (PGROUNDDOWN b - PGROUNDDOWN virt)" using assms(2) uint_ge_0 [of "PGROUNDDOWN b"] by linarith
  then have "int (Suc n * 4096) \<le> int (unat (PGROUNDDOWN b - PGROUNDDOWN virt))" by simp
  then show ?thesis unfolding in_run_def by (simp only: of_nat_le_iff not_less)
qed

lemma mappages_kernel:
  assumes inv: "kinv kend st xs" "pt_ok kend (kmem st) d (set xs)"
    and sz: "0 < sz" "uint virt + uint sz \<le> 2 ^ 32" "KERNBASE \<le> virt"
    and r: "mappages d virt sz pa perm st = Ok (r, st')"
  shows "\<exists>xs'. pt_step kend d st xs st' xs' \<and> (\<forall>b < KERNBASE. xlate (kmem st') d b = xlate (kmem st) d b)"
proof -
  define n where "n = nat ((uint virt + uint sz - 1) div 4096 - uint virt div 4096)"
  obtain xs' where s: "pt_step kend d st xs st' xs'" and
    c: "r = 0 \<and> map_post (PGROUNDDOWN virt) (Suc n) pa perm (kmem st) (kmem st') d \<or>
      (\<forall>b. \<not> in_run (PGROUNDDOWN virt) (Suc n) b \<longrightarrow> xlate (kmem st') d b = xlate (kmem st) d b)"
    using mappages_run [OF inv sz(1,2) n_def, of pa perm] r by auto
  have "0 < uint sz" using sz(1) by (simp add: word_less_def)
  then have "uint virt div 4096 \<le> (uint virt + uint sz - 1) div 4096" by (intro zdiv_mono1) auto
  then have nn: "int n = (uint virt + uint sz - 1) div 4096 - uint virt div 4096" by (simp add: n_def)
  have "(uint virt + uint sz - 1) div 4096 \<le> (2 ^ 32 - 1) div 4096" using sz(2) by (intro zdiv_mono1) auto
  then have "uint (PGROUNDDOWN virt) + int (Suc n) * 4096 \<le> 2 ^ 32"
    using nn by (simp add: uint_PGROUNDDOWN minus_mod_eq_mult_div)
  then have "xlate (kmem st') d b = xlate (kmem st) d b" if "b < KERNBASE" for b
    using kernel_run [OF sz(3) _ that] c by (auto simp: map_post_def)
  then show ?thesis using s by blast
qed

lemma kmap_loop_spec:
  assumes "kinv kend st xs" "pt_ok kend (kmem st) d (set xs)"
    and "\<forall>(virt, ps, pe, perm) \<in> set ks. 0 < pe - ps \<and> uint virt + uint (pe - ps) \<le> 2 ^ 32 \<and> KERNBASE \<le> virt"
    and "kmap_loop ks kend d st = Ok (r, st')" "r \<noteq> 0"
  shows "r = d \<and> (\<exists>xs'. pt_step kend d st xs st' xs') \<and> (\<forall>b < KERNBASE. xlate (kmem st') d b = xlate (kmem st) d b)"
  using assms
proof (induction ks arbitrary: st xs)
  case Nil
  then show ?case using pt_step_refl [of kend st xs d] by auto
next
  case (Cons x ks)
  obtain virt ps pe perm where x: "x = (virt, ps, pe, perm)" by (metis prod_cases4)
  obtain q st1 where q: "mappages d virt (pe - ps) ps perm st = Ok (q, st1)" and
    c: "(if q < 0 then obind (freevm kend d st1) (\<lambda>st. Ok (0, st)) else kmap_loop ks kend d st1) = Ok (r, st')"
    using Cons.prems(4) by (auto simp: x obind_eq_Ok)
  have "\<not> q < 0" using c Cons.prems(5) by (auto simp: obind_eq_Ok split: if_splits)
  then have l: "kmap_loop ks kend d st1 = Ok (r, st')" using c by simp
  obtain xs1 where s1: "pt_step kend d st xs st1 xs1" and b1: "\<forall>b < KERNBASE. xlate (kmem st1) d b = xlate (kmem st) d b"
    using mappages_kernel [OF Cons.prems(1,2) _ _ _ q] Cons.prems(3) by (auto simp: x)
  have "kinv kend st1 xs1" "pt_ok kend (kmem st1) d (set xs1)" using s1 by (simp_all add: pt_step_def)
  then show ?case using Cons.IH [of st1 xs1] Cons.prems(3,5) l b1 pt_step_trans [OF s1] by (auto simp: x)
qed

lemma setupkvm_spec:
  assumes inv: "kinv kend st xs" and kd: "KERNLINK < kdata" "kdata < P2V PHYSTOP"
    and r: "setupkvm kend kdata st = Ok (d, st')" "d \<noteq> 0"
  shows "\<exists>xs'. kinv kend st' xs' \<and> pt_ok kend (kmem st') d (set xs') \<and> set xs' \<subseteq> set xs \<and>
    length xs' + 1025 = length xs + absent (kmem st') d \<and> pt_pages (kmem st') d \<subseteq> set xs - set xs' \<and> (\<forall>b < KERNBASE. xlate (kmem st') d b = None) \<and>
    (\<forall>x. PGROUNDDOWN x \<notin> set xs - set xs' \<longrightarrow> kmem st' x = kmem st x)"
proof -
  obtain p k where k: "kalloc st = (p, k)" by fastforce
  have p: "p \<noteq> 0" and l: "kmap_loop (kmap kdata) kend p (k\<lparr>kmem := memset (kmem k) p 0 PGSIZE\<rparr>) = Ok (d, st')"
    using r k by (auto simp: setupkvm_def Let_def split: if_splits)
  let ?k = "k\<lparr>kmem := memset (kmem k) p 0 PGSIZE\<rparr>"
  obtain ys where ys: "xs = p # ys" "kinv kend ?k ys" "pt_ok kend (kmem ?k) p (set ys)" "pt_pages (kmem ?k) p = {p}"
    "absent (kmem ?k) p = 1024" "\<forall>b. xlate (kmem ?k) p b = None" "\<forall>x. PGROUNDDOWN x \<noteq> p \<longrightarrow> kmem ?k x = kmem st x"
    using fresh_pgdir [OF inv k p] by auto
  have u: "uint kdata < 0x8E000000" "0x80100000 < uint kdata" using kd by (simp_all add: word_less_def P2V_def)
  have ok: "\<forall>(virt, ps, pe, perm) \<in> set (kmap kdata). 0 < pe - ps \<and> uint virt + uint (pe - ps) \<le> 2 ^ 32 \<and> KERNBASE \<le> virt"
    using u by (auto simp: kmap_def V2P_def word_less_def word_le_def uint_sub_if')
  obtain xs' where "d = p" and s: "pt_step kend p ?k ys st' xs'" and b: "\<forall>b < KERNBASE. xlate (kmem st') p b = xlate (kmem ?k) p b"
    using kmap_loop_spec [OF ys(2,3) ok l r(2)] by blast
  have "p \<notin> set ys" using inv ys(1) by (simp add: kinv_def)
  moreover have "set xs' \<subseteq> set ys" "pt_pages (kmem st') p \<subseteq> insert p (set ys - set xs')"
    "\<forall>x. PGROUNDDOWN x \<notin> insert p (set ys - set xs') \<longrightarrow> kmem st' x = kmem ?k x"
    using s ys(4) by (simp_all add: pt_step_def)
  ultimately show ?thesis using s b ys \<open>d = p\<close> by (intro exI [of _ xs']) (auto simp: pt_step_def)
qed

section \<open>Copying the pages\<close>

text \<open>The pages that make up the parent: its page tables and its frames below \<open>sz\<close>.\<close>

definition own_pages :: "mem \<Rightarrow> u32 \<Rightarrow> u32 \<Rightarrow> u32 set" where
  "own_pages m pgdir sz = pt_pages m pgdir \<union> {P2V (PTE_ADDR e) |va e. va < sz \<and> xlate m pgdir va = Some e}"

text \<open>The page of \<open>va\<close> in the child: same permissions and same bytes, in a frame outside \<open>A\<close>.\<close>

definition page_copied :: "mem \<Rightarrow> u32 \<Rightarrow> mem \<Rightarrow> u32 \<Rightarrow> u32 set \<Rightarrow> u32 \<Rightarrow> bool" where
  "page_copied m0 pgdir m d A va \<longleftrightarrow> (\<exists>e e'. xlate m0 pgdir va = Some e \<and> xlate m d va = Some e' \<and> PTE_FLAGS e' = PTE_FLAGS e \<and>
     page_aligned (P2V (PTE_ADDR e')) \<and> P2V (PTE_ADDR e') \<notin> A \<and>
     (\<forall>k < PGSIZE. m (P2V (PTE_ADDR e') + k) = m0 (P2V (PTE_ADDR e) + k)))"

definition copy_inv :: "u32 \<Rightarrow> mem \<Rightarrow> u32 \<Rightarrow> u32 \<Rightarrow> u32 \<Rightarrow> u32 \<Rightarrow> kst \<Rightarrow> u32 list \<Rightarrow> bool" where
  "copy_inv kend m0 pgdir sz d i st xs \<longleftrightarrow>
     kinv kend st xs \<and> pt_ok kend (kmem st) d (set xs) \<and> page_aligned i \<and>
     own_pages m0 pgdir sz \<inter> (set xs \<union> pt_pages (kmem st) d) = {} \<and>
     (\<forall>x. PGROUNDDOWN x \<in> own_pages m0 pgdir sz \<longrightarrow> kmem st x = m0 x) \<and>
     (\<forall>va < sz. va < i \<longrightarrow> page_copied m0 pgdir (kmem st) d (own_pages m0 pgdir sz \<union> set xs \<union> pt_pages (kmem st) d) va) \<and>
     (\<forall>va < KERNBASE. i \<le> va \<longrightarrow> xlate (kmem st) d va = None)"

lemma page_copied_frame:
  assumes c: "page_copied m0 pgdir m d A va" and x: "xlate m' d va = xlate m d va" and B: "B \<subseteq> A"
    and same: "\<And>x. PGROUNDDOWN x \<notin> A \<Longrightarrow> m' x = m x"
  shows "page_copied m0 pgdir m' d B va"
proof -
  obtain e e' where e: "xlate m0 pgdir va = Some e" "xlate m d va = Some e'" "PTE_FLAGS e' = PTE_FLAGS e"
    "page_aligned (P2V (PTE_ADDR e'))" "P2V (PTE_ADDR e') \<notin> A" "\<forall>k < PGSIZE. m (P2V (PTE_ADDR e') + k) = m0 (P2V (PTE_ADDR e) + k)"
    using c by (auto simp: page_copied_def)
  have "m' (P2V (PTE_ADDR e') + k) = m (P2V (PTE_ADDR e') + k)" if "k < PGSIZE" for k
    using same page_offset [OF e(4) that] e(5) by simp
  then show ?thesis using e x B unfolding page_copied_def by auto
qed

text \<open>Mapping one page below \<open>KERNBASE\<close>.\<close>

lemma mappages_page:
  assumes inv: "kinv kend st xs" "pt_ok kend (kmem st) d (set xs)" and i: "page_aligned i" "i < KERNBASE"
    and r: "mappages d i PGSIZE pa perm st = Ok (r, st')" "\<not> r < 0"
  shows "\<exists>xs'. pt_step kend d st xs st' xs' \<and>
    (\<forall>b. xlate (kmem st') d b = (if PGROUNDDOWN b = i then Some (pa OR perm OR PTE_P) else xlate (kmem st) d b))"
proof -
  have u: "uint i < 2 ^ 31" using i(2) by (simp add: word_less_def)
  have m: "uint i mod 4096 = 0" using i(1) by (simp add: page_aligned_uint dvd_eq_mod_eq_0)
  have "(uint i + 4095) div 4096 = uint i div 4096" using m by (simp add: div_add1_eq)
  then have n: "0 = nat ((uint i + uint PGSIZE - 1) div 4096 - uint i div 4096)" by simp
  obtain xs' where s: "pt_step kend d st xs st' xs'" and p: "map_post (PGROUNDDOWN i) (Suc 0) pa perm (kmem st) (kmem st') d"
    using mappages_run [OF inv _ _ n, of pa perm] u r by auto
  have "in_run i (Suc 0) b \<longleftrightarrow> PGROUNDDOWN b = i" for b using in_run_Suc [OF i(1), of 0 b] by (simp add: in_run_def)
  then have "xlate (kmem st') d b = (if PGROUNDDOWN b = i then Some (pa OR perm OR PTE_P) else xlate (kmem st) d b)" for b
    using p i(1) by (auto simp: map_post_def)
  then show ?thesis using s by blast
qed

lemma bit_low: "bit (0xFFF :: int) n \<longleftrightarrow> n < 12"
proof -
  have "(0xFFF :: int) = mask 12" by (simp add: mask_eq_exp_minus_1)
  then show ?thesis by (simp only: bit_mask_iff) auto
qed

lemma new_frame:
  assumes "page_aligned v"
  shows "P2V (PTE_ADDR (V2P v OR PTE_FLAGS e OR PTE_P)) = v" "present e \<Longrightarrow> PTE_FLAGS (V2P v OR PTE_FLAGS e OR PTE_P) = PTE_FLAGS e"
proof -
  let ?f = "PTE_FLAGS e OR PTE_P"
  have "?f = take_bit 12 ?f" by (rule bit_word_eqI) (auto simp: bit_take_bit_iff PTE_FLAGS_def bit_or_iff bit_and_iff bit_1_iff bit_low)
  then have "?f = ?f AND mask 12" by (simp add: take_bit_eq_mask)
  then have "?f < PGSIZE" using and_mask_less' [of 12 ?f] by simp
  moreover have "bit ?f 0" by (simp add: bit_or_iff)
  ultimately show "P2V (PTE_ADDR (V2P v OR PTE_FLAGS e OR PTE_P)) = v" using new_entry(2) [OF assms, of ?f] by blast
  have "\<not> bit (V2P v) n" if "n < 12" for n
    using V2P_aligned [OF assms] PGROUNDDOWN_aligned bit_PGROUNDDOWN that by (metis not_le)
  then show "PTE_FLAGS (V2P v OR PTE_FLAGS e OR PTE_P) = PTE_FLAGS e" if "present e"
    using that by (intro bit_word_eqI) (auto simp: PTE_FLAGS_def present_bit bit_or_iff bit_and_iff bit_1_iff bit_low)
qed

text \<open>The copy of one frame into a free page, and what the child sees of it.\<close>

lemma memmove_page:
  assumes "page_aligned v" "page_aligned src" "v \<noteq> src" "uint src < 2 ^ 32 - 4096"
  shows "memmove m v src PGSIZE x = (if PGROUNDDOWN x = v then m (src + (x - v)) else m x)"
  using memmove_value [of src PGSIZE v m] assms page_aligned_bound [OF assms(1)] in_page [OF assms(1), of x] by simp

lemma pt_pages_free: "pt_ok kend m d F \<Longrightarrow> v \<in> F \<Longrightarrow> v \<notin> pt_pages m d"
  by (auto simp: pt_ok_def pt_pages_def)

lemma copy_into_free:
  assumes inv: "kinv kend st (v # xs)" "pt_ok kend (kmem st) d (set (v # xs))" and k: "kinv kend k xs" "kmem k = kmem st"
    and src: "page_aligned src" "src \<noteq> v" "uint src < 2 ^ 32 - 4096"
  defines "k1 \<equiv> k\<lparr>kmem := memmove (kmem k) v src PGSIZE\<rparr>"
  shows "kinv kend k1 xs" "pt_ok kend (kmem k1) d (set xs)" "pt_pages (kmem k1) d = pt_pages (kmem st) d"
    "xlate (kmem k1) d b = xlate (kmem st) d b"
    "kmem k1 x = (if PGROUNDDOWN x = v then kmem st (src + (x - v)) else kmem st x)" "absent (kmem k1) d = absent (kmem st) d"
proof -
  have v: "v \<notin> set xs" "v \<notin> pt_pages (kmem st) d" "page_aligned v"
    using inv pt_pages_free [OF inv(2), of v] by (auto simp: kinv_def page_ok_def)
  show m1: "kmem k1 x = (if PGROUNDDOWN x = v then kmem st (src + (x - v)) else kmem st x)" for x
    using memmove_page [OF v(3) src(1) _ src(3), of "kmem st" x] src(2) k(2) by (auto simp: k1_def)
  have same: "kmem k1 x = kmem st x" if "PGROUNDDOWN x \<in> pt_pages (kmem st) d" for x using m1 v(2) that by auto
  have ok: "pt_ok kend (kmem st) d (set xs)" by (rule pt_ok_subset [OF inv(2)]) auto
  show "xlate (kmem k1) d b = xlate (kmem st) d b"
    by (rule xlate_frame [OF ok]) (auto intro!: same simp: pt_pages_def)
  show "pt_ok kend (kmem k1) d (set xs)" "pt_pages (kmem k1) d = pt_pages (kmem st) d" by (rule ukva_frame [OF ok same]; assumption)+
  have "pde_of (kmem k1) d i = pde_of (kmem st) d i" if "i < 1024" for i
    by (rule pt_ok_frame(2) [OF ok _ that]) (auto intro!: same simp: pt_pages_def)
  then show "absent (kmem k1) d = absent (kmem st) d" unfolding absent_def by (intro arg_cong [of _ _ card]) auto
  show "kinv kend k1 xs" unfolding k1_def using m1 v(1) k(2) by (intro kinv_frame [OF k(1)]) (auto simp: k1_def)
qed

lemma below_next:
  assumes "page_aligned i" "i < KERNBASE"
  shows "va < i + PGSIZE \<Longrightarrow> va < i \<or> PGROUNDDOWN va = i" "i + PGSIZE \<le> va \<Longrightarrow> i \<le> va \<and> PGROUNDDOWN va \<noteq> i"
    "va < i \<Longrightarrow> PGROUNDDOWN va \<noteq> i"
proof -
  have nx: "uint (i + PGSIZE) = uint i + 4096" using assms(2) by (subst uint_plus_if') (simp add: word_less_def)
  have "va - i < PGSIZE" if "\<not> va < i" "va < i + PGSIZE" using that nx by (simp add: word_less_def uint_sub_if')
  then show "va < i + PGSIZE \<Longrightarrow> va < i \<or> PGROUNDDOWN va = i" using in_page [OF assms(1), of va] by blast
  show "i + PGSIZE \<le> va \<Longrightarrow> i \<le> va \<and> PGROUNDDOWN va \<noteq> i"
    using nx in_page [OF assms(1), of va] by (auto simp: word_le_def word_less_def uint_sub_if')
  have "uint (PGROUNDDOWN va) \<le> uint va" by (simp add: uint_PGROUNDDOWN)
  then show "va < i \<Longrightarrow> PGROUNDDOWN va \<noteq> i" by (auto simp: word_less_def)
qed

lemma copy_step:
  assumes inv: "copy_inv kend m0 pgdir sz d i st (v # xs)" and i: "i < sz" "sz \<le> KERNBASE" and e: "xlate m0 pgdir i = Some e"
    and src: "uint (P2V (PTE_ADDR e)) < 2 ^ 32 - 4096"
    and k: "kinv kend k xs" "kmem k = kmem st"
    and mp: "mappages d i PGSIZE (V2P v) (PTE_FLAGS e) (k\<lparr>kmem := memmove (kmem k) v (P2V (PTE_ADDR e)) PGSIZE\<rparr>) = Ok (r, st')" "\<not> r < 0"
  shows "\<exists>xs'. copy_inv kend m0 pgdir sz d (i + PGSIZE) st' xs' \<and> set xs' \<subseteq> set xs \<and>
    length xs' + absent (kmem st) d = length xs + absent (kmem st') d"
proof -
  let ?A = "own_pages m0 pgdir sz" and ?s = "P2V (PTE_ADDR e)"
  note h = inv [unfolded copy_inv_def]
  have sA: "?s \<in> ?A" using e i(1) by (auto simp: own_pages_def)
  have v: "v \<notin> set xs" "v \<notin> ?A" "v \<notin> pt_pages (kmem st) d" "page_aligned v"
    using h pt_pages_free [of kend "kmem st" d "set (v # xs)" v] by (auto simp: kinv_def page_ok_def)
  have sal: "page_aligned ?s" "?s \<noteq> v" using sA v(2) by (auto simp: P2V_aligned PTE_ADDR_eq)
  have h0: "kinv kend st (v # xs)" "pt_ok kend (kmem st) d (set (v # xs))" "page_aligned i" using h by blast+
  note c = copy_into_free [OF h0(1,2) k sal src]
  define k1 where "k1 = k\<lparr>kmem := memmove (kmem k) v ?s PGSIZE\<rparr>"
  note c = c [folded k1_def]
  have ik: "i < KERNBASE" using i by simp
  obtain xs' where st: "pt_step kend d k1 xs st' xs'" and
    x2: "\<forall>b. xlate (kmem st') d b = (if PGROUNDDOWN b = i then Some (V2P v OR PTE_FLAGS e OR PTE_P) else xlate (kmem k1) d b)"
    using mappages_page [OF c(1,2) h0(3) ik mp(1) [folded k1_def] mp(2)] by blast
  have s2: "kinv kend st' xs'" "pt_ok kend (kmem st') d (set xs')" "set xs' \<subseteq> set xs"
    "pt_pages (kmem st') d \<subseteq> pt_pages (kmem st) d \<union> (set xs - set xs')" "length xs' + absent (kmem st) d = length xs + absent (kmem st') d"
    "\<And>x. PGROUNDDOWN x \<notin> pt_pages (kmem st) d \<union> (set xs - set xs') \<Longrightarrow> kmem st' x = kmem k1 x"
    using st c(3) c(6) by (auto simp: pt_step_def)
  have dj: "?A \<inter> (set xs' \<union> pt_pages (kmem st') d) = {}" using h s2(3,4) by auto
  have mA: "kmem st' x = m0 x" if x: "PGROUNDDOWN x \<in> ?A" for x
  proof -
    have "PGROUNDDOWN x \<notin> pt_pages (kmem st) d \<union> (set xs - set xs')" "PGROUNDDOWN x \<noteq> v" using h x v(2) by auto
    then show ?thesis using s2(6) c(5) h x by simp
  qed
  let ?B = "?A \<union> set xs' \<union> pt_pages (kmem st') d"
  have old: "page_copied m0 pgdir (kmem st') d ?B va" if "va < sz" "va < i" for va
  proof (rule page_copied_frame)
    show "page_copied m0 pgdir (kmem st) d (?A \<union> set (v # xs) \<union> pt_pages (kmem st) d) va" using h that by blast
    show "xlate (kmem st') d va = xlate (kmem st) d va" using x2 c(4) below_next(3) [OF h0(3) ik that(2)] by simp
    show "?B \<subseteq> ?A \<union> set (v # xs) \<union> pt_pages (kmem st) d" using s2(3,4) by auto
    show "kmem st' x = kmem st x" if "PGROUNDDOWN x \<notin> ?A \<union> set (v # xs) \<union> pt_pages (kmem st) d" for x using s2(6) c(5) that by auto
  qed
  have new: "page_copied m0 pgdir (kmem st') d ?B va" if va: "PGROUNDDOWN va = i" for va
  proof -
    have "xlate m0 pgdir va = Some e" using e xlate_page [of va i] va h0(3) by simp
    moreover have "present e" using e by (auto simp: xlate_def Let_def split: if_splits)
    moreover have "kmem st' (v + k) = m0 (?s + k)" if "k < PGSIZE" for k
    proof -
      have "PGROUNDDOWN (v + k) = v" "PGROUNDDOWN (?s + k) = ?s" using page_offset that v(4) sal(1) by auto
      then show ?thesis using s2(6) [of "v + k"] c(5) [of "v + k"] v(1,3) h sA by auto
    qed
    moreover have "v \<notin> ?B" using v s2(3,4) by auto
    ultimately show ?thesis using x2 va new_frame [OF v(4)] v(4) unfolding page_copied_def
      by (intro exI [of _ e] exI [of _ "V2P v OR PTE_FLAGS e OR PTE_P"]) simp
  qed
  have none: "xlate (kmem st') d va = None" if "va < KERNBASE" "i + PGSIZE \<le> va" for va
    using below_next(2) [OF h0(3) ik that(2)] x2 c(4) h that by auto
  have "page_aligned (i + PGSIZE)" using page_aligned_step h0(3) by blast
  then have "copy_inv kend m0 pgdir sz d (i + PGSIZE) st' xs'"
    unfolding copy_inv_def using s2(1,2) dj mA old new below_next(1) [OF h0(3) ik] none by (intro conjI allI impI) blast+
  then show ?thesis using s2(3,5) by blast
qed

lemma copy_loop_spec:
  assumes "copy_inv kend m0 pgdir sz d i st xs" and pok: "pt_ok kend m0 pgdir G" and sz: "sz \<le> KERNBASE"
    and pages: "\<forall>va < sz. \<exists>e. xlate m0 pgdir va = Some e \<and> uint (P2V (PTE_ADDR e)) < 2 ^ 32 - 4096"
    and "copy_loop n kend pgdir d sz i st = Ok (r, st')" "r \<noteq> 0"
  shows "r = d \<and> (\<exists>j xs'. copy_inv kend m0 pgdir sz d j st' xs' \<and> \<not> j < sz \<and> set xs' \<subseteq> set xs)"
  using assms(1,5,6)
proof (induction n arbitrary: i st xs)
  case (Suc n)
  show ?case
  proof (cases "i < sz")
    case False
    then show ?thesis using Suc.prems by auto
  next
    case True
    obtain e where e: "xlate m0 pgdir i = Some e" "uint (P2V (PTE_ADDR e)) < 2 ^ 32 - 4096" using pages True by blast
    have same: "kmem st x = m0 x" if "PGROUNDDOWN x \<in> pt_pages m0 pgdir" for x
      using Suc.prems(1) that by (simp add: copy_inv_def own_pages_def)
    have "xlate (kmem st) pgdir i = Some e"
      using xlate_frame [OF pok, of "kmem st" i] e(1) same by (auto simp: pt_pages_def)
    note w = loaded_walk [OF ukva_frame(2) [OF pok same] this]
    have "present e" using e(1) by (auto simp: xlate_def Let_def split: if_splits)
    obtain v k where k: "kalloc st = (v, k)" by fastforce
    have ki: "kinv kend st xs" using Suc.prems(1) by (simp add: copy_inv_def)
    have st: "snd (walkpgdir pgdir i False st) = st" by (simp add: walkpgdir_look)
    let ?k = "k\<lparr>kmem := memmove (kmem k) v (P2V (PTE_ADDR e)) PGSIZE\<rparr>"
    have "v \<noteq> 0" and "obind (mappages d i PGSIZE (V2P v) (PTE_FLAGS e) ?k) (\<lambda>(r, st).
        if r < 0 then obind (kfree kend v st) (\<lambda>st. obind (freevm kend d st) (\<lambda>st. Ok (0, st)))
        else copy_loop n kend pgdir d sz (i + PGSIZE) st) = Ok (r, st')"
      using Suc.prems(2,3) True w(1,2) st \<open>present e\<close> k by (auto simp: Let_def split_beta obind_eq_Ok split: if_splits)
    then obtain q st1 where q: "mappages d i PGSIZE (V2P v) (PTE_FLAGS e) ?k = Ok (q, st1)" "\<not> q < 0"
      "copy_loop n kend pgdir d sz (i + PGSIZE) st1 = Ok (r, st')"
      using Suc.prems(3) by (auto simp: obind_eq_Ok split: if_splits)
    obtain ys where ys: "xs = v # ys" using ki k \<open>v \<noteq> 0\<close> kalloc_Nil [of kend st] kalloc_Cons [of kend st] by (cases xs) auto
    have "kinv kend k ys" "kmem k = kmem st" using kalloc_Cons [of kend st v ys] ki k ys by auto
    then obtain xs1 where "copy_inv kend m0 pgdir sz d (i + PGSIZE) st1 xs1" "set xs1 \<subseteq> set ys"
      using copy_step [OF _ True sz e _ _ q(1,2)] Suc.prems(1) ys by blast
    then show ?thesis using Suc.IH [OF _ q(3) Suc.prems(3)] ys by fastforce
  qed
qed simp

lemma copy_start:
  assumes own: "own_pages (kmem st) pgdir sz \<inter> set xs = {}" and x: "kinv kend st1 xs1" "pt_ok kend (kmem st1) d (set xs1)" "set xs1 \<subseteq> set xs"
    "pt_pages (kmem st1) d \<subseteq> set xs - set xs1" "\<forall>b < KERNBASE. xlate (kmem st1) d b = None"
    "\<forall>x. PGROUNDDOWN x \<notin> set xs - set xs1 \<longrightarrow> kmem st1 x = kmem st x"
  shows "copy_inv kend (kmem st) pgdir sz d 0 st1 xs1"
proof -
  have "page_aligned 0" by (simp add: page_aligned_def)
  moreover have "own_pages (kmem st) pgdir sz \<inter> (set xs1 \<union> pt_pages (kmem st1) d) = {}" using x(3,4) own by blast
  moreover have "kmem st1 x = kmem st x" if "PGROUNDDOWN x \<in> own_pages (kmem st) pgdir sz" for x using x(6) own that by blast
  ultimately show ?thesis unfolding copy_inv_def using x(1,2,5) by simp
qed

lemma copyuvm_spec:
  assumes inv: "kinv kend st xs" "pt_ok kend (kmem st) pgdir (set xs)" and kd: "KERNLINK < kdata" "kdata < P2V PHYSTOP"
    and sz: "sz \<le> KERNBASE" and own: "own_pages (kmem st) pgdir sz \<inter> set xs = {}"
    and pages: "\<forall>va < sz. \<exists>e. xlate (kmem st) pgdir va = Some e \<and> uint (P2V (PTE_ADDR e)) < 2 ^ 32 - 4096"
    and r: "copyuvm kend kdata pgdir sz st = Ok (d, st')" "d \<noteq> 0"
  shows "\<exists>xs'. kinv kend st' xs' \<and> pt_ok kend (kmem st') d (set xs') \<and> set xs' \<subseteq> set xs \<and>
    own_pages (kmem st) pgdir sz \<inter> (set xs' \<union> pt_pages (kmem st') d) = {} \<and>
    (\<forall>va < sz. page_copied (kmem st) pgdir (kmem st') d (own_pages (kmem st) pgdir sz \<union> set xs' \<union> pt_pages (kmem st') d) va) \<and>
    (\<forall>x. PGROUNDDOWN x \<in> own_pages (kmem st) pgdir sz \<longrightarrow> kmem st' x = kmem st x)"
proof -
  obtain d0 st1 where s: "setupkvm kend kdata st = Ok (d0, st1)" "d0 \<noteq> 0"
    and l: "copy_loop (Suc (Suc (unat sz div 4096))) kend pgdir d0 sz 0 st1 = Ok (d, st')"
    using r by (auto simp: copyuvm_def obind_eq_Ok split: if_splits)
  obtain xs1 where x: "kinv kend st1 xs1" "pt_ok kend (kmem st1) d0 (set xs1)" "set xs1 \<subseteq> set xs"
    "pt_pages (kmem st1) d0 \<subseteq> set xs - set xs1" "\<forall>b < KERNBASE. xlate (kmem st1) d0 b = None"
    "\<forall>x. PGROUNDDOWN x \<notin> set xs - set xs1 \<longrightarrow> kmem st1 x = kmem st x"
    using setupkvm_spec [OF inv(1) kd s] by blast
  have "copy_inv kend (kmem st) pgdir sz d0 0 st1 xs1" by (rule copy_start [OF own x])
  from copy_loop_spec [OF this inv(2) sz pages l r(2)] obtain j xs'
    where "d = d0" "copy_inv kend (kmem st) pgdir sz d0 j st' xs'" "\<not> j < sz" "set xs' \<subseteq> set xs1" by blast
  then show ?thesis using x(3) unfolding copy_inv_def by (intro exI [of _ xs'] conjI) (auto simp: not_less)
qed

section \<open>Enough free pages\<close>

lemma mappages_ok:
  assumes inv: "kinv kend st xs" "pt_ok kend (kmem st) d (set xs)" and sz: "0 < sz" "uint va + uint sz \<le> 2 ^ 32"
    and n: "n = nat ((uint va + uint sz - 1) div 4096 - uint va div 4096)"
    and new: "\<And>b. in_run (PGROUNDDOWN va) (Suc n) b \<Longrightarrow> xlate (kmem st) d b = None" and xs: "absent (kmem st) d \<le> length xs"
  shows "\<exists>st' xs'. mappages d va sz pa perm st = Ok (0, st') \<and> pt_step kend d st xs st' xs' \<and>
    absent (kmem st') d \<le> length xs' \<and> map_post (PGROUNDDOWN va) (Suc n) pa perm (kmem st) (kmem st') d"
proof -
  obtain r st' xs' where m: "mappages d va sz pa perm st = Ok (r, st')" "pt_step kend d st xs st' xs'"
    and c: "r = 0 \<and> map_post (PGROUNDDOWN va) (Suc n) pa perm (kmem st) (kmem st') d \<or>
     r = -1 \<and> (xs' = [] \<and> 0 < absent (kmem st') d \<or> (\<exists>b. in_run (PGROUNDDOWN va) (Suc n) b \<and> xlate (kmem st) d b \<noteq> None))"
    using mappages_run [OF inv sz n, of pa perm] by blast
  have b: "length xs' + absent (kmem st) d = length xs + absent (kmem st') d" using m(2) by (simp add: pt_step_def)
  have "r = 0 \<and> map_post (PGROUNDDOWN va) (Suc n) pa perm (kmem st) (kmem st') d" using c new b xs by force
  then show ?thesis using m b xs by (intro exI [of _ st'] exI [of _ xs']) simp
qed

lemma in_run_iff:
  assumes "uint a + int n * 4096 \<le> 2 ^ 32"
  shows "in_run a n b \<longleftrightarrow> uint a \<le> uint (PGROUNDDOWN b) \<and> uint (PGROUNDDOWN b) < uint a + int n * 4096"
proof -
  have "in_run a n b \<longleftrightarrow> int (unat (PGROUNDDOWN b - a)) < int (n * 4096)" unfolding in_run_def by (simp only: of_nat_less_iff)
  moreover have "uint (PGROUNDDOWN b - a) = (if uint a \<le> uint (PGROUNDDOWN b) then uint (PGROUNDDOWN b) - uint a else uint (PGROUNDDOWN b) - uint a + 2 ^ 32)"
    by (simp add: uint_sub_if')
  moreover have "int n * 4096 \<le> uint (PGROUNDDOWN b) - uint a + 2 ^ 32" using assms uint_ge_0 [of "PGROUNDDOWN b"] by linarith
  ultimately show ?thesis by (cases "uint a \<le> uint (PGROUNDDOWN b)") auto
qed

text \<open>The entries of \<open>kmap\<close> from \<open>lo\<close> on, in order and without overlap.\<close>

fun fits :: "int \<Rightarrow> (u32 \<times> u32 \<times> u32 \<times> u32) list \<Rightarrow> bool" where
  "fits lo [] \<longleftrightarrow> True"
| "fits lo ((virt, ps, pe, perm) # ks) \<longleftrightarrow> lo \<le> uint virt \<and> page_aligned virt \<and> page_aligned (pe - ps) \<and> 0 < pe - ps \<and>
     uint virt + uint (pe - ps) \<le> 2 ^ 32 \<and> fits (uint virt + uint (pe - ps)) ks"

lemma run_size:
  assumes "page_aligned va" "page_aligned sz" "0 < sz" "n = nat ((uint va + uint sz - 1) div 4096 - uint va div 4096)"
  shows "int (Suc n) * 4096 = uint sz"
proof -
  obtain a b where ab: "uint va = 4096 * a" "uint sz = 4096 * b" using assms(1,2) by (auto simp: page_aligned_uint elim!: dvdE)
  have "0 < uint sz" using assms(3) by (simp add: word_less_def)
  then have b: "0 < b" using ab by simp
  have "(4096 * a + 4096 * b - 1) div 4096 = a + b - 1"
    using div_mult_self2 [of 4096 4095 "a + b - 1"] by (simp add: algebra_simps)
  then have "int n = b - 1" using assms(4) ab b by simp
  then show ?thesis using ab by simp
qed

lemma kmap_loop_ok:
  assumes "kinv kend st xs" "pt_ok kend (kmem st) d (set xs)" "absent (kmem st) d \<le> length xs"
    and "\<forall>b. xlate (kmem st) d b \<noteq> None \<longrightarrow> uint (PGROUNDDOWN b) < lo" "fits lo ks"
  shows "\<exists>st'. kmap_loop ks kend d st = Ok (d, st')"
  using assms
proof (induction ks arbitrary: st xs lo)
  case (Cons x ks)
  obtain virt ps pe perm where x: "x = (virt, ps, pe, perm)" by (metis prod_cases4)
  have f: "lo \<le> uint virt" "page_aligned virt" "page_aligned (pe - ps)" "0 < pe - ps" "uint virt + uint (pe - ps) \<le> 2 ^ 32"
    "fits (uint virt + uint (pe - ps)) ks" using Cons.prems(5) by (auto simp: x)
  define n where "n = nat ((uint virt + uint (pe - ps) - 1) div 4096 - uint virt div 4096)"
  have n: "int (Suc n) * 4096 = uint (pe - ps)" by (rule run_size [OF f(2,3,4) n_def])
  have run: "in_run (PGROUNDDOWN virt) (Suc n) b \<longleftrightarrow> uint virt \<le> uint (PGROUNDDOWN b) \<and> uint (PGROUNDDOWN b) < uint virt + uint (pe - ps)" for b
    using in_run_iff [of virt "Suc n" b] f(2,5) n by simp
  have "xlate (kmem st) d b = None" if "in_run (PGROUNDDOWN virt) (Suc n) b" for b
    using run [of b] that Cons.prems(4) f(1) by fastforce
  then obtain st1 xs1 where m: "mappages d virt (pe - ps) ps perm st = Ok (0, st1)" "pt_step kend d st xs st1 xs1"
    "absent (kmem st1) d \<le> length xs1" "map_post (PGROUNDDOWN virt) (Suc n) ps perm (kmem st) (kmem st1) d"
    using mappages_ok [OF Cons.prems(1,2) f(4,5) n_def _ Cons.prems(3)] by blast
  have "uint (PGROUNDDOWN b) < uint virt + uint (pe - ps)" if "xlate (kmem st1) d b \<noteq> None" for b
  proof (cases "in_run (PGROUNDDOWN virt) (Suc n) b")
    case True
    then show ?thesis using run by blast
  next
    case False
    then have "uint (PGROUNDDOWN b) < lo" using m(4) that Cons.prems(4) by (auto simp: map_post_def)
    then show ?thesis using f(1) uint_ge_0 [of "pe - ps"] by linarith
  qed
  then obtain st' where "kmap_loop ks kend d st1 = Ok (d, st')"
    using Cons.IH [of st1 xs1 "uint virt + uint (pe - ps)"] m(2,3) f(6) by (auto simp: pt_step_def)
  then show ?case using m(1) by (simp add: x)
qed simp

lemma setupkvm_ok:
  assumes inv: "kinv kend st xs" "1025 \<le> length xs" and kd: "KERNLINK < kdata" "kdata < P2V PHYSTOP" "page_aligned kdata"
  shows "\<exists>d st'. setupkvm kend kdata st = Ok (d, st') \<and> d \<noteq> 0"
proof -
  obtain v ys where xs: "xs = v # ys" using inv(2) by (cases xs) auto
  obtain k where k: "kalloc st = (v, k)" using kalloc_Cons inv(1) xs by blast
  have v: "v \<noteq> 0" using inv(1) xs page_ok_nonzero [of kend v] by (auto simp: kinv_def)
  let ?k = "k\<lparr>kmem := memset (kmem k) v 0 PGSIZE\<rparr>"
  have f: "kinv kend ?k ys" "pt_ok kend (kmem ?k) v (set ys)" "absent (kmem ?k) v = 1024" "\<forall>b. xlate (kmem ?k) v b = None"
    using fresh_pgdir [OF inv(1) k v] xs by auto
  have u: "uint kdata < 0x8E000000" "0x80100000 < uint kdata" using kd(1,2) by (simp_all add: word_less_def P2V_def)
  have p: "4096 dvd uint kdata" using kd(3) by (simp add: page_aligned_uint)
  have "fits (2 ^ 31) (kmap kdata)" using u p
    by (auto simp: kmap_def V2P_def word_less_def uint_sub_if' page_aligned_uint dvd_diff)
  then obtain st' where "kmap_loop (kmap kdata) kend v ?k = Ok (v, st')"
    using kmap_loop_ok [OF f(1,2), of "2 ^ 31" "kmap kdata"] f(3,4) inv(2) xs by auto
  then show ?thesis using k v by (auto simp: setupkvm_def P2V_def)
qed

definition pages_left :: "u32 \<Rightarrow> u32 \<Rightarrow> nat" where
  "pages_left sz i = nat ((uint sz - uint i + 4095) div 4096)"

lemma pages_left_step:
  assumes "i < sz" "i < KERNBASE"
  shows "pages_left sz i = Suc (pages_left sz (i + PGSIZE))"
proof -
  let ?x = "uint sz - uint i"
  have nx: "uint (i + PGSIZE) = uint i + 4096" using assms(2) by (subst uint_plus_if') (simp add: word_less_def)
  have x: "0 < ?x" using assms(1) by (simp add: word_less_def)
  have "(?x + 4095) div 4096 = (?x - 1) div 4096 + 1" using div_add_self2 [of 4096 "?x - 1"] by simp
  moreover have "0 \<le> (?x - 1) div 4096" using x by (simp add: pos_imp_zdiv_nonneg_iff)
  moreover have "uint sz - uint (i + PGSIZE) + 4095 = ?x - 1" using nx by simp
  ultimately show ?thesis unfolding pages_left_def by simp
qed

lemma copy_page_ok:
  assumes inv: "copy_inv kend m0 pgdir sz d i st (v # xs)" and i: "i < sz" "sz \<le> KERNBASE" and e: "xlate m0 pgdir i = Some e"
    and src: "uint (P2V (PTE_ADDR e)) < 2 ^ 32 - 4096" and k: "kinv kend k xs" "kmem k = kmem st" and b: "absent (kmem st) d \<le> length xs"
  shows "\<exists>st'. mappages d i PGSIZE (V2P v) (PTE_FLAGS e) (k\<lparr>kmem := memmove (kmem k) v (P2V (PTE_ADDR e)) PGSIZE\<rparr>) = Ok (0, st')"
proof -
  let ?s = "P2V (PTE_ADDR e)"
  note h = inv [unfolded copy_inv_def]
  have "?s \<in> own_pages m0 pgdir sz" using e i(1) by (auto simp: own_pages_def)
  then have s: "page_aligned ?s" "?s \<noteq> v" using h by (auto simp: P2V_aligned PTE_ADDR_eq)
  have h0: "kinv kend st (v # xs)" "pt_ok kend (kmem st) d (set (v # xs))" "page_aligned i" using h by blast+
  note c = copy_into_free [OF h0(1,2) k s src]
  have u: "uint i < 2 ^ 31" using i by (simp add: word_less_def word_le_def)
  have "(uint i + 4095) div 4096 = uint i div 4096" using h0(3) by (simp add: page_aligned_uint dvd_eq_mod_eq_0 div_add1_eq)
  then have n: "0 = nat ((uint i + uint PGSIZE - 1) div 4096 - uint i div 4096)" by simp
  have "xlate (kmem st) d b = None" if "in_run (PGROUNDDOWN i) (Suc 0) b" for b
  proof -
    have "PGROUNDDOWN b = i" using in_run_Suc [OF h0(3), of 0 b] that h0(3) by (simp add: in_run_def)
    then have "xlate (kmem st) d b = xlate (kmem st) d i" using xlate_page [of b i] h0(3) by simp
    moreover have "i < KERNBASE" using i by simp
    ultimately show ?thesis using h by auto
  qed
  then show ?thesis using mappages_ok [OF c(1,2) _ _ n, of "V2P v" "PTE_FLAGS e"] c(4,6) u b by auto
qed

lemma copy_loop_ok:
  assumes "copy_inv kend m0 pgdir sz d i st xs" and pok: "pt_ok kend m0 pgdir G" and sz: "sz \<le> KERNBASE"
    and pages: "\<forall>va < sz. \<exists>e. xlate m0 pgdir va = Some e \<and> uint (P2V (PTE_ADDR e)) < 2 ^ 32 - 4096"
    and "absent (kmem st) d + pages_left sz i \<le> length xs" "pages_left sz i < n"
  shows "\<exists>st'. copy_loop n kend pgdir d sz i st = Ok (d, st')"
  using assms(1,5,6)
proof (induction n arbitrary: i st xs)
  case (Suc n)
  show ?case
  proof (cases "i < sz")
    case True
    have left: "pages_left sz i = Suc (pages_left sz (i + PGSIZE))" using pages_left_step True sz by simp
    then obtain v ys where xs: "xs = v # ys" using Suc.prems(2) by (cases xs) auto
    obtain e where e: "xlate m0 pgdir i = Some e" "uint (P2V (PTE_ADDR e)) < 2 ^ 32 - 4096" using pages True by blast
    have same: "kmem st x = m0 x" if "PGROUNDDOWN x \<in> pt_pages m0 pgdir" for x
      using Suc.prems(1) that by (simp add: copy_inv_def own_pages_def)
    have "xlate (kmem st) pgdir i = Some e"
      using xlate_frame [OF pok, of "kmem st" i] e(1) same by (auto simp: pt_pages_def)
    note w = loaded_walk [OF ukva_frame(2) [OF pok same] this]
    have p: "present e" using e(1) by (auto simp: xlate_def Let_def split: if_splits)
    have ki: "kinv kend st (v # ys)" using Suc.prems(1) xs by (simp add: copy_inv_def)
    obtain k where k: "kalloc st = (v, k)" "kinv kend k ys" "kmem k = kmem st" using kalloc_Cons [OF ki] by blast
    have v: "v \<noteq> 0" using ki page_ok_nonzero [of kend v] by (auto simp: kinv_def)
    have ci: "copy_inv kend m0 pgdir sz d i st (v # ys)" using Suc.prems(1) xs by simp
    obtain st1 where m: "mappages d i PGSIZE (V2P v) (PTE_FLAGS e) (k\<lparr>kmem := memmove (kmem k) v (P2V (PTE_ADDR e)) PGSIZE\<rparr>) = Ok (0, st1)"
      using copy_page_ok [OF ci True sz e k(2,3)] Suc.prems(2) xs left by auto
    obtain xs1 where x1: "copy_inv kend m0 pgdir sz d (i + PGSIZE) st1 xs1" "length xs1 + absent (kmem st) d = length ys + absent (kmem st1) d"
      using copy_step [OF ci True sz e k(2,3) m] by auto
    have "absent (kmem st1) d + pages_left sz (i + PGSIZE) \<le> length xs1" "pages_left sz (i + PGSIZE) < n"
      using Suc.prems(2,3) x1(2) left xs by auto
    then obtain st' where "copy_loop n kend pgdir d sz (i + PGSIZE) st1 = Ok (d, st')" using Suc.IH [OF x1(1)] by blast
    moreover have "snd (walkpgdir pgdir i False st) = st" by (simp add: walkpgdir_look)
    ultimately show ?thesis using True w(1,2) p k(1) v m by (simp add: Let_def split_beta)
  qed simp
qed simp

lemma copyuvm_ok:
  assumes inv: "kinv kend st xs" "pt_ok kend (kmem st) pgdir (set xs)" and kd: "KERNLINK < kdata" "kdata < P2V PHYSTOP" "page_aligned kdata"
    and sz: "sz \<le> KERNBASE" and own: "own_pages (kmem st) pgdir sz \<inter> set xs = {}"
    and pages: "\<forall>va < sz. \<exists>e. xlate (kmem st) pgdir va = Some e \<and> uint (P2V (PTE_ADDR e)) < 2 ^ 32 - 4096"
    and n: "1025 + pages_left sz 0 \<le> length xs"
  shows "\<exists>d st'. copyuvm kend kdata pgdir sz st = Ok (d, st') \<and> d \<noteq> 0"
proof -
  obtain d st1 where s: "setupkvm kend kdata st = Ok (d, st1)" "d \<noteq> 0" using setupkvm_ok [OF inv(1) _ kd] n by auto
  obtain xs1 where x: "kinv kend st1 xs1" "pt_ok kend (kmem st1) d (set xs1)" "set xs1 \<subseteq> set xs"
    "length xs1 + 1025 = length xs + absent (kmem st1) d" "pt_pages (kmem st1) d \<subseteq> set xs - set xs1" "\<forall>b < KERNBASE. xlate (kmem st1) d b = None"
    "\<forall>x. PGROUNDDOWN x \<notin> set xs - set xs1 \<longrightarrow> kmem st1 x = kmem st x"
    using setupkvm_spec [OF inv(1) kd(1,2) s] by blast
  have ci: "copy_inv kend (kmem st) pgdir sz d 0 st1 xs1" by (rule copy_start [OF own x(1,2,3,5,6,7)])
  have "(uint sz + 4095) div 4096 \<le> uint sz div 4096 + 1" using zdiv_mono1 [of "uint sz + 4095" "uint sz + 4096" 4096] by simp
  moreover have "int (unat sz div 4096) = uint sz div 4096" by (simp add: zdiv_int)
  moreover have "int (pages_left sz 0) = (uint sz + 4095) div 4096" by (simp add: pages_left_def pos_imp_zdiv_nonneg_iff)
  ultimately have f: "pages_left sz 0 < Suc (Suc (unat sz div 4096))" by linarith
  have "absent (kmem st1) d + pages_left sz 0 \<le> length xs1" using x(4) n by linarith
  then obtain st' where "copy_loop (Suc (Suc (unat sz div 4096))) kend pgdir d sz 0 st1 = Ok (d, st')"
    using copy_loop_ok [OF ci inv(2) sz pages _ f] by blast
  then show ?thesis using s by (simp add: copyuvm_def del: copy_loop.simps)
qed

end
