(* ===== verification/Spinlock.thy ===== *)
theory Spinlock
  imports Memory
begin

text \<open>
  Spin locks of spinlock.c. The state of a processor that matters is the interrupt flag with the
  nesting depth and saved flag of \<open>pushcli\<close>. \<open>acquire\<close> and \<open>release\<close> are cut at the points where other
  processors can run in between: the atomic exchange, the note of the owner, and the store that
  frees the lock. \<open>lock_step\<close> interleaves these pieces for any number of processors and locks.
\<close>

section \<open>Interrupt nesting\<close>

record cpu_st =
  ncli :: int
  intena :: bool
  eflags_if :: bool

definition pushcli :: "cpu_st \<Rightarrow> cpu_st" where
  "pushcli c =
     (let eflags = eflags_if c; c = c\<lparr>eflags_if := False\<rparr>;
          c = (if ncli c = 0 then c\<lparr>intena := eflags\<rparr> else c)
      in c\<lparr>ncli := ncli c + 1\<rparr>)"

definition popcli :: "cpu_st \<Rightarrow> cpu_st outcome" where
  "popcli c =
     (if eflags_if c then Panic ''popcli - interruptible''
      else
        let c = c\<lparr>ncli := ncli c - 1\<rparr> in
        if ncli c < 0 then Panic ''popcli''
        else if ncli c = 0 \<and> intena c then Ok (c\<lparr>eflags_if := True\<rparr>)
        else Ok c)"

section \<open>Locks\<close>

record slock =
  locked :: u32
  lk_cpu :: "nat option"

definition initlock :: slock where
  "initlock = \<lparr>locked = 0, lk_cpu = None\<rparr>"

definition holding :: "nat \<Rightarrow> slock \<Rightarrow> cpu_st \<Rightarrow> (bool \<times> cpu_st) outcome" where
  "holding me lk c =
     (let c = pushcli c; r = (locked lk \<noteq> 0 \<and> lk_cpu lk = Some me) in
      obind (popcli c) (\<lambda>c. Ok (r, c)))"

text \<open>\<open>acquire\<close>: up to the loop, one exchange, and the record of the owner.\<close>

definition acquire_begin :: "nat \<Rightarrow> slock \<Rightarrow> cpu_st \<Rightarrow> cpu_st outcome" where
  "acquire_begin me lk c =
     (let c = pushcli c in
      obind (holding me lk c) (\<lambda>(h, c). if h then Panic ''acquire'' else Ok c))"

definition xchg_locked :: "slock \<Rightarrow> u32 \<times> slock" where
  "xchg_locked lk = (locked lk, lk\<lparr>locked := 1\<rparr>)"

definition acquire_end :: "nat \<Rightarrow> slock \<Rightarrow> slock" where
  "acquire_end me lk = lk\<lparr>lk_cpu := Some me\<rparr>"

text \<open>\<open>release\<close>: up to the store that frees the lock, and from there on.\<close>

definition release_begin :: "nat \<Rightarrow> slock \<Rightarrow> cpu_st \<Rightarrow> (slock \<times> cpu_st) outcome" where
  "release_begin me lk c =
     obind (holding me lk c) (\<lambda>(h, c).
     if \<not> h then Panic ''release'' else Ok (lk\<lparr>lk_cpu := None\<rparr>, c))"

definition release_end :: "slock \<Rightarrow> cpu_st \<Rightarrow> (slock \<times> cpu_st) outcome" where
  "release_end lk c = obind (popcli c) (\<lambda>c. Ok (lk\<lparr>locked := 0\<rparr>, c))"

text \<open>The calls as one processor runs them when no other interferes: a lock that is taken then stays
  taken, and the loop of \<open>acquire\<close> does not end.\<close>

definition acquire :: "nat \<Rightarrow> slock \<Rightarrow> cpu_st \<Rightarrow> (slock \<times> cpu_st) outcome" where
  "acquire me lk c =
     obind (acquire_begin me lk c) (\<lambda>c.
     let (old, lk) = xchg_locked lk in
     if old \<noteq> 0 then Diverge else Ok (acquire_end me lk, c))"

definition release :: "nat \<Rightarrow> slock \<Rightarrow> cpu_st \<Rightarrow> (slock \<times> cpu_st) outcome" where
  "release me lk c = obind (release_begin me lk c) (\<lambda>(lk, c). release_end lk c)"

text \<open>\<open>getcallerpcs\<close>: the chain of saved frame pointers, at most ten.\<close>

fun pcs_loop :: "nat \<Rightarrow> mem \<Rightarrow> u32 \<Rightarrow> u32 list" where
  "pcs_loop 0 m ebp = []"
| "pcs_loop (Suc k) m ebp =
     (if ebp = 0 \<or> ebp < 0x80000000 \<or> ebp = 0xffffffff then replicate (Suc k) 0
      else ld32 m (ebp + 4) # pcs_loop k m (ld32 m ebp))"

definition getcallerpcs :: "mem \<Rightarrow> u32 \<Rightarrow> u32 list" where
  "getcallerpcs m v = pcs_loop 10 m (v - 8)"

section \<open>Several processors\<close>

datatype phase = Run | Spin nat | Won nat | Rel nat

record lock_sys =
  cpus :: "nat \<Rightarrow> cpu_st"
  locks :: "nat \<Rightarrow> slock"
  phases :: "nat \<Rightarrow> phase"

inductive lock_step :: "lock_sys \<Rightarrow> lock_sys \<Rightarrow> bool" where
  enter: "phases s c = Run \<Longrightarrow> acquire_begin c (locks s l) (cpus s c) = Ok cpu' \<Longrightarrow>
    lock_step s (s\<lparr>cpus := (cpus s)(c := cpu'), phases := (phases s)(c := Spin l)\<rparr>)"
| spin: "phases s c = Spin l \<Longrightarrow> xchg_locked (locks s l) = (old, lk') \<Longrightarrow> old \<noteq> 0 \<Longrightarrow>
    lock_step s (s\<lparr>locks := (locks s)(l := lk')\<rparr>)"
| win: "phases s c = Spin l \<Longrightarrow> xchg_locked (locks s l) = (old, lk') \<Longrightarrow> old = 0 \<Longrightarrow>
    lock_step s (s\<lparr>locks := (locks s)(l := lk'), phases := (phases s)(c := Won l)\<rparr>)"
| own: "phases s c = Won l \<Longrightarrow>
    lock_step s (s\<lparr>locks := (locks s)(l := acquire_end c (locks s l)), phases := (phases s)(c := Run)\<rparr>)"
| leave: "phases s c = Run \<Longrightarrow> release_begin c (locks s l) (cpus s c) = Ok (lk', cpu') \<Longrightarrow>
    lock_step s (s\<lparr>cpus := (cpus s)(c := cpu'), locks := (locks s)(l := lk'), phases := (phases s)(c := Rel l)\<rparr>)"
| unlock: "phases s c = Rel l \<Longrightarrow> release_end (locks s l) (cpus s c) = Ok (lk', cpu') \<Longrightarrow>
    lock_step s (s\<lparr>cpus := (cpus s)(c := cpu'), locks := (locks s)(l := lk'), phases := (phases s)(c := Run)\<rparr>)"

definition lock_init :: lock_sys where
  "lock_init = \<lparr>cpus = (\<lambda>_. \<lparr>ncli = 0, intena = False, eflags_if = True\<rparr>),
     locks = (\<lambda>_. initlock), phases = (\<lambda>_. Run)\<rparr>"

inductive lock_reach :: "lock_sys \<Rightarrow> bool" where
  start: "lock_reach lock_init"
| step: "lock_reach s \<Longrightarrow> lock_step s s' \<Longrightarrow> lock_reach s'"

text \<open>Processor \<open>c\<close> has lock \<open>l\<close>: it is recorded as the owner, or between the exchange and the record,
  or between the removal of the record and the store that frees the lock.\<close>

definition has_lock :: "lock_sys \<Rightarrow> nat \<Rightarrow> nat \<Rightarrow> bool" where
  "has_lock s c l \<longleftrightarrow> lk_cpu (locks s l) = Some c \<or> phases s c = Won l \<or> phases s c = Rel l"

section \<open>Invariants\<close>

lemma pushcli_simps [simp]: "ncli (pushcli c) = ncli c + 1" "\<not> eflags_if (pushcli c)"
  "intena (pushcli c) = (if ncli c = 0 then eflags_if c else intena c)"
  by (simp_all add: pushcli_def Let_def)

text \<open>What a balanced pair of calls keeps: the depth and the interrupt flag.\<close>

definition cpu_ok :: "cpu_st \<Rightarrow> bool" where
  "cpu_ok c \<longleftrightarrow> 0 \<le> ncli c \<and> (0 < ncli c \<longrightarrow> \<not> eflags_if c)"

lemma push_pop:
  assumes "cpu_ok c"
  obtains c' where "popcli (pushcli c) = Ok c'" "ncli c' = ncli c" "eflags_if c' = eflags_if c"
    "intena c' = (if ncli c = 0 then eflags_if c else intena c)"
proof -
  let ?c = "(pushcli c)\<lparr>ncli := ncli c\<rparr>"
  have "popcli (pushcli c) = Ok (if ncli c = 0 \<and> eflags_if c then ?c\<lparr>eflags_if := True\<rparr> else ?c)"
    using assms by (auto simp: popcli_def Let_def cpu_ok_def)
  then show ?thesis using that assms by (auto simp: cpu_ok_def)
qed

lemma holding_Ok:
  assumes "cpu_ok c"
  obtains c' where "holding me lk c = Ok (locked lk \<noteq> 0 \<and> lk_cpu lk = Some me, c')" "ncli c' = ncli c"
    "eflags_if c' = eflags_if c" "intena c' = (if ncli c = 0 then eflags_if c else intena c)"
  by (rule push_pop [OF assms]) (auto simp: holding_def)

lemma acquire_begin_Ok:
  assumes "cpu_ok c" "acquire_begin me lk c = Ok c'"
  shows "ncli c' = ncli c + 1" "\<not> eflags_if c'" "\<not> (locked lk \<noteq> 0 \<and> lk_cpu lk = Some me)"
proof -
  have "cpu_ok (pushcli c)" using assms(1) by (simp add: cpu_ok_def)
  then obtain d where "holding me lk (pushcli c) = Ok (locked lk \<noteq> 0 \<and> lk_cpu lk = Some me, d)"
      "ncli d = ncli (pushcli c)" "eflags_if d = eflags_if (pushcli c)"
    by (rule holding_Ok)
  then show "ncli c' = ncli c + 1" "\<not> eflags_if c'" "\<not> (locked lk \<noteq> 0 \<and> lk_cpu lk = Some me)"
    using assms(2) by (auto simp: acquire_begin_def Let_def split: if_splits)
qed

lemma release_begin_Ok:
  assumes "cpu_ok c" "release_begin me lk c = Ok (lk', c')"
  shows "ncli c' = ncli c" "eflags_if c' = eflags_if c" "lk' = lk\<lparr>lk_cpu := None\<rparr>" "locked lk \<noteq> 0" "lk_cpu lk = Some me"
proof -
  obtain d where "holding me lk c = Ok (locked lk \<noteq> 0 \<and> lk_cpu lk = Some me, d)"
      "ncli d = ncli c" "eflags_if d = eflags_if c"
    by (rule holding_Ok [OF assms(1)])
  then show "ncli c' = ncli c" "eflags_if c' = eflags_if c" "lk' = lk\<lparr>lk_cpu := None\<rparr>" "locked lk \<noteq> 0" "lk_cpu lk = Some me"
    using assms(2) by (auto simp: release_begin_def split: if_splits)
qed

lemma release_end_Ok:
  assumes "release_end lk c = Ok (lk', c')"
  shows "ncli c' = ncli c - 1" "0 < ncli c' \<longrightarrow> \<not> eflags_if c'" "0 \<le> ncli c'" "lk' = lk\<lparr>locked := 0\<rparr>"
  using assms by (auto simp: release_end_def popcli_def Let_def obind_eq_Ok split: if_splits)

definition spinning :: "phase \<Rightarrow> int" where
  "spinning p = (case p of Spin l \<Rightarrow> 1 | _ \<Rightarrow> 0)"

definition lock_inv :: "lock_sys \<Rightarrow> bool" where
  "lock_inv s \<longleftrightarrow>
     (\<forall>l. locked (locks s l) = 0 \<or> locked (locks s l) = 1) \<and>
     (\<forall>l c. has_lock s c l \<longrightarrow> locked (locks s l) = 1) \<and>
     (\<forall>l c d. has_lock s c l \<longrightarrow> has_lock s d l \<longrightarrow> c = d) \<and>
     (\<forall>l c. phases s c = Won l \<or> phases s c = Rel l \<longrightarrow> lk_cpu (locks s l) = None) \<and>
     (\<forall>c. finite {l. has_lock s c l} \<and>
        ncli (cpus s c) = int (card {l. has_lock s c l}) + spinning (phases s c)) \<and>
     (\<forall>c. 0 < ncli (cpus s c) \<longrightarrow> \<not> eflags_if (cpus s c))"

lemma lock_invD:
  assumes "lock_inv s"
  shows "locked (locks s l) = 0 \<or> locked (locks s l) = 1" "has_lock s c l \<Longrightarrow> locked (locks s l) = 1"
    "has_lock s c l \<Longrightarrow> has_lock s d l \<Longrightarrow> c = d"
    "phases s c = Won l \<or> phases s c = Rel l \<Longrightarrow> lk_cpu (locks s l) = None"
    "finite {l. has_lock s c l}" "ncli (cpus s c) = int (card {l. has_lock s c l}) + spinning (phases s c)"
    "0 < ncli (cpus s c) \<Longrightarrow> \<not> eflags_if (cpus s c)" "cpu_ok (cpus s c)"
proof -
  show n: "ncli (cpus s c) = int (card {l. has_lock s c l}) + spinning (phases s c)"
    using assms unfolding lock_inv_def by blast
  have "0 \<le> spinning (phases s c)" by (simp add: spinning_def split: phase.split)
  then show "cpu_ok (cpus s c)" using assms n unfolding lock_inv_def cpu_ok_def by auto
qed (use assms in \<open>unfold lock_inv_def, blast+\<close>)

lemma card_toggle:
  assumes "finite A"
  shows "int (card (if g then insert l A else A - {l})) + of_bool (l \<in> A) = int (card A) + of_bool g"
proof (cases "l \<in> A")
  case True
  then show ?thesis using card_Suc_Diff1 [OF assms True] by (simp add: insert_absorb)
next
  case False
  then show ?thesis using assms by simp
qed

text \<open>A step that leaves the locks of every processor as they are, and one that adds or takes one.\<close>

lemma lock_inv_step:
  assumes inv: "lock_inv s"
    and h: "\<And>d m. has_lock s' d m \<longleftrightarrow> (if d = c \<and> m = l then g else has_lock s d m)"
    and others: "\<And>d. d \<noteq> c \<Longrightarrow> cpus s' d = cpus s d \<and> phases s' d = phases s d"
    and lk: "\<And>m. m \<noteq> l \<Longrightarrow> locks s' m = locks s m"
    and lkl: "locked (locks s' l) = (if g \<or> (\<exists>d. d \<noteq> c \<and> has_lock s d l) then 1 else locked (locks s' l))"
      "locked (locks s' l) = 0 \<or> locked (locks s' l) = 1"
    and excl: "g \<Longrightarrow> \<forall>d. d \<noteq> c \<longrightarrow> \<not> has_lock s d l"
    and none: "\<And>d m. phases s' d = Won m \<or> phases s' d = Rel m \<Longrightarrow> lk_cpu (locks s' m) = None"
    and n: "ncli (cpus s' c) + spinning (phases s c) + of_bool (has_lock s c l) = ncli (cpus s c) + spinning (phases s' c) + of_bool g"
    and i: "0 < ncli (cpus s' c) \<Longrightarrow> \<not> eflags_if (cpus s' c)"
  shows "lock_inv s'"
  unfolding lock_inv_def
proof (intro conjI allI impI)
  note d = lock_invD [OF inv]
  fix m e
  show "locked (locks s' m) = 0 \<or> locked (locks s' m) = 1" using lkl(2) lk [of m] d(1) by (cases "m = l") auto
  show "locked (locks s' m) = 1" if "has_lock s' e m"
    using that h [of e m] lkl(1) lk [of m] d(2) [of e m] by (cases "m = l"; cases "e = c") (auto split: if_splits)
  show "e = f" if "has_lock s' e m" "has_lock s' f m" for f
    using that h [of e m] h [of f m] excl d(3) [of e m f] by (cases "m = l"; cases "e = c"; cases "f = c") (auto split: if_splits)
  show "lk_cpu (locks s' m) = None" if "phases s' e = Won m \<or> phases s' e = Rel m" by (rule none [OF that])
  have set: "{m. has_lock s' e m} = (if e = c then (if g then insert l {m. has_lock s c m} else {m. has_lock s c m} - {l}) else {m. has_lock s e m})"
    using h [of e] by (auto split: if_splits)
  show "finite {m. has_lock s' e m}" unfolding set using d(5) by auto
  show "ncli (cpus s' e) = int (card {m. has_lock s' e m}) + spinning (phases s' e)"
  proof (cases "e = c")
    case True
    have "int (card {m. has_lock s' c m}) + of_bool (has_lock s c l) = int (card {m. has_lock s c m}) + of_bool g"
      using card_toggle [OF d(5) [of c], of g l] set True by simp
    then show ?thesis unfolding True using n d(6) [of c] by linarith
  next
    case False
    then show ?thesis using others d(6) set by simp
  qed
  show "0 < ncli (cpus s' e) \<Longrightarrow> \<not> eflags_if (cpus s' e)"
    using i others d(7) by (cases "e = c") auto
qed


lemma lock_step_inv:
  assumes step: "lock_step s s'" and inv: "lock_inv s"
  shows "lock_inv s'"
  using step
proof cases
  case (enter c l cpu')
  note a = acquire_begin_Ok [OF lock_invD(8) [OF inv] enter(3)]
  have "has_lock s' d m = has_lock s d m" for d m using enter by (auto simp: has_lock_def)
  then show ?thesis
    using enter a lock_invD [OF inv]
    by (intro lock_inv_step [OF inv, of s' c l "has_lock s c l"]) (auto simp: spinning_def split: if_splits)
next
  case (spin c l old lk')
  have "lk' = locks s l" using spin lock_invD(1) [OF inv, of l] by (auto simp: xchg_locked_def)
  then have "s' = s" using spin by simp
  then show ?thesis using inv by simp
next
  case (win c l old lk')
  have lk: "locked (locks s l) = 0" "lk' = (locks s l)\<lparr>locked := 1\<rparr>" using win by (auto simp: xchg_locked_def)
  have nobody: "\<not> has_lock s d l" for d using lock_invD(2) [OF inv, of d l] lk by auto
  have nl: "lk_cpu (locks s l) = None"
    using nobody by (cases "lk_cpu (locks s l)") (auto simp: has_lock_def)
  have h: "has_lock s' d m = (if d = c \<and> m = l then True else has_lock s d m)" for d m
    using win lk by (auto simp: has_lock_def)
  have none: "lk_cpu (locks s' m) = None" if "phases s' d = Won m \<or> phases s' d = Rel m" for d m
    using that win lk nl lock_invD(4) [OF inv, of d m] by (cases "d = c"; cases "m = l") auto
  show ?thesis
    by (rule lock_inv_step [OF inv h]) (use win lk nobody none lock_invD(7) [OF inv] in \<open>auto simp: spinning_def\<close>)
next
  case (own c l)
  have h0: "has_lock s c l" using own by (simp add: has_lock_def)
  have nl: "lk_cpu (locks s l) = None" using lock_invD(4) [OF inv] own by blast
  have h: "has_lock s' d m = (if d = c \<and> m = l then True else has_lock s d m)" for d m
    using own nl by (auto simp: has_lock_def acquire_end_def)
  have none: "lk_cpu (locks s' m) = None" if "phases s' d = Won m \<or> phases s' d = Rel m" for d m
  proof -
    have "d \<noteq> c" using that own by auto
    then have "has_lock s d m" using that own by (auto simp: has_lock_def)
    then have "m \<noteq> l" using lock_invD(3) [OF inv h0, of d] \<open>d \<noteq> c\<close> by auto
    then show ?thesis using that own \<open>d \<noteq> c\<close> lock_invD(4) [OF inv, of d m] by auto
  qed
  show ?thesis
    by (rule lock_inv_step [OF inv h])
      (use own h0 none lock_invD(2,3,7) [OF inv] in \<open>auto simp: spinning_def acquire_end_def\<close>)
next
  case (leave c l lk' cpu')
  note r = release_begin_Ok [OF lock_invD(8) [OF inv] leave(3)]
  have h0: "has_lock s c l" using r(5) by (simp add: has_lock_def)
  have h: "has_lock s' d m = (if d = c \<and> m = l then True else has_lock s d m)" for d m
    using leave r lock_invD(3) [OF inv h0, of d] by (auto simp: has_lock_def)
  have none: "lk_cpu (locks s' m) = None" if "phases s' d = Won m \<or> phases s' d = Rel m" for d m
    using that leave r lock_invD(4) [OF inv, of d m] by (cases "d = c") auto
  show ?thesis
    by (rule lock_inv_step [OF inv h])
      (use leave r h0 none lock_invD(1,2,3,7) [OF inv] in \<open>auto simp: spinning_def\<close>)
next
  case (unlock c l lk' cpu')
  note r = release_end_Ok [OF unlock(3)]
  have h0: "has_lock s c l" using unlock by (simp add: has_lock_def)
  have nl: "lk_cpu (locks s l) = None" using lock_invD(4) [OF inv] unlock by blast
  have alone: "\<not> has_lock s d l" if "d \<noteq> c" for d using lock_invD(3) [OF inv h0, of d] that by auto
  have h: "has_lock s' d m = (if d = c \<and> m = l then False else has_lock s d m)" for d m
    using unlock r nl by (auto simp: has_lock_def)
  have none: "lk_cpu (locks s' m) = None" if "phases s' d = Won m \<or> phases s' d = Rel m" for d m
    using that unlock r lock_invD(4) [OF inv, of d m] nl by (cases "d = c"; cases "m = l") auto
  show ?thesis
    by (rule lock_inv_step [OF inv h])
      (use unlock r h0 none alone in \<open>auto simp: spinning_def\<close>)
qed

lemma lock_reach_inv: "lock_reach s \<Longrightarrow> lock_inv s"
proof (induction rule: lock_reach.induct)
  case start
  then show ?case by (simp add: lock_inv_def lock_init_def has_lock_def initlock_def spinning_def)
next
  case (step s s')
  then show ?case using lock_step_inv by blast
qed


section \<open>Guarantees\<close>

text \<open>
  C17. Mutual exclusion of the spin lock: in every state that any number of processors can reach by
  interleaving the atomic steps of \<open>acquire\<close> and \<open>release\<close> on any number of locks, a lock is held by
  at most one processor, and a processor that holds or waits for a lock has its interrupts off.
\<close>

theorem spinlock_exclusion:
  assumes "lock_reach s"
  shows "(has_lock s c l \<and> has_lock s d l \<longrightarrow> c = d) \<and>
    (has_lock s c l \<or> phases s c = Spin l \<longrightarrow> \<not> eflags_if (cpus s c))"
proof -
  note inv = lock_invD [OF lock_reach_inv [OF assms]]
  have "0 < ncli (cpus s c)" if "has_lock s c l \<or> phases s c = Spin l"
  proof (cases "has_lock s c l")
    case True
    then have "0 < card {m. has_lock s c m}" using inv(5) by (auto simp: card_gt_0_iff)
    then show ?thesis using inv(6) [of c] by (simp add: spinning_def split: phase.split)
  next
    case False
    then show ?thesis using that inv(6) [of c] by (simp add: spinning_def)
  qed
  then show ?thesis using inv(3) inv(7) by blast
qed

text \<open>
  In a reachable state \<open>release\<close> by a processor that is recorded as the owner does not panic, a
  processor that has begun to release can always finish, and \<open>acquire\<close> of a lock that the processor
  holds already panics instead of spinning for ever.
\<close>

theorem spinlock_release:
  assumes "lock_reach s"
  shows "(lk_cpu (locks s l) = Some c \<longrightarrow>
        (\<exists>r. release_begin c (locks s l) (cpus s c) = Ok r) \<and>
        acquire_begin c (locks s l) (cpus s c) = Panic ''acquire'') \<and>
    (phases s c = Rel l \<longrightarrow> (\<exists>r. release_end (locks s l) (cpus s c) = Ok r))"
proof (intro conjI impI)
  note inv = lock_invD [OF lock_reach_inv [OF assms]]
  assume o: "lk_cpu (locks s l) = Some c"
  then have lk: "locked (locks s l) = 1" using inv(2) [of c l] by (simp add: has_lock_def)
  show "\<exists>r. release_begin c (locks s l) (cpus s c) = Ok r"
    by (rule holding_Ok [OF inv(8) [of c], of c "locks s l"]) (auto simp: release_begin_def o lk)
  have "cpu_ok (pushcli (cpus s c))" using inv(8) [of c] by (simp add: cpu_ok_def)
  then show "acquire_begin c (locks s l) (cpus s c) = Panic ''acquire''"
    by (rule holding_Ok [of _ c "locks s l"]) (auto simp: acquire_begin_def o lk)
next
  note inv = lock_invD [OF lock_reach_inv [OF assms]]
  assume p: "phases s c = Rel l"
  then have "has_lock s c l" by (simp add: has_lock_def)
  then have "0 < card {m. has_lock s c m}" using inv(5) by (auto simp: card_gt_0_iff)
  then have "0 < ncli (cpus s c)" using inv(6) [of c] p by (simp add: spinning_def)
  then show "\<exists>r. release_end (locks s l) (cpus s c) = Ok r"
    using inv(7) [of c] by (auto simp: release_end_def popcli_def Let_def)
qed

text \<open>A run in which processor 0 takes lock 0.\<close>

definition demo_locked :: lock_sys where
  "demo_locked = (let s = lock_init; c = (case acquire_begin 0 (locks s 0) (cpus s 0) of Ok c \<Rightarrow> c | _ \<Rightarrow> cpus s 0);
     s1 = s\<lparr>cpus := (cpus s)(0 := c), phases := (phases s)(0 := Spin 0)\<rparr>;
     s2 = s1\<lparr>locks := (locks s1)(0 := snd (xchg_locked (locks s1 0))), phases := (phases s1)(0 := Won 0)\<rparr>
   in s2\<lparr>locks := (locks s2)(0 := acquire_end 0 (locks s2 0)), phases := (phases s2)(0 := Run)\<rparr>)"

lemma demo_locked_reach: "lock_reach demo_locked"
  unfolding demo_locked_def Let_def
  apply (rule lock_reach.step [OF lock_reach.step [OF lock_reach.step [OF lock_reach.start enter] win] own])
  by (simp_all add: lock_init_def initlock_def xchg_locked_def acquire_begin_def holding_def pushcli_def popcli_def Let_def)

lemma demo_locked_owner: "lk_cpu (locks demo_locked 0) = Some 0"
  by (simp add: demo_locked_def Let_def acquire_end_def)

theorem spinlock_exclusion_witness: "\<not> eflags_if (cpus demo_locked 0)"
proof -
  have "has_lock demo_locked 0 0" using demo_locked_owner by (simp add: has_lock_def)
  then show ?thesis using spinlock_exclusion [OF demo_locked_reach] by blast
qed

theorem spinlock_release_witness:
  "acquire_begin 0 (locks demo_locked 0) (cpus demo_locked 0) = Panic ''acquire''"
  using spinlock_release [OF demo_locked_reach] demo_locked_owner by blast

end
