(* ===== verification/Proc.thy ===== *)
theory Proc
  imports Vm Spinlock
begin

text \<open>
  The process table of proc.c and the scheduling operations on it. A pointer to a process is the
  index of its slot. A sleep channel is the object whose address the code uses. The operations are
  the bodies of critical sections under \<open>ptable.lock\<close>: \<open>sleep\<close> and \<open>yield\<close> are cut at the call of
  \<open>swtch\<close> in \<open>sched\<close>, where the processor leaves the process. Operations that also use the file system
  (\<open>fork\<close>, \<open>exit\<close>) are in a later theory.
\<close>

section \<open>Data\<close>

abbreviation (input) NPROC :: nat where "NPROC \<equiv> 64"
abbreviation (input) NOFILE :: nat where "NOFILE \<equiv> 16"
abbreviation (input) KSTACKSIZE :: u32 where "KSTACKSIZE \<equiv> 4096"

datatype procstate = UNUSED | EMBRYO | SLEEPING | RUNNABLE | RUNNING | ZOMBIE

datatype chan = NoChan | ChProc nat | ChTicks | ChSleeplock nat | ChPipeRead nat | ChPipeWrite nat
  | ChLog | ChBuf nat | ChCons

record trapframe =
  t_edi :: u32  t_esi :: u32  t_ebp :: u32  t_oesp :: u32
  t_ebx :: u32  t_edx :: u32  t_ecx :: u32  t_eax :: u32
  t_gs :: u16  t_fs :: u16  t_es :: u16  t_ds :: u16
  t_trapno :: u32  t_err :: u32  t_eip :: u32  t_cs :: u16  t_eflags :: u32
  t_esp :: u32  t_ss :: u16

record proc =
  p_sz :: u32
  p_pgdir :: u32
  kstack :: u32
  pstate :: procstate
  pid :: int
  parent :: "nat option"
  tf :: trapframe
  p_context :: u32
  pchan :: chan
  killed :: bool
  ofile :: "nat option list"
  cwd :: "nat option"
  pname :: "u8 list"

record ptable =
  procs :: "proc list"
  nextpid :: int
  initproc :: "nat option"

definition upd_proc :: "nat \<Rightarrow> (proc \<Rightarrow> proc) \<Rightarrow> ptable \<Rightarrow> ptable" where
  "upd_proc i f t = t\<lparr>procs := (procs t)[i := f (procs t ! i)]\<rparr>"

section \<open>Waking and killing\<close>

definition wakeup1 :: "chan \<Rightarrow> ptable \<Rightarrow> ptable" where
  "wakeup1 ch t =
     t\<lparr>procs := map (\<lambda>p. if pstate p = SLEEPING \<and> pchan p = ch then p\<lparr>pstate := RUNNABLE\<rparr> else p) (procs t)\<rparr>"

definition wakeup :: "chan \<Rightarrow> ptable \<Rightarrow> ptable" where
  "wakeup ch t = wakeup1 ch t"

fun kill_loop :: "int \<Rightarrow> proc list \<Rightarrow> proc list option" where
  "kill_loop n [] = None"
| "kill_loop n (p # ps) =
     (if pid p = n then
        Some (p\<lparr>killed := True, pstate := (if pstate p = SLEEPING then RUNNABLE else pstate p)\<rparr> # ps)
      else map_option (Cons p) (kill_loop n ps))"

definition kill :: "int \<Rightarrow> ptable \<Rightarrow> int \<times> ptable" where
  "kill n t =
     (case kill_loop n (procs t) of
        Some ps \<Rightarrow> (0, t\<lparr>procs := ps\<rparr>)
      | None \<Rightarrow> (-1, t))"

section \<open>Allocation\<close>

fun find_unused :: "nat \<Rightarrow> proc list \<Rightarrow> nat option" where
  "find_unused i [] = None"
| "find_unused i (p # ps) = (if pstate p = UNUSED then Some i else find_unused (Suc i) ps)"

text \<open>A fresh kernel stack page holds the fill pattern of \<open>kfree\<close>, and so does the trap frame in it.\<close>

definition junk_tf :: trapframe where
  "junk_tf = \<lparr>t_edi = 0x01010101, t_esi = 0x01010101, t_ebp = 0x01010101, t_oesp = 0x01010101,
     t_ebx = 0x01010101, t_edx = 0x01010101, t_ecx = 0x01010101, t_eax = 0x01010101,
     t_gs = 0x0101, t_fs = 0x0101, t_es = 0x0101, t_ds = 0x0101, t_trapno = 0x01010101,
     t_err = 0x01010101, t_eip = 0x01010101, t_cs = 0x0101, t_eflags = 0x01010101,
     t_esp = 0x01010101, t_ss = 0x0101\<rparr>"

text \<open>\<open>allocproc\<close>: the first unused slot, a kernel stack, and on it the return address \<open>trapret\<close> and
  a context that starts at \<open>forkret\<close>. The two code addresses are arguments. The trap frame has 76
  bytes and the context 20.\<close>

definition allocproc :: "u32 \<Rightarrow> u32 \<Rightarrow> ptable \<times> kst \<Rightarrow> (nat option \<times> ptable \<times> kst) outcome" where
  "allocproc trapret forkret = (\<lambda>(t, st).
     case find_unused 0 (procs t) of
       None \<Rightarrow> Ok (None, t, st)
     | Some i \<Rightarrow>
         if \<not> c_int (nextpid t + 1) then Fault
         else
           let t = (upd_proc i (\<lambda>p. p\<lparr>pstate := EMBRYO, pid := nextpid t\<rparr>) t)\<lparr>nextpid := nextpid t + 1\<rparr>;
               (stk, st) = kalloc st;
               t = upd_proc i (\<lambda>p. p\<lparr>kstack := stk\<rparr>) t
           in
           if stk = 0 then Ok (None, upd_proc i (\<lambda>p. p\<lparr>pstate := UNUSED\<rparr>) t, st)
           else
             let sp = stk + KSTACKSIZE - 76;
                 m = st32 (kmem st) (sp - 4) trapret;
                 ctx = sp - 4 - 20;
                 m = memset m ctx 0 20;
                 m = st32 m (ctx + 16) forkret
             in Ok (Some i, upd_proc i (\<lambda>p. p\<lparr>tf := junk_tf, p_context := ctx\<rparr>) t, st\<lparr>kmem := m\<rparr>))"

definition growproc :: "u32 \<Rightarrow> nat \<Rightarrow> int \<Rightarrow> ptable \<times> kst \<Rightarrow> (int \<times> ptable \<times> kst) outcome" where
  "growproc kend me n = (\<lambda>(t, st).
     let p = procs t ! me; s = p_sz p in
     obind (if n > 0 then allocuvm kend (p_pgdir p) s (s + to_uint n) st
            else if n < 0 then deallocuvm kend (p_pgdir p) s (s + to_uint n) st
            else Ok (s, st)) (\<lambda>(s', st).
     if n \<noteq> 0 \<and> s' = 0 then Ok (-1, t, st)
     else Ok (0, upd_proc me (\<lambda>p. p\<lparr>p_sz := s'\<rparr>) t, st)))"

section \<open>Waiting\<close>

datatype wait_res = Reaped int | NoKids | MustSleep

text \<open>One scan of the table by \<open>wait\<close>: whether the caller has children, and the first child that has
  exited.\<close>

fun wait_scan :: "nat \<Rightarrow> nat \<Rightarrow> proc list \<Rightarrow> bool \<Rightarrow> bool \<times> nat option" where
  "wait_scan me i [] kids = (kids, None)"
| "wait_scan me i (p # ps) kids =
     (if parent p \<noteq> Some me then wait_scan me (Suc i) ps kids
      else if pstate p = ZOMBIE then (True, Some i)
      else wait_scan me (Suc i) ps True)"

definition clear_slot :: "proc \<Rightarrow> proc" where
  "clear_slot p = p\<lparr>kstack := 0, pid := 0, parent := None, pname := (pname p)[0 := 0], killed := False, pstate := UNUSED\<rparr>"

definition wait_pass :: "u32 \<Rightarrow> nat \<Rightarrow> ptable \<times> kst \<Rightarrow> (wait_res \<times> ptable \<times> kst) outcome" where
  "wait_pass kend me = (\<lambda>(t, st).
     case wait_scan me 0 (procs t) False of
       (_, Some i) \<Rightarrow>
         let p = procs t ! i in
         obind (kfree kend (kstack p) st) (\<lambda>st.
         obind (freevm kend (p_pgdir p) st) (\<lambda>st.
         Ok (Reaped (pid p), upd_proc i clear_slot t, st)))
     | (kids, None) \<Rightarrow>
         if \<not> kids \<or> killed (procs t ! me) then Ok (NoKids, t, st)
         else Ok (MustSleep, t, st))"

section \<open>Scheduling\<close>

text \<open>\<open>sched\<close>: the checks before the switch. \<open>h\<close> tells whether this processor holds \<open>ptable.lock\<close>.\<close>

definition sched_check :: "bool \<Rightarrow> cpu_st \<Rightarrow> proc \<Rightarrow> unit outcome" where
  "sched_check h c p =
     (if \<not> h then Panic ''sched ptable.lock''
      else if ncli c \<noteq> 1 then Panic ''sched locks''
      else if pstate p = RUNNING then Panic ''sched running''
      else if eflags_if c then Panic ''sched interruptible''
      else Ok ())"

definition yield_begin :: "nat \<Rightarrow> ptable \<Rightarrow> ptable" where
  "yield_begin me t = upd_proc me (\<lambda>p. p\<lparr>pstate := RUNNABLE\<rparr>) t"

definition sleep_begin :: "chan \<Rightarrow> nat option \<Rightarrow> bool \<Rightarrow> ptable \<Rightarrow> ptable outcome" where
  "sleep_begin ch me lk t =
     (case me of
        None \<Rightarrow> Panic ''sleep''
      | Some i \<Rightarrow>
          if \<not> lk then Panic ''sleep without lk''
          else Ok (upd_proc i (\<lambda>p. p\<lparr>pchan := ch, pstate := SLEEPING\<rparr>) t))"

definition sleep_end :: "nat \<Rightarrow> ptable \<Rightarrow> ptable" where
  "sleep_end me t = upd_proc me (\<lambda>p. p\<lparr>pchan := NoChan\<rparr>) t"

text \<open>The next slot the scheduler's loop switches to, from slot \<open>i\<close> on.\<close>

fun next_runnable :: "nat \<Rightarrow> proc list \<Rightarrow> nat option" where
  "next_runnable i [] = None"
| "next_runnable i (p # ps) = (if pstate p = RUNNABLE then Some i else next_runnable (Suc i) ps)"

definition scheduler_pick :: "nat \<Rightarrow> ptable \<Rightarrow> (nat \<times> ptable) option" where
  "scheduler_pick from t =
     map_option (\<lambda>i. (i, upd_proc i (\<lambda>p. p\<lparr>pstate := RUNNING\<rparr>) t)) (next_runnable from (drop from (procs t)))"

text \<open>\<open>exit\<close>, from the point where it takes \<open>ptable.lock\<close>: wake the parent, give the children to init
  (waking it for each that has exited), and become a zombie.\<close>

fun reparent :: "nat \<Rightarrow> nat option \<Rightarrow> nat list \<Rightarrow> ptable \<Rightarrow> ptable" where
  "reparent me ini [] t = t"
| "reparent me ini (i # is) t =
     (let p = procs t ! i in
      if parent p = Some me then
        let t = upd_proc i (\<lambda>p. p\<lparr>parent := ini\<rparr>) t;
            t = (if pstate p = ZOMBIE then wakeup1 (case ini of Some n \<Rightarrow> ChProc n | None \<Rightarrow> NoChan) t else t)
        in reparent me ini is t
      else reparent me ini is t)"

definition exit_table :: "nat \<Rightarrow> ptable \<Rightarrow> ptable" where
  "exit_table me t =
     (let t = wakeup1 (case parent (procs t ! me) of Some n \<Rightarrow> ChProc n | None \<Rightarrow> NoChan) t;
          t = reparent me (initproc t) [0..<length (procs t)] t
      in upd_proc me (\<lambda>p. p\<lparr>pstate := ZOMBIE\<rparr>) t)"

end
