(* ===== verification/ProcInv.thy ===== *)
theory ProcInv
  imports Proc
begin

text \<open>
  Invariants of the process table. \<open>proc_step\<close> interleaves the operations of Proc for several
  processors: each step is one critical section under \<open>ptable.lock\<close>. A process sleeps on a process
  address only in \<open>wait\<close>, after a scan that found children and no zombie among them. \<open>running c\<close> is the process on
  processor \<open>c\<close>, and \<open>mk i\<close> the slot that process \<open>i\<close> is filling in \<open>fork\<close>.
\<close>

section \<open>Steps\<close>

record psys =
  tab :: ptable
  running :: "nat \<Rightarrow> nat option"
  mk :: "nat \<Rightarrow> nat option"

inductive proc_step :: "psys \<Rightarrow> psys \<Rightarrow> bool" where
  sched_in: "running s c = None \<Longrightarrow> scheduler_pick from (tab s) = Some (i, t) \<Longrightarrow>
    proc_step s (s\<lparr>tab := t, running := (running s)(c := Some i)\<rparr>)"
| yield: "running s c = Some i \<Longrightarrow>
    proc_step s (s\<lparr>tab := yield_begin i (tab s), running := (running s)(c := None)\<rparr>)"
| sleep: "running s c = Some i \<Longrightarrow> (\<forall>j. ch \<noteq> ChProc j) \<Longrightarrow> sleep_begin ch (Some i) True (tab s) = Ok t \<Longrightarrow>
    proc_step s (s\<lparr>tab := t, running := (running s)(c := None)\<rparr>)"
| wait_sleep: "running s c = Some i \<Longrightarrow> wait_scan i 0 (procs (tab s)) False = (True, None) \<Longrightarrow>
    sleep_begin (ChProc i) (Some i) True (tab s) = Ok t \<Longrightarrow>
    proc_step s (s\<lparr>tab := t, running := (running s)(c := None)\<rparr>)"
| slept: "running s c = Some i \<Longrightarrow> proc_step s (s\<lparr>tab := sleep_end i (tab s)\<rparr>)"
| wake: "proc_step s (s\<lparr>tab := wakeup ch (tab s)\<rparr>)"
| kill: "proc_step s (s\<lparr>tab := snd (kill n (tab s))\<rparr>)"
| fork: "running s c = Some i \<Longrightarrow> mk s i = None \<Longrightarrow>
    allocproc trapret forkret (tab s, st) = Ok (Some j, t, st') \<Longrightarrow>
    proc_step s (s\<lparr>tab := t, mk := (mk s)(i := Some j)\<rparr>)"
| fork_none: "running s c = Some i \<Longrightarrow> mk s i = None \<Longrightarrow>
    allocproc trapret forkret (tab s, st) = Ok (None, t, st') \<Longrightarrow>
    proc_step s (s\<lparr>tab := t\<rparr>)"
| fork_fail: "running s c = Some i \<Longrightarrow> mk s i = Some j \<Longrightarrow>
    proc_step s (s\<lparr>tab := upd_proc j (\<lambda>p. p\<lparr>kstack := 0, pstate := UNUSED\<rparr>) (tab s), mk := (mk s)(i := None)\<rparr>)"
| fork_done: "running s c = Some i \<Longrightarrow> mk s i = Some j \<Longrightarrow>
    proc_step s (s\<lparr>tab := upd_proc j (\<lambda>p. p\<lparr>parent := Some i, pstate := RUNNABLE\<rparr>) (tab s), mk := (mk s)(i := None)\<rparr>)"
| exit: "running s c = Some i \<Longrightarrow> mk s i = None \<Longrightarrow> initproc (tab s) \<noteq> Some i \<Longrightarrow>
    proc_step s (s\<lparr>tab := exit_table i (tab s), running := (running s)(c := None)\<rparr>)"
| reap: "running s c = Some i \<Longrightarrow> wait_scan i 0 (procs (tab s)) False = (k, Some j) \<Longrightarrow>
    proc_step s (s\<lparr>tab := upd_proc j clear_slot (tab s)\<rparr>)"

section \<open>The part of a slot the invariant speaks about\<close>

text \<open>Whether a process sleeps or waits for a processor makes no difference here.\<close>

fun cls :: "procstate \<Rightarrow> procstate" where
  "cls SLEEPING = RUNNABLE"
| "cls s = s"

definition core :: "proc \<Rightarrow> procstate \<times> int \<times> nat option" where
  "core p = (cls (pstate p), pid p, parent p)"

type_synonym core_map = "nat \<rightharpoonup> procstate \<times> int \<times> nat option"

definition cmap :: "ptable \<Rightarrow> core_map" where
  "cmap t j = (if j < length (procs t) then Some (core (procs t ! j)) else None)"

lemma cmap_upd: "i < length (procs t) \<Longrightarrow> cmap (upd_proc i f t) = (cmap t)(i \<mapsto> core (f (procs t ! i)))"
  by (auto simp: cmap_def upd_proc_def fun_eq_iff)

lemma cmap_map: "map core (procs t') = map core (procs t) \<Longrightarrow> cmap t' = cmap t"
  by (auto simp: cmap_def fun_eq_iff dest: map_eq_imp_length_eq) (metis nth_map map_eq_imp_length_eq)

lemma cmap_wakeup [simp]: "cmap (wakeup1 ch t) = cmap t" "cmap (wakeup ch t) = cmap t"
  by (auto intro!: cmap_map simp: wakeup1_def wakeup_def core_def)

lemma kill_loop_core: "kill_loop n ps = Some qs \<Longrightarrow> map core qs = map core ps"
  by (induction ps arbitrary: qs) (auto simp: core_def split: if_splits)

lemma cmap_kill [simp]: "cmap (snd (kill n t)) = cmap t"
  by (auto simp: kill_def intro!: cmap_map dest: kill_loop_core split: option.splits)

lemma other_fields [simp]: "nextpid (wakeup1 ch t) = nextpid t" "initproc (wakeup1 ch t) = initproc t"
  "nextpid (wakeup ch t) = nextpid t" "initproc (wakeup ch t) = initproc t"
  "nextpid (snd (kill n t)) = nextpid t" "initproc (snd (kill n t)) = initproc t"
  "nextpid (upd_proc i f t) = nextpid t" "initproc (upd_proc i f t) = initproc t"
  "length (procs (upd_proc i f t)) = length (procs t)" "length (procs (wakeup1 ch t)) = length (procs t)"
  by (auto simp: wakeup1_def wakeup_def kill_def upd_proc_def split: option.splits)

lemma find_unused_Some: "find_unused k ps = Some i \<Longrightarrow> k \<le> i \<and> i - k < length ps \<and> pstate (ps ! (i - k)) = UNUSED"
proof (induction ps arbitrary: k)
  case (Cons p ps)
  then show ?case by (cases "i = k") (fastforce split: if_splits simp: nth_Cons')+
qed simp

lemma next_runnable_Some: "next_runnable k ps = Some i \<Longrightarrow> k \<le> i \<and> i - k < length ps \<and> pstate (ps ! (i - k)) = RUNNABLE"
proof (induction ps arbitrary: k)
  case (Cons p ps)
  then show ?case by (cases "i = k") (fastforce split: if_splits simp: nth_Cons')+
qed simp

lemma wait_scan_Some: "wait_scan me k ps kids = (b, Some j) \<Longrightarrow>
    k \<le> j \<and> j - k < length ps \<and> pstate (ps ! (j - k)) = ZOMBIE \<and> parent (ps ! (j - k)) = Some me"
proof (induction ps arbitrary: k kids)
  case (Cons p ps)
  then show ?case by (cases "j = k") (fastforce split: if_splits simp: nth_Cons')+
qed simp

section \<open>The invariant\<close>

definition alive :: "core_map \<Rightarrow> nat \<Rightarrow> bool" where
  "alive C k \<longleftrightarrow> (\<exists>s p q. C k = Some (s, p, q) \<and> (s = RUNNABLE \<or> s = RUNNING))"

definition run_inv :: "core_map \<Rightarrow> (nat \<Rightarrow> nat option) \<Rightarrow> bool" where
  "run_inv C run \<longleftrightarrow> (\<forall>c i. run c = Some i \<longrightarrow> (\<exists>p q. C i = Some (RUNNING, p, q))) \<and>
     (\<forall>c d i. run c = Some i \<longrightarrow> run d = Some i \<longrightarrow> c = d) \<and>
     (\<forall>i p q. C i = Some (RUNNING, p, q) \<longrightarrow> (\<exists>c. run c = Some i))"

definition mk_inv :: "core_map \<Rightarrow> (nat \<Rightarrow> nat option) \<Rightarrow> bool" where
  "mk_inv C m \<longleftrightarrow> (\<forall>i j. m i = Some j \<longrightarrow> (\<exists>p q. C j = Some (EMBRYO, p, q)) \<and> alive C i) \<and>
     (\<forall>i k j. m i = Some j \<longrightarrow> m k = Some j \<longrightarrow> i = k)"

definition parent_inv :: "core_map \<Rightarrow> nat option \<Rightarrow> bool" where
  "parent_inv C ini \<longleftrightarrow> (\<exists>k. ini = Some k \<and> alive C k) \<and>
     (\<forall>j s p q. C j = Some (s, p, q) \<longrightarrow> s \<noteq> UNUSED \<longrightarrow> s \<noteq> EMBRYO \<longrightarrow> ini \<noteq> Some j \<longrightarrow>
        (\<exists>i. q = Some i \<and> i \<noteq> j \<and> alive C i))"

definition pid_inv :: "core_map \<Rightarrow> int \<Rightarrow> bool" where
  "pid_inv C n \<longleftrightarrow> 1 \<le> n \<and> (\<forall>j s p q. C j = Some (s, p, q) \<longrightarrow> s \<noteq> UNUSED \<longrightarrow> 1 \<le> p \<and> p < n) \<and>
     (\<forall>j k s s' p q q'. C j = Some (s, p, q) \<longrightarrow> C k = Some (s', p, q') \<longrightarrow> s \<noteq> UNUSED \<longrightarrow> s' \<noteq> UNUSED \<longrightarrow> j = k)"

text \<open>Updates of one slot.\<close>

lemma alive_upd: "alive (C(i \<mapsto> (s, p, q))) k \<longleftrightarrow> (if k = i then s = RUNNABLE \<or> s = RUNNING else alive C k)"
  by (auto simp: alive_def)

lemma pid_invD:
  assumes "pid_inv C n"
  shows "1 \<le> n" "C j = Some (s, p, q) \<Longrightarrow> s \<noteq> UNUSED \<Longrightarrow> 1 \<le> p \<and> p < n"
    "C j = Some (s, p, q) \<Longrightarrow> C k = Some (s', p, q') \<Longrightarrow> s \<noteq> UNUSED \<Longrightarrow> s' \<noteq> UNUSED \<Longrightarrow> j = k"
  using assms unfolding pid_inv_def by blast+

lemma pid_inv_upd:
  assumes inv: "pid_inv C n" and n: "n \<le> n'"
    and new: "s \<noteq> UNUSED \<Longrightarrow> 1 \<le> p \<and> p < n' \<and> (\<forall>k s' q'. k \<noteq> i \<longrightarrow> C k = Some (s', p, q') \<longrightarrow> s' = UNUSED)"
  shows "pid_inv (C(i \<mapsto> (s, p, q))) n'"
  unfolding pid_inv_def
proof (intro conjI allI impI)
  show "1 \<le> n'" using pid_invD(1) [OF inv] n by linarith
next
  fix j t r u assume a: "(C(i \<mapsto> (s, p, q))) j = Some (t, r, u)" "t \<noteq> UNUSED"
  then have "1 \<le> r \<and> r < n'" using new pid_invD(2) [OF inv, of j t r u] n by (cases "j = i") auto
  then show "1 \<le> r" "r < n'" by auto
next
  fix j k t t' r u u'
  assume a: "(C(i \<mapsto> (s, p, q))) j = Some (t, r, u)" "(C(i \<mapsto> (s, p, q))) k = Some (t', r, u')" "t \<noteq> UNUSED" "t' \<noteq> UNUSED"
  then show "j = k"
    using new pid_invD(3) [OF inv, of j t r u k t' u'] by (cases "j = i"; cases "k = i") auto
qed

lemma pid_inv_same: "pid_inv C n \<Longrightarrow> C i = Some (s0, p, q0) \<Longrightarrow> s0 \<noteq> UNUSED \<Longrightarrow> pid_inv (C(i \<mapsto> (s, p, q))) n"
  using pid_invD(2,3) by (intro pid_inv_upd) (auto, metis)

lemma pid_inv_new:
  assumes "pid_inv C n"
  shows "pid_inv (C(i \<mapsto> (s, n, q))) (n + 1)"
proof (rule pid_inv_upd [OF assms])
  have "s' = UNUSED" if "C k = Some (s', n, q')" for k s' q'
    using pid_invD(2) [OF assms that] by auto
  then show "1 \<le> n \<and> n < n + 1 \<and> (\<forall>k s' q'. k \<noteq> i \<longrightarrow> C k = Some (s', n, q') \<longrightarrow> s' = UNUSED)"
    using pid_invD(1) [OF assms] by auto
qed simp

lemma pid_inv_unused: "pid_inv C n \<Longrightarrow> n \<le> n' \<Longrightarrow> pid_inv (C(i \<mapsto> (UNUSED, p, q))) n'"
  by (rule pid_inv_upd) auto

lemma run_invD:
  assumes "run_inv C run"
  shows "run c = Some i \<Longrightarrow> \<exists>p q. C i = Some (RUNNING, p, q)" "run c = Some i \<Longrightarrow> run d = Some i \<Longrightarrow> c = d"
    "C i = Some (RUNNING, p, q) \<Longrightarrow> \<exists>c. run c = Some i"
  using assms unfolding run_inv_def by blast+

text \<open>A slot that is not running changes to another state in which it does not run.\<close>

lemma run_inv_other:
  assumes inv: "run_inv C run" and i: "\<And>p q. C i \<noteq> Some (RUNNING, p, q)" and s: "s \<noteq> RUNNING"
  shows "run_inv (C(i \<mapsto> (s, p, q))) run"
  unfolding run_inv_def
proof (intro conjI allI impI)
  fix c j assume c: "run c = Some j"
  then have "j \<noteq> i" using run_invD(1) [OF inv c] i by auto
  then show "\<exists>p' q'. (C(i \<mapsto> (s, p, q))) j = Some (RUNNING, p', q')" using run_invD(1) [OF inv c] by simp
next
  fix j p' q' assume "(C(i \<mapsto> (s, p, q))) j = Some (RUNNING, p', q')"
  then show "\<exists>c. run c = Some j" using s run_invD(3) [OF inv, of j p' q'] by (auto split: if_splits)
qed (rule run_invD(2) [OF inv])

lemma run_inv_in:
  assumes inv: "run_inv C run" and c: "run c = None" and i: "\<And>p q. C i \<noteq> Some (RUNNING, p, q)"
  shows "run_inv (C(i \<mapsto> (RUNNING, p, q))) (run(c := Some i))"
  unfolding run_inv_def
proof (intro conjI allI impI)
  fix d j assume "(run(c := Some i)) d = Some j"
  then show "\<exists>p' q'. (C(i \<mapsto> (RUNNING, p, q))) j = Some (RUNNING, p', q')"
    using run_invD(1) [OF inv, of d j] by (auto split: if_splits)
next
  fix d e j assume h: "(run(c := Some i)) d = Some j" "(run(c := Some i)) e = Some j"
  have "run e \<noteq> Some i" for e using run_invD(1) [OF inv, of e i] i by auto
  then show "d = e" using h run_invD(2) [OF inv, of d j e] by (auto split: if_splits)
next
  fix j p' q' assume "(C(i \<mapsto> (RUNNING, p, q))) j = Some (RUNNING, p', q')"
  then obtain d where "j = i \<or> run d = Some j" using run_invD(3) [OF inv, of j p' q'] by (auto split: if_splits)
  moreover have "d \<noteq> c" if "run d = Some j" using that c by auto
  ultimately show "\<exists>d. (run(c := Some i)) d = Some j" by (metis fun_upd_other fun_upd_same)
qed

lemma run_inv_out:
  assumes inv: "run_inv C run" and c: "run c = Some i" and s: "s \<noteq> RUNNING"
  shows "run_inv (C(i \<mapsto> (s, p, q))) (run(c := None))"
  unfolding run_inv_def
proof (intro conjI allI impI)
  fix d j assume h: "(run(c := None)) d = Some j"
  then have "d \<noteq> c" "run d = Some j" by (auto split: if_splits)
  moreover then have "j \<noteq> i" using run_invD(2) [OF inv c, of d] by auto
  ultimately show "\<exists>p' q'. (C(i \<mapsto> (s, p, q))) j = Some (RUNNING, p', q')" using run_invD(1) [OF inv, of d j] by simp
next
  fix d e j assume "(run(c := None)) d = Some j" "(run(c := None)) e = Some j"
  then show "d = e" using run_invD(2) [OF inv, of d j e] by (auto split: if_splits)
next
  fix j p' q' assume j: "(C(i \<mapsto> (s, p, q))) j = Some (RUNNING, p', q')"
  then obtain d where "run d = Some j" "j \<noteq> i" using s run_invD(3) [OF inv, of j p' q'] by (auto split: if_splits)
  then show "\<exists>d. (run(c := None)) d = Some j" using c by (metis fun_upd_other option.inject)
qed

lemma mk_invD:
  assumes "mk_inv C m"
  shows "m i = Some j \<Longrightarrow> \<exists>p q. C j = Some (EMBRYO, p, q)" "m i = Some j \<Longrightarrow> alive C i"
    "m i = Some j \<Longrightarrow> m k = Some j \<Longrightarrow> i = k"
  using assms unfolding mk_inv_def by blast+

text \<open>A change of a slot that is not being made, between states of equal liveness for its makers.\<close>

lemma mk_inv_upd:
  assumes inv: "mk_inv C m" and i: "\<And>p q. C i \<noteq> Some (EMBRYO, p, q)" and l: "m i = None \<or> s = RUNNABLE \<or> s = RUNNING"
  shows "mk_inv (C(i \<mapsto> (s, p, q))) m"
  unfolding mk_inv_def
proof (intro conjI allI impI)
  fix k j assume k: "m k = Some j"
  then have "j \<noteq> i" using mk_invD(1) [OF inv k] i by auto
  then show "\<exists>p' q'. (C(i \<mapsto> (s, p, q))) j = Some (EMBRYO, p', q')" using mk_invD(1) [OF inv k] by simp
  show "alive (C(i \<mapsto> (s, p, q))) k" using mk_invD(2) [OF inv k] k l by (auto simp: alive_upd)
qed (rule mk_invD(3) [OF inv])

lemma mk_inv_start:
  assumes inv: "mk_inv C m" and j: "C j = Some (UNUSED, p0, q0)" and i: "alive C i"
  shows "mk_inv (C(j \<mapsto> (EMBRYO, p, q))) (m(i := Some j))"
  unfolding mk_inv_def
proof (intro conjI allI impI)
  have nj: "m k \<noteq> Some j" for k using mk_invD(1) [OF inv, of k j] j by auto
  have na: "\<not> alive C j" using j by (simp add: alive_def)
  fix k l assume k: "(m(i := Some j)) k = Some l"
  then show "\<exists>p' q'. (C(j \<mapsto> (EMBRYO, p, q))) l = Some (EMBRYO, p', q')"
    using mk_invD(1) [OF inv, of k l] by (auto split: if_splits)
  have "alive C k" using k i mk_invD(2) [OF inv, of k l] by (auto split: if_splits)
  then show "alive (C(j \<mapsto> (EMBRYO, p, q))) k" using na by (auto simp: alive_upd)
  show "k = k'" if "(m(i := Some j)) k' = Some l" for k'
    using k that nj mk_invD(3) [OF inv, of k l k'] by (auto split: if_splits)
qed

lemma mk_inv_stop:
  assumes inv: "mk_inv C m" and j: "m i = Some j"
  shows "mk_inv (C(j \<mapsto> (s, p, q))) (m(i := None))"
  unfolding mk_inv_def
proof (intro conjI allI impI)
  fix k l assume k: "(m(i := None)) k = Some l"
  then have h: "k \<noteq> i" "m k = Some l" by (auto split: if_splits)
  then have "l \<noteq> j" using mk_invD(3) [OF inv j, of k] by auto
  then show "\<exists>p' q'. (C(j \<mapsto> (s, p, q))) l = Some (EMBRYO, p', q')" using mk_invD(1) [OF inv h(2)] by simp
  have "k \<noteq> j" using mk_invD(2) [OF inv h(2)] mk_invD(1) [OF inv j] by (auto simp: alive_def)
  then show "alive (C(j \<mapsto> (s, p, q))) k" using mk_invD(2) [OF inv h(2)] by (simp add: alive_upd)
  show "k = k'" if "(m(i := None)) k' = Some l" for k'
    using h that mk_invD(3) [OF inv, of k l k'] by (auto split: if_splits)
qed

lemma parent_invD:
  assumes "parent_inv C ini"
  shows "\<exists>k. ini = Some k \<and> alive C k"
    "C j = Some (s, p, q) \<Longrightarrow> s \<noteq> UNUSED \<Longrightarrow> s \<noteq> EMBRYO \<Longrightarrow> ini \<noteq> Some j \<Longrightarrow> \<exists>i. q = Some i \<and> i \<noteq> j \<and> alive C i"
  using assms unfolding parent_inv_def by blast+

lemma parent_inv_upd:
  assumes inv: "parent_inv C ini" and keep: "alive C i \<Longrightarrow> s = RUNNABLE \<or> s = RUNNING"
    and new: "s \<noteq> UNUSED \<Longrightarrow> s \<noteq> EMBRYO \<Longrightarrow> ini \<noteq> Some i \<Longrightarrow> \<exists>k. q = Some k \<and> k \<noteq> i \<and> alive C k"
  shows "parent_inv (C(i \<mapsto> (s, p, q))) ini"
  unfolding parent_inv_def
proof (intro conjI allI impI)
  have al: "alive (C(i \<mapsto> (s, p, q))) k" if "alive C k" for k using that keep by (auto simp: alive_upd)
  show "\<exists>k. ini = Some k \<and> alive (C(i \<mapsto> (s, p, q))) k" using parent_invD(1) [OF inv] al by blast
  fix j t r u assume h: "(C(i \<mapsto> (s, p, q))) j = Some (t, r, u)" "t \<noteq> UNUSED" "t \<noteq> EMBRYO" "ini \<noteq> Some j"
  then have "\<exists>k. u = Some k \<and> k \<noteq> j \<and> alive C k" using new parent_invD(2) [OF inv, of j t r u] by (auto split: if_splits)
  then show "\<exists>k. u = Some k \<and> k \<noteq> j \<and> alive (C(i \<mapsto> (s, p, q))) k" using al by blast
qed

section \<open>Exit\<close>

definition adopt :: "nat \<Rightarrow> nat option \<Rightarrow> procstate \<times> int \<times> nat option \<Rightarrow> procstate \<times> int \<times> nat option" where
  "adopt me ini = (\<lambda>(s, p, q). (s, p, if q = Some me then ini else q))"

lemma reparent_fields [simp]: "length (procs (reparent me ini ks t)) = length (procs t)"
  "nextpid (reparent me ini ks t) = nextpid t" "initproc (reparent me ini ks t) = initproc t"
  by (induction ks arbitrary: t) (auto simp: Let_def)

lemma cmap_reparent:
  "ini \<noteq> Some me \<Longrightarrow> cmap (reparent me ini ks t) = (\<lambda>k. if k \<in> set ks then map_option (adopt me ini) (cmap t k) else cmap t k)"
proof (induction ks arbitrary: t)
  case (Cons i ks)
  have ad: "adopt me ini (adopt me ini c) = adopt me ini c" for c using Cons.prems by (auto simp: adopt_def split: prod.splits)
  define t1 where "t1 = (if parent (procs t ! i) = Some me then
      (if pstate (procs t ! i) = ZOMBIE then wakeup1 (case ini of Some n \<Rightarrow> ChProc n | None \<Rightarrow> NoChan)
         (upd_proc i (\<lambda>p. p\<lparr>parent := ini\<rparr>) t) else upd_proc i (\<lambda>p. p\<lparr>parent := ini\<rparr>) t) else t)"
  have run: "reparent me ini (i # ks) t = reparent me ini ks t1" by (simp add: t1_def Let_def)
  have one: "cmap t1 = (\<lambda>k. if k = i then map_option (adopt me ini) (cmap t k) else cmap t k)"
  proof (cases "i < length (procs t)")
    case True
    then show ?thesis by (auto simp: t1_def cmap_upd fun_eq_iff) (auto simp: cmap_def core_def adopt_def)
  next
    case False
    then have "upd_proc i f t = t" for f by (simp add: upd_proc_def list_update_beyond)
    then have "cmap t1 = cmap t" by (simp add: t1_def)
    then show ?thesis using False by (auto simp: cmap_def fun_eq_iff)
  qed
  show ?case unfolding run Cons.IH [OF Cons.prems] one by (auto simp: fun_eq_iff ad option.map_comp comp_def)
qed auto

lemma cmap_exit:
  assumes "me < length (procs t)" "initproc t \<noteq> Some me"
  obtains p q where "cmap (exit_table me t) = (\<lambda>k. map_option (adopt me (initproc t)) (cmap t k))(me \<mapsto> (ZOMBIE, p, q))"
    "map_option (adopt me (initproc t)) (cmap t me) = Some (cls (pstate (procs t ! me)), p, q)"
proof -
  let ?w = "wakeup1 (case parent (procs t ! me) of Some n \<Rightarrow> ChProc n | None \<Rightarrow> NoChan) t"
  let ?r = "reparent me (initproc t) [0..<length (procs t)] ?w"
  have r: "cmap ?r = (\<lambda>k. map_option (adopt me (initproc t)) (cmap t k))"
    unfolding cmap_reparent [OF assms(2)] by (auto simp: fun_eq_iff cmap_def)
  have e: "exit_table me t = upd_proc me (\<lambda>p. p\<lparr>pstate := ZOMBIE\<rparr>) ?r" by (simp add: exit_table_def Let_def)
  have "cmap (exit_table me t) = (cmap ?r)(me \<mapsto> (ZOMBIE, pid (procs ?r ! me), parent (procs ?r ! me)))"
    unfolding e by (subst cmap_upd) (auto simp: core_def assms(1))
  moreover have "cmap ?r me = Some (core (procs ?r ! me))" using assms(1) by (simp add: cmap_def)
  moreover have "fst (core (procs ?r ! me)) = cls (pstate (procs t ! me))"
    using calculation(2) r assms(1) by (auto simp: cmap_def core_def adopt_def fun_eq_iff split: if_splits dest!: spec [of _ me])
  ultimately show ?thesis using that unfolding r by (metis core_def fst_conv)
qed

lemma exit_parent_inv:
  assumes inv: "parent_inv C ini" and i: "C i = Some (RUNNING, p0, q0)" "ini \<noteq> Some i"
    and pq: "map_option (adopt i ini) (C i) = Some (RUNNING, p, q)"
  shows "parent_inv ((\<lambda>k. map_option (adopt i ini) (C k))(i \<mapsto> (ZOMBIE, p, q))) ini"
  unfolding parent_inv_def
proof (intro conjI allI impI)
  let ?C = "(\<lambda>k. map_option (adopt i ini) (C k))(i \<mapsto> (ZOMBIE, p, q))"
  have al: "alive ?C k" if "alive C k" "k \<noteq> i" for k using that by (auto simp: alive_def adopt_def)
  obtain n where n: "ini = Some n" "alive C n" using parent_invD(1) [OF inv] by blast
  then show "\<exists>k. ini = Some k \<and> alive ?C k" using al i(2) by auto
  have fix_parent: "\<exists>k. u = Some k \<and> k \<noteq> j \<and> alive ?C k" if "adopt i ini (s, r, v) = (s', r', u)" "v = Some l" "alive C l" "l \<noteq> j" "ini \<noteq> Some j" for s r v s' r' u l j
    using that al n i(2) by (auto simp: adopt_def split: if_splits)
  fix j t r u assume h: "?C j = Some (t, r, u)" "t \<noteq> UNUSED" "t \<noteq> EMBRYO" "ini \<noteq> Some j"
  show "\<exists>k. u = Some k \<and> k \<noteq> j \<and> alive ?C k"
  proof (cases "j = i")
    case True
    obtain l where "q0 = Some l" "alive C l" "l \<noteq> i" using parent_invD(2) [OF inv i(1)] i(2) by auto
    then show ?thesis using fix_parent [of RUNNING p0 q0] True h(1) pq i by auto
  next
    case False
    then obtain v where v: "C j = Some (t, r, v)" "adopt i ini (t, r, v) = (t, r, u)"
      using h(1) by (auto simp: adopt_def)
    then obtain l where "v = Some l" "alive C l" "l \<noteq> j" using parent_invD(2) [OF inv v(1)] h by auto
    then show ?thesis using fix_parent [OF v(2)] h(4) by blast
  qed
qed

lemma adopt_Some: "map_option (adopt i ini) (C k) = Some (s, p, q) \<longleftrightarrow>
    (\<exists>q0. C k = Some (s, p, q0) \<and> q = (if q0 = Some i then ini else q0))"
  by (cases "C k") (auto simp: adopt_def split: prod.splits)

lemma alive_adopt: "alive (\<lambda>k. map_option (adopt i ini) (C k)) k \<longleftrightarrow> alive C k"
  unfolding alive_def adopt_Some by blast

lemma adopt_invs:
  "run_inv C run \<Longrightarrow> run_inv (\<lambda>k. map_option (adopt i ini) (C k)) run"
  "mk_inv C m \<Longrightarrow> mk_inv (\<lambda>k. map_option (adopt i ini) (C k)) m"
  "pid_inv C n \<Longrightarrow> pid_inv (\<lambda>k. map_option (adopt i ini) (C k)) n"
  subgoal unfolding run_inv_def adopt_Some by blast
  subgoal unfolding mk_inv_def adopt_Some alive_adopt by blast
  subgoal unfolding pid_inv_def adopt_Some by blast
  done

definition proc_inv :: "psys \<Rightarrow> bool" where
  "proc_inv s \<longleftrightarrow> run_inv (cmap (tab s)) (running s) \<and> mk_inv (cmap (tab s)) (mk s) \<and>
     parent_inv (cmap (tab s)) (initproc (tab s)) \<and> pid_inv (cmap (tab s)) (nextpid (tab s))"

lemma cmap_Some: "cmap t i = Some c \<Longrightarrow> i < length (procs t) \<and> c = core (procs t ! i)"
  by (auto simp: cmap_def split: if_splits)

lemma running_slot:
  assumes "proc_inv s" "running s c = Some i"
  shows "i < length (procs (tab s))" "pstate (procs (tab s) ! i) = RUNNING" "cmap (tab s) i = Some (RUNNING, pid (procs (tab s) ! i), parent (procs (tab s) ! i))"
proof -
  obtain p q where "cmap (tab s) i = Some (RUNNING, p, q)"
    using assms run_invD(1) unfolding proc_inv_def by blast
  moreover have "pstate (procs (tab s) ! i) = RUNNING" if "cls (pstate (procs (tab s) ! i)) = RUNNING"
    using that by (cases "pstate (procs (tab s) ! i)") auto
  ultimately show "i < length (procs (tab s))" "pstate (procs (tab s) ! i) = RUNNING"
      "cmap (tab s) i = Some (RUNNING, pid (procs (tab s) ! i), parent (procs (tab s) ! i))"
    using cmap_Some by (auto simp: core_def)
qed

text \<open>A change of one slot that keeps its number and parent, and does not touch the making of slots.\<close>

lemma slot_step:
  assumes inv: "proc_inv s" and i: "cmap (tab s) i = Some (s0, p, q)" "s0 = RUNNABLE \<or> s0 = RUNNING" "s1 = RUNNABLE \<or> s1 = RUNNING"
    and t: "cmap t = (cmap (tab s))(i \<mapsto> (s1, p, q))" "nextpid t = nextpid (tab s)" "initproc t = initproc (tab s)"
    and r: "run_inv (cmap t) run"
  shows "proc_inv (s\<lparr>tab := t, running := run\<rparr>)"
proof -
  have "mk_inv (cmap t) (mk s)" "parent_inv (cmap t) (initproc t)" "pid_inv (cmap t) (nextpid t)"
    using inv i unfolding t proc_inv_def
    by (auto intro!: mk_inv_upd parent_inv_upd pid_inv_same dest: parent_invD(2))
  then show ?thesis using r by (simp add: proc_inv_def)
qed

lemma allocproc_None:
  assumes "allocproc trapret forkret (t, st) = Ok (None, t', st')"
  shows "t' = t \<or> (\<exists>i p0 q0 p q. cmap t i = Some (UNUSED, p0, q0) \<and> cmap t' = (cmap t)(i \<mapsto> (UNUSED, p, q)) \<and>
    nextpid t' = nextpid t + 1 \<and> initproc t' = initproc t)"
proof (cases "find_unused 0 (procs t)")
  case None
  then show ?thesis using assms by (simp add: allocproc_def)
next
  case (Some i)
  note u = find_unused_Some [OF Some]
  have c: "cmap t i = Some (UNUSED, pid (procs t ! i), parent (procs t ! i))" using u by (simp add: cmap_def core_def)
  have "cmap t' = (cmap t)(i \<mapsto> (UNUSED, nextpid t, parent (procs t ! i)))" "nextpid t' = nextpid t + 1" "initproc t' = initproc t"
    using assms Some u by (auto simp: allocproc_def Let_def split: if_splits prod.splits)
      (auto simp: cmap_def upd_proc_def fun_eq_iff core_def)
  then show ?thesis using c by blast
qed

lemma allocproc_Some:
  assumes "allocproc trapret forkret (t, st) = Ok (Some j, t', st')"
  obtains p0 q where "cmap t j = Some (UNUSED, p0, q)" "cmap t' = (cmap t)(j \<mapsto> (EMBRYO, nextpid t, q))"
    "nextpid t' = nextpid t + 1" "initproc t' = initproc t"
proof (cases "find_unused 0 (procs t)")
  case None
  then show ?thesis using assms by (simp add: allocproc_def)
next
  case (Some i)
  note u = find_unused_Some [OF Some]
  have c: "cmap t i = Some (UNUSED, pid (procs t ! i), parent (procs t ! i))" using u by (simp add: cmap_def core_def)
  have ij: "i = j" using assms Some by (auto simp: allocproc_def Let_def split: if_splits prod.splits)
  show ?thesis
  proof (rule that)
    show "cmap t j = Some (UNUSED, pid (procs t ! i), parent (procs t ! i))" using c ij by simp
    show "cmap t' = (cmap t)(j \<mapsto> (EMBRYO, nextpid t, parent (procs t ! i)))" "nextpid t' = nextpid t + 1" "initproc t' = initproc t"
      using assms Some u ij by (auto simp: allocproc_def Let_def split: if_splits prod.splits)
        (auto simp: cmap_def upd_proc_def fun_eq_iff core_def)
  qed
qed

lemma sleep_inv:
  assumes inv: "proc_inv s" and run: "running s c = Some i" and sl: "sleep_begin ch (Some i) True (tab s) = Ok t"
  shows "proc_inv (s\<lparr>tab := t, running := (running s)(c := None)\<rparr>)"
proof -
  note I = inv [unfolded proc_inv_def]
  note r = running_slot [OF inv run]
  have t: "cmap t = (cmap (tab s))(i \<mapsto> (RUNNABLE, pid (procs (tab s) ! i), parent (procs (tab s) ! i)))"
      "nextpid t = nextpid (tab s)" "initproc t = initproc (tab s)"
    using r sl by (auto simp: sleep_begin_def cmap_upd core_def)
  show ?thesis
    by (rule slot_step [OF inv r(3) _ _ t]) (use I run in \<open>auto simp: t intro!: run_inv_out\<close>)
qed

lemma proc_step_inv:
  assumes step: "proc_step s s'" and inv: "proc_inv s"
  shows "proc_inv s'"
  using step
proof cases
  note I = inv [unfolded proc_inv_def]
  case (sched_in c k i t)
  have "next_runnable k (drop k (procs (tab s))) = Some i" using sched_in(3) by (auto simp: scheduler_pick_def)
  then have i: "i < length (procs (tab s))" "pstate (procs (tab s) ! i) = RUNNABLE"
    by (auto dest!: next_runnable_Some)
  have c: "cmap (tab s) i = Some (RUNNABLE, pid (procs (tab s) ! i), parent (procs (tab s) ! i))" using i by (simp add: cmap_def core_def)
  have t: "cmap t = (cmap (tab s))(i \<mapsto> (RUNNING, pid (procs (tab s) ! i), parent (procs (tab s) ! i)))"
      "nextpid t = nextpid (tab s)" "initproc t = initproc (tab s)"
    using sched_in(3) i by (auto simp: scheduler_pick_def cmap_upd core_def)
  show ?thesis unfolding sched_in(1)
    by (rule slot_step [OF inv c _ _ t]) (use I c sched_in(2) in \<open>auto simp: t intro!: run_inv_in\<close>)
next
  note I = inv [unfolded proc_inv_def]
  case (yield c i)
  note r = running_slot [OF inv yield(2)]
  have t: "cmap (yield_begin i (tab s)) = (cmap (tab s))(i \<mapsto> (RUNNABLE, pid (procs (tab s) ! i), parent (procs (tab s) ! i)))"
      "nextpid (yield_begin i (tab s)) = nextpid (tab s)" "initproc (yield_begin i (tab s)) = initproc (tab s)"
    using r by (auto simp: yield_begin_def cmap_upd core_def)
  show ?thesis unfolding yield(1)
    by (rule slot_step [OF inv r(3) _ _ t]) (use I yield(2) in \<open>auto simp: t intro!: run_inv_out\<close>)
next
  case (sleep c i ch t)
  show ?thesis unfolding sleep(1) by (rule sleep_inv [OF inv sleep(2) sleep(4)])
next
  case (wait_sleep c i t)
  show ?thesis unfolding wait_sleep(1) by (rule sleep_inv [OF inv wait_sleep(2) wait_sleep(4)])
next
  case (slept c i)
  note r = running_slot [OF inv slept(2)]
  have "cmap (sleep_end i (tab s)) = cmap (tab s)" using r by (auto simp: sleep_end_def cmap_upd core_def)
  then show ?thesis using inv slept(1) by (simp add: proc_inv_def sleep_end_def)
next
  case (wake ch)
  then show ?thesis using inv by (simp add: proc_inv_def)
next
  case (kill n)
  then show ?thesis using inv by (simp add: proc_inv_def)
next
  note I = inv [unfolded proc_inv_def]
  case (fork c i trapret forkret st j t st')
  note r = running_slot [OF inv fork(2)]
  obtain p0 q where a: "cmap (tab s) j = Some (UNUSED, p0, q)" "cmap t = (cmap (tab s))(j \<mapsto> (EMBRYO, nextpid (tab s), q))"
      "nextpid t = nextpid (tab s) + 1" "initproc t = initproc (tab s)"
    by (rule allocproc_Some [OF fork(4)])
  have "alive (cmap (tab s)) i" using r(3) by (simp add: alive_def)
  then have "mk_inv (cmap t) ((mk s)(i := Some j))" unfolding a(2) using I a(1) by (intro mk_inv_start) auto
  moreover have "run_inv (cmap t) (running s)" unfolding a(2) using I a(1) by (intro run_inv_other) auto
  moreover have "parent_inv (cmap t) (initproc t)" unfolding a(2,4) using I a(1) by (intro parent_inv_upd) (auto simp: alive_def)
  moreover have "pid_inv (cmap t) (nextpid t)" unfolding a(2,3) using I by (intro pid_inv_new) auto
  ultimately show ?thesis using fork(1) by (simp add: proc_inv_def)
next
  note I = inv [unfolded proc_inv_def]
  case (fork_none c i trapret forkret st t st')
  show ?thesis
    using allocproc_None [OF fork_none(4)]
  proof (elim disjE exE conjE)
    assume "t = tab s"
    then show ?thesis using inv fork_none(1) by (simp add: proc_inv_def)
  next
    fix j p0 q0 p q assume a: "cmap (tab s) j = Some (UNUSED, p0, q0)" "cmap t = (cmap (tab s))(j \<mapsto> (UNUSED, p, q))"
      "nextpid t = nextpid (tab s) + 1" "initproc t = initproc (tab s)"
    have "m j = None" if "mk_inv (cmap (tab s)) m" for m
      using mk_invD(2) [OF that, of j] a(1) by (cases "m j") (auto simp: alive_def)
    then have "mk_inv (cmap t) (mk s)" unfolding a(2) using I a(1) by (intro mk_inv_upd) auto
    moreover have "run_inv (cmap t) (running s)" unfolding a(2) using I a(1) by (intro run_inv_other) auto
    moreover have "parent_inv (cmap t) (initproc t)" unfolding a(2,4) using I a(1) by (intro parent_inv_upd) (auto simp: alive_def)
    moreover have "pid_inv (cmap t) (nextpid t)" unfolding a(2,3) using I by (intro pid_inv_unused) auto
    ultimately show ?thesis using fork_none(1) by (simp add: proc_inv_def)
  qed
next
  note I = inv [unfolded proc_inv_def]
  case (fork_fail c i j)
  obtain p q where j: "cmap (tab s) j = Some (EMBRYO, p, q)" using I mk_invD(1) fork_fail(3) by blast
  let ?t = "upd_proc j (\<lambda>p. p\<lparr>kstack := 0, pstate := UNUSED\<rparr>) (tab s)"
  have t: "cmap ?t = (cmap (tab s))(j \<mapsto> (UNUSED, p, q))" using cmap_Some [OF j] by (auto simp: cmap_upd core_def)
  have "mk_inv (cmap ?t) ((mk s)(i := None))" unfolding t using I fork_fail(3) by (intro mk_inv_stop) auto
  moreover have "run_inv (cmap ?t) (running s)" unfolding t using I j by (intro run_inv_other) auto
  moreover have "parent_inv (cmap ?t) (initproc ?t)" unfolding t using I j by (auto intro!: parent_inv_upd simp: alive_def)
  moreover have "pid_inv (cmap ?t) (nextpid ?t)" unfolding t using I by (auto intro!: pid_inv_unused)
  ultimately show ?thesis using fork_fail(1) by (simp add: proc_inv_def)
next
  note I = inv [unfolded proc_inv_def]
  case (fork_done c i j)
  note r = running_slot [OF inv fork_done(2)]
  obtain p q where j: "cmap (tab s) j = Some (EMBRYO, p, q)" using I mk_invD(1) fork_done(3) by blast
  let ?t = "upd_proc j (\<lambda>p. p\<lparr>parent := Some i, pstate := RUNNABLE\<rparr>) (tab s)"
  have t: "cmap ?t = (cmap (tab s))(j \<mapsto> (RUNNABLE, p, Some i))" using cmap_Some [OF j] by (auto simp: cmap_upd core_def)
  have "alive (cmap (tab s)) i" "i \<noteq> j" using r(3) j by (auto simp: alive_def)
  then have "parent_inv (cmap ?t) (initproc ?t)" unfolding t using I by (auto intro!: parent_inv_upd)
  moreover have "mk_inv (cmap ?t) ((mk s)(i := None))" unfolding t using I fork_done(3) by (intro mk_inv_stop) auto
  moreover have "run_inv (cmap ?t) (running s)" unfolding t using I j by (intro run_inv_other) auto
  moreover have "pid_inv (cmap ?t) (nextpid ?t)" unfolding t using I j by (auto intro!: pid_inv_same)
  ultimately show ?thesis using fork_done(1) by (simp add: proc_inv_def)
next
  note I = inv [unfolded proc_inv_def]
  case (exit c i)
  note r = running_slot [OF inv exit(2)]
  let ?ini = "initproc (tab s)" and ?A = "\<lambda>k. map_option (adopt i (initproc (tab s))) (cmap (tab s) k)"
  obtain p q where e: "cmap (exit_table i (tab s)) = ?A(i \<mapsto> (ZOMBIE, p, q))" "?A i = Some (RUNNING, p, q)"
    by (rule cmap_exit [OF r(1) exit(4)]) (use r in auto)
  have f: "nextpid (exit_table i (tab s)) = nextpid (tab s)" "initproc (exit_table i (tab s)) = ?ini"
    by (simp_all add: exit_table_def Let_def)
  have "run_inv (?A(i \<mapsto> (ZOMBIE, p, q))) ((running s)(c := None))"
    using I exit(2) by (intro run_inv_out adopt_invs) auto
  moreover have "mk_inv (?A(i \<mapsto> (ZOMBIE, p, q))) (mk s)" using I exit(3) e(2) by (intro mk_inv_upd adopt_invs) auto
  moreover have "parent_inv (?A(i \<mapsto> (ZOMBIE, p, q))) ?ini" using I r(3) exit(4) e(2) by (intro exit_parent_inv) auto
  moreover have "pid_inv (?A(i \<mapsto> (ZOMBIE, p, q))) (nextpid (tab s))" using I e(2) by (intro pid_inv_same adopt_invs) auto
  ultimately show ?thesis using exit(1) by (simp add: proc_inv_def e f)
next
  note I = inv [unfolded proc_inv_def]
  case (reap c i k j)
  note w = wait_scan_Some [OF reap(3)]
  let ?t = "upd_proc j clear_slot (tab s)"
  have j: "cmap (tab s) j = Some (ZOMBIE, pid (procs (tab s) ! j), parent (procs (tab s) ! j))" using w by (simp add: cmap_def core_def)
  have t: "cmap ?t = (cmap (tab s))(j \<mapsto> (UNUSED, 0, None))" using w by (auto simp: cmap_upd core_def clear_slot_def)
  have "m j = None" if "mk_inv (cmap (tab s)) m" for m
    using mk_invD(2) [OF that, of j] j by (cases "m j") (auto simp: alive_def)
  then have "mk_inv (cmap ?t) (mk s)" unfolding t using I j by (intro mk_inv_upd) auto
  moreover have "run_inv (cmap ?t) (running s)" unfolding t using I j by (intro run_inv_other) auto
  moreover have "parent_inv (cmap ?t) (initproc ?t)" unfolding t using I j by (auto intro!: parent_inv_upd simp: alive_def)
  moreover have "pid_inv (cmap ?t) (nextpid ?t)" unfolding t using I by (auto intro!: pid_inv_unused)
  ultimately show ?thesis using reap(1) by (simp add: proc_inv_def)
qed

section \<open>Reachable tables\<close>

text \<open>After \<open>userinit\<close>: one process, runnable, and no processor scheduling yet.\<close>

definition proc_boot :: "psys \<Rightarrow> bool" where
  "proc_boot s \<longleftrightarrow> length (procs (tab s)) = NPROC \<and> nextpid (tab s) = 2 \<and> running s = (\<lambda>_. None) \<and> mk s = (\<lambda>_. None) \<and>
     (case initproc (tab s) of None \<Rightarrow> False
      | Some i \<Rightarrow> i < NPROC \<and> pstate (procs (tab s) ! i) = RUNNABLE \<and> pid (procs (tab s) ! i) = 1 \<and>
          (\<forall>j<NPROC. j \<noteq> i \<longrightarrow> pstate (procs (tab s) ! j) = UNUSED))"

inductive proc_reach :: "psys \<Rightarrow> bool" where
  boot: "proc_boot s \<Longrightarrow> proc_reach s"
| step: "proc_reach s \<Longrightarrow> proc_step s s' \<Longrightarrow> proc_reach s'"

lemma proc_boot_inv: "proc_boot s \<Longrightarrow> proc_inv s"
  unfolding proc_boot_def proc_inv_def run_inv_def mk_inv_def parent_inv_def pid_inv_def
  by (auto simp: cmap_def core_def alive_def split: option.splits if_splits)
     (metis cls.simps)+

lemma proc_reach_inv: "proc_reach s \<Longrightarrow> proc_inv s"
  by (induction rule: proc_reach.induct) (auto intro: proc_boot_inv proc_step_inv)

lemma reach_props:
  assumes "proc_reach s"
  shows "running s c = Some i \<Longrightarrow> i < length (procs (tab s)) \<and> pstate (procs (tab s) ! i) = RUNNING"
    and "i < length (procs (tab s)) \<Longrightarrow> pstate (procs (tab s) ! i) = RUNNING \<Longrightarrow> \<exists>!c. running s c = Some i"
    and "i < length (procs (tab s)) \<Longrightarrow> j < length (procs (tab s)) \<Longrightarrow> pstate (procs (tab s) ! i) \<noteq> UNUSED \<Longrightarrow>
      pstate (procs (tab s) ! j) \<noteq> UNUSED \<Longrightarrow> pid (procs (tab s) ! i) = pid (procs (tab s) ! j) \<Longrightarrow> i = j"
    and "i < length (procs (tab s)) \<Longrightarrow> pstate (procs (tab s) ! i) \<noteq> UNUSED \<Longrightarrow> 1 \<le> pid (procs (tab s) ! i)"
    and "i < length (procs (tab s)) \<Longrightarrow> pstate (procs (tab s) ! i) \<notin> {UNUSED, EMBRYO} \<Longrightarrow> initproc (tab s) \<noteq> Some i \<Longrightarrow>
      \<exists>j < length (procs (tab s)). j \<noteq> i \<and> parent (procs (tab s) ! i) = Some j \<and> pstate (procs (tab s) ! j) \<in> {SLEEPING, RUNNABLE, RUNNING}"
proof -
  note inv = proc_reach_inv [OF assms]
  note I = inv [unfolded proc_inv_def]
  have cls_eq: "cls a = UNUSED \<longleftrightarrow> a = UNUSED" "cls a = EMBRYO \<longleftrightarrow> a = EMBRYO" "cls a = RUNNING \<longleftrightarrow> a = RUNNING"
      "cls a = RUNNABLE \<longleftrightarrow> a = SLEEPING \<or> a = RUNNABLE" for a
    by (cases a; simp)+
  have cm: "k < length (procs (tab s)) \<Longrightarrow> cmap (tab s) k = Some (cls (pstate (procs (tab s) ! k)), pid (procs (tab s) ! k), parent (procs (tab s) ! k))" for k
    by (simp add: cmap_def core_def)
  show "running s c = Some i \<Longrightarrow> i < length (procs (tab s)) \<and> pstate (procs (tab s) ! i) = RUNNING"
    using running_slot [OF inv] by blast
  show "\<exists>!c. running s c = Some i" if "i < length (procs (tab s))" "pstate (procs (tab s) ! i) = RUNNING"
    using I that cm [of i] unfolding run_inv_def by (auto simp: cls_eq)
  show "i = j" if "i < length (procs (tab s))" "j < length (procs (tab s))" "pstate (procs (tab s) ! i) \<noteq> UNUSED"
      "pstate (procs (tab s) ! j) \<noteq> UNUSED" "pid (procs (tab s) ! i) = pid (procs (tab s) ! j)"
    using I that cm [of i] cm [of j] unfolding pid_inv_def by (metis cls_eq(1))
  show "1 \<le> pid (procs (tab s) ! i)" if "i < length (procs (tab s))" "pstate (procs (tab s) ! i) \<noteq> UNUSED"
    using I that cm [of i] unfolding pid_inv_def by (metis cls_eq(1))
  show "\<exists>j < length (procs (tab s)). j \<noteq> i \<and> parent (procs (tab s) ! i) = Some j \<and> pstate (procs (tab s) ! j) \<in> {SLEEPING, RUNNABLE, RUNNING}"
    if i: "i < length (procs (tab s))" "pstate (procs (tab s) ! i) \<notin> {UNUSED, EMBRYO}" "initproc (tab s) \<noteq> Some i"
  proof -
    obtain j where j: "parent (procs (tab s) ! i) = Some j" "j \<noteq> i" "alive (cmap (tab s)) j"
      using I i cm [of i] unfolding parent_inv_def by (metis cls_eq(1,2) insertCI)
    then have "j < length (procs (tab s))" "cls (pstate (procs (tab s) ! j)) \<in> {RUNNABLE, RUNNING}"
      by (auto simp: alive_def cmap_def core_def split: if_splits)
    then show ?thesis using j by (auto simp: cls_eq)
  qed
qed

end
