(* ===== verification/ProcWait.thy ===== *)
theory ProcWait
  imports ProcInv
begin

text \<open>
  What holds of every reachable process table: the processors and the running processes agree,
  process numbers are unique, no process is orphaned, and \<open>wait\<close> never misses the exit of a child.
  At the end, the effect of \<open>kill\<close> with process number 0.
\<close>

section \<open>No exit is missed by wait\<close>

definition waiting :: "ptable \<Rightarrow> nat \<Rightarrow> bool" where
  "waiting t i \<longleftrightarrow> i < length (procs t) \<and> pstate (procs t ! i) = SLEEPING \<and> pchan (procs t ! i) = ChProc i"

definition zombie_of :: "ptable \<Rightarrow> nat \<Rightarrow> nat \<Rightarrow> bool" where
  "zombie_of t j i \<longleftrightarrow> j < length (procs t) \<and> pstate (procs t ! j) = ZOMBIE \<and> parent (procs t ! j) = Some i"

definition wait_inv :: "ptable \<Rightarrow> bool" where
  "wait_inv t \<longleftrightarrow> (\<forall>i j. waiting t i \<longrightarrow> \<not> zombie_of t j i)"

lemma wait_inv_mono:
  assumes "wait_inv t" "\<And>i. waiting t' i \<Longrightarrow> waiting t i" "\<And>i j. zombie_of t' j i \<Longrightarrow> zombie_of t j i"
  shows "wait_inv t'"
  using assms unfolding wait_inv_def by blast

lemma waiting_upd:
  "i < length (procs t) \<Longrightarrow> waiting (upd_proc i f t) k \<longleftrightarrow>
    (if k = i then pstate (f (procs t ! i)) = SLEEPING \<and> pchan (f (procs t ! i)) = ChProc i else waiting t k)"
  by (auto simp: waiting_def upd_proc_def)

lemma zombie_of_upd:
  "i < length (procs t) \<Longrightarrow> zombie_of (upd_proc i f t) j k \<longleftrightarrow>
    (if j = i then pstate (f (procs t ! i)) = ZOMBIE \<and> parent (f (procs t ! i)) = Some k else zombie_of t j k)"
  by (auto simp: zombie_of_def upd_proc_def)

lemma waiting_wakeup1: "waiting (wakeup1 ch t) i \<longleftrightarrow> waiting t i \<and> ch \<noteq> ChProc i"
  by (auto simp: waiting_def wakeup1_def split: if_splits)

lemma zombie_of_wakeup1 [simp]: "zombie_of (wakeup1 ch t) j i \<longleftrightarrow> zombie_of t j i"
  by (auto simp: zombie_of_def wakeup1_def split: if_splits)

lemma wait_inv_wakeup1: "wait_inv t \<Longrightarrow> wait_inv (wakeup1 ch t)"
  by (auto simp: wait_inv_def waiting_wakeup1)

text \<open>A slot that neither starts to wait nor becomes a zombie.\<close>

lemma wait_inv_slot:
  assumes "wait_inv t" "i < length (procs t)"
    and "pstate (f (procs t ! i)) = SLEEPING \<Longrightarrow> pchan (f (procs t ! i)) \<noteq> ChProc i" "pstate (f (procs t ! i)) \<noteq> ZOMBIE"
  shows "wait_inv (upd_proc i f t)"
  using assms by (auto intro!: wait_inv_mono [OF assms(1)] simp: waiting_upd zombie_of_upd split: if_splits)

lemma kill_loop_slots:
  "kill_loop n ps = Some qs \<Longrightarrow> length qs = length ps \<and>
    (\<forall>i<length ps. pchan (qs ! i) = pchan (ps ! i) \<and> parent (qs ! i) = parent (ps ! i) \<and>
      (pstate (qs ! i) = SLEEPING \<longrightarrow> pstate (ps ! i) = SLEEPING) \<and> (pstate (qs ! i) = ZOMBIE \<longrightarrow> pstate (ps ! i) = ZOMBIE))"
proof (induction ps arbitrary: qs)
  case (Cons p ps)
  show ?case
  proof (cases "pid p = n")
    case False
    then obtain rs where "kill_loop n ps = Some rs" "qs = p # rs" using Cons.prems by auto
    then show ?thesis using Cons.IH by (auto simp: nth_Cons' less_Suc_eq_0_disj)
  qed (use Cons.prems in \<open>auto simp: nth_Cons' split: if_splits\<close>)
qed simp

lemma wait_inv_kill: "wait_inv t \<Longrightarrow> wait_inv (snd (kill n t))"
  by (cases "kill_loop n (procs t)")
     (auto simp: kill_def waiting_def zombie_of_def dest!: kill_loop_slots elim!: wait_inv_mono)

lemma wait_scan_none:
  "wait_scan me k ps b = (kids, None) \<Longrightarrow> j < length ps \<Longrightarrow> parent (ps ! j) = Some me \<Longrightarrow> pstate (ps ! j) \<noteq> ZOMBIE"
proof (induction ps arbitrary: k j b)
  case (Cons p ps)
  then show ?case by (cases j) (fastforce split: if_splits)+
qed simp

lemma wait_inv_reparent:
  "wait_inv t \<Longrightarrow> set ks \<subseteq> {..<length (procs t)} \<Longrightarrow> wait_inv (reparent me ini ks t)"
proof (induction me ini ks t rule: reparent.induct)
  case (2 me ini i ks t)
  let ?t = "upd_proc i (\<lambda>p. p\<lparr>parent := ini\<rparr>) t"
  have i: "i < length (procs t)" using 2 by auto
  have w: "waiting ?t k \<longleftrightarrow> waiting t k" for k using i by (auto simp: waiting_upd) (auto simp: waiting_def)
  have "wait_inv (if pstate (procs t ! i) = ZOMBIE then wakeup1 (case ini of Some n \<Rightarrow> ChProc n | None \<Rightarrow> NoChan) ?t else ?t)"
    using "2.prems"(1) i unfolding wait_inv_def
    by (auto simp: waiting_wakeup1 w zombie_of_upd split: if_splits option.splits)
  then show ?case using 2 by (auto simp: Let_def)
qed simp

lemma waiting_reparent: "waiting (reparent me ini ks t) k \<Longrightarrow> set ks \<subseteq> {..<length (procs t)} \<Longrightarrow> waiting t k"
proof (induction me ini ks t rule: reparent.induct)
  case (2 me ini i ks t)
  have "waiting (upd_proc i (\<lambda>p. p\<lparr>parent := ini\<rparr>) t) k \<Longrightarrow> waiting t k"
    using 2(4) by (auto simp: waiting_upd split: if_splits) (auto simp: waiting_def)
  then show ?case using 2 by (auto simp: Let_def waiting_wakeup1 split: if_splits)
qed simp

lemma wait_inv_exit:
  assumes "wait_inv t" "me < length (procs t)" "initproc t \<noteq> Some me" "parent (procs t ! me) \<noteq> Some me"
  shows "wait_inv (exit_table me t)"
proof -
  let ?u = "wakeup1 (case parent (procs t ! me) of Some n \<Rightarrow> ChProc n | None \<Rightarrow> NoChan) t"
  let ?v = "reparent me (initproc t) [0..<length (procs t)] ?u"
  have v: "wait_inv ?v" using assms(1) by (intro wait_inv_reparent wait_inv_wakeup1) auto
  have "cmap ?v me = Some (core (procs ?v ! me))" "cmap t me = Some (core (procs t ! me))" using assms(2) by (simp_all add: cmap_def)
  moreover have "cmap ?v me = map_option (adopt me (initproc t)) (cmap t me)"
    unfolding cmap_reparent [OF assms(3)] using assms(2) by simp
  ultimately have par: "parent (procs ?v ! me) = parent (procs t ! me)"
    using assms(4) by (simp add: core_def adopt_def)
  have not_parent: "parent (procs t ! me) \<noteq> Some k" if "waiting ?v k" for k
  proof -
    have "waiting ?u k" using that by (auto dest: waiting_reparent)
    then show ?thesis by (auto simp: waiting_wakeup1)
  qed
  have e: "exit_table me t = upd_proc me (\<lambda>p. p\<lparr>pstate := ZOMBIE\<rparr>) ?v" by (simp add: exit_table_def Let_def)
  show ?thesis
    unfolding wait_inv_def e using v assms(2) not_parent par
    by (auto simp: waiting_upd zombie_of_upd wait_inv_def split: if_splits)
qed

lemma allocproc_wait_inv:
  assumes "allocproc trapret forkret (t, st) = Ok (r, t', st')" "wait_inv t"
  shows "wait_inv t'"
proof (cases "find_unused 0 (procs t)")
  case (Some i)
  have nx: "wait_inv (u\<lparr>nextpid := n\<rparr>) \<longleftrightarrow> wait_inv u" for u n by (simp add: wait_inv_def waiting_def zombie_of_def)
  have "i < length (procs t)" using find_unused_Some [OF Some] by simp
  then show ?thesis
    using assms Some by (auto simp: allocproc_def Let_def nx split: if_splits prod.splits intro!: wait_inv_slot)
      (auto simp: upd_proc_def)
qed (use assms in \<open>simp add: allocproc_def\<close>)

lemma wait_step:
  assumes "proc_step s s'" "proc_inv s" "wait_inv (tab s)"
  shows "wait_inv (tab s')"
  using assms(1)
proof cases
  case (sched_in c k i t)
  have "next_runnable k (drop k (procs (tab s))) = Some i" "t = upd_proc i (\<lambda>p. p\<lparr>pstate := RUNNING\<rparr>) (tab s)"
    using sched_in(3) by (auto simp: scheduler_pick_def)
  then show ?thesis using sched_in(1) assms(3) by (auto dest!: next_runnable_Some intro!: wait_inv_slot)
next
  case (yield c i)
  then show ?thesis using assms running_slot [OF assms(2) yield(2)] by (auto simp: yield_begin_def intro!: wait_inv_slot)
next
  case (sleep c i ch t)
  then show ?thesis using assms running_slot [OF assms(2) sleep(2)] by (auto simp: sleep_begin_def intro!: wait_inv_slot)
next
  case (wait_sleep c i t)
  have "\<not> zombie_of (tab s) j i" for j using wait_scan_none [OF wait_sleep(3)] by (auto simp: zombie_of_def)
  then show ?thesis
    using wait_sleep assms(3) running_slot [OF assms(2) wait_sleep(2)]
    by (auto simp: sleep_begin_def wait_inv_def waiting_upd zombie_of_upd split: if_splits)
next
  case (slept c i)
  then show ?thesis using assms running_slot [OF assms(2) slept(2)] by (auto simp: sleep_end_def intro!: wait_inv_slot)
next
  case (wake ch)
  then show ?thesis using assms(3) by (simp add: wakeup_def wait_inv_wakeup1)
next
  case (kill n)
  then show ?thesis using assms(3) by (simp add: wait_inv_kill)
next
  case (fork c i trapret forkret st j t st')
  then show ?thesis using allocproc_wait_inv [OF fork(4) assms(3)] by simp
next
  case (fork_none c i trapret forkret st t st')
  then show ?thesis using allocproc_wait_inv [OF fork_none(4) assms(3)] by simp
next
  case (fork_fail c i j)
  then have "j < length (procs (tab s))" using assms(2) mk_invD(1) cmap_Some unfolding proc_inv_def by blast
  then show ?thesis using fork_fail assms(3) by (auto intro!: wait_inv_slot)
next
  case (fork_done c i j)
  then have "j < length (procs (tab s))" using assms(2) mk_invD(1) cmap_Some unfolding proc_inv_def by blast
  then show ?thesis using fork_done assms(3) by (auto intro!: wait_inv_slot)
next
  case (exit c i)
  note r = running_slot [OF assms(2) exit(2)]
  have "parent (procs (tab s) ! i) \<noteq> Some i"
    using assms(2) r(3) exit(4) parent_invD(2) unfolding proc_inv_def by fastforce
  then show ?thesis using exit assms(3) r by (simp add: wait_inv_exit)
next
  case (reap c i k j)
  then show ?thesis using assms(3) wait_scan_Some [OF reap(3)] by (auto simp: clear_slot_def intro!: wait_inv_slot)
qed

lemma wait_reach: "proc_reach s \<Longrightarrow> wait_inv (tab s)"
proof (induction rule: proc_reach.induct)
  case (boot s)
  then show ?case by (auto simp: proc_boot_def wait_inv_def waiting_def zombie_of_def split: option.splits)
next
  case (step s s')
  then show ?case using wait_step proc_reach_inv by blast
qed

section \<open>Properties\<close>

text \<open>C14. In every reachable state of the process table, a processor runs only a process in state
  RUNNING; every RUNNING process is on exactly one processor; two slots in use have different process
  numbers; and every process that has been started, other than init, has a parent that has not exited.\<close>

theorem proc_table_sound:
  assumes "proc_reach s"
  shows "(\<forall>c i. running s c = Some i \<longrightarrow> i < length (procs (tab s)) \<and> pstate (procs (tab s) ! i) = RUNNING) \<and>
    (\<forall>i<length (procs (tab s)). pstate (procs (tab s) ! i) = RUNNING \<longrightarrow> (\<exists>!c. running s c = Some i)) \<and>
    (\<forall>i<length (procs (tab s)). \<forall>j<length (procs (tab s)). pstate (procs (tab s) ! i) \<noteq> UNUSED \<longrightarrow>
       pstate (procs (tab s) ! j) \<noteq> UNUSED \<longrightarrow> pid (procs (tab s) ! i) = pid (procs (tab s) ! j) \<longrightarrow> i = j) \<and>
    (\<forall>i<length (procs (tab s)). pstate (procs (tab s) ! i) \<notin> {UNUSED, EMBRYO} \<longrightarrow> initproc (tab s) \<noteq> Some i \<longrightarrow>
       (\<exists>j<length (procs (tab s)). j \<noteq> i \<and> parent (procs (tab s) ! i) = Some j \<and>
          pstate (procs (tab s) ! j) \<in> {SLEEPING, RUNNABLE, RUNNING}))"
  using reach_props [OF assms] by blast

text \<open>C19. No exit is missed by \<open>wait\<close>: in every reachable state a process that sleeps in \<open>wait\<close> has no
  child in state ZOMBIE.\<close>

theorem wait_misses_no_exit:
  assumes "proc_reach s" "i < length (procs (tab s))" "pstate (procs (tab s) ! i) = SLEEPING" "pchan (procs (tab s) ! i) = ChProc i"
    "j < length (procs (tab s))" "parent (procs (tab s) ! j) = Some i"
  shows "pstate (procs (tab s) ! j) \<noteq> ZOMBIE"
  using wait_reach [OF assms(1)] assms(2-) by (auto simp: wait_inv_def waiting_def zombie_of_def)

lemma kill_loop_first:
  "find_unused k ps = Some i \<Longrightarrow> pid (ps ! (i - k)) = 0 \<Longrightarrow> (\<And>p. p \<in> set ps \<Longrightarrow> pstate p \<noteq> UNUSED \<Longrightarrow> pid p \<noteq> 0) \<Longrightarrow>
    kill_loop 0 ps = Some (ps[i - k := (ps ! (i - k))\<lparr>killed := True\<rparr>])"
proof (induction ps arbitrary: k)
  case (Cons p ps)
  show ?case
  proof (cases "pstate p = UNUSED")
    case True
    then show ?thesis using Cons.prems by auto
  next
    case False
    then have u: "find_unused (Suc k) ps = Some i" using Cons.prems by simp
    then have "i - k = Suc (i - Suc k)" using find_unused_Some by fastforce
    then show ?thesis using Cons.prems Cons.IH [OF u] False by simp
  qed
qed simp

lemma find_unused_kill: "find_unused k (ps[j := (ps ! j)\<lparr>killed := b\<rparr>]) = find_unused k ps"
  by (induction ps arbitrary: k j) (auto split: nat.splits)

text \<open>C40. \<open>kill\<close> with process number 0 succeeds: it marks the first unused slot (when its number has been
  cleared) as killed, and since \<open>allocproc\<close> does not reset the mark, the next process created there is
  killed from the start.\<close>

theorem kill_zero_hits_next:
  assumes "proc_reach s" "find_unused 0 (procs (tab s)) = Some i" "pid (procs (tab s) ! i) = 0"
    and "kill 0 (tab s) = (r, t)" "allocproc trapret forkret (t, st) = Ok (Some j, t', st')"
  shows "r = 0 \<and> j = i \<and> killed (procs t' ! i)"
proof -
  note u = find_unused_Some [OF assms(2)]
  have "pid p \<noteq> 0" if "p \<in> set (procs (tab s))" "pstate p \<noteq> UNUSED" for p
    using that reach_props(4) [OF assms(1)] by (fastforce simp: in_set_conv_nth)
  then have k: "kill_loop 0 (procs (tab s)) = Some ((procs (tab s))[i := (procs (tab s) ! i)\<lparr>killed := True\<rparr>])"
    using kill_loop_first [OF assms(2)] assms(3) by simp
  then have t: "r = 0" "procs t = (procs (tab s))[i := (procs (tab s) ! i)\<lparr>killed := True\<rparr>]"
    using assms(4) by (auto simp: kill_def)
  then have "find_unused 0 (procs t) = Some i" using assms(2) by (simp add: find_unused_kill)
  then show ?thesis
    using assms(5) t u by (auto simp: allocproc_def Let_def upd_proc_def split: if_splits prod.splits)
qed

section \<open>Witnesses\<close>

definition demo_slot :: proc where
  "demo_slot = \<lparr>p_sz = 0, p_pgdir = 0, kstack = 0, pstate = UNUSED, pid = 0, parent = None, tf = junk_tf,
     p_context = 0, pchan = NoChan, killed = False, ofile = replicate 16 None, cwd = None, pname = replicate 16 0\<rparr>"

definition demo_boot :: psys where
  "demo_boot = \<lparr>tab = \<lparr>procs = demo_slot\<lparr>pstate := RUNNABLE, pid := 1\<rparr> # demo_slot # replicate 62 demo_slot, nextpid = 2, initproc = Some 0\<rparr>,
     running = (\<lambda>_. None), mk = (\<lambda>_. None)\<rparr>"

lemma demo_boot_ok: "proc_boot demo_boot"
  by (auto simp: proc_boot_def demo_boot_def demo_slot_def nth_Cons' split: if_splits)

text \<open>Processor 3 runs init; init forks and waits.\<close>

definition demo_run :: psys where
  "demo_run = demo_boot\<lparr>tab := upd_proc 0 (\<lambda>p. p\<lparr>pstate := RUNNING\<rparr>) (tab demo_boot), running := (\<lambda>_. None)(3 := Some 0)\<rparr>"

definition demo_fork :: "ptable \<times> kst" where
  "demo_fork = (case allocproc 1 2 (tab demo_run, kst2) of Ok (_, ts) \<Rightarrow> ts | _ \<Rightarrow> (tab demo_run, kst2))"

definition demo_child :: psys where
  "demo_child = demo_run\<lparr>tab := upd_proc 1 (\<lambda>p. p\<lparr>parent := Some 0, pstate := RUNNABLE\<rparr>) (fst demo_fork)\<rparr>"

definition demo_wait :: psys where
  "demo_wait = demo_child\<lparr>tab := upd_proc 0 (\<lambda>p. p\<lparr>pchan := ChProc 0, pstate := SLEEPING\<rparr>) (tab demo_child), running := (\<lambda>_. None)\<rparr>"

lemma demo_run_reach: "proc_reach demo_run"
proof (rule proc_reach.step)
  show "proc_reach demo_boot" by (rule proc_reach.boot [OF demo_boot_ok])
  show "proc_step demo_boot demo_run"
    using proc_step.sched_in [of demo_boot 3 0 0]
    by (simp add: demo_run_def scheduler_pick_def demo_boot_def demo_slot_def)
qed

lemma demo_alloc: "allocproc 1 2 (tab demo_run, kst2) = Ok (Some 1, demo_fork)"
  by (simp add: demo_fork_def demo_run_def demo_boot_def demo_slot_def allocproc_def upd_proc_def kalloc_def kst2_def
      c_int_def Let_def)

lemma wait_scan_replicate: "parent p \<noteq> Some me \<Longrightarrow> wait_scan me k (replicate n p) b = (b, None)"
  by (induction n arbitrary: k) auto

lemma demo_tables: "\<exists>p. procs (fst demo_fork) = (procs (tab demo_run))[1 := p]"
  by (simp add: demo_fork_def demo_run_def demo_boot_def demo_slot_def allocproc_def upd_proc_def kalloc_def kst2_def
      c_int_def Let_def)

lemma demo_child_reach: "proc_reach demo_child"
proof (rule proc_reach.step)
  let ?s = "demo_run\<lparr>tab := fst demo_fork, mk := (\<lambda>_. None)(0 := Some 1)\<rparr>"
  show "proc_reach ?s"
    using proc_step.fork [of demo_run 3 0 1 2 kst2 1 "fst demo_fork" "snd demo_fork"] demo_alloc
    by (intro proc_reach.step [OF demo_run_reach]) (simp add: demo_run_def demo_boot_def)
  show "proc_step ?s demo_child"
    using proc_step.fork_done [of ?s 3 0 1] by (simp add: demo_child_def demo_run_def demo_boot_def)
qed

lemma demo_wait_reach: "proc_reach demo_wait"
proof (rule proc_reach.step [OF demo_child_reach])
  obtain p where "procs (fst demo_fork) = (procs (tab demo_run))[1 := p]" using demo_tables by blast
  then have "wait_scan 0 0 (procs (tab demo_child)) False = (True, None)"
    by (simp add: demo_child_def demo_run_def demo_boot_def upd_proc_def wait_scan_replicate demo_slot_def)
  then show "proc_step demo_child demo_wait"
    using proc_step.wait_sleep [of demo_child 3 0] by (simp add: demo_wait_def sleep_begin_def demo_child_def demo_run_def demo_boot_def)
qed

theorem proc_table_sound_witness: "proc_reach demo_run \<and> (\<exists>!c. running demo_run c = Some 0)"
proof -
  have "0 < length (procs (tab demo_run))" "pstate (procs (tab demo_run) ! 0) = RUNNING"
    by (simp_all add: demo_run_def demo_boot_def upd_proc_def)
  then show ?thesis using proc_table_sound [OF demo_run_reach] demo_run_reach by blast
qed

theorem wait_misses_no_exit_witness: "proc_reach demo_wait \<and> pstate (procs (tab demo_wait) ! 1) \<noteq> ZOMBIE"
proof -
  obtain p where "procs (fst demo_fork) = (procs (tab demo_run))[1 := p]" using demo_tables by blast
  then have "0 < length (procs (tab demo_wait))" "pstate (procs (tab demo_wait) ! 0) = SLEEPING" "pchan (procs (tab demo_wait) ! 0) = ChProc 0"
      "1 < length (procs (tab demo_wait))" "parent (procs (tab demo_wait) ! 1) = Some 0"
    by (simp_all add: demo_wait_def demo_child_def demo_run_def demo_boot_def upd_proc_def)
  then show ?thesis using wait_misses_no_exit [OF demo_wait_reach] demo_wait_reach by blast
qed

definition demo_killed :: "(nat option \<times> ptable \<times> kst) outcome" where
  "demo_killed = allocproc 1 2 (snd (kill 0 (tab demo_run)), kst2)"

theorem kill_zero_hits_next_witness: "\<exists>t st. demo_killed = Ok (Some 1, t, st) \<and> killed (procs t ! 1)"
proof -
  have a: "find_unused 0 (procs (tab demo_run)) = Some 1" "pid (procs (tab demo_run) ! 1) = 0"
    by (simp_all add: demo_run_def demo_boot_def upd_proc_def demo_slot_def)
  obtain t st where b: "demo_killed = Ok (Some 1, t, st)"
    by (simp add: demo_killed_def kill_def demo_run_def demo_boot_def demo_slot_def allocproc_def upd_proc_def kalloc_def kst2_def
      c_int_def Let_def)
  then show ?thesis
    using kill_zero_hits_next [OF demo_run_reach a, of "fst (kill 0 (tab demo_run))" "snd (kill 0 (tab demo_run))" 1 2 kst2 1 t st] by (simp add: demo_killed_def)
qed

end
