(* ===== verification/Sleeplock.thy ===== *)
theory Sleeplock
  imports ProcWait
begin

text \<open>
  Sleep locks (sleeplock.c). \<open>acquiresleep\<close> and \<open>releasesleep\<close> on the lock alone are used by the
  buffer cache and the inode layer, where one kernel thread is followed: there a lock that is held by
  another process makes the caller sleep for good. The second part is the protocol between several
  processes, with the spin lock inside the sleep lock, the process table lock taken by \<open>sleep\<close> and
  \<open>wakeup\<close>, and every point at which another process can run in between.
\<close>

section \<open>The lock\<close>

record sleeplock =
  locked :: bool
  lpid :: int

definition initsleeplock :: sleeplock where
  "initsleeplock = \<lparr>locked = False, lpid = 0\<rparr>"

text \<open>The body of \<open>acquiresleep\<close> after the loop, and \<open>releasesleep\<close> without the wakeup.\<close>

definition take_lock :: "int \<Rightarrow> sleeplock \<Rightarrow> sleeplock" where
  "take_lock me lk = lk\<lparr>locked := True, lpid := me\<rparr>"

definition drop_lock :: "sleeplock \<Rightarrow> sleeplock" where
  "drop_lock lk = lk\<lparr>locked := False, lpid := 0\<rparr>"

definition acquiresleep :: "int \<Rightarrow> sleeplock \<Rightarrow> sleeplock outcome" where
  "acquiresleep me lk = (if locked lk then Diverge else Ok (take_lock me lk))"

definition releasesleep :: "sleeplock \<Rightarrow> sleeplock" where
  "releasesleep lk = drop_lock lk"

definition holdingsleep :: "int \<Rightarrow> sleeplock \<Rightarrow> bool" where
  "holdingsleep me lk \<longleftrightarrow> locked lk \<and> lpid lk = me"

section \<open>The protocol\<close>

text \<open>
  Where a process is: outside; at the loop test with the spin lock; about to call \<open>sleep\<close>; in \<open>sleep\<close>
  with both spin locks, then with the table lock only; asleep; woken and about to take the spin lock
  again; holding the sleep lock with the spin lock still held, then without; and in \<open>releasesleep\<close>
  before the store, before the wakeup, and before giving the spin lock back.
\<close>

datatype slpc = Out | Test | Slp0 | Slp1 | Slp2 | Asleep | Woken | Won | Holds | Rel1 | Rel2 | Rel3

record slsys =
  slk :: sleeplock
  spin :: "nat option"
  ptlock :: "nat option"
  slpc :: "nat \<Rightarrow> slpc"

abbreviation (input) go :: "nat \<Rightarrow> slpc \<Rightarrow> slsys \<Rightarrow> slsys" where
  "go p a s \<equiv> s\<lparr>slpc := (slpc s)(p := a)\<rparr>"

inductive sl_step :: "nat \<Rightarrow> slsys \<Rightarrow> slsys \<Rightarrow> bool" where
  enter: "slpc s p = Out \<Longrightarrow> spin s = None \<Longrightarrow> sl_step p s (go p Test (s\<lparr>spin := Some p\<rparr>))"
| busy: "slpc s p = Test \<Longrightarrow> locked (slk s) \<Longrightarrow> sl_step p s (go p Slp0 s)"
| sleep_table: "slpc s p = Slp0 \<Longrightarrow> ptlock s = None \<Longrightarrow> sl_step p s (go p Slp1 (s\<lparr>ptlock := Some p\<rparr>))"
| sleep_spin: "slpc s p = Slp1 \<Longrightarrow> sl_step p s (go p Slp2 (s\<lparr>spin := None\<rparr>))"
| sleep_off: "slpc s p = Slp2 \<Longrightarrow> sl_step p s (go p Asleep (s\<lparr>ptlock := None\<rparr>))"
| killed: "slpc s p = Asleep \<Longrightarrow> ptlock s = None \<Longrightarrow> sl_step p s (go p Woken s)"
| again: "slpc s p = Woken \<Longrightarrow> spin s = None \<Longrightarrow> sl_step p s (go p Test (s\<lparr>spin := Some p\<rparr>))"
| take: "slpc s p = Test \<Longrightarrow> \<not> locked (slk s) \<Longrightarrow> sl_step p s (go p Won (s\<lparr>slk := take_lock (int p) (slk s)\<rparr>))"
| leave: "slpc s p = Won \<Longrightarrow> sl_step p s (go p Holds (s\<lparr>spin := None\<rparr>))"
| release: "slpc s p = Holds \<Longrightarrow> spin s = None \<Longrightarrow> sl_step p s (go p Rel1 (s\<lparr>spin := Some p\<rparr>))"
| drop: "slpc s p = Rel1 \<Longrightarrow> sl_step p s (go p Rel2 (s\<lparr>slk := drop_lock (slk s)\<rparr>))"
| wake: "slpc s p = Rel2 \<Longrightarrow> ptlock s = None \<Longrightarrow>
    sl_step p s (go p Rel3 (s\<lparr>slpc := (\<lambda>q. if slpc s q = Asleep then Woken else slpc s q)\<rparr>))"
| finish: "slpc s p = Rel3 \<Longrightarrow> sl_step p s (go p Out (s\<lparr>spin := None\<rparr>))"

inductive sl_reach :: "slsys \<Rightarrow> bool" where
  init: "sl_reach \<lparr>slk = initsleeplock, spin = None, ptlock = None, slpc = (\<lambda>_. Out)\<rparr>"
| step: "sl_reach s \<Longrightarrow> sl_step p s s' \<Longrightarrow> sl_reach s'"

section \<open>Invariant\<close>

definition in_spin :: "slpc \<Rightarrow> bool" where
  "in_spin a \<longleftrightarrow> a \<in> {Test, Slp0, Slp1, Won, Rel1, Rel2, Rel3}"

definition in_lock :: "slpc \<Rightarrow> bool" where
  "in_lock a \<longleftrightarrow> a \<in> {Won, Holds, Rel1}"

definition in_table :: "slpc \<Rightarrow> bool" where
  "in_table a \<longleftrightarrow> a \<in> {Slp1, Slp2}"

definition in_sleep :: "slpc \<Rightarrow> bool" where
  "in_sleep a \<longleftrightarrow> a \<in> {Slp0, Slp1, Slp2, Asleep}"

lemmas phase_defs = in_spin_def in_lock_def in_table_def in_sleep_def

text \<open>Some process has cleared the lock and is about to wake the sleepers.\<close>

definition wake_pending :: "slsys \<Rightarrow> bool" where
  "wake_pending s \<longleftrightarrow> (case spin s of Some r \<Rightarrow> slpc s r = Rel2 | None \<Rightarrow> False)"

definition sl_inv :: "slsys \<Rightarrow> bool" where
  "sl_inv s \<longleftrightarrow>
     (\<forall>p. in_spin (slpc s p) \<longleftrightarrow> spin s = Some p) \<and>
     (\<forall>p. in_table (slpc s p) \<longleftrightarrow> ptlock s = Some p) \<and>
     (\<forall>p. in_lock (slpc s p) \<longleftrightarrow> locked (slk s) \<and> lpid (slk s) = int p) \<and>
     (locked (slk s) \<longrightarrow> 0 \<le> lpid (slk s)) \<and>
     (\<forall>p. in_sleep (slpc s p) \<longrightarrow> locked (slk s) \<or> wake_pending s)"

lemma sl_invD:
  assumes "sl_inv s"
  shows "in_spin (slpc s p) \<longleftrightarrow> spin s = Some p" "in_table (slpc s p) \<longleftrightarrow> ptlock s = Some p"
    "in_lock (slpc s p) \<longleftrightarrow> locked (slk s) \<and> lpid (slk s) = int p"
    "in_sleep (slpc s p) \<Longrightarrow> locked (slk s) \<or> wake_pending s"
    "locked (slk s) \<Longrightarrow> 0 \<le> lpid (slk s)"
  using assms unfolding sl_inv_def by blast+

text \<open>The parts of the invariant after a step, at one process \<open>q\<close>.\<close>

lemma sl_step_parts:
  assumes "sl_step p s s'" "sl_inv s"
  shows "in_spin (slpc s' q) \<longleftrightarrow> spin s' = Some q" "in_table (slpc s' q) \<longleftrightarrow> ptlock s' = Some q"
    "in_lock (slpc s' q) \<longleftrightarrow> locked (slk s') \<and> lpid (slk s') = int q" "locked (slk s') \<Longrightarrow> 0 \<le> lpid (slk s')"
    "in_sleep (slpc s' q) \<Longrightarrow> locked (slk s') \<or> wake_pending s'"
proof -
  note I = sl_invD [OF assms(2)]
  note spin = I(1) [of p] I(1) [of q] and table = I(2) [of p] I(2) [of q] and lock = I(3) [of p] I(3) [of q]
  show "in_spin (slpc s' q) \<longleftrightarrow> spin s' = Some q"
    using assms(1) spin by cases (auto simp: phase_defs)
  show "in_table (slpc s' q) \<longleftrightarrow> ptlock s' = Some q"
    using assms(1) table by cases (auto simp: phase_defs)
  show "in_lock (slpc s' q) \<longleftrightarrow> locked (slk s') \<and> lpid (slk s') = int q"
    using assms(1) lock by cases (auto simp: phase_defs take_lock_def drop_lock_def)
  show "locked (slk s') \<Longrightarrow> 0 \<le> lpid (slk s')"
    using assms(1) I(5) by cases (auto simp: take_lock_def drop_lock_def)
  show "in_sleep (slpc s' q) \<Longrightarrow> locked (slk s') \<or> wake_pending s'"
    using assms(1) spin table I(4) [of q]
    by cases (auto simp: phase_defs take_lock_def drop_lock_def wake_pending_def split: option.splits if_splits)
qed

lemma sl_reach_inv: "sl_reach s \<Longrightarrow> sl_inv s"
proof (induction rule: sl_reach.induct)
  case init
  then show ?case by (simp add: sl_inv_def initsleeplock_def phase_defs)
next
  case (step s p s')
  then show ?case using sl_step_parts [OF step(2) step(3)] unfolding sl_inv_def by blast
qed

section \<open>Properties\<close>

text \<open>
  C32. At most one process is inside a sleep lock, from the moment \<open>acquiresleep\<close> takes it until
  \<open>releasesleep\<close> clears it, and \<open>holdingsleep\<close> is true for exactly that process.
\<close>

theorem sleeplock_exclusion:
  assumes "sl_reach s" "in_lock (slpc s p)"
  shows "(holdingsleep (int q) (slk s) \<longleftrightarrow> q = p) \<and> (in_lock (slpc s q) \<longrightarrow> q = p)"
  using sl_invD(3) [OF sl_reach_inv [OF assms(1)]] assms(2) by (auto simp: holdingsleep_def)

text \<open>
  C20. No wakeup is lost: while a process sleeps on a sleep lock, either another process is inside the
  lock, and will pass through \<open>releasesleep\<close>, or one has cleared it and its wakeup is still to come. In
  particular nobody sleeps on a free lock, although \<open>sleep\<close> gives up the spin lock before the process
  is marked as sleeping.
\<close>

theorem sleeplock_no_lost_wakeup:
  assumes "sl_reach s" "slpc s p = Asleep"
  shows "\<exists>q. q \<noteq> p \<and> (in_lock (slpc s q) \<and> holdingsleep (int q) (slk s) \<or> slpc s q = Rel2 \<and> spin s = Some q)"
proof -
  note I = sl_invD [OF sl_reach_inv [OF assms(1)]]
  have "locked (slk s) \<or> wake_pending s" using I(4) [of p] assms(2) by (simp add: in_sleep_def)
  then show ?thesis
  proof
    assume "locked (slk s)"
    then have "in_lock (slpc s (nat (lpid (slk s))))" "holdingsleep (int (nat (lpid (slk s)))) (slk s)"
      using I(3,5) by (auto simp: holdingsleep_def)
    then show ?thesis using assms(2) by (intro exI [of _ "nat (lpid (slk s))"]) (auto simp: in_lock_def)
  next
    assume "wake_pending s"
    then obtain r where "spin s = Some r" "slpc s r = Rel2" by (auto simp: wake_pending_def split: option.splits)
    then show ?thesis using assms(2) by (intro exI [of _ r]) auto
  qed
qed

section \<open>Witnesses\<close>

definition demo_sl :: slsys where
  "demo_sl = \<lparr>slk = \<lparr>locked = True, lpid = 1\<rparr>, spin = None, ptlock = None, slpc = (\<lambda>_. Out)(1 := Holds, 2 := Asleep)\<rparr>"

lemma demo_sl_reach: "sl_reach demo_sl"
proof -
  note R = sl_reach.step
  note defs = initsleeplock_def take_lock_def
  let ?s = "\<lambda>b n sp pt pc. \<lparr>slk = \<lparr>locked = b, lpid = n\<rparr>, spin = sp, ptlock = pt, slpc = pc\<rparr>"
  have "sl_reach (?s False 0 (Some 1) None ((\<lambda>_. Out)(1 := Test)))"
    using R [OF sl_reach.init sl_step.enter [of _ 1]] by (simp add: defs)
  from R [OF this sl_step.take [of _ 1]] have "sl_reach (?s True 1 (Some 1) None ((\<lambda>_. Out)(1 := Won)))" by (simp add: defs)
  from R [OF this sl_step.leave [of _ 1]] have "sl_reach (?s True 1 None None ((\<lambda>_. Out)(1 := Holds)))" by simp
  from R [OF this sl_step.enter [of _ 2]] have "sl_reach (?s True 1 (Some 2) None ((\<lambda>_. Out)(1 := Holds, 2 := Test)))" by simp
  from R [OF this sl_step.busy [of _ 2]] have "sl_reach (?s True 1 (Some 2) None ((\<lambda>_. Out)(1 := Holds, 2 := Slp0)))" by simp
  from R [OF this sl_step.sleep_table [of _ 2]] have "sl_reach (?s True 1 (Some 2) (Some 2) ((\<lambda>_. Out)(1 := Holds, 2 := Slp1)))" by simp
  from R [OF this sl_step.sleep_spin [of _ 2]] have "sl_reach (?s True 1 None (Some 2) ((\<lambda>_. Out)(1 := Holds, 2 := Slp2)))" by simp
  from R [OF this sl_step.sleep_off [of _ 2]] show ?thesis by (simp add: demo_sl_def)
qed

theorem sleeplock_exclusion_witness: "sl_reach demo_sl \<and> in_lock (slpc demo_sl 1) \<and> \<not> holdingsleep 2 (slk demo_sl)"
  using sleeplock_exclusion [OF demo_sl_reach, of 1 2] demo_sl_reach by (simp add: demo_sl_def in_lock_def)

theorem sleeplock_no_lost_wakeup_witness:
  "slpc demo_sl 2 = Asleep \<and> (\<exists>q. q \<noteq> 2 \<and> (in_lock (slpc demo_sl q) \<or> slpc demo_sl q = Rel2))"
proof -
  have "slpc demo_sl 2 = Asleep" by (simp add: demo_sl_def)
  then show ?thesis using sleeplock_no_lost_wakeup [OF demo_sl_reach] by blast
qed

end
