(* ===== verification/Bio.thy ===== *)
theory Bio
  imports Sleeplock
begin

text \<open>
  The buffer cache (bio.c) on the memory disk (memide.c). Buffers are numbered; number \<open>NBUF\<close> is the
  list head \<open>bcache.head\<close>, and \<open>b_prev\<close> and \<open>b_next\<close> are the links of the LRU list. One kernel thread
  with process number \<open>cur_pid\<close> is followed. \<open>written\<close> is the history of the disk writes, which no
  operation reads: it is what a crash may cut short.
\<close>

section \<open>State\<close>

abbreviation (input) NBUF :: nat where "NBUF \<equiv> 30"
abbreviation (input) BSIZE :: nat where "BSIZE \<equiv> 512"

record buf =
  b_valid :: bool
  b_dirty :: bool
  b_dev :: u32
  b_blockno :: u32
  b_lock :: sleeplock
  b_refcnt :: u32
  b_prev :: nat
  b_next :: nat
  b_data :: "u8 list"

record blk =
  disk :: "u32 \<Rightarrow> u8 list"
  disksize :: u32
  bufs :: "buf list"
  cur_pid :: int
  written :: "(u32 \<times> u8 list) list"

definition upd_buf :: "nat \<Rightarrow> (buf \<Rightarrow> buf) \<Rightarrow> 'a blk_scheme \<Rightarrow> 'a blk_scheme" where
  "upd_buf i f s = s\<lparr>bufs := (bufs s)[i := f (bufs s ! i)]\<rparr>"

section \<open>The disk\<close>

definition iderw :: "nat \<Rightarrow> 'a blk_scheme \<Rightarrow> 'a blk_scheme outcome" where
  "iderw i s =
     (let b = bufs s ! i in
      if \<not> holdingsleep (cur_pid s) (b_lock b) then Panic ''iderw: buf not locked''
      else if b_valid b \<and> \<not> b_dirty b then Panic ''iderw: nothing to do''
      else if b_dev b \<noteq> 1 then Panic ''iderw: request not for disk 1''
      else if b_blockno b \<ge> disksize s then Panic ''iderw: block out of range''
      else if b_dirty b then
        Ok (upd_buf i (\<lambda>b. b\<lparr>b_dirty := False, b_valid := True\<rparr>)
          (s\<lparr>disk := (disk s)(b_blockno b := b_data b), written := written s @ [(b_blockno b, b_data b)]\<rparr>))
      else Ok (upd_buf i (\<lambda>b'. b'\<lparr>b_data := disk s (b_blockno b), b_valid := True\<rparr>) s))"

section \<open>The cache\<close>

text \<open>Link buffer \<open>i\<close> in after the head.\<close>

definition link_front :: "nat \<Rightarrow> 'a blk_scheme \<Rightarrow> 'a blk_scheme" where
  "link_front i s =
     (let n = b_next (bufs s ! NBUF);
          s = upd_buf i (\<lambda>b. b\<lparr>b_next := n, b_prev := NBUF\<rparr>) s;
          s = upd_buf n (\<lambda>b. b\<lparr>b_prev := i\<rparr>) s
      in upd_buf NBUF (\<lambda>b. b\<lparr>b_next := i\<rparr>) s)"

definition buf_unlink :: "nat \<Rightarrow> 'a blk_scheme \<Rightarrow> 'a blk_scheme" where
  "buf_unlink i s =
     (let s = upd_buf (b_next (bufs s ! i)) (\<lambda>b. b\<lparr>b_prev := b_prev (bufs s ! i)\<rparr>) s
      in upd_buf (b_prev (bufs s ! i)) (\<lambda>b. b\<lparr>b_next := b_next (bufs s ! i)\<rparr>) s)"

fun binit_loop :: "nat list \<Rightarrow> 'a blk_scheme \<Rightarrow> 'a blk_scheme" where
  "binit_loop [] s = s"
| "binit_loop (i # is) s = binit_loop is (link_front i (upd_buf i (\<lambda>b. b\<lparr>b_lock := initsleeplock\<rparr>) s))"

definition binit :: "'a blk_scheme \<Rightarrow> 'a blk_scheme" where
  "binit s = binit_loop [0..<NBUF] (upd_buf NBUF (\<lambda>b. b\<lparr>b_prev := NBUF, b_next := NBUF\<rparr>) s)"

text \<open>The two searches of \<open>bget\<close>, along \<open>next\<close> and along \<open>prev\<close>. The list has \<open>NBUF\<close> elements, so a
  search that is still running after \<open>NBUF + 1\<close> steps has met a damaged list.\<close>

fun bscan :: "nat \<Rightarrow> (buf \<Rightarrow> bool) \<Rightarrow> (buf \<Rightarrow> nat) \<Rightarrow> nat \<Rightarrow> buf list \<Rightarrow> nat option outcome" where
  "bscan 0 P dir i bs = Diverge"
| "bscan (Suc n) P dir i bs =
     (if i = NBUF then Ok None
      else if P (bs ! i) then Ok (Some i)
      else bscan n P dir (dir (bs ! i)) bs)"

definition bget :: "u32 \<Rightarrow> u32 \<Rightarrow> 'a blk_scheme \<Rightarrow> (nat \<times> 'a blk_scheme) outcome" where
  "bget dev blockno s =
     obind (bscan (Suc NBUF) (\<lambda>b. b_dev b = dev \<and> b_blockno b = blockno) b_next (b_next (bufs s ! NBUF)) (bufs s)) (\<lambda>r.
     case r of
       Some i \<Rightarrow>
         obind (acquiresleep (cur_pid s) (b_lock (bufs s ! i))) (\<lambda>lk.
         Ok (i, upd_buf i (\<lambda>b. b\<lparr>b_refcnt := b_refcnt b + 1, b_lock := lk\<rparr>) s))
     | None \<Rightarrow>
         obind (bscan (Suc NBUF) (\<lambda>b. b_refcnt b = 0 \<and> \<not> b_dirty b) b_prev (b_prev (bufs s ! NBUF)) (bufs s)) (\<lambda>r.
         case r of
           Some i \<Rightarrow>
             obind (acquiresleep (cur_pid s) (b_lock (bufs s ! i))) (\<lambda>lk.
             Ok (i, upd_buf i (\<lambda>b. b\<lparr>b_dev := dev, b_blockno := blockno, b_valid := False, b_dirty := False, b_refcnt := 1, b_lock := lk\<rparr>) s))
         | None \<Rightarrow> Panic ''bget: no buffers''))"

definition bread :: "u32 \<Rightarrow> u32 \<Rightarrow> 'a blk_scheme \<Rightarrow> (nat \<times> 'a blk_scheme) outcome" where
  "bread dev blockno s =
     obind (bget dev blockno s) (\<lambda>(i, s).
     if \<not> b_valid (bufs s ! i) then obind (iderw i s) (\<lambda>s. Ok (i, s)) else Ok (i, s))"

definition bwrite :: "nat \<Rightarrow> 'a blk_scheme \<Rightarrow> 'a blk_scheme outcome" where
  "bwrite i s =
     (if \<not> holdingsleep (cur_pid s) (b_lock (bufs s ! i)) then Panic ''bwrite''
      else iderw i (upd_buf i (\<lambda>b. b\<lparr>b_dirty := True\<rparr>) s))"

definition brelse :: "nat \<Rightarrow> 'a blk_scheme \<Rightarrow> 'a blk_scheme outcome" where
  "brelse i s =
     (if \<not> holdingsleep (cur_pid s) (b_lock (bufs s ! i)) then Panic ''brelse''
      else
        let s = upd_buf i (\<lambda>b. b\<lparr>b_lock := releasesleep (b_lock b), b_refcnt := b_refcnt b - 1\<rparr>) s
        in Ok (if b_refcnt (bufs s ! i) = 0 then link_front i (buf_unlink i s) else s))"

text \<open>Changing the data of a buffer.\<close>

definition upd_data :: "nat \<Rightarrow> (u8 list \<Rightarrow> u8 list) \<Rightarrow> 'a blk_scheme \<Rightarrow> 'a blk_scheme" where
  "upd_data i f s = upd_buf i (\<lambda>b. b\<lparr>b_data := f (b_data b)\<rparr>) s"

section \<open>The linked list\<close>

fun chain :: "(nat \<Rightarrow> nat) \<Rightarrow> (nat \<Rightarrow> nat) \<Rightarrow> nat list \<Rightarrow> bool" where
  "chain nx pv (a # b # cs) \<longleftrightarrow> nx a = b \<and> pv b = a \<and> chain nx pv (b # cs)"
| "chain nx pv _ \<longleftrightarrow> True"

lemma chain_append: "chain nx pv (as @ c # bs) \<longleftrightarrow> chain nx pv (as @ [c]) \<and> chain nx pv (c # bs)"
  by (induction nx pv as rule: chain.induct) (cases bs; auto)+

lemma chain_cong:
  "(\<And>a. a \<in> set (butlast zs) \<Longrightarrow> nx a = nx' a) \<Longrightarrow> (\<And>b. b \<in> set (tl zs) \<Longrightarrow> pv b = pv' b) \<Longrightarrow>
    chain nx pv zs \<longleftrightarrow> chain nx' pv' zs"
  by (induction nx pv zs rule: chain.induct) auto

text \<open>The circular list through the head holds the buffers \<open>xs\<close>.\<close>

definition ring :: "(nat \<Rightarrow> nat) \<Rightarrow> (nat \<Rightarrow> nat) \<Rightarrow> nat list \<Rightarrow> bool" where
  "ring nx pv xs \<longleftrightarrow> distinct (NBUF # xs) \<and> chain nx pv (NBUF # xs @ [NBUF])"

lemma ring_front:
  assumes "ring nx pv xs" "i \<notin> set (NBUF # xs)"
  shows "ring (nx(i := nx NBUF, NBUF := i)) (pv(i := NBUF, nx NBUF := i)) (i # xs)"
proof (cases xs)
  case (Cons x ys)
  let ?nx = "nx(i := nx NBUF, NBUF := i)" and ?pv = "pv(i := NBUF, nx NBUF := i)"
  have r: "distinct (NBUF # x # ys)" "nx NBUF = x" "chain nx pv (x # ys @ [NBUF])"
    using assms(1) Cons by (auto simp: ring_def)
  have "chain ?nx ?pv (x # ys @ [NBUF]) \<longleftrightarrow> chain nx pv (x # ys @ [NBUF])"
    using r assms(2) Cons by (intro chain_cong) auto
  then show ?thesis using r assms(2) Cons by (auto simp: ring_def)
qed (use assms in \<open>auto simp: ring_def\<close>)

lemma chain_unlink:
  assumes "chain nx pv (as @ a # i # b # bs)"
    and "a \<notin> set as" "a \<notin> set (butlast (b # bs))" "b \<notin> set (tl (as @ [a]))" "b \<notin> set bs"
  shows "nx i = b" "pv i = a" "chain (nx(a := b)) (pv(b := a)) (as @ a # b # bs)"
proof -
  have c: "chain nx pv (as @ [a])" "nx i = b" "pv i = a" "chain nx pv (b # bs)"
    using assms(1) chain_append [of nx pv as a "i # b # bs"] by auto
  then show "nx i = b" "pv i = a" by simp_all
  have "chain (nx(a := b)) (pv(b := a)) (as @ [a])"
    using c(1) by (subst chain_cong [of _ _ nx _ pv]) (use assms in auto)
  moreover have "chain (nx(a := b)) (pv(b := a)) (b # bs)"
    using c(4) by (subst chain_cong [of _ _ nx _ pv]) (use assms in auto)
  ultimately show "chain (nx(a := b)) (pv(b := a)) (as @ a # b # bs)" by (subst chain_append) simp
qed

lemma ring_unlink:
  assumes "ring nx pv (us @ i # vs)"
  shows "ring (nx(pv i := nx i)) (pv(nx i := pv i)) (us @ vs)"
proof -
  have d: "distinct (NBUF # us @ i # vs)" and ch: "chain nx pv (NBUF # us @ i # vs @ [NBUF])"
    using assms by (auto simp: ring_def)
  obtain as a where l: "NBUF # us = as @ [a]" "us = tl (as @ [a])" by (metis list.sel(3) append_butlast_last_id list.distinct(1))
  obtain b bs where r: "vs @ [NBUF] = b # bs" "vs = butlast (b # bs)" by (cases vs) auto
  have eq: "NBUF # us @ i # vs @ [NBUF] = as @ a # i # b # bs" "NBUF # us @ vs @ [NBUF] = as @ a # b # bs"
    using l(1) r(1) by (metis append.assoc append_Cons append_Nil)+
  have ds: "distinct (as @ [a])" "distinct (b # bs)" using d l(1) r(1) by (metis distinct.simps(2) distinct_append Un_iff append_Cons set_append, metis distinct1_rotate rotate1.simps(2) distinct.simps(2) distinct_append Un_iff append_Cons set_append list.set_intros)
  have "a \<in> set (NBUF # us)" "b \<in> set (vs @ [NBUF])" using l(1) r(1) by simp_all
  then have ab: "a \<notin> set vs" "b \<notin> set us" using d by auto
  note u = chain_unlink [OF ch [unfolded eq(1)]]
  have "chain (nx(a := b)) (pv(b := a)) (as @ a # b # bs)" "nx i = b" "pv i = a"
    using u ds ab l(2) r(2) by auto
  then show ?thesis using d by (simp add: ring_def eq(2) [symmetric])
qed

end
