(* ===== verification/BioCache.thy ===== *)
theory BioCache
  imports Bio
begin

text \<open>
  The buffer cache implements a block store: through the cache, each disk block has one current
  contents (\<open>view\<close>), which reading, releasing and evicting leave alone and which only a change of a
  locked buffer changes. The invariant \<open>bc_ok\<close> covers the LRU list, the agreement of clean buffers with
  the disk, and that no block is cached twice.
\<close>

section \<open>The invariant of the cache\<close>

abbreviation (input) buf_of :: "'a blk_scheme \<Rightarrow> nat \<Rightarrow> buf" where
  "buf_of s i \<equiv> bufs s ! i"

definition lru :: "'a blk_scheme \<Rightarrow> nat list \<Rightarrow> bool" where
  "lru s xs \<longleftrightarrow> length (bufs s) = Suc NBUF \<and> set xs = {..<NBUF} \<and>
     ring (\<lambda>i. b_next (buf_of s i)) (\<lambda>i. b_prev (buf_of s i)) xs"

text \<open>One buffer: a block of 512 bytes, referenced exactly while this thread has it locked; a valid
  buffer that is neither locked nor dirty agrees with the disk.\<close>

definition buf_ok :: "'a blk_scheme \<Rightarrow> buf \<Rightarrow> bool" where
  "buf_ok s b \<longleftrightarrow> length (b_data b) = BSIZE \<and>
     b_refcnt b = (if locked (b_lock b) then 1 else 0) \<and> (locked (b_lock b) \<longrightarrow> lpid (b_lock b) = cur_pid s) \<and>
     (locked (b_lock b) \<longrightarrow> b_valid b) \<and> (b_dirty b \<longrightarrow> b_valid b) \<and> (b_valid b \<longleftrightarrow> b_dev b = 1) \<and> (b_valid b \<longrightarrow> b_blockno b < disksize s) \<and>
     (b_valid b \<longrightarrow> \<not> b_dirty b \<longrightarrow> \<not> locked (b_lock b) \<longrightarrow> b_data b = disk s (b_blockno b))"

definition bc_ok :: "'a blk_scheme \<Rightarrow> bool" where
  "bc_ok s \<longleftrightarrow> (\<exists>xs. lru s xs) \<and> (\<forall>i<NBUF. buf_ok s (buf_of s i)) \<and> (\<forall>b. length (disk s b) = BSIZE) \<and>
     (\<forall>i<NBUF. \<forall>j<NBUF. b_valid (buf_of s i) \<longrightarrow> b_valid (buf_of s j) \<longrightarrow>
        b_blockno (buf_of s i) = b_blockno (buf_of s j) \<longrightarrow> i = j)"

section \<open>The abstract store\<close>

text \<open>The index of the buffer that caches block \<open>b\<close>, the contents of the block as seen through the
  cache, and the blocks that are locked and dirty.\<close>

definition cached :: "'a blk_scheme \<Rightarrow> u32 \<Rightarrow> nat option" where
  "cached s b = find (\<lambda>i. b_valid (buf_of s i) \<and> b_blockno (buf_of s i) = b) [0..<NBUF]"

definition view :: "'a blk_scheme \<Rightarrow> u32 \<Rightarrow> u8 list" where
  "view s b = (case cached s b of Some i \<Rightarrow> b_data (buf_of s i) | None \<Rightarrow> disk s b)"

definition has :: "'a blk_scheme \<Rightarrow> nat \<Rightarrow> u32 \<Rightarrow> bool" where
  "has s i b \<longleftrightarrow> i < NBUF \<and> locked (b_lock (buf_of s i)) \<and> b_blockno (buf_of s i) = b"

definition held :: "'a blk_scheme \<Rightarrow> u32 set" where
  "held s = {b. \<exists>i. has s i b}"

definition dirty :: "'a blk_scheme \<Rightarrow> u32 set" where
  "dirty s = {b. \<exists>i<NBUF. b_dirty (buf_of s i) \<and> b_blockno (buf_of s i) = b}"

section \<open>Updates of one buffer\<close>

lemma upd_buf_fields [simp]:
  "disk (upd_buf i f s) = disk s" "disksize (upd_buf i f s) = disksize s" "cur_pid (upd_buf i f s) = cur_pid s"
  "written (upd_buf i f s) = written s" "length (bufs (upd_buf i f s)) = length (bufs s)" "blk.more (upd_buf i f s) = blk.more s"
  by (simp_all add: upd_buf_def)

lemma upd_buf_nth: "i < length (bufs s) \<Longrightarrow> bufs (upd_buf i f s) ! j = (if j = i then f (bufs s ! i) else bufs s ! j)"
  by (simp add: upd_buf_def)

lemma upd_buf_keeps: "(\<And>b. g (f b) = g b) \<Longrightarrow> g (bufs (upd_buf i f s) ! j) = g (bufs s ! j)"
  by (cases "i < length (bufs s)"; cases "j = i") (auto simp: upd_buf_def list_update_beyond)

lemma link_keeps:
  assumes "\<And>b n. g (b\<lparr>b_next := n\<rparr>) = g b" "\<And>b n. g (b\<lparr>b_prev := n\<rparr>) = g b"
  shows "g (bufs (link_front i s) ! j) = g (bufs s ! j)" "g (bufs (buf_unlink i s) ! j) = g (bufs s ! j)"
  unfolding link_front_def buf_unlink_def Let_def by (simp_all add: upd_buf_keeps assms)

lemma link_fields [simp]:
  "disk (link_front i s) = disk s" "disksize (link_front i s) = disksize s" "cur_pid (link_front i s) = cur_pid s"
  "written (link_front i s) = written s" "length (bufs (link_front i s)) = length (bufs s)" "blk.more (link_front i s) = blk.more s"
  "disk (buf_unlink i s) = disk s" "disksize (buf_unlink i s) = disksize s" "cur_pid (buf_unlink i s) = cur_pid s"
  "written (buf_unlink i s) = written s" "length (bufs (buf_unlink i s)) = length (bufs s)" "blk.more (buf_unlink i s) = blk.more s"
  by (simp_all add: link_front_def buf_unlink_def Let_def)

lemma ring_cong:
  assumes "\<And>i. i \<in> set (NBUF # xs) \<Longrightarrow> nx i = nx' i \<and> pv i = pv' i"
  shows "ring nx pv xs \<longleftrightarrow> ring nx' pv' xs"
  unfolding ring_def by (subst chain_cong [of _ nx nx' pv pv']) (use assms in \<open>auto simp: butlast_append\<close>)

lemma lru_link_front:
  assumes r: "ring (\<lambda>i. b_next (buf_of s i)) (\<lambda>i. b_prev (buf_of s i)) xs" and len: "length (bufs s) = Suc NBUF"
    and i: "i < NBUF" "i \<notin> set xs" "set xs \<subseteq> {..<NBUF}"
  shows "ring (\<lambda>k. b_next (buf_of (link_front i s) k)) (\<lambda>k. b_prev (buf_of (link_front i s) k)) (i # xs)"
proof -
  let ?n = "b_next (buf_of s NBUF)"
  have "?n = hd (xs @ [NBUF])" using r by (cases xs) (auto simp: ring_def)
  then have n: "?n < Suc NBUF" "?n \<noteq> i" using i by (cases xs; auto)+
  have "ring ((\<lambda>k. b_next (buf_of s k))(i := ?n, NBUF := i)) ((\<lambda>k. b_prev (buf_of s k))(i := NBUF, ?n := i)) (i # xs)"
    by (rule ring_front [OF r]) (use i in auto)
  then show ?thesis
    by (subst (asm) ring_cong) (use i n len in \<open>auto simp: link_front_def Let_def upd_buf_def nth_list_update\<close>)
qed

lemma ring_nbrs: "ring nx pv (us @ i # vs) \<Longrightarrow> nx i \<in> set (NBUF # vs) \<and> pv i \<in> set (NBUF # us)"
proof -
  assume "ring nx pv (us @ i # vs)"
  then have "chain nx pv ((NBUF # us) @ i # vs @ [NBUF])" by (simp add: ring_def)
  then have c: "chain nx pv ((NBUF # us) @ [i])" "chain nx pv (i # vs @ [NBUF])" using chain_append by blast+
  have "nx i \<in> set (NBUF # vs)" using c(2) by (cases vs) auto
  moreover have "pv i \<in> set (NBUF # us)"
  proof (cases us rule: rev_cases)
    case (snoc ws w)
    then have "chain nx pv ((NBUF # ws) @ w # [i])" using c(1) by simp
    then show ?thesis using snoc chain_append [of nx pv "NBUF # ws" w "[i]"] by auto
  qed (use c(1) in auto)
  ultimately show ?thesis by blast
qed

lemma lru_unlink:
  assumes r: "ring (\<lambda>i. b_next (buf_of s i)) (\<lambda>i. b_prev (buf_of s i)) (us @ i # vs)" and len: "length (bufs s) = Suc NBUF"
    and i: "set (us @ i # vs) \<subseteq> {..<NBUF}"
  shows "ring (\<lambda>k. b_next (buf_of (buf_unlink i s) k)) (\<lambda>k. b_prev (buf_of (buf_unlink i s) k)) (us @ vs)"
proof -
  let ?n = "b_next (buf_of s i)" and ?p = "b_prev (buf_of s i)"
  have "?n \<in> set (NBUF # us @ i # vs)" "?p \<in> set (NBUF # us @ i # vs)" using ring_nbrs [OF r] by auto
  then have "?n < Suc NBUF" "?p < Suc NBUF" using i by auto
  then have "ring (\<lambda>k. b_next (buf_of (buf_unlink i s) k)) (\<lambda>k. b_prev (buf_of (buf_unlink i s) k)) (us @ vs) \<longleftrightarrow>
     ring ((\<lambda>k. b_next (buf_of s k))(?p := ?n)) ((\<lambda>k. b_prev (buf_of s k))(?n := ?p)) (us @ vs)"
    using len by (intro ring_cong) (auto simp: buf_unlink_def Let_def upd_buf_def nth_list_update)
  then show ?thesis using ring_unlink [OF r] by simp
qed

lemma lru_move:
  assumes "lru s (us @ i # vs)"
  shows "lru (link_front i (buf_unlink i s)) (i # us @ vs)"
proof -
  have h: "length (bufs s) = Suc NBUF" "set (us @ i # vs) = {..<NBUF}" "distinct (us @ i # vs)"
      "ring (\<lambda>i. b_next (buf_of s i)) (\<lambda>i. b_prev (buf_of s i)) (us @ i # vs)"
    using assms by (auto simp: lru_def ring_def)
  have "i < NBUF" "i \<notin> set (us @ vs)" "set (us @ vs) \<subseteq> {..<NBUF}" using h(2,3) by auto
  then have "ring (\<lambda>k. b_next (buf_of (link_front i (buf_unlink i s)) k)) (\<lambda>k. b_prev (buf_of (link_front i (buf_unlink i s)) k)) (i # us @ vs)"
    using lru_unlink [OF h(4,1)] h(1,2) by (intro lru_link_front) auto
  then show ?thesis using h(1,2) by (auto simp: lru_def)
qed

lemma lru_upd:
  "(\<And>b. b_next (f b) = b_next b) \<Longrightarrow> (\<And>b. b_prev (f b) = b_prev b) \<Longrightarrow> lru (upd_buf i f s) xs \<longleftrightarrow> lru s xs"
  by (simp add: lru_def upd_buf_keeps)

section \<open>The searches of bget\<close>

lemma bscan_find:
  "chain (\<lambda>i. dir (bs ! i)) pv (a # xs @ [NBUF]) \<Longrightarrow> NBUF \<notin> set xs \<Longrightarrow> length xs < n \<Longrightarrow>
    bscan n P dir (dir (bs ! a)) bs = Ok (find (\<lambda>i. P (bs ! i)) xs)"
proof (induction xs arbitrary: a n)
  case Nil
  then show ?case by (cases n) auto
next
  case (Cons x xs)
  then obtain m where m: "n = Suc m" "length xs < m" by (cases n) auto
  then show ?case using Cons.prems Cons.IH [of x m] by auto
qed

lemma chain_rev: "chain nx pv zs \<Longrightarrow> chain pv nx (rev zs)"
proof (induction nx pv zs rule: chain.induct)
  case (1 nx pv a b cs)
  then show ?case using chain_append [of pv nx "rev cs" b "[a]"] by simp
qed auto

lemma lru_scan:
  assumes "lru s xs"
  shows "bscan (Suc NBUF) P b_next (b_next (buf_of s NBUF)) (bufs s) = Ok (find (\<lambda>i. P (buf_of s i)) xs)"
    "bscan (Suc NBUF) P b_prev (b_prev (buf_of s NBUF)) (bufs s) = Ok (find (\<lambda>i. P (buf_of s i)) (rev xs))"
proof -
  have h: "set xs = {..<NBUF}" "distinct xs" "NBUF \<notin> set xs"
      "chain (\<lambda>i. b_next (buf_of s i)) (\<lambda>i. b_prev (buf_of s i)) (NBUF # xs @ [NBUF])"
    using assms by (auto simp: lru_def ring_def)
  have l: "length xs < Suc NBUF" using h(1,2) distinct_card [of xs] by simp
  show "bscan (Suc NBUF) P b_next (b_next (buf_of s NBUF)) (bufs s) = Ok (find (\<lambda>i. P (buf_of s i)) xs)"
    using bscan_find [OF h(4,3) l] .
  have "chain (\<lambda>i. b_prev (buf_of s i)) (\<lambda>i. b_next (buf_of s i)) (NBUF # rev xs @ [NBUF])"
    using chain_rev [OF h(4)] by simp
  from bscan_find [OF this, of "Suc NBUF" P] show
    "bscan (Suc NBUF) P b_prev (b_prev (buf_of s NBUF)) (bufs s) = Ok (find (\<lambda>i. P (buf_of s i)) (rev xs))"
    using h(3) l by simp
qed

section \<open>Views\<close>

lemma bc_okD:
  assumes "bc_ok s"
  shows "\<exists>xs. lru s xs" "i < NBUF \<Longrightarrow> buf_ok s (buf_of s i)" "length (disk s b) = BSIZE"
    "i < NBUF \<Longrightarrow> j < NBUF \<Longrightarrow> b_valid (buf_of s i) \<Longrightarrow> b_valid (buf_of s j) \<Longrightarrow>
       b_blockno (buf_of s i) = b_blockno (buf_of s j) \<Longrightarrow> i = j"
    "length (bufs s) = Suc NBUF"
  using assms unfolding bc_ok_def lru_def by blast+

lemma bc_ok_upd:
  assumes "bc_ok s" "i < NBUF" "\<And>b. b_next (f b) = b_next b" "\<And>b. b_prev (f b) = b_prev b"
    and "buf_ok s (f (buf_of s i))"
    and "\<And>j. j < NBUF \<Longrightarrow> j \<noteq> i \<Longrightarrow> b_valid (f (buf_of s i)) \<Longrightarrow> b_valid (buf_of s j) \<Longrightarrow> b_blockno (buf_of s j) \<noteq> b_blockno (f (buf_of s i))"
  shows "bc_ok (upd_buf i f s)"
proof -
  have nth: "buf_of (upd_buf i f s) j = (if j = i then f (buf_of s i) else buf_of s j)" for j
    using bc_okD(5) [OF assms(1)] assms(2) by (simp add: upd_buf_nth)
  have bk: "buf_ok (upd_buf i f s) b = buf_ok s b" for b by (simp add: buf_ok_def)
  obtain xs where "lru s xs" using bc_okD(1) [OF assms(1)] by blast
  then have "lru (upd_buf i f s) xs" using assms(3,4) by (simp add: lru_upd)
  then show ?thesis
    unfolding bc_ok_def nth bk using bc_okD(2,3,4) [OF assms(1)] assms(5,6) by (auto split: if_splits) (metis+)
qed

lemma cached_iff:
  assumes "bc_ok s"
  shows "cached s b = Some i \<longleftrightarrow> i < NBUF \<and> b_valid (buf_of s i) \<and> b_blockno (buf_of s i) = b"
proof
  assume "cached s b = Some i"
  then show "i < NBUF \<and> b_valid (buf_of s i) \<and> b_blockno (buf_of s i) = b"
    unfolding cached_def by (auto dest: find_SomeD)
next
  assume i: "i < NBUF \<and> b_valid (buf_of s i) \<and> b_blockno (buf_of s i) = b"
  then obtain j where j: "cached s b = Some j" unfolding cached_def by (cases "find (\<lambda>i. b_valid (buf_of s i) \<and> b_blockno (buf_of s i) = b) [0..<NBUF]") (auto simp: find_None)
  then have "j < NBUF" "b_valid (buf_of s j)" "b_blockno (buf_of s j) = b" unfolding cached_def by (auto dest: find_SomeD)
  then show "cached s b = Some i" using j i bc_okD(4) [OF assms, of i j] by blast
qed

lemma cached_None: "cached s b = None \<longleftrightarrow> (\<forall>i<NBUF. b_valid (buf_of s i) \<longrightarrow> b_blockno (buf_of s i) \<noteq> b)"
  unfolding cached_def by (auto simp: find_None)

lemma view_cached: "bc_ok s \<Longrightarrow> i < NBUF \<Longrightarrow> b_valid (buf_of s i) \<Longrightarrow> view s (b_blockno (buf_of s i)) = b_data (buf_of s i)"
proof -
  assume h: "bc_ok s" "i < NBUF" "b_valid (buf_of s i)"
  then have "cached s (b_blockno (buf_of s i)) = Some i" by (simp add: cached_iff)
  then show ?thesis by (simp add: view_def)
qed

lemma view_uncached: "(\<And>i. i < NBUF \<Longrightarrow> b_valid (buf_of s i) \<Longrightarrow> b_blockno (buf_of s i) \<noteq> b) \<Longrightarrow> view s b = disk s b"
  by (simp add: view_def cached_None [THEN iffD2])

text \<open>Only the fields of the block layer change, apart from the size of the disk and the process.\<close>

definition only_blk :: "'a blk_scheme \<Rightarrow> 'a blk_scheme \<Rightarrow> bool" where
  "only_blk s s' \<longleftrightarrow> (\<exists>B D W. s' = s\<lparr>bufs := B, disk := D, written := W\<rparr>)"

lemma only_blk_refl [simp]: "only_blk s s"
  unfolding only_blk_def by (intro exI [of _ "bufs s"] exI [of _ "disk s"] exI [of _ "written s"]) simp

lemma only_blk_trans:
  assumes "only_blk s t" "only_blk t u"
  shows "only_blk s u"
proof -
  obtain B D W B' D' W' where "t = s\<lparr>bufs := B, disk := D, written := W\<rparr>" "u = t\<lparr>bufs := B', disk := D', written := W'\<rparr>"
    using assms unfolding only_blk_def by blast
  then have "u = s\<lparr>bufs := B', disk := D', written := W'\<rparr>" by simp
  then show ?thesis unfolding only_blk_def by blast
qed

lemma only_blk_upd [simp]: "only_blk s (upd_buf i f s)"
  unfolding only_blk_def upd_buf_def by (intro exI [of _ "disk s"] exI [of _ "written s"] exI) simp

lemma only_blk_disk [simp]: "only_blk s (s\<lparr>disk := D, written := W\<rparr>)"
  unfolding only_blk_def by (intro exI [of _ "bufs s"] exI [of _ D] exI [of _ W]) simp

lemma hasD:
  assumes "bc_ok s" "has s i b"
  shows "i < NBUF" "b_valid (buf_of s i)" "b_blockno (buf_of s i) = b" "b_dev (buf_of s i) = 1" "b < disksize s"
    "locked (b_lock (buf_of s i))" "holdingsleep (cur_pid s) (b_lock (buf_of s i))" "b_data (buf_of s i) = view s b" "b_refcnt (buf_of s i) = 1"
proof -
  have i: "i < NBUF" "locked (b_lock (buf_of s i))" "b_blockno (buf_of s i) = b" using assms(2) by (auto simp: has_def)
  then have k: "buf_ok s (buf_of s i)" using bc_okD(2) [OF assms(1)] by blast
  then have v: "b_valid (buf_of s i)" using i by (simp add: buf_ok_def)
  show "b_data (buf_of s i) = view s b" using view_cached [OF assms(1) i(1) v] i(3) by simp
  show "i < NBUF" "b_valid (buf_of s i)" "b_blockno (buf_of s i) = b" "b_dev (buf_of s i) = 1" "b < disksize s"
    "locked (b_lock (buf_of s i))" "holdingsleep (cur_pid s) (b_lock (buf_of s i))" "b_refcnt (buf_of s i) = 1"
    using i v k by (auto simp: buf_ok_def holdingsleep_def)
qed

lemma has_unique:
  assumes "bc_ok s" "has s i b" "has s j b"
  shows "i = j"
  using bc_okD(4) [OF assms(1)] hasD(1-3) [OF assms(1,2)] hasD(1-3) [OF assms(1,3)] by simp

text \<open>The abstract state after an update of buffer \<open>i\<close>.\<close>

lemma has_upd: "bc_ok s \<Longrightarrow> i < NBUF \<Longrightarrow> has (upd_buf i f s) j b \<longleftrightarrow>
    (if j = i then locked (b_lock (f (buf_of s i))) \<and> b_blockno (f (buf_of s i)) = b else has s j b)"
  by (auto simp: has_def upd_buf_nth bc_okD(5))

lemma view_upd:
  assumes "bc_ok s" "bc_ok (upd_buf i f s)" "i < NBUF" "b_valid (f (buf_of s i))"
  shows "view (upd_buf i f s) c = (if c = b_blockno (f (buf_of s i)) then b_data (f (buf_of s i))
     else if b_valid (buf_of s i) \<and> c = b_blockno (buf_of s i) then disk s c else view s c)"
proof -
  let ?s = "upd_buf i f s"
  have nth: "buf_of ?s j = (if j = i then f (buf_of s i) else buf_of s j)" for j
    using bc_okD(5) [OF assms(1)] assms(3) by (simp add: upd_buf_nth)
  consider "c = b_blockno (f (buf_of s i))" | "c \<noteq> b_blockno (f (buf_of s i))" "b_valid (buf_of s i)" "c = b_blockno (buf_of s i)"
    | "c \<noteq> b_blockno (f (buf_of s i))" "b_valid (buf_of s i) \<Longrightarrow> c \<noteq> b_blockno (buf_of s i)" by blast
  then show ?thesis
  proof cases
    case 1
    then show ?thesis using view_cached [OF assms(2,3)] assms(4) nth by simp
  next
    case 2
    then have "view ?s c = disk ?s c"
      using bc_okD(4) [OF assms(1) _ assms(3)] by (intro view_uncached) (auto simp: nth split: if_splits)
    then show ?thesis using 2 by simp
  next
    case 3
    have "view ?s c = view s c"
    proof (cases "cached s c")
      case None
      then show ?thesis using 3 by (subst (1 2) view_uncached) (auto simp: cached_None nth)
    next
      case (Some j)
      then have "j < NBUF" "b_valid (buf_of s j)" "b_blockno (buf_of s j) = c" "j \<noteq> i" using 3 assms(1) by (auto simp: cached_iff)
      then show ?thesis using view_cached [OF assms(1), of j] view_cached [OF assms(2), of j] by (simp add: nth)
    qed
    then show ?thesis using 3 by auto
  qed
qed

section \<open>What the operations do\<close>

lemma busy_image:
  assumes "bc_ok s"
  shows "held s \<union> dirty s = (\<lambda>i. b_blockno (buf_of s i)) ` {i. i < NBUF \<and> (locked (b_lock (buf_of s i)) \<or> b_dirty (buf_of s i))}"
  by (auto simp: held_def dirty_def has_def)

text \<open>While fewer than \<open>NBUF\<close> blocks are locked or dirty, there is a buffer to recycle.\<close>

lemma victim_exists:
  assumes ok: "bc_ok s" and few: "card (held s \<union> dirty s) < NBUF" and xs: "set xs = {..<NBUF}"
  obtains i where "find (\<lambda>i. b_refcnt (buf_of s i) = 0 \<and> \<not> b_dirty (buf_of s i)) xs = Some i"
    "i < NBUF" "\<not> locked (b_lock (buf_of s i))" "\<not> b_dirty (buf_of s i)"
proof (cases "find (\<lambda>i. b_refcnt (buf_of s i) = 0 \<and> \<not> b_dirty (buf_of s i)) xs")
  case None
  have busy: "locked (b_lock (buf_of s i)) \<or> b_dirty (buf_of s i)" if "i < NBUF" for i
    using None that xs bc_okD(2) [OF ok that] by (auto simp: find_None buf_ok_def split: if_splits)
  then have eq: "{i. i < NBUF \<and> (locked (b_lock (buf_of s i)) \<or> b_dirty (buf_of s i))} = {..<NBUF}" by auto
  have "b_valid (buf_of s i)" if "i < NBUF" for i using busy [OF that] bc_okD(2) [OF ok that] by (auto simp: buf_ok_def)
  then have "inj_on (\<lambda>i. b_blockno (buf_of s i)) {..<NBUF}" using bc_okD(4) [OF ok] by (auto intro!: inj_onI)
  then have "card (held s \<union> dirty s) = NBUF" unfolding busy_image [OF ok] eq by (simp add: card_image)
  then show ?thesis using few by simp
next
  case (Some i)
  then have "i < NBUF" "b_refcnt (buf_of s i) = 0" "\<not> b_dirty (buf_of s i)" using xs by (auto dest: find_SomeD)
  then show ?thesis using that Some bc_okD(2) [OF ok, of i] by (auto simp: buf_ok_def split: if_splits)
qed

lemma sets_upd:
  assumes "bc_ok s" "i < NBUF"
  shows "held (upd_buf i f s) = {b. \<exists>j. j \<noteq> i \<and> has s j b} \<union> (if locked (b_lock (f (buf_of s i))) then {b_blockno (f (buf_of s i))} else {})"
    "dirty (upd_buf i f s) = {b. \<exists>j<NBUF. j \<noteq> i \<and> b_dirty (buf_of s j) \<and> b_blockno (buf_of s j) = b} \<union>
       (if b_dirty (f (buf_of s i)) then {b_blockno (f (buf_of s i))} else {})"
  unfolding held_def dirty_def using assms by (auto simp: has_upd upd_buf_nth bc_okD(5) split: if_splits)

lemma sets_split:
  assumes "i < NBUF"
  shows "held s = {b. \<exists>j. j \<noteq> i \<and> has s j b} \<union> (if locked (b_lock (buf_of s i)) then {b_blockno (buf_of s i)} else {})"
    "dirty s = {b. \<exists>j<NBUF. j \<noteq> i \<and> b_dirty (buf_of s j) \<and> b_blockno (buf_of s j) = b} \<union>
       (if b_dirty (buf_of s i) then {b_blockno (buf_of s i)} else {})"
  unfolding held_def dirty_def using assms by (auto simp: has_def)

lemma other_block:
  assumes "bc_ok s" "i < NBUF" "b_valid (buf_of s i)" "j < NBUF" "j \<noteq> i" "b_valid (buf_of s j)"
  shows "b_blockno (buf_of s j) \<noteq> b_blockno (buf_of s i)"
  using bc_okD(4) [OF assms(1,2,4,3,6)] assms(5) by metis

definition bread_post :: "'a blk_scheme \<Rightarrow> u32 \<Rightarrow> nat \<Rightarrow> 'a blk_scheme \<Rightarrow> bool" where
  "bread_post s b i s' \<longleftrightarrow> bc_ok s' \<and> has s' i b \<and> view s' = view s \<and> disk s' = disk s \<and> written s' = written s \<and>
     held s' = insert b (held s) \<and> dirty s' = dirty s \<and> only_blk s s' \<and> (\<forall>j c. has s j c \<longrightarrow> has s' j c)"

lemma bread_hit:
  assumes ok: "bc_ok s" and i: "i < NBUF" "b_valid (buf_of s i)" "b_blockno (buf_of s i) = b" "\<not> locked (b_lock (buf_of s i))"
  shows "bread_post s b i (upd_buf i (\<lambda>b. b\<lparr>b_refcnt := b_refcnt b + 1, b_lock := take_lock (cur_pid s) lk\<rparr>) s)" (is "bread_post _ _ _ ?s")
proof -
  have k: "buf_ok s (buf_of s i)" by (rule bc_okD(2) [OF ok i(1)])
  have ok': "bc_ok ?s"
    by (rule bc_ok_upd [OF ok i(1)]) (use k i other_block [OF ok i(1,2)] in \<open>auto simp: buf_ok_def take_lock_def\<close>)
  have "view ?s = view s"
    using view_cached [OF ok i(1,2)] i(2,3) by (intro ext, subst view_upd [OF ok ok' i(1)]) auto
  moreover have "held ?s = insert b (held s)" "dirty ?s = dirty s"
    unfolding sets_upd [OF ok i(1)] sets_split [OF i(1), of s] using i by (auto simp: take_lock_def)
  moreover have "has ?s j c" if "has s j c" for j c
  proof -
    have "j \<noteq> i" using that i by (auto simp: has_def)
    then show ?thesis using that by (simp add: has_upd [OF ok i(1)])
  qed
  moreover have "has ?s i b" using i by (simp add: has_upd [OF ok i(1)] take_lock_def)
  ultimately show ?thesis using ok' by (simp add: bread_post_def)
qed

lemma bread_miss:
  assumes ok: "bc_ok s" and i: "i < NBUF" "\<not> locked (b_lock (buf_of s i))" "\<not> b_dirty (buf_of s i)"
    and b: "\<And>j. j < NBUF \<Longrightarrow> b_valid (buf_of s j) \<Longrightarrow> b_blockno (buf_of s j) \<noteq> b" "b < disksize s"
  shows "bread_post s b i (upd_buf i (\<lambda>x. x\<lparr>b_dev := 1, b_blockno := b, b_dirty := False, b_refcnt := 1,
     b_lock := take_lock (cur_pid s) lk, b_data := disk s b, b_valid := True\<rparr>) s)" (is "bread_post _ _ _ ?s")
proof -
  have k: "buf_ok s (buf_of s i)" by (rule bc_okD(2) [OF ok i(1)])
  have ok': "bc_ok ?s"
    by (rule bc_ok_upd [OF ok i(1)]) (use b i bc_okD(3) [OF ok] in \<open>auto simp: buf_ok_def take_lock_def\<close>)
  have vb: "view s b = disk s b" by (rule view_uncached) (use b in auto)
  have vc: "view s (b_blockno (buf_of s i)) = disk s (b_blockno (buf_of s i))" if "b_valid (buf_of s i)"
    using view_cached [OF ok i(1) that] k i that by (auto simp: buf_ok_def)
  have "view ?s = view s"
    by (intro ext, subst view_upd [OF ok ok' i(1)]) (use vb vc in auto)
  moreover have "held ?s = insert b (held s)" "dirty ?s = dirty s"
    unfolding sets_upd [OF ok i(1)] sets_split [OF i(1), of s] using i by (auto simp: take_lock_def)
  moreover have "has ?s j c" if "has s j c" for j c
  proof -
    have "j \<noteq> i" using that i by (auto simp: has_def)
    then show ?thesis using that by (simp add: has_upd [OF ok i(1)])
  qed
  moreover have "has ?s i b" using i by (simp add: has_upd [OF ok i(1)] take_lock_def)
  ultimately show ?thesis using ok' by (simp add: bread_post_def)
qed

lemma bread_run_miss:
  assumes ok: "bc_ok s" and l: "lru s xs" and none: "find (\<lambda>i. b_dev (buf_of s i) = 1 \<and> b_blockno (buf_of s i) = b) xs = None"
    and i: "find (\<lambda>i. b_refcnt (buf_of s i) = 0 \<and> \<not> b_dirty (buf_of s i)) (rev xs) = Some i"
      "i < NBUF" "\<not> locked (b_lock (buf_of s i))" "\<not> b_dirty (buf_of s i)" and b: "b < disksize s"
  shows "bread 1 b s = Ok (i, upd_buf i (\<lambda>x. x\<lparr>b_dev := 1, b_blockno := b, b_dirty := False, b_refcnt := 1,
     b_lock := take_lock (cur_pid s) (b_lock (buf_of s i)), b_data := disk s b, b_valid := True\<rparr>) s)"
  unfolding bread_def bget_def lru_scan [OF l] none using i bc_okD(5) [OF ok] b
  by (simp add: acquiresleep_def iderw_def Let_def upd_buf_nth holdingsleep_def take_lock_def) (simp add: upd_buf_def linorder_not_le)

lemma find_rev_last: "find P (rev xs) = Some i \<Longrightarrow> find P (rev xs) = Some (last (filter P xs))"
  by (induction xs rule: rev_induct) (auto split: if_splits)

lemma bread_spec:
  assumes ok: "bc_ok s" and b: "b < disksize s" "b \<notin> held s" "b \<in> dirty s \<or> card (held s \<union> dirty s) < NBUF"
  obtains i s' where "bread 1 b s = Ok (i, s')" "bread_post s b i s'"
proof -
  obtain xs where l: "lru s xs" using bc_okD(1) [OF ok] by blast
  then have xs: "set xs = {..<NBUF}" by (simp add: lru_def)
  have dv: "b_dev (buf_of s j) = 1 \<longleftrightarrow> b_valid (buf_of s j)" if "j < NBUF" for j
    using bc_okD(2) [OF ok that] by (auto simp: buf_ok_def)
  note len = bc_okD(5) [OF ok]
  show ?thesis
  proof (cases "find (\<lambda>i. b_dev (buf_of s i) = 1 \<and> b_blockno (buf_of s i) = b) xs")
    case (Some i)
    then have i: "i < NBUF" "b_valid (buf_of s i)" "b_blockno (buf_of s i) = b" using xs dv by (auto dest!: find_SomeD)
    then have un: "\<not> locked (b_lock (buf_of s i))" using b(2) by (auto simp: held_def has_def)
    have "bread 1 b s = Ok (i, upd_buf i (\<lambda>x. x\<lparr>b_refcnt := b_refcnt x + 1, b_lock := take_lock (cur_pid s) (b_lock (buf_of s i))\<rparr>) s)"
      unfolding bread_def bget_def lru_scan [OF l] Some using i un len by (simp add: acquiresleep_def upd_buf_nth)
    then show ?thesis using that bread_hit [OF ok i un] by blast
  next
    case None
    then have nb: "\<And>j. j < NBUF \<Longrightarrow> b_valid (buf_of s j) \<Longrightarrow> b_blockno (buf_of s j) \<noteq> b" using xs dv by (auto simp: find_None)
    have "b_valid (buf_of s j)" if "j < NBUF" "b_dirty (buf_of s j)" for j using that bc_okD(2) [OF ok] by (simp add: buf_ok_def)
    then have "b \<notin> dirty s" using nb by (auto simp: dirty_def)
    then obtain i where i: "find (\<lambda>i. b_refcnt (buf_of s i) = 0 \<and> \<not> b_dirty (buf_of s i)) (rev xs) = Some i"
        "i < NBUF" "\<not> locked (b_lock (buf_of s i))" "\<not> b_dirty (buf_of s i)"
      using b(3) xs by (elim disjE) (simp, rule victim_exists [OF ok, of "rev xs"], auto)
    show ?thesis using that bread_run_miss [OF ok l None i b(1)] bread_miss [OF ok i(2-4) nb b(1)] by blast
  qed
qed

text \<open>Moving a buffer in the list changes nothing else.\<close>

lemma relink_keeps:
  assumes "\<And>b n. g (b\<lparr>b_next := n\<rparr>) = g b" "\<And>b n. g (b\<lparr>b_prev := n\<rparr>) = g b"
  shows "g (bufs (link_front i (buf_unlink i s)) ! j) = g (bufs s ! j)"
  by (simp add: link_keeps [of g, OF assms])

lemmas relink_fields [simp] = relink_keeps [where g = b_valid, simplified] relink_keeps [where g = b_dirty, simplified]
  relink_keeps [where g = b_dev, simplified] relink_keeps [where g = b_blockno, simplified]
  relink_keeps [where g = b_lock, simplified] relink_keeps [where g = b_refcnt, simplified] relink_keeps [where g = b_data, simplified]

lemma relink:
  assumes "bc_ok s" "i < NBUF"
  shows "bc_ok (link_front i (buf_unlink i s))" "view (link_front i (buf_unlink i s)) = view s"
    "has (link_front i (buf_unlink i s)) j c \<longleftrightarrow> has s j c" "dirty (link_front i (buf_unlink i s)) = dirty s"
    "only_blk s (link_front i (buf_unlink i s))"
proof -
  let ?s = "link_front i (buf_unlink i s)"
  obtain xs where l: "lru s xs" using bc_okD(1) [OF assms(1)] by blast
  then have "i \<in> set xs" using assms(2) by (simp add: lru_def)
  then obtain us vs where "xs = us @ i # vs" by (meson split_list)
  then have "lru ?s (i # us @ vs)" using l lru_move by blast
  moreover have "buf_ok ?s (buf_of ?s j) \<longleftrightarrow> buf_ok s (buf_of s j)" for j by (simp add: buf_ok_def)
  ultimately show "bc_ok ?s" using assms(1) unfolding bc_ok_def by auto
  show "view ?s = view s" by (simp add: fun_eq_iff view_def cached_def cong: option.case_cong)
  show "has ?s j c \<longleftrightarrow> has s j c" "dirty ?s = dirty s" by (simp_all add: has_def dirty_def)
  show "only_blk s ?s"
    unfolding link_front_def buf_unlink_def Let_def by (meson only_blk_trans only_blk_upd)
qed

lemma dirty_iff:
  assumes ok: "bc_ok s" and i: "i < NBUF" "b_valid (buf_of s i)"
  shows "b_blockno (buf_of s i) \<in> dirty s \<longleftrightarrow> b_dirty (buf_of s i)"
proof
  assume "b_blockno (buf_of s i) \<in> dirty s"
  then obtain j where j: "j < NBUF" "b_dirty (buf_of s j)" "b_blockno (buf_of s j) = b_blockno (buf_of s i)" by (auto simp: dirty_def)
  moreover have "b_valid (buf_of s j)" using bc_okD(2) [OF ok j(1)] j(2) by (simp add: buf_ok_def)
  ultimately show "b_dirty (buf_of s i)" using other_block [OF ok i, of j] by (cases "j = i") auto
qed (use i in \<open>auto simp: dirty_def\<close>)

lemma brelse_spec:
  assumes ok: "bc_ok s" and i: "has s i b" and b: "b \<in> dirty s \<or> view s b = disk s b"
  obtains s' where "brelse i s = Ok s'" "bc_ok s'" "view s' = view s" "disk s' = disk s" "written s' = written s"
    "held s' = held s - {b}" "dirty s' = dirty s" "only_blk s s'" "\<And>j c. has s' j c \<longleftrightarrow> has s j c \<and> j \<noteq> i"
proof -
  note h = hasD [OF ok i]
  let ?s = "upd_buf i (\<lambda>b. b\<lparr>b_lock := releasesleep (b_lock b), b_refcnt := b_refcnt b - 1\<rparr>) s"
  have k: "buf_ok s (buf_of s i)" by (rule bc_okD(2) [OF ok h(1)])
  have db: "b \<in> dirty s \<longleftrightarrow> b_dirty (buf_of s i)"
    using dirty_iff [OF ok h(1,2)] h(3) by simp
  have ok': "bc_ok ?s"
    by (rule bc_ok_upd [OF ok h(1)])
      (use k h b db other_block [OF ok h(1,2)] in \<open>auto simp: buf_ok_def releasesleep_def drop_lock_def\<close>)
  have v: "view ?s = view s" using h view_cached [OF ok h(1,2)] by (intro ext, subst view_upd [OF ok ok' h(1)]) auto
  have hs: "has ?s j c \<longleftrightarrow> has s j c \<and> j \<noteq> i" for j c
    by (auto simp: has_upd [OF ok h(1)] releasesleep_def drop_lock_def)
  have d: "dirty ?s = dirty s" unfolding sets_upd(2) [OF ok h(1)] sets_split(2) [OF h(1), of s] by simp
  have run: "brelse i s = Ok (link_front i (buf_unlink i ?s))"
    using h bc_okD(5) [OF ok] by (simp add: brelse_def Let_def upd_buf_nth)
  note r = relink [OF ok' h(1)]
  have hl: "held (link_front i (buf_unlink i ?s)) = held s - {b}"
    unfolding held_def using r(3) hs i has_unique [OF ok i] h(3) by (auto simp: has_def)
  have ob: "only_blk s (link_front i (buf_unlink i ?s))" using r(5) only_blk_trans only_blk_upd by blast
  show ?thesis using that [OF run r(1)] r v d hl ob hs by simp
qed

lemma has_upd_same:
  "(\<And>b. b_lock (f b) = b_lock b) \<Longrightarrow> (\<And>b. b_blockno (f b) = b_blockno b) \<Longrightarrow> has (upd_buf i f s) j c \<longleftrightarrow> has s j c"
  by (simp add: has_def upd_buf_keeps [where g = b_lock] upd_buf_keeps [where g = b_blockno])

lemma upd_data_spec:
  assumes ok: "bc_ok s" and i: "has s i b" and f: "length (f (view s b)) = BSIZE"
  shows "bc_ok (upd_data i f s)" "view (upd_data i f s) = (view s)(b := f (view s b))" "has (upd_data i f s) j c \<longleftrightarrow> has s j c"
    "held (upd_data i f s) = held s" "dirty (upd_data i f s) = dirty s" "disk (upd_data i f s) = disk s"
    "written (upd_data i f s) = written s" "only_blk s (upd_data i f s)"
proof -
  note h = hasD [OF ok i]
  let ?f = "\<lambda>b. b\<lparr>b_data := f (b_data b)\<rparr>"
  have k: "buf_ok s (buf_of s i)" by (rule bc_okD(2) [OF ok h(1)])
  have "bc_ok (upd_buf i ?f s)"
    by (rule bc_ok_upd [OF ok h(1)]) (use k h f other_block [OF ok h(1,2)] in \<open>auto simp: buf_ok_def\<close>)
  then have ok': "bc_ok (upd_data i f s)" by (simp add: upd_data_def)
  then show "bc_ok (upd_data i f s)" .
  show "view (upd_data i f s) = (view s)(b := f (view s b))"
    using ok' h unfolding upd_data_def by (intro ext, subst view_upd [OF ok _ h(1)]) auto
  show "has (upd_data i f s) j c \<longleftrightarrow> has s j c" unfolding upd_data_def by (simp add: has_upd_same)
  show "held (upd_data i f s) = held s" "dirty (upd_data i f s) = dirty s"
    unfolding upd_data_def sets_upd [OF ok h(1)] sets_split [OF h(1), of s] by simp_all
  show "disk (upd_data i f s) = disk s" "written (upd_data i f s) = written s" "only_blk s (upd_data i f s)"
    by (simp_all add: upd_data_def)
qed

lemma mark_dirty:
  assumes ok: "bc_ok s" and i: "has s i b"
  defines "s' \<equiv> upd_buf i (\<lambda>b. b\<lparr>b_dirty := True\<rparr>) s"
  shows "bc_ok s'" "view s' = view s" "has s' j c \<longleftrightarrow> has s j c" "held s' = held s" "dirty s' = insert b (dirty s)"
proof -
  note h = hasD [OF ok i]
  have k: "buf_ok s (buf_of s i)" by (rule bc_okD(2) [OF ok h(1)])
  have ok': "bc_ok s'" unfolding s'_def
    by (rule bc_ok_upd [OF ok h(1)]) (use k h other_block [OF ok h(1,2)] in \<open>auto simp: buf_ok_def\<close>)
  then show "bc_ok s'" .
  show "view s' = view s"
    using ok' h unfolding s'_def by (intro ext, subst view_upd [OF ok _ h(1)]) auto
  show "has s' j c \<longleftrightarrow> has s j c" unfolding s'_def by (simp add: has_upd_same)
  show "held s' = held s" "dirty s' = insert b (dirty s)"
    unfolding s'_def sets_upd [OF ok h(1)] sets_split [OF h(1), of s] using h by auto
qed

lemma disk_upd:
  fixes w :: "(u32 \<times> u8 list) list"
  assumes ok: "bc_ok s" and i: "has s i b" and d: "length d = BSIZE"
  defines "s' \<equiv> s\<lparr>disk := (disk s)(b := d), written := w\<rparr>"
  shows "bc_ok s'" "view s' = view s" "has s' j c \<longleftrightarrow> has s j c" "held s' = held s" "dirty s' = dirty s"
proof -
  note h = hasD [OF ok i]
  have bo: "buf_ok s' (buf_of s' j)" if "j < NBUF" for j
    using bc_okD(2) [OF ok that] other_block [OF ok h(1,2) that] h
    by (cases "j = i") (auto simp: buf_ok_def s'_def)
  show ok': "bc_ok s'"
    using ok bo d unfolding bc_ok_def lru_def s'_def by auto
  have c: "cached s' x = cached s x" "bufs s' = bufs s" "disk s' = (disk s)(b := d)" for x by (simp_all add: cached_def s'_def)
  have cb: "cached s b = Some i" using h by (simp add: cached_iff [OF ok])
  show "view s' = view s"
    using cb by (auto simp: fun_eq_iff view_def c split: option.splits)
  show "has s' j c \<longleftrightarrow> has s j c" "held s' = held s" "dirty s' = dirty s"
    by (simp_all add: has_def held_def dirty_def s'_def)
qed

lemma bwrite_spec:
  assumes ok: "bc_ok s" and i: "has s i b"
  obtains s' where "bwrite i s = Ok s'" "bc_ok s'" "view s' = view s" "disk s' = (disk s)(b := view s b)"
    "written s' = written s @ [(b, view s b)]" "held s' = held s" "dirty s' = dirty s - {b}" "only_blk s s'"
    "\<And>j c. has s' j c \<longleftrightarrow> has s j c"
proof -
  note h = hasD [OF ok i]
  let ?f = "\<lambda>b. b\<lparr>b_dirty := False, b_valid := True\<rparr>" and ?d = "s\<lparr>disk := (disk s)(b := view s b), written := written s @ [(b, view s b)]\<rparr>"
  have len: "length (view s b) = BSIZE" using bc_okD(2) [OF ok h(1)] h(8) by (simp add: buf_ok_def)
  note d = disk_upd [OF ok i len, of "written s @ [(b, view s b)]"]
  have i': "has ?d i b" using d(3) i by simp
  note h' = hasD [OF d(1) i']
  have k: "buf_ok ?d (buf_of ?d i)" by (rule bc_okD(2) [OF d(1) h'(1)])
  have ok': "bc_ok (upd_buf i ?f ?d)"
    by (rule bc_ok_upd [OF d(1) h'(1)]) (use k h' other_block [OF d(1) h'(1,2)] in \<open>auto simp: buf_ok_def\<close>)
  have v: "view (upd_buf i ?f ?d) = view ?d"
    using h' by (intro ext, subst view_upd [OF d(1) ok' h'(1)]) auto
  have hs: "has (upd_buf i ?f ?d) j c \<longleftrightarrow> has s j c" for j c
    using d(3) by (simp add: has_upd_same)
  have fresh: "b \<notin> {b. \<exists>j<NBUF. j \<noteq> i \<and> b_dirty (buf_of ?d j) \<and> b_blockno (buf_of ?d j) = b}"
  proof
    assume "b \<in> {b. \<exists>j<NBUF. j \<noteq> i \<and> b_dirty (buf_of ?d j) \<and> b_blockno (buf_of ?d j) = b}"
    then obtain j where j: "j < NBUF" "j \<noteq> i" "b_dirty (buf_of ?d j)" "b_blockno (buf_of ?d j) = b" by blast
    moreover have "b_valid (buf_of ?d j)" using bc_okD(2) [OF d(1) j(1)] j(3) by (simp add: buf_ok_def)
    ultimately show False using other_block [OF d(1) h'(1,2), of j] h'(3) by simp
  qed
  have sets: "held (upd_buf i ?f ?d) = held s" "dirty (upd_buf i ?f ?d) = dirty s - {b}"
    unfolding sets_upd [OF d(1) h'(1)] d(4,5) [symmetric] sets_split [OF h'(1), of ?d] using fresh h' by auto
  have "bwrite i s = Ok (upd_buf i ?f ?d)"
    using h bc_okD(5) [OF ok] by (simp add: bwrite_def iderw_def Let_def upd_buf_nth linorder_not_le) (simp add: upd_buf_def)
  moreover have "only_blk s (upd_buf i ?f ?d)"
    by (rule only_blk_trans [OF only_blk_disk only_blk_upd])
  ultimately show ?thesis using that ok' v d(2) sets hs by simp
qed

section \<open>The initial cache\<close>

text \<open>Uninitialised kernel data is zero.\<close>

definition buf_zero :: buf where
  "buf_zero = \<lparr>b_valid = False, b_dirty = False, b_dev = 0, b_blockno = 0, b_lock = \<lparr>locked = False, lpid = 0\<rparr>,
     b_refcnt = 0, b_prev = 0, b_next = 0, b_data = replicate BSIZE 0\<rparr>"

lemma binit_loop_fields [simp]:
  "disk (binit_loop is s) = disk s" "disksize (binit_loop is s) = disksize s" "cur_pid (binit_loop is s) = cur_pid s"
  "written (binit_loop is s) = written s" "length (bufs (binit_loop is s)) = length (bufs s)"
  by (induction "is" arbitrary: s) simp_all

lemma binit_loop_keeps:
  assumes "\<And>b n. g (b\<lparr>b_next := n\<rparr>) = g b" "\<And>b n. g (b\<lparr>b_prev := n\<rparr>) = g b" "\<And>b l. g (b\<lparr>b_lock := l\<rparr>) = g b"
  shows "g (bufs (binit_loop is s) ! j) = g (bufs s ! j)"
  by (induction "is" arbitrary: s) (simp_all add: link_keeps [of g, OF assms(1,2)] upd_buf_keeps assms(3))

lemma binit_loop_lock:
  "\<not> locked (b_lock (bufs s ! j)) \<Longrightarrow> \<not> locked (b_lock (bufs (binit_loop is s) ! j))"
proof (induction "is" arbitrary: s)
  case (Cons i ks)
  have "\<not> locked (b_lock (bufs (upd_buf i (\<lambda>b. b\<lparr>b_lock := initsleeplock\<rparr>) s) ! j))"
    using Cons.prems by (cases "i < length (bufs s)"; cases "j = i") (auto simp: upd_buf_def initsleeplock_def list_update_beyond)
  then show ?case using Cons.IH by (simp add: link_keeps [where g = b_lock])
qed simp

lemma binit_loop_ring:
  "ring (\<lambda>i. b_next (buf_of s i)) (\<lambda>i. b_prev (buf_of s i)) xs \<Longrightarrow> length (bufs s) = Suc NBUF \<Longrightarrow>
    distinct (is @ xs) \<Longrightarrow> set (is @ xs) \<subseteq> {..<NBUF} \<Longrightarrow>
    ring (\<lambda>i. b_next (buf_of (binit_loop is s) i)) (\<lambda>i. b_prev (buf_of (binit_loop is s) i)) (rev is @ xs)"
proof (induction "is" arbitrary: s xs)
  case (Cons i ks)
  let ?s = "upd_buf i (\<lambda>b. b\<lparr>b_lock := initsleeplock\<rparr>) s"
  have "ring (\<lambda>i. b_next (buf_of ?s i)) (\<lambda>i. b_prev (buf_of ?s i)) xs"
    using Cons.prems by (simp add: upd_buf_keeps [where g = b_next] upd_buf_keeps [where g = b_prev])
  then have "ring (\<lambda>k. b_next (buf_of (link_front i ?s) k)) (\<lambda>k. b_prev (buf_of (link_front i ?s) k)) (i # xs)"
    by (rule lru_link_front) (use Cons.prems in auto)
  from Cons.IH [OF this] show ?case using Cons.prems by simp
qed simp

lemma binit_ok:
  assumes z: "bufs s = replicate (Suc NBUF) buf_zero" and d: "\<And>b. length (disk s b) = BSIZE"
  shows "bc_ok (binit s)" "view (binit s) = disk s" "held (binit s) = {}" "dirty (binit s) = {}" "disk (binit s) = disk s"
    "disksize (binit s) = disksize s" "cur_pid (binit s) = cur_pid s" "lru (binit s) (rev [0..<NBUF])" "cached (binit s) b = None"
proof -
  let ?s = "upd_buf NBUF (\<lambda>b. b\<lparr>b_prev := NBUF, b_next := NBUF\<rparr>) s"
  have r: "ring (\<lambda>i. b_next (buf_of ?s i)) (\<lambda>i. b_prev (buf_of ?s i)) []"
    using z by (simp add: ring_def upd_buf_def)
  show l: "lru (binit s) (rev [0..<NBUF])"
    unfolding lru_def binit_def using binit_loop_ring [OF r, of "[0..<NBUF]"] z by (simp add: lessThan_atLeast0)
  have f: "\<not> b_valid (buf_of (binit s) i)" "\<not> b_dirty (buf_of (binit s) i)" "b_dev (buf_of (binit s) i) = 0"
      "b_refcnt (buf_of (binit s) i) = 0" "length (b_data (buf_of (binit s) i)) = BSIZE" "\<not> locked (b_lock (buf_of (binit s) i))"
    if "i < NBUF" for i
    using that z binit_loop_lock [of ?s i "[0..<NBUF]"] unfolding binit_def
    by (simp_all add: binit_loop_keeps [where g = b_valid] binit_loop_keeps [where g = b_dirty] binit_loop_keeps [where g = b_dev]
        binit_loop_keeps [where g = b_refcnt] binit_loop_keeps [where g = b_data] upd_buf_def buf_zero_def nth_list_update del: upt_rec_numeral)
  show "disk (binit s) = disk s" "disksize (binit s) = disksize s" "cur_pid (binit s) = cur_pid s" by (simp_all add: binit_def)
  then show "bc_ok (binit s)" using d l f unfolding bc_ok_def buf_ok_def by auto
  show "cached (binit s) b = None" using f by (simp add: cached_None)
  show "view (binit s) = disk s"
    using f \<open>disk (binit s) = disk s\<close> by (auto simp: fun_eq_iff intro!: trans [OF view_uncached])
  show "held (binit s) = {}" "dirty (binit s) = {}" using f by (auto simp: held_def has_def dirty_def)
qed

section \<open>The contract of the cache\<close>

lemma finite_busy: "finite (held s \<union> dirty s)"
proof -
  have "held s \<union> dirty s \<subseteq> (\<lambda>i. b_blockno (buf_of s i)) ` {..<NBUF}" by (auto simp: held_def dirty_def has_def)
  then show ?thesis by (rule finite_subset) simp
qed

lemma clean_view:
  assumes ok: "bc_ok s" and b: "b \<notin> held s" "b \<notin> dirty s"
  shows "view s b = disk s b"
proof (cases "cached s b")
  case (Some i)
  then have i: "i < NBUF" "b_valid (buf_of s i)" "b_blockno (buf_of s i) = b" using ok by (auto simp: cached_iff)
  then have "\<not> locked (b_lock (buf_of s i))" "\<not> b_dirty (buf_of s i)" using b by (auto simp: held_def has_def dirty_def)
  then show ?thesis using view_cached [OF ok i(1,2)] bc_okD(2) [OF ok i(1)] i by (auto simp: buf_ok_def)
qed (simp add: view_def)

lemma view_length:
  assumes "bc_ok s"
  shows "length (view s b) = BSIZE"
proof (cases "cached s b")
  case (Some i)
  then have "i < NBUF" by (simp add: cached_iff [OF assms])
  then show ?thesis using bc_okD(2) [OF assms] Some by (simp add: view_def buf_ok_def)
qed (simp add: view_def bc_okD(3) [OF assms])

text \<open>A store of blocks with locking: \<open>st_view\<close> the contents, \<open>st_disk\<close> what is on the disk, \<open>st_held\<close> and
  \<open>st_dirty\<close> the locked and the pinned blocks, \<open>st_has\<close> which buffer holds which locked block.\<close>

locale block_store =
  fixes st_ok :: "'s \<Rightarrow> bool" and st_view :: "'s \<Rightarrow> u32 \<Rightarrow> u8 list" and st_disk :: "'s \<Rightarrow> u32 \<Rightarrow> u8 list"
    and st_hist :: "'s \<Rightarrow> (u32 \<times> u8 list) list" and st_held :: "'s \<Rightarrow> u32 set" and st_dirty :: "'s \<Rightarrow> u32 set"
    and st_size :: "'s \<Rightarrow> u32" and st_has :: "'s \<Rightarrow> nat \<Rightarrow> u32 \<Rightarrow> bool" and st_data :: "'s \<Rightarrow> nat \<Rightarrow> u8 list"
    and st_frame :: "'s \<Rightarrow> 's \<Rightarrow> bool"
    and st_read :: "u32 \<Rightarrow> 's \<Rightarrow> (nat \<times> 's) outcome" and st_write :: "nat \<Rightarrow> 's \<Rightarrow> 's outcome"
    and st_release :: "nat \<Rightarrow> 's \<Rightarrow> 's outcome" and st_change :: "nat \<Rightarrow> (u8 list \<Rightarrow> u8 list) \<Rightarrow> 's \<Rightarrow> 's"
  assumes frame_trans: "st_frame s t \<Longrightarrow> st_frame t u \<Longrightarrow> st_frame s u"
    and frame_size: "st_frame s t \<Longrightarrow> st_size t = st_size s"
    and finite_sets: "finite (st_held s \<union> st_dirty s)"
    and clean: "st_ok s \<Longrightarrow> b \<notin> st_held s \<Longrightarrow> b \<notin> st_dirty s \<Longrightarrow> st_view s b = st_disk s b"
    and len: "st_ok s \<Longrightarrow> length (st_view s b) = 512"
    and has_one: "st_has s i b \<Longrightarrow> st_has s i c \<Longrightarrow> b = c"
    and data: "st_ok s \<Longrightarrow> st_has s i b \<Longrightarrow> st_data s i = st_view s b"
    and lread: "st_ok s \<Longrightarrow> b < st_size s \<Longrightarrow> b \<notin> st_held s \<Longrightarrow> b \<in> st_dirty s \<or> card (st_held s \<union> st_dirty s) < 30 \<Longrightarrow>
      \<exists>i t. st_read b s = Ok (i, t) \<and> st_ok t \<and> st_has t i b \<and> st_view t = st_view s \<and> st_disk t = st_disk s \<and>
        st_hist t = st_hist s \<and> st_held t = insert b (st_held s) \<and> st_dirty t = st_dirty s \<and> st_frame s t \<and>
        (\<forall>j c. st_has s j c \<longrightarrow> st_has t j c)"
    and lwrite: "st_ok s \<Longrightarrow> st_has s i b \<Longrightarrow>
      \<exists>t. st_write i s = Ok t \<and> st_ok t \<and> st_view t = st_view s \<and> st_disk t = (st_disk s)(b := st_view s b) \<and>
        st_hist t = st_hist s @ [(b, st_view s b)] \<and> st_held t = st_held s \<and> st_dirty t = st_dirty s - {b} \<and> st_frame s t \<and>
        (\<forall>j c. st_has t j c \<longleftrightarrow> st_has s j c)"
    and lrelease: "st_ok s \<Longrightarrow> st_has s i b \<Longrightarrow> b \<in> st_dirty s \<or> st_view s b = st_disk s b \<Longrightarrow>
      \<exists>t. st_release i s = Ok t \<and> st_ok t \<and> st_view t = st_view s \<and> st_disk t = st_disk s \<and>
        st_hist t = st_hist s \<and> st_held t = st_held s - {b} \<and> st_dirty t = st_dirty s \<and> st_frame s t \<and>
        (\<forall>j c. st_has t j c \<longleftrightarrow> st_has s j c \<and> j \<noteq> i)"
    and lchange: "st_ok s \<Longrightarrow> st_has s i b \<Longrightarrow> length (f (st_view s b)) = 512 \<Longrightarrow>
      st_ok (st_change i f s) \<and> st_view (st_change i f s) = (st_view s)(b := f (st_view s b)) \<and>
      st_disk (st_change i f s) = st_disk s \<and> st_hist (st_change i f s) = st_hist s \<and> st_held (st_change i f s) = st_held s \<and>
      st_dirty (st_change i f s) = st_dirty s \<and> st_frame s (st_change i f s) \<and> (\<forall>j c. st_has (st_change i f s) j c \<longleftrightarrow> st_has s j c)"
begin

text \<open>Read a block, change it, write it to the disk and let it go.\<close>

lemma update:
  assumes "st_ok s" "b < st_size s" "b \<notin> st_held s" "card (st_held s \<union> st_dirty s) < 30" "length (f (st_view s b)) = 512"
  shows "\<exists>t. obind (st_read b s) (\<lambda>(i, s). obind (st_write i (st_change i f s)) (st_release i)) = Ok t \<and> st_ok t \<and>
    st_view t = (st_view s)(b := f (st_view s b)) \<and> st_disk t = (st_disk s)(b := f (st_view s b)) \<and>
    st_hist t = st_hist s @ [(b, f (st_view s b))] \<and> st_held t = st_held s \<and> st_dirty t = st_dirty s - {b} \<and> st_frame s t"
proof -
  obtain i s1 where 1: "st_read b s = Ok (i, s1)" "st_ok s1" "st_has s1 i b" "st_view s1 = st_view s" "st_disk s1 = st_disk s"
      "st_held s1 = insert b (st_held s)" "st_dirty s1 = st_dirty s" "st_frame s s1" "st_hist s1 = st_hist s"
    using lread [OF assms(1-3)] assms(4) by blast
  let ?s2 = "st_change i f s1"
  have 2: "st_ok ?s2" "st_view ?s2 = (st_view s)(b := f (st_view s b))" "st_disk ?s2 = st_disk s" "st_held ?s2 = insert b (st_held s)"
      "st_dirty ?s2 = st_dirty s" "st_frame s1 ?s2" "st_has ?s2 i b" "st_hist ?s2 = st_hist s"
    using lchange [OF 1(2,3), of f] 1 assms(5) by auto
  obtain s3 where 3: "st_write i ?s2 = Ok s3" "st_ok s3" "st_view s3 = st_view ?s2" "st_disk s3 = (st_disk ?s2)(b := st_view ?s2 b)"
      "st_held s3 = st_held ?s2" "st_dirty s3 = st_dirty ?s2 - {b}" "st_frame ?s2 s3" "st_has s3 i b" "st_hist s3 = st_hist ?s2 @ [(b, st_view ?s2 b)]"
    using lwrite [OF 2(1,7)] 2(7) by blast
  have "st_view s3 b = st_disk s3 b" using 3(3,4) by simp
  then obtain t where 4: "st_release i s3 = Ok t" "st_ok t" "st_view t = st_view s3" "st_disk t = st_disk s3"
      "st_held t = st_held s3 - {b}" "st_dirty t = st_dirty s3" "st_frame s3 t" "st_hist t = st_hist s3"
    using lrelease [OF 3(2,8)] by blast
  have "st_frame s t" using 1(8) 2(6) 3(7) 4(7) frame_trans by blast
  then show ?thesis using 1(1) 2 3 4 assms(3) by auto
qed

text \<open>Read two blocks and copy one to the other: the second from the first, or the first from the
  second.\<close>

lemma read_two:
  assumes "st_ok s" "x \<noteq> y" "x < st_size s" "y < st_size s" "x \<notin> st_held s" "y \<notin> st_held s"
    and "x \<in> st_dirty s \<or> card (st_held s \<union> st_dirty s) < 30" "y \<in> st_dirty s \<or> card (st_held s \<union> st_dirty s) < 29"
  shows "\<exists>i j s1 s2. st_read x s = Ok (i, s1) \<and> st_read y s1 = Ok (j, s2) \<and> st_ok s2 \<and> st_has s2 i x \<and> st_has s2 j y \<and>
    st_view s2 = st_view s \<and> st_disk s2 = st_disk s \<and> st_hist s2 = st_hist s \<and> st_held s2 = insert y (insert x (st_held s)) \<and>
    st_dirty s2 = st_dirty s \<and> st_frame s s1 \<and> st_frame s s2"
proof -
  obtain i s1 where 1: "st_read x s = Ok (i, s1)" "st_ok s1" "st_has s1 i x" "st_view s1 = st_view s" "st_disk s1 = st_disk s"
      "st_hist s1 = st_hist s" "st_held s1 = insert x (st_held s)" "st_dirty s1 = st_dirty s" "st_frame s s1"
    using lread [OF assms(1,3,5,7)] by blast
  have "card (st_held s1 \<union> st_dirty s1) \<le> Suc (card (st_held s \<union> st_dirty s))"
    using finite_sets [of s] unfolding 1(7,8) by (simp add: card_insert_if)
  then have "y \<in> st_dirty s1 \<or> card (st_held s1 \<union> st_dirty s1) < 30" using assms(8) unfolding 1(8) by linarith
  moreover have "y < st_size s1" using assms(4) frame_size [OF 1(9)] by simp
  moreover have "y \<notin> st_held s1" using assms(2,6) 1(7) by simp
  ultimately obtain j s2 where 2: "st_read y s1 = Ok (j, s2)" "st_ok s2" "st_has s2 j y" "st_view s2 = st_view s1" "st_disk s2 = st_disk s1"
      "st_hist s2 = st_hist s1" "st_held s2 = insert y (st_held s1)" "st_dirty s2 = st_dirty s1" "st_frame s1 s2" "st_has s2 i x"
    using lread [OF 1(2)] 1(3) by blast
  have "st_frame s s2" by (rule frame_trans [OF 1(9) 2(9)])
  then show ?thesis using 1(1,4-9) 2 by (intro exI [of _ i] exI [of _ j] exI [of _ s1] exI [of _ s2]) auto
qed

lemma put_block:
  assumes "st_ok s" "st_has s d y" "st_has s i x" "x \<noteq> y" "st_held s = insert y (insert x H)" "x \<notin> H" "y \<notin> H"
    and "x \<in> st_dirty s \<or> st_view s x = st_disk s x"
  shows "\<exists>s1 s2 t. st_write d (st_change d (\<lambda>_. st_data s i) s) = Ok s1 \<and> st_release i s1 = Ok s2 \<and> st_release d s2 = Ok t \<and>
    st_ok t \<and> st_view t = (st_view s)(y := st_view s x) \<and> st_disk t = (st_disk s)(y := st_view s x) \<and>
    st_hist t = st_hist s @ [(y, st_view s x)] \<and> st_held t = H \<and> st_dirty t = st_dirty s - {y} \<and> st_frame s t"
proof -
  let ?c = "st_change d (\<lambda>_. st_data s i) s"
  have dat: "st_data s i = st_view s x" by (rule data [OF assms(1,3)])
  have c: "st_ok ?c" "st_view ?c = (st_view s)(y := st_view s x)" "st_disk ?c = st_disk s" "st_hist ?c = st_hist s"
      "st_held ?c = st_held s" "st_dirty ?c = st_dirty s" "st_frame s ?c" "st_has ?c d y" "st_has ?c i x"
    using lchange [OF assms(1,2), of "\<lambda>_. st_data s i"] len [OF assms(1)] assms(2,3) dat by auto
  obtain s1 where 1: "st_write d ?c = Ok s1" "st_ok s1" "st_view s1 = st_view ?c" "st_disk s1 = (st_disk ?c)(y := st_view ?c y)"
      "st_hist s1 = st_hist ?c @ [(y, st_view ?c y)]" "st_held s1 = st_held ?c" "st_dirty s1 = st_dirty ?c - {y}" "st_frame ?c s1"
      "st_has s1 d y" "st_has s1 i x"
    using lwrite [OF c(1,8)] c(8,9) by blast
  have "d \<noteq> i" using has_one assms(2-4) by blast
  have x1: "x \<in> st_dirty s1 \<or> st_view s1 x = st_disk s1 x" using assms(4,8) 1(3,4,7) c(2,3,6) by auto
  from lrelease [OF 1(2,10) x1] obtain s2 where r2: "st_release i s1 = Ok s2 \<and> st_ok s2 \<and> st_view s2 = st_view s1 \<and> st_disk s2 = st_disk s1 \<and>
      st_hist s2 = st_hist s1 \<and> st_held s2 = st_held s1 - {x} \<and> st_dirty s2 = st_dirty s1 \<and> st_frame s1 s2 \<and>
      (\<forall>j c. st_has s2 j c \<longleftrightarrow> st_has s1 j c \<and> j \<noteq> i)" ..
  then have 2: "st_release i s1 = Ok s2" "st_ok s2" "st_view s2 = st_view s1" "st_disk s2 = st_disk s1" "st_hist s2 = st_hist s1"
      "st_held s2 = st_held s1 - {x}" "st_dirty s2 = st_dirty s1" "st_frame s1 s2" "st_has s2 d y"
    using 1(9) \<open>d \<noteq> i\<close> by simp_all
  have y2: "y \<in> st_dirty s2 \<or> st_view s2 y = st_disk s2 y" using 1(3,4) 2(3,4) by simp
  from lrelease [OF 2(2,9) y2] obtain t where "st_release d s2 = Ok t \<and> st_ok t \<and> st_view t = st_view s2 \<and> st_disk t = st_disk s2 \<and>
      st_hist t = st_hist s2 \<and> st_held t = st_held s2 - {y} \<and> st_dirty t = st_dirty s2 \<and> st_frame s2 t \<and>
      (\<forall>j c. st_has t j c \<longleftrightarrow> st_has s2 j c \<and> j \<noteq> d)" ..
  then have 3: "st_release d s2 = Ok t" "st_ok t" "st_view t = st_view s2" "st_disk t = st_disk s2" "st_hist t = st_hist s2"
      "st_held t = st_held s2 - {y}" "st_dirty t = st_dirty s2" "st_frame s2 t" by simp_all
  have "st_frame s t" using c(7) 1(8) 2(8) 3(8) frame_trans by blast
  moreover have "st_held t = H" using 1(6) 2(6) 3(6) c(5) assms(4-7) by auto
  ultimately show ?thesis using 1(1,3-5,7) 2(1,3-5,7) 3(1-5,7) c(2-4,6) by (intro exI [of _ s1] exI [of _ s2] exI [of _ t]) simp
qed

end

lemma only_blk_size: "only_blk s t \<Longrightarrow> disksize t = disksize s \<and> cur_pid t = cur_pid s"
  by (auto simp: only_blk_def)

interpretation bc: block_store bc_ok view disk written held dirty disksize has "\<lambda>s i. b_data (bufs s ! i)" only_blk
  "bread 1" bwrite brelse upd_data
proof (unfold_locales, goal_cases)
  case (1 s t u)
  then show ?case by (rule only_blk_trans)
next
  case (2 s t)
  then show ?case by (simp add: only_blk_size)
next
  case (3 s)
  show ?case by (rule finite_busy)
next
  case (4 s b)
  then show ?case by (rule clean_view)
next
  case (5 s b)
  then show ?case by (rule view_length)
next
  case (6 s i b c)
  then show ?case by (simp add: has_def)
next
  case (7 s i b)
  then show ?case by (rule hasD(8))
next
  case (8 s b)
  obtain i t where "bread 1 b s = Ok (i, t)" "bread_post s b i t" by (rule bread_spec [OF 8])
  then show ?case unfolding bread_post_def by blast
next
  case (9 s i b)
  then show ?case by (rule bwrite_spec) blast
next
  case (10 s i b)
  then show ?case by (rule brelse_spec) blast
next
  case (11 s i b f)
  then show ?case using upd_data_spec [of s i b f, OF 11] by blast
qed

section \<open>Properties\<close>

text \<open>
  C9. The buffer cache is transparent. Reading a block that is not locked, changing it, writing it
  and releasing it always succeeds while fewer than 30 blocks are locked or pinned; afterwards the
  disk and every later read through the cache see the new contents of that block, every other block is
  unchanged, whichever buffer was recycled for it, and no lock is kept.
\<close>

theorem cache_update:
  assumes "bc_ok s" "b < disksize s" "b \<notin> held s" "card (held s \<union> dirty s) < 30" "length (f (view s b)) = 512"
  shows "\<exists>t. obind (bread 1 b s) (\<lambda>(i, s). obind (bwrite i (upd_data i f s)) (brelse i)) = Ok t \<and> bc_ok t \<and>
    view t = (view s)(b := f (view s b)) \<and> disk t = (disk s)(b := f (view s b)) \<and> held t = held s \<and> dirty t = dirty s - {b}"
  using bc.update [of s b f, OF assms] by blast

text \<open>
  C34. The list of buffers is kept in the order of last use: releasing a buffer moves it to the front
  and keeps the order of the others, and a read of a block that is not cached recycles the buffer that
  was released longest ago among those that are neither in use nor pinned.
\<close>

theorem cache_lru:
  assumes "bc_ok s" "lru s xs"
  shows "(has s i b \<longrightarrow> (\<exists>t. brelse i s = Ok t \<and> lru t (i # remove1 i xs))) \<and>
    (cached s c = None \<longrightarrow> c < disksize s \<longrightarrow> card (held s \<union> dirty s) < 30 \<longrightarrow>
       (\<exists>t. bread 1 c s = Ok (last (filter (\<lambda>j. b_refcnt (bufs s ! j) = 0 \<and> \<not> b_dirty (bufs s ! j)) xs), t) \<and> lru t xs))"
proof (intro conjI impI)
  assume i: "has s i b"
  note h = hasD [OF assms(1) i]
  let ?s = "upd_buf i (\<lambda>b. b\<lparr>b_lock := releasesleep (b_lock b), b_refcnt := b_refcnt b - 1\<rparr>) s"
  have "i \<in> set xs" "distinct xs" using h(1) assms(2) by (auto simp: lru_def ring_def)
  then obtain us vs where x: "xs = us @ i # vs" "i \<notin> set us" by (meson split_list_first)
  have "lru ?s xs" using assms(2) by (simp add: lru_upd)
  then have "lru (link_front i (buf_unlink i ?s)) (i # us @ vs)" unfolding x by (rule lru_move)
  moreover have "brelse i s = Ok (link_front i (buf_unlink i ?s))"
    using h bc_okD(5) [OF assms(1)] by (simp add: brelse_def Let_def upd_buf_nth)
  ultimately show "\<exists>t. brelse i s = Ok t \<and> lru t (i # remove1 i xs)" using x by (simp add: remove1_append)
next
  assume c: "cached s c = None" "c < disksize s" "card (held s \<union> dirty s) < 30"
  let ?P = "\<lambda>j. b_refcnt (bufs s ! j) = 0 \<and> \<not> b_dirty (bufs s ! j)"
  have xs: "set xs = {..<NBUF}" using assms(2) by (simp add: lru_def)
  have "b_dev (buf_of s j) = 1 \<longleftrightarrow> b_valid (buf_of s j)" if "j < NBUF" for j
    using bc_okD(2) [OF assms(1) that] by (auto simp: buf_ok_def)
  then have none: "find (\<lambda>i. b_dev (buf_of s i) = 1 \<and> b_blockno (buf_of s i) = c) xs = None"
    using c(1) xs by (auto simp: find_None cached_None)
  obtain i where i: "find ?P (rev xs) = Some i" "i < NBUF" "\<not> locked (b_lock (buf_of s i))" "\<not> b_dirty (buf_of s i)"
    by (rule victim_exists [OF assms(1) c(3), of "rev xs"]) (use xs in auto)
  have "find ?P (rev xs) = Some (last (filter ?P xs))"
    by (rule find_rev_last [OF i(1)])
  then have l: "last (filter ?P xs) = i" using i(1) by simp
  have "bread 1 c s = Ok (i, upd_buf i (\<lambda>x. x\<lparr>b_dev := 1, b_blockno := c, b_dirty := False, b_refcnt := 1,
     b_lock := take_lock (cur_pid s) (b_lock (buf_of s i)), b_data := disk s c, b_valid := True\<rparr>) s)"
    by (rule bread_run_miss [OF assms none i c(2)])
  moreover have "lru (upd_buf i (\<lambda>x. x\<lparr>b_dev := 1, b_blockno := c, b_dirty := False, b_refcnt := 1,
     b_lock := take_lock (cur_pid s) (b_lock (buf_of s i)), b_data := disk s c, b_valid := True\<rparr>) s) xs"
    using assms(2) by (simp add: lru_upd)
  ultimately show "\<exists>t. bread 1 c s = Ok (last (filter ?P xs), t) \<and> lru t xs" unfolding l by blast
qed

section \<open>Witnesses\<close>

definition demo_blk :: blk where
  "demo_blk = binit \<lparr>disk = (\<lambda>_. replicate 512 0), disksize = 1000, bufs = replicate (Suc NBUF) buf_zero, cur_pid = 1, written = []\<rparr>"

lemma demo_blk_ok: "bc_ok demo_blk" "held demo_blk = {}" "dirty demo_blk = {}" "disksize demo_blk = 1000"
    "view demo_blk = (\<lambda>_. replicate 512 0)" "lru demo_blk (rev [0..<NBUF])" "cached demo_blk b = None"
  unfolding demo_blk_def by (subst binit_ok; simp add: binit_ok)+

theorem cache_update_witness:
  "\<exists>t. obind (bread 1 5 demo_blk) (\<lambda>(i, s). obind (bwrite i (upd_data i (\<lambda>_. replicate 512 7) s)) (brelse i)) = Ok t \<and>
    view t 5 = replicate 512 7 \<and> disk t 5 = replicate 512 7 \<and> view t 6 = replicate 512 0"
  using cache_update [of demo_blk 5 "\<lambda>_. replicate 512 7"] demo_blk_ok by auto

theorem cache_lru_witness: "\<exists>i t. bread 1 5 demo_blk = Ok (i, t) \<and> lru t (rev [0..<NBUF])"
  using cache_lru [OF demo_blk_ok(1,6), of 0 0 5] demo_blk_ok by auto

end
