(* ===== verification/Bytes.thy ===== *)
theory Bytes
  imports Prelude
begin

text \<open>
  C objects inside a block of bytes: little-endian integers of 16 and 32 bits at a byte offset, and
  copying a run of bytes into a block.
\<close>

definition rd16 :: "u8 list \<Rightarrow> nat \<Rightarrow> u16" where
  "rd16 d i = ucast (d ! i) OR push_bit 8 (ucast (d ! (i + 1)))"

definition wr16 :: "u8 list \<Rightarrow> nat \<Rightarrow> u16 \<Rightarrow> u8 list" where
  "wr16 d i v = d[i := ucast v, i + 1 := ucast (drop_bit 8 v)]"

definition rd32 :: "u8 list \<Rightarrow> nat \<Rightarrow> u32" where
  "rd32 d i = ucast (d ! i) OR push_bit 8 (ucast (d ! (i + 1))) OR push_bit 16 (ucast (d ! (i + 2))) OR push_bit 24 (ucast (d ! (i + 3)))"

definition wr32 :: "u8 list \<Rightarrow> nat \<Rightarrow> u32 \<Rightarrow> u8 list" where
  "wr32 d i v = d[i := ucast v, i + 1 := ucast (drop_bit 8 v), i + 2 := ucast (drop_bit 16 v), i + 3 := ucast (drop_bit 24 v)]"

definition blit :: "u8 list \<Rightarrow> nat \<Rightarrow> u8 list \<Rightarrow> u8 list" where
  "blit d i bs = take i d @ bs @ drop (i + length bs) d"

lemma length_wr [simp]: "length (wr16 d i v) = length d" "length (wr32 d i w) = length d"
  by (simp_all add: wr16_def wr32_def)

lemma rd32_wr32_same [simp]: "i + 3 < length d \<Longrightarrow> rd32 (wr32 d i v) i = v"
proof (rule bit_word_eqI)
  fix n assume i: "i + 3 < length d" and "n < LENGTH(32)"
  then consider "n < 8" | "8 \<le> n" "n < 16" | "16 \<le> n" "n < 24" | "24 \<le> n" "n < 32" by fastforce
  then show "bit (rd32 (wr32 d i v) i) n \<longleftrightarrow> bit v n"
    by cases (use i in \<open>auto simp: rd32_def wr32_def bit_simps\<close>)
qed

lemma rd16_wr16_same [simp]: "i + 1 < length d \<Longrightarrow> rd16 (wr16 d i v) i = v"
proof (rule bit_word_eqI)
  fix n assume i: "i + 1 < length d" and "n < LENGTH(16)"
  then consider "n < 8" | "8 \<le> n" "n < 16" by fastforce
  then show "bit (rd16 (wr16 d i v) i) n \<longleftrightarrow> bit v n"
    by cases (use i in \<open>auto simp: rd16_def wr16_def bit_simps\<close>)
qed

lemma wr_nth_other [simp]:
  "k < i \<or> i + 1 < k \<Longrightarrow> wr16 d i v ! k = d ! k" "k < i \<or> i + 3 < k \<Longrightarrow> wr32 d i w ! k = d ! k"
  by (auto simp: wr16_def wr32_def)

lemma rd32_other [simp]:
  "j + 3 < i \<or> i + 3 < j \<Longrightarrow> rd32 (wr32 d i v) j = rd32 d j"
  "j + 3 < i \<or> i + 1 < j \<Longrightarrow> rd32 (wr16 d i w) j = rd32 d j"
  by (auto simp: rd32_def)

lemma rd16_other [simp]:
  "j + 1 < i \<or> i + 3 < j \<Longrightarrow> rd16 (wr32 d i v) j = rd16 d j"
  "j + 1 < i \<or> i + 1 < j \<Longrightarrow> rd16 (wr16 d i w) j = rd16 d j"
  by (auto simp: rd16_def)

lemma rd_cong:
  "(\<And>k. i \<le> k \<Longrightarrow> k \<le> i + 3 \<Longrightarrow> d ! k = e ! k) \<Longrightarrow> rd32 d i = rd32 e i"
  "(\<And>k. i \<le> k \<Longrightarrow> k \<le> i + 1 \<Longrightarrow> d ! k = e ! k) \<Longrightarrow> rd16 d i = rd16 e i"
  by (simp_all add: rd32_def rd16_def)

lemma length_blit [simp]: "i + length bs \<le> length d \<Longrightarrow> length (blit d i bs) = length d"
  by (simp add: blit_def)

lemma blit_nth:
  "i + length bs \<le> length d \<Longrightarrow> blit d i bs ! k = (if i \<le> k \<and> k < i + length bs then bs ! (k - i) else d ! k)"
  by (auto simp: blit_def nth_append)

lemma take_drop_blit [simp]: "i + length bs \<le> length d \<Longrightarrow> take (length bs) (drop i (blit d i bs)) = bs"
  by (simp add: blit_def)

end
