(* ===== verification/Log.thy ===== *)
theory Log
  imports BioCache Bytes
begin

text \<open>
  The log (log.c), for one kernel thread. The header of the log, in memory and in the first log block,
  is the number of logged blocks and their numbers. A \<open>sleep\<close> in \<open>begin_op\<close> waits for another process,
  so it ends the run here. \<open>readsb\<close> of fs.c is included because \<open>initlog\<close> calls it.
\<close>

section \<open>State\<close>

abbreviation (input) LOGSIZE :: int where "LOGSIZE \<equiv> 30"
abbreviation (input) MAXOPBLOCKS :: int where "MAXOPBLOCKS \<equiv> 10"

record superblock =
  sb_size :: u32
  sb_nblocks :: u32
  sb_ninodes :: u32
  sb_nlog :: u32
  sb_logstart :: u32
  sb_inodestart :: u32
  sb_bmapstart :: u32

record logst = blk +
  log_start :: int
  log_size :: int
  outstanding :: int
  committing :: bool
  log_dev :: u32
  lh_n :: int
  lh_block :: "int list"

section \<open>Installing and the header\<close>

text \<open>\<open>memmove\<close> of a whole block: both buffers have 512 bytes.\<close>

fun install_loop :: "nat \<Rightarrow> int \<Rightarrow> 'a logst_scheme \<Rightarrow> 'a logst_scheme outcome" where
  "install_loop 0 tail s = Ok s"
| "install_loop (Suc k) tail s =
     obind (bread (log_dev s) (to_uint (log_start s + tail + 1)) s) (\<lambda>(lbuf, s).
     obind (arr_get (lh_block s) tail) (\<lambda>b.
     obind (bread (log_dev s) (to_uint b) s) (\<lambda>(dbuf, s).
     obind (bwrite dbuf (upd_data dbuf (\<lambda>_. b_data (bufs s ! lbuf)) s)) (\<lambda>s.
     obind (brelse lbuf s) (\<lambda>s.
     obind (brelse dbuf s) (\<lambda>s.
     install_loop k (tail + 1) s))))))"

definition install_trans :: "'a logst_scheme \<Rightarrow> 'a logst_scheme outcome" where
  "install_trans s = install_loop (nat (lh_n s)) 0 s"

text \<open>The header in a block: \<open>n\<close> at offset 0, \<open>block[i]\<close> at offset \<open>4 + 4 * i\<close>.\<close>

fun get_blocks :: "nat \<Rightarrow> nat \<Rightarrow> u8 list \<Rightarrow> int list \<Rightarrow> int list outcome" where
  "get_blocks 0 i d bs = Ok bs"
| "get_blocks (Suc k) i d bs = obind (arr_set bs (int i) (to_int (rd32 d (4 + 4 * i)))) (get_blocks k (Suc i) d)"

definition read_head :: "'a logst_scheme \<Rightarrow> 'a logst_scheme outcome" where
  "read_head s =
     obind (bread (log_dev s) (to_uint (log_start s)) s) (\<lambda>(i, s).
     let d = b_data (bufs s ! i);
         n = to_int (rd32 d 0)
     in
     obind (get_blocks (nat n) 0 d (lh_block s)) (\<lambda>bs.
     brelse i (s\<lparr>lh_n := n, lh_block := bs\<rparr>)))"

fun put_blocks :: "int list \<Rightarrow> nat \<Rightarrow> u8 list \<Rightarrow> u8 list" where
  "put_blocks [] i d = d"
| "put_blocks (b # bs) i d = put_blocks bs (Suc i) (wr32 d (4 + 4 * i) (to_uint b))"

definition write_head :: "'a logst_scheme \<Rightarrow> 'a logst_scheme outcome" where
  "write_head s =
     obind (bread (log_dev s) (to_uint (log_start s)) s) (\<lambda>(i, s).
     obind (bwrite i (upd_data i (\<lambda>d. put_blocks (take (nat (lh_n s)) (lh_block s)) 0 (wr32 d 0 (to_uint (lh_n s)))) s)) (brelse i))"

definition recover_from_log :: "'a logst_scheme \<Rightarrow> 'a logst_scheme outcome" where
  "recover_from_log s =
     obind (read_head s) (\<lambda>s.
     obind (install_trans s) (\<lambda>s.
     write_head (s\<lparr>lh_n := 0\<rparr>)))"

definition readsb :: "u32 \<Rightarrow> 'a logst_scheme \<Rightarrow> (superblock \<times> 'a logst_scheme) outcome" where
  "readsb dev s =
     obind (bread dev 1 s) (\<lambda>(i, s).
     let d = b_data (bufs s ! i);
         sb = \<lparr>sb_size = rd32 d 0, sb_nblocks = rd32 d 4, sb_ninodes = rd32 d 8, sb_nlog = rd32 d 12,
           sb_logstart = rd32 d 16, sb_inodestart = rd32 d 20, sb_bmapstart = rd32 d 24\<rparr>
     in obind (brelse i s) (\<lambda>s. Ok (sb, s)))"

text \<open>The header of 124 bytes is smaller than a block, so the first check of \<open>initlog\<close> never fails.\<close>

definition initlog :: "u32 \<Rightarrow> 'a logst_scheme \<Rightarrow> 'a logst_scheme outcome" where
  "initlog dev s =
     obind (readsb dev s) (\<lambda>(sb, s).
     recover_from_log (s\<lparr>log_start := to_int (sb_logstart sb), log_size := to_int (sb_nlog sb), log_dev := dev\<rparr>))"

section \<open>Transactions\<close>

definition begin_op :: "'a logst_scheme \<Rightarrow> 'a logst_scheme outcome" where
  "begin_op s =
     (if committing s then Diverge
      else if lh_n s + (outstanding s + 1) * MAXOPBLOCKS > LOGSIZE then Diverge
      else Ok (s\<lparr>outstanding := outstanding s + 1\<rparr>))"

fun write_log_loop :: "nat \<Rightarrow> int \<Rightarrow> 'a logst_scheme \<Rightarrow> 'a logst_scheme outcome" where
  "write_log_loop 0 tail s = Ok s"
| "write_log_loop (Suc k) tail s =
     obind (bread (log_dev s) (to_uint (log_start s + tail + 1)) s) (\<lambda>(t, s).
     obind (arr_get (lh_block s) tail) (\<lambda>b.
     obind (bread (log_dev s) (to_uint b) s) (\<lambda>(f, s).
     obind (bwrite t (upd_data t (\<lambda>_. b_data (bufs s ! f)) s)) (\<lambda>s.
     obind (brelse f s) (\<lambda>s.
     obind (brelse t s) (\<lambda>s.
     write_log_loop k (tail + 1) s))))))"

definition write_log :: "'a logst_scheme \<Rightarrow> 'a logst_scheme outcome" where
  "write_log s = write_log_loop (nat (lh_n s)) 0 s"

definition commit :: "'a logst_scheme \<Rightarrow> 'a logst_scheme outcome" where
  "commit s =
     (if lh_n s > 0 then
        obind (write_log s) (\<lambda>s.
        obind (write_head s) (\<lambda>s.
        obind (install_trans s) (\<lambda>s.
        write_head (s\<lparr>lh_n := 0\<rparr>))))
      else Ok s)"

definition end_op :: "'a logst_scheme \<Rightarrow> 'a logst_scheme outcome" where
  "end_op s =
     (let s = s\<lparr>outstanding := outstanding s - 1\<rparr> in
      if committing s then Panic ''log.committing''
      else if outstanding s = 0 then
        obind (commit (s\<lparr>committing := True\<rparr>)) (\<lambda>s. Ok (s\<lparr>committing := False\<rparr>))
      else Ok s)"

fun log_index :: "u32 \<Rightarrow> nat \<Rightarrow> int list \<Rightarrow> nat" where
  "log_index b i [] = i"
| "log_index b i (c # cs) = (if to_uint c = b then i else log_index b (Suc i) cs)"

definition log_write :: "nat \<Rightarrow> 'a logst_scheme \<Rightarrow> 'a logst_scheme outcome" where
  "log_write i s =
     (if lh_n s \<ge> LOGSIZE \<or> lh_n s \<ge> log_size s - 1 then Panic ''too big a transaction''
      else if outstanding s < 1 then Panic ''log_write outside of trans''
      else
        let b = b_blockno (bufs s ! i);
            k = log_index b 0 (take (nat (lh_n s)) (lh_block s))
        in
        obind (arr_set (lh_block s) (int k) (to_int b)) (\<lambda>bs.
        Ok (upd_buf i (\<lambda>b. b\<lparr>b_dirty := True\<rparr>)
          (s\<lparr>lh_block := bs, lh_n := (if int k = lh_n s then lh_n s + 1 else lh_n s)\<rparr>))))"

end
