(* ===== verification/LogSpec.thy ===== *)
theory LogSpec
  imports Log
begin

text \<open>
  What log.c does to the disk. The copies to and from the log, the two writes of the header, \<open>commit\<close>
  and \<open>recover_from_log\<close> are each given the exact sequence of their disk writes, over the laws of
  the block cache.
\<close>

section \<open>Sequences of disk writes\<close>

definition apply_writes :: "(u32 \<times> u8 list) list \<Rightarrow> (u32 \<Rightarrow> u8 list) \<Rightarrow> u32 \<Rightarrow> u8 list" where
  "apply_writes ws d = fold (\<lambda>(b, v) d. d(b := v)) ws d"

lemma apply_writes_simps [simp]:
  "apply_writes [] d = d" "apply_writes (w # ws) d = apply_writes ws (d(fst w := snd w))"
  "apply_writes (ws @ us) d = apply_writes us (apply_writes ws d)"
  by (auto simp: apply_writes_def split: prod.splits)

lemma apply_writes_other: "b \<notin> fst ` set ws \<Longrightarrow> apply_writes ws d b = d b"
  by (induction ws arbitrary: d) auto

lemma apply_writes_map:
  "distinct (map f is) \<Longrightarrow> i \<in> set is \<Longrightarrow> apply_writes (map (\<lambda>j. (f j, g j)) is) d (f i) = g i"
proof (induction "is" arbitrary: d)
  case (Cons j js)
  show ?case
  proof (cases "i \<in> set js")
    case True
    then show ?thesis using Cons by auto
  next
    case False
    moreover have "f j \<notin> fst ` set (map (\<lambda>j. (f j, g j)) js)" using Cons.prems by (auto simp: image_image)
    ultimately show ?thesis using Cons.prems by (auto simp: apply_writes_other)
  qed
qed simp

section \<open>The header\<close>

lemma length_put_blocks [simp]: "length (put_blocks bs i d) = length d"
  by (induction bs i d rule: put_blocks.induct) auto

lemma put_blocks_low: "j + 3 < 4 + 4 * i \<Longrightarrow> rd32 (put_blocks bs i d) j = rd32 d j"
  by (induction bs i d rule: put_blocks.induct) auto

lemma put_blocks_nth:
  "k < length bs \<Longrightarrow> 4 + 4 * (i + length bs) \<le> length d \<Longrightarrow> rd32 (put_blocks bs i d) (4 + 4 * (i + k)) = to_uint (bs ! k)"
proof (induction bs i d arbitrary: k rule: put_blocks.induct)
  case (2 b bs i d)
  show ?case
  proof (cases k)
    case 0
    then show ?thesis using 2 by (simp add: put_blocks_low)
  next
    case (Suc m)
    then show ?thesis using "2.IH" [of m] "2.prems" by simp
  qed
qed simp

lemma get_blocks_spec:
  "i + k \<le> length bs \<Longrightarrow> get_blocks k i d bs = Ok (take i bs @ map (\<lambda>j. to_int (rd32 d (4 + 4 * j))) [i..<i + k] @ drop (i + k) bs)"
proof (induction k i d bs rule: get_blocks.induct)
  case (2 k i d bs)
  then have i: "i < length bs" by simp
  have "[i..<i + Suc k] = i # [Suc i..<Suc i + k]" by (simp add: upt_conv_Cons)
  moreover have "take (Suc i) (bs[i := v]) = take i bs @ [v]" for v using i by (simp add: take_Suc_conv_app_nth)
  ultimately show ?case using 2 i by simp
qed simp

section \<open>Frames\<close>

lemma only_blk_log:
  assumes "only_blk s t"
  shows "log_start t = log_start s" "log_size t = log_size s" "outstanding t = outstanding s" "committing t = committing s"
    "log_dev t = log_dev s" "lh_n t = lh_n s" "lh_block t = lh_block s"
  using assms by (auto simp: only_blk_def)

lemma same_blk:
  assumes "bufs t = bufs s" "disk t = disk s" "disksize t = disksize s" "cur_pid t = cur_pid s"
  shows "bc_ok t \<longleftrightarrow> bc_ok s" "view t = view s" "has t = has s" "held t = held s" "dirty t = dirty s"
proof -
  show "view t = view s" by (simp add: fun_eq_iff view_def cached_def assms cong: option.case_cong)
  show "has t = has s" by (simp add: fun_eq_iff has_def assms)
  then show "held t = held s" "dirty t = dirty s" by (simp_all add: held_def dirty_def assms)
  show "bc_ok t \<longleftrightarrow> bc_ok s" by (simp add: bc_ok_def lru_def buf_ok_def assms)
qed

section \<open>The log on the disk\<close>

text \<open>Block \<open>k\<close> of the log (block 0 is the header), and the blocks in the in-memory header.\<close>

definition lblk :: "'a logst_scheme \<Rightarrow> nat \<Rightarrow> u32" where
  "lblk s k = to_uint (log_start s + int k)"

definition log_area :: "'a logst_scheme \<Rightarrow> u32 set" where
  "log_area s = lblk s ` {..<nat (log_size s)}"

definition logged :: "'a logst_scheme \<Rightarrow> u32 list" where
  "logged s = map to_uint (take (nat (lh_n s)) (lh_block s))"

definition log_geom :: "'a logst_scheme \<Rightarrow> bool" where
  "log_geom s \<longleftrightarrow> log_dev s = 1 \<and> 0 \<le> log_start s \<and> 1 \<le> log_size s \<and> log_size s \<le> 30 \<and>
     log_start s + log_size s \<le> uint (disksize s)"

definition log_lists :: "'a logst_scheme \<Rightarrow> bool" where
  "log_lists s \<longleftrightarrow> length (lh_block s) = 30 \<and> 0 \<le> lh_n s \<and> lh_n s < log_size s \<and> distinct (logged s) \<and>
     set (logged s) \<inter> log_area s = {} \<and> (\<forall>b\<in>set (logged s). b < disksize s)"

text \<open>Between two calls of the file system, with the blocks of the current transaction pinned.\<close>

definition log_ok :: "'a logst_scheme \<Rightarrow> bool" where
  "log_ok s \<longleftrightarrow> bc_ok s \<and> log_geom s \<and> log_lists s \<and> held s = {} \<and> dirty s = set (logged s)"

lemma lblk_uint:
  assumes "log_geom s" "k < nat (log_size s)"
  shows "uint (lblk s k) = log_start s + int k" "lblk s k < disksize s" "lblk s k \<in> log_area s"
proof -
  have "0 \<le> log_start s + int k" "log_start s + int k < uint (disksize s)" using assms by (auto simp: log_geom_def)
  moreover have "log_start s + int k < 2 ^ 32" using calculation uint_bounded [of "disksize s"] by simp
  ultimately show "uint (lblk s k) = log_start s + int k" by (simp add: lblk_def uint_to_uint)
  then show "lblk s k < disksize s" using \<open>log_start s + int k < uint (disksize s)\<close> by (simp add: word_less_def)
  show "lblk s k \<in> log_area s" using assms by (simp add: log_area_def)
qed

lemma lblk_inj:
  assumes "log_geom s" "i < nat (log_size s)" "j < nat (log_size s)" "lblk s i = lblk s j"
  shows "i = j"
proof -
  have "uint (lblk s i) = uint (lblk s j)" using assms(4) by simp
  then show ?thesis unfolding lblk_uint(1) [OF assms(1,2)] lblk_uint(1) [OF assms(1,3)] by simp
qed

lemma log_frame:
  assumes "only_blk s t"
  shows "lblk t = lblk s" "log_area t = log_area s" "logged t = logged s" "log_geom t = log_geom s" "log_lists t = log_lists s"
proof -
  note f = only_blk_log [OF assms] only_blk_size [OF assms]
  show l: "lblk t = lblk s" "logged t = logged s" "log_geom t = log_geom s"
    using f by (simp_all add: fun_eq_iff lblk_def logged_def log_geom_def)
  then show "log_area t = log_area s" using f by (simp add: log_area_def)
  then show "log_lists t = log_lists s" using f l by (simp add: log_lists_def)
qed

lemma logged_nth:
  assumes "log_lists s" "log_size s \<le> 30" "i < nat (lh_n s)"
  shows "logged s ! i = to_uint (lh_block s ! i)" "i < length (lh_block s)" "length (logged s) = nat (lh_n s)"
    "logged s ! i \<in> set (logged s)" "Suc i < nat (log_size s)"
proof -
  have l: "length (lh_block s) = 30" "0 \<le> lh_n s" "lh_n s < log_size s" using assms(1) by (auto simp: log_lists_def)
  show "i < length (lh_block s)" using l assms by linarith
  then show "logged s ! i = to_uint (lh_block s ! i)" using assms by (simp add: logged_def)
  show n: "length (logged s) = nat (lh_n s)" using l assms by (simp add: logged_def)
  show "logged s ! i \<in> set (logged s)" using n assms by simp
  show "Suc i < nat (log_size s)" using l assms by linarith
qed

section \<open>Copying to and from the log\<close>

text \<open>The disk writes that copy the logged blocks to the log, and the log to its home.\<close>

definition to_log :: "'a logst_scheme \<Rightarrow> (u32 \<Rightarrow> u8 list) \<Rightarrow> nat list \<Rightarrow> (u32 \<times> u8 list) list" where
  "to_log s v js = map (\<lambda>j. (lblk s (Suc j), v (logged s ! j))) js"

definition from_log :: "'a logst_scheme \<Rightarrow> (u32 \<Rightarrow> u8 list) \<Rightarrow> nat list \<Rightarrow> (u32 \<times> u8 list) list" where
  "from_log s v js = map (\<lambda>j. (logged s ! j, v (lblk s (Suc j)))) js"

lemma write_log_loop_spec:
  "bc_ok s \<Longrightarrow> log_geom s \<Longrightarrow> log_lists s \<Longrightarrow> held s = {} \<Longrightarrow> dirty s = set (logged s) \<Longrightarrow> t + k = nat (lh_n s) \<Longrightarrow>
    \<exists>s'. write_log_loop k (int t) s = Ok s' \<and> bc_ok s' \<and> only_blk s s' \<and> held s' = {} \<and> dirty s' = dirty s \<and>
      written s' = written s @ to_log s (view s) [t..<t + k] \<and> view s' = apply_writes (to_log s (view s) [t..<t + k]) (view s) \<and>
      disk s' = apply_writes (to_log s (view s) [t..<t + k]) (disk s)"
proof (induction k arbitrary: t s)
  case 0
  then show ?case by (simp add: to_log_def)
next
  case (Suc k)
  have g: "log_dev s = 1" "log_size s \<le> 30" using Suc.prems(2) by (auto simp: log_geom_def)
  have t: "t < nat (lh_n s)" using Suc.prems(6) by simp
  note n = logged_nth [OF Suc.prems(3) g(2) t]
  let ?x = "lblk s (Suc t)" and ?y = "logged s ! t"
  note x = lblk_uint [OF Suc.prems(2) n(5)]
  have y: "?y < disksize s" "?y \<notin> log_area s" using Suc.prems(3) n(4) by (auto simp: log_lists_def)
  then have xy: "?x \<noteq> ?y" "?x \<notin> dirty s" using x(3) Suc.prems(3,5) by (auto simp: log_lists_def)
  have "card (held s \<union> dirty s) = nat (lh_n s)" using Suc.prems(3,4,5) n(3) by (simp add: distinct_card log_lists_def)
  then have c: "card (held s \<union> dirty s) < 30" using Suc.prems(3) g(2) by (auto simp: log_lists_def)
  obtain i j s1 s2 where r: "bread 1 ?x s = Ok (i, s1)" "bread 1 ?y s1 = Ok (j, s2)" "bc_ok s2" "has s2 i ?x" "has s2 j ?y"
      "view s2 = view s" "disk s2 = disk s" "written s2 = written s" "held s2 = insert ?y (insert ?x (held s))" "dirty s2 = dirty s" "only_blk s s2" "only_blk s s1"
    using bc.read_two [OF Suc.prems(1) xy(1) x(2) y(1)] Suc.prems(4,5) n(4) c by auto
  have h2: "held s2 = insert ?x (insert ?y {})" using r(9) Suc.prems(4) by auto
  have src: "?y \<in> dirty s2 \<or> view s2 ?y = disk s2 ?y" using r(10) n(4) Suc.prems(5) by simp
  obtain s3 s4 s5 where w: "bwrite i (upd_data i (\<lambda>_. b_data (bufs s2 ! j)) s2) = Ok s3" "brelse j s3 = Ok s4" "brelse i s4 = Ok s5"
      "bc_ok s5" "view s5 = (view s2)(?x := view s2 ?y)" "disk s5 = (disk s2)(?x := view s2 ?y)" "written s5 = written s2 @ [(?x, view s2 ?y)]"
      "held s5 = {}" "dirty s5 = dirty s2 - {?x}" "only_blk s2 s5"
    using bc.put_block [OF r(3,4,5) _ h2 _ _ src] xy(1) by auto
  have ob: "only_blk s s5" by (rule only_blk_trans [OF r(11) w(10)])
  note f = log_frame [OF ob] only_blk_log [OF ob]
  have d5: "dirty s5 = dirty s" using w(9) r(10) xy(2) by auto
  have v5: "view s5 = (view s)(?x := view s ?y)" using w(5) r(6) by simp
  have vl: "to_log s5 (view s5) [Suc t..<Suc t + k] = to_log s (view s) [Suc t..<Suc t + k]"
    unfolding to_log_def f(1,3)
  proof (intro map_cong refl)
    fix j assume "j \<in> set [Suc t..<Suc t + k]"
    then have "j < Suc t + k" by (simp only: set_upt atLeastLessThan_iff)
    then have "j < nat (lh_n s)" using Suc.prems(6) by simp
    then have "logged s ! j \<in> set (logged s)" by (rule logged_nth(4) [OF Suc.prems(3) g(2)])
    then show "(lblk s (Suc j), view s5 (logged s ! j)) = (lblk s (Suc j), view s (logged s ! j))"
      using x(3) Suc.prems(3) by (auto simp: v5 log_lists_def)
  qed
  obtain s' where s': "write_log_loop k (int (Suc t)) s5 = Ok s'" "bc_ok s'" "only_blk s5 s'" "held s' = {}" "dirty s' = dirty s5"
      "written s' = written s5 @ to_log s (view s) [Suc t..<Suc t + k]"
      "view s' = apply_writes (to_log s (view s) [Suc t..<Suc t + k]) (view s5)"
      "disk s' = apply_writes (to_log s (view s) [Suc t..<Suc t + k]) (disk s5)"
    using Suc.IH [of s5 "Suc t"] w(4,8) f Suc.prems d5 unfolding vl by auto
  have up: "[t..<t + Suc k] = t # [Suc t..<Suc t + k]" by (simp add: upt_conv_Cons)
  have blk: "to_uint (log_start s + int t + 1) = ?x" by (simp add: lblk_def add.commute add.left_commute)
  have lf: "log_dev s1 = 1" "arr_get (lh_block s1) (int t) = Ok (lh_block s ! t)"
    using only_blk_log [OF r(12)] g(1) n(2) by simp_all
  have "write_log_loop (Suc k) (int t) s = Ok s'"
    using r(1,2) w(1-3) s'(1) lf g(1) n(1) by (simp add: blk) (simp add: add.commute)
  moreover have "only_blk s s'" by (rule only_blk_trans [OF ob s'(3)])
  moreover have "written s' = written s @ to_log s (view s) [t..<t + Suc k]"
      "view s' = apply_writes (to_log s (view s) [t..<t + Suc k]) (view s)"
      "disk s' = apply_writes (to_log s (view s) [t..<t + Suc k]) (disk s)"
    unfolding up using s'(6-8) w(6,7) r(6-8) v5 by (simp_all add: to_log_def)
  ultimately show ?case using s'(2,4,5) d5 by blast
qed

text \<open>\<open>pin\<close>: the blocks still to be installed are pinned in the cache (in \<open>commit\<close>), or none is (in
  recovery).\<close>

lemma install_loop_spec:
  "bc_ok s \<Longrightarrow> log_geom s \<Longrightarrow> log_lists s \<Longrightarrow> held s = {} \<Longrightarrow> dirty s = (if pin then set (drop t (logged s)) else {}) \<Longrightarrow>
    t + k = nat (lh_n s) \<Longrightarrow>
    \<exists>s'. install_loop k (int t) s = Ok s' \<and> bc_ok s' \<and> only_blk s s' \<and> held s' = {} \<and> dirty s' = {} \<and>
      written s' = written s @ from_log s (view s) [t..<t + k] \<and> view s' = apply_writes (from_log s (view s) [t..<t + k]) (view s) \<and>
      disk s' = apply_writes (from_log s (view s) [t..<t + k]) (disk s)"
proof (induction k arbitrary: t s)
  case 0
  then show ?case using logged_def [of s] by (auto simp: from_log_def log_lists_def)
next
  case (Suc k)
  have g: "log_dev s = 1" "log_size s \<le> 30" using Suc.prems(2) by (auto simp: log_geom_def)
  have t: "t < nat (lh_n s)" using Suc.prems(6) by simp
  note n = logged_nth [OF Suc.prems(3) g(2) t]
  let ?x = "lblk s (Suc t)" and ?y = "logged s ! t"
  note x = lblk_uint [OF Suc.prems(2) n(5)]
  have y: "?y < disksize s" "?y \<notin> log_area s" using Suc.prems(3) n(4) by (auto simp: log_lists_def)
  have ds: "dirty s \<subseteq> set (logged s)" using Suc.prems(5) by (auto dest: in_set_dropD)
  then have xy: "?x \<noteq> ?y" "?x \<notin> dirty s" using x(3) y Suc.prems(3) by (auto simp: log_lists_def)
  have "card (dirty s) \<le> card (set (logged s))" by (rule card_mono [OF _ ds]) simp
  also have "card (set (logged s)) \<le> nat (lh_n s)" using n(3) card_length [of "logged s"] by simp
  finally have c: "card (held s \<union> dirty s) < 30" using Suc.prems(3,4) g(2) by (auto simp: log_lists_def)
  have drop: "drop t (logged s) = ?y # drop (Suc t) (logged s)" using t n(3) by (simp add: Cons_nth_drop_Suc)
  have yd: "?y \<in> dirty s \<or> card (held s \<union> dirty s) < 29" using Suc.prems(4,5) drop by (cases pin) auto
  obtain i j s1 s2 where r: "bread 1 ?x s = Ok (i, s1)" "bread 1 ?y s1 = Ok (j, s2)" "bc_ok s2" "has s2 i ?x" "has s2 j ?y"
      "view s2 = view s" "disk s2 = disk s" "written s2 = written s" "held s2 = insert ?y (insert ?x (held s))" "dirty s2 = dirty s" "only_blk s s2" "only_blk s s1"
    using bc.read_two [OF Suc.prems(1) xy(1) x(2) y(1) _ _ _ yd] Suc.prems(4) c by auto
  have h2: "held s2 = insert ?y (insert ?x {})" using r(9) Suc.prems(4) by auto
  have "view s ?x = disk s ?x" by (rule clean_view [OF Suc.prems(1)]) (use Suc.prems(4) xy(2) in auto)
  then have src: "?x \<in> dirty s2 \<or> view s2 ?x = disk s2 ?x" using r(6,7) by simp
  obtain s3 s4 s5 where w: "bwrite j (upd_data j (\<lambda>_. b_data (bufs s2 ! i)) s2) = Ok s3" "brelse i s3 = Ok s4" "brelse j s4 = Ok s5"
      "bc_ok s5" "view s5 = (view s2)(?y := view s2 ?x)" "disk s5 = (disk s2)(?y := view s2 ?x)" "written s5 = written s2 @ [(?y, view s2 ?x)]"
      "held s5 = {}" "dirty s5 = dirty s2 - {?y}" "only_blk s2 s5"
    using bc.put_block [OF r(3,5,4) _ h2 _ _ src] xy(1) by auto
  have ob: "only_blk s s5" by (rule only_blk_trans [OF r(11) w(10)])
  note f = log_frame [OF ob] only_blk_log [OF ob]
  have "distinct (drop t (logged s))" using Suc.prems(3) by (simp add: log_lists_def)
  then have d5: "dirty s5 = (if pin then set (drop (Suc t) (logged s5)) else {})" using w(9) r(10) Suc.prems(5) drop f(3) by auto
  have v5: "view s5 = (view s)(?y := view s ?x)" using w(5) r(6) by simp
  have vl: "from_log s5 (view s5) [Suc t..<Suc t + k] = from_log s (view s) [Suc t..<Suc t + k]"
    unfolding from_log_def f(1,3)
  proof (intro map_cong refl)
    fix j assume "j \<in> set [Suc t..<Suc t + k]"
    then have "j < Suc t + k" by (simp only: set_upt atLeastLessThan_iff)
    then have "j < nat (lh_n s)" using Suc.prems(6) by simp
    then have "lblk s (Suc j) \<in> log_area s" by (intro lblk_uint(3) [OF Suc.prems(2)] logged_nth(5) [OF Suc.prems(3) g(2)])
    then show "(logged s ! j, view s5 (lblk s (Suc j))) = (logged s ! j, view s (lblk s (Suc j)))" using y(2) by (auto simp: v5)
  qed
  obtain s' where s': "install_loop k (int (Suc t)) s5 = Ok s'" "bc_ok s'" "only_blk s5 s'" "held s' = {}" "dirty s' = {}"
      "written s' = written s5 @ from_log s (view s) [Suc t..<Suc t + k]"
      "view s' = apply_writes (from_log s (view s) [Suc t..<Suc t + k]) (view s5)"
      "disk s' = apply_writes (from_log s (view s) [Suc t..<Suc t + k]) (disk s5)"
    using Suc.IH [of s5 "Suc t", OF w(4) _ _ w(8) d5] f Suc.prems unfolding vl by auto
  have up: "[t..<t + Suc k] = t # [Suc t..<Suc t + k]" by (simp add: upt_conv_Cons)
  have blk: "to_uint (log_start s + int t + 1) = ?x" by (simp add: lblk_def add.commute add.left_commute)
  have lf: "log_dev s1 = 1" "arr_get (lh_block s1) (int t) = Ok (lh_block s ! t)"
    using only_blk_log [OF r(12)] g(1) n(2) by simp_all
  have "install_loop (Suc k) (int t) s = Ok s'"
    using r(1,2) w(1-3) s'(1) lf g(1) n(1) by (simp add: blk) (simp add: add.commute)
  moreover have "only_blk s s'" by (rule only_blk_trans [OF ob s'(3)])
  moreover have "written s' = written s @ from_log s (view s) [t..<t + Suc k]"
      "view s' = apply_writes (from_log s (view s) [t..<t + Suc k]) (view s)"
      "disk s' = apply_writes (from_log s (view s) [t..<t + Suc k]) (disk s)"
    unfolding up using s'(6-8) w(6,7) r(6-8) v5 by (simp_all add: from_log_def)
  ultimately show ?case using s'(2,4,5) by blast
qed

section \<open>Reading and writing the header\<close>

text \<open>The header block that \<open>write_head\<close> makes from the old contents \<open>d\<close>, and what is in a header block.\<close>

definition head_block :: "int \<Rightarrow> int list \<Rightarrow> u8 list \<Rightarrow> u8 list" where
  "head_block n bs d = put_blocks (take (nat n) bs) 0 (wr32 d 0 (to_uint n))"

definition head_n :: "u8 list \<Rightarrow> int" where
  "head_n d = to_int (rd32 d 0)"

definition head_list :: "u8 list \<Rightarrow> u32 list" where
  "head_list d = map (\<lambda>j. rd32 d (4 + 4 * j)) [0..<nat (head_n d)]"

lemma head_block_parts:
  assumes "length d = 512" "0 \<le> n" "n \<le> 30" "length bs = 30"
  shows "length (head_block n bs d) = 512" "head_n (head_block n bs d) = n" "head_list (head_block n bs d) = map to_uint (take (nat n) bs)"
proof -
  show "length (head_block n bs d) = 512" using assms by (simp add: head_block_def)
  have "rd32 (head_block n bs d) 0 = to_uint n" using assms by (simp add: head_block_def put_blocks_low)
  then show h: "head_n (head_block n bs d) = n" using assms by (simp add: head_n_def c_int_def)
  have "nat n \<le> 30" using assms by linarith
  then have "rd32 (head_block n bs d) (4 + 4 * j) = to_uint (bs ! j)" if "j < nat n" for j
    using that assms put_blocks_nth [of j "take (nat n) bs" 0 "wr32 d 0 (to_uint n)"] by (simp add: head_block_def)
  then show "head_list (head_block n bs d) = map to_uint (take (nat n) bs)"
    unfolding head_list_def h using assms \<open>nat n \<le> 30\<close> by (intro nth_equalityI) auto
qed

lemma write_head_spec:
  assumes "bc_ok s" "log_geom s" "held s = {}" "card (dirty s) < 30"
  defines "h \<equiv> head_block (lh_n s) (lh_block s) (view s (lblk s 0))"
  shows "\<exists>s'. write_head s = Ok s' \<and> bc_ok s' \<and> only_blk s s' \<and> held s' = {} \<and> dirty s' = dirty s - {lblk s 0} \<and>
    written s' = written s @ [(lblk s 0, h)] \<and> view s' = (view s)(lblk s 0 := h) \<and> disk s' = (disk s)(lblk s 0 := h)"
proof -
  have l: "lblk s 0 < disksize s" "log_dev s = 1" "to_uint (log_start s) = lblk s 0"
    using lblk_uint(2) [OF assms(2), of 0] assms(2) by (auto simp: log_geom_def lblk_def)
  let ?f = "\<lambda>d. head_block (lh_n s) (lh_block s) d"
  have "length (?f (view s (lblk s 0))) = 512" using view_length [OF assms(1)] by (simp add: head_block_def)
  from bc.update [of s "lblk s 0" ?f, OF assms(1) l(1) _ _ this] obtain t where
    t: "obind (bread 1 (lblk s 0) s) (\<lambda>(i, s). obind (bwrite i (upd_data i ?f s)) (brelse i)) = Ok t" "bc_ok t"
      "view t = (view s)(lblk s 0 := h)" "disk t = (disk s)(lblk s 0 := h)" "written t = written s @ [(lblk s 0, h)]"
      "held t = held s" "dirty t = dirty s - {lblk s 0}" "only_blk s t"
    using assms(3,4) unfolding h_def by auto
  have "write_head s = obind (bread 1 (lblk s 0) s) (\<lambda>(i, s). obind (bwrite i (upd_data i ?f s)) (brelse i))"
  proof (cases "bread 1 (lblk s 0) s")
    case (Ok a)
    obtain i s1 where a: "a = (i, s1)" by fastforce
    have "only_blk s s1" using bread_spec [OF assms(1) l(1)] assms(3,4) Ok a unfolding bread_post_def by auto
    then show ?thesis using Ok a l(2,3) only_blk_log [of s s1] by (simp add: write_head_def head_block_def)
  qed (use l in \<open>simp_all add: write_head_def\<close>)
  then show ?thesis using t assms(3) by simp
qed

lemma read_head_spec:
  assumes "bc_ok s" "log_geom s" "held s = {}" "dirty s = {}" "length (lh_block s) = 30"
    and n: "0 \<le> head_n (view s (lblk s 0))" "head_n (view s (lblk s 0)) \<le> 30"
  shows "\<exists>s'. read_head s = Ok s' \<and> bc_ok s' \<and> held s' = {} \<and> dirty s' = {} \<and> view s' = view s \<and> disk s' = disk s \<and>
    written s' = written s \<and> logged s' = head_list (view s (lblk s 0)) \<and> lh_n s' = head_n (view s (lblk s 0)) \<and> length (lh_block s') = 30 \<and>
    lblk s' = lblk s \<and> log_area s' = log_area s \<and> log_geom s' \<and> log_size s' = log_size s \<and> disksize s' = disksize s"
proof -
  have l: "lblk s 0 < disksize s" "log_dev s = 1" "to_uint (log_start s) = lblk s 0"
    using lblk_uint(2) [OF assms(2), of 0] assms(2) by (auto simp: log_geom_def lblk_def)
  obtain i s1 where r: "bread 1 (lblk s 0) s = Ok (i, s1)" "bread_post s (lblk s 0) i s1"
    using bread_spec [OF assms(1) l(1)] assms(3,4) by auto
  let ?d = "view s (lblk s 0)"
  define bs where "bs = map (\<lambda>j. to_int (rd32 ?d (4 + 4 * j))) [0..<nat (head_n ?d)] @ drop (nat (head_n ?d)) (lh_block s)"
  have p: "bc_ok s1" "has s1 i (lblk s 0)" "view s1 = view s" "disk s1 = disk s" "written s1 = written s" "held s1 = {lblk s 0}"
      "dirty s1 = {}" "only_blk s s1"
    using r(2) assms(3,4) by (auto simp: bread_post_def)
  note f = log_frame [OF p(8)] only_blk_log [OF p(8)] only_blk_size [OF p(8)]
  have d: "b_data (bufs s1 ! i) = ?d" using hasD(8) [OF p(1,2)] p(3) by simp
  have g: "get_blocks (nat (head_n ?d)) 0 ?d (lh_block s) = Ok bs"
    using get_blocks_spec [of 0 "nat (head_n ?d)" "lh_block s" ?d] n assms(5) by (simp add: bs_def)
  define s2 where "s2 = s1\<lparr>lh_n := head_n ?d, lh_block := bs\<rparr>"
  have s2: "lh_n s2 = head_n ?d" "lh_block s2 = bs" "log_start s2 = log_start s" "log_size s2 = log_size s" "log_dev s2 = 1"
      "disksize s2 = disksize s" "written s2 = written s" "disk s2 = disk s"
    using f l(2) p(4,5) by (simp_all add: s2_def)
  have b: "bc_ok s2" "view s2 = view s" "has s2 i (lblk s 0)" "held s2 = {lblk s 0}" "dirty s2 = {}"
    using same_blk [of s2 s1] p by (simp_all add: s2_def)
  have "lblk s 0 \<in> dirty s2 \<or> view s2 (lblk s 0) = disk s2 (lblk s 0)" using s2(8) b(2) clean_view [OF assms(1)] assms(3,4) by simp
  then obtain s3 where s3: "brelse i s2 = Ok s3" "bc_ok s3" "view s3 = view s2" "disk s3 = disk s2" "written s3 = written s2"
      "held s3 = held s2 - {lblk s 0}" "dirty s3 = dirty s2" "only_blk s2 s3"
    by (rule brelse_spec [OF b(1,3)]) (rule that)
  note f3 = log_frame [OF s3(8)] only_blk_log [OF s3(8)] only_blk_size [OF s3(8)]
  have "read_head s = Ok s3"
    unfolding read_head_def l(2,3) using r(1) d g s3(1) f by (simp add: Let_def head_n_def s2_def)
  moreover have "length bs = 30" using n assms(5) by (simp add: bs_def)
  moreover have "logged s2 = head_list ?d"
    unfolding logged_def s2 using n assms(5) by (simp add: head_list_def bs_def)
  then have "logged s3 = head_list ?d" using f3(3) by simp
  moreover have "lblk s3 = lblk s" "log_area s3 = log_area s" "log_geom s3"
    using f3 s2 assms(2) by (simp_all add: fun_eq_iff lblk_def log_area_def log_geom_def)
  ultimately show ?thesis using s3 b s2 f3 by (intro exI [of _ s3]) simp
qed

section \<open>Recovery\<close>

text \<open>A reboot with disk \<open>D\<close>: an empty cache, and a log in memory that knows only its place.\<close>

definition boot :: "'a logst_scheme \<Rightarrow> (u32 \<Rightarrow> u8 list) \<Rightarrow> 'a logst_scheme" where
  "boot s D = (binit (s\<lparr>disk := D, bufs := replicate (Suc NBUF) buf_zero, written := []\<rparr>))
     \<lparr>outstanding := 0, committing := False, lh_n := 0, lh_block := replicate 30 0\<rparr>"

text \<open>A disk whose log is consistent: the header names distinct blocks outside the log, and there is
  room for all of them in the log.\<close>

definition disk_ok :: "'a logst_scheme \<Rightarrow> (u32 \<Rightarrow> u8 list) \<Rightarrow> bool" where
  "disk_ok s D \<longleftrightarrow> (\<forall>b. length (D b) = 512) \<and> 0 \<le> head_n (D (lblk s 0)) \<and> head_n (D (lblk s 0)) < log_size s \<and>
     distinct (head_list (D (lblk s 0))) \<and> set (head_list (D (lblk s 0))) \<inter> log_area s = {} \<and>
     (\<forall>b\<in>set (head_list (D (lblk s 0))). b < disksize s)"

text \<open>The disk writes of recovery.\<close>

definition install_writes :: "'a logst_scheme \<Rightarrow> (u32 \<Rightarrow> u8 list) \<Rightarrow> (u32 \<times> u8 list) list" where
  "install_writes s D = map (\<lambda>j. (head_list (D (lblk s 0)) ! j, D (lblk s (Suc j)))) [0..<length (head_list (D (lblk s 0)))]"

definition recover_writes :: "'a logst_scheme \<Rightarrow> (u32 \<Rightarrow> u8 list) \<Rightarrow> (u32 \<times> u8 list) list" where
  "recover_writes s D = install_writes s D @ [(lblk s 0, wr32 (D (lblk s 0)) 0 0)]"

lemma only_blk_binit: "only_blk s (binit s)"
proof -
  have link: "only_blk s (link_front i s)" for i and s :: "'b blk_scheme"
    unfolding link_front_def Let_def by (meson only_blk_trans only_blk_upd)
  have "only_blk s (binit_loop ks s)" for ks and s :: "'b blk_scheme"
  proof (induction ks arbitrary: s)
    case (Cons i ks)
    have "only_blk s (link_front i (upd_buf i (\<lambda>b. b\<lparr>b_lock := initsleeplock\<rparr>) s))" by (rule only_blk_trans [OF only_blk_upd link])
    then show ?case unfolding binit_loop.simps by (rule only_blk_trans [OF _ Cons.IH])
  qed simp
  then show ?thesis unfolding binit_def by (meson only_blk_trans only_blk_upd)
qed

lemmas binit_log [simp] = only_blk_log [OF only_blk_binit] conjunct1 [OF only_blk_size [OF only_blk_binit]]

lemma written_binit [simp]: "written (binit s) = written s"
  by (simp add: binit_def upd_buf_def)

lemma boot_ok:
  assumes "log_geom s" "\<And>b. length (D b) = 512"
  shows "bc_ok (boot s D)" "view (boot s D) = D" "disk (boot s D) = D" "held (boot s D) = {}" "dirty (boot s D) = {}"
    "written (boot s D) = []" "log_geom (boot s D)" "lblk (boot s D) = lblk s" "log_area (boot s D) = log_area s"
    "length (lh_block (boot s D)) = 30" "disksize (boot s D) = disksize s" "log_size (boot s D) = log_size s"
proof -
  let ?u = "s\<lparr>disk := D, bufs := replicate (Suc NBUF) buf_zero, written := []\<rparr>"
  note i = binit_ok [of ?u] and b = same_blk [of "boot s D" "binit ?u"]
  show "bc_ok (boot s D)" "view (boot s D) = D" "disk (boot s D) = D" "held (boot s D) = {}" "dirty (boot s D) = {}"
    using i b assms(2) by (simp_all add: boot_def)
  show "written (boot s D) = []" "length (lh_block (boot s D)) = 30" "log_size (boot s D) = log_size s" by (simp_all add: boot_def)
  show d: "disksize (boot s D) = disksize s" by (simp add: boot_def)
  show "log_geom (boot s D)" using assms(1) d by (simp add: log_geom_def boot_def)
  show "lblk (boot s D) = lblk s" by (simp add: fun_eq_iff lblk_def boot_def)
  then show "log_area (boot s D) = log_area s" by (simp add: log_area_def boot_def)
qed

lemma recovery_spec:
  assumes "log_geom s" "disk_ok s D"
  shows "\<exists>r. recover_from_log (boot s D) = Ok r \<and> written r = recover_writes s D \<and> disk r = apply_writes (recover_writes s D) D"
proof -
  have len: "\<And>b. length (D b) = 512" using assms(2) by (simp add: disk_ok_def)
  note b = boot_ok [of s D, OF assms(1) len]
  let ?h = "D (lblk s 0)"
  have n: "0 \<le> head_n ?h" "head_n ?h < log_size s" "head_n ?h \<le> 30" using assms by (auto simp: disk_ok_def log_geom_def)
  obtain s1 where s1: "read_head (boot s D) = Ok s1" "bc_ok s1" "held s1 = {}" "dirty s1 = {}" "view s1 = D" "disk s1 = D"
      "written s1 = []" "logged s1 = head_list ?h" "lh_n s1 = head_n ?h" "length (lh_block s1) = 30"
      "lblk s1 = lblk s" "log_area s1 = log_area s" "log_geom s1" "log_size s1 = log_size s" "disksize s1 = disksize s"
    using read_head_spec [OF b(1,7,4,5,10)] b n by auto
  have ll: "log_lists s1" using s1 assms(2) by (auto simp: log_lists_def disk_ok_def)
  have hl: "length (head_list ?h) = nat (head_n ?h)" by (simp add: head_list_def)
  have fl: "from_log s1 D [0..<nat (head_n ?h)] = install_writes s D"
    by (simp add: from_log_def install_writes_def s1(8,11) hl)
  obtain s2 where s2: "install_trans s1 = Ok s2" "bc_ok s2" "only_blk s1 s2" "held s2 = {}" "dirty s2 = {}"
      "written s2 = install_writes s D" "view s2 = apply_writes (install_writes s D) D" "disk s2 = apply_writes (install_writes s D) D"
    using install_loop_spec [OF s1(2,13) ll s1(3), of False 0 "nat (lh_n s1)"] s1 fl by (auto simp: install_trans_def)
  note f = log_frame [OF s2(3)] only_blk_log [OF s2(3)]
  define s3 where "s3 = s2\<lparr>lh_n := 0\<rparr>"
  have s3: "bc_ok s3" "view s3 = view s2" "disk s3 = disk s2" "held s3 = {}" "dirty s3 = {}" "written s3 = written s2" "lblk s3 = lblk s" "lh_n s3 = 0"
    using same_blk [of s3 s2] s2 f s1(11) by (simp_all add: s3_def fun_eq_iff lblk_def)
  have g3: "log_geom s3" using f s1(13) by (simp add: s3_def log_geom_def)
  obtain r where r: "write_head s3 = Ok r" "written r = written s3 @ [(lblk s 0, head_block 0 (lh_block s3) (view s3 (lblk s 0)))]"
      "disk r = (disk s3)(lblk s 0 := head_block 0 (lh_block s3) (view s3 (lblk s 0)))"
    using write_head_spec [OF s3(1) g3 s3(4)] s3(5,7,8) by auto
  have "lblk s 0 \<notin> set (head_list ?h)" using assms lblk_uint(3) [OF assms(1), of 0] by (auto simp: disk_ok_def log_geom_def)
  then have "apply_writes (install_writes s D) D (lblk s 0) = ?h"
    by (intro apply_writes_other) (auto simp: install_writes_def in_set_conv_nth)
  then have "head_block 0 (lh_block s3) (view s3 (lblk s 0)) = wr32 ?h 0 0" using s2(7) s3(2) by (simp add: head_block_def to_uint_def)
  then have "written r = recover_writes s D" "disk r = apply_writes (recover_writes s D) D"
    using r(2,3) s2(6,8) s3(3,6) by (simp_all add: recover_writes_def)
  moreover have "recover_from_log (boot s D) = Ok r" using s1(1) s2(1) r(1) by (simp add: recover_from_log_def s3_def)
  ultimately show ?thesis by blast
qed

section \<open>Commit\<close>

text \<open>The header of the transaction, and the disk writes of \<open>commit\<close>.\<close>

definition full_head :: "'a logst_scheme \<Rightarrow> u8 list" where
  "full_head s = head_block (lh_n s) (lh_block s) (disk s (lblk s 0))"

definition home_writes :: "'a logst_scheme \<Rightarrow> (u32 \<times> u8 list) list" where
  "home_writes s = map (\<lambda>b. (b, view s b)) (logged s)"

definition commit_writes :: "'a logst_scheme \<Rightarrow> (u32 \<times> u8 list) list" where
  "commit_writes s = to_log s (view s) [0..<length (logged s)] @ (lblk s 0, full_head s) # home_writes s @
     [(lblk s 0, wr32 (full_head s) 0 0)]"

lemma log_okD:
  assumes "log_ok s"
  shows "bc_ok s" "log_geom s" "log_lists s" "held s = {}" "dirty s = set (logged s)" "card (dirty s) < 30"
    "length (logged s) = nat (lh_n s)" "lblk s 0 \<in> log_area s" "log_area s \<inter> dirty s = {}"
    "0 \<le> lh_n s" "lh_n s < 30" "length (lh_block s) = 30"
proof -
  show p: "bc_ok s" "log_geom s" "log_lists s" "held s = {}" "dirty s = set (logged s)" using assms by (simp_all add: log_ok_def)
  then show n: "0 \<le> lh_n s" "lh_n s < 30" "length (lh_block s) = 30" by (simp_all add: log_lists_def log_geom_def)
  then show l: "length (logged s) = nat (lh_n s)" by (simp add: logged_def)
  show "card (dirty s) < 30" unfolding p(5) using l n card_length [of "logged s"] by linarith
  show "lblk s 0 \<in> log_area s" using lblk_uint(3) [OF p(2), of 0] p(2) by (simp add: log_geom_def)
  show "log_area s \<inter> dirty s = {}" using p(3,5) by (auto simp: log_lists_def)
qed

lemma to_log_targets:
  assumes "log_geom s" "n < nat (log_size s)"
  shows "fst ` set (to_log s v [0..<n]) \<subseteq> log_area s - {lblk s 0}"
proof
  fix b assume "b \<in> fst ` set (to_log s v [0..<n])"
  then obtain j where j: "b = lblk s (Suc j)" "j < n" by (auto simp: to_log_def)
  then have k: "Suc j < nat (log_size s)" "0 < nat (log_size s)" using assms(2) by linarith+
  then have "lblk s (Suc j) \<noteq> lblk s 0" using lblk_inj [OF assms(1), of "Suc j" 0] by blast
  then show "b \<in> log_area s - {lblk s 0}" using j(1) lblk_uint(3) [OF assms(1) k(1)] by simp
qed

lemma to_log_nth:
  assumes "log_geom s" "n < nat (log_size s)" "j < n"
  shows "apply_writes (to_log s v [0..<n]) d (lblk s (Suc j)) = v (logged s ! j)"
proof -
  have "distinct (map (\<lambda>j. lblk s (Suc j)) [0..<n])"
  proof -
    have "Suc x = Suc y" if "x < n" "y < n" "lblk s (Suc x) = lblk s (Suc y)" for x y
      using that assms(2) by (intro lblk_inj [OF assms(1)]) linarith+
    then show ?thesis by (auto simp: distinct_map inj_on_def)
  qed
  then show ?thesis unfolding to_log_def using assms(3) by (subst apply_writes_map) auto
qed

lemma commit_spec:
  assumes "log_ok s" "0 < lh_n s"
  shows "\<exists>t. commit s = Ok t \<and> bc_ok t \<and> held t = {} \<and> dirty t = {} \<and> written t = written s @ commit_writes s \<and>
    disk t = apply_writes (commit_writes s) (disk s) \<and> view t = disk t \<and> lh_n t = 0 \<and>
    (\<exists>u. only_blk s u \<and> only_blk (u\<lparr>lh_n := 0\<rparr>) t)"
proof -
  note o = log_okD [OF assms(1)]
  let ?n = "nat (lh_n s)" and ?V = "view s" and ?L = "lblk s 0"
  let ?W1 = "to_log s ?V [0..<?n]"
  have ns: "?n < nat (log_size s)" using o(3,10) by (auto simp: log_lists_def)
  obtain s1 where s1: "write_log s = Ok s1" "bc_ok s1" "only_blk s s1" "held s1 = {}" "dirty s1 = dirty s"
      "written s1 = written s @ ?W1" "view s1 = apply_writes ?W1 ?V" "disk s1 = apply_writes ?W1 (disk s)"
    using write_log_loop_spec [OF o(1-5), of 0 ?n] by (auto simp: write_log_def)
  note f1 = log_frame [OF s1(3)] only_blk_log [OF s1(3)]
  have L: "?L \<notin> fst ` set ?W1" using to_log_targets [OF o(2) ns, of ?V] by auto
  have VL: "?V ?L = disk s ?L" by (rule clean_view [OF o(1)]) (use o(4,8,9) in auto)
  then have v1: "view s1 ?L = disk s ?L" using s1(7) apply_writes_other [OF L] by simp
  obtain s2 where s2: "write_head s1 = Ok s2" "bc_ok s2" "only_blk s1 s2" "held s2 = {}" "dirty s2 = dirty s1 - {?L}"
      "written s2 = written s1 @ [(?L, full_head s)]" "view s2 = (view s1)(?L := full_head s)" "disk s2 = (disk s1)(?L := full_head s)"
    using write_head_spec [OF s1(2) _ s1(4)] f1 o(2,6) s1(5) v1 by (auto simp: full_head_def)
  have d2: "dirty s2 = dirty s" using s2(5) s1(5) o(8,9) by auto
  have ob2: "only_blk s s2" by (rule only_blk_trans [OF s1(3) s2(3)])
  note f2 = log_frame [OF ob2] only_blk_log [OF ob2]
  have fl: "from_log s2 (view s2) [0..<?n] = home_writes s"
  proof (rule nth_equalityI)
    fix j assume "j < length (from_log s2 (view s2) [0..<?n])"
    then have j: "j < ?n" by (simp add: from_log_def)
    then have "Suc j < nat (log_size s)" "0 < nat (log_size s)" using ns by linarith+
    then have "lblk s (Suc j) \<noteq> ?L" using lblk_inj [OF o(2), of "Suc j" 0] by blast
    then have "view s2 (lblk s (Suc j)) = ?V (logged s ! j)" using s2(7) s1(7) to_log_nth [OF o(2) ns j, of ?V ?V] by simp
    then show "from_log s2 (view s2) [0..<?n] ! j = home_writes s ! j" using j o(7) by (simp add: from_log_def home_writes_def f2)
  qed (simp add: from_log_def home_writes_def o(7))
  obtain s3 where s3: "install_trans s2 = Ok s3" "bc_ok s3" "only_blk s2 s3" "held s3 = {}" "dirty s3 = {}"
      "written s3 = written s2 @ home_writes s" "view s3 = apply_writes (home_writes s) (view s2)"
      "disk s3 = apply_writes (home_writes s) (disk s2)"
    using install_loop_spec [OF s2(2) _ _ s2(4), of True 0 ?n] f2 o(2,3,5) d2 fl by (auto simp: install_trans_def)
  have ob3: "only_blk s s3" by (rule only_blk_trans [OF ob2 s3(3)])
  note f3 = log_frame [OF ob3] only_blk_log [OF ob3] only_blk_size [OF ob3]
  define s4 where "s4 = s3\<lparr>lh_n := 0\<rparr>"
  have s4: "bc_ok s4" "view s4 = view s3" "disk s4 = disk s3" "held s4 = {}" "dirty s4 = {}" "written s4 = written s3"
      "lblk s4 = lblk s" "log_geom s4" "lh_n s4 = 0"
    using same_blk [of s4 s3] s3 f3 o(2) by (simp_all add: s4_def fun_eq_iff lblk_def log_geom_def)
  have "?L \<notin> fst ` set (home_writes s)" using o(5,8,9) by (auto simp: home_writes_def)
  then have "view s4 ?L = full_head s" using s4(2) s3(7) s2(7) apply_writes_other by simp
  then obtain t where t: "write_head s4 = Ok t" "bc_ok t" "only_blk s4 t" "held t = {}" "dirty t = {}"
      "written t = written s4 @ [(?L, wr32 (full_head s) 0 0)]" "disk t = (disk s4)(?L := wr32 (full_head s) 0 0)"
    using write_head_spec [OF s4(1,8,4)] s4 by (auto simp: head_block_def to_uint_def)
  have "commit s = Ok t" using assms(2) s1(1) s2(1) s3(1) t(1) by (simp add: commit_def s4_def)
  moreover have "written t = written s @ commit_writes s" "disk t = apply_writes (commit_writes s) (disk s)"
    using t(6,7) s4(3,6) s3(6,8) s2(6,8) s1(6,8) o(7) by (simp_all add: commit_writes_def)
  moreover have "view t = disk t" using clean_view [OF t(2)] t(4,5) by auto
  moreover have "lh_n t = 0" using only_blk_log(6) [OF t(3)] s4(9) by simp
  ultimately show ?thesis using t(2-5) ob3 unfolding s4_def by blast
qed

end
