(* ===== verification/LogOp.thy ===== *)
theory LogOp
  imports LogSpec
begin

text \<open>
  The log as the file system uses it: inside \<open>begin_op\<close> and \<open>end_op\<close>, a block is read, changed in the cache,
  recorded with \<open>log_write\<close> and released. The interface is the locale \<open>trans_store\<close>; the last \<open>end_op\<close>
  brings every recorded block to the disk.
\<close>

section \<open>Frames\<close>

text \<open>Only the cache and the header in memory change, and nothing is written to the disk.\<close>

definition only_log :: "'a logst_scheme \<Rightarrow> 'a logst_scheme \<Rightarrow> bool" where
  "only_log s t \<longleftrightarrow> (\<exists>B n bs. t = s\<lparr>bufs := B, lh_n := n, lh_block := bs\<rparr>)"

lemma only_log_refl [simp]: "only_log s s"
  unfolding only_log_def
  by (intro exI [of _ "bufs s"] exI [of _ "lh_n s"] exI [of _ "lh_block s"]) simp

lemma only_log_trans:
  assumes "only_log s t" "only_log t u"
  shows "only_log s u"
proof -
  obtain B n bs where "u = s\<lparr>bufs := B, lh_n := n, lh_block := bs\<rparr>"
    using assms unfolding only_log_def by auto
  then show ?thesis unfolding only_log_def by blast
qed

lemma only_blk_only_log:
  assumes "only_blk s t" "disk t = disk s" "written t = written s"
  shows "only_log s t"
proof -
  obtain B where "t = s\<lparr>bufs := B\<rparr>" using assms unfolding only_blk_def by fastforce
  then have "t = s\<lparr>bufs := B, lh_n := lh_n s, lh_block := lh_block s\<rparr>" by simp
  then show ?thesis unfolding only_log_def by blast
qed

lemma only_log_fields:
  assumes "only_log s t"
  shows "log_start t = log_start s" "log_size t = log_size s" "outstanding t = outstanding s" "committing t = committing s"
    "log_dev t = log_dev s" "disksize t = disksize s" "cur_pid t = cur_pid s" "logst.more t = logst.more s"
    "disk t = disk s" "written t = written s"
  using assms by (auto simp: only_log_def)

section \<open>\<open>log_write\<close>\<close>

text \<open>The pinned blocks are the recorded ones. A block can be recorded while an operation is open.\<close>

definition log_in :: "'a logst_scheme \<Rightarrow> bool" where
  "log_in s \<longleftrightarrow> bc_ok s \<and> log_geom s \<and> log_lists s \<and> dirty s = set (logged s)"

definition in_op :: "'a logst_scheme \<Rightarrow> bool" where
  "in_op s \<longleftrightarrow> 1 \<le> outstanding s"

lemma log_index_spec: "log_index b i bs = i + length (takeWhile (\<lambda>c. to_uint c \<noteq> b) bs)"
  by (induction b i bs rule: log_index.induct) auto

lemma takeWhile_in: "b \<in> to_uint ` set bs \<Longrightarrow> length (takeWhile (\<lambda>c. to_uint c \<noteq> b) bs) < length bs"
  by (induction bs) auto

lemma takeWhile_hit:
  "length (takeWhile (\<lambda>c. to_uint c \<noteq> b) bs) < length bs \<Longrightarrow> to_uint (bs ! length (takeWhile (\<lambda>c. to_uint c \<noteq> b) bs)) = b"
  using nth_length_takeWhile [of "\<lambda>c. to_uint c \<noteq> b" bs] by blast

text \<open>The header after \<open>log_write\<close> of block \<open>b\<close>: \<open>b\<close> is added once.\<close>

lemma log_index_header:
  fixes b :: u32
  assumes "length bs = 30" "n < 30"
  defines "k \<equiv> log_index b 0 (take n bs)"
  shows "k \<le> n" "k = n \<longleftrightarrow> b \<notin> to_uint ` set (take n bs)"
    "map to_uint (take (if k = n then Suc n else n) (bs[k := to_int b])) =
       map to_uint (take n bs) @ (if b \<in> to_uint ` set (take n bs) then [] else [b])"
proof -
  have k: "k = length (takeWhile (\<lambda>c. to_uint c \<noteq> b) (take n bs))" by (simp add: k_def log_index_spec)
  show le: "k \<le> n" using length_takeWhile_le [of "\<lambda>c. to_uint c \<noteq> b" "take n bs"] assms unfolding k by simp
  show eq: "k = n \<longleftrightarrow> b \<notin> to_uint ` set (take n bs)"
  proof
    assume "k = n"
    then show "b \<notin> to_uint ` set (take n bs)" using takeWhile_in [of b "take n bs"] k assms(1,2) by auto
  next
    assume "b \<notin> to_uint ` set (take n bs)"
    then have "takeWhile (\<lambda>c. to_uint c \<noteq> b) (take n bs) = take n bs" by (auto simp: takeWhile_eq_all_conv)
    then have "k = length (take n bs)" unfolding k by (rule arg_cong)
    then show "k = n" using assms(1,2) by simp
  qed
  show "map to_uint (take (if k = n then Suc n else n) (bs[k := to_int b])) =
       map to_uint (take n bs) @ (if b \<in> to_uint ` set (take n bs) then [] else [b])"
  proof (cases "k = n")
    case True
    then show ?thesis using eq assms(1,2) by (simp add: take_Suc_conv_app_nth)
  next
    case False
    then have "k < n" using le by simp
    then have "to_uint (bs ! k) = b" using takeWhile_hit [of b "take n bs"] k assms(1,2) by simp
    then have "map to_uint (bs[k := to_int b]) = map to_uint bs" by (simp add: map_update list_update_same_conv) (metis list_update_id nth_map map_update not_le list_update_beyond)
    then show ?thesis using False eq by (simp flip: take_map)
  qed
qed

lemma log_write_spec:
  assumes "log_in s" "has s i b" "b \<notin> log_area s" "lh_n s < log_size s - 1" "in_op s"
  shows "\<exists>t. log_write i s = Ok t \<and> log_in t \<and> view t = view s \<and> disk t = disk s \<and> written t = written s \<and> held t = held s \<and>
    dirty t = insert b (dirty s) \<and> only_log s t \<and> (\<forall>j c. has t j c \<longleftrightarrow> has s j c) \<and>
    logged t = (if b \<in> set (logged s) then logged s else logged s @ [b])"
proof -
  have s: "bc_ok s" "log_geom s" "log_lists s" "dirty s = set (logged s)" "1 \<le> outstanding s" using assms(1,5) by (auto simp: log_in_def in_op_def)
  have l: "length (lh_block s) = 30" "nat (lh_n s) < 30" "0 \<le> lh_n s" "log_size s \<le> 30"
    using s(2,3) by (auto simp: log_lists_def log_geom_def)
  note h = hasD [OF s(1) assms(2)]
  define k where "k = log_index b 0 (take (nat (lh_n s)) (lh_block s))"
  note x = log_index_header [OF l(1,2), of b, folded k_def]
  define u where "u = s\<lparr>lh_block := (lh_block s)[k := to_int b], lh_n := (if int k = lh_n s then lh_n s + 1 else lh_n s)\<rparr>"
  define t where "t = upd_buf i (\<lambda>b. b\<lparr>b_dirty := True\<rparr>) u"
  have kn: "int k = lh_n s \<longleftrightarrow> k = nat (lh_n s)" using l(3) by linarith
  have run: "log_write i s = Ok t"
    using assms(4) s(5) l h(3) x(1) by (simp add: log_write_def Let_def t_def u_def flip: k_def)
  have u: "bc_ok u" "view u = view s" "has u = has s" "held u = held s" "dirty u = dirty s"
    using same_blk [of u s] s(1) by (simp_all add: u_def)
  note m = mark_dirty [of u i b, folded t_def, OF u(1)]
  have i: "has u i b" using assms(2) u(3) by simp
  have lt: "nat (lh_n t) = (if k = nat (lh_n s) then Suc (nat (lh_n s)) else nat (lh_n s))" "lh_block t = (lh_block s)[k := to_int b]"
      "log_size t = log_size s" "log_start t = log_start s" "log_dev t = log_dev s" "outstanding t = outstanding s"
    using l(3) kn by (simp_all add: t_def u_def upd_buf_def nat_add_distrib)
  have lg: "logged t = (if b \<in> set (logged s) then logged s else logged s @ [b])"
    unfolding logged_def lt using x(3) by (simp add: image_image)
  have ln: "0 \<le> lh_n t" "lh_n t < log_size t" using assms(4) l(3) by (simp_all add: t_def u_def upd_buf_def)
  have area: "log_area t = log_area s" by (simp add: log_area_def lblk_def [abs_def] lt)
  have bd: "b < disksize s" using h(5) by simp
  have ll: "log_lists t" using s(3) lg ln area bd assms(3) l(1) lt(2) by (auto simp: log_lists_def t_def u_def)
  have "log_geom t" using s(2) lt by (simp add: log_geom_def t_def u_def)
  moreover have d: "dirty t = insert b (dirty s)" using m(5) [OF i] u(5) by simp
  ultimately have "log_in t" using ll m(1) [OF i] s(4) lg by (auto simp: log_in_def)
  moreover have "only_log s t" unfolding only_log_def
    by (rule exI [of _ "bufs t"], rule exI [of _ "lh_n t"], rule exI [of _ "lh_block t"])
      (simp add: t_def u_def upd_buf_def)
  moreover have "disk t = disk s" "written t = written s" by (simp_all add: t_def u_def)
  ultimately show ?thesis using run m(2-4) [OF i] u lg d by auto
qed

section \<open>The store of a transaction\<close>

text \<open>\<open>t_home\<close>: the blocks that may be recorded; \<open>t_log\<close>: the recorded ones, at most \<open>t_lim\<close>; \<open>t_clean\<close>: a
  block whose contents are not lost when its buffer is released; \<open>t_open\<close>: blocks may be recorded.\<close>

locale trans_store =
  fixes t_ok :: "'s \<Rightarrow> bool" and t_view :: "'s \<Rightarrow> u32 \<Rightarrow> u8 list" and t_held :: "'s \<Rightarrow> u32 set" and t_log :: "'s \<Rightarrow> u32 list"
    and t_lim :: "'s \<Rightarrow> nat" and t_home :: "'s \<Rightarrow> u32 set" and t_clean :: "'s \<Rightarrow> u32 \<Rightarrow> bool"
    and t_open :: "'s \<Rightarrow> bool" and t_has :: "'s \<Rightarrow> nat \<Rightarrow> u32 \<Rightarrow> bool" and t_data :: "'s \<Rightarrow> nat \<Rightarrow> u8 list" and t_frame :: "'s \<Rightarrow> 's \<Rightarrow> bool"
    and t_read :: "u32 \<Rightarrow> 's \<Rightarrow> (nat \<times> 's) outcome" and t_record :: "nat \<Rightarrow> 's \<Rightarrow> 's outcome"
    and t_release :: "nat \<Rightarrow> 's \<Rightarrow> 's outcome" and t_change :: "nat \<Rightarrow> (u8 list \<Rightarrow> u8 list) \<Rightarrow> 's \<Rightarrow> 's"
  assumes tframe_trans: "t_frame s t \<Longrightarrow> t_frame t u \<Longrightarrow> t_frame s u"
    and tframe: "t_frame s t \<Longrightarrow> t_home t = t_home s \<and> t_lim t = t_lim s \<and> t_open t = t_open s"
    and tlen: "t_ok s \<Longrightarrow> length (t_view s b) = 512"
    and thas_one: "t_has s i b \<Longrightarrow> t_has s i c \<Longrightarrow> b = c"
    and thas_held: "t_has s i b \<Longrightarrow> b \<in> t_held s"
    and tdata: "t_ok s \<Longrightarrow> t_has s i b \<Longrightarrow> t_data s i = t_view s b"
    and tread: "t_ok s \<Longrightarrow> b \<in> t_home s \<Longrightarrow> b \<notin> t_held s \<Longrightarrow> length (t_log s) + card (t_held s) < 30 \<Longrightarrow>
      \<exists>i t. t_read b s = Ok (i, t) \<and> t_ok t \<and> t_has t i b \<and> t_view t = t_view s \<and> t_held t = insert b (t_held s) \<and>
        t_log t = t_log s \<and> t_frame s t \<and> t_clean t b \<and> (\<forall>c. t_clean s c \<longrightarrow> t_clean t c) \<and> (\<forall>j c. t_has s j c \<longrightarrow> t_has t j c)"
    and trecord: "t_ok s \<Longrightarrow> t_has s i b \<Longrightarrow> b \<in> t_home s \<Longrightarrow> length (t_log s) < t_lim s \<Longrightarrow> t_open s \<Longrightarrow>
      \<exists>t. t_record i s = Ok t \<and> t_ok t \<and> t_view t = t_view s \<and> t_held t = t_held s \<and>
        t_log t = (if b \<in> set (t_log s) then t_log s else t_log s @ [b]) \<and> t_frame s t \<and> t_clean t b \<and>
        (\<forall>c. t_clean s c \<longrightarrow> t_clean t c) \<and> (\<forall>j c. t_has t j c \<longleftrightarrow> t_has s j c)"
    and trelease: "t_ok s \<Longrightarrow> t_has s i b \<Longrightarrow> t_clean s b \<Longrightarrow>
      \<exists>t. t_release i s = Ok t \<and> t_ok t \<and> t_view t = t_view s \<and> t_held t = t_held s - {b} \<and> t_log t = t_log s \<and> t_frame s t \<and>
        (\<forall>c. t_clean s c \<longrightarrow> t_clean t c) \<and> (\<forall>j c. t_has t j c \<longleftrightarrow> t_has s j c \<and> j \<noteq> i)"
    and tchange: "t_ok s \<Longrightarrow> t_has s i b \<Longrightarrow> length (f (t_view s b)) = 512 \<Longrightarrow>
      t_ok (t_change i f s) \<and> t_view (t_change i f s) = (t_view s)(b := f (t_view s b)) \<and> t_held (t_change i f s) = t_held s \<and>
      t_log (t_change i f s) = t_log s \<and> t_frame s (t_change i f s) \<and>
      (\<forall>c. c \<noteq> b \<longrightarrow> t_clean s c \<longrightarrow> t_clean (t_change i f s) c) \<and> (\<forall>j c. t_has (t_change i f s) j c \<longleftrightarrow> t_has s j c)"
begin

text \<open>Read a block and let it go.\<close>

lemma peek:
  assumes "t_ok s" "b \<in> t_home s" "b \<notin> t_held s" "length (t_log s) + card (t_held s) < 30"
  shows "\<exists>i s1 t. t_read b s = Ok (i, s1) \<and> t_data s1 i = t_view s b \<and> t_release i s1 = Ok t \<and> t_ok t \<and> t_view t = t_view s \<and>
    t_held t = t_held s \<and> t_log t = t_log s \<and> t_frame s s1 \<and> t_frame s t \<and> (\<forall>c. t_clean s c \<longrightarrow> t_clean t c) \<and> (\<forall>j c. t_has s j c \<longrightarrow> t_has t j c)"
proof -
  obtain i s1 where 1: "t_read b s = Ok (i, s1)" "t_ok s1" "t_has s1 i b" "t_view s1 = t_view s" "t_held s1 = insert b (t_held s)"
      "t_log s1 = t_log s" "t_frame s s1" "t_clean s1 b" "\<forall>c. t_clean s c \<longrightarrow> t_clean s1 c" "\<forall>j c. t_has s j c \<longrightarrow> t_has s1 j c"
    using tread [OF assms] by blast
  obtain t where 2: "t_release i s1 = Ok t" "t_ok t" "t_view t = t_view s1" "t_held t = t_held s1 - {b}" "t_log t = t_log s1"
      "t_frame s1 t" "\<forall>c. t_clean s1 c \<longrightarrow> t_clean t c" "\<forall>j c. t_has t j c \<longleftrightarrow> t_has s1 j c \<and> j \<noteq> i"
    using trelease [OF 1(2,3,8)] by blast
  have "t_has t j c" if "t_has s j c" for j c
    using that 1(3,10) 2(8) thas_held [OF that] thas_one assms(3) by blast
  moreover have "t_data s1 i = t_view s b" using tdata [OF 1(2,3)] 1(4) by simp
  moreover have "t_frame s t" by (rule tframe_trans [OF 1(7) 2(6)])
  ultimately show ?thesis using 1 2 assms(3) by auto
qed

text \<open>Read a block, change it, record it and let it go.\<close>

lemma modify:
  assumes "t_ok s" "b \<in> t_home s" "b \<notin> t_held s" "length (t_log s) + card (t_held s) < 30" "length (t_log s) < t_lim s"
    "length (f (t_view s b)) = 512" "t_open s"
  shows "\<exists>i s1 s2 t. t_read b s = Ok (i, s1) \<and> t_data s1 i = t_view s b \<and> t_record i (t_change i f s1) = Ok s2 \<and> t_release i s2 = Ok t \<and>
    t_ok t \<and> t_view t = (t_view s)(b := f (t_view s b)) \<and> t_held t = t_held s \<and>
    t_log t = (if b \<in> set (t_log s) then t_log s else t_log s @ [b]) \<and> t_frame s s1 \<and> t_frame s t \<and>
    (\<forall>c. t_clean s c \<longrightarrow> t_clean t c) \<and> (\<forall>j c. t_has s j c \<longrightarrow> t_has t j c)"
proof -
  obtain i s1 where 1: "t_read b s = Ok (i, s1)" "t_ok s1" "t_has s1 i b" "t_view s1 = t_view s" "t_held s1 = insert b (t_held s)"
      "t_log s1 = t_log s" "t_frame s s1" "\<forall>c. t_clean s c \<longrightarrow> t_clean s1 c" "\<forall>j c. t_has s j c \<longrightarrow> t_has s1 j c"
    using tread [OF assms(1-4)] by blast
  let ?c = "t_change i f s1"
  have c: "t_ok ?c" "t_view ?c = (t_view s)(b := f (t_view s b))" "t_held ?c = insert b (t_held s)" "t_log ?c = t_log s" "t_frame s1 ?c"
      "\<forall>c. c \<noteq> b \<longrightarrow> t_clean s1 c \<longrightarrow> t_clean ?c c" "\<forall>j c. t_has ?c j c \<longleftrightarrow> t_has s1 j c"
    using tchange [OF 1(2,3), of f] 1 assms(6) by auto
  have fc: "t_frame s ?c" by (rule tframe_trans [OF 1(7) c(5)])
  have ic: "t_has ?c i b" using c(7) 1(3) by blast
  obtain s2 where 2: "t_record i ?c = Ok s2" "t_ok s2" "t_view s2 = t_view ?c" "t_held s2 = t_held ?c"
      "t_log s2 = (if b \<in> set (t_log ?c) then t_log ?c else t_log ?c @ [b])" "t_frame ?c s2" "t_clean s2 b"
      "\<forall>c. t_clean ?c c \<longrightarrow> t_clean s2 c" "\<forall>j c. t_has s2 j c \<longleftrightarrow> t_has ?c j c"
    using trecord [OF c(1) ic] tframe [OF fc] c(4) assms(2,5,7) by auto
  have i2: "t_has s2 i b" using 2(9) ic by blast
  obtain t where 3: "t_release i s2 = Ok t" "t_ok t" "t_view t = t_view s2" "t_held t = t_held s2 - {b}" "t_log t = t_log s2"
      "t_frame s2 t" "\<forall>c. t_clean s2 c \<longrightarrow> t_clean t c" "\<forall>j c. t_has t j c \<longleftrightarrow> t_has s2 j c \<and> j \<noteq> i"
    using trelease [OF 2(2) i2 2(7)] by blast
  have "t_has t j c" if "t_has s j c" for j c
    using that 1(3,9) c(7) 2(9) 3(8) thas_held [OF that] thas_one assms(3) by blast
  moreover have "t_clean t c" if "t_clean s c" for c
    using that 1(8) c(6) 2(7,8) 3(7) by (cases "c = b") auto
  moreover have "t_data s1 i = t_view s b" using tdata [OF 1(2,3)] 1(4) by simp
  moreover have "t_frame s t" by (rule tframe_trans [OF fc tframe_trans [OF 2(6) 3(6)]])
  ultimately show ?thesis using 1(1,7) c(2-4) 2(1-5) 3(1-5) assms(3) by auto
qed

end

text \<open>The blocks outside the log, and when the contents of a block are safe.\<close>

definition home :: "'a logst_scheme \<Rightarrow> u32 set" where
  "home s = {b. b < disksize s} - log_area s"

definition clean :: "'a logst_scheme \<Rightarrow> u32 \<Rightarrow> bool" where
  "clean s b \<longleftrightarrow> b \<in> dirty s \<or> view s b = disk s b"

lemma log_in_frame:
  assumes "log_in s" "only_blk s t" "bc_ok t" "dirty t = dirty s"
  shows "log_in t"
  using assms log_frame [OF assms(2)] by (simp add: log_in_def)

lemma only_log_area: "only_log s t \<Longrightarrow> log_area t = log_area s"
  using only_log_fields [of s t] by (simp add: log_area_def lblk_def [abs_def])

lemma log_in_card: "log_in s \<Longrightarrow> card (held s \<union> dirty s) \<le> length (logged s) + card (held s)"
  using card_Un_le [of "held s" "dirty s"] card_length [of "logged s"] by (simp add: log_in_def)

interpretation ts: trans_store log_in view held logged "\<lambda>s. nat (log_size s - 1)" home clean in_op has "\<lambda>s i. b_data (bufs s ! i)" only_log
  "bread 1" log_write brelse upd_data
proof (unfold_locales, goal_cases)
  case (1 s t u)
  then show ?case by (rule only_log_trans)
next
  case (2 s t)
  then show ?case using only_log_fields [OF 2] only_log_area [OF 2] by (simp add: home_def in_op_def)
next
  case (3 s b)
  then show ?case by (simp add: log_in_def view_length)
next
  case (4 s i b c)
  then show ?case by (simp add: has_def)
next
  case (5 s i b)
  then show ?case by (auto simp: held_def)
next
  case (6 s i b)
  then show ?case by (simp add: log_in_def hasD(8))
next
  case (7 s b)
  have ok: "bc_ok s" using 7(1) by (simp add: log_in_def)
  have b: "b < disksize s" using 7(2) by (simp add: home_def)
  have "card (held s \<union> dirty s) < 30" using log_in_card [OF 7(1)] 7(4) by simp
  then obtain i t where r: "bread 1 b s = Ok (i, t)" "bread_post s b i t" using bread_spec [OF ok b 7(3)] by blast
  then have p: "bc_ok t" "has t i b" "view t = view s" "disk t = disk s" "held t = insert b (held s)" "dirty t = dirty s" "only_blk s t" "written t = written s"
      "\<forall>j c. has s j c \<longrightarrow> has t j c" by (auto simp: bread_post_def)
  have "log_in t" by (rule log_in_frame [OF 7(1) p(7,1,6)])
  moreover have "clean s b" using clean_view [OF ok 7(3)] by (auto simp: clean_def)
  moreover have "clean t c = clean s c" for c using p by (simp add: clean_def)
  ultimately show ?case using r(1) p log_frame(3) [OF p(7)] only_blk_only_log [OF p(7,4,8)] by auto
next
  case (8 s i b)
  then have "length (lh_block s) = 30" "lh_n s < log_size s" "log_size s \<le> 30" by (auto simp: log_in_def log_lists_def log_geom_def)
  then have "lh_n s < log_size s - 1" using 8(4) by (simp add: logged_def min_def split: if_splits)
  moreover have "b \<notin> log_area s" using 8(3) by (simp add: home_def)
  ultimately obtain t where "log_write i s = Ok t" "log_in t" "view t = view s" "disk t = disk s" "held t = held s" "dirty t = insert b (dirty s)" "only_log s t"
      "\<forall>j c. has t j c \<longleftrightarrow> has s j c" "logged t = (if b \<in> set (logged s) then logged s else logged s @ [b])"
    using log_write_spec [OF 8(1,2)] 8(5) by blast
  then show ?case by (auto simp: clean_def)
next
  case (9 s i b)
  have ok: "bc_ok s" using 9(1) by (simp add: log_in_def)
  have "b \<in> dirty s \<or> view s b = disk s b" using 9(3) by (simp add: clean_def)
  then obtain t where t: "brelse i s = Ok t" "bc_ok t" "view t = view s" "disk t = disk s" "written t = written s" "held t = held s - {b}"
      "dirty t = dirty s" "only_blk s t" "\<And>j c. has t j c \<longleftrightarrow> has s j c \<and> j \<noteq> i"
    by (rule brelse_spec [OF ok 9(2)]) (rule that)
  have "log_in t" by (rule log_in_frame [OF 9(1) t(8,2,7)])
  moreover have "clean t c = clean s c" for c using t by (simp add: clean_def)
  ultimately show ?case using t log_frame(3) [OF t(8)] only_blk_only_log [OF t(8,4,5)] by auto
next
  case (10 s i b f)
  have ok: "bc_ok s" using 10(1) by (simp add: log_in_def)
  note u = upd_data_spec [OF ok 10(2), of f, OF 10(3)]
  have "log_in (upd_data i f s)" by (rule log_in_frame [OF 10(1) u(8,1,5)])
  then show ?case using u log_frame(3) [OF u(8)] only_blk_only_log [OF u(8,6,7)] by (auto simp: clean_def)
qed

section \<open>The end of a transaction\<close>

text \<open>Nothing on the disk is waiting to be installed.\<close>

definition log_empty :: "'a logst_scheme \<Rightarrow> bool" where
  "log_empty s \<longleftrightarrow> head_n (disk s (lblk s 0)) = 0"

lemma home_writes_value:
  "distinct (logged s) \<Longrightarrow> apply_writes (home_writes s) d b = (if b \<in> set (logged s) then view s b else d b)"
  using apply_writes_map [of "\<lambda>b. b" "logged s" b "view s" d] apply_writes_other [of b "home_writes s" d]
  by (auto simp: home_writes_def image_image)

lemma commit_disk:
  assumes "log_ok s" "b \<notin> log_area s"
  shows "apply_writes (commit_writes s) (disk s) b = view s b"
proof -
  note o = log_okD [OF assms(1)]
  have ns: "length (logged s) < nat (log_size s)" using o(3,7,10) by (auto simp: log_lists_def)
  have L: "b \<noteq> lblk s 0" using assms(2) o(8) by auto
  have "b \<notin> fst ` set (to_log s (view s) [0..<length (logged s)])" using to_log_targets [OF o(2) ns, of "view s"] assms(2) by auto
  moreover have "view s b = disk s b" if "b \<notin> set (logged s)" using clean_view [OF o(1)] that o(4,5) by auto
  moreover have "distinct (logged s)" using o(3) by (simp add: log_lists_def)
  ultimately show ?thesis using L by (simp add: commit_writes_def home_writes_value apply_writes_other)
qed

lemma commit_head: "length (full_head s) = 512 \<Longrightarrow> head_n (apply_writes (commit_writes s) (disk s) (lblk s 0)) = 0"
  by (simp add: commit_writes_def head_n_def to_int_def)

lemma end_op_spec:
  assumes "log_ok s" "log_empty s" "outstanding s = 1" "\<not> committing s"
  shows "\<exists>t. end_op s = Ok t \<and> log_ok t \<and> log_empty t \<and> lh_n t = 0 \<and> outstanding t = 0 \<and> \<not> committing t \<and>
    log_area t = log_area s \<and> (\<forall>b. b \<notin> log_area s \<longrightarrow> disk t b = view s b \<and> view t b = view s b)"
proof -
  note o = log_okD [OF assms(1)]
  define u where "u = s\<lparr>outstanding := 0, committing := True\<rparr>"
  have u: "bc_ok u" "view u = view s" "held u = held s" "dirty u = dirty s" "disk u = disk s" "lh_n u = lh_n s" "logged u = logged s"
      "log_area u = log_area s" "lblk u = lblk s" "lh_block u = lh_block s"
    using same_blk [of u s] o(1) by (simp_all add: u_def logged_def log_area_def lblk_def [abs_def])
  have ou: "log_ok u" using assms(1) u by (simp add: log_ok_def log_lists_def log_geom_def) (simp add: u_def)
  have run: "end_op s = obind (commit u) (\<lambda>s. Ok (s\<lparr>committing := False\<rparr>))"
    using assms(3,4) by (simp add: end_op_def Let_def u_def)
  show ?thesis
  proof (cases "0 < lh_n s")
    case True
    then obtain t v where t: "commit u = Ok t" "bc_ok t" "held t = {}" "dirty t = {}" "disk t = apply_writes (commit_writes u) (disk u)"
        "view t = disk t" "lh_n t = 0" "only_blk u v" "only_blk (v\<lparr>lh_n := 0\<rparr>) t"
      using commit_spec [OF ou] u(6) by auto
    define w where "w = t\<lparr>committing := False\<rparr>"
    note f = only_blk_log [OF t(8)] only_blk_log [OF t(9)] only_blk_size [OF t(8)] only_blk_size [OF t(9)]
    have w: "bc_ok w" "view w = disk t" "held w = {}" "dirty w = {}" "disk w = disk t" "lh_n w = 0" "outstanding w = 0" "\<not> committing w"
        "log_area w = log_area s" "lblk w = lblk s" "log_geom w" "length (lh_block w) = 30"
      using same_blk [of w t] t f o(2,12) by (simp_all add: w_def log_area_def lblk_def [abs_def] log_geom_def u_def)
    have "log_ok w" using w o(2) by (auto simp: log_ok_def log_lists_def logged_def log_geom_def)
    moreover have "length (full_head u) = 512"
      using head_block_parts(1) [of "disk u (lblk u 0)" "lh_n u" "lh_block u"] o(1,10-12) u by (simp add: full_head_def bc_ok_def)
    then have "log_empty w" using commit_head [of u] w(5,10) t(5) u(5,9) by (simp add: log_empty_def)
    moreover have "disk w b = view s b" if "b \<notin> log_area s" for b using commit_disk [OF ou] that u(2,8) t(5) w(5) by simp
    ultimately show ?thesis using run t(1) w by (auto simp: w_def)
  next
    case False
    define w where "w = u\<lparr>committing := False\<rparr>"
    have w: "bc_ok w" "view w = view s" "held w = {}" "dirty w = dirty s" "disk w = disk s" "lh_n w = lh_n s" "outstanding w = 0" "\<not> committing w"
        "log_area w = log_area s" "lblk w = lblk s" "log_geom w" "lh_block w = lh_block s" "logged w = logged s"
      using same_blk [of w u] u o(2,4) by (simp_all add: w_def log_area_def lblk_def [abs_def] log_geom_def u_def logged_def)
    have n: "lh_n s = 0" using False o(10) by simp
    then have "dirty s = {}" using o(5,7) by simp
    then have "view s b = disk s b" for b using clean_view [OF o(1)] o(4) by auto
    moreover have "log_ok w" using w assms(1) by (auto simp: log_ok_def log_lists_def log_geom_def w_def u_def)
    moreover have "commit u = Ok u" using False u(6) by (simp add: commit_def)
    ultimately show ?thesis using run w n assms(2) by (simp add: log_empty_def flip: w_def)
  qed
qed

end
