(* ===== verification/Fs.thy ===== *)
theory Fs
  imports LogOp
begin

text \<open>
  The inode layer, directories and paths (fs.c), for one kernel thread. An in-memory inode is its index
  in \<open>icache\<close>; a null pointer is \<open>None\<close>. \<open>short\<close> fields are integers that are cut to 16 bits when
  they are stored. \<open>readi\<close> returns the bytes it copies and \<open>writei\<close> takes the bytes to write; a C string is
  the list of its bytes without the NUL. The device switch \<open>devsw\<close> is an argument.
\<close>

section \<open>Data\<close>

abbreviation (input) NDIRECT :: nat where "NDIRECT \<equiv> 12"
abbreviation (input) NINDIRECT :: nat where "NINDIRECT \<equiv> 128"
abbreviation (input) MAXFILE :: nat where "MAXFILE \<equiv> 140"
abbreviation (input) NINODE :: nat where "NINODE \<equiv> 50"
abbreviation (input) NDEV :: int where "NDEV \<equiv> 10"
abbreviation (input) BPB :: nat where "BPB \<equiv> 4096"
abbreviation (input) DIRSIZ :: nat where "DIRSIZ \<equiv> 14"
abbreviation (input) T_DIR :: int where "T_DIR \<equiv> 1"
abbreviation (input) T_FILE :: int where "T_FILE \<equiv> 2"
abbreviation (input) T_DEV :: int where "T_DEV \<equiv> 3"
abbreviation (input) ROOTDEV :: u32 where "ROOTDEV \<equiv> 1"
abbreviation (input) ROOTINO :: u32 where "ROOTINO \<equiv> 1"

record inode =
  i_dev :: u32
  i_inum :: u32
  i_ref :: int
  i_lock :: sleeplock
  i_valid :: bool
  i_type :: int
  i_major :: int
  i_minor :: int
  i_nlink :: int
  i_size :: u32
  i_addrs :: "u32 list"

record fsst = logst +
  sblk :: superblock
  icache :: "inode list"
  cur_cwd :: nat

text \<open>The device switch: for each major number the read and write functions, if there are any.\<close>

record 's devsw =
  d_read :: "int \<Rightarrow> (nat \<Rightarrow> int \<Rightarrow> 's \<Rightarrow> (int \<times> u8 list \<times> 's) outcome) option"
  d_write :: "int \<Rightarrow> (nat \<Rightarrow> u8 list \<Rightarrow> 's \<Rightarrow> (int \<times> 's) outcome) option"

definition to_short :: "int \<Rightarrow> int" where
  "to_short x = sint (word_of_int x :: u16)"

definition upd_inode :: "nat \<Rightarrow> (inode \<Rightarrow> inode) \<Rightarrow> 'a fsst_scheme \<Rightarrow> 'a fsst_scheme" where
  "upd_inode i f s = s\<lparr>icache := (icache s)[i := f (icache s ! i)]\<rparr>"

abbreviation inode_of :: "'a fsst_scheme \<Rightarrow> nat \<Rightarrow> inode" where
  "inode_of s i \<equiv> icache s ! i"

section \<open>Blocks\<close>

definition IBLOCK :: "u32 \<Rightarrow> superblock \<Rightarrow> u32" where
  "IBLOCK i b = i div 8 + sb_inodestart b"

definition BBLOCK :: "u32 \<Rightarrow> superblock \<Rightarrow> u32" where
  "BBLOCK b k = b div 4096 + sb_bmapstart k"

definition bzero :: "u32 \<Rightarrow> int \<Rightarrow> 'a fsst_scheme \<Rightarrow> 'a fsst_scheme outcome" where
  "bzero dev bno s =
     obind (bread dev (to_uint bno) s) (\<lambda>(i, s).
     obind (log_write i (upd_data i (\<lambda>d. replicate BSIZE 0) s)) (\<lambda>s.
     brelse i s))"

text \<open>Bit \<open>bi\<close> of a bitmap block.\<close>

definition bit_used :: "u8 list \<Rightarrow> nat \<Rightarrow> bool" where
  "bit_used d bi \<longleftrightarrow> d ! (bi div 8) AND push_bit (bi mod 8) 1 \<noteq> 0"

definition bit_mark :: "nat \<Rightarrow> u8 list \<Rightarrow> u8 list" where
  "bit_mark bi d = d[bi div 8 := d ! (bi div 8) OR push_bit (bi mod 8) 1]"

definition bit_clear :: "nat \<Rightarrow> u8 list \<Rightarrow> u8 list" where
  "bit_clear bi d = d[bi div 8 := d ! (bi div 8) AND NOT (push_bit (bi mod 8) 1)]"

function balloc_loop :: "int \<Rightarrow> u32 \<Rightarrow> int \<Rightarrow> 'a fsst_scheme \<Rightarrow> (u32 \<times> 'a fsst_scheme) outcome" where
  "balloc_loop sz dev b s =
     (if b < sz then
        obind (bread dev (BBLOCK (to_uint b) (sblk s)) s) (\<lambda>(i, s).
        case find (\<lambda>bi. \<not> bit_used (b_data (bufs s ! i)) bi) [0..<min BPB (nat (sz - b))] of
          Some bi \<Rightarrow>
            obind (log_write i (upd_data i (bit_mark bi) s)) (\<lambda>s.
            obind (brelse i s) (\<lambda>s.
            obind (bzero dev (b + int bi) s) (\<lambda>s.
            Ok (to_uint (b + int bi), s))))
        | None \<Rightarrow> obind (brelse i s) (\<lambda>s. balloc_loop sz dev (b + int BPB) s))
      else Panic ''balloc: out of blocks'')"
  by pat_completeness auto

termination balloc_loop
  by (relation "measure (\<lambda>(sz, dev, b, s). nat (sz - b))") auto

declare balloc_loop.simps [simp del]

definition balloc :: "u32 \<Rightarrow> 'a fsst_scheme \<Rightarrow> (u32 \<times> 'a fsst_scheme) outcome" where
  "balloc dev s = balloc_loop (uint (sb_size (sblk s))) dev 0 s"

definition bfree :: "u32 \<Rightarrow> u32 \<Rightarrow> 'a fsst_scheme \<Rightarrow> 'a fsst_scheme outcome" where
  "bfree dev b s =
     obind (bread dev (BBLOCK b (sblk s)) s) (\<lambda>(i, s).
     let bi = unat b mod BPB in
     if \<not> bit_used (b_data (bufs s ! i)) bi then Panic ''freeing free block''
     else
       obind (log_write i (upd_data i (bit_clear bi) s)) (\<lambda>s.
       brelse i s))"

section \<open>Inodes\<close>

text \<open>\<open>k\<close> words from offset \<open>o\<close> on.\<close>

fun rd_words :: "nat \<Rightarrow> nat \<Rightarrow> u8 list \<Rightarrow> u32 list" where
  "rd_words 0 p d = []"
| "rd_words (Suc k) p d = rd32 d p # rd_words k (p + 4) d"

fun wr_words :: "u32 list \<Rightarrow> nat \<Rightarrow> u8 list \<Rightarrow> u8 list" where
  "wr_words [] p d = d"
| "wr_words (w # ws) p d = wr_words ws (p + 4) (wr32 d p w)"

text \<open>The on-disk inode at offset \<open>p\<close>: copied into the in-memory inode, and written from it.\<close>

definition rd_dinode :: "u8 list \<Rightarrow> nat \<Rightarrow> inode \<Rightarrow> inode" where
  "rd_dinode d p ip = ip\<lparr>i_type := sint (rd16 d p), i_major := sint (rd16 d (p + 2)), i_minor := sint (rd16 d (p + 4)),
     i_nlink := sint (rd16 d (p + 6)), i_size := rd32 d (p + 8), i_addrs := rd_words (NDIRECT + 1) (p + 12) d\<rparr>"

definition wr_dinode :: "inode \<Rightarrow> nat \<Rightarrow> u8 list \<Rightarrow> u8 list" where
  "wr_dinode ip p d =
     (let d = wr16 d p (word_of_int (i_type ip));
          d = wr16 d (p + 2) (word_of_int (i_major ip));
          d = wr16 d (p + 4) (word_of_int (i_minor ip));
          d = wr16 d (p + 6) (word_of_int (i_nlink ip));
          d = wr32 d (p + 8) (i_size ip)
      in wr_words (i_addrs ip) (p + 12) d)"

fun iinit_loop :: "nat list \<Rightarrow> 'a fsst_scheme \<Rightarrow> 'a fsst_scheme" where
  "iinit_loop [] s = s"
| "iinit_loop (i # is) s = iinit_loop is (upd_inode i (\<lambda>ip. ip\<lparr>i_lock := initsleeplock\<rparr>) s)"

definition iinit :: "u32 \<Rightarrow> 'a fsst_scheme \<Rightarrow> 'a fsst_scheme outcome" where
  "iinit dev s = obind (readsb dev (iinit_loop [0..<NINODE] s)) (\<lambda>(b, s). Ok (s\<lparr>sblk := b\<rparr>))"

text \<open>The search of \<open>iget\<close>: \<open>Inl i\<close> the cached entry, \<open>Inr e\<close> the first free entry if there is one.\<close>

fun iget_scan :: "u32 \<Rightarrow> u32 \<Rightarrow> nat \<Rightarrow> nat option \<Rightarrow> inode list \<Rightarrow> nat + nat option" where
  "iget_scan dev inum i e [] = Inr e"
| "iget_scan dev inum i e (ip # ips) =
     (if i_ref ip > 0 \<and> i_dev ip = dev \<and> i_inum ip = inum then Inl i
      else iget_scan dev inum (Suc i) (if e = None \<and> i_ref ip = 0 then Some i else e) ips)"

definition iget :: "u32 \<Rightarrow> u32 \<Rightarrow> 'a fsst_scheme \<Rightarrow> (nat \<times> 'a fsst_scheme) outcome" where
  "iget dev inum s =
     (case iget_scan dev inum 0 None (icache s) of
        Inl i \<Rightarrow> Ok (i, upd_inode i (\<lambda>ip. ip\<lparr>i_ref := i_ref ip + 1\<rparr>) s)
      | Inr None \<Rightarrow> Panic ''iget: no inodes''
      | Inr (Some i) \<Rightarrow> Ok (i, upd_inode i (\<lambda>ip. ip\<lparr>i_dev := dev, i_inum := inum, i_ref := 1, i_valid := False\<rparr>) s))"

definition idup :: "nat \<Rightarrow> 'a fsst_scheme \<Rightarrow> nat \<times> 'a fsst_scheme" where
  "idup i s = (i, upd_inode i (\<lambda>ip. ip\<lparr>i_ref := i_ref ip + 1\<rparr>) s)"

function ialloc_loop :: "int \<Rightarrow> u32 \<Rightarrow> int \<Rightarrow> int \<Rightarrow> 'a fsst_scheme \<Rightarrow> (nat \<times> 'a fsst_scheme) outcome" where
  "ialloc_loop n dev type inum s =
     (if inum < n then
        obind (bread dev (IBLOCK (to_uint inum) (sblk s)) s) (\<lambda>(i, s).
        let p = 64 * (nat inum mod 8) in
        if rd16 (b_data (bufs s ! i)) p = 0 then
          obind (log_write i (upd_data i (\<lambda>d. wr16 (blit d p (replicate 64 0)) p (word_of_int type)) s)) (\<lambda>s.
          obind (brelse i s) (\<lambda>s.
          iget dev (to_uint inum) s))
        else obind (brelse i s) (\<lambda>s. ialloc_loop n dev type (inum + 1) s))
      else Panic ''ialloc: no inodes'')"
  by pat_completeness auto

termination ialloc_loop
  by (relation "measure (\<lambda>(n, dev, type, inum, s). nat (n - inum))") auto

declare ialloc_loop.simps [simp del]

definition ialloc :: "u32 \<Rightarrow> int \<Rightarrow> 'a fsst_scheme \<Rightarrow> (nat \<times> 'a fsst_scheme) outcome" where
  "ialloc dev type s = ialloc_loop (uint (sb_ninodes (sblk s))) dev type 1 s"

definition iupdate :: "nat \<Rightarrow> 'a fsst_scheme \<Rightarrow> 'a fsst_scheme outcome" where
  "iupdate i s =
     (let ip = inode_of s i in
      obind (bread (i_dev ip) (IBLOCK (i_inum ip) (sblk s)) s) (\<lambda>(b, s).
      obind (log_write b (upd_data b (wr_dinode ip (64 * (unat (i_inum ip) mod 8))) s)) (\<lambda>s.
      brelse b s)))"

definition ilock :: "nat \<Rightarrow> 'a fsst_scheme \<Rightarrow> 'a fsst_scheme outcome" where
  "ilock i s =
     (if i_ref (inode_of s i) < 1 then Panic ''ilock''
      else
        obind (acquiresleep (cur_pid s) (i_lock (inode_of s i))) (\<lambda>lk.
        let s = upd_inode i (\<lambda>ip. ip\<lparr>i_lock := lk\<rparr>) s; ip = inode_of s i in
        if \<not> i_valid ip then
          obind (bread (i_dev ip) (IBLOCK (i_inum ip) (sblk s)) s) (\<lambda>(b, s).
          let d = b_data (bufs s ! b);
              s = upd_inode i (rd_dinode d (64 * (unat (i_inum ip) mod 8))) s
          in
          obind (brelse b s) (\<lambda>s.
          let s = upd_inode i (\<lambda>ip. ip\<lparr>i_valid := True\<rparr>) s in
          if i_type (inode_of s i) = 0 then Panic ''ilock: no type'' else Ok s))
        else Ok s))"

definition iunlock :: "nat \<Rightarrow> 'a fsst_scheme \<Rightarrow> 'a fsst_scheme outcome" where
  "iunlock i s =
     (let ip = inode_of s i in
      if \<not> holdingsleep (cur_pid s) (i_lock ip) \<or> i_ref ip < 1 then Panic ''iunlock''
      else Ok (upd_inode i (\<lambda>ip. ip\<lparr>i_lock := releasesleep (i_lock ip)\<rparr>) s))"

section \<open>The blocks of a file\<close>

definition bmap :: "nat \<Rightarrow> u32 \<Rightarrow> 'a fsst_scheme \<Rightarrow> (u32 \<times> 'a fsst_scheme) outcome" where
  "bmap i bn s =
     (let ip = inode_of s i in
      if unat bn < NDIRECT then
        let addr = i_addrs ip ! unat bn in
        if addr = 0 then
          obind (balloc (i_dev ip) s) (\<lambda>(addr, s).
          Ok (addr, upd_inode i (\<lambda>ip. ip\<lparr>i_addrs := (i_addrs ip)[unat bn := addr]\<rparr>) s))
        else Ok (addr, s)
      else
        let bn = bn - 12 in
        if unat bn < NINDIRECT then
          let addr = i_addrs ip ! NDIRECT in
          obind (if addr = 0 then
                   obind (balloc (i_dev ip) s) (\<lambda>(addr, s).
                   Ok (addr, upd_inode i (\<lambda>ip. ip\<lparr>i_addrs := (i_addrs ip)[NDIRECT := addr]\<rparr>) s))
                 else Ok (addr, s)) (\<lambda>(addr, s).
          obind (bread (i_dev ip) addr s) (\<lambda>(b, s).
          let addr = rd32 (b_data (bufs s ! b)) (4 * unat bn) in
          obind (if addr = 0 then
                   obind (balloc (i_dev ip) s) (\<lambda>(addr, s).
                   obind (log_write b (upd_data b (\<lambda>d. wr32 d (4 * unat bn) addr) s)) (\<lambda>s.
                   Ok (addr, s)))
                 else Ok (addr, s)) (\<lambda>(addr, s).
          obind (brelse b s) (\<lambda>s.
          Ok (addr, s)))))
        else Panic ''bmap: out of range'')"

fun itrunc_direct :: "nat list \<Rightarrow> nat \<Rightarrow> 'a fsst_scheme \<Rightarrow> 'a fsst_scheme outcome" where
  "itrunc_direct [] i s = Ok s"
| "itrunc_direct (k # ks) i s =
     (let ip = inode_of s i in
      if i_addrs ip ! k \<noteq> 0 then
        obind (bfree (i_dev ip) (i_addrs ip ! k) s) (\<lambda>s.
        itrunc_direct ks i (upd_inode i (\<lambda>ip. ip\<lparr>i_addrs := (i_addrs ip)[k := 0]\<rparr>) s))
      else itrunc_direct ks i s)"

fun itrunc_indirect :: "nat list \<Rightarrow> u32 \<Rightarrow> nat \<Rightarrow> 'a fsst_scheme \<Rightarrow> 'a fsst_scheme outcome" where
  "itrunc_indirect [] dev b s = Ok s"
| "itrunc_indirect (j # js) dev b s =
     (let a = rd32 (b_data (bufs s ! b)) (4 * j) in
      obind (if a \<noteq> 0 then bfree dev a s else Ok s) (\<lambda>s.
      itrunc_indirect js dev b s))"

definition itrunc :: "nat \<Rightarrow> 'a fsst_scheme \<Rightarrow> 'a fsst_scheme outcome" where
  "itrunc i s =
     obind (itrunc_direct [0..<NDIRECT] i s) (\<lambda>s.
     let ip = inode_of s i in
     obind (if i_addrs ip ! NDIRECT \<noteq> 0 then
              obind (bread (i_dev ip) (i_addrs ip ! NDIRECT) s) (\<lambda>(b, s).
              obind (itrunc_indirect [0..<NINDIRECT] (i_dev ip) b s) (\<lambda>s.
              obind (brelse b s) (\<lambda>s.
              obind (bfree (i_dev ip) (i_addrs ip ! NDIRECT) s) (\<lambda>s.
              Ok (upd_inode i (\<lambda>ip. ip\<lparr>i_addrs := (i_addrs ip)[NDIRECT := 0]\<rparr>) s)))))
            else Ok s) (\<lambda>s.
     iupdate i (upd_inode i (\<lambda>ip. ip\<lparr>i_size := 0\<rparr>) s)))"

definition iput :: "nat \<Rightarrow> 'a fsst_scheme \<Rightarrow> 'a fsst_scheme outcome" where
  "iput i s =
     obind (acquiresleep (cur_pid s) (i_lock (inode_of s i))) (\<lambda>lk.
     let s = upd_inode i (\<lambda>ip. ip\<lparr>i_lock := lk\<rparr>) s; ip = inode_of s i in
     obind (if i_valid ip \<and> i_nlink ip = 0 \<and> i_ref ip = 1 then
              obind (itrunc i s) (\<lambda>s.
              obind (iupdate i (upd_inode i (\<lambda>ip. ip\<lparr>i_type := 0\<rparr>) s)) (\<lambda>s.
              Ok (upd_inode i (\<lambda>ip. ip\<lparr>i_valid := False\<rparr>) s)))
            else Ok s) (\<lambda>s.
     Ok (upd_inode i (\<lambda>ip. ip\<lparr>i_lock := releasesleep (i_lock ip), i_ref := i_ref ip - 1\<rparr>) s)))"

definition iunlockput :: "nat \<Rightarrow> 'a fsst_scheme \<Rightarrow> 'a fsst_scheme outcome" where
  "iunlockput i s = obind (iunlock i s) (iput i)"

record fstat =
  st_type :: int
  st_dev :: int
  st_ino :: u32
  st_nlink :: int
  st_size :: u32

definition stati :: "nat \<Rightarrow> 'a fsst_scheme \<Rightarrow> fstat" where
  "stati i s =
     (let ip = inode_of s i in
      \<lparr>st_type = i_type ip, st_dev = to_int (i_dev ip), st_ino = i_inum ip, st_nlink = i_nlink ip, st_size = i_size ip\<rparr>)"

section \<open>Reading and writing\<close>

text \<open>The loops run while \<open>k\<close> bytes, respectively the bytes \<open>bs\<close>, are left.\<close>

function readi_loop :: "nat \<Rightarrow> u32 \<Rightarrow> nat \<Rightarrow> 'a fsst_scheme \<Rightarrow> (u8 list \<times> 'a fsst_scheme) outcome" where
  "readi_loop i off k s =
     (if k = 0 then Ok ([], s)
      else
        obind (bmap i (off div 512) s) (\<lambda>(addr, s).
        obind (bread (i_dev (inode_of s i)) addr s) (\<lambda>(b, s).
        let p = unat off mod BSIZE;
            m = min k (BSIZE - p);
            bs = take m (drop p (b_data (bufs s ! b)))
        in
        obind (brelse b s) (\<lambda>s.
        obind (readi_loop i (off + of_nat m) (k - m) s) (\<lambda>(cs, s).
        Ok (bs @ cs, s))))))"
  by pat_completeness auto

termination readi_loop
  by (relation "measure (\<lambda>(i, off, k, s). k)") (auto simp: min_def)

declare readi_loop.simps [simp del]

definition readi :: "'a fsst_scheme devsw \<Rightarrow> nat \<Rightarrow> u32 \<Rightarrow> u32 \<Rightarrow> 'a fsst_scheme \<Rightarrow> (int \<times> u8 list \<times> 'a fsst_scheme) outcome" where
  "readi dv i off n s =
     (let ip = inode_of s i in
      if i_type ip = T_DEV then
        case (if i_major ip < 0 \<or> i_major ip \<ge> NDEV then None else d_read dv (i_major ip)) of
          None \<Rightarrow> Ok (-1, [], s)
        | Some f \<Rightarrow> f i (to_int n) s
      else if off > i_size ip \<or> off + n < off then Ok (-1, [], s)
      else
        let n = (if off + n > i_size ip then i_size ip - off else n) in
        obind (readi_loop i off (unat n) s) (\<lambda>(bs, s).
        Ok (to_int n, bs, s)))"

function writei_loop :: "nat \<Rightarrow> u32 \<Rightarrow> u8 list \<Rightarrow> 'a fsst_scheme \<Rightarrow> 'a fsst_scheme outcome" where
  "writei_loop i off bs s =
     (if bs = [] then Ok s
      else
        obind (bmap i (off div 512) s) (\<lambda>(addr, s).
        obind (bread (i_dev (inode_of s i)) addr s) (\<lambda>(b, s).
        let p = unat off mod BSIZE;
            m = min (length bs) (BSIZE - p)
        in
        obind (log_write b (upd_data b (\<lambda>d. blit d p (take m bs)) s)) (\<lambda>s.
        obind (brelse b s) (\<lambda>s.
        writei_loop i (off + of_nat m) (drop m bs) s)))))"
  by pat_completeness auto

termination writei_loop
  by (relation "measure (\<lambda>(i, off, bs, s). length bs)") (auto simp: min_def)

declare writei_loop.simps [simp del]

definition writei :: "'a fsst_scheme devsw \<Rightarrow> nat \<Rightarrow> u8 list \<Rightarrow> u32 \<Rightarrow> 'a fsst_scheme \<Rightarrow> (int \<times> 'a fsst_scheme) outcome" where
  "writei dv i bs off s =
     (let ip = inode_of s i; n = of_nat (length bs) :: u32 in
      if i_type ip = T_DEV then
        case (if i_major ip < 0 \<or> i_major ip \<ge> NDEV then None else d_write dv (i_major ip)) of
          None \<Rightarrow> Ok (-1, s)
        | Some f \<Rightarrow> f i bs s
      else if off > i_size ip \<or> off + n < off then Ok (-1, s)
      else if unat (off + n) > MAXFILE * BSIZE then Ok (-1, s)
      else
        obind (writei_loop i off bs s) (\<lambda>s.
        obind (if n > 0 \<and> off + n > i_size (inode_of s i) then
                 iupdate i (upd_inode i (\<lambda>ip. ip\<lparr>i_size := off + n\<rparr>) s)
               else Ok s) (\<lambda>s.
        Ok (to_int n, s))))"

section \<open>Directories\<close>

text \<open>\<open>strncmp\<close> on C strings and on name fields, which end at a NUL or at 14 bytes.\<close>

definition cbyte :: "u8 list \<Rightarrow> nat \<Rightarrow> u8" where
  "cbyte s i = (if i < length s then s ! i else 0)"

fun name_strncmp :: "nat \<Rightarrow> nat \<Rightarrow> u8 list \<Rightarrow> u8 list \<Rightarrow> int" where
  "name_strncmp 0 i s t = 0"
| "name_strncmp (Suc n) i s t =
     (if cbyte s i \<noteq> 0 \<and> cbyte s i = cbyte t i then name_strncmp n (Suc i) s t
      else uint (cbyte s i) - uint (cbyte t i))"

definition namecmp :: "u8 list \<Rightarrow> u8 list \<Rightarrow> int" where
  "namecmp s t = name_strncmp DIRSIZ 0 s t"

text \<open>A directory entry of 16 bytes: the inode number and the name field.\<close>

definition de_inum :: "u8 list \<Rightarrow> u16" where
  "de_inum de = rd16 de 0"

definition de_name :: "u8 list \<Rightarrow> u8 list" where
  "de_name de = drop 2 de"

definition de_make :: "u16 \<Rightarrow> u8 list \<Rightarrow> u8 list" where
  "de_make inum name = [ucast inum, ucast (drop_bit 8 inum)] @ take DIRSIZ name @ replicate (DIRSIZ - length name) 0"

function dirlookup_loop :: "'a fsst_scheme devsw \<Rightarrow> nat \<Rightarrow> u8 list \<Rightarrow> nat \<Rightarrow> nat \<Rightarrow> 'a fsst_scheme \<Rightarrow>
    ((nat \<times> u32) option \<times> 'a fsst_scheme) outcome" where
  "dirlookup_loop dv dp name sz off s =
     (if off < sz then
        obind (readi dv dp (of_nat off) 16 s) (\<lambda>(r, de, s).
        if r \<noteq> 16 then Panic ''dirlookup read''
        else if de_inum de \<noteq> 0 \<and> namecmp name (de_name de) = 0 then
          obind (iget (i_dev (inode_of s dp)) (ucast (de_inum de)) s) (\<lambda>(ip, s).
          Ok (Some (ip, of_nat off), s))
        else dirlookup_loop dv dp name sz (off + 16) s)
      else Ok (None, s))"
  by pat_completeness auto

termination dirlookup_loop
  by (relation "measure (\<lambda>(dv, dp, name, sz, off, s). sz - off)") auto

declare dirlookup_loop.simps [simp del]

definition dirlookup :: "'a fsst_scheme devsw \<Rightarrow> nat \<Rightarrow> u8 list \<Rightarrow> 'a fsst_scheme \<Rightarrow> ((nat \<times> u32) option \<times> 'a fsst_scheme) outcome" where
  "dirlookup dv dp name s =
     (if i_type (inode_of s dp) \<noteq> T_DIR then Panic ''dirlookup not DIR''
      else dirlookup_loop dv dp name (unat (i_size (inode_of s dp))) 0 s)"

text \<open>The offset of the first empty entry, or the end of the directory.\<close>

function dirlink_loop :: "'a fsst_scheme devsw \<Rightarrow> nat \<Rightarrow> nat \<Rightarrow> nat \<Rightarrow> 'a fsst_scheme \<Rightarrow> (nat \<times> 'a fsst_scheme) outcome" where
  "dirlink_loop dv dp sz off s =
     (if off < sz then
        obind (readi dv dp (of_nat off) 16 s) (\<lambda>(r, de, s).
        if r \<noteq> 16 then Panic ''dirlink read''
        else if de_inum de = 0 then Ok (off, s)
        else dirlink_loop dv dp sz (off + 16) s)
      else Ok (off, s))"
  by pat_completeness auto

termination dirlink_loop
  by (relation "measure (\<lambda>(dv, dp, sz, off, s). sz - off)") auto

declare dirlink_loop.simps [simp del]

definition dirlink :: "'a fsst_scheme devsw \<Rightarrow> nat \<Rightarrow> u8 list \<Rightarrow> u32 \<Rightarrow> 'a fsst_scheme \<Rightarrow> (int \<times> 'a fsst_scheme) outcome" where
  "dirlink dv dp name inum s =
     obind (dirlookup dv dp name s) (\<lambda>(r, s).
     case r of
       Some (ip, _) \<Rightarrow> obind (iput ip s) (\<lambda>s. Ok (-1, s))
     | None \<Rightarrow>
         obind (dirlink_loop dv dp (unat (i_size (inode_of s dp))) 0 s) (\<lambda>(off, s).
         obind (writei dv dp (de_make (ucast inum) name) (of_nat off) s) (\<lambda>(r, s).
         if r \<noteq> 16 then Panic ''dirlink'' else Ok (0, s))))"

section \<open>Paths\<close>

abbreviation (input) slash :: u8 where "slash \<equiv> 47"

text \<open>The rest of the path and the name, which is the element cut at 14 bytes.\<close>

definition skipelem :: "u8 list \<Rightarrow> (u8 list \<times> u8 list) option" where
  "skipelem path =
     (let path = dropWhile (\<lambda>c. c = slash) path in
      if path = [] then None
      else
        let el = takeWhile (\<lambda>c. c \<noteq> slash) path;
            path = dropWhile (\<lambda>c. c \<noteq> slash) path
        in Some (dropWhile (\<lambda>c. c = slash) path, take DIRSIZ el))"

lemma skipelem_shorter:
  assumes "skipelem path = Some (rest, name)"
  shows "length rest < length path"
proof -
  let ?p = "dropWhile (\<lambda>c. c = slash) path"
  have p: "?p \<noteq> []" "rest = dropWhile (\<lambda>c. c = slash) (dropWhile (\<lambda>c. c \<noteq> slash) ?p)"
    using assms by (auto simp: skipelem_def Let_def split: if_splits)
  have "hd ?p \<noteq> slash" using hd_dropWhile [of "\<lambda>c. c = slash" path] p(1) by simp
  then have "length (dropWhile (\<lambda>c. c \<noteq> slash) ?p) < length ?p"
    using p(1) by (cases ?p) (auto simp: le_imp_less_Suc length_dropWhile_le)
  moreover have "length rest \<le> length (dropWhile (\<lambda>c. c \<noteq> slash) ?p)" unfolding p(2) by (rule length_dropWhile_le)
  moreover have "length ?p \<le> length path" by (rule length_dropWhile_le)
  ultimately show ?thesis by linarith
qed

text \<open>The loop of \<open>namex\<close>, and what it returns after the last element.\<close>

function namex_loop :: "'a fsst_scheme devsw \<Rightarrow> bool \<Rightarrow> u8 list \<Rightarrow> u8 list \<Rightarrow> nat \<Rightarrow> 'a fsst_scheme \<Rightarrow>
    ((nat \<times> u8 list) option \<times> 'a fsst_scheme) outcome" where
  "namex_loop dv par path name i s =
     (case skipelem path of
        None \<Rightarrow>
          if par then obind (iput i s) (\<lambda>s. Ok (None, s))
          else Ok (Some (i, name), s)
      | Some (path, name) \<Rightarrow>
          obind (ilock i s) (\<lambda>s.
          if i_type (inode_of s i) \<noteq> T_DIR then obind (iunlockput i s) (\<lambda>s. Ok (None, s))
          else if par \<and> path = [] then obind (iunlock i s) (\<lambda>s. Ok (Some (i, name), s))
          else
            obind (dirlookup dv i name s) (\<lambda>(r, s).
            case r of
              None \<Rightarrow> obind (iunlockput i s) (\<lambda>s. Ok (None, s))
            | Some (nxt, _) \<Rightarrow> obind (iunlockput i s) (\<lambda>s. namex_loop dv par path name nxt s))))"
  by pat_completeness auto

termination namex_loop
  by (relation "measure (\<lambda>(dv, par, path, name, i, s). length path)") (auto simp: skipelem_shorter)

declare namex_loop.simps [simp del]

definition namex :: "'a fsst_scheme devsw \<Rightarrow> u8 list \<Rightarrow> bool \<Rightarrow> 'a fsst_scheme \<Rightarrow> ((nat \<times> u8 list) option \<times> 'a fsst_scheme) outcome" where
  "namex dv path par s =
     (if path \<noteq> [] \<and> hd path = slash then
        obind (iget ROOTDEV ROOTINO s) (\<lambda>(i, s). namex_loop dv par path [] i s)
      else let (i, s) = idup (cur_cwd s) s in namex_loop dv par path [] i s)"

definition namei :: "'a fsst_scheme devsw \<Rightarrow> u8 list \<Rightarrow> 'a fsst_scheme \<Rightarrow> (nat option \<times> 'a fsst_scheme) outcome" where
  "namei dv path s = obind (namex dv path False s) (\<lambda>(r, s). Ok (map_option fst r, s))"

definition nameiparent :: "'a fsst_scheme devsw \<Rightarrow> u8 list \<Rightarrow> 'a fsst_scheme \<Rightarrow> ((nat \<times> u8 list) option \<times> 'a fsst_scheme) outcome" where
  "nameiparent dv path s = namex dv path True s"

end
