(* ===== verification/FsBlock.thy ===== *)
theory FsBlock
  imports Fs
begin

text \<open>
  The free map: what \<open>balloc\<close> and \<open>bfree\<close> do to the blocks of the disk, over the interface of a
  transaction. \<open>used\<close> is the free map as a predicate; \<open>fs_ok\<close> says that the layout of the superblock
  is sound and that the blocks of the log, of the inodes and of the free map itself are marked in it.
\<close>

section \<open>Bits of a block\<close>

lemma bit_used_iff: "bit_used d bi \<longleftrightarrow> bit (d ! (bi div 8)) (bi mod 8)"
  by (simp add: bit_used_def bit_iff_and_push_bit_not_eq_0)

lemma length_bit_mark [simp]: "length (bit_mark bi d) = length d" "length (bit_clear bi d) = length d"
  by (simp_all add: bit_mark_def bit_clear_def)

lemma bit_index: "bj = bi \<longleftrightarrow> bj div 8 = bi div 8 \<and> bj mod 8 = bi mod (8 :: nat)"
  by (metis div_mult_mod_eq)

lemma bit_mark_used: "bi div 8 < length d \<Longrightarrow> bit_used (bit_mark bi d) bj \<longleftrightarrow> bj = bi \<or> bit_used d bj"
  by (cases "bj div 8 = bi div 8") (auto simp: bit_used_iff bit_mark_def bit_simps bit_index [of bj bi])

lemma bit_clear_used: "bi div 8 < length d \<Longrightarrow> bit_used (bit_clear bi d) bj \<longleftrightarrow> bj \<noteq> bi \<and> bit_used d bj"
  by (cases "bj div 8 = bi div 8") (auto simp: bit_used_iff bit_clear_def bit_simps bit_index [of bj bi])

section \<open>The free map\<close>

abbreviation nblk :: "'a fsst_scheme \<Rightarrow> u32" where
  "nblk s \<equiv> sb_size (sblk s)"

definition used :: "'a fsst_scheme \<Rightarrow> u32 \<Rightarrow> bool" where
  "used s b \<longleftrightarrow> b < nblk s \<and> bit_used (view s (BBLOCK b (sblk s))) (unat b mod BPB)"

definition free_blocks :: "'a fsst_scheme \<Rightarrow> u32 set" where
  "free_blocks s = {b. b < nblk s \<and> \<not> used s b}"

definition bitmap_blocks :: "'a fsst_scheme \<Rightarrow> u32 set" where
  "bitmap_blocks s = {BBLOCK b (sblk s) |b. b < nblk s}"

definition inode_blocks :: "'a fsst_scheme \<Rightarrow> u32 set" where
  "inode_blocks s = {IBLOCK i (sblk s) |i. i < sb_ninodes (sblk s)}"

definition meta :: "'a fsst_scheme \<Rightarrow> u32 set" where
  "meta s = {0} \<union> bitmap_blocks s \<union> inode_blocks s \<union> log_area s"

definition fs_geom :: "'a fsst_scheme \<Rightarrow> bool" where
  "fs_geom s \<longleftrightarrow> nblk s \<le> disksize s \<and> bitmap_blocks s \<inter> log_area s = {} \<and> inode_blocks s \<inter> log_area s = {} \<and>
     bitmap_blocks s \<inter> inode_blocks s = {}"

definition fs_ok :: "'a fsst_scheme \<Rightarrow> bool" where
  "fs_ok s \<longleftrightarrow> log_in s \<and> fs_geom s \<and> (\<forall>b\<in>meta s. used s b)"

lemma only_log_fs:
  assumes "only_log s t"
  shows "sblk t = sblk s" "icache t = icache s" "cur_cwd t = cur_cwd s" "nblk t = nblk s" "meta t = meta s"
    "fs_geom t = fs_geom s" "bitmap_blocks t = bitmap_blocks s" "inode_blocks t = inode_blocks s" "home t = home s"
proof -
  show f: "sblk t = sblk s" "icache t = icache s" "cur_cwd t = cur_cwd s" using assms by (auto simp: only_log_def)
  then show g: "nblk t = nblk s" "bitmap_blocks t = bitmap_blocks s" "inode_blocks t = inode_blocks s"
    by (simp_all add: bitmap_blocks_def inode_blocks_def)
  then show "meta t = meta s" "fs_geom t = fs_geom s" "home t = home s"
    using only_log_area [OF assms] only_log_fields [OF assms] by (simp_all add: meta_def fs_geom_def home_def)
qed

lemma BBLOCK_inj: "BBLOCK b k = BBLOCK c k \<longleftrightarrow> b div 4096 = c div 4096"
  by (simp add: BBLOCK_def)

lemma used_view:
  assumes "sblk t = sblk s" "\<And>b. b < nblk s \<Longrightarrow> view t (BBLOCK b (sblk s)) = view s (BBLOCK b (sblk s))"
  shows "used t = used s"
  using assms by (auto simp: used_def fun_eq_iff)

lemma used_home: "fs_ok s \<Longrightarrow> b < nblk s \<Longrightarrow> \<not> used s b \<Longrightarrow> b \<in> home s"
  by (auto simp: fs_ok_def home_def meta_def fs_geom_def)

lemma bitmap_home:
  assumes "fs_ok s" "b < nblk s"
  shows "BBLOCK b (sblk s) \<in> home s" "BBLOCK b (sblk s) \<in> meta s" "BBLOCK b (sblk s) \<in> bitmap_blocks s"
proof -
  show m: "BBLOCK b (sblk s) \<in> bitmap_blocks s" "BBLOCK b (sblk s) \<in> meta s" using assms(2) by (auto simp: meta_def bitmap_blocks_def)
  then have "BBLOCK b (sblk s) < nblk s" using assms(1) by (auto simp: fs_ok_def used_def)
  then show "BBLOCK b (sblk s) \<in> home s" using assms(1) m(1) by (auto simp: fs_ok_def fs_geom_def home_def)
qed

lemma inode_home:
  assumes "fs_ok s" "i < sb_ninodes (sblk s)"
  shows "IBLOCK i (sblk s) \<in> home s" "IBLOCK i (sblk s) \<in> meta s" "IBLOCK i (sblk s) \<in> inode_blocks s" "IBLOCK i (sblk s) \<notin> bitmap_blocks s"
proof -
  show m: "IBLOCK i (sblk s) \<in> inode_blocks s" "IBLOCK i (sblk s) \<in> meta s" using assms(2) by (auto simp: meta_def inode_blocks_def)
  then have "IBLOCK i (sblk s) < nblk s" using assms(1) by (auto simp: fs_ok_def used_def)
  then show "IBLOCK i (sblk s) \<in> home s" "IBLOCK i (sblk s) \<notin> bitmap_blocks s"
    using assms(1) m(1) by (auto simp: fs_ok_def fs_geom_def home_def)
qed

text \<open>Marking and clearing one block in the free map.\<close>

lemma used_upd:
  assumes "fs_ok s" "b < nblk s" "sblk t = sblk s"
    and "\<And>c. c < nblk s \<Longrightarrow> view t (BBLOCK c (sblk s)) =
      (if BBLOCK c (sblk s) = BBLOCK b (sblk s) then f (view s (BBLOCK b (sblk s))) else view s (BBLOCK c (sblk s)))"
  shows "f = bit_mark (unat b mod BPB) \<Longrightarrow> used t c \<longleftrightarrow> used s c \<or> c = b"
    "f = bit_clear (unat b mod BPB) \<Longrightarrow> used t c \<longleftrightarrow> used s c \<and> c \<noteq> b"
proof -
  have l: "unat b mod BPB div 8 < length (view s (BBLOCK b (sblk s)))"
    using assms(1) by (simp add: fs_ok_def log_in_def view_length less_mult_imp_div_less)
  have e: "c = b \<longleftrightarrow> c div 4096 = b div 4096 \<and> unat c mod 4096 = unat b mod 4096"
  proof
    assume a: "c div 4096 = b div 4096 \<and> unat c mod 4096 = unat b mod 4096"
    have "unat (x div 4096) = unat x div 4096" for x :: u32 by (simp add: unat_div)
    then have "unat c div 4096 = unat b div 4096" using a by metis
    then have "unat c = unat b" using a by (metis div_mult_mod_eq)
    then show "c = b" by (rule unsigned_word_eqI)
  qed auto
  have e': "c = b \<longleftrightarrow> BBLOCK c (sblk s) = BBLOCK b (sblk s) \<and> unat c mod 4096 = unat b mod 4096" using e by (simp add: BBLOCK_inj)
  show "f = bit_mark (unat b mod BPB) \<Longrightarrow> used t c \<longleftrightarrow> used s c \<or> c = b"
    "f = bit_clear (unat b mod BPB) \<Longrightarrow> used t c \<longleftrightarrow> used s c \<and> c \<noteq> b"
    by (cases "BBLOCK c (sblk s) = BBLOCK b (sblk s)"; use assms(2-4) l e' in \<open>auto simp: used_def bit_mark_used bit_clear_used\<close>)+
qed

section \<open>The cost of an operation\<close>

text \<open>The number of blocks in the log, counting those of \<open>M\<close> as if they were there already.\<close>

definition lcost :: "u32 set \<Rightarrow> 'a fsst_scheme \<Rightarrow> nat" where
  "lcost M s = card (set (logged s) \<union> M)"

abbreviation lim :: "'a fsst_scheme \<Rightarrow> nat" where
  "lim s \<equiv> nat (log_size s - 1)"

lemma lcost_logged: "log_in s \<Longrightarrow> finite M \<Longrightarrow> length (logged s) \<le> lcost M s"
  unfolding lcost_def log_in_def log_lists_def by (metis card_mono distinct_card finite_Un List.finite_set Un_upper1)

lemma lcost_insert: "finite M \<Longrightarrow> set (logged t) \<subseteq> set (logged s) \<union> M \<union> X \<Longrightarrow> finite X \<Longrightarrow> lcost M t \<le> lcost M s + card X"
proof -
  assume a: "finite M" "set (logged t) \<subseteq> set (logged s) \<union> M \<union> X" "finite X"
  have "lcost M t \<le> card ((set (logged s) \<union> M) \<union> X)" unfolding lcost_def using a by (intro card_mono) auto
  also have "\<dots> \<le> lcost M s + card X" unfolding lcost_def by (rule card_Un_le)
  finally show ?thesis .
qed

lemma lim_frame: "only_log s t \<Longrightarrow> lim t = lim s" "only_log s t \<Longrightarrow> in_op t = in_op s"
  by (simp_all add: only_log_fields in_op_def)

lemma lim_le: "log_in s \<Longrightarrow> lim s \<le> 29"
  by (auto simp: log_in_def log_geom_def nat_le_iff)

text \<open>An operation may still log \<open>k\<close> blocks outside \<open>M\<close>, while at most two buffers are locked.\<close>

definition room :: "u32 set \<Rightarrow> nat \<Rightarrow> 'a fsst_scheme \<Rightarrow> bool" where
  "room M k s \<longleftrightarrow> in_op s \<and> finite M \<and> bitmap_blocks s \<subseteq> M \<and> lcost M s + k < lim s \<and> card (held s) \<le> 1"

lemma room_log:
  assumes "log_in s" "room M k s"
  shows "length (logged s) + k < lim s" "length (logged s) + card (held s) < 30" "length (logged s) < lim s" "in_op s"
  using lcost_logged [OF assms(1), of M] lim_le [OF assms(1)] assms(2) by (auto simp: room_def)

text \<open>What stays when blocks are changed through the transaction interface.\<close>

definition keeps :: "'a fsst_scheme \<Rightarrow> 'a fsst_scheme \<Rightarrow> bool" where
  "keeps s t \<longleftrightarrow> log_in t \<and> only_log s t \<and> held t = held s \<and> (\<forall>c. clean s c \<longrightarrow> clean t c) \<and> (\<forall>j c. has s j c \<longrightarrow> has t j c)"

lemma keeps_trans: "keeps s t \<Longrightarrow> keeps t u \<Longrightarrow> keeps s u"
  using only_log_trans by (auto simp: keeps_def)

lemma peek_block:
  assumes "log_in s" "b \<in> home s" "b \<notin> held s" "length (logged s) + card (held s) < 30"
  obtains i s1 t where "bread 1 b s = Ok (i, s1)" "b_data (bufs s1 ! i) = view s b" "brelse i s1 = Ok t" "only_log s s1" "keeps s t"
    "view t = view s" "logged t = logged s"
  using ts.peek [OF assms] by (auto simp: keeps_def)

lemma modify_block:
  assumes "log_in s" "b \<in> home s" "b \<notin> held s" "length (logged s) + card (held s) < 30" "length (logged s) < lim s"
    "length (f (view s b)) = 512" "in_op s"
  obtains i s1 s2 t where "bread 1 b s = Ok (i, s1)" "b_data (bufs s1 ! i) = view s b" "log_write i (upd_data i f s1) = Ok s2" "brelse i s2 = Ok t"
    "only_log s s1" "keeps s t" "view t = (view s)(b := f (view s b))" "set (logged t) = insert b (set (logged s))"
proof -
  obtain i s1 s2 t where m: "bread 1 b s = Ok (i, s1)" "b_data (bufs s1 ! i) = view s b" "log_write i (upd_data i f s1) = Ok s2" "brelse i s2 = Ok t"
      "log_in t" "view t = (view s)(b := f (view s b))" "held t = held s" "logged t = (if b \<in> set (logged s) then logged s else logged s @ [b])"
      "only_log s s1" "only_log s t" "\<forall>c. clean s c \<longrightarrow> clean t c" "\<forall>j c. has s j c \<longrightarrow> has t j c"
    using ts.modify [of s b f, OF assms] by blast
  have "set (logged t) = insert b (set (logged s))" using m(8) by auto
  moreover have "keeps s t" using m(5,7,10-12) by (simp add: keeps_def)
  ultimately show ?thesis using that m(1-4,6,9) by blast
qed

section \<open>Allocation\<close>

text \<open>Block \<open>c\<close> is marked and zeroed.\<close>

definition balloc_post :: "'a fsst_scheme \<Rightarrow> u32 \<Rightarrow> 'a fsst_scheme \<Rightarrow> bool" where
  "balloc_post s c t \<longleftrightarrow> c < nblk s \<and> \<not> used s c \<and> keeps s t \<and>
     view t = (view s)(BBLOCK c (sblk s) := bit_mark (unat c mod BPB) (view s (BBLOCK c (sblk s))), c := replicate 512 0) \<and>
     set (logged t) = insert c (insert (BBLOCK c (sblk s)) (set (logged s)))"

lemma find_upt:
  "find P [0..<n] = Some i \<Longrightarrow> i < n \<and> P i" "find P [0..<n] = None \<Longrightarrow> i < n \<Longrightarrow> \<not> P i"
  by (auto simp: find_Some_iff find_None_iff)

lemma balloc_loop_spec:
  assumes "fs_ok s" "room M 1 s" "held s \<inter> bitmap_blocks s = {}" "\<forall>c\<in>held s. used s c" "b = 4096 * int k"
    "\<forall>c<nblk s. uint c < b \<longrightarrow> used s c" "x \<in> free_blocks s"
  shows "\<exists>c t. balloc_loop (uint (nblk s)) 1 b s = Ok (c, t) \<and> balloc_post s c t"
  using assms
proof (induction "nat (uint (nblk s) - b)" arbitrary: b s k rule: less_induct)
  case less
  have li: "log_in s" using less.prems(1) by (simp add: fs_ok_def)
  note rm = room_log [OF li less.prems(2)]
  have x: "x < nblk s" "\<not> used s x" using less.prems(7) by (auto simp: free_blocks_def)
  have "b \<le> uint x" using less.prems(6) x by (metis linorder_not_le)
  then have b: "b < uint (nblk s)" "0 \<le> b" using x(1) less.prems(5) by (auto simp: word_less_def)
  define w where "w = (to_uint b :: u32)"
  have w: "uint w = b" "w < nblk s" using b uint_lt2p [of "nblk s"] by (simp_all add: w_def uint_to_uint word_less_def)
  let ?B = "BBLOCK w (sblk s)"
  let ?m = "min BPB (nat (uint (nblk s) - b))"
  have Bh: "?B \<in> home s" "?B \<notin> held s" "?B \<in> meta s" using bitmap_home [OF less.prems(1) w(2)] less.prems(3) by auto
  have cell: "c < nblk s \<and> BBLOCK c (sblk s) = ?B \<and> unat c mod 4096 = bi \<and> uint c = b + int bi \<and> c = to_uint (b + int bi)"
    if "bi < ?m" "c = w + of_nat bi" for bi c
  proof -
    have u: "uint c = b + int bi" "uint c < uint (nblk s)"
      using that b w uint_lt2p [of "nblk s"] unfolding that(2) by (auto simp: uint_word_ariths unsigned_of_nat take_bit_eq_mod mod_pos_pos_trivial nat_less_iff)
    have "uint (c div 4096) = int k" using u(1) less.prems(5) that(1) by (simp add: uint_div_distrib)
    moreover have "uint (w div 4096) = int k" using w(1) less.prems(5) by (simp add: uint_div_distrib)
    ultimately have "c div 4096 = w div 4096" by (metis word_uint_eq_iff)
    moreover have "int (unat c mod 4096) = int bi" using u(1) less.prems(5) that(1) by (simp add: zmod_int)
    moreover have "c = to_uint (b + int bi)" unfolding u(1) [symmetric] by (simp add: to_uint_def)
    ultimately show ?thesis using u by (simp add: BBLOCK_inj word_less_def)
  qed
  obtain i s1 t where p: "bread 1 ?B s = Ok (i, s1)" "b_data (bufs s1 ! i) = view s ?B" "brelse i s1 = Ok t" "only_log s s1" "keeps s t"
      "view t = view s" "logged t = logged s"
    by (rule peek_block [OF li Bh(1,2) rm(2)])
  have free: "\<not> bit_used (view s ?B) bi \<longleftrightarrow> \<not> used s (w + of_nat bi)" if "bi < ?m" for bi
    using cell [OF that refl] by (auto simp: used_def)
  note unf = balloc_loop.simps [of "uint (nblk s)" 1 b s, folded w_def]
  show ?case
  proof (cases "find (\<lambda>bi. \<not> bit_used (view s ?B) bi) [0..<?m]")
    case None
    have ot: "only_log s t" "held t = held s" "log_in t" using p(5) by (auto simp: keeps_def)
    note f = only_log_fs [OF ot(1)]
    have ut: "used t = used s" by (rule used_view) (simp_all add: f p(6))
    have "fs_ok t" using less.prems(1) ot f ut by (simp add: fs_ok_def)
    moreover have "room M 1 t" using less.prems(2) f ot lim_frame [OF ot(1)] p(7) by (simp add: room_def lcost_def)
    moreover have "used t c" if "c < nblk t" "uint c < b + 4096" for c
    proof (cases "uint c < b")
      case False
      define bi where "bi = nat (uint c - b)"
      have "bi < ?m" using False that f(4) by (auto simp: bi_def word_less_def)
      moreover have "int bi = uint c - uint w" using False w(1) by (simp add: bi_def)
      then have "(of_int (int bi) :: u32) = c - w" by simp
      then have "c = w + of_nat bi" by simp
      ultimately have bi: "bi < ?m" "c = w + of_nat bi" .
      then show ?thesis using find_upt(2) [OF None bi(1)] free [OF bi(1)] ut by simp
    qed (use less.prems(6) that f ut in auto)
    ultimately have "\<exists>c u. balloc_loop (uint (nblk t)) 1 (b + 4096) t = Ok (c, u) \<and> balloc_post t c u"
      using b less.prems(3,4,5,7) ut f ot(2)
      by (intro less.hyps [of t "b + 4096" "Suc k"]) (auto simp: free_blocks_def)
    moreover have "balloc_post s c u" if "balloc_post t c u" for c u
      using that p(5,6,7) f ut keeps_trans by (auto simp: balloc_post_def)
    ultimately show ?thesis using unf b p(1-3) None f(4) by auto
  next
    case (Some bi)
    define c where "c = w + of_nat bi"
    have bi: "bi < ?m" "\<not> used s c" using find_upt(1) [OF Some] free by (auto simp: c_def)
    have c: "c < nblk s" "BBLOCK c (sblk s) = ?B" "unat c mod 4096 = bi" and cc: "c = to_uint (b + int bi)"
      using cell [OF bi(1) c_def] by blast+
    note cu = cc [symmetric]
    have len: "length (bit_mark bi (view s ?B)) = 512" using li by (simp add: log_in_def view_length)
    obtain s2 t where q: "log_write i (upd_data i (bit_mark bi) s1) = Ok s2" "brelse i s2 = Ok t" "keeps s t"
        "view t = (view s)(?B := bit_mark bi (view s ?B))" "set (logged t) = insert ?B (set (logged s))"
      by (rule modify_block [of s ?B "bit_mark bi", OF li Bh(1,2) rm(2,3) len rm(4)]) (use p(1) in auto)
    have ot: "only_log s t" "held t = held s" "log_in t" using q(3) by (auto simp: keeps_def)
    have fin: "finite M" "?B \<in> M" "in_op s" "lcost M s + 1 < lim s" "card (held s) \<le> 1"
      using less.prems(2) bitmap_home(3) [OF less.prems(1) w(2)] by (auto simp: room_def)
    have "lcost M t \<le> lcost M s" using lcost_insert [OF fin(1), of t s "{}"] q(5) fin(2) by auto
    then have lt: "length (logged t) < lim t" "length (logged t) + card (held t) < 30"
      using lcost_logged [OF ot(3) fin(1)] fin(4,5) lim_frame [OF ot(1)] lim_le [OF li] ot(2) by auto
    have ch: "c \<in> home t" "c \<notin> held t" "c \<noteq> ?B"
      using used_home [OF less.prems(1) _ bi(2)] c only_log_fs [OF ot(1)] ot(2) less.prems(1,4) bi(2) Bh(3) by (auto simp: fs_ok_def)
    obtain j s3 s4 u where z: "bread 1 c t = Ok (j, s3)" "log_write j (upd_data j (\<lambda>d. replicate 512 0) s3) = Ok s4" "brelse j s4 = Ok u"
        "keeps t u" "view u = (view t)(c := replicate 512 0)" "set (logged u) = insert c (set (logged t))"
      by (rule modify_block [of t c "\<lambda>d. replicate 512 0", OF ot(3) ch(1,2) lt(2,1)]) (use fin(3) lim_frame [OF ot(1)] in auto)
    have "bzero 1 (b + int bi) t = Ok u" using z(1-3) cu by (simp add: bzero_def)
    then have "balloc_loop (uint (nblk s)) 1 b s = Ok (c, u)" using unf b p(1,2) Some q(1,2) cu by simp
    moreover have "balloc_post s c u"
      using c bi(2) keeps_trans [OF q(3) z(4)] q(4,5) z(5,6) by (simp add: balloc_post_def)
    ultimately show ?thesis by blast
  qed
qed

lemma balloc_effect:
  assumes "fs_ok s" "balloc_post s c t"
  shows "fs_ok t" "\<And>b. used t b \<longleftrightarrow> used s b \<or> b = c" "free_blocks t = free_blocks s - {c}" "c \<in> free_blocks s" "c \<noteq> 0"
    "\<And>b. b \<noteq> c \<Longrightarrow> b \<notin> bitmap_blocks s \<Longrightarrow> view t b = view s b" "view t c = replicate 512 0"
proof -
  have p: "c < nblk s" "\<not> used s c" "keeps s t"
      "view t = (view s)(BBLOCK c (sblk s) := bit_mark (unat c mod BPB) (view s (BBLOCK c (sblk s))), c := replicate 512 0)"
    using assms(2) by (auto simp: balloc_post_def)
  have ot: "only_log s t" "log_in t" using p(3) by (auto simp: keeps_def)
  note f = only_log_fs [OF ot(1)]
  have nm: "c \<notin> meta s" using assms(1) p(2) by (auto simp: fs_ok_def)
  have "BBLOCK b (sblk s) \<noteq> c" if "b < nblk s" for b using bitmap_home(2) [OF assms(1) that] nm by auto
  then have "view t (BBLOCK b (sblk s)) = (if BBLOCK b (sblk s) = BBLOCK c (sblk s) then bit_mark (unat c mod BPB) (view s (BBLOCK c (sblk s)))
      else view s (BBLOCK b (sblk s)))" if "b < nblk s" for b using that p(4) by simp
  then show u: "used t b \<longleftrightarrow> used s b \<or> b = c" for b by (rule used_upd(1) [OF assms(1) p(1) f(1) _ refl])
  then show "fs_ok t" using assms(1) f ot by (auto simp: fs_ok_def)
  show "free_blocks t = free_blocks s - {c}" "c \<in> free_blocks s" using u f(4) p by (auto simp: free_blocks_def)
  show "c \<noteq> 0" using nm by (auto simp: meta_def)
  show "view t b = view s b" if "b \<noteq> c" "b \<notin> bitmap_blocks s" for b
    using that p(4) bitmap_home(3) [OF assms(1) p(1)] by auto
  show "view t c = replicate 512 0" using p(4) by simp
qed

lemma balloc_spec:
  assumes "fs_ok s" "room M 1 s" "held s \<inter> bitmap_blocks s = {}" "\<forall>c\<in>held s. used s c" "free_blocks s \<noteq> {}"
  obtains c t where "balloc 1 s = Ok (c, t)" "balloc_post s c t"
proof -
  obtain x where "x \<in> free_blocks s" using assms(5) by auto
  then show ?thesis using balloc_loop_spec [OF assms(1-4), of 0 0 x] that by (auto simp: balloc_def)
qed

lemma bfree_spec:
  assumes "fs_ok s" "used s b" "b \<notin> meta s" "length (logged s) + card (held s) < 30" "length (logged s) < lim s" "in_op s"
    "held s \<inter> bitmap_blocks s = {}"
  obtains t where "bfree 1 b s = Ok t" "fs_ok t" "keeps s t" "\<And>c. used t c \<longleftrightarrow> used s c \<and> c \<noteq> b"
    "view t = (view s)(BBLOCK b (sblk s) := bit_clear (unat b mod BPB) (view s (BBLOCK b (sblk s))))"
    "set (logged t) = insert (BBLOCK b (sblk s)) (set (logged s))"
proof -
  let ?B = "BBLOCK b (sblk s)"
  have li: "log_in s" and b: "b < nblk s" using assms(1,2) by (auto simp: fs_ok_def used_def)
  have B: "?B \<in> home s" "?B \<notin> held s" using bitmap_home [OF assms(1) b] assms(7) by auto
  have len: "length (bit_clear (unat b mod BPB) (view s ?B)) = 512" using li by (simp add: log_in_def view_length)
  obtain i s1 s2 t where q: "bread 1 ?B s = Ok (i, s1)" "b_data (bufs s1 ! i) = view s ?B"
      "log_write i (upd_data i (bit_clear (unat b mod BPB)) s1) = Ok s2" "brelse i s2 = Ok t" "keeps s t"
      "view t = (view s)(?B := bit_clear (unat b mod BPB) (view s ?B))" "set (logged t) = insert ?B (set (logged s))"
    by (rule modify_block [of s ?B "bit_clear (unat b mod BPB)", OF li B assms(4,5) len assms(6)]) blast
  have ot: "only_log s t" "log_in t" using q(5) by (auto simp: keeps_def)
  note f = only_log_fs [OF ot(1)]
  have u: "used t c \<longleftrightarrow> used s c \<and> c \<noteq> b" for c
    by (rule used_upd(2) [OF assms(1) b f(1) _ refl]) (simp add: q(6))
  have "fs_ok t" using assms(1,3) f ot u by (auto simp: fs_ok_def)
  moreover have "bfree 1 b s = Ok t" using q(1-4) assms(2) by (simp add: bfree_def Let_def used_def)
  ultimately show ?thesis using that u q(5-7) by blast
qed

end
