(* ===== verification/FsMap.thy ===== *)
theory FsMap
  imports FsBlock
begin

text \<open>
  The blocks of a file: \<open>bmap\<close> gives the block of a page of the file, and adds one, zeroed, where the file
  has none. \<open>fblk\<close> is the block number that the inode and its indirect block hold.
\<close>

section \<open>Inodes and the block layer\<close>

lemma upd_inode_same [simp]:
  "bufs (upd_inode i f s) = bufs s" "disk (upd_inode i f s) = disk s" "written (upd_inode i f s) = written s"
  "view (upd_inode i f s) = view s" "held (upd_inode i f s) = held s" "dirty (upd_inode i f s) = dirty s"
  "has (upd_inode i f s) = has s" "log_in (upd_inode i f s) = log_in s" "logged (upd_inode i f s) = logged s"
  "in_op (upd_inode i f s) = in_op s" "log_size (upd_inode i f s) = log_size s" "sblk (upd_inode i f s) = sblk s"
  "home (upd_inode i f s) = home s" "log_area (upd_inode i f s) = log_area s" "disksize (upd_inode i f s) = disksize s"
  "length (icache (upd_inode i f s)) = length (icache s)" "clean (upd_inode i f s) = clean s" "cur_pid (upd_inode i f s) = cur_pid s"
proof -
  let ?t = "upd_inode i f s"
  show b: "bufs ?t = bufs s" "disk ?t = disk s" "written ?t = written s" "disksize ?t = disksize s" "cur_pid ?t = cur_pid s"
    "log_size ?t = log_size s" "sblk ?t = sblk s" "length (icache ?t) = length (icache s)"
    by (simp_all add: upd_inode_def)
  note v = same_blk [of ?t s, OF b(1,2,4,5)]
  show "view ?t = view s" "held ?t = held s" "dirty ?t = dirty s" "has ?t = has s" by (rule v)+
  show l: "logged ?t = logged s" "in_op ?t = in_op s" by (simp_all add: logged_def in_op_def upd_inode_def)
  show a: "log_area ?t = log_area s" by (simp add: log_area_def lblk_def [abs_def] upd_inode_def)
  have g: "log_geom ?t = log_geom s" "log_lists ?t = log_lists s"
    using a l b by (simp_all add: log_geom_def log_lists_def) (simp_all add: upd_inode_def)
  show "log_in ?t = log_in s" using v l g by (simp add: log_in_def)
  show "home ?t = home s" using a b by (simp add: home_def)
  show "clean ?t = clean s" using v b by (simp add: clean_def [abs_def])
qed

lemma upd_inode_fs [simp]:
  "used (upd_inode i f s) = used s" "free_blocks (upd_inode i f s) = free_blocks s" "bitmap_blocks (upd_inode i f s) = bitmap_blocks s"
  "inode_blocks (upd_inode i f s) = inode_blocks s" "meta (upd_inode i f s) = meta s" "fs_ok (upd_inode i f s) = fs_ok s"
  "lcost M (upd_inode i f s) = lcost M s" "room M k (upd_inode i f s) = room M k s"
proof -
  let ?t = "upd_inode i f s"
  show u: "used ?t = used s" by (simp add: used_def [abs_def])
  show b: "bitmap_blocks ?t = bitmap_blocks s" "inode_blocks ?t = inode_blocks s" by (simp_all add: bitmap_blocks_def inode_blocks_def)
  show m: "meta ?t = meta s" using b by (simp add: meta_def)
  show "free_blocks ?t = free_blocks s" using u by (simp add: free_blocks_def)
  show "fs_ok ?t = fs_ok s" using u b m by (simp add: fs_ok_def fs_geom_def)
  show "lcost M ?t = lcost M s" by (simp add: lcost_def)
  then show "room M k ?t = room M k s" using b by (simp add: room_def)
qed

lemma upd_inode_nth:
  "i < length (icache s) \<Longrightarrow> inode_of (upd_inode i f s) j = (if j = i then f (inode_of s i) else inode_of s j)"
  by (simp add: upd_inode_def)

section \<open>The block map\<close>

definition iblk :: "'a fsst_scheme \<Rightarrow> nat \<Rightarrow> u32" where
  "iblk s i = i_addrs (inode_of s i) ! NDIRECT"

definition fblk :: "'a fsst_scheme \<Rightarrow> nat \<Rightarrow> nat \<Rightarrow> u32" where
  "fblk s i k =
     (if k < NDIRECT then i_addrs (inode_of s i) ! k
      else if iblk s i = 0 then 0
      else rd32 (view s (iblk s i)) (4 * (k - NDIRECT)))"

definition file_ok :: "'a fsst_scheme \<Rightarrow> nat \<Rightarrow> bool" where
  "file_ok s i \<longleftrightarrow> i < length (icache s) \<and> i_dev (inode_of s i) = 1 \<and> i_inum (inode_of s i) < sb_ninodes (sblk s) \<and>
     length (i_addrs (inode_of s i)) = NDIRECT + 1 \<and>
     (iblk s i \<noteq> 0 \<longrightarrow> used s (iblk s i) \<and> iblk s i \<notin> meta s) \<and>
     (\<forall>k<MAXFILE. fblk s i k \<noteq> 0 \<longrightarrow> used s (fblk s i k) \<and> fblk s i k \<notin> meta s \<and> fblk s i k \<noteq> iblk s i) \<and>
     (\<forall>k<MAXFILE. \<forall>l<MAXFILE. fblk s i k \<noteq> 0 \<longrightarrow> fblk s i k = fblk s i l \<longrightarrow> k = l)"

lemma file_okD:
  assumes "file_ok s i"
  shows "i < length (icache s)" "i_dev (inode_of s i) = 1" "i_inum (inode_of s i) < sb_ninodes (sblk s)"
    "length (i_addrs (inode_of s i)) = 13" "iblk s i \<noteq> 0 \<Longrightarrow> used s (iblk s i)" "iblk s i \<noteq> 0 \<Longrightarrow> iblk s i \<notin> meta s"
    "k < MAXFILE \<Longrightarrow> fblk s i k \<noteq> 0 \<Longrightarrow> used s (fblk s i k)" "k < MAXFILE \<Longrightarrow> fblk s i k \<noteq> 0 \<Longrightarrow> fblk s i k \<notin> meta s"
    "k < MAXFILE \<Longrightarrow> fblk s i k \<noteq> 0 \<Longrightarrow> fblk s i k \<noteq> iblk s i"
    "k < MAXFILE \<Longrightarrow> l < MAXFILE \<Longrightarrow> fblk s i k \<noteq> 0 \<Longrightarrow> fblk s i k = fblk s i l \<Longrightarrow> k = l"
  using assms by (auto simp: file_ok_def)

lemma data_home: "fs_ok s \<Longrightarrow> used s b \<Longrightarrow> b \<notin> meta s \<Longrightarrow> b \<in> home s"
  by (auto simp: fs_ok_def home_def meta_def fs_geom_def used_def)

lemma keeps_refl: "log_in s \<Longrightarrow> keeps s s"
  by (simp add: keeps_def)

text \<open>A page that the file has.\<close>

lemma bmap_mapped:
  assumes "fs_ok s" "file_ok s i" "k < MAXFILE" "fblk s i k \<noteq> 0" "held s = {}" "length (logged s) < 30"
  obtains t where "bmap i (of_nat k) s = Ok (fblk s i k, t)" "keeps s t" "view t = view s" "logged t = logged s"
proof (cases "k < NDIRECT")
  case True
  then have "bmap i (of_nat k) s = Ok (fblk s i k, s)" using assms(4) by (simp add: bmap_def Let_def fblk_def unsigned_of_nat take_bit_eq_mod)
  then show ?thesis using that keeps_refl assms(1) by (auto simp: fs_ok_def)
next
  case False
  have li: "log_in s" using assms(1) by (simp add: fs_ok_def)
  have x: "iblk s i \<noteq> 0" using assms(4) False by (auto simp: fblk_def)
  note f = file_okD [OF assms(2)]
  obtain b s1 t where p: "bread 1 (iblk s i) s = Ok (b, s1)" "b_data (bufs s1 ! b) = view s (iblk s i)" "brelse b s1 = Ok t" "keeps s t"
      "view t = view s" "logged t = logged s"
    by (rule peek_block [OF li data_home [OF assms(1) f(5,6) [OF x]]]) (use x assms(5,6) in auto)
  have u: "unat (of_nat k - 12 :: u32) = k - 12" "\<not> unat (of_nat k :: u32) < 12" "k - 12 < 128"
    using False assms(3) by (simp_all add: unat_sub_if_size unsigned_of_nat take_bit_eq_mod word_size)
  have "bmap i (of_nat k) s = Ok (fblk s i k, t)"
    using p(1-3) x u False assms(4) f(2) by (simp add: bmap_def Let_def fblk_def iblk_def)
  then show ?thesis using that p(4-6) by blast
qed

section \<open>A new page\<close>

text \<open>The state \<open>t\<close> after adding block \<open>c\<close> to an allocated indirect block \<open>x\<close>, at offset \<open>p\<close>.\<close>

lemma grow_indirect:
  assumes "fs_ok s" "room M 1 s" "held s = {}" "used s x" "x \<notin> meta s" "free_blocks s \<noteq> {}" "p + 3 < 512"
  obtains b s1 c s2 s3 t where "bread 1 x s = Ok (b, s1)" "b_data (bufs s1 ! b) = view s x" "balloc 1 s1 = Ok (c, s2)"
    "log_write b (upd_data b (\<lambda>d. wr32 d p c) s2) = Ok s3" "brelse b s3 = Ok t" "only_log s t" "only_log s s2" "held t = {}" "fs_ok t"
    "c \<in> free_blocks s" "\<And>y. used t y \<longleftrightarrow> used s y \<or> y = c" "view t x = wr32 (view s x) p c" "view t c = replicate 512 0"
    "\<And>y. y \<noteq> c \<Longrightarrow> y \<noteq> x \<Longrightarrow> y \<notin> bitmap_blocks s \<Longrightarrow> view t y = view s y"
    "set (logged t) = insert x (insert c (insert (BBLOCK c (sblk s)) (set (logged s))))" "c \<noteq> x"
proof -
  have li: "log_in s" using assms(1) by (simp add: fs_ok_def)
  note rm = room_log [OF li assms(2)]
  have xh: "x \<in> home s" by (rule data_home [OF assms(1,4,5)])
  obtain b s1 where r: "bread 1 x s = Ok (b, s1)" "log_in s1" "has s1 b x" "view s1 = view s" "held s1 = {x}" "logged s1 = logged s" "only_log s s1" "clean s1 x"
    using ts.tread [OF li xh] rm(2) assms(3) by auto
  have d: "b_data (bufs s1 ! b) = view s x" using ts.tdata [OF r(2,3)] r(4) by simp
  note f1 = only_log_fs [OF r(7)]
  have u1: "used s1 = used s" by (rule used_view) (simp_all add: f1 r(4))
  have ok1: "fs_ok s1" using assms(1) f1 u1 r(2) by (simp add: fs_ok_def)
  have rm1: "room M 1 s1" using assms(2) f1 r(5,6) lim_frame [OF r(7)] by (simp add: room_def lcost_def)
  have xb: "x \<notin> bitmap_blocks s" using assms(5) by (auto simp: meta_def)
  have fr: "free_blocks s1 = free_blocks s" by (simp add: free_blocks_def u1 f1)
  obtain c s2 where c: "balloc 1 s1 = Ok (c, s2)" "balloc_post s1 c s2"
    by (rule balloc_spec [OF ok1 rm1]) (use r(5) f1 xb u1 assms(4,6) fr in auto)
  note e = balloc_effect [OF ok1 c(2)]
  have k: "keeps s1 s2" "set (logged s2) = insert c (insert (BBLOCK c (sblk s)) (set (logged s)))"
    using c(2) f1 r(6) by (auto simp: balloc_post_def)
  have o2: "only_log s1 s2" "log_in s2" "held s2 = {x}" "has s2 b x" "clean s2 x" using k(1) r(3,5,8) by (auto simp: keeps_def)
  have os2: "only_log s s2" by (rule only_log_trans [OF r(7) o2(1)])
  note f2 = only_log_fs [OF os2]
  have cx: "c \<noteq> x" using e(4) u1 assms(4) by (auto simp: free_blocks_def)
  let ?f = "\<lambda>d. wr32 d p c"
  have len: "length (?f (view s2 x)) = 512" using o2(2) by (simp add: log_in_def view_length)
  note g = ts.tchange [of s2 b x ?f, OF o2(2,4) len]
  let ?u = "upd_data b ?f s2"
  have g': "log_in ?u" "view ?u = (view s2)(x := ?f (view s2 x))" "held ?u = {x}" "logged ?u = logged s2" "only_log s2 ?u" "has ?u b x"
    using g o2 by auto
  have ou: "only_log s ?u" by (rule only_log_trans [OF os2 g'(5)])
  have fM: "finite M" "BBLOCK c (sblk s) \<in> M" "lcost M s + 1 < lim s" "in_op s"
    using assms(2) c(2) f1 bitmap_home(3) [OF ok1, of c] by (auto simp: room_def balloc_post_def)
  have "lcost M s2 \<le> lcost M s + 1" using lcost_insert [OF fM(1), of s2 s "{c}"] k(2) fM(2) by auto
  then have lt: "length (logged ?u) < lim ?u" using lcost_logged [OF o2(2) fM(1)] fM(3) lim_frame [OF ou] g'(4) by simp
  have xu: "x \<in> home ?u" "in_op ?u" using xh only_log_fs [OF ou] lim_frame [OF ou] fM(4) by simp_all
  obtain s3 where w: "log_write b ?u = Ok s3" "log_in s3" "view s3 = view ?u" "held s3 = {x}" "only_log ?u s3" "clean s3 x" "has s3 b x"
      "set (logged s3) = insert x (set (logged s2))"
    using ts.trecord [OF g'(1,6) xu(1) lt xu(2)] g'(3,4,6) by (auto simp: insert_absorb)
  obtain t where t: "brelse b s3 = Ok t" "log_in t" "view t = view s3" "held t = {}" "logged t = logged s3" "only_log s3 t"
    using ts.trelease [OF w(2,7,6)] w(4) by auto
  have ot: "only_log s t" by (rule only_log_trans [OF ou only_log_trans [OF w(5) t(6)]])
  note ft = only_log_fs [OF ot]
  have v2: "view s2 x = view s x" using e(6) [of x] cx xb f1 r(4) by simp
  have vt: "view t = (view s2)(x := ?f (view s x))" using t(3) w(3) g'(2) v2 by simp
  have "used t = used s2" by (rule used_view) (use vt ft f2 xb in \<open>auto simp: bitmap_blocks_def\<close>)
  then have ut: "used t y \<longleftrightarrow> used s y \<or> y = c" for y using e(2) u1 by simp
  have "fs_ok t" using assms(1) ft t(2) ut by (auto simp: fs_ok_def)
  moreover have "view t y = view s y" if "y \<noteq> c" "y \<noteq> x" "y \<notin> bitmap_blocks s" for y using vt e(6) [of y] that f1 r(4) by simp
  moreover have "view t x = wr32 (view s x) p c" "view t c = replicate 512 0" using vt cx e(7) by simp_all
  moreover have "set (logged t) = insert x (insert c (insert (BBLOCK c (sblk s)) (set (logged s))))" using t(5) w(8) k(2) by simp
  moreover have "c \<in> free_blocks s" using e(4) fr by simp
  ultimately show ?thesis using that r(1) d c(1) w(1) t(1,4) ot os2 ut cx by blast
qed

text \<open>Page \<open>k\<close> of file \<open>i\<close> gets the new block \<open>a\<close>; the file may also get an indirect block.\<close>

definition grown :: "'a fsst_scheme \<Rightarrow> nat \<Rightarrow> nat \<Rightarrow> u32 \<Rightarrow> 'a fsst_scheme \<Rightarrow> bool" where
  "grown s i k a t \<longleftrightarrow> fs_ok t \<and> file_ok t i \<and> held t = {} \<and> a \<in> free_blocks s \<and> fblk t i k = a \<and>
     (\<forall>l<MAXFILE. l \<noteq> k \<longrightarrow> fblk t i l = fblk s i l) \<and> view t a = replicate 512 0 \<and>
     (\<forall>b. b \<notin> free_blocks s \<longrightarrow> b \<notin> bitmap_blocks s \<longrightarrow> b \<noteq> iblk s i \<or> b = 0 \<longrightarrow> view t b = view s b) \<and>
     (\<forall>b. used s b \<longrightarrow> used t b) \<and> (iblk s i \<noteq> 0 \<longrightarrow> iblk t i = iblk s i) \<and> (iblk t i \<noteq> iblk s i \<longrightarrow> iblk t i \<in> free_blocks s) \<and>
     free_blocks t \<subseteq> free_blocks s \<and> card (free_blocks s) \<le> card (free_blocks t) + (if iblk t i = iblk s i then 1 else 2) \<and>
     (\<exists>as. only_log (upd_inode i (\<lambda>ip. ip\<lparr>i_addrs := as\<rparr>) s) t) \<and> a \<in> set (logged t) \<and>
     set (logged t) \<subseteq> set (logged s) \<union> bitmap_blocks s \<union> insert a ({iblk t i} - {0})"

lemma file_ok_grow:
  assumes "file_ok s i" "k < MAXFILE" "length (icache t) = length (icache s)" "i_dev (inode_of t i) = 1"
    "i_inum (inode_of t i) = i_inum (inode_of s i)" "length (i_addrs (inode_of t i)) = 13" "sblk t = sblk s" "meta t = meta s"
    "\<And>b. used s b \<Longrightarrow> used t b" "used t a" "\<not> used s a" "a \<notin> meta s" "fblk t i k = a" "\<And>l. l < MAXFILE \<Longrightarrow> l \<noteq> k \<Longrightarrow> fblk t i l = fblk s i l"
    "iblk t i = iblk s i \<or> (\<not> used s (iblk t i) \<and> used t (iblk t i) \<and> iblk t i \<notin> meta s)" "iblk t i \<noteq> a"
  shows "file_ok t i"
proof -
  note f = file_okD [OF assms(1)]
  have ne: "fblk s i l \<noteq> a" if "l < MAXFILE" "fblk s i l \<noteq> 0" for l using f(7) that assms(11) by auto
  have "used t (fblk t i l) \<and> fblk t i l \<notin> meta t \<and> fblk t i l \<noteq> iblk t i" if "l < MAXFILE" "fblk t i l \<noteq> 0" for l
  proof (cases "l = k")
    case False
    then show ?thesis using assms(8,9,14,15) f(7,8,9) that by metis
  qed (use assms(8,10,12,13,16) in auto)
  moreover have "l = m" if l: "l < MAXFILE" "m < MAXFILE" "fblk t i l \<noteq> 0" "fblk t i l = fblk t i m" for l m
  proof (cases "l = k")
    case True
    then show ?thesis using l assms(13,14) ne by metis
  next
    case False
    then show ?thesis using l assms(13,14) ne f(10) by metis
  qed
  moreover have "iblk t i \<noteq> 0 \<longrightarrow> used t (iblk t i) \<and> iblk t i \<notin> meta t" using assms(8,9,15) f(5,6) by metis
  ultimately show ?thesis using assms(3-7) f(1,3) unfolding file_ok_def by simp
qed

lemma only_log_upd:
  assumes "only_log s t"
  shows "only_log (upd_inode i f s) (upd_inode i f t)"
proof -
  obtain B n bs where "t = s\<lparr>bufs := B, lh_n := n, lh_block := bs\<rparr>" using assms by (auto simp: only_log_def)
  then have "upd_inode i f t = (upd_inode i f s)\<lparr>bufs := B, lh_n := n, lh_block := bs\<rparr>" by (simp add: upd_inode_def)
  then show ?thesis unfolding only_log_def by blast
qed

lemma addrs_of:
  assumes "only_log (upd_inode i (\<lambda>ip. ip\<lparr>i_addrs := as\<rparr>) s) t" "i < length (icache s)"
  shows "inode_of t i = (inode_of s i)\<lparr>i_addrs := as\<rparr>" "length (icache t) = length (icache s)" "sblk t = sblk s" "meta t = meta s"
    "\<And>j. j \<noteq> i \<Longrightarrow> inode_of t j = inode_of s j" "bitmap_blocks t = bitmap_blocks s" "lim t = lim s" "in_op t = in_op s"
    "inode_blocks t = inode_blocks s" "log_area t = log_area s"
  using only_log_fs [OF assms(1)] lim_frame [OF assms(1)] only_log_area [OF assms(1)] assms(2) by (simp_all add: upd_inode_nth)

lemma bmap_new_direct:
  assumes "fs_ok s" "file_ok s i" "k < NDIRECT" "fblk s i k = 0" "held s = {}" "room M 1 s" "free_blocks s \<noteq> {}"
  shows "\<exists>a t. bmap i (of_nat k) s = Ok (a, t) \<and> grown s i k a t"
proof -
  note f = file_okD [OF assms(2)]
  obtain a t0 where b: "balloc 1 s = Ok (a, t0)" "balloc_post s a t0"
    by (rule balloc_spec [OF assms(1,6)]) (use assms(5,7) in auto)
  note e = balloc_effect [OF assms(1) b(2)]
  have k: "keeps s t0" "set (logged t0) = insert a (insert (BBLOCK a (sblk s)) (set (logged s)))" "a < nblk s" "\<not> used s a"
    using b(2) by (auto simp: balloc_post_def)
  have o: "only_log s t0" "held t0 = {}" using k(1) assms(5) by (auto simp: keeps_def)
  let ?as = "(i_addrs (inode_of s i))[k := a]"
  define t where "t = upd_inode i (\<lambda>ip. ip\<lparr>i_addrs := ?as\<rparr>) t0"
  have ot: "only_log (upd_inode i (\<lambda>ip. ip\<lparr>i_addrs := ?as\<rparr>) s) t" unfolding t_def by (rule only_log_upd [OF o(1)])
  note n = addrs_of [OF ot f(1)]
  have run: "bmap i (of_nat k) s = Ok (a, t)"
    using assms(3,4) b(1) f(2) only_log_fs(2) [OF o(1)]
    by (simp add: bmap_def Let_def fblk_def unsigned_of_nat take_bit_eq_mod t_def upd_inode_def)
  have v: "view t = view t0" "used t = used t0" "fs_ok t" "held t = {}" "logged t = logged t0" "free_blocks t = free_blocks t0"
    using e(1) o(2) by (simp_all add: t_def)
  have am: "a \<notin> meta s" using assms(1) k(4) by (auto simp: fs_ok_def)
  have ib: "iblk t i = iblk s i" using n(1) assms(3) f(4) by (simp add: iblk_def)
  have iv: "view t (iblk s i) = view s (iblk s i)" if "iblk s i \<noteq> 0"
    using v(1) e(6) [of "iblk s i"] f(5,6) [OF that] k(4) by (auto simp: meta_def)
  have fb: "fblk t i l = (if l = k then a else fblk s i l)" for l
    using n(1) ib iv assms(3) f(4) by (auto simp: fblk_def)
  have ax: "iblk s i \<noteq> a" using f(5) e(5) k(4) by auto
  have "file_ok t i"
    using file_ok_grow [of s i k t a] assms(2,3) n f(2,4) v(2) e(2) k(4) am fb ib ax by simp
  moreover have "card (free_blocks s) \<le> card (free_blocks t) + (if iblk t i = iblk s i then 1 else 2)" using card_Suc_Diff1 [OF finite e(4)] v(6) e(3) by simp
  moreover have "set (logged t) \<subseteq> set (logged s) \<union> bitmap_blocks s \<union> insert a ({iblk t i} - {0})"
    using v(5) k(2) bitmap_home(3) [OF assms(1) k(3)] by auto
  moreover have "\<forall>b. b \<notin> free_blocks s \<longrightarrow> b \<notin> bitmap_blocks s \<longrightarrow> b \<noteq> iblk s i \<or> b = 0 \<longrightarrow> view t b = view s b"
    using v(1) e(4,6) by metis
  moreover have "\<forall>b. used s b \<longrightarrow> used t b" using v(2) e(2) by simp
  moreover have "\<exists>as. only_log (upd_inode i (\<lambda>ip. ip\<lparr>i_addrs := as\<rparr>) s) t" using ot by blast
  moreover have "\<forall>l<MAXFILE. l \<noteq> k \<longrightarrow> fblk t i l = fblk s i l" "fblk t i k = a" using fb by simp_all
  moreover have "free_blocks t \<subseteq> free_blocks s" "view t a = replicate 512 0" "a \<in> set (logged t)" using v e(3,7) k(2) by auto
  ultimately have "grown s i k a t"
    using v(3,4) e(4) ib by (simp only: grown_def simp_thms)
  then show ?thesis using run by blast
qed

lemma unat_page:
  assumes "k < MAXFILE" "\<not> k < NDIRECT"
  shows "unat (of_nat k - 12 :: u32) = k - 12" "\<not> unat (of_nat k :: u32) < 12" "k - 12 < 128" "4 * (k - 12) + 3 < 512"
  using assms by (auto simp: unat_sub_if_size unsigned_of_nat take_bit_eq_mod word_size)

lemma upd_inode_id: "i < length (icache s) \<Longrightarrow> upd_inode i (\<lambda>ip. ip\<lparr>i_addrs := i_addrs (inode_of s i)\<rparr>) s = s"
  by (simp add: upd_inode_def)

text \<open>The entry of page \<open>k\<close> in an indirect block, after the entry of page \<open>m\<close> has been written.\<close>

lemma entry_write:
  assumes "length d = 512" "\<not> k < NDIRECT" "\<not> m < NDIRECT" "k < MAXFILE" "m < MAXFILE"
  shows "rd32 (wr32 d (4 * (m - 12)) c) (4 * (k - 12)) = (if k = m then c else rd32 d (4 * (k - 12)))"
proof (cases "k = m")
  case True
  then show ?thesis using assms by simp
next
  case False
  then have "4 * (k - 12) + 3 < 4 * (m - 12) \<or> 4 * (m - 12) + 3 < 4 * (k - 12)" using assms by linarith
  then show ?thesis using False by simp
qed

lemma bmap_new_entry:
  assumes "fs_ok s" "file_ok s i" "k < MAXFILE" "\<not> k < NDIRECT" "fblk s i k = 0" "iblk s i \<noteq> 0" "held s = {}" "room M 1 s" "free_blocks s \<noteq> {}"
  shows "\<exists>a t. bmap i (of_nat k) s = Ok (a, t) \<and> grown s i k a t \<and> only_log s t \<and>
    set (logged t) = insert (iblk s i) (insert a (insert (BBLOCK a (sblk s)) (set (logged s)))) \<and> free_blocks t = free_blocks s - {a}"
proof -
  note f = file_okD [OF assms(2)]
  note u = unat_page [OF assms(3,4)]
  let ?x = "iblk s i" and ?p = "4 * (k - 12)"
  obtain b s1 a s2 s3 t where g: "bread 1 ?x s = Ok (b, s1)" "b_data (bufs s1 ! b) = view s ?x" "balloc 1 s1 = Ok (a, s2)"
    "log_write b (upd_data b (\<lambda>d. wr32 d ?p a) s2) = Ok s3" "brelse b s3 = Ok t" "only_log s t" "only_log s s2" "held t = {}" "fs_ok t"
    "a \<in> free_blocks s" and ut: "\<And>y. used t y \<longleftrightarrow> used s y \<or> y = a" and vx: "view t ?x = wr32 (view s ?x) ?p a" "view t a = replicate 512 0"
    and vo: "\<And>y. y \<noteq> a \<Longrightarrow> y \<noteq> ?x \<Longrightarrow> y \<notin> bitmap_blocks s \<Longrightarrow> view t y = view s y"
    and lg: "set (logged t) = insert ?x (insert a (insert (BBLOCK a (sblk s)) (set (logged s))))" and ax: "a \<noteq> ?x"
    by (rule grow_indirect [OF assms(1,8,7) f(5,6) [OF assms(6)] assms(9) u(4)]) (rule that)
  note o = only_log_fs [OF g(6)]
  have e0: "rd32 (view s ?x) ?p = 0" using assms(4,5,6) by (simp add: fblk_def)
  have run: "bmap i (of_nat k) s = Ok (a, t)"
    using g(1-5) u f(2) assms(4,6) e0 by (simp add: bmap_def Let_def iblk_def)
  have na: "\<not> used s a" "a < nblk s" "a \<notin> meta s" using g(10) assms(1) by (auto simp: free_blocks_def fs_ok_def)
  have ib: "iblk t i = ?x" using o(2) by (simp add: iblk_def)
  have len: "length (view s ?x) = 512" using assms(1) by (simp add: fs_ok_def log_in_def view_length)
  have fb: "fblk t i l = (if l = k then a else fblk s i l)" if "l < MAXFILE" for l
    using entry_write [OF len _ assms(4) that assms(3), of a] vx(1) ib o(2) assms(4,6) by (auto simp: fblk_def)
  have "file_ok t i"
    using file_ok_grow [of s i k t a] assms(2,3) o f(2,4) ut na fb ib ax by simp
  moreover have ft: "free_blocks t = free_blocks s - {a}" using ut o(4) by (auto simp: free_blocks_def)
  then have "card (free_blocks s) \<le> card (free_blocks t) + (if iblk t i = iblk s i then 1 else 2)" using card_Suc_Diff1 [OF finite g(10)] by simp
  moreover have "set (logged t) \<subseteq> set (logged s) \<union> bitmap_blocks s \<union> insert a ({iblk t i} - {0})"
    using lg bitmap_home(3) [OF assms(1) na(2)] ib assms(6) by auto
  moreover have "\<forall>b. b \<notin> free_blocks s \<longrightarrow> b \<notin> bitmap_blocks s \<longrightarrow> b \<noteq> ?x \<or> b = 0 \<longrightarrow> view t b = view s b" using vo g(10) assms(6) by metis
  moreover have "\<forall>b. used s b \<longrightarrow> used t b" using ut by simp
  moreover have "\<exists>as. only_log (upd_inode i (\<lambda>ip. ip\<lparr>i_addrs := as\<rparr>) s) t" using g(6) upd_inode_id [OF f(1)] by metis
  moreover have "\<forall>l<MAXFILE. l \<noteq> k \<longrightarrow> fblk t i l = fblk s i l" "fblk t i k = a" using fb assms(3) by simp_all
  moreover have "free_blocks t \<subseteq> free_blocks s" "a \<in> set (logged t)" using ft lg by auto
  ultimately have "grown s i k a t" using g(8-10) vx(2) ib by (simp only: grown_def simp_thms)
  then show ?thesis using run g(6) lg ft by blast
qed

text \<open>The first page behind the direct ones: the indirect block is allocated first.\<close>

lemma bmap_first_indirect:
  assumes "fs_ok s" "file_ok s i" "k < MAXFILE" "\<not> k < NDIRECT" "iblk s i = 0" "held s = {}" "room M 2 s" "2 \<le> card (free_blocks s)"
  shows "\<exists>a t. bmap i (of_nat k) s = Ok (a, t) \<and> grown s i k a t"
proof -
  note f = file_okD [OF assms(2)]
  note u = unat_page [OF assms(3,4)]
  have rm: "room M 1 s" using assms(7) by (simp add: room_def)
  have fr: "free_blocks s \<noteq> {}" using assms(8) by auto
  obtain x t0 where b: "balloc 1 s = Ok (x, t0)" "balloc_post s x t0"
    by (rule balloc_spec [OF assms(1) rm]) (use assms(6) fr in auto)
  note e = balloc_effect [OF assms(1) b(2)]
  have k: "keeps s t0" "set (logged t0) = insert x (insert (BBLOCK x (sblk s)) (set (logged s)))" "x < nblk s" "\<not> used s x"
    using b(2) by (auto simp: balloc_post_def)
  have o: "only_log s t0" "held t0 = {}" using k(1) assms(6) by (auto simp: keeps_def)
  let ?as = "(i_addrs (inode_of s i))[NDIRECT := x]"
  define s1 where "s1 = upd_inode i (\<lambda>ip. ip\<lparr>i_addrs := ?as\<rparr>) t0"
  have o1: "only_log (upd_inode i (\<lambda>ip. ip\<lparr>i_addrs := ?as\<rparr>) s) s1" unfolding s1_def by (rule only_log_upd [OF o(1)])
  note n = addrs_of [OF o1 f(1)]
  have v: "view s1 = view t0" "used s1 = used t0" "fs_ok s1" "held s1 = {}" "logged s1 = logged t0" "free_blocks s1 = free_blocks t0"
    using e(1) o(2) by (simp_all add: s1_def)
  have xm: "x \<notin> meta s" using assms(1) k(4) by (auto simp: fs_ok_def)
  have ib: "iblk s1 i = x" using n(1) f(4) by (simp add: iblk_def)
  have z: "rd32 (replicate 512 0) (4 * (l - 12)) = 0" if "l < MAXFILE" for l
    using that by (simp add: rd32_def)
  have fb: "fblk s1 i l = fblk s i l" if "l < MAXFILE" for l
    using n(1) ib assms(5) v(1) e(5,7) z [OF that] f(4) by (simp add: fblk_def)
  have fk: "fblk s1 i k = 0" using fb [OF assms(3)] assms(4,5) by (simp add: fblk_def)
  have ok1: "file_ok s1 i"
    unfolding file_ok_def using n(1-4) f ib v(2) e(2,5) xm k(4) fb by simp (metis f(7) k(4))
  have fM: "finite M" "bitmap_blocks s \<subseteq> M" using assms(7) by (auto simp: room_def)
  have "set (logged s1) \<subseteq> set (logged s) \<union> M \<union> {x}" using v(5) k(2) bitmap_home(3) [OF assms(1) k(3)] fM(2) by auto
  from lcost_insert [OF fM(1) this] have "lcost M s1 \<le> lcost M s + 1" by simp
  then have rm1: "room M 1 s1" using assms(7) n(6,7,8) v(4) by (simp add: room_def)
  have c1: "free_blocks s1 = free_blocks s - {x}" using v(6) e(3) by simp
  then have "card (free_blocks s1) \<noteq> 0" using assms(8) e(4) by (simp add: card_Diff_singleton)
  then have c2: "free_blocks s1 \<noteq> {}" by auto
  obtain a t where r: "bmap i (of_nat k) s1 = Ok (a, t)" "grown s1 i k a t" "only_log s1 t"
      "set (logged t) = insert x (insert a (insert (BBLOCK a (sblk s)) (set (logged s1))))" "free_blocks t = free_blocks s1 - {a}"
    using bmap_new_entry [OF v(3) ok1 assms(3,4) fk _ v(4) rm1 c2] ib e(5) n(3) by auto
  have gr: "fs_ok t" "file_ok t i" "held t = {}" "a \<in> free_blocks s1" "fblk t i k = a" "\<forall>l<MAXFILE. l \<noteq> k \<longrightarrow> fblk t i l = fblk s1 i l"
      "view t a = replicate 512 0" "\<forall>b. b \<notin> free_blocks s1 \<longrightarrow> b \<notin> bitmap_blocks s1 \<longrightarrow> b \<noteq> iblk s1 i \<or> b = 0 \<longrightarrow> view t b = view s1 b"
      "\<forall>b. used s1 b \<longrightarrow> used t b" "iblk t i = x" "a \<in> set (logged t)"
    using r(2) ib e(5) by (simp_all add: grown_def)
  have run: "bmap i (of_nat k) s = Ok (a, t)"
    unfolding r(1) [symmetric] using u f(2) assms(5) b(1) ib e(5) only_log_fs(2) [OF o(1)] n(1) f(1)
    by (simp add: bmap_def Let_def iblk_def s1_def upd_inode_def cong: if_cong)
  have a: "a \<in> free_blocks s" "a \<noteq> x" "a < nblk s" using gr(4) c1 by (auto simp: free_blocks_def)
  have "card (free_blocks s) \<le> card (free_blocks t) + 2" using r(5) c1 a e(4) by (simp add: card_Diff_singleton)
  then have "card (free_blocks s) \<le> card (free_blocks t) + (if iblk t i = iblk s i then 1 else 2)" using gr(10) assms(5) e(5) by simp
  moreover have "set (logged t) \<subseteq> set (logged s) \<union> bitmap_blocks s \<union> insert a ({iblk t i} - {0})"
    using r(4) v(5) k(2) bitmap_home(3) [OF assms(1) k(3)] bitmap_home(3) [OF assms(1) a(3)] gr(10) e(5) by auto
  moreover have "\<forall>b. b \<notin> free_blocks s \<longrightarrow> b \<notin> bitmap_blocks s \<longrightarrow> b \<noteq> iblk s i \<or> b = 0 \<longrightarrow> view t b = view s b"
    using gr(8) c1 n(6) ib e(4,6) v(1) by (metis DiffD1)
  moreover have "\<forall>b. used s b \<longrightarrow> used t b" using gr(9) v(2) e(2) by simp
  moreover have "\<exists>as. only_log (upd_inode i (\<lambda>ip. ip\<lparr>i_addrs := as\<rparr>) s) t" using only_log_trans [OF o1 r(3)] by blast
  moreover have "\<forall>l<MAXFILE. l \<noteq> k \<longrightarrow> fblk t i l = fblk s i l" using gr(6) fb by simp
  moreover have "free_blocks t \<subseteq> free_blocks s" "iblk s i \<noteq> 0 \<longrightarrow> iblk t i = iblk s i" "iblk t i \<noteq> iblk s i \<longrightarrow> iblk t i \<in> free_blocks s"
    using r(5) c1 assms(5) gr(10) e(4) by auto
  ultimately have "grown s i k a t" using gr(1-3,5,7,11) a(1) by (simp only: grown_def simp_thms)
  then show ?thesis using run by blast
qed

text \<open>The indirect block, as long as the file has none: a new page may take it besides its own block.\<close>

definition due :: "'a fsst_scheme \<Rightarrow> nat \<Rightarrow> nat" where
  "due s i = (if iblk s i = 0 then 1 else 0)"

lemma bmap_new:
  assumes "fs_ok s" "file_ok s i" "k < MAXFILE" "fblk s i k = 0" "held s = {}" "room M (due s i + 1) s" "due s i + 1 \<le> card (free_blocks s)"
  obtains a t where "bmap i (of_nat k) s = Ok (a, t)" "grown s i k a t"
proof -
  have rm: "room M 1 s" "free_blocks s \<noteq> {}" using assms(6,7) by (auto simp: room_def)
  consider "k < NDIRECT" | "\<not> k < NDIRECT" "iblk s i = 0" | "\<not> k < NDIRECT" "iblk s i \<noteq> 0" by blast
  then show ?thesis
  proof cases
    case 1
    then show ?thesis using bmap_new_direct [OF assms(1,2) 1 assms(4,5) rm] that by blast
  next
    case 2
    then show ?thesis using bmap_first_indirect [OF assms(1-3) 2 assms(5)] assms(6,7) that by (auto simp: due_def numeral_2_eq_2)
  next
    case 3
    then show ?thesis using bmap_new_entry [OF assms(1-3) 3(1) assms(4) 3(2) assms(5) rm] that by blast
  qed
qed

end
