(* ===== verification/FsFile.thy ===== *)
theory FsFile
  imports FsMap
begin

text \<open>
  The contents of a file: \<open>readi\<close> returns the bytes of the file and \<open>writei\<close> changes exactly the bytes it
  is given. \<open>fbyte\<close> is the file as a function from offsets to bytes; a page that has no block reads as
  zeros, as the block does that \<open>bmap\<close> would add. \<open>charge\<close> bounds the blocks that a write takes; the loop is proved with
  \<open>icost\<close>, which has the indirect block as a debt until it is allocated.
\<close>

section \<open>Contents\<close>

definition fbyte :: "'a fsst_scheme \<Rightarrow> nat \<Rightarrow> nat \<Rightarrow> u8" where
  "fbyte s i x = (if fblk s i (x div BSIZE) = 0 then 0 else view s (fblk s i (x div BSIZE)) ! (x mod BSIZE))"

definition fset :: "'a fsst_scheme \<Rightarrow> nat \<Rightarrow> u32 set" where
  "fset s i = insert (iblk s i) (fblk s i ` {..<MAXFILE}) - {0}"

text \<open>A step that changes nothing but the cache.\<close>

lemma same_file:
  assumes "only_log s t" "view t = view s" "log_in t = log_in s"
  shows "used t = used s" "fs_ok t = fs_ok s" "free_blocks t = free_blocks s" "iblk t i = iblk s i" "fblk t i = fblk s i"
    "file_ok t i = file_ok s i" "fbyte t i = fbyte s i" "fset t i = fset s i" "icache t = icache s" "sblk t = sblk s"
proof -
  note f = only_log_fs [OF assms(1)]
  show u: "used t = used s" by (rule used_view) (simp_all add: f assms(2))
  show "fs_ok t = fs_ok s" "free_blocks t = free_blocks s" using f u assms(3) by (simp_all add: fs_ok_def free_blocks_def)
  show ib: "iblk t i = iblk s i" by (simp add: iblk_def f)
  show fb: "fblk t i = fblk s i" by (simp add: fblk_def [abs_def] ib f assms(2) cong: if_cong)
  show "file_ok t i = file_ok s i" "fbyte t i = fbyte s i" "fset t i = fset s i"
    using f u ib fb assms(2) by (simp_all add: file_ok_def fbyte_def [abs_def] fset_def cong: if_cong)
qed (simp_all add: only_log_fs [OF assms(1)])

lemma keeps_file:
  assumes "log_in s" "keeps s t" "view t = view s"
  shows "used t = used s" "fs_ok t = fs_ok s" "free_blocks t = free_blocks s" "iblk t i = iblk s i" "fblk t i = fblk s i"
    "file_ok t i = file_ok s i" "fbyte t i = fbyte s i" "fset t i = fset s i" "icache t = icache s" "sblk t = sblk s"
  using same_file [of s t] assms by (simp_all add: keeps_def)

section \<open>Reading\<close>

lemma page_cell:
  assumes "x mod 512 + j < (512 :: nat)"
  shows "(x + j) div 512 = x div 512" "(x + j) mod 512 = x mod 512 + j"
proof -
  have e: "x + j = (x mod 512 + j) + x div 512 * 512" by simp
  show "(x + j) div 512 = x div 512" using assms by (subst e, subst div_mult_self1) simp_all
  show "(x + j) mod 512 = x mod 512 + j" using assms by (subst e, subst mod_mult_self1) simp
qed

lemma page_bytes:
  assumes "m \<le> 512 - x mod 512" "fblk s i (x div 512) \<noteq> 0" "length (view s (fblk s i (x div 512))) = 512"
  shows "take m (drop (x mod 512) (view s (fblk s i (x div 512)))) = map (fbyte s i) [x..<x + m]"
proof (rule nth_equalityI)
  fix j assume "j < length (take m (drop (x mod 512) (view s (fblk s i (x div 512)))))"
  then have j: "j < m" "x mod 512 + j < 512" using assms by auto
  then have "(x + j) div 512 = x div 512" "(x + j) mod 512 = x mod 512 + j" by (auto intro: page_cell)
  then show "take m (drop (x mod 512) (view s (fblk s i (x div 512)))) ! j = map (fbyte s i) [x..<x + m] ! j"
    using j assms by (simp add: fbyte_def)
qed (use assms in auto)

lemma unat_off: "x < 2 ^ 32 \<Longrightarrow> unat (of_nat x :: u32) = x"
  by (simp add: unsigned_of_nat take_bit_eq_mod)

lemma off_page: "x < 71680 \<Longrightarrow> (of_nat x :: u32) div 512 = of_nat (x div 512)"
proof -
  assume x: "x < 71680"
  have "unat ((of_nat x :: u32) div 512) = x div 512" using x by (simp add: unat_div unat_off)
  moreover have "unat (of_nat (x div 512) :: u32) = x div 512" using x by (intro unat_off) simp
  ultimately show ?thesis by (simp add: word_unat_eq_iff)
qed

lemma readi_loop_spec:
  assumes "fs_ok s" "file_ok s i" "held s = {}" "length (logged s) < 30" "x + k \<le> 71680" "\<forall>y. x \<le> y \<longrightarrow> y < x + k \<longrightarrow> fblk s i (y div 512) \<noteq> 0"
  shows "\<exists>t. readi_loop i (of_nat x) k s = Ok (map (fbyte s i) [x..<x + k], t) \<and> keeps s t \<and> view t = view s \<and> logged t = logged s"
  using assms
proof (induction k arbitrary: x s rule: less_induct)
  case (less k)
  have li: "log_in s" using less.prems(1) by (simp add: fs_ok_def)
  show ?case
  proof (cases "k = 0")
    case True
    then show ?thesis using keeps_refl [OF li] by (simp add: readi_loop.simps)
  next
    case False
    have x: "x < 71680" "x div 512 < MAXFILE" "fblk s i (x div 512) \<noteq> 0" using False less.prems(5,6) by auto
    let ?b = "fblk s i (x div 512)" and ?m = "min k (512 - x mod 512)"
    obtain s1 where b: "bmap i (of_nat (x div 512)) s = Ok (?b, s1)" "keeps s s1" "view s1 = view s" "logged s1 = logged s"
      by (rule bmap_mapped [OF less.prems(1,2) x(2,3) less.prems(3,4)])
    note s1 = keeps_file [OF li b(2,3)]
    note f = file_okD [OF less.prems(2)]
    have k1: "log_in s1" "held s1 = {}" "only_log s s1" using b(2) less.prems(3) by (auto simp: keeps_def)
    have bh: "?b \<in> home s1" using data_home [OF less.prems(1) f(7,8) [OF x(2,3)]] only_log_fs(9) [OF k1(3)] by simp
    obtain c s2 t where p: "bread 1 ?b s1 = Ok (c, s2)" "b_data (bufs s2 ! c) = view s1 ?b" "brelse c s2 = Ok t" "keeps s1 t" "view t = view s1" "logged t = logged s1"
      by (rule peek_block [OF k1(1) bh]) (use k1(2) b(4) less.prems(4) in auto)
    have kt: "keeps s t" "view t = view s" "logged t = logged s" using keeps_trans [OF b(2) p(4)] p(5,6) b(3,4) by auto
    note st = keeps_file [OF li kt(1,2)]
    have ht: "held t = {}" using kt(1) less.prems(3) by (auto simp: keeps_def)
    have m: "0 < ?m" "?m \<le> k" using False by auto
    have "\<exists>u. readi_loop i (of_nat (x + ?m)) (k - ?m) t = Ok (map (fbyte t i) [x + ?m..<x + ?m + (k - ?m)], u) \<and> keeps t u \<and> view u = view t \<and> logged u = logged t"
      using less.prems st ht kt(3) m by (intro less.IH) auto
    then obtain u where u: "readi_loop i (of_nat x + of_nat ?m) (k - ?m) t = Ok (map (fbyte s i) [x + ?m..<x + k], u)" "keeps t u" "view u = view t" "logged u = logged t"
      using m st(7) by auto
    have "length (view s ?b) = 512" using li by (simp add: log_in_def view_length)
    then have bytes: "take ?m (drop (x mod 512) (view s ?b)) = map (fbyte s i) [x..<x + ?m]" by (intro page_bytes) (use x in auto)
    have up: "[x..<x + k] = [x..<x + ?m] @ [x + ?m..<x + k]" using m(2) upt_add_eq_append [of x "x + ?m" "k - ?m"] by simp
    have "readi_loop i (of_nat x) k s = Ok (map (fbyte s i) [x..<x + k], u)"
      using False b(1) p(1-3) u(1) x(1) off_page [OF x(1)] s1(9) f(2) bytes b(3) unfolding up
      by (subst readi_loop.simps) (simp add: unat_off Let_def)
    then show ?thesis using keeps_trans [OF kt(1) u(2)] u(3,4) kt by auto
  qed
qed

section \<open>Writing\<close>

text \<open>\<open>wrote s i x bs t\<close>: from \<open>s\<close> to \<open>t\<close> the bytes of file \<open>i\<close> from offset \<open>x\<close> on have become \<open>bs\<close>, and nothing
  else has changed but the free map, the blocks that were free, and the list of blocks of the file.\<close>

definition wrote :: "'a fsst_scheme \<Rightarrow> nat \<Rightarrow> nat \<Rightarrow> u8 list \<Rightarrow> 'a fsst_scheme \<Rightarrow> bool" where
  "wrote s i x bs t \<longleftrightarrow> fs_ok t \<and> file_ok t i \<and> held t = {} \<and>
     (\<forall>y<71680. fbyte t i y = (if x \<le> y \<and> y < x + length bs then bs ! (y - x) else fbyte s i y)) \<and>
     (\<forall>y. x \<le> y \<longrightarrow> y < x + length bs \<longrightarrow> fblk t i (y div BSIZE) \<noteq> 0) \<and>
     (\<forall>k<MAXFILE. fblk s i k \<noteq> 0 \<longrightarrow> fblk t i k = fblk s i k) \<and> (\<forall>b. used s b \<longrightarrow> used t b) \<and>
     (\<forall>b. used s b \<longrightarrow> b \<notin> bitmap_blocks s \<longrightarrow> b \<notin> fset s i \<longrightarrow> view t b = view s b) \<and>
     fset t i \<subseteq> fset s i \<union> free_blocks s \<and> free_blocks t \<subseteq> free_blocks s \<and>
     (\<exists>as. only_log (upd_inode i (\<lambda>ip. ip\<lparr>i_addrs := as\<rparr>) s) t)"

text \<open>The cost of a write to file \<open>i\<close> counts its indirect block once: either it is among the blocks that are
  paid for, or it is still due. At most \<open>c\<close> more blocks are logged, and at most \<open>c\<close> more allocated.\<close>

definition icost :: "u32 set \<Rightarrow> nat \<Rightarrow> 'a fsst_scheme \<Rightarrow> nat" where
  "icost M i s = lcost (M \<union> ({iblk s i} - {0})) s + due s i"

definition cost :: "'a fsst_scheme \<Rightarrow> nat \<Rightarrow> 'a fsst_scheme \<Rightarrow> nat \<Rightarrow> bool" where
  "cost s i t c \<longleftrightarrow> (\<forall>M. finite M \<longrightarrow> bitmap_blocks s \<subseteq> M \<longrightarrow> icost M i t \<le> icost M i s + c) \<and>
     card (free_blocks s) + due t i \<le> card (free_blocks t) + due s i + c"

lemma wrote_refl: "fs_ok s \<Longrightarrow> file_ok s i \<Longrightarrow> held s = {} \<Longrightarrow> wrote s i x [] s"
  using upd_inode_id [OF file_okD(1), of s i] only_log_refl [of s] unfolding wrote_def by (auto intro!: exI [of _ "i_addrs (inode_of s i)"])

lemma icost_bounds:
  assumes "finite M"
  shows "lcost M s \<le> icost M i s" "lcost M s + due s i \<le> icost M i s" "icost M i s \<le> lcost M s + 1"
proof -
  let ?X = "{iblk s i} - {0}"
  show l: "lcost M s + due s i \<le> icost M i s" unfolding icost_def lcost_def using assms by (auto intro: card_mono)
  then show "lcost M s \<le> icost M i s" by simp
  have "card (set (logged s) \<union> (M \<union> ?X)) \<le> card (set (logged s) \<union> M) + card ?X" unfolding Un_assoc [symmetric] by (rule card_Un_le)
  moreover have "card ?X + due s i = 1" by (simp add: due_def)
  ultimately show "icost M i s \<le> lcost M s + 1" by (simp add: icost_def lcost_def)
qed

lemma icost_insert:
  assumes "finite M" "set (logged t) \<subseteq> set (logged s) \<union> M \<union> X \<union> ({iblk t i} - {0})" "finite X" "iblk s i \<noteq> 0 \<Longrightarrow> iblk t i = iblk s i"
  shows "icost M i t \<le> icost M i s + card X"
proof -
  let ?S = "{iblk s i} - {0}" and ?T = "{iblk t i} - {0}"
  have "lcost (M \<union> ?T) t \<le> card ((set (logged s) \<union> (M \<union> ?T)) \<union> X)"
    unfolding lcost_def using assms(1-3) by (intro card_mono) auto
  also have "\<dots> \<le> lcost (M \<union> ?T) s + card X" unfolding lcost_def by (rule card_Un_le)
  finally have a: "lcost (M \<union> ?T) t \<le> lcost (M \<union> ?T) s + card X" .
  have "lcost (M \<union> ?T) s + due t i \<le> lcost (M \<union> ?S) s + due s i"
  proof (cases "iblk t i = iblk s i")
    case False
    then have z: "iblk s i = 0" using assms(4) by auto
    have "lcost (M \<union> ?T) s \<le> lcost M s + card ?T" unfolding lcost_def Un_assoc [symmetric] by (rule card_Un_le)
    moreover have "card ?T + due t i = 1" by (simp add: due_def)
    ultimately show ?thesis using z by (simp add: due_def)
  qed (simp add: due_def)
  then show ?thesis using a by (simp add: icost_def)
qed

lemma cost_trans:
  assumes "cost s i t c" "cost t i u d" "bitmap_blocks t = bitmap_blocks s"
  shows "cost s i u (c + d)"
proof -
  have "icost M i u \<le> icost M i s + (c + d)" if "finite M" "bitmap_blocks s \<subseteq> M" for M
  proof -
    have "icost M i t \<le> icost M i s + c" "icost M i u \<le> icost M i t + d" using assms that by (simp_all add: cost_def)
    then show ?thesis by simp
  qed
  then show ?thesis using assms(1,2) by (simp add: cost_def)
qed

lemma addrs_trans:
  assumes "only_log (upd_inode i (\<lambda>ip. ip\<lparr>i_addrs := as\<rparr>) s) t" "only_log (upd_inode i (\<lambda>ip. ip\<lparr>i_addrs := bs\<rparr>) t) u"
  shows "only_log (upd_inode i (\<lambda>ip. ip\<lparr>i_addrs := bs\<rparr>) s) u"
proof -
  have "upd_inode i (\<lambda>ip. ip\<lparr>i_addrs := bs\<rparr>) (upd_inode i (\<lambda>ip. ip\<lparr>i_addrs := as\<rparr>) s) = upd_inode i (\<lambda>ip. ip\<lparr>i_addrs := bs\<rparr>) s"
    by (cases "i < length (icache s)") (simp_all add: upd_inode_def list_update_beyond)
  then show ?thesis using only_log_trans [OF only_log_upd [OF assms(1)] assms(2)] by simp
qed

lemma wroteD:
  assumes "wrote s i x bs t"
  shows "fs_ok t" "file_ok t i" "held t = {}" "y < 71680 \<Longrightarrow> fbyte t i y = (if x \<le> y \<and> y < x + length bs then bs ! (y - x) else fbyte s i y)"
    "x \<le> y \<Longrightarrow> y < x + length bs \<Longrightarrow> fblk t i (y div BSIZE) \<noteq> 0" "k < MAXFILE \<Longrightarrow> fblk s i k \<noteq> 0 \<Longrightarrow> fblk t i k = fblk s i k"
    "used s b \<Longrightarrow> used t b" "used s b \<Longrightarrow> b \<notin> bitmap_blocks s \<Longrightarrow> b \<notin> fset s i \<Longrightarrow> view t b = view s b"
    "fset t i \<subseteq> fset s i \<union> free_blocks s" "free_blocks t \<subseteq> free_blocks s"
    "\<exists>as. only_log (upd_inode i (\<lambda>ip. ip\<lparr>i_addrs := as\<rparr>) s) t"
  using assms unfolding wrote_def by blast+

lemma wrote_append:
  assumes "wrote s i x as t" "wrote t i (x + length as) bs u" "i < length (icache s)" "x + length as + length bs \<le> 71680"
  shows "wrote s i x (as @ bs) u"
proof -
  note a = wroteD [OF assms(1)] and b = wroteD [OF assms(2)]
  obtain n where n: "only_log (upd_inode i (\<lambda>ip. ip\<lparr>i_addrs := n\<rparr>) s) t" using a(11) by blast
  obtain n' where n': "only_log (upd_inode i (\<lambda>ip. ip\<lparr>i_addrs := n'\<rparr>) t) u" using b(11) by blast
  note f = addrs_of [OF n assms(3)]
  have "fbyte u i y = (if x \<le> y \<and> y < x + length (as @ bs) then (as @ bs) ! (y - x) else fbyte s i y)" if "y < 71680" for y
    using a(4) [OF that] b(4) [OF that] by (auto simp: nth_append)
  moreover have "fblk u i (y div BSIZE) \<noteq> 0" if "x \<le> y" "y < x + length (as @ bs)" for y
  proof (cases "y < x + length as")
    case True
    then have "fblk t i (y div BSIZE) \<noteq> 0" "y div BSIZE < MAXFILE" using a(5) that assms(4) by auto
    then show ?thesis using b(6) by metis
  qed (use b(5) [of y] that in auto)
  moreover have "fblk u i k = fblk s i k" if "k < MAXFILE" "fblk s i k \<noteq> 0" for k using a(6) b(6) that by metis
  moreover have "view u y = view s y" if "used s y" "y \<notin> bitmap_blocks s" "y \<notin> fset s i" for y
  proof -
    have "y \<notin> fset t i" using a(9) that by (auto simp: free_blocks_def)
    then show ?thesis using a(7,8) [of y] b(8) [of y] that f(6) by simp
  qed
  moreover have "fset u i \<subseteq> fset s i \<union> free_blocks s" "free_blocks u \<subseteq> free_blocks s" using a(9,10) b(9,10) by auto
  ultimately show ?thesis unfolding wrote_def using a(7) b(1-3,7) addrs_trans [OF n n'] by blast
qed

text \<open>\<open>bmap\<close> as a write of no bytes that makes sure the file has page \<open>k\<close>.\<close>

lemma grown_wrote:
  assumes "fs_ok s" "file_ok s i" "k < MAXFILE" "fblk s i k = 0" "grown s i k a t"
  shows "wrote s i x [] t" "cost s i t 1" "fblk t i k = a" "a \<in> set (logged t)" "a \<noteq> 0"
proof -
  note f = file_okD [OF assms(2)]
  have g: "fs_ok t" "file_ok t i" "held t = {}" "a \<in> free_blocks s" "fblk t i k = a" "\<And>l. l < MAXFILE \<Longrightarrow> l \<noteq> k \<Longrightarrow> fblk t i l = fblk s i l"
      "view t a = replicate 512 0" "\<And>b. b \<notin> free_blocks s \<Longrightarrow> b \<notin> bitmap_blocks s \<Longrightarrow> b \<noteq> iblk s i \<or> b = 0 \<Longrightarrow> view t b = view s b"
      "\<And>b. used s b \<Longrightarrow> used t b" "iblk t i \<noteq> iblk s i \<Longrightarrow> iblk t i \<in> free_blocks s" "free_blocks t \<subseteq> free_blocks s"
      "\<exists>as. only_log (upd_inode i (\<lambda>ip. ip\<lparr>i_addrs := as\<rparr>) s) t"
    using assms(5) by (simp_all add: grown_def)
  have ib: "iblk s i \<noteq> 0 \<Longrightarrow> iblk t i = iblk s i" and lg: "set (logged t) \<subseteq> set (logged s) \<union> bitmap_blocks s \<union> insert a ({iblk t i} - {0})"
    using assms(5) by (simp_all add: grown_def)
  have "icost M i t \<le> icost M i s + 1" if "finite M" "bitmap_blocks s \<subseteq> M" for M
    using icost_insert [OF that(1) _ _ ib, of "{a}"] lg that(2) by auto
  moreover have "card (free_blocks s) + due t i \<le> card (free_blocks t) + due s i + 1"
    using assms(5) fset_def by (auto simp: grown_def due_def split: if_splits)
  ultimately show c: "cost s i t 1" "fblk t i k = a" "a \<in> set (logged t)" using assms(5) by (simp_all add: grown_def cost_def)
  show a0: "a \<noteq> 0" using g(4) assms(1) by (auto simp: free_blocks_def fs_ok_def meta_def)
  have old: "view t (fblk s i l) = view s (fblk s i l)" if "l < MAXFILE" "fblk s i l \<noteq> 0" for l
    using g(8) f(7,8,9) [OF that] by (auto simp: free_blocks_def meta_def)
  have "fbyte t i y = fbyte s i y" if "y < 71680" for y
  proof -
    have y: "y div 512 < MAXFILE" using that by auto
    show ?thesis
    proof (cases "y div 512 = k")
      case True
      then show ?thesis using assms(4) c(2) g(7) a0 by (simp add: fbyte_def)
    next
      case False
      then show ?thesis using g(6) [OF y] old [OF y] by (simp add: fbyte_def)
    qed
  qed
  moreover have "view t b = view s b" if "used s b" "b \<notin> bitmap_blocks s" "b \<notin> fset s i" for b
    using that g(8) [of b] by (auto simp: free_blocks_def fset_def)
  moreover have "fset t i \<subseteq> fset s i \<union> free_blocks s" using g(4,5,6,10) by (auto simp: fset_def)
  moreover have "fblk t i l = fblk s i l" if "l < MAXFILE" "fblk s i l \<noteq> 0" for l using g(6) that assms(4) by metis
  ultimately show "wrote s i x [] t" unfolding wrote_def using g(1-3,9,11,12) by auto
qed

lemma bmap_page:
  assumes "fs_ok s" "file_ok s i" "k < MAXFILE" "held s = {}" "room M (due s i + 1) s" "due s i + 1 \<le> card (free_blocks s)"
  obtains a t where "bmap i (of_nat k) s = Ok (a, t)" "wrote s i x [] t" "fblk t i k = a" "a \<noteq> 0" "cost s i t 1" "a \<in> set (logged t) \<or> cost s i t 0"
proof (cases "fblk s i k = 0")
  case True
  obtain a t where "bmap i (of_nat k) s = Ok (a, t)" "grown s i k a t" by (rule bmap_new [OF assms(1-3) True assms(4-6)])
  then show ?thesis using that grown_wrote [OF assms(1-3) True] by blast
next
  case False
  have li: "log_in s" using assms(1) by (simp add: fs_ok_def)
  have "length (logged s) < 30" using room_log(2) [OF li assms(5)] by simp
  then obtain t where t: "bmap i (of_nat k) s = Ok (fblk s i k, t)" "keeps s t" "view t = view s" "logged t = logged s"
    by (rule bmap_mapped [OF assms(1-3) False assms(4)])
  note f = keeps_file [OF li t(2,3)]
  have o: "only_log s t" "held t = {}" using t(2) assms(4) by (auto simp: keeps_def)
  have "\<exists>as. only_log (upd_inode i (\<lambda>ip. ip\<lparr>i_addrs := as\<rparr>) s) t" using o(1) upd_inode_id [OF file_okD(1) [OF assms(2)]] by metis
  then have "wrote s i x [] t" unfolding wrote_def using assms(1,2) o t(3) by (auto simp: f)
  moreover have "iblk t i = iblk s i" using only_log_fs(2) [OF o(1)] by (simp add: iblk_def)
  then have "cost s i t 0" "cost s i t 1" using f t(4) by (simp_all add: cost_def icost_def lcost_def due_def)
  ultimately show ?thesis using that [OF t(1)] False f(5) by simp
qed

text \<open>A part of page \<open>k\<close>, at position \<open>p\<close> in it, is replaced.\<close>

lemma write_page:
  assumes "fs_ok s" "file_ok s i" "k < MAXFILE" "held s = {}" "room M 0 s" "fblk s i k = a" "a \<noteq> 0" "p + length bs \<le> 512"
  obtains b s1 s2 t where "bread 1 a s = Ok (b, s1)" "log_write b (upd_data b (\<lambda>d. blit d p bs) s1) = Ok s2" "brelse b s2 = Ok t" "icache s1 = icache s"
    "wrote s i (512 * k + p) bs t" "cost s i t 1" "a \<in> set (logged s) \<Longrightarrow> cost s i t 0"
proof -
  have li: "log_in s" using assms(1) by (simp add: fs_ok_def)
  note f = file_okD [OF assms(2)] and rm = room_log [OF li assms(5)]
  have a: "used s a" "a \<notin> meta s" "a \<noteq> iblk s i" using f(7,8,9) assms(3,6,7) by auto
  let ?f = "\<lambda>d. blit d p bs"
  have len: "length (view s x) = 512" for x using li by (simp add: log_in_def view_length)
  have fl: "length (?f (view s a)) = 512" using len assms(8) by simp
  obtain b s1 s2 t where q: "bread 1 a s = Ok (b, s1)" "log_write b (upd_data b ?f s1) = Ok s2" "brelse b s2 = Ok t" "only_log s s1" "keeps s t"
      "view t = (view s)(a := ?f (view s a))" "set (logged t) = insert a (set (logged s))"
    by (rule modify_block [of s a ?f, OF li data_home [OF assms(1) a(1,2)] _ rm(2,3) fl rm(4)]) (use assms(4) in auto)
  have ot: "only_log s t" "log_in t" "held t = {}" using q(5) assms(4) by (auto simp: keeps_def)
  note o = only_log_fs [OF ot(1)]
  have "a \<notin> bitmap_blocks s" using a(2) by (auto simp: meta_def)
  then have u: "used t = used s" by (intro used_view) (use o q(6) in \<open>auto simp: bitmap_blocks_def\<close>)
  have ib: "iblk t i = iblk s i" "view t (iblk s i) = view s (iblk s i)" using o(2) q(6) a(3) by (simp_all add: iblk_def)
  then have fb: "fblk t i = fblk s i" using o(2) by (simp add: fblk_def [abs_def] cong: if_cong)
  have ok: "fs_ok t" "file_ok t i" "free_blocks t = free_blocks s" "fset t i = fset s i"
    using assms(1,2) o u ot(2) ib fb by (simp_all add: fs_ok_def file_ok_def free_blocks_def fset_def)
  have "fbyte t i y = (if 512 * k + p \<le> y \<and> y < 512 * k + p + length bs then bs ! (y - (512 * k + p)) else fbyte s i y)" if "y < 71680" for y
  proof (cases "y div 512 = k")
    case True
    define q where "q = y mod 512"
    have y: "y = 512 * k + q" unfolding q_def using True by auto
    have "fbyte t i y = ?f (view s a) ! q" "fbyte s i y = view s a ! q" using True assms(6,7) fb q(6) by (simp_all add: fbyte_def q_def)
    moreover have "?f (view s a) ! q = (if p \<le> q \<and> q < p + length bs then bs ! (q - p) else view s a ! q)"
      using len assms(8) by (intro blit_nth) simp
    moreover have "512 * k + p \<le> y \<longleftrightarrow> p \<le> q" "y < 512 * k + p + length bs \<longleftrightarrow> q < p + length bs" "y - (512 * k + p) = q - p"
      unfolding y by auto
    ultimately show ?thesis by simp
  next
    case False
    then have "\<not> (512 * k + p \<le> y \<and> y < 512 * k + p + length bs)" using assms(8) by auto
    moreover have "y div 512 < MAXFILE" using that by simp
    then have "fblk s i (y div 512) \<noteq> a" if "fblk s i (y div 512) \<noteq> 0"
      using f(10) [of "y div 512" k] False assms(3,6) that by auto
    ultimately show ?thesis using fb q(6) by (auto simp: fbyte_def)
  qed
  moreover have "y div 512 = k" if "512 * k + p \<le> y" "y < 512 * k + p + length bs" for y using that assms(8) by auto
  moreover have "a \<in> fset s i" using assms(3,6,7) by (auto simp: fset_def)
  then have "view t y = view s y" if "y \<notin> fset s i" for y using that q(6) by auto
  moreover have "\<exists>as. only_log (upd_inode i (\<lambda>ip. ip\<lparr>i_addrs := as\<rparr>) s) t" using ot(1) upd_inode_id [OF f(1)] by metis
  ultimately have w: "wrote s i (512 * k + p) bs t" unfolding wrote_def using ok ot(3) u fb assms(6,7) by simp
  have c: "icost M i t \<le> icost M i s + 1" "a \<in> set (logged s) \<Longrightarrow> icost M i t \<le> icost M i s" if "finite M" for M
    using icost_insert [OF that, of t s "{a}" i] icost_insert [OF that, of t s "{}" i] q(7) ib(1) by auto
  have "due t i = due s i" using ib(1) by (simp add: due_def)
  then have "cost s i t 1" "a \<in> set (logged s) \<Longrightarrow> cost s i t 0"
    using c ok(3) by (simp_all add: cost_def)
  then show ?thesis using that q(1-3) only_log_fs(2) [OF q(4)] w by blast
qed

text \<open>The number of pages that \<open>n\<close> bytes from offset \<open>x\<close> on touch.\<close>

definition pages :: "nat \<Rightarrow> nat \<Rightarrow> nat" where
  "pages x n = (if n = 0 then 0 else Suc ((x + n - 1) div BSIZE) - x div BSIZE)"

lemma pages_step:
  assumes "0 < n" "m = min n (512 - x mod 512)"
  shows "pages x n = Suc (pages (x + m) (n - m))"
proof (cases "n \<le> 512 - x mod 512")
  case True
  have "x mod 512 < 512" by simp
  then have "(x + (n - 1)) div 512 = x div 512" using True assms(1) by (intro page_cell(1)) linarith
  then show ?thesis using True assms by (simp add: pages_def)
next
  case False
  obtain q r where x: "x = 512 * q + r" "r < 512" "x div 512 = q" "x mod 512 = r" using that [of "x div 512" "x mod 512"] by simp
  then have e: "x + m = 512 * Suc (x div 512)" using assms(2) False unfolding x(3,4) by simp
  then have "(x + m) div 512 = Suc (x div 512)" by simp
  moreover have "x + m + (n - m) = x + n" "0 < n - m" using assms False by (auto simp: min_def)
  moreover have "Suc (x div 512) \<le> (x + n - 1) div 512"
  proof -
    have "512 * Suc (x div 512) \<le> x + n - 1" using e calculation(2,3) by linarith
    then show ?thesis using div_le_mono [of "512 * Suc (x div 512)" "x + n - 1" 512] by simp
  qed
  ultimately show ?thesis using assms(1) by (simp add: pages_def Suc_diff_le)
qed

text \<open>Room for \<open>k\<close> more pages of file \<open>i\<close>, and for its indirect block.\<close>

definition iroom :: "u32 set \<Rightarrow> nat \<Rightarrow> nat \<Rightarrow> 'a fsst_scheme \<Rightarrow> bool" where
  "iroom M i k s \<longleftrightarrow> in_op s \<and> finite M \<and> bitmap_blocks s \<subseteq> M \<and> icost M i s + k < lim s \<and> card (held s) \<le> 1 \<and>
     k + due s i \<le> card (free_blocks s)"

lemma iroom_room:
  assumes "iroom M i k s" "1 \<le> k"
  obtains M' where "room M' (due s i + 1) s" "due s i + 1 \<le> card (free_blocks s)"
proof -
  have "room (M \<union> ({iblk s i} - {0})) (due s i + 1) s" using assms by (auto simp: room_def iroom_def icost_def)
  then show ?thesis using that assms by (simp add: iroom_def)
qed

lemma iroom_cost:
  assumes "iroom M i (c + k) s" "cost s i t c" "bitmap_blocks t = bitmap_blocks s" "lim t = lim s" "in_op t = in_op s" "held t = {}"
  shows "iroom M i k t" "room M k t"
proof -
  have "icost M i t \<le> icost M i s + c" "card (free_blocks s) + due t i \<le> card (free_blocks t) + due s i + c" "finite M"
    using assms(1,2) by (auto simp: iroom_def cost_def)
  then show "iroom M i k t" "room M k t" using assms icost_bounds(1) [of M t i] by (simp_all add: iroom_def room_def)
qed

lemma room_iroom:
  assumes "room M (Suc k) s" "Suc k \<le> card (free_blocks s)"
  shows "iroom M i k s"
  using assms icost_bounds(3) [of M i s] by (auto simp: room_def iroom_def due_def)

lemma writei_loop_spec:
  assumes "fs_ok s" "file_ok s i" "held s = {}" "x + length bs \<le> 71680" "iroom M i (pages x (length bs)) s"
  shows "\<exists>t. writei_loop i (of_nat x) bs s = Ok t \<and> wrote s i x bs t \<and> cost s i t (pages x (length bs))"
  using assms
proof (induction "length bs" arbitrary: x bs s rule: less_induct)
  case less
  show ?case
  proof (cases "bs = []")
    case True
    then show ?thesis using wrote_refl [OF less.prems(1-3)] by (simp add: writei_loop.simps pages_def cost_def)
  next
    case False
    let ?k = "x div 512" and ?p = "x mod 512"
    define m where "m = min (length bs) (512 - ?p)"
    define c where "c = pages (x + m) (length bs - m)"
    have m: "0 < m" "m \<le> length bs" "?p + m \<le> 512" using False by (auto simp: m_def)
    have pg: "pages x (length bs) = 1 + c" using pages_step [of "length bs" m x] False m_def by (simp add: c_def)
    have x: "x < 71680" "?k < MAXFILE" using less.prems(4) False by (cases bs; simp)+
    obtain M' where rm: "room M' (due s i + 1) s" "due s i + 1 \<le> card (free_blocks s)" using iroom_room [OF less.prems(5)] pg by auto
    obtain a s1 where b: "bmap i (of_nat ?k) s = Ok (a, s1)" "wrote s i x [] s1" "fblk s1 i ?k = a" "a \<noteq> 0" "cost s i s1 1"
        "a \<in> set (logged s1) \<or> cost s i s1 0"
      by (rule bmap_page [OF less.prems(1,2) x(2) less.prems(3) rm, of x])
    note w1 = wroteD [OF b(2)]
    obtain as1 where o1: "only_log (upd_inode i (\<lambda>ip. ip\<lparr>i_addrs := as1\<rparr>) s) s1" using w1(11) by blast
    note n1 = addrs_of [OF o1 file_okD(1) [OF less.prems(2)]]
    have r1: "room M c s1" using iroom_cost(2) [of M i 1 c s s1] less.prems(5) pg b(5) n1 w1(3) by simp
    then have r0: "room M 0 s1" by (simp add: room_def)
    have tk: "?p + length (take m bs) \<le> 512" using m by simp
    obtain bb s2 s3 t where p: "bread 1 a s1 = Ok (bb, s2)" "log_write bb (upd_data bb (\<lambda>d. blit d ?p (take m bs)) s2) = Ok s3" "brelse bb s3 = Ok t"
        "icache s2 = icache s1" "wrote s1 i (512 * ?k + ?p) (take m bs) t" "cost s1 i t 1" "a \<in> set (logged s1) \<Longrightarrow> cost s1 i t 0"
      by (rule write_page [OF w1(1,2) x(2) w1(3) r0 b(3,4) tk]) (rule that)
    have ct: "cost s i t 1"
      using b(6) cost_trans [OF b(5) p(7) n1(6)] cost_trans [of s i s1 0 t 1, OF _ p(6) n1(6)] by auto
    have wt: "wrote s i x (take m bs) t"
      using wrote_append [OF b(2), of "take m bs" t] p(5) file_okD(1) [OF less.prems(2)] less.prems(4) m by simp
    note w = wroteD [OF wt]
    obtain as2 where o2: "only_log (upd_inode i (\<lambda>ip. ip\<lparr>i_addrs := as2\<rparr>) s) t" using w(11) by blast
    note n = addrs_of [OF o2 file_okD(1) [OF less.prems(2)]]
    have rt: "iroom M i c t" using iroom_cost(1) [of M i 1 c s t] less.prems(5) pg ct n w(3) by simp
    have lb: "length (drop m bs) = length bs - m" "length (drop m bs) < length bs" using m by auto
    obtain u where u: "writei_loop i (of_nat (x + m)) (drop m bs) t = Ok u" "wrote t i (x + m) (drop m bs) u" "cost t i u c"
      using less.hyps [OF lb(2) w(1-3), of "x + m"] less.prems(4) m(2) rt lb(1) unfolding c_def by auto
    have "wrote s i x bs u"
      using wrote_append [OF wt, of "drop m bs" u] u(2) file_okD(1) [OF less.prems(2)] less.prems(4) m by (simp add: min_absorb2)
    moreover have "cost s i u (pages x (length bs))" using cost_trans [OF ct u(3) n(6)] pg by simp
    moreover have "writei_loop i (of_nat x) bs s = Ok u"
      using False b(1) p(1-4) u(1) x(1) off_page [OF x(1)] n1(1) file_okD(2) [OF less.prems(2)]
      by (subst writei_loop.simps) (simp add: unat_off Let_def flip: m_def)
    ultimately show ?thesis by blast
  qed
qed

text \<open>The blocks that a write of \<open>n\<close> bytes at offset \<open>x\<close> may log or allocate besides the free map and the inode: one
  for each page, and the indirect block.\<close>

definition charge :: "nat \<Rightarrow> nat \<Rightarrow> nat" where
  "charge x n = (if n = 0 then 0 else Suc (pages x n))"

lemma charge_le: "charge x n \<le> 2 * pages x n" "charge x n \<le> Suc (pages x n)"
proof -
  have "1 \<le> pages x n" if "n \<noteq> 0"
    using pages_step [of n "min n (512 - x mod 512)" x] that by simp
  then show "charge x n \<le> 2 * pages x n" "charge x n \<le> Suc (pages x n)" by (simp_all add: charge_def)
qed

definition spent :: "'a fsst_scheme \<Rightarrow> 'a fsst_scheme \<Rightarrow> nat \<Rightarrow> bool" where
  "spent s t c \<longleftrightarrow> (\<forall>M. finite M \<longrightarrow> bitmap_blocks s \<subseteq> M \<longrightarrow> lcost M t \<le> lcost M s + c) \<and> card (free_blocks s) \<le> card (free_blocks t) + c"

lemma cost_spent:
  assumes "cost s i t c"
  shows "spent s t (Suc c)"
proof -
  have "lcost M t \<le> lcost M s + Suc c" if "finite M" "bitmap_blocks s \<subseteq> M" for M
  proof -
    have "icost M i t \<le> icost M i s + c" using assms that by (simp add: cost_def)
    then show ?thesis using icost_bounds(1) [OF that(1), of t i] icost_bounds(3) [OF that(1), of i s] by simp
  qed
  moreover have "card (free_blocks s) \<le> card (free_blocks t) + Suc c" using assms by (auto simp: cost_def due_def split: if_splits)
  ultimately show ?thesis by (simp add: spent_def)
qed

lemma writei_loop_charge:
  assumes "fs_ok s" "file_ok s i" "held s = {}" "x + length bs \<le> 71680" "room M (charge x (length bs)) s" "charge x (length bs) \<le> card (free_blocks s)"
  shows "\<exists>t. writei_loop i (of_nat x) bs s = Ok t \<and> wrote s i x bs t \<and> spent s t (charge x (length bs))"
proof (cases "bs = []")
  case True
  then show ?thesis using wrote_refl [OF assms(1-3)] by (simp add: writei_loop.simps spent_def)
next
  case False
  then have c: "charge x (length bs) = Suc (pages x (length bs))" by (simp add: charge_def)
  have "iroom M i (pages x (length bs)) s" using assms(5,6) unfolding c by (rule room_iroom)
  from writei_loop_spec [OF assms(1-4) this] show ?thesis unfolding c using cost_spent by blast
qed

end
