(* ===== verification/FsRw.thy ===== *)
theory FsRw
  imports FsFile
begin

text \<open>
  \<open>iupdate\<close>, and \<open>readi\<close> and \<open>writei\<close> as a whole: what is written is read back, in this file only, and
  within the blocks that the log has room for.
\<close>

section \<open>The inode on the disk\<close>

lemma length_wr_words [simp]: "length (wr_words ws p d) = length d"
  by (induction ws p d rule: wr_words.induct) auto

lemma length_wr_dinode [simp]: "length (wr_dinode ip p d) = length d"
  by (simp add: wr_dinode_def Let_def)

lemma wr_words_low:
  "j + 3 < p \<Longrightarrow> rd32 (wr_words ws p d) j = rd32 d j" "j + 1 < p \<Longrightarrow> rd16 (wr_words ws p d) j = rd16 d j"
  by (induction ws p d rule: wr_words.induct) auto

lemma rd_wr_words: "p + 4 * length ws \<le> length d \<Longrightarrow> rd_words (length ws) p (wr_words ws p d) = ws"
  by (induction ws p d rule: wr_words.induct) (auto simp: wr_words_low)

text \<open>The values a \<open>short\<close> can have.\<close>

definition short_ok :: "inode \<Rightarrow> bool" where
  "short_ok ip \<longleftrightarrow> (\<forall>v\<in>{i_type ip, i_major ip, i_minor ip, i_nlink ip}. to_short v = v)"

lemma dinode_round:
  assumes "p + 64 \<le> length d" "length (i_addrs ip) = 13" "short_ok ip"
  shows "rd_dinode (wr_dinode ip p d) p ip = ip"
proof -
  have "rd_words 13 (p + 12) (wr_dinode ip p d) = i_addrs ip"
    using rd_wr_words [of "p + 12" "i_addrs ip"] assms(1,2) by (simp add: wr_dinode_def Let_def)
  moreover have "rd32 (wr_dinode ip p d) (p + 8) = i_size ip" using assms(1) by (simp add: wr_dinode_def Let_def wr_words_low)
  moreover have "rd16 (wr_dinode ip p d) p = word_of_int (i_type ip)" "rd16 (wr_dinode ip p d) (p + 2) = word_of_int (i_major ip)"
    "rd16 (wr_dinode ip p d) (p + 4) = word_of_int (i_minor ip)" "rd16 (wr_dinode ip p d) (p + 6) = word_of_int (i_nlink ip)"
    using assms(1) by (simp_all add: wr_dinode_def Let_def wr_words_low)
  ultimately show ?thesis using assms(3) by (simp add: rd_dinode_def short_ok_def to_short_def)
qed

text \<open>The inode in the cache agrees with the one on the disk.\<close>

definition synced :: "'a fsst_scheme \<Rightarrow> nat \<Rightarrow> bool" where
  "synced s i \<longleftrightarrow> (let ip = inode_of s i in
     rd_dinode (view s (IBLOCK (i_inum ip) (sblk s))) (64 * (unat (i_inum ip) mod 8)) ip = ip)"

lemma iupdate_spec:
  assumes "fs_ok s" "file_ok s i" "held s = {}" "room M 0 s" "IBLOCK (i_inum (inode_of s i)) (sblk s) \<in> M"
  obtains t where "iupdate i s = Ok t" "fs_ok t" "file_ok t i" "held t = {}" "only_log s t" "\<And>y. y < 71680 \<Longrightarrow> fbyte t i y = fbyte s i y" "fblk t i = fblk s i"
    "fset t i = fset s i" "used t = used s" "lcost M t \<le> lcost M s" "short_ok (inode_of s i) \<Longrightarrow> synced t i"
    "\<And>b. b \<noteq> IBLOCK (i_inum (inode_of s i)) (sblk s) \<Longrightarrow> view t b = view s b"
proof -
  let ?ip = "inode_of s i" and ?I = "IBLOCK (i_inum (inode_of s i)) (sblk s)"
  let ?f = "wr_dinode ?ip (64 * (unat (i_inum ?ip) mod 8))"
  have li: "log_in s" using assms(1) by (simp add: fs_ok_def)
  note f = file_okD [OF assms(2)] and rm = room_log [OF li assms(4)]
  note I = inode_home [OF assms(1) f(3)]
  have len: "length (view s b) = 512" for b using li by (simp add: log_in_def view_length)
  obtain b s1 s2 t where q: "bread 1 ?I s = Ok (b, s1)" "log_write b (upd_data b ?f s1) = Ok s2" "brelse b s2 = Ok t" "keeps s t"
      "view t = (view s)(?I := ?f (view s ?I))" "set (logged t) = insert ?I (set (logged s))"
    by (rule modify_block [of s ?I ?f, OF li I(1) _ rm(2,3) _ rm(4)]) (use assms(3) len in auto)
  have ot: "only_log s t" "log_in t" "held t = {}" using q(4) assms(3) by (auto simp: keeps_def)
  note o = only_log_fs [OF ot(1)]
  have u: "used t = used s" by (intro used_view) (use o q(5) I(4) in \<open>auto simp: bitmap_blocks_def\<close>)
  have ib: "iblk t i = iblk s i" "iblk s i \<noteq> 0 \<Longrightarrow> view t (iblk s i) = view s (iblk s i)" using o(2) q(5) I(2) f(6) by (auto simp: iblk_def)
  then have fb: "fblk t i = fblk s i" using o(2) by (auto simp: fblk_def fun_eq_iff)
  have ok: "fs_ok t" "file_ok t i" "fset t i = fset s i" "free_blocks t = free_blocks s"
    using assms(1,2) o u ot(2) ib fb by (simp_all add: fs_ok_def file_ok_def fset_def free_blocks_def)
  have fy: "fbyte t i y = fbyte s i y" if "y < 71680" for y
  proof -
    have "y div 512 < MAXFILE" using that by simp
    then have "fblk s i (y div 512) \<noteq> ?I" if "fblk s i (y div 512) \<noteq> 0" using f(8) [OF _ that] I(2) by auto
    then show ?thesis using fb q(5) by (simp add: fbyte_def)
  qed
  have fM: "finite M" using assms(4) by (simp add: room_def)
  have cM: "lcost M t \<le> lcost M s" using lcost_insert [OF fM, of t s "{}"] q(6) assms(5) by auto
  have sy: "synced t i" if "short_ok ?ip"
    using dinode_round [of "64 * (unat (i_inum ?ip) mod 8)" "view s ?I" ?ip] that len f(4) o q(5) by (simp add: synced_def Let_def)
  have run: "iupdate i s = Ok t" using q(1-3) f(2) by (simp add: iupdate_def Let_def)
  show ?thesis by (rule that [OF run ok(1,2) ot(3,1) fy fb ok(3) u cM sy]) (simp_all add: q(5))
qed

section \<open>Reading and writing\<close>

lemma small_off: "x < 2 ^ 31 \<Longrightarrow> unat (of_nat x :: u32) = x" "x < 2 ^ 31 \<Longrightarrow> to_int (of_nat x) = int x"
proof -
  assume x: "x < 2 ^ 31"
  then show u: "unat (of_nat x :: u32) = x" by (intro unat_off) simp
  have "uint (of_nat x :: u32) = int x" using u by (metis uint_nat)
  then show "to_int (of_nat x) = int x" using x by (simp add: to_int_cases word_less_def)
qed

lemma off_le: "x < 2 ^ 31 \<Longrightarrow> (of_nat x :: u32) \<le> w \<longleftrightarrow> x \<le> unat w"
  by (simp add: word_le_nat_alt small_off)

text \<open>The bytes below the size of the file have blocks.\<close>

definition no_holes :: "'a fsst_scheme \<Rightarrow> nat \<Rightarrow> bool" where
  "no_holes s i \<longleftrightarrow> unat (i_size (inode_of s i)) \<le> 71680 \<and> (\<forall>y<unat (i_size (inode_of s i)). fblk s i (y div BSIZE) \<noteq> 0)"

lemma readi_spec:
  assumes "fs_ok s" "file_ok s i" "held s = {}" "length (logged s) < 30" "no_holes s i" "i_type (inode_of s i) \<noteq> T_DEV"
    "x \<le> unat (i_size (inode_of s i))" "n < 2 ^ 31"
  defines "k \<equiv> min n (unat (i_size (inode_of s i)) - x)"
  shows "\<exists>t. readi dv i (of_nat x) (of_nat n) s = Ok (int k, map (fbyte s i) [x..<x + k], t) \<and> keeps s t \<and> view t = view s \<and> logged t = logged s"
proof -
  let ?z = "i_size (inode_of s i)"
  have z: "unat ?z \<le> 71680" "x \<le> 71680" using assms(5,7) by (auto simp: no_holes_def)
  have xn: "unat (of_nat x + of_nat n :: u32) = x + n"
    using unat_off [of "x + n"] z(2) assms(8) by simp
  define m where "m = (if of_nat x + of_nat n > ?z then ?z - of_nat x else of_nat n :: u32)"
  have um: "unat m = k"
    using xn assms(7) z by (auto simp: m_def k_def word_less_nat_alt unat_sub_if_size word_size small_off)
  have "\<not> ?z < of_nat x" "\<not> of_nat x + of_nat n < (of_nat x :: u32)" using assms(7) xn z by (auto simp: word_less_nat_alt small_off)
  then have run: "readi dv i (of_nat x) (of_nat n) s = obind (readi_loop i (of_nat x) (unat m) s) (\<lambda>(bs, s). Ok (to_int m, bs, s))"
    using assms(6) by (simp add: readi_def Let_def m_def)
  have k: "x + k \<le> unat ?z" using assms(7) by (simp add: k_def)
  have "\<exists>t. readi_loop i (of_nat x) k s = Ok (map (fbyte s i) [x..<x + k], t) \<and> keeps s t \<and> view t = view s \<and> logged t = logged s"
    by (rule readi_loop_spec [OF assms(1-4)]) (use k z(1) assms(5) in \<open>auto simp: no_holes_def\<close>)
  moreover have "m = of_nat k" unfolding um [symmetric] by simp
  then have "to_int m = int k" using small_off(2) [of k] k z(1) by simp
  ultimately show ?thesis unfolding run um by auto
qed

text \<open>The blocks a write may change besides those of the file: the free map and the block of the inode.\<close>

definition meta_of :: "'a fsst_scheme \<Rightarrow> nat \<Rightarrow> u32 set" where
  "meta_of s i = insert (IBLOCK (i_inum (inode_of s i)) (sblk s)) (bitmap_blocks s)"

definition write_post :: "'a fsst_scheme \<Rightarrow> nat \<Rightarrow> nat \<Rightarrow> u8 list \<Rightarrow> 'a fsst_scheme \<Rightarrow> bool" where
  "write_post s i x bs t \<longleftrightarrow> fs_ok t \<and> file_ok t i \<and> held t = {} \<and>
     (\<forall>y<71680. fbyte t i y = (if x \<le> y \<and> y < x + length bs then bs ! (y - x) else fbyte s i y)) \<and>
     unat (i_size (inode_of t i)) = max (unat (i_size (inode_of s i))) (x + length bs) \<and> no_holes t i \<and>
     (\<forall>b. used s b \<longrightarrow> b \<notin> meta_of s i \<longrightarrow> b \<notin> fset s i \<longrightarrow> view t b = view s b \<and> used t b) \<and>
     lcost (meta_of s i) t \<le> lcost (meta_of s i) s + charge x (length bs) \<and>
     i_type (inode_of t i) = i_type (inode_of s i) \<and> (\<forall>j. j \<noteq> i \<longrightarrow> inode_of t j = inode_of s j) \<and> lim t = lim s \<and>
     length (icache t) = length (icache s) \<and> (unat (i_size (inode_of s i)) < x + length bs \<longrightarrow> short_ok (inode_of s i) \<longrightarrow> synced t i) \<and>
     (\<exists>as z. only_log (upd_inode i (\<lambda>ip. ip\<lparr>i_addrs := as, i_size := z\<rparr>) s) t) \<and> fset t i \<subseteq> fset s i \<union> free_blocks s \<and> card (free_blocks s) \<le> card (free_blocks t) + charge x (length bs)"

lemma only_log_inode:
  assumes "only_log (upd_inode i (\<lambda>ip. ip\<lparr>i_addrs := as\<rparr>) s) t"
  shows "only_log (upd_inode i (\<lambda>ip. ip\<lparr>i_addrs := as, i_size := i_size (inode_of s i)\<rparr>) s) t"
  using assms by (simp add: upd_inode_def)

lemma upd_size:
  assumes "i < length (icache s)"
  shows "file_ok (upd_inode i (\<lambda>ip. ip\<lparr>i_size := z\<rparr>) s) i = file_ok s i" "fblk (upd_inode i (\<lambda>ip. ip\<lparr>i_size := z\<rparr>) s) i = fblk s i"
    "fbyte (upd_inode i (\<lambda>ip. ip\<lparr>i_size := z\<rparr>) s) i = fbyte s i" "iblk (upd_inode i (\<lambda>ip. ip\<lparr>i_size := z\<rparr>) s) i = iblk s i"
proof -
  let ?t = "upd_inode i (\<lambda>ip. ip\<lparr>i_size := z\<rparr>) s"
  show ib: "iblk ?t i = iblk s i" using assms by (simp add: iblk_def upd_inode_nth)
  then show fb: "fblk ?t i = fblk s i" using assms by (simp add: fblk_def [abs_def] upd_inode_nth cong: if_cong)
  then show "file_ok ?t i = file_ok s i" "fbyte ?t i = fbyte s i"
    using ib assms by (simp_all add: file_ok_def fbyte_def [abs_def] upd_inode_nth cong: if_cong)
qed

lemma writei_spec:
  assumes "fs_ok s" "file_ok s i" "held s = {}" "no_holes s i" "i_type (inode_of s i) \<noteq> T_DEV" "x \<le> unat (i_size (inode_of s i))"
    "x + length bs \<le> 71680" "room (meta_of s i) (charge x (length bs)) s" "charge x (length bs) \<le> card (free_blocks s)"
  shows "\<exists>t. writei dv i bs (of_nat x) s = Ok (int (length bs), t) \<and> write_post s i x bs t"
proof -
  let ?n = "length bs" and ?z = "i_size (inode_of s i)" and ?M = "meta_of s i"
  have f: "i < length (icache s)" using file_okD(1) [OF assms(2)] .
  define N :: u32 where "N = of_nat (x + ?n)"
  have xn: "of_nat x + of_nat ?n = N" "unat N = x + ?n" "unat (of_nat x :: u32) = x" "to_int (of_nat ?n) = int ?n"
    using small_off [of "x + ?n"] small_off [of x] small_off [of ?n] assms(7) by (simp_all add: N_def)
  obtain t where t: "writei_loop i (of_nat x) bs s = Ok t" "wrote s i x bs t" "spent s t (charge x ?n)"
    using writei_loop_charge [OF assms(1-3,7-9)] by blast
  note w = wroteD [OF t(2)]
  obtain as where o: "only_log (upd_inode i (\<lambda>ip. ip\<lparr>i_addrs := as\<rparr>) s) t" using w(11) by blast
  note n = addrs_of [OF o f]
  have fM: "finite ?M" "bitmap_blocks s \<subseteq> ?M" using assms(8) by (auto simp: room_def)
  have ct: "lcost ?M t \<le> lcost ?M s + charge x ?n" using t(3) fM by (simp add: spent_def)
  have go: "\<not> ?z < of_nat x" "\<not> N < of_nat x" "\<not> 71680 < unat N"
    using assms(6,7) xn by (auto simp: word_less_nat_alt)
  have run: "writei dv i bs (of_nat x) s = obind (if N > i_size (inode_of t i) \<and> bs \<noteq> [] then
      iupdate i (upd_inode i (\<lambda>ip. ip\<lparr>i_size := N\<rparr>) t) else Ok t) (\<lambda>s. Ok (int ?n, s))"
  proof -
    have "(of_nat ?n :: u32) > 0 \<longleftrightarrow> bs \<noteq> []" using small_off(1) [of ?n] assms(7) by (simp add: word_less_nat_alt)
    then show ?thesis unfolding writei_def Let_def xn(1) using go assms(5) t(1) xn(4) by (simp add: conj_commute)
  qed
  have hole: "fblk t i (y div 512) \<noteq> 0" if "y < max (unat ?z) (x + ?n)" for y
  proof (cases "x \<le> y \<and> y < x + ?n")
    case False
    then have "y < unat ?z" using that assms(6) by auto
    then have "fblk s i (y div 512) \<noteq> 0" "y div 512 < MAXFILE" using assms(4) by (auto simp: no_holes_def)
    then show ?thesis using w(6) by metis
  qed (use w(5) in auto)
  have fr: "view t b = view s b \<and> used t b" if "used s b" "b \<notin> ?M" "b \<notin> fset s i" for b
    using w(7,8) [of b] that by (auto simp: meta_of_def)
  have fc: "card (free_blocks s) \<le> card (free_blocks t) + charge x ?n" using t(3) by (simp add: spent_def)
  show ?thesis
  proof (cases "unat ?z < x + ?n \<and> bs \<noteq> []")
    case False
    then have le: "x + ?n \<le> unat ?z" using assms(6) by auto
    then have nb: "\<not> (N > i_size (inode_of t i) \<and> bs \<noteq> [])" using n(1) xn(2) by (simp add: word_less_nat_alt)
    have "writei dv i bs (of_nat x) s = Ok (int ?n, t)" unfolding run if_not_P [OF nb] by simp
    moreover have "no_holes t i" using hole n(1) assms(4) le by (simp add: no_holes_def)
    ultimately show ?thesis using w(1-4) fr ct n(1,2,5,7) le only_log_inode [OF o] fc w(9) by (auto simp: write_post_def)
  next
    case True
    let ?u = "upd_inode i (\<lambda>ip. ip\<lparr>i_size := N\<rparr>) t"
    have ft: "i < length (icache t)" using file_okD(1) [OF w(2)] .
    note us = upd_size [OF ft, of "N"] and ui = upd_inode_nth [OF ft]
    have I: "IBLOCK (i_inum (inode_of ?u i)) (sblk ?u) = IBLOCK (i_inum (inode_of s i)) (sblk s)" using n(1,3) ui by simp
    have rm: "room ?M 0 ?u" using assms(8) ct n w(3) by (simp add: room_def)
    obtain v where v: "iupdate i ?u = Ok v" "fs_ok v" "file_ok v i" "held v = {}" "only_log ?u v" "\<And>y. y < 71680 \<Longrightarrow> fbyte v i y = fbyte ?u i y"
        "fblk v i = fblk ?u i" "fset v i = fset ?u i" "used v = used ?u" "lcost ?M v \<le> lcost ?M ?u" "short_ok (inode_of ?u i) \<Longrightarrow> synced v i"
        "\<And>b. b \<noteq> IBLOCK (i_inum (inode_of s i)) (sblk s) \<Longrightarrow> view v b = view ?u b"
      by (rule iupdate_spec [of ?u i ?M, unfolded I]) (use w(1-3) us rm in \<open>auto simp: meta_of_def\<close>)
    have iv: "inode_of v i = (inode_of s i)\<lparr>i_addrs := as, i_size := N\<rparr>"
      using only_log_fs(2) [OF v(5)] ui n(1) by simp
    have yb: "N > i_size (inode_of t i) \<and> bs \<noteq> []" using True n(1) xn(2) by (simp add: word_less_nat_alt)
    have "writei dv i bs (of_nat x) s = Ok (int ?n, v)" unfolding run if_P [OF yb] using v(1) by simp
    moreover have "no_holes v i" using hole iv v(7) us xn(2) assms(7) True by (simp add: no_holes_def)
    moreover have "view v b = view s b \<and> used v b" if "used s b" "b \<notin> ?M" "b \<notin> fset s i" for b
      using fr [OF that] v(9) v(12) [of b] that(2) by (simp add: meta_of_def)
    moreover have "unat (i_size (inode_of v i)) = max (unat ?z) (x + ?n)" using iv xn(2) True by simp
    moreover have "fbyte v i y = (if x \<le> y \<and> y < x + ?n then bs ! (y - x) else fbyte s i y)" if "y < 71680" for y
      using v(6) [OF that] w(4) [OF that] us(3) by simp
    moreover have "synced v i" if "short_ok (inode_of s i)" using that v(11) ui n(1) by (simp add: short_ok_def)
    moreover have "lcost ?M v \<le> lcost ?M s + charge x ?n" using v(10) ct by simp
    moreover have "inode_of v j = inode_of s j" if "j \<noteq> i" for j using only_log_fs(2) [OF v(5)] ui n(5) that by simp
    moreover have "lim v = lim s" using lim_frame(1) [OF v(5)] n(7) by simp
    moreover have "length (icache v) = length (icache s)" using only_log_fs(2) [OF v(5)] n(2) by simp
    moreover have "card (free_blocks s) \<le> card (free_blocks v) + charge x ?n"
      using fc v(9) only_log_fs(1) [OF v(5)] by (simp add: free_blocks_def)
    moreover have "only_log (upd_inode i (\<lambda>ip. ip\<lparr>i_addrs := as, i_size := N\<rparr>) s) v"
      using only_log_trans [OF only_log_upd [OF o] v(5)] f by (simp add: upd_inode_def)
    moreover have "fset v i \<subseteq> fset s i \<union> free_blocks s" using v(8) us w(9) by (simp add: fset_def)
    ultimately show ?thesis using v(2-4) iv by (auto simp: write_post_def)
  qed
qed

text \<open>Twice the number of pages is enough.\<close>

lemma charge_room:
  assumes "room M (2 * pages x n) s" "2 * pages x n \<le> card (free_blocks s)"
  shows "room M (charge x n) s" "charge x n \<le> card (free_blocks s)"
  using assms charge_le(1) [of x n] by (auto simp: room_def)

section \<open>Other files\<close>

lemma other_file:
  assumes "inode_of t j = inode_of s j" "\<And>b. b \<in> fset s j \<Longrightarrow> view t b = view s b"
  shows "\<And>k. k < MAXFILE \<Longrightarrow> fblk t j k = fblk s j k" "\<And>y. y < 71680 \<Longrightarrow> fbyte t j y = fbyte s j y"
proof -
  have ib: "iblk t j = iblk s j" by (simp add: iblk_def assms(1))
  have "view t (iblk s j) = view s (iblk s j)" if "iblk s j \<noteq> 0" by (rule assms(2)) (simp add: fset_def that)
  then show fb: "fblk t j k = fblk s j k" if "k < MAXFILE" for k using ib assms(1) by (simp add: fblk_def)
  show "fbyte t j y = fbyte s j y" if "y < 71680" for y
  proof -
    have k: "y div 512 < MAXFILE" using that by simp
    have "view t (fblk s j (y div 512)) = view s (fblk s j (y div 512))" if "fblk s j (y div 512) \<noteq> 0"
      by (rule assms(2)) (use k that in \<open>auto simp: fset_def\<close>)
    then show ?thesis using fb [OF k] by (simp add: fbyte_def)
  qed
qed

lemma fset_used:
  assumes "file_ok s j" "b \<in> fset s j"
  shows "used s b" "b \<notin> meta s"
  using assms file_okD(5-8) [OF assms(1)] by (auto simp: fset_def)

lemma write_other:
  assumes "write_post s i x bs t" "file_ok s i" "file_ok s j" "j \<noteq> i" "fset s j \<inter> fset s i = {}" "fs_ok s"
  shows "\<And>k. k < MAXFILE \<Longrightarrow> fblk t j k = fblk s j k" "\<And>y. y < 71680 \<Longrightarrow> fbyte t j y = fbyte s j y"
proof -
  have same: "view t b = view s b" if "b \<in> fset s j" for b
  proof -
    have "meta_of s i \<subseteq> meta s" using inode_home(2) [OF assms(6) file_okD(3) [OF assms(2)]] by (auto simp: meta_of_def meta_def)
    then show ?thesis using assms(1,5) that fset_used [OF assms(3) that] unfolding write_post_def by blast
  qed
  have i: "inode_of t j = inode_of s j" using assms(1,4) by (simp add: write_post_def)
  show "\<And>k. k < MAXFILE \<Longrightarrow> fblk t j k = fblk s j k" "\<And>y. y < 71680 \<Longrightarrow> fbyte t j y = fbyte s j y"
    by (rule other_file [OF i same], assumption+)+
qed

section \<open>Properties\<close>

text \<open>C2. \<open>writei\<close> changes exactly the bytes it is given. For a sound file system and a file without holes,
  with room in the log for two blocks per page touched and that many free blocks, writing \<open>bs\<close> at an
  offset within or at the end of the file succeeds; the file then has the bytes \<open>bs\<close> there and its old
  bytes elsewhere, also across the direct and indirect blocks and in blocks allocated on the way; the
  size grows as needed and the inode is then on the disk; and no byte of any other file changes.\<close>

theorem writei_contents:
  assumes "fs_ok s" "file_ok s i" "held s = {}" "no_holes s i" "i_type (inode_of s i) \<noteq> T_DEV" "short_ok (inode_of s i)"
    "x \<le> unat (i_size (inode_of s i))" "x + length bs \<le> MAXFILE * BSIZE" "room (meta_of s i) (2 * pages x (length bs)) s"
    "2 * pages x (length bs) \<le> card (free_blocks s)"
  shows "\<exists>t. writei dv i bs (of_nat x) s = Ok (int (length bs), t) \<and> fs_ok t \<and> file_ok t i \<and> no_holes t i \<and> held t = {} \<and>
    (\<forall>y<MAXFILE * BSIZE. fbyte t i y = (if x \<le> y \<and> y < x + length bs then bs ! (y - x) else fbyte s i y)) \<and>
    unat (i_size (inode_of t i)) = max (unat (i_size (inode_of s i))) (x + length bs) \<and>
    (unat (i_size (inode_of s i)) < x + length bs \<longrightarrow> synced t i) \<and>
    (\<forall>j. file_ok s j \<longrightarrow> j \<noteq> i \<longrightarrow> fset s j \<inter> fset s i = {} \<longrightarrow> (\<forall>y<MAXFILE * BSIZE. fbyte t j y = fbyte s j y))"
proof -
  obtain t where t: "writei dv i bs (of_nat x) s = Ok (int (length bs), t)" "write_post s i x bs t"
    using writei_spec [OF assms(1-5,7) _ charge_room [OF assms(9,10)]] assms(8) by auto
  then show ?thesis using write_other [OF t(2) assms(2) _ _ _ assms(1)] assms(6) unfolding write_post_def by (intro exI [of _ t]) auto
qed

text \<open>C13. What is written is read back: after \<open>writei\<close> of \<open>bs\<close> at offset \<open>x\<close>, \<open>readi\<close> of any range of the file
  returns the bytes of \<open>bs\<close> inside the written range and the former bytes of the file outside it, and
  changes nothing.\<close>

theorem writei_readi:
  assumes "fs_ok s" "file_ok s i" "held s = {}" "no_holes s i" "i_type (inode_of s i) \<noteq> T_DEV"
    "x \<le> unat (i_size (inode_of s i))" "x + length bs \<le> MAXFILE * BSIZE" "room (meta_of s i) (2 * pages x (length bs)) s"
    "2 * pages x (length bs) \<le> card (free_blocks s)" "a + n \<le> max (unat (i_size (inode_of s i))) (x + length bs)"
  shows "\<exists>t u. writei dv i bs (of_nat x) s = Ok (int (length bs), t) \<and>
    readi dv i (of_nat a) (of_nat n) t = Ok (int n, map (\<lambda>y. if x \<le> y \<and> y < x + length bs then bs ! (y - x) else fbyte s i y) [a..<a + n], u) \<and>
    view u = view t"
proof -
  obtain t where t: "writei dv i bs (of_nat x) s = Ok (int (length bs), t)" "write_post s i x bs t"
    using writei_spec [OF assms(1-6) _ charge_room [OF assms(8,9)]] assms(7) by auto
  let ?z = "unat (i_size (inode_of t i))"
  have p: "fs_ok t" "file_ok t i" "held t = {}" "no_holes t i" "i_type (inode_of t i) \<noteq> T_DEV" "?z = max (unat (i_size (inode_of s i))) (x + length bs)"
      "lcost (meta_of s i) t \<le> lcost (meta_of s i) s + charge x (length bs)" "lim t = lim s"
      "\<And>y. y < 71680 \<Longrightarrow> fbyte t i y = (if x \<le> y \<and> y < x + length bs then bs ! (y - x) else fbyte s i y)"
    using t(2) assms(5) by (simp_all add: write_post_def)
  have li: "log_in t" "log_in s" using p(1) assms(1) by (simp_all add: fs_ok_def)
  have "length (logged t) < 30"
    using lcost_logged [OF li(1), of "meta_of s i"] p(7) charge_room(1) [OF assms(8,9)] lim_le [OF li(2)] by (simp add: room_def)
  moreover have z: "?z \<le> 71680" "a \<le> ?z" "n < 2 ^ 31" "min n (?z - a) = n" using p(4,6) assms(10) by (auto simp: no_holes_def)
  ultimately obtain u where "readi dv i (of_nat a) (of_nat n) t = Ok (int n, map (fbyte t i) [a..<a + n], u)" "view u = view t"
    using readi_spec [OF p(1-3) _ p(4,5), of a n dv] by auto
  moreover have "map (fbyte t i) [a..<a + n] = map (\<lambda>y. if x \<le> y \<and> y < x + length bs then bs ! (y - x) else fbyte s i y) [a..<a + n]"
    using p(6,9) z assms(10) by (intro map_cong) auto
  ultimately show ?thesis using t(1) by auto
qed

section \<open>Witnesses\<close>

text \<open>A disk as mkfs lays it out: the log in blocks 2 to 31, inodes in 32 to 57, the free map in block 58
  with the first 64 blocks in use; and a cached empty file with inode number 2.\<close>

definition demo_disk :: "u32 \<Rightarrow> u8 list" where
  "demo_disk b = (if b = 58 then replicate 8 (- 1) @ replicate 504 0 else replicate 512 0)"

definition demo_sb :: superblock where
  "demo_sb = \<lparr>sb_size = 1000, sb_nblocks = 941, sb_ninodes = 200, sb_nlog = 30, sb_logstart = 2, sb_inodestart = 32, sb_bmapstart = 58\<rparr>"

definition demo_inode :: inode where
  "demo_inode = \<lparr>i_dev = 1, i_inum = 2, i_ref = 1, i_lock = \<lparr>locked = True, lpid = 1\<rparr>, i_valid = True, i_type = 2, i_major = 0, i_minor = 0,
     i_nlink = 1, i_size = 0, i_addrs = replicate 13 0\<rparr>"

definition demo_fs :: fsst where
  "demo_fs = (boot \<lparr>disk = demo_disk, disksize = 1000, bufs = [], cur_pid = 1, written = [],
     log_start = 2, log_size = 30, outstanding = 0, committing = False, log_dev = 1, lh_n = 0, lh_block = replicate 30 0,
     sblk = demo_sb, icache = [demo_inode, demo_inode\<lparr>i_ref := 0\<rparr>], cur_cwd = 0\<rparr> demo_disk)\<lparr>outstanding := 1\<rparr>"

lemma boot_fields [simp]: "sblk (boot s D) = sblk s" "icache (boot s D) = icache s" "log_start (boot s D) = log_start s"
    "log_size (boot s D) = log_size s" "log_dev (boot s D) = log_dev s"
proof -
  let ?u = "s\<lparr>disk := D, bufs := replicate (Suc NBUF) buf_zero, written := []\<rparr>"
  have "only_blk ?u (binit ?u)" by (rule only_blk_binit)
  then obtain B D' W where "binit ?u = ?u\<lparr>bufs := B, disk := D', written := W\<rparr>" unfolding only_blk_def by blast
  then have "boot s D = ?u\<lparr>bufs := B, disk := D', written := W, outstanding := 0, committing := False, lh_n := 0, lh_block := replicate 30 0\<rparr>"
    unfolding boot_def by simp
  then show "sblk (boot s D) = sblk s" "icache (boot s D) = icache s" "log_start (boot s D) = log_start s"
    "log_size (boot s D) = log_size s" "log_dev (boot s D) = log_dev s" by simp_all
qed

lemma demo_fs_log: "log_in demo_fs" "held demo_fs = {}" "view demo_fs = demo_disk" "logged demo_fs = []" "in_op demo_fs"
    "sblk demo_fs = demo_sb" "icache demo_fs = [demo_inode, demo_inode\<lparr>i_ref := 0\<rparr>]" "log_size demo_fs = 30" "disksize demo_fs = 1000" "log_start demo_fs = 2"
proof -
  let ?s = "\<lparr>disk = demo_disk, disksize = 1000, bufs = [], cur_pid = 1, written = [],
     log_start = 2, log_size = 30, outstanding = 0, committing = False, log_dev = 1, lh_n = 0, lh_block = replicate 30 0,
     sblk = demo_sb, icache = [demo_inode, demo_inode\<lparr>i_ref := 0\<rparr>], cur_cwd = 0\<rparr> :: fsst"
  have g: "log_geom ?s" by (simp add: log_geom_def)
  have "length (demo_disk b) = 512" for b by (simp add: demo_disk_def)
  note b = boot_ok [of ?s demo_disk, OF g this]
  have k: "bc_ok demo_fs" "view demo_fs = demo_disk" "held demo_fs = {}" "dirty demo_fs = {}"
    using b same_blk [of demo_fs "boot ?s demo_disk"] by (simp_all add: demo_fs_def)
  show "view demo_fs = demo_disk" "held demo_fs = {}" by (rule k)+
  show f: "sblk demo_fs = demo_sb" "icache demo_fs = [demo_inode, demo_inode\<lparr>i_ref := 0\<rparr>]" "log_size demo_fs = 30" "disksize demo_fs = 1000" "log_start demo_fs = 2" "in_op demo_fs"
    using b(11) by (simp_all add: demo_fs_def in_op_def)
  have l: "lh_n demo_fs = 0" "length (lh_block demo_fs) = 30" "log_dev demo_fs = 1" by (simp_all add: demo_fs_def) (simp_all add: boot_def)
  then show lg: "logged demo_fs = []" by (simp add: logged_def)
  show "log_in demo_fs" using k f l lg by (simp add: log_in_def log_geom_def log_lists_def)
qed

lemma demo_used: "b < 64 \<Longrightarrow> used demo_fs b" "64 \<le> b \<Longrightarrow> b < 128 \<Longrightarrow> b \<in> free_blocks demo_fs"
proof -
  have B: "BBLOCK b demo_sb = 58" if "b < 4096" for b
  proof -
    have "b div 4096 = 0" using that by (simp add: word_uint_eq_iff uint_div_distrib word_less_def)
    then show ?thesis by (simp add: BBLOCK_def demo_sb_def)
  qed
  have d: "bit_used (demo_disk 58) n \<longleftrightarrow> n < 64" if "n < 512" for n
    using that by (auto simp: bit_used_iff demo_disk_def nth_append)
  show "used demo_fs b" if "b < 64"
  proof -
    have "b < 1000" "b < 4096" "unat b < 64" using that by (auto simp: word_less_nat_alt)
    then show ?thesis using B d by (simp add: used_def demo_fs_log demo_sb_def)
  qed
  show "b \<in> free_blocks demo_fs" if "64 \<le> b" "b < 128"
  proof -
    have "b < 1000" "b < 4096" "\<not> unat b < 64" "unat b < 128" using that by (auto simp: word_less_nat_alt word_le_nat_alt)
    then show ?thesis using B d by (simp add: free_blocks_def used_def demo_fs_log demo_sb_def)
  qed
qed

lemma demo_areas:
  "bitmap_blocks demo_fs = {58}" "b \<in> inode_blocks demo_fs \<Longrightarrow> 32 \<le> uint b \<and> uint b < 58" "b \<in> log_area demo_fs \<Longrightarrow> 2 \<le> uint b \<and> uint b < 32"
proof -
  have b: "BBLOCK b demo_sb = 58" if "b < 1000" for b
  proof -
    have "b div 4096 = 0" using that by (simp add: word_uint_eq_iff uint_div_distrib word_less_def)
    then show ?thesis by (simp add: BBLOCK_def demo_sb_def)
  qed
  have n: "sb_size demo_sb = 1000" "sb_ninodes demo_sb = 200" by (simp_all add: demo_sb_def)
  have "\<exists>b. 58 = BBLOCK b demo_sb \<and> b < 1000" using b [of 0] by (intro exI [of _ 0]) simp
  then show "bitmap_blocks demo_fs = {58}" unfolding bitmap_blocks_def demo_fs_log n using b by (intro equalityI subsetI) auto
  show "32 \<le> uint b \<and> uint b < 58" if a: "b \<in> inode_blocks demo_fs" for b
  proof -
    obtain i where i: "b = IBLOCK i demo_sb" "i < 200" using a unfolding inode_blocks_def demo_fs_log n by blast
    have "uint (i div 8) < 26" using i(2) by (simp add: uint_div_distrib word_less_def)
    then show ?thesis using i(1) uint_ge_0 [of "i div 8"] by (simp add: IBLOCK_def demo_sb_def uint_word_ariths)
  qed
  show "2 \<le> uint b \<and> uint b < 32" if a: "b \<in> log_area demo_fs" for b
  proof -
    obtain k where "b = to_uint (2 + int k)" "k < 30" using a by (auto simp: log_area_def lblk_def demo_fs_log)
    then show ?thesis by (simp add: uint_to_uint)
  qed
qed

lemma demo_fs_ok: "fs_ok demo_fs" "file_ok demo_fs 0" "no_holes demo_fs 0" "short_ok (inode_of demo_fs 0)" "meta_of demo_fs 0 = {32, 58}"
    "room {32, 58} 2 demo_fs" "2 \<le> card (free_blocks demo_fs)" "i_type (inode_of demo_fs 0) = 2" "i_size (inode_of demo_fs 0) = 0"
proof -
  note l = demo_fs_log and a = demo_areas
  have m: "used demo_fs b" if "b \<in> meta demo_fs" for b
  proof -
    have "uint b < 64" using that a(1) a(2,3) [of b] by (auto simp: meta_def)
    then show ?thesis by (intro demo_used(1)) (simp add: word_less_def)
  qed
  have "bitmap_blocks demo_fs \<inter> log_area demo_fs = {}" "bitmap_blocks demo_fs \<inter> inode_blocks demo_fs = {}" using a by fastforce+
  moreover have "inode_blocks demo_fs \<inter> log_area demo_fs = {}" using a(2,3) by fastforce
  ultimately show "fs_ok demo_fs" using m l by (simp add: fs_ok_def fs_geom_def demo_sb_def)
  have ib: "iblk demo_fs 0 = 0" "k < MAXFILE \<Longrightarrow> fblk demo_fs 0 k = 0" for k
    using l(7) by (simp_all add: iblk_def fblk_def demo_inode_def nth_replicate)
  show "file_ok demo_fs 0" using ib l by (simp add: file_ok_def demo_inode_def demo_sb_def)
  show "no_holes demo_fs 0" "short_ok (inode_of demo_fs 0)" "i_type (inode_of demo_fs 0) = 2" "i_size (inode_of demo_fs 0) = 0"
    using l(7) by (simp_all add: no_holes_def demo_inode_def short_ok_def to_short_def)
  show mo: "meta_of demo_fs 0 = {32, 58}" using a(1) l by (simp add: meta_of_def IBLOCK_def demo_inode_def demo_sb_def)
  show "room {32, 58} 2 demo_fs" using a(1) l by (simp add: room_def lcost_def)
  have "{64, 65} \<subseteq> free_blocks demo_fs" using demo_used(2) by auto
  from card_mono [OF _ this] show "2 \<le> card (free_blocks demo_fs)" by simp
qed

definition no_dev :: "fsst devsw" where
  "no_dev = \<lparr>d_read = (\<lambda>_. None), d_write = (\<lambda>_. None)\<rparr>"

lemma demo_write: "i_type (inode_of demo_fs 0) \<noteq> T_DEV" "0 \<le> unat (i_size (inode_of demo_fs 0))" "0 + length [104, 105 :: u8] \<le> MAXFILE * BSIZE"
    "room (meta_of demo_fs 0) (2 * pages 0 (length [104, 105 :: u8])) demo_fs" "2 * pages 0 (length [104, 105 :: u8]) \<le> card (free_blocks demo_fs)"
    "fbyte demo_fs 0 2 = 0"
proof -
  have p: "pages 0 (length [104, 105 :: u8]) = 1" by (simp add: pages_def)
  show "room (meta_of demo_fs 0) (2 * pages 0 (length [104, 105 :: u8])) demo_fs" "2 * pages 0 (length [104, 105 :: u8]) \<le> card (free_blocks demo_fs)"
    unfolding p demo_fs_ok(5) using demo_fs_ok(6,7) by simp_all
qed (use demo_fs_ok(8) demo_fs_log(7) in \<open>simp_all add: fbyte_def fblk_def demo_inode_def\<close>)

theorem writei_contents_witness:
  "\<exists>t. writei no_dev 0 [104, 105] 0 demo_fs = Ok (2, t) \<and> fbyte t 0 0 = 104 \<and> fbyte t 0 1 = 105 \<and> fbyte t 0 2 = 0 \<and> unat (i_size (inode_of t 0)) = 2"
proof -
  obtain t where t: "writei no_dev 0 [104, 105] (of_nat 0) demo_fs = Ok (int (length [104, 105 :: u8]), t)"
      "\<forall>y<MAXFILE * BSIZE. fbyte t 0 y = (if 0 \<le> y \<and> y < 0 + length [104, 105 :: u8] then [104, 105] ! (y - 0) else fbyte demo_fs 0 y)"
      "unat (i_size (inode_of t 0)) = max (unat (i_size (inode_of demo_fs 0))) (0 + length [104, 105 :: u8])"
    using writei_contents [OF demo_fs_ok(1,2) demo_fs_log(2) demo_fs_ok(3) demo_write(1) demo_fs_ok(4) demo_write(2-5), of no_dev] by blast
  have "fbyte t 0 0 = 104" "fbyte t 0 1 = 105" "fbyte t 0 2 = 0" using t(2) demo_write(6) by simp_all
  then show ?thesis using t(1,3) demo_fs_ok(9) by (intro exI [of _ t]) simp
qed

theorem writei_readi_witness:
  "\<exists>t u. writei no_dev 0 [104, 105] 0 demo_fs = Ok (2, t) \<and> readi no_dev 0 0 2 t = Ok (2, [104, 105], u)"
proof -
  have a: "0 + 2 \<le> max (unat (i_size (inode_of demo_fs 0))) (0 + length [104, 105 :: u8])" by simp
  obtain t u where "writei no_dev 0 [104, 105] (of_nat 0) demo_fs = Ok (int (length [104, 105 :: u8]), t)"
      "readi no_dev 0 (of_nat 0) (of_nat 2) t =
        Ok (int 2, map (\<lambda>y. if 0 \<le> y \<and> y < 0 + length [104, 105 :: u8] then [104, 105] ! (y - 0) else fbyte demo_fs 0 y) [0..<0 + 2], u)"
    using writei_readi [OF demo_fs_ok(1,2) demo_fs_log(2) demo_fs_ok(3) demo_write(1-5) a, of no_dev] by blast
  then show ?thesis by (intro exI [of _ t] exI [of _ u]) (simp add: upt_rec)
qed

end
