(* ===== verification/FsDir.thy ===== *)
theory FsDir
  imports FsRw
begin

text \<open>
  Directories and paths. A directory is a file of 16-byte entries; \<open>dirlookup\<close> finds the first entry with
  the name, and what \<open>dirlink\<close> adds is found again. A path is the list of its elements.
\<close>

section \<open>Names\<close>

text \<open>What of a string counts as a file name: the bytes before the first NUL, at most 14.\<close>

definition cname :: "u8 list \<Rightarrow> u8 list" where
  "cname s = take DIRSIZ (takeWhile (\<lambda>c. c \<noteq> 0) s)"

lemma cbyte_Cons: "cbyte (c # s) (Suc i) = cbyte s i" "cbyte (c # s) 0 = c" "cbyte [] i = 0"
  by (simp_all add: cbyte_def)

lemma name_strncmp_shift: "name_strncmp n (Suc i) (a # s) (b # t) = name_strncmp n i s t"
  by (induction n arbitrary: i) (simp_all add: cbyte_Cons)

lemma name_strncmp_0:
  "name_strncmp n 0 s t = 0 \<longleftrightarrow> take n (takeWhile (\<lambda>c. c \<noteq> 0) s) = take n (takeWhile (\<lambda>c. c \<noteq> 0) t)"
proof (induction n arbitrary: s t)
  case (Suc n)
  show ?case
  proof (cases s; cases t)
    fix a s' b t' assume st: "s = a # s'" "t = b # t'"
    then show ?thesis using Suc [of s' t'] by (auto simp: name_strncmp_shift cbyte_Cons)
  qed (auto simp: cbyte_Cons)
qed simp

lemma namecmp_0: "namecmp s t = 0 \<longleftrightarrow> cname s = cname t"
  by (simp add: namecmp_def cname_def name_strncmp_0)

lemma length_de_make [simp]: "length (de_make n name) = 16"
  by (simp add: de_make_def min_def)

lemma de_make_parts: "de_inum (de_make n name) = n" "0 \<notin> set name \<Longrightarrow> cname (de_name (de_make n name)) = cname name"
proof -
  show "de_inum (de_make n name) = n"
    by (rule bit_word_eqI) (auto simp: de_inum_def de_make_def rd16_def bit_simps)
  assume n: "0 \<notin> set name"
  have "takeWhile (\<lambda>c. c \<noteq> 0) (take 14 name @ replicate (14 - length name) 0) = take 14 name"
  proof -
    have "takeWhile (\<lambda>c. c \<noteq> 0) (take 14 name @ r) = take 14 name @ takeWhile (\<lambda>c. c \<noteq> 0) r" for r
      by (rule takeWhile_append2) (use n in \<open>auto dest: in_set_takeD\<close>)
    moreover have "takeWhile (\<lambda>c. c \<noteq> 0) (replicate k (0 :: u8)) = []" for k by (cases k) auto
    ultimately show ?thesis by simp
  qed
  moreover have tn: "takeWhile (\<lambda>c. c \<noteq> 0) name = name" using n by (auto simp: takeWhile_eq_all_conv)
  ultimately show "cname (de_name (de_make n name)) = cname name" unfolding cname_def de_name_def de_make_def tn by simp
qed

section \<open>Directory entries\<close>

definition dent :: "'a fsst_scheme \<Rightarrow> nat \<Rightarrow> nat \<Rightarrow> u8 list" where
  "dent s dp x = map (fbyte s dp) [x..<x + 16]"

text \<open>A directory: a file of whole entries.\<close>

definition dir_ok :: "'a fsst_scheme \<Rightarrow> nat \<Rightarrow> bool" where
  "dir_ok s dp \<longleftrightarrow> fs_ok s \<and> file_ok s dp \<and> held s = {} \<and> length (logged s) < 30 \<and> no_holes s dp \<and> i_type (inode_of s dp) = T_DIR \<and>
     16 dvd unat (i_size (inode_of s dp))"

definition dmatch :: "'a fsst_scheme \<Rightarrow> nat \<Rightarrow> u8 list \<Rightarrow> nat \<Rightarrow> bool" where
  "dmatch s dp name x \<longleftrightarrow> de_inum (dent s dp x) \<noteq> 0 \<and> cname name = cname (de_name (dent s dp x))"

text \<open>The offsets of the entries from \<open>x\<close> on.\<close>

definition offs :: "nat \<Rightarrow> nat \<Rightarrow> nat list" where
  "offs x z = map (\<lambda>k. x + 16 * k) [0..<(z - x) div 16]"

lemma offs_step: "16 dvd z \<Longrightarrow> 16 dvd x \<Longrightarrow> x < z \<Longrightarrow> offs x z = x # offs (x + 16) z"
proof -
  assume a: "16 dvd z" "16 dvd x" "x < z"
  then obtain q r where q: "z = 16 * q" "x = 16 * r" by (auto elim!: dvdE)
  then have "(z - x) div 16 = Suc ((z - (x + 16)) div 16)" using a(3) by simp
  then show ?thesis by (simp add: offs_def upt_conv_Cons map_Suc_upt [symmetric] del: upt_Suc)
qed

lemma offs_end: "x \<ge> z \<Longrightarrow> offs x z = []"
  by (simp add: offs_def)

lemma read_dent:
  assumes "dir_ok s dp" "x + 16 \<le> unat (i_size (inode_of s dp))"
  obtains t where "readi dv dp (of_nat x) 16 s = Ok (16, dent s dp x, t)" "keeps s t" "view t = view s" "logged t = logged s"
proof -
  have "\<exists>t. readi dv dp (of_nat x) (of_nat 16) s = Ok (int (min 16 (unat (i_size (inode_of s dp)) - x)),
      map (fbyte s dp) [x..<x + min 16 (unat (i_size (inode_of s dp)) - x)], t) \<and> keeps s t \<and> view t = view s \<and> logged t = logged s"
    by (rule readi_spec) (use assms in \<open>auto simp: dir_ok_def\<close>)
  moreover have "min 16 (unat (i_size (inode_of s dp)) - x) = 16" using assms(2) by simp
  ultimately show ?thesis using that by (auto simp: dent_def)
qed

lemma keeps_dir:
  assumes "dir_ok s dp" "keeps s t" "view t = view s" "logged t = logged s"
  shows "dir_ok t dp" "dent t dp = dent s dp" "dmatch t dp = dmatch s dp" "icache t = icache s"
proof -
  have "log_in s" using assms(1) by (simp add: dir_ok_def fs_ok_def)
  note f = keeps_file [OF this assms(2,3)]
  show "dir_ok t dp" using assms f by (simp add: dir_ok_def no_holes_def keeps_def)
  show d: "dent t dp = dent s dp" by (simp add: dent_def [abs_def] f)
  show "dmatch t dp = dmatch s dp" by (simp add: dmatch_def [abs_def] d)
  show "icache t = icache s" by (rule f)
qed

text \<open>\<open>dirlookup\<close>: the first entry with the name, if there is one.\<close>

lemma dirlookup_loop_spec:
  assumes "dir_ok s dp" "z = unat (i_size (inode_of s dp))" "16 dvd x"
  shows "\<exists>t. keeps s t \<and> view t = view s \<and> logged t = logged s \<and> dirlookup_loop dv dp name z x s =
    (case find (dmatch s dp name) (offs x z) of
       None \<Rightarrow> Ok (None, t)
     | Some y \<Rightarrow> obind (iget 1 (ucast (de_inum (dent s dp y))) t) (\<lambda>(ip, u). Ok (Some (ip, of_nat y), u)))"
  using assms
proof (induction "z - x" arbitrary: x s rule: less_induct)
  case less
  have li: "log_in s" using less.prems(1) by (simp add: dir_ok_def fs_ok_def)
  show ?case
  proof (cases "x < z")
    case False
    then show ?thesis using keeps_refl [OF li] by (intro exI [of _ s]) (simp add: offs_end dirlookup_loop.simps)
  next
    case True
    have z: "16 dvd z" using less.prems(1,2) by (simp add: dir_ok_def)
    have le: "x + 16 \<le> z" using True z less.prems(3) by (auto elim!: dvdE)
    obtain t where t: "readi dv dp (of_nat x) 16 s = Ok (16, dent s dp x, t)" "keeps s t" "view t = view s" "logged t = logged s"
      by (rule read_dent [OF less.prems(1)]) (use le less.prems(2) in auto)
    note d = keeps_dir [OF less.prems(1) t(2-4)]
    have dev: "i_dev (inode_of t dp) = 1" using less.prems(1) d(4) by (simp add: dir_ok_def file_ok_def)
    show ?thesis
    proof (cases "dmatch s dp name x")
      case True
      then show ?thesis using t \<open>x < z\<close> dev offs_step [OF z less.prems(3)] namecmp_0 [of name]
        by (intro exI [of _ t]) (subst dirlookup_loop.simps, simp add: dmatch_def)
    next
      case False
      have "\<exists>u. keeps t u \<and> view u = view t \<and> logged u = logged t \<and> dirlookup_loop dv dp name z (x + 16) t =
          (case find (dmatch t dp name) (offs (x + 16) z) of None \<Rightarrow> Ok (None, u)
           | Some y \<Rightarrow> obind (iget 1 (ucast (de_inum (dent t dp y))) u) (\<lambda>(ip, u). Ok (Some (ip, of_nat y), u)))"
        using \<open>x < z\<close> d less.prems by (intro less.hyps) auto
      then obtain u where u: "keeps t u" "view u = view t" "logged u = logged t" "dirlookup_loop dv dp name z (x + 16) t =
          (case find (dmatch s dp name) (offs (x + 16) z) of None \<Rightarrow> Ok (None, u)
           | Some y \<Rightarrow> obind (iget 1 (ucast (de_inum (dent s dp y))) u) (\<lambda>(ip, u). Ok (Some (ip, of_nat y), u)))"
        unfolding d(2,3) by blast
      have "dirlookup_loop dv dp name z x s = dirlookup_loop dv dp name z (x + 16) t"
        using False t(1) \<open>x < z\<close> namecmp_0 [of name] by (subst dirlookup_loop.simps) (auto simp: dmatch_def)
      then show ?thesis using u keeps_trans [OF t(2)] t(3,4) False offs_step [OF z less.prems(3) \<open>x < z\<close>] by (intro exI [of _ u]) auto
    qed
  qed
qed

text \<open>The loop of \<open>dirlink\<close>: the first empty entry, or the end.\<close>

definition dfree :: "'a fsst_scheme \<Rightarrow> nat \<Rightarrow> nat \<Rightarrow> nat \<Rightarrow> nat" where
  "dfree s dp x z = (case find (\<lambda>y. de_inum (dent s dp y) = 0) (offs x z) of Some y \<Rightarrow> y | None \<Rightarrow> z)"

lemma dirlink_loop_spec:
  assumes "dir_ok s dp" "z = unat (i_size (inode_of s dp))" "16 dvd x" "x \<le> z"
  shows "\<exists>t. keeps s t \<and> view t = view s \<and> logged t = logged s \<and> dirlink_loop dv dp z x s = Ok (dfree s dp x z, t)"
  using assms
proof (induction "z - x" arbitrary: x s rule: less_induct)
  case less
  have li: "log_in s" using less.prems(1) by (simp add: dir_ok_def fs_ok_def)
  show ?case
  proof (cases "x < z")
    case False
    then show ?thesis using keeps_refl [OF li] less.prems(4) by (intro exI [of _ s]) (simp add: offs_end dirlink_loop.simps dfree_def)
  next
    case True
    have z: "16 dvd z" using less.prems(1,2) by (simp add: dir_ok_def)
    have le: "x + 16 \<le> z" using True z less.prems(3) by (auto elim!: dvdE)
    obtain t where t: "readi dv dp (of_nat x) 16 s = Ok (16, dent s dp x, t)" "keeps s t" "view t = view s" "logged t = logged s"
      by (rule read_dent [OF less.prems(1)]) (use le less.prems(2) in auto)
    note d = keeps_dir [OF less.prems(1) t(2-4)]
    have st: "dirlink_loop dv dp z x s = (if de_inum (dent s dp x) = 0 then Ok (x, t) else dirlink_loop dv dp z (x + 16) t)"
      using t(1) True by (subst dirlink_loop.simps) simp
    have df: "dfree s dp x z = (if de_inum (dent s dp x) = 0 then x else dfree s dp (x + 16) z)"
      using offs_step [OF z less.prems(3) True] by (simp add: dfree_def)
    show ?thesis
    proof (cases "de_inum (dent s dp x) = 0")
      case False
      have "\<exists>u. keeps t u \<and> view u = view t \<and> logged u = logged t \<and> dirlink_loop dv dp z (x + 16) t = Ok (dfree t dp (x + 16) z, u)"
        using True d le less.prems by (intro less.hyps) auto
      then show ?thesis using st df False keeps_trans [OF t(2)] t(3,4) d(2) by (auto simp: dfree_def)
    qed (use st df t in auto)
  qed
qed

section \<open>The inode cache\<close>

lemma iget_scan_spec:
  "iget_scan dev inum i e ips = Inl j \<Longrightarrow> i \<le> j \<and> j < i + length ips \<and> i_ref (ips ! (j - i)) > 0 \<and> i_dev (ips ! (j - i)) = dev \<and> i_inum (ips ! (j - i)) = inum"
  "iget_scan dev inum i e ips = Inr (Some j) \<Longrightarrow> e = Some j \<or> (i \<le> j \<and> j < i + length ips \<and> i_ref (ips ! (j - i)) = 0)"
  "iget_scan dev inum i e ips = Inr None \<Longrightarrow> e = None \<and> (\<forall>k<length ips. i_ref (ips ! k) \<noteq> 0)"
proof (induction dev inum i e ips rule: iget_scan.induct)
  case (2 dev inum i e ip ips)
  {
    case 1
    then show ?case using "2.IH"(1) by (auto split: if_splits simp: nth_Cons' Suc_le_eq le_Suc_eq)
  next
    case 2
    then show ?case using "2.IH"(2) by (auto split: if_splits simp: nth_Cons' Suc_le_eq le_Suc_eq)
  next
    case 3
    then show ?case using "2.IH"(3) by (auto split: if_splits simp: nth_Cons')
  }
qed auto

lemma iget_spec:
  assumes "\<exists>j<length (icache s). i_ref (inode_of s j) = 0"
  obtains i g where "iget dev inum s = Ok (i, upd_inode i g s)" "i < length (icache s)" "i_inum (g (inode_of s i)) = inum" "i_dev (g (inode_of s i)) = dev"
    "0 < i_ref (g (inode_of s i))"
proof (cases "iget_scan dev inum 0 None (icache s)")
  case (Inl i)
  then have "i < length (icache s)" "i_ref (inode_of s i) > 0" "i_dev (inode_of s i) = dev" "i_inum (inode_of s i) = inum"
    using iget_scan_spec(1) [OF Inl] by auto
  then show ?thesis using that [of i "\<lambda>ip. ip\<lparr>i_ref := i_ref ip + 1\<rparr>"] Inl by (simp add: iget_def)
next
  case (Inr e)
  then obtain i where i: "e = Some i" using iget_scan_spec(3) [of dev inum 0 None "icache s"] assms by (cases e) auto
  then have "i < length (icache s)" using iget_scan_spec(2) [of dev inum 0 None "icache s" i] Inr by auto
  then show ?thesis using that [of i "\<lambda>ip. ip\<lparr>i_dev := dev, i_inum := inum, i_ref := 1, i_valid := False\<rparr>"] Inr i by (simp add: iget_def)
qed

section \<open>A directory as a map\<close>

text \<open>The inode number that a directory gives to a name.\<close>

definition dlook :: "'a fsst_scheme \<Rightarrow> nat \<Rightarrow> u8 list \<Rightarrow> u16 option" where
  "dlook s dp n = map_option (\<lambda>y. de_inum (dent s dp y)) (find (dmatch s dp n) (offs 0 (unat (i_size (inode_of s dp)))))"

lemma in_offs: "y \<in> set (offs 0 z) \<Longrightarrow> 16 dvd y \<and> y + 16 \<le> z"
  by (auto simp: offs_def)

lemma offs_app: "16 dvd z \<Longrightarrow> offs 0 (z + 16) = offs 0 z @ [z]"
  by (auto simp: offs_def elim!: dvdE)

lemma dfree_cases:
  assumes "16 dvd z"
  shows "dfree s dp 0 z \<in> set (offs 0 z) \<and> de_inum (dent s dp (dfree s dp 0 z)) = 0 \<or> dfree s dp 0 z = z"
  unfolding dfree_def by (auto split: option.splits dest: find_SomeD)

lemma find_cong_set: "(\<And>x. x \<in> set xs \<Longrightarrow> P x = Q x) \<Longrightarrow> find P xs = find Q xs"
  by (induction xs) auto

lemma find_unique: "y \<in> set xs \<Longrightarrow> (\<And>x. x \<in> set xs \<Longrightarrow> P x \<longleftrightarrow> x = y) \<Longrightarrow> find P xs = Some y"
  by (induction xs) auto

lemma find_app: "find P (xs @ ys) = (case find P xs of Some x \<Rightarrow> Some x | None \<Rightarrow> find P ys)"
  by (induction xs) auto

lemma dlook_add:
  assumes "16 dvd z" "y = dfree s dp 0 z" "unat (i_size (inode_of s dp)) = z" "unat (i_size (inode_of t dp)) = max z (y + 16)" "z + 16 \<le> 71680"
    "\<And>x. 16 dvd x \<Longrightarrow> x + 16 \<le> 71680 \<Longrightarrow> dent t dp x = (if x = y then de_make n name else dent s dp x)"
    "n \<noteq> 0" "0 \<notin> set name" "dlook s dp name = None"
  shows "dlook t dp m = (if cname m = cname name then Some n else dlook s dp m)"
proof -
  have y: "y \<in> set (offs 0 z) \<and> de_inum (dent s dp y) = 0 \<or> y = z" using dfree_cases [OF assms(1)] assms(2) by metis
  then have y16: "16 dvd y" "y \<le> z" using assms(1) in_offs by force+
  have dt: "dmatch t dp m x \<longleftrightarrow> (if x = y then cname m = cname name else dmatch s dp m x)" if "16 dvd x" "x + 16 \<le> 71680" for x
    using assms(6) [OF that] assms(7,8) by (auto simp: dmatch_def de_make_parts)
  have nm: "\<not> dmatch s dp name x" if "x \<in> set (offs 0 z)" for x
    using assms(3,9) that by (auto simp: dlook_def find_None_iff)
  have o: "offs 0 (max z (y + 16)) = (if y = z then offs 0 z @ [z] else offs 0 z)"
    using y in_offs [of y z] offs_app [OF assms(1)] by (auto simp: max_def)
  have in71: "16 dvd x \<and> x + 16 \<le> 71680" if "x \<in> set (offs 0 (max z (y + 16)))" for x
    using that in_offs [of x] assms(1,5) y16 unfolding o by (auto split: if_splits dest: in_offs)
  have yin: "y \<in> set (offs 0 (max z (y + 16)))" unfolding o using y by auto
  show ?thesis
  proof (cases "cname m = cname name")
    case True
    have "find (dmatch t dp m) (offs 0 (max z (y + 16))) = Some y"
    proof (rule find_unique [OF yin])
      fix x assume x: "x \<in> set (offs 0 (max z (y + 16)))"
      then have "x \<noteq> y \<Longrightarrow> x \<in> set (offs 0 z)" unfolding o by (auto split: if_splits)
      then show "dmatch t dp m x \<longleftrightarrow> x = y" using dt in71 [OF x] True nm [of x] by (auto simp: dmatch_def)
    qed
    then show ?thesis using True assms(4,6) in71 [OF yin] by (simp add: dlook_def de_make_parts)
  next
    case False
    have my: "\<not> dmatch t dp m y" using dt in71 [OF yin] False by simp
    have f: "find (dmatch t dp m) (offs 0 z) = find (dmatch s dp m) (offs 0 z)"
    proof (rule find_cong_set)
      fix x assume x: "x \<in> set (offs 0 z)"
      then have "16 dvd x" "x + 16 \<le> 71680" using in_offs [OF x] assms(5) by auto
      then show "dmatch t dp m x = dmatch s dp m x" using dt [of x] False y x in_offs [OF x] by (auto simp: dmatch_def)
    qed
    have "find (dmatch t dp m) (offs 0 (max z (y + 16))) = find (dmatch s dp m) (offs 0 z)"
      unfolding o using f my by (auto simp: find_app split: option.splits)
    moreover have "de_inum (dent t dp x) = de_inum (dent s dp x)" if "find (dmatch s dp m) (offs 0 z) = Some x" for x
    proof -
      have "x \<in> set (offs 0 z)" "dmatch s dp m x" using find_SomeD [OF that] by auto
      moreover then have "x \<noteq> y" using y in_offs [of x z] by (auto simp: dmatch_def)
      ultimately show ?thesis using assms(5,6) in_offs [of x z] by auto
    qed
    ultimately show ?thesis using False assms(3,4) by (auto simp: dlook_def split: option.splits intro!: option.map_cong0 option.map_cong)
  qed
qed

lemma dirlookup_spec:
  assumes "dir_ok s dp"
  obtains t where "keeps s t" "view t = view s" "logged t = logged s"
    "dirlookup dv dp name s = (case find (dmatch s dp name) (offs 0 (unat (i_size (inode_of s dp)))) of
       None \<Rightarrow> Ok (None, t)
     | Some y \<Rightarrow> obind (iget 1 (ucast (de_inum (dent s dp y))) t) (\<lambda>(ip, u). Ok (Some (ip, of_nat y), u)))"
  using dirlookup_loop_spec [OF assms refl, of 0 dv name] assms that by (auto simp: dirlookup_def dir_ok_def)

lemma dent_write:
  assumes "\<And>y. y < 71680 \<Longrightarrow> fbyte t dp y = (if w \<le> y \<and> y < w + 16 then bs ! (y - w) else fbyte s dp y)"
    "length bs = 16" "16 dvd w" "16 dvd x" "x + 16 \<le> 71680"
  shows "dent t dp x = (if x = w then bs else dent s dp x)"
proof (rule nth_equalityI)
  fix j assume "j < length (dent t dp x)"
  then have j: "j < 16" by (simp add: dent_def)
  have "x \<noteq> w \<Longrightarrow> x + 16 \<le> w \<or> w + 16 \<le> x" using assms(3,4) by (auto elim!: dvdE)
  then show "dent t dp x ! j = (if x = w then bs else dent s dp x) ! j" using j assms(1) [of "x + j"] assms(5) by (auto simp: dent_def)
qed (use assms(2) in \<open>auto simp: dent_def\<close>)

lemma pages_16: "16 dvd x \<Longrightarrow> pages x 16 = 1"
proof -
  assume "16 dvd x"
  then obtain q where q: "x = 16 * q" by (auto elim!: dvdE)
  have "x mod 512 = 16 * (q mod 32)" using mult_mod_right [of 16 q 32] q by simp
  moreover have "q mod 32 < 32" by simp
  ultimately have "x mod 512 + 15 < 512" by linarith
  then have "(x + 15) div 512 = x div 512" by (rule page_cell)
  then show ?thesis by (simp add: pages_def)
qed

lemma dirlink_spec:
  assumes "dir_ok s dp" "room (meta_of s dp) 2 s" "2 \<le> card (free_blocks s)" "unat (i_size (inode_of s dp)) + 16 \<le> 71680"
    "dlook s dp name = None" "0 \<notin> set name" "inum < 65536" "inum \<noteq> 0"
  obtains t where "dirlink dv dp name inum s = Ok (0, t)" "dir_ok t dp" "\<And>m. dlook t dp m = (if cname m = cname name then Some (ucast inum) else dlook s dp m)"
    "\<And>j. j \<noteq> dp \<Longrightarrow> inode_of t j = inode_of s j" "length (icache t) = length (icache s)"
proof -
  let ?z = "unat (i_size (inode_of s dp))"
  define y where "y = dfree s dp 0 ?z"
  have z: "16 dvd ?z" using assms(1) by (simp add: dir_ok_def)
  have y: "16 dvd y" "y \<le> ?z" using dfree_cases [OF z, of s dp] in_offs [of y ?z] z by (auto simp: y_def)
  obtain s1 where s1: "keeps s s1" "view s1 = view s" "logged s1 = logged s" "dirlookup dv dp name s = Ok (None, s1)"
    using dirlookup_spec [OF assms(1), of dv name] assms(5) by (auto simp: dlook_def)
  note d1 = keeps_dir [OF assms(1) s1(1-3)]
  obtain s2 where s2: "keeps s1 s2" "view s2 = view s1" "logged s2 = logged s1" "dirlink_loop dv dp ?z 0 s1 = Ok (y, s2)"
    using dirlink_loop_spec [OF d1(1), of ?z 0 dv] d1(2,4) by (auto simp: y_def dfree_def)
  have k: "keeps s s2" "view s2 = view s" "logged s2 = logged s" using keeps_trans [OF s1(1) s2(1)] s1 s2 by auto
  note d2 = keeps_dir [OF assms(1) k]
  have li: "log_in s" using assms(1) by (simp add: dir_ok_def fs_ok_def)
  note f2 = keeps_file [OF li k(1,2)]
  have ol: "only_log s s2" "held s2 = held s" using k(1) by (auto simp: keeps_def)
  let ?bs = "de_make (ucast inum) name"
  have mo: "meta_of s2 dp = meta_of s dp" using only_log_fs [OF ol(1)] by (simp add: meta_of_def)
  have rm: "room (meta_of s2 dp) (charge y (length ?bs)) s2" "charge y (length ?bs) \<le> card (free_blocks s2)"
    using assms(2,3) only_log_fs [OF ol(1)] ol(2) lim_frame [OF ol(1)] k(3) f2(3) pages_16 [OF y(1)] by (simp_all add: mo room_def lcost_def charge_def)
  have d2': "fs_ok s2" "file_ok s2 dp" "held s2 = {}" "no_holes s2 dp" "i_type (inode_of s2 dp) \<noteq> T_DEV" "y \<le> unat (i_size (inode_of s2 dp))"
      "y + length ?bs \<le> 71680"
    using d2(1,4) y(2) assms(4) by (auto simp: dir_ok_def)
  obtain t where t: "writei dv dp ?bs (of_nat y) s2 = Ok (int (length ?bs), t)" "write_post s2 dp y ?bs t"
    using writei_spec [OF d2' rm] by blast
  have w: "fs_ok t" "file_ok t dp" "held t = {}" "\<And>x. x < 71680 \<Longrightarrow> fbyte t dp x = (if y \<le> x \<and> x < y + 16 then ?bs ! (x - y) else fbyte s dp x)"
      "unat (i_size (inode_of t dp)) = max ?z (y + 16)" "no_holes t dp" "i_type (inode_of t dp) = 1" "\<And>j. j \<noteq> dp \<Longrightarrow> inode_of t j = inode_of s j"
    using t(2) f2(7) d2(4) assms(1) by (auto simp: write_post_def dir_ok_def)
  have run: "dirlink dv dp name inum s = Ok (0, t)" using s1(4) s2(4) t(1) d1(4) by (simp add: dirlink_def)
  have "16 dvd max ?z (y + 16)" using y(1) z by (simp add: max_def)
  moreover have "length (logged t) < 30"
    using lcost_logged [of t "meta_of s2 dp"] t(2) rm(1) lim_le [of s2] w(1) d2'(1) by (auto simp: write_post_def room_def fs_ok_def)
  ultimately have dt: "dir_ok t dp" using w by (simp add: dir_ok_def)
  have "(ucast inum :: u16) \<noteq> 0"
  proof -
    have "unat (ucast inum :: u16) = unat inum mod 65536" by (simp add: unsigned_ucast_eq unsigned_take_bit_eq take_bit_eq_mod)
    moreover have "unat inum < 65536" "unat inum \<noteq> 0" using assms(7,8) by (simp_all add: word_less_nat_alt unat_eq_zero)
    ultimately show ?thesis by auto
  qed
  then have dl: "dlook t dp m = (if cname m = cname name then Some (ucast inum) else dlook s dp m)" for m
    by (intro dlook_add [OF z y_def refl w(5) assms(4) dent_write [OF w(4)]]) (use y(1) assms(5,6) in auto)
  have "length (icache t) = length (icache s)" using t(2) d2(4) by (simp add: write_post_def)
  then show ?thesis using that run dt dl w(8) by blast
qed

section \<open>Paths\<close>

text \<open>The names that the loop of \<open>namex\<close> takes from a path, one after the other.\<close>

function path_names :: "u8 list \<Rightarrow> u8 list list" where
  "path_names path = (case skipelem path of None \<Rightarrow> [] | Some (rest, name) \<Rightarrow> name # path_names rest)"
  by pat_completeness auto

termination path_names
  by (relation "measure length") (auto simp: skipelem_shorter)

declare path_names.simps [simp del]

text \<open>The parts of a list between slashes, the empty ones included.\<close>

fun splits :: "u8 list \<Rightarrow> u8 list list" where
  "splits [] = [[]]"
| "splits (c # cs) = (if c = slash then [] # splits cs else (c # hd (splits cs)) # tl (splits cs))"

definition components :: "u8 list \<Rightarrow> u8 list list" where
  "components path = filter (\<lambda>e. e \<noteq> []) (splits path)"

lemma splits_nonempty: "splits cs \<noteq> []"
  by (cases cs) auto

lemma components_slash: "components (slash # cs) = components cs"
  by (simp add: components_def)

lemma components_drop: "components (dropWhile (\<lambda>c. c = slash) cs) = components cs"
  by (induction cs) (auto simp: components_slash)

lemma splits_elem:
  "splits cs = takeWhile (\<lambda>c. c \<noteq> slash) cs # (case dropWhile (\<lambda>c. c \<noteq> slash) cs of [] \<Rightarrow> [] | c # ds \<Rightarrow> splits ds)"
  by (induction cs) auto

lemma components_elem:
  assumes "p \<noteq> []" "hd p \<noteq> slash"
  shows "components p = takeWhile (\<lambda>c. c \<noteq> slash) p # components (dropWhile (\<lambda>c. c \<noteq> slash) p)"
proof -
  obtain e r where e: "takeWhile (\<lambda>c. c \<noteq> slash) p = e" "dropWhile (\<lambda>c. c \<noteq> slash) p = r" by blast
  have "e \<noteq> []" using assms e(1) by (cases p) auto
  moreover have "c = slash" if "r = c # ds" for c ds using hd_dropWhile [of "\<lambda>c. c \<noteq> slash" p] e(2) that by auto
  ultimately show ?thesis using splits_elem [of p] unfolding e by (cases r) (auto simp: components_def)
qed

lemma path_names_components: "path_names path = map (take DIRSIZ) (components path)"
proof (induction path rule: path_names.induct)
  case (1 path)
  let ?p = "dropWhile (\<lambda>c. c = slash) path"
  show ?case
  proof (cases "?p = []")
    case True
    from components_drop [of path, unfolded True] have "components path = []" by (simp add: components_def)
    moreover have "skipelem path = None" unfolding skipelem_def Let_def True by simp
    ultimately show ?thesis by (simp add: path_names.simps)
  next
    case False
    let ?e = "takeWhile (\<lambda>c. c \<noteq> slash) ?p" and ?r = "dropWhile (\<lambda>c. c \<noteq> slash) ?p"
    have "hd ?p \<noteq> slash" using hd_dropWhile [of "\<lambda>c. c = slash" path] False by simp
    then have "components ?p = ?e # components ?r" by (rule components_elem [OF False])
    moreover have sk: "skipelem path = Some (dropWhile (\<lambda>c. c = slash) ?r, take DIRSIZ ?e)" using False by (simp add: skipelem_def Let_def)
    moreover have "path_names (dropWhile (\<lambda>c. c = slash) ?r) = map (take DIRSIZ) (components ?r)"
      using 1 [OF sk refl] components_drop [of ?r] by (simp only:)
    ultimately show ?thesis using components_drop [of path] by (subst path_names.simps) (simp only: option.case prod.case list.map)
  qed
qed

section \<open>Properties\<close>

text \<open>C8. A directory is a map from names to inode numbers, and \<open>dirlink\<close> adds one entry to it: for a sound
  directory that does not contain the name yet, with room in the log and on the disk, \<open>dirlink\<close>
  returns 0, the new name gets the given inode number, every other name keeps its own, and
  \<open>dirlookup\<close> of the name then returns a cached inode with that number.\<close>

theorem dirlink_dirlookup:
  assumes "dir_ok s dp" "room (meta_of s dp) 2 s" "2 \<le> card (free_blocks s)" "unat (i_size (inode_of s dp)) + 16 \<le> MAXFILE * BSIZE"
    "dlook s dp name = None" "0 \<notin> set name" "inum < 65536" "inum \<noteq> 0" "\<exists>j<length (icache s). j \<noteq> dp \<and> i_ref (inode_of s j) = 0"
  shows "\<exists>t ip off u. dirlink dv dp name inum s = Ok (0, t) \<and> dir_ok t dp \<and>
    (\<forall>m. dlook t dp m = (if cname m = cname name then Some (ucast inum) else dlook s dp m)) \<and>
    dirlookup dv dp name t = Ok (Some (ip, off), u) \<and> i_dev (inode_of u ip) = 1 \<and> i_inum (inode_of u ip) = inum \<and> 0 < i_ref (inode_of u ip)"
proof -
  obtain t where t: "dirlink dv dp name inum s = Ok (0, t)" "dir_ok t dp"
      "\<And>m. dlook t dp m = (if cname m = cname name then Some (ucast inum) else dlook s dp m)"
      "\<And>j. j \<noteq> dp \<Longrightarrow> inode_of t j = inode_of s j" "length (icache t) = length (icache s)"
    by (rule dirlink_spec [OF assms(1-3) _ assms(5-8), of dv]) (use assms(4) in auto)
  obtain y where y: "find (dmatch t dp name) (offs 0 (unat (i_size (inode_of t dp)))) = Some y" "de_inum (dent t dp y) = ucast inum"
    using t(3) [of name] by (auto simp: dlook_def)
  obtain w where w: "keeps t w" "view w = view t" "logged w = logged t"
      "dirlookup dv dp name t = obind (iget 1 (ucast (ucast inum :: u16)) w) (\<lambda>(ip, u). Ok (Some (ip, of_nat y), u))"
    by (rule dirlookup_spec [OF t(2), of dv name]) (use y in auto)
  have ic: "icache w = icache t" by (rule keeps_dir(4) [OF t(2) w(1-3)])
  have "\<exists>j<length (icache w). i_ref (inode_of w j) = 0" using assms(9) t(4,5) ic by metis
  then obtain ip g where i: "iget 1 inum w = Ok (ip, upd_inode ip g w)" "ip < length (icache w)" "i_inum (g (inode_of w ip)) = inum"
      "i_dev (g (inode_of w ip)) = 1" "0 < i_ref (g (inode_of w ip))"
    by (rule iget_spec)
  have u: "ucast (ucast inum :: u16) = inum" using assms(7)
    by (simp add: word_unat_eq_iff unsigned_ucast_eq unsigned_take_bit_eq take_bit_eq_mod word_less_nat_alt unat_mod)
  show ?thesis
    using t(1-3) w(4) i u upd_inode_nth [OF i(2), of g ip] by (intro exI [of _ t] exI [of _ ip] exI [of _ "of_nat y"] exI [of _ "upd_inode ip g w"]) simp
qed

text \<open>C35. Taking the elements off a path one after the other gives exactly its non-empty parts between
  slashes, each cut to 14 bytes: leading, repeated and trailing slashes do not matter, and the walk
  ends after as many steps as there are elements.\<close>

theorem path_elements: "path_names path = map (take DIRSIZ) (components path)"
  by (rule path_names_components)

section \<open>Witnesses\<close>

definition demo_dir :: fsst where
  "demo_dir = upd_inode 0 (\<lambda>ip. ip\<lparr>i_type := 1\<rparr>) demo_fs"

lemma demo_dir_ok: "dir_ok demo_dir 0" "room (meta_of demo_dir 0) 2 demo_dir" "2 \<le> card (free_blocks demo_dir)"
    "i_size (inode_of demo_dir 0) = 0" "dlook demo_dir 0 n = None" "\<exists>j<length (icache demo_dir). j \<noteq> 0 \<and> i_ref (inode_of demo_dir j) = 0"
proof -
  note l = demo_fs_log(7)
  have i: "inode_of demo_dir 0 = demo_inode\<lparr>i_type := 1\<rparr>" "icache demo_dir = [demo_inode\<lparr>i_type := 1\<rparr>, demo_inode\<lparr>i_ref := 0\<rparr>]"
    by (simp_all add: demo_dir_def upd_inode_def l)
  show z: "i_size (inode_of demo_dir 0) = 0" by (simp add: i demo_inode_def)
  have fb: "iblk demo_dir 0 = iblk demo_fs 0" "fblk demo_dir 0 = fblk demo_fs 0"
    using i l by (simp_all add: iblk_def fblk_def [abs_def] demo_dir_def cong: if_cong)
  have "file_ok demo_dir 0" using demo_fs_ok(2) fb i l by (simp add: file_ok_def) (simp add: demo_dir_def)
  then show "dir_ok demo_dir 0"
    using demo_fs_ok(1) demo_fs_log(2,4) i(1) by (simp add: dir_ok_def no_holes_def demo_inode_def) (simp add: demo_dir_def)
  show "room (meta_of demo_dir 0) 2 demo_dir" "2 \<le> card (free_blocks demo_dir)"
    using demo_fs_ok(5,6,7) i(1) l by (simp_all add: meta_of_def) (simp_all add: demo_dir_def)
  show "dlook demo_dir 0 n = None" by (simp add: dlook_def z offs_def)
  show "\<exists>j<length (icache demo_dir). j \<noteq> 0 \<and> i_ref (inode_of demo_dir j) = 0" by (rule exI [of _ 1]) (simp add: i)
qed

theorem dirlink_dirlookup_witness:
  "\<exists>t ip off u. dirlink no_dev 0 [97] 5 demo_dir = Ok (0, t) \<and> dlook t 0 [97] = Some 5 \<and> dirlookup no_dev 0 [97] t = Ok (Some (ip, off), u) \<and>
    i_inum (inode_of u ip) = 5"
  using dirlink_dirlookup [OF demo_dir_ok(1-3) _ demo_dir_ok(5) _ _ _ demo_dir_ok(6), of "[97]" 5 no_dev] demo_dir_ok(4) by auto

end
