(* ===== verification/Pipe.thy ===== *)
theory Pipe
  imports Sleeplock
begin

text \<open>
  Pipes (pipe.c). \<open>pipewrite\<close> and \<open>piperead\<close> are cut at the calls of \<open>sleep\<close>: one call of
  \<open>pipewrite_run\<close> or \<open>piperead_run\<close> is the critical section under \<open>p->lock\<close> from the start of the
  operation, or from the return of \<open>sleep\<close>, to its end or to the next \<open>sleep\<close>. The caller's buffer is
  the list of bytes taken from it or put into it. The allocation of a pipe is in the theory File.
\<close>

section \<open>Operations\<close>

abbreviation (input) PIPESIZE :: u32 where "PIPESIZE \<equiv> 512"

record pipe =
  pdata :: "u8 list"
  nread :: u32
  nwrite :: u32
  readopen :: bool
  writeopen :: bool

text \<open>The fields that \<open>pipealloc\<close> sets; the data area keeps the contents of the page.\<close>

definition pipe_new :: "u8 list \<Rightarrow> pipe" where
  "pipe_new d = \<lparr>pdata = d, nread = 0, nwrite = 0, readopen = True, writeopen = True\<rparr>"

definition pipe_put :: "u8 \<Rightarrow> pipe \<Rightarrow> pipe" where
  "pipe_put v p = p\<lparr>pdata := (pdata p)[unat (nwrite p mod PIPESIZE) := v], nwrite := nwrite p + 1\<rparr>"

datatype pipe_out = Done int | Sleeps "u8 list"

text \<open>\<open>n\<close> is the argument of the call, \<open>bs\<close> the bytes still to write, \<open>kd\<close> whether the caller has been
  killed.\<close>

fun pipewrite_run :: "bool \<Rightarrow> int \<Rightarrow> u8 list \<Rightarrow> pipe \<Rightarrow> pipe_out \<times> pipe" where
  "pipewrite_run kd n [] p = (Done n, p)"
| "pipewrite_run kd n (b # bs) p =
     (if nwrite p = nread p + PIPESIZE then
        if \<not> readopen p \<or> kd then (Done (-1), p) else (Sleeps (b # bs), p)
      else pipewrite_run kd n bs (pipe_put b p))"

fun piperead_copy :: "nat \<Rightarrow> pipe \<Rightarrow> u8 list \<times> pipe" where
  "piperead_copy 0 p = ([], p)"
| "piperead_copy (Suc n) p =
     (if nread p = nwrite p then ([], p)
      else let v = pdata p ! unat (nread p mod PIPESIZE);
               (bs, p) = piperead_copy n (p\<lparr>nread := nread p + 1\<rparr>)
           in (v # bs, p))"

text \<open>\<open>None\<close>: the caller sleeps. Otherwise the result and the bytes read.\<close>

definition piperead_run :: "bool \<Rightarrow> int \<Rightarrow> pipe \<Rightarrow> (int \<times> u8 list) option \<times> pipe" where
  "piperead_run kd n p =
     (if nread p = nwrite p \<and> writeopen p then
        if kd then (Some (-1, []), p) else (None, p)
      else let (bs, p) = piperead_copy (nat n) p in (Some (int (length bs), bs), p))"

text \<open>\<open>None\<close>: both ends are closed and the pipe's page is freed.\<close>

definition pipeclose :: "bool \<Rightarrow> pipe \<Rightarrow> pipe option" where
  "pipeclose writable p =
     (let p = (if writable then p\<lparr>writeopen := False\<rparr> else p\<lparr>readopen := False\<rparr>)
      in if \<not> readopen p \<and> \<not> writeopen p then None else Some p)"

section \<open>The pipe as a queue\<close>

definition pipe_ok :: "pipe \<Rightarrow> bool" where
  "pipe_ok p \<longleftrightarrow> length (pdata p) = 512 \<and> nwrite p - nread p \<le> PIPESIZE"

definition contents :: "pipe \<Rightarrow> u8 list" where
  "contents p = map (\<lambda>k. pdata p ! unat ((nread p + of_nat k) mod PIPESIZE)) [0..<unat (nwrite p - nread p)]"

lemma length_contents [simp]: "length (contents p) = unat (nwrite p - nread p)"
  by (simp add: contents_def)

lemma slot_mod: "unat ((x :: u32) mod 512) = unat x mod 512"
  by (simp add: unat_mod)

lemma slot_less [simp]: "unat ((x :: u32) mod 512) < 512"
  by (simp add: slot_mod)

lemma slot_add: "unat ((x + of_nat k :: u32) mod 512) = (unat x + k) mod 512"
  by (simp add: slot_mod unat_add_lem mod_add_eq)
     (simp add: unat_word_ariths unat_of_nat mod_mod_cancel mod_add_right_eq)

text \<open>Two offsets below the size of the pipe that meet in the same slot are equal.\<close>

lemma slot_inj:
  assumes "(unat (x :: u32) + i) mod 512 = (unat x + j) mod 512" "i < 512" "j < 512"
  shows "i = j"
  using assms by (rule mod_shift_inj)

lemma count_less: "pipe_ok p \<Longrightarrow> nwrite p \<noteq> nread p + PIPESIZE \<Longrightarrow> nwrite p - nread p < 512"
  unfolding pipe_ok_def by (metis add.commute diff_eq_eq order_le_neq_trans)

lemma count_Suc: "(c :: u32) < 512 \<Longrightarrow> unat (c + 1) = Suc (unat c)"
  by (simp add: unat_word_ariths word_less_nat_alt)

lemma contents_put:
  assumes "pipe_ok p" "nwrite p \<noteq> nread p + PIPESIZE"
  shows "pipe_ok (pipe_put b p)" "contents (pipe_put b p) = contents p @ [b]"
proof -
  let ?c = "nwrite p - nread p" and ?q = "pipe_put b p"
  have c: "?c < 512" by (rule count_less [OF assms])
  have cq: "nwrite ?q - nread ?q = ?c + 1" by (simp add: pipe_put_def)
  then show "pipe_ok ?q" using assms c inc_le [OF c] by (simp add: pipe_ok_def) (simp add: pipe_put_def)
  have n: "unat (nwrite ?q - nread ?q) = Suc (unat ?c)" using cq count_Suc [OF c] by simp
  have u: "unat ?c < 512" using c by (simp add: word_less_nat_alt)
  have w: "unat (nwrite p mod 512) = (unat (nread p) + unat ?c) mod 512"
    using slot_add [of "nread p" "unat ?c"] by simp
  have slot: "pdata ?q ! unat ((nread p + of_nat k) mod 512) = (if k = unat ?c then b else pdata p ! unat ((nread p + of_nat k) mod 512))"
    if "k \<le> unat ?c" for k
  proof (cases "k = unat ?c")
    case False
    have "k < 512" using that u by linarith
    then have "(unat (nread p) + k) mod 512 \<noteq> (unat (nread p) + unat ?c) mod 512"
      using slot_inj [of "nread p" k "unat ?c"] u False by blast
    then show ?thesis using False by (simp only: pipe_put_def slot_add w) simp
  qed (use assms in \<open>simp add: pipe_put_def pipe_ok_def\<close>)
  have r: "nread ?q = nread p" "pdata ?q ! unat (nwrite p mod 512) = b"
    using assms by (simp_all add: pipe_put_def pipe_ok_def)
  show "contents ?q = contents p @ [b]"
    unfolding contents_def r(1) n [unfolded r(1)] by (auto simp: slot r(2))
qed

lemma contents_get:
  assumes "pipe_ok p" "nread p \<noteq> nwrite p"
  shows "pipe_ok (p\<lparr>nread := nread p + 1\<rparr>)"
    "contents p = pdata p ! unat (nread p mod 512) # contents (p\<lparr>nread := nread p + 1\<rparr>)"
proof -
  let ?c = "nwrite p - nread p" and ?d = "nwrite p - (nread p + 1)"
  have d: "?c = ?d + 1" by simp
  have "?c \<noteq> 0" using assms(2) by simp
  moreover have "?d = ?c - 1" by simp
  ultimately have lt: "?d < ?c" by (simp only: word_less_nat_alt) (metis unat_minus_one diff_less unat_gt_0 zero_less_one)
  then show "pipe_ok (p\<lparr>nread := nread p + 1\<rparr>)" using assms(1) by (auto simp: pipe_ok_def)
  have "?d < 512" using lt assms(1) by (auto simp: pipe_ok_def)
  then have n: "unat ?c = Suc (unat ?d)" unfolding d by (rule count_Suc)
  show "contents p = pdata p ! unat (nread p mod 512) # contents (p\<lparr>nread := nread p + 1\<rparr>)"
    unfolding contents_def n upt_conv_Cons [OF zero_less_Suc] map_Suc_upt [symmetric]
    by (simp add: add.assoc)
qed

lemma pipe_put_fields [simp]: "readopen (pipe_put b p) = readopen p" "writeopen (pipe_put b p) = writeopen p"
  "nread (pipe_put b p) = nread p"
  by (simp_all add: pipe_put_def)

lemma pipewrite_run_spec:
  "pipe_ok p \<Longrightarrow> pipewrite_run kd n bs p = (r, p') \<Longrightarrow>
    \<exists>xs ys. bs = xs @ ys \<and> contents p' = contents p @ xs \<and> pipe_ok p' \<and>
      readopen p' = readopen p \<and> writeopen p' = writeopen p \<and> nread p' = nread p \<and>
      (if ys = [] then r = Done n else length (contents p') = 512 \<and> r = (if \<not> readopen p \<or> kd then Done (-1) else Sleeps ys))"
proof (induction kd n bs p rule: pipewrite_run.induct)
  case (2 kd n b bs p)
  show ?case
  proof (cases "nwrite p = nread p + PIPESIZE")
    case True
    then show ?thesis using "2.prems" by (intro exI [of _ "[]"] exI [of _ "b # bs"]) auto
  next
    case False
    note c = contents_put [OF "2.prems"(1) False, of b]
    have "pipewrite_run kd n bs (pipe_put b p) = (r, p')" using "2.prems"(2) False by simp
    from "2.IH" [OF False c(1) this] show ?thesis
      unfolding c(2) pipe_put_fields append_assoc append_Cons append_Nil by (metis append_Cons)
  qed
qed auto

lemma piperead_copy_spec:
  "pipe_ok p \<Longrightarrow> piperead_copy n p = (bs, p') \<Longrightarrow>
    bs = take n (contents p) \<and> contents p' = drop n (contents p) \<and> pipe_ok p' \<and>
    readopen p' = readopen p \<and> writeopen p' = writeopen p"
proof (induction n p arbitrary: bs p' rule: piperead_copy.induct)
  case (2 n p)
  show ?case
  proof (cases "nread p = nwrite p")
    case True
    then have "contents p = []" by (simp add: contents_def)
    then show ?thesis using "2.prems" True by auto
  next
    case False
    note c = contents_get [OF "2.prems"(1) False]
    obtain cs q where q: "piperead_copy n (p\<lparr>nread := nread p + 1\<rparr>) = (cs, q)" by fastforce
    show ?thesis using "2.IH" [OF False refl c(1) q] "2.prems"(2) False q c(2) by (auto simp: Let_def)
  qed
qed auto

lemma contents_empty: "contents p = [] \<longleftrightarrow> nread p = nwrite p"
proof -
  have "contents p = [] \<longleftrightarrow> unat (nwrite p - nread p) = 0" by (simp only: length_0_conv [symmetric] length_contents)
  then show ?thesis by (auto simp: unat_eq_zero)
qed

lemma length_contents_le: "pipe_ok p \<Longrightarrow> length (contents p) \<le> 512"
  by (simp add: pipe_ok_def word_le_nat_alt)

section \<open>Readers and writers\<close>

text \<open>
  Any number of processes on one pipe. A process is idle, in a read or write and able to run, or
  asleep on \<open>nread\<close> or \<open>nwrite\<close>. \<open>sent\<close> and \<open>got\<close> record the bytes put into and taken out of the pipe
  since it was made. A step carries whether the process that moves has been killed. An end of the pipe
  is closed only when no process is inside an operation on it: such a process has the file open.
\<close>

datatype pstat = PIdle | RdReady int | RdSleep int | WrReady int "u8 list" | WrSleep int "u8 list"

record pipe_sys =
  pp :: pipe
  pst :: "nat \<Rightarrow> pstat"
  sent :: "u8 list"
  got :: "u8 list"

fun wake_rd :: "pstat \<Rightarrow> pstat" where
  "wake_rd (RdSleep n) = RdReady n"
| "wake_rd x = x"

fun wake_wr :: "pstat \<Rightarrow> pstat" where
  "wake_wr (WrSleep n bs) = WrReady n bs"
| "wake_wr x = x"

fun reading :: "pstat \<Rightarrow> bool" where
  "reading (RdReady n) = True"
| "reading (RdSleep n) = True"
| "reading _ = False"

fun writing :: "pstat \<Rightarrow> bool" where
  "writing (WrReady n bs) = True"
| "writing (WrSleep n bs) = True"
| "writing _ = False"

definition taken :: "pipe \<Rightarrow> pipe \<Rightarrow> u8 list \<Rightarrow> u8 list" where
  "taken p p' bs = take (length (contents p') - length (contents p)) bs"

inductive pipe_step :: "bool \<Rightarrow> pipe_sys \<Rightarrow> pipe_sys \<Rightarrow> bool" where
  read_call: "pst s q = PIdle \<Longrightarrow> readopen (pp s) \<Longrightarrow> pipe_step kd s (s\<lparr>pst := (pst s)(q := RdReady n)\<rparr>)"
| write_call: "pst s q = PIdle \<Longrightarrow> writeopen (pp s) \<Longrightarrow> pipe_step kd s (s\<lparr>pst := (pst s)(q := WrReady (int (length bs)) bs)\<rparr>)"
| read_sleep: "pst s q = RdReady n \<Longrightarrow> piperead_run kd n (pp s) = (None, p') \<Longrightarrow>
    pipe_step kd s (s\<lparr>pp := p', pst := (pst s)(q := RdSleep n)\<rparr>)"
| read_killed: "pst s q = RdReady n \<Longrightarrow> piperead_run kd n (pp s) = (Some (-1, bs), p') \<Longrightarrow>
    pipe_step kd s (s\<lparr>pp := p', pst := (pst s)(q := PIdle)\<rparr>)"
| read_done: "pst s q = RdReady n \<Longrightarrow> piperead_run kd n (pp s) = (Some (r, bs), p') \<Longrightarrow> r \<noteq> -1 \<Longrightarrow>
    pipe_step kd s (s\<lparr>pp := p', got := got s @ bs, pst := (wake_wr \<circ> pst s)(q := PIdle)\<rparr>)"
| write_sleep: "pst s q = WrReady n bs \<Longrightarrow> pipewrite_run kd n bs (pp s) = (Sleeps ys, p') \<Longrightarrow>
    pipe_step kd s (s\<lparr>pp := p', sent := sent s @ taken (pp s) p' bs, pst := (wake_rd \<circ> pst s)(q := WrSleep n ys)\<rparr>)"
| write_fail: "pst s q = WrReady n bs \<Longrightarrow> pipewrite_run kd n bs (pp s) = (Done (-1), p') \<Longrightarrow>
    pipe_step kd s (s\<lparr>pp := p', sent := sent s @ taken (pp s) p' bs, pst := (pst s)(q := PIdle)\<rparr>)"
| write_done: "pst s q = WrReady n bs \<Longrightarrow> pipewrite_run kd n bs (pp s) = (Done r, p') \<Longrightarrow> r \<noteq> -1 \<Longrightarrow>
    pipe_step kd s (s\<lparr>pp := p', sent := sent s @ taken (pp s) p' bs, pst := (wake_rd \<circ> pst s)(q := PIdle)\<rparr>)"
| wake: "pipe_step kd s (s\<lparr>pst := (pst s)(q := wake_rd (wake_wr (pst s q)))\<rparr>)"
| close: "pipeclose w (pp s) = Some p' \<Longrightarrow> (\<forall>q. \<not> (if w then writing else reading) (pst s q)) \<Longrightarrow>
    pipe_step kd s (s\<lparr>pp := p', pst := (if w then wake_rd else wake_wr) \<circ> pst s\<rparr>)"

text \<open>\<open>k\<close>: processes may be killed while they are in the pipe code.\<close>

inductive pipe_reach :: "bool \<Rightarrow> pipe_sys \<Rightarrow> bool" for k :: bool where
  new: "length d = 512 \<Longrightarrow> pipe_reach k \<lparr>pp = pipe_new d, pst = (\<lambda>_. PIdle), sent = [], got = []\<rparr>"
| step: "pipe_reach k s \<Longrightarrow> pipe_step kd s s' \<Longrightarrow> (kd \<longrightarrow> k) \<Longrightarrow> pipe_reach k s'"

lemma pipewrite_taken:
  assumes "pipe_ok p" "pipewrite_run kd n bs p = (r, p')"
  shows "contents p' = contents p @ taken p p' bs" "pipe_ok p'" "readopen p' = readopen p" "writeopen p' = writeopen p"
proof -
  obtain xs ys where h: "bs = xs @ ys" "contents p' = contents p @ xs"
      "pipe_ok p' \<and> readopen p' = readopen p \<and> writeopen p' = writeopen p"
    using pipewrite_run_spec [OF assms] by blast
  have "length (contents p') - length (contents p) = length xs" unfolding h(2) length_append by simp
  then show "contents p' = contents p @ taken p p' bs" by (simp add: h taken_def)
  show "pipe_ok p'" "readopen p' = readopen p" "writeopen p' = writeopen p" using h by blast+
qed

lemma piperead_run_spec:
  assumes "pipe_ok p" "piperead_run kd n p = (r, p')"
  shows "pipe_ok p'" "readopen p' = readopen p" "writeopen p' = writeopen p"
    "r = None \<Longrightarrow> p' = p \<and> contents p = [] \<and> writeopen p \<and> \<not> kd"
    "r = Some (-1, bs) \<Longrightarrow> p' = p"
    "r = Some (c, bs) \<Longrightarrow> c \<noteq> -1 \<Longrightarrow> contents p = bs @ contents p'"
proof -
  obtain cs q where c: "piperead_copy (nat n) p = (cs, q)" by fastforce
  note d = piperead_copy_spec [OF assms(1) c]
  have w: "contents p = [] \<longleftrightarrow> nread p = nwrite p" by (rule contents_empty)
  show "pipe_ok p'" "readopen p' = readopen p" "writeopen p' = writeopen p"
    "r = None \<Longrightarrow> p' = p \<and> contents p = [] \<and> writeopen p \<and> \<not> kd"
    "r = Some (-1, bs) \<Longrightarrow> p' = p"
    "r = Some (c, bs) \<Longrightarrow> c \<noteq> -1 \<Longrightarrow> contents p = bs @ contents p'"
    using assms d c w by (auto simp: piperead_run_def split: if_splits simp del: length_contents)
qed

lemma pipeclose_spec: "pipeclose w p = Some p' \<Longrightarrow> contents p' = contents p \<and> pipe_ok p' = pipe_ok p"
  by (auto simp: pipeclose_def contents_def pipe_ok_def split: if_splits)

lemma pipe_stream_step:
  assumes "pipe_step kd s s'" "pipe_ok (pp s)" "sent s = got s @ contents (pp s)"
  shows "pipe_ok (pp s') \<and> sent s' = got s' @ contents (pp s')"
  using assms(1)
proof cases
  case (read_sleep q n p')
  then show ?thesis using piperead_run_spec(4) [OF assms(2) read_sleep(3) refl] assms by simp
next
  case (read_killed q n bs p')
  then show ?thesis using piperead_run_spec(5) [OF assms(2) read_killed(3) refl] assms by simp
next
  case (read_done q n r bs p')
  then show ?thesis using piperead_run_spec(1) [OF assms(2) read_done(3)] piperead_run_spec(6) [OF assms(2) read_done(3) refl read_done(4)] assms by simp
next
  case (write_sleep q n bs ys p')
  then show ?thesis using pipewrite_taken [OF assms(2) write_sleep(3)] assms by simp
next
  case (write_fail q n bs p')
  then show ?thesis using pipewrite_taken [OF assms(2) write_fail(3)] assms by simp
next
  case (write_done q n bs r p')
  then show ?thesis using pipewrite_taken [OF assms(2) write_done(3)] assms by simp
next
  case (close w p')
  then show ?thesis using pipeclose_spec [OF close(2)] assms by simp
qed (use assms in auto)

lemma pipe_reach_stream: "pipe_reach k s \<Longrightarrow> pipe_ok (pp s) \<and> sent s = got s @ contents (pp s)"
proof (induction rule: pipe_reach.induct)
  case (new d)
  then show ?case by (simp add: pipe_new_def pipe_ok_def contents_def)
next
  case (step s kd s')
  then show ?case using pipe_stream_step by blast
qed

text \<open>What is known of one process's state, given the pipe.\<close>

fun pstat_ok :: "pipe \<Rightarrow> pstat \<Rightarrow> bool" where
  "pstat_ok p PIdle \<longleftrightarrow> True"
| "pstat_ok p (RdReady n) \<longleftrightarrow> readopen p"
| "pstat_ok p (RdSleep n) \<longleftrightarrow> readopen p \<and> writeopen p \<and> contents p = []"
| "pstat_ok p (WrReady n bs) \<longleftrightarrow> writeopen p \<and> 0 \<le> n"
| "pstat_ok p (WrSleep n bs) \<longleftrightarrow> writeopen p \<and> 0 \<le> n \<and> readopen p \<and> length (contents p) = 512"

lemma pstat_wake: "pstat_ok p x \<Longrightarrow> pstat_ok p (wake_rd x) \<and> pstat_ok p (wake_wr x)"
  by (cases x) auto

text \<open>Writing more can only disturb a sleeping reader, and reading a sleeping writer.\<close>

lemma pstat_write:
  assumes "pstat_ok p x" "pipe_ok p" "pipewrite_run kd n bs p = (r, p')"
  shows "pstat_ok p' (wake_rd x)" "\<not> reading x \<Longrightarrow> pstat_ok p' x"
proof -
  note t = pipewrite_taken [OF assms(2,3)]
  have "length (contents p') = 512" if "length (contents p) = 512"
    using that length_contents_le [OF t(2)] unfolding t(1) length_append by linarith
  then show "pstat_ok p' (wake_rd x)" "\<not> reading x \<Longrightarrow> pstat_ok p' x"
    using assms(1) t by (cases x; simp del: length_contents)+
qed

lemma pstat_read:
  assumes "pstat_ok p x" "pipe_ok p" "piperead_run kd n p = (r, p')" "r = Some (c, bs)" "c \<noteq> -1"
  shows "pstat_ok p' (wake_wr x)"
  using assms(1) piperead_run_spec(2,3) [OF assms(2,3)] piperead_run_spec(6) [OF assms(2-5)] by (cases x) auto

lemma pipe_step_pstat:
  assumes "pipe_step False s s'" "pipe_ok (pp s)" "\<And>q. pstat_ok (pp s) (pst s q)"
  shows "pstat_ok (pp s') (pst s' i)"
  using assms(1)
proof cases
  note ok = assms(3) [of i]
  case (read_sleep q n p')
  then show ?thesis using ok assms(3) [of q] piperead_run_spec(4) [OF assms(2) read_sleep(3) refl] by auto
next
  note ok = assms(3) [of i]
  case (read_killed q n bs p')
  then show ?thesis using ok assms(3) [of q] piperead_run_spec(5) [OF assms(2) read_killed(3) refl] by auto
next
  case (read_done q n r bs p')
  then show ?thesis using pstat_read [OF assms(3) [of i] assms(2) read_done(3) refl read_done(4)] by auto
next
  case (write_sleep q n bs ys p')
  have "length (contents p') = 512" "readopen (pp s)" "readopen p' = readopen (pp s)"
    using pipewrite_run_spec [OF assms(2) write_sleep(3)] by (auto split: if_splits)
  then show ?thesis
    using pstat_write(1) [OF assms(3) [of i] assms(2) write_sleep(3)] pstat_write(1) [OF assms(3) [of q] assms(2) write_sleep(3)] write_sleep
    by auto
next
  case (write_fail q n bs p')
  have "0 \<le> n" using assms(3) [of q] write_fail by simp
  then have "\<not> readopen (pp s)" using pipewrite_run_spec [OF assms(2) write_fail(3)] by (auto split: if_splits)
  then have "\<not> reading (pst s i)" using assms(3) [of i] by (cases "pst s i") auto
  then show ?thesis using pstat_write(2) [OF assms(3) [of i] assms(2) write_fail(3)] write_fail by auto
next
  case (write_done q n bs r p')
  then show ?thesis using pstat_write(1) [OF assms(3) [of i] assms(2) write_done(3)] by auto
next
  case (wake q)
  then show ?thesis using assms(3) [of i] pstat_wake [of "pp s"] by auto
next
  case (close w p')
  have f: "contents p' = contents (pp s)" using pipeclose_spec [OF close(2)] by blast
  show ?thesis
    using close assms(3) [of i] spec [OF close(3), of i] f
    by (cases "pst s i") (auto simp: pipeclose_def split: if_splits)
qed (use assms in auto)

lemma pipe_reach_pstat: "pipe_reach False s \<Longrightarrow> pstat_ok (pp s) (pst s q)"
proof (induction arbitrary: q rule: pipe_reach.induct)
  case (step s kd s')
  have ok: "pipe_ok (pp s)" using pipe_reach_stream [OF step(1)] by blast
  have "pipe_step False s s'" using step by simp
  then show ?case by (rule pipe_step_pstat [OF _ ok step.IH])
qed simp

section \<open>Properties\<close>

text \<open>
  C23. A pipe is a first-in first-out byte stream: in every reachable state, whatever the
  interleaving of readers, writers, kills and closes, the bytes taken out followed by the bytes in the
  ring are exactly the bytes put in, and the ring holds at most 512 of them. This includes the
  wrap-around of the two counters.
\<close>

theorem pipe_stream:
  assumes "pipe_reach k s"
  shows "sent s = got s @ contents (pp s) \<and> length (contents (pp s)) \<le> 512"
  using pipe_reach_stream [OF assms] length_contents_le by blast

text \<open>
  C33. As long as no process is killed inside the pipe code, no wakeup is lost: a reader that sleeps
  sleeps on an empty pipe whose write end is open, and a writer that sleeps sleeps on a full pipe
  whose read end is open.
\<close>

theorem pipe_no_lost_wakeup:
  assumes "pipe_reach False s"
  shows "(pst s q = RdSleep n \<longrightarrow> contents (pp s) = [] \<and> writeopen (pp s)) \<and>
    (pst s q = WrSleep m bs \<longrightarrow> length (contents (pp s)) = 512 \<and> readopen (pp s))"
  using pipe_reach_pstat [OF assms, of q] by auto

text \<open>
  C39. A writer that is killed while it sleeps on a full pipe returns without a wakeup, and the same
  holds when it fills the pipe and finds itself killed: there is a reachable state in which a reader
  sleeps although 512 bytes are ready for it and the write end is still open.
\<close>

theorem pipe_killed_writer_strands_reader:
  "\<exists>s. pipe_reach True s \<and> pst s 1 = RdSleep 1 \<and> pst s 2 = PIdle \<and> length (contents (pp s)) = 512 \<and> writeopen (pp s)"
proof -
  define d :: "u8 list" where "d = replicate 512 0"
  define bs :: "u8 list" where "bs = replicate 513 7"
  let ?p = "pipe_new d"
  let ?s = "\<lambda>st. \<lparr>pp = ?p, pst = st, sent = [], got = []\<rparr>"
  have p: "pipe_ok ?p" "nread ?p = nwrite ?p" "readopen ?p" "writeopen ?p"
    by (simp_all add: pipe_new_def pipe_ok_def d_def)
  then have emp: "contents ?p = []" by (simp only: contents_empty)
  note R = pipe_reach.step
  have "pipe_reach True (?s (\<lambda>_. PIdle))" by (rule pipe_reach.new) (simp add: d_def)
  from R [OF this pipe_step.read_call [of _ 1 False 1]] have "pipe_reach True (?s ((\<lambda>_. PIdle)(1 := RdReady 1)))" using p by simp
  from R [OF this pipe_step.read_sleep [of _ 1 1 False ?p]] have "pipe_reach True (?s ((\<lambda>_. PIdle)(1 := RdSleep 1)))"
    using p by (simp add: piperead_run_def)
  from R [OF this pipe_step.write_call [of _ 2 True bs]] have
    w: "pipe_reach True (?s ((\<lambda>_. PIdle)(1 := RdSleep 1, 2 := WrReady 513 bs)))" using p by (simp add: bs_def)
  obtain r p' where run: "pipewrite_run True 513 bs ?p = (r, p')" by fastforce
  obtain xs ys where x: "bs = xs @ ys" "contents p' = contents ?p @ xs" "pipe_ok p'" "writeopen p' = writeopen ?p"
      "if ys = [] then r = Done 513 else length (contents p') = 512 \<and> r = (if \<not> readopen ?p \<or> True then Done (-1) else Sleeps ys)"
    using pipewrite_run_spec [OF p(1) run] by blast
  have "length xs \<le> 512" using length_contents_le [OF x(3)] x(2) emp by (simp del: length_contents)
  then have "ys \<noteq> []" using arg_cong [OF x(1), of length] by (auto simp: bs_def)
  then have f: "length (contents p') = 512" "r = Done (-1)" using x(5) by (auto simp del: length_contents)
  from R [OF w pipe_step.write_fail [of _ 2 513 bs True p']]
  have "pipe_reach True (\<lparr>pp = p', pst = (\<lambda>_. PIdle)(1 := RdSleep 1, 2 := PIdle), sent = taken ?p p' bs, got = []\<rparr>)"
    using run f(2) by simp
  then show ?thesis using f(1) x(4) p(4) by (intro exI conjI) (auto simp del: length_contents)
qed

section \<open>Witnesses\<close>

definition demo_pipe :: pipe_sys where
  "demo_pipe = \<lparr>pp = pipe_new (replicate 512 0), pst = (\<lambda>_. PIdle)(1 := RdSleep 1), sent = [], got = []\<rparr>"

lemma demo_pipe_reach: "pipe_reach False demo_pipe"
proof -
  note R = pipe_reach.step
  have "pipe_reach False \<lparr>pp = pipe_new (replicate 512 0), pst = (\<lambda>_. PIdle), sent = [], got = []\<rparr>"
    by (rule pipe_reach.new) simp
  from R [OF this pipe_step.read_call [of _ 1 False 1]]
  have "pipe_reach False \<lparr>pp = pipe_new (replicate 512 0), pst = (\<lambda>_. PIdle)(1 := RdReady 1), sent = [], got = []\<rparr>"
    by (simp add: pipe_new_def)
  from R [OF this pipe_step.read_sleep [of _ 1 1 False]] show ?thesis
    by (simp add: piperead_run_def pipe_new_def demo_pipe_def)
qed

theorem pipe_stream_witness: "sent demo_pipe = got demo_pipe @ contents (pp demo_pipe) \<and> length (contents (pp demo_pipe)) \<le> 512"
  by (rule pipe_stream [OF demo_pipe_reach])

theorem pipe_no_lost_wakeup_witness: "pst demo_pipe 1 = RdSleep 1 \<and> contents (pp demo_pipe) = []"
proof -
  have "pst demo_pipe 1 = RdSleep 1" by (simp add: demo_pipe_def)
  then show ?thesis using pipe_no_lost_wakeup [OF demo_pipe_reach] by blast
qed

end
