(* ===== verification/File.thy ===== *)
theory File
  imports FsDir Pipe
begin

text \<open>
  Open files (file.c) and the allocation of pipes (pipe.c), for one kernel thread. A file is its index in
  \<open>ftable\<close>; a pipe is the number of the page that holds it. \<open>kpages\<close> are the free pages of the page
  allocator with their contents. A read or write on a pipe that has to sleep waits for another process,
  so it ends the run. \<open>filewrite\<close> reads the caller's memory through \<open>rd\<close>: \<open>rd i n\<close> are the \<open>n\<close> bytes at
  \<open>addr + i\<close>; \<open>fileread\<close> returns the bytes that it stores at \<open>addr\<close>.
\<close>

section \<open>State\<close>

abbreviation (input) NFILE :: nat where "NFILE \<equiv> 100"

datatype fdtype = FD_NONE | FD_PIPE | FD_INODE

record kfile =
  f_type :: fdtype
  f_ref :: int
  f_readable :: bool
  f_writable :: bool
  f_pipe :: nat
  f_ip :: nat
  f_off :: u32
  f_name :: u32

record filest = fsst +
  ftable :: "kfile list"
  pipes :: "nat \<Rightarrow> pipe option"
  kpages :: "(nat \<times> u8 list) list"
  cur_killed :: bool

abbreviation file_of :: "'a filest_scheme \<Rightarrow> nat \<Rightarrow> kfile" where
  "file_of s f \<equiv> ftable s ! f"

definition upd_file :: "nat \<Rightarrow> (kfile \<Rightarrow> kfile) \<Rightarrow> 'a filest_scheme \<Rightarrow> 'a filest_scheme" where
  "upd_file f g s = s\<lparr>ftable := (ftable s)[f := g (ftable s ! f)]\<rparr>"

section \<open>The file table\<close>

definition filealloc :: "'a filest_scheme \<Rightarrow> nat option \<times> 'a filest_scheme" where
  "filealloc s =
     (case find (\<lambda>f. f_ref (file_of s f) = 0) [0..<length (ftable s)] of
        Some f \<Rightarrow> (Some f, upd_file f (\<lambda>x. x\<lparr>f_ref := 1\<rparr>) s)
      | None \<Rightarrow> (None, s))"

definition filedup :: "nat \<Rightarrow> 'a filest_scheme \<Rightarrow> 'a filest_scheme outcome" where
  "filedup f s =
     (if f_ref (file_of s f) < 1 then Panic ''filedup''
      else Ok (upd_file f (\<lambda>x. x\<lparr>f_ref := f_ref x + 1\<rparr>) s))"

text \<open>\<open>pipeclose\<close> on the state: the page of a pipe with no open end goes back to the allocator, which fills it.\<close>

definition close_pipe :: "nat \<Rightarrow> bool \<Rightarrow> 'a filest_scheme \<Rightarrow> 'a filest_scheme outcome" where
  "close_pipe p w s =
     (case pipes s p of
        None \<Rightarrow> Fault
      | Some q \<Rightarrow>
          (case pipeclose w q of
             Some q \<Rightarrow> Ok (s\<lparr>pipes := (pipes s)(p \<mapsto> q)\<rparr>)
           | None \<Rightarrow> Ok (s\<lparr>pipes := (pipes s)(p := None), kpages := (p, replicate 512 1) # kpages s\<rparr>)))"

definition fileclose :: "nat \<Rightarrow> 'a filest_scheme \<Rightarrow> 'a filest_scheme outcome" where
  "fileclose f s =
     (if f_ref (file_of s f) < 1 then Panic ''fileclose''
      else
        let s = upd_file f (\<lambda>x. x\<lparr>f_ref := f_ref x - 1\<rparr>) s; ff = file_of s f in
        if f_ref ff > 0 then Ok s
        else
          let s = upd_file f (\<lambda>x. x\<lparr>f_ref := 0, f_type := FD_NONE\<rparr>) s in
          case f_type ff of
            FD_PIPE \<Rightarrow> close_pipe (f_pipe ff) (f_writable ff) s
          | FD_INODE \<Rightarrow> obind (begin_op s) (\<lambda>s. obind (iput (f_ip ff) s) end_op)
          | FD_NONE \<Rightarrow> Ok s)"

section \<open>Reading and writing\<close>

definition filestat :: "nat \<Rightarrow> 'a filest_scheme \<Rightarrow> (fstat option \<times> 'a filest_scheme) outcome" where
  "filestat f s =
     (if f_type (file_of s f) = FD_INODE then
        let i = f_ip (file_of s f) in
        obind (ilock i s) (\<lambda>s.
        let st = stati i s in
        obind (iunlock i s) (\<lambda>s. Ok (Some st, s)))
      else Ok (None, s))"

definition fileseek :: "nat \<Rightarrow> int \<Rightarrow> 'a filest_scheme \<Rightarrow> 'a filest_scheme outcome" where
  "fileseek f offset s =
     (if f_type (file_of s f) = FD_INODE then
        let i = f_ip (file_of s f) in
        obind (ilock i s) (\<lambda>s.
        iunlock i (upd_file f (\<lambda>x. x\<lparr>f_off := to_uint offset\<rparr>) s))
      else Panic ''fileseek'')"

definition fileread :: "'a filest_scheme devsw \<Rightarrow> nat \<Rightarrow> int \<Rightarrow> 'a filest_scheme \<Rightarrow> (int \<times> u8 list \<times> 'a filest_scheme) outcome" where
  "fileread dv f n s =
     (if \<not> f_readable (file_of s f) then Ok (-1, [], s)
      else case f_type (file_of s f) of
        FD_PIPE \<Rightarrow>
          (case pipes s (f_pipe (file_of s f)) of
             None \<Rightarrow> Fault
           | Some q \<Rightarrow>
               (case piperead_run (cur_killed s) n q of
                  (None, q) \<Rightarrow> Diverge
                | (Some (r, bs), q) \<Rightarrow> Ok (r, bs, s\<lparr>pipes := (pipes s)(f_pipe (file_of s f) \<mapsto> q)\<rparr>)))
      | FD_INODE \<Rightarrow>
          let i = f_ip (file_of s f) in
          obind (ilock i s) (\<lambda>s.
          obind (readi dv i (f_off (file_of s f)) (to_uint n) s) (\<lambda>(r, bs, s).
          let s = (if r > 0 then upd_file f (\<lambda>x. x\<lparr>f_off := f_off x + to_uint r\<rparr>) s else s) in
          obind (iunlock i s) (\<lambda>s. Ok (r, bs, s))))
      | FD_NONE \<Rightarrow> Panic ''fileread'')"

abbreviation (input) max_write :: int where "max_write \<equiv> (10 - 1 - 1 - 2) div 2 * 512"

text \<open>One turn of the loop: the transaction that writes \<open>bs\<close> at the offset of the file.\<close>

definition write_op :: "'a filest_scheme devsw \<Rightarrow> nat \<Rightarrow> u8 list \<Rightarrow> 'a filest_scheme \<Rightarrow> (int \<times> 'a filest_scheme) outcome" where
  "write_op dv f bs s =
     (let i = f_ip (file_of s f) in
      obind (begin_op s) (\<lambda>s.
      obind (ilock i s) (\<lambda>s.
      obind (writei dv i bs (f_off (file_of s f)) s) (\<lambda>(r, s).
      let s = (if r > 0 then upd_file f (\<lambda>x. x\<lparr>f_off := f_off x + to_uint r\<rparr>) s else s) in
      obind (iunlock i s) (\<lambda>s.
      obind (end_op s) (\<lambda>s. Ok (r, s)))))))"

function filewrite_loop :: "'a filest_scheme devsw \<Rightarrow> nat \<Rightarrow> (int \<Rightarrow> int \<Rightarrow> u8 list outcome) \<Rightarrow> int \<Rightarrow> int \<Rightarrow> 'a filest_scheme \<Rightarrow>
    (int \<times> 'a filest_scheme) outcome" where
  "filewrite_loop dv f rd n i s =
     (if i < n then
        let n1 = min (n - i) max_write in
        obind (rd i n1) (\<lambda>bs.
        obind (write_op dv f bs s) (\<lambda>(r, s).
        if r < 0 then Ok (i, s)
        else if r \<noteq> n1 then Panic ''short filewrite''
        else filewrite_loop dv f rd n (i + r) s))
      else Ok (i, s))"
  by pat_completeness auto

termination filewrite_loop
  by (relation "measure (\<lambda>(dv, f, rd, n, i, s). nat (n - i))") (auto simp: min_def)

declare filewrite_loop.simps [simp del]

definition filewrite :: "'a filest_scheme devsw \<Rightarrow> nat \<Rightarrow> (int \<Rightarrow> int \<Rightarrow> u8 list outcome) \<Rightarrow> int \<Rightarrow> 'a filest_scheme \<Rightarrow>
    (int \<times> 'a filest_scheme) outcome" where
  "filewrite dv f rd n s =
     (if \<not> f_writable (file_of s f) then Ok (-1, s)
      else case f_type (file_of s f) of
        FD_PIPE \<Rightarrow>
          (case pipes s (f_pipe (file_of s f)) of
             None \<Rightarrow> Fault
           | Some q \<Rightarrow>
               obind (rd 0 n) (\<lambda>bs.
               case pipewrite_run (cur_killed s) n bs q of
                  (Sleeps _, q) \<Rightarrow> Diverge
                | (Done r, q) \<Rightarrow> Ok (r, s\<lparr>pipes := (pipes s)(f_pipe (file_of s f) \<mapsto> q)\<rparr>)))
      | FD_INODE \<Rightarrow>
          obind (filewrite_loop dv f rd n 0 s) (\<lambda>(i, s). Ok (if i = n then n else -1, s))
      | FD_NONE \<Rightarrow> Panic ''filewrite'')"

text \<open>The same, from the start of the file.\<close>

definition overwrite_file :: "'a filest_scheme devsw \<Rightarrow> nat \<Rightarrow> (int \<Rightarrow> int \<Rightarrow> u8 list outcome) \<Rightarrow> int \<Rightarrow> 'a filest_scheme \<Rightarrow>
    (int \<times> 'a filest_scheme) outcome" where
  "overwrite_file dv f rd n s =
     (if f_writable (file_of s f) \<and> f_type (file_of s f) = FD_INODE then
        obind (filewrite_loop dv f rd n 0 (upd_file f (\<lambda>x. x\<lparr>f_off := 0\<rparr>) s)) (\<lambda>(i, s). Ok (if i = n then n else -1, s))
      else filewrite dv f rd n s)"

section \<open>Pipes\<close>

definition pipealloc :: "'a filest_scheme \<Rightarrow> ((nat \<times> nat) option \<times> 'a filest_scheme) outcome" where
  "pipealloc s =
     (case filealloc s of
        (None, s) \<Rightarrow> Ok (None, s)
      | (Some f0, s) \<Rightarrow>
          (case filealloc s of
             (None, s) \<Rightarrow> obind (fileclose f0 s) (\<lambda>s. Ok (None, s))
           | (Some f1, s) \<Rightarrow>
               (case kpages s of
                  [] \<Rightarrow> obind (fileclose f0 s) (\<lambda>s. obind (fileclose f1 s) (\<lambda>s. Ok (None, s)))
                | (p, d) # ps \<Rightarrow>
                    let s = s\<lparr>kpages := ps, pipes := (pipes s)(p \<mapsto> pipe_new d)\<rparr>;
                        s = upd_file f0 (\<lambda>x. x\<lparr>f_type := FD_PIPE, f_readable := True, f_writable := False, f_pipe := p\<rparr>) s;
                        s = upd_file f1 (\<lambda>x. x\<lparr>f_type := FD_PIPE, f_readable := False, f_writable := True, f_pipe := p\<rparr>) s
                    in Ok (Some (f0, f1), s))))"

end
