(* ===== verification/FileWrite.thy ===== *)
theory FileWrite
  imports File
begin

text \<open>
  Writing through an open file. One turn of the loop of \<open>filewrite\<close> is a transaction that stays within the
  log space reserved by \<open>begin_op\<close>, whatever the log holds when \<open>begin_op\<close> lets it in; the whole call leaves the bytes on the disk.
\<close>

section \<open>States with the same files\<close>

text \<open>The blocks outside the log, the layout and the inodes are the same; locks of inodes may differ.\<close>

definition same_fs :: "'a fsst_scheme \<Rightarrow> 'b fsst_scheme \<Rightarrow> bool" where
  "same_fs s t \<longleftrightarrow> sblk t = sblk s \<and> disksize t = disksize s \<and> log_area t = log_area s \<and> (\<forall>b. b \<notin> log_area s \<longrightarrow> view t b = view s b) \<and>
     length (icache t) = length (icache s) \<and> (\<forall>j<length (icache s). \<exists>lk. inode_of t j = (inode_of s j)\<lparr>i_lock := lk\<rparr>)"

lemma same_fsD:
  assumes "same_fs s t"
  shows "sblk t = sblk s" "disksize t = disksize s" "log_area t = log_area s" "b \<notin> log_area s \<Longrightarrow> view t b = view s b"
    "length (icache t) = length (icache s)" "j < length (icache s) \<Longrightarrow> \<exists>lk. inode_of t j = (inode_of s j)\<lparr>i_lock := lk\<rparr>"
  using assms by (simp_all add: same_fs_def)

lemma lock_id: "\<exists>lk. ip = ip\<lparr>i_lock := lk\<rparr>"
  by (intro exI [of _ "i_lock ip"]) simp

lemma same_fsI:
  assumes "sblk t = sblk s" "disksize t = disksize s" "log_area t = log_area s" "\<And>b. b \<notin> log_area s \<Longrightarrow> view t b = view s b" "icache t = icache s"
  shows "same_fs s t"
  unfolding same_fs_def using assms lock_id by auto

lemma same_fs_trans:
  assumes "same_fs s t" "same_fs t u"
  shows "same_fs s u"
proof -
  note a = same_fsD [OF assms(1)] and b = same_fsD [OF assms(2)]
  have "\<exists>lk. inode_of u j = (inode_of s j)\<lparr>i_lock := lk\<rparr>" if j: "j < length (icache s)" for j
  proof -
    obtain l where l: "inode_of t j = (inode_of s j)\<lparr>i_lock := l\<rparr>" using a(6) [OF j] by blast
    obtain m where m: "inode_of u j = (inode_of t j)\<lparr>i_lock := m\<rparr>" using b(6) [of j] j a(5) by auto
    show ?thesis using l m by (intro exI [of _ m]) simp
  qed
  then show ?thesis using a b by (simp add: same_fs_def)
qed

lemma same_fs_parts:
  assumes "same_fs s t" "fs_ok s" "log_in t"
  shows "used t = used s" "fs_ok t" "free_blocks t = free_blocks s" "bitmap_blocks t = bitmap_blocks s" "meta t = meta s" "home t = home s"
proof -
  note a = same_fsD [OF assms(1)]
  have g: "bitmap_blocks s \<inter> log_area s = {}" using assms(2) by (simp add: fs_ok_def fs_geom_def)
  have v: "view t (BBLOCK b (sblk s)) = view s (BBLOCK b (sblk s))" if "b < nblk s" for b
    using g that by (intro a(4)) (auto simp: bitmap_blocks_def)
  show u: "used t = used s" unfolding fun_eq_iff used_def a(1) using v by auto
  show b: "bitmap_blocks t = bitmap_blocks s" using a(1) by (simp add: bitmap_blocks_def)
  have i: "inode_blocks t = inode_blocks s" using a(1) by (simp add: inode_blocks_def)
  show m: "meta t = meta s" using a(3) b i by (simp add: meta_def)
  show "free_blocks t = free_blocks s" using u a(1) by (simp add: free_blocks_def)
  show "fs_ok t" using assms(2,3) u b i m a(1-3) by (simp add: fs_ok_def fs_geom_def)
  show "home t = home s" using a(2,3) by (simp add: home_def)
qed

lemma same_fs_file:
  assumes "same_fs s t" "fs_ok s" "log_in t" "file_ok s i"
  shows "iblk t i = iblk s i" "\<And>k. k < MAXFILE \<Longrightarrow> fblk t i k = fblk s i k" "file_ok t i" "\<And>y. y < 71680 \<Longrightarrow> fbyte t i y = fbyte s i y"
    "fset t i = fset s i" "no_holes t i = no_holes s i" "i_size (inode_of t i) = i_size (inode_of s i)" "i_type (inode_of t i) = i_type (inode_of s i)"
    "meta_of t i = meta_of s i" "short_ok (inode_of t i) = short_ok (inode_of s i)"
proof -
  note a = same_fsD [OF assms(1)] and p = same_fs_parts [OF assms(1-3)] and f = file_okD [OF assms(4)]
  obtain lk where lk: "inode_of t i = (inode_of s i)\<lparr>i_lock := lk\<rparr>" using a(6) [OF f(1)] by blast
  have out: "view t b = view s b" if "b \<notin> meta s" for b using that by (intro a(4)) (auto simp: meta_def)
  show ib: "iblk t i = iblk s i" using lk by (simp add: iblk_def)
  show fb: "\<And>k. k < MAXFILE \<Longrightarrow> fblk t i k = fblk s i k" using ib lk f(6) out by (simp add: fblk_def)
  show "file_ok t i" using assms(4) ib fb lk p a by (simp add: file_ok_def)
  show fy: "fbyte t i y = fbyte s i y" if "y < 71680" for y
  proof -
    have k: "y div 512 < MAXFILE" using that by simp
    then show ?thesis using fb [OF k] out f(8) [OF k] by (simp add: fbyte_def)
  qed
  show "fset t i = fset s i" using ib fb by (auto simp: fset_def)
  show "i_size (inode_of t i) = i_size (inode_of s i)" "i_type (inode_of t i) = i_type (inode_of s i)" "meta_of t i = meta_of s i" "short_ok (inode_of t i) = short_ok (inode_of s i)"
    using lk p(4) a(1) by (simp_all add: meta_of_def short_ok_def)
  have "fblk t i (y div 512) = fblk s i (y div 512)" if "y < 71680" for y using that by (intro fb) simp
  then show "no_holes t i = no_holes s i" using lk by (auto simp: no_holes_def)
qed

section \<open>The end of a transaction\<close>

definition only_commit :: "'a logst_scheme \<Rightarrow> 'a logst_scheme \<Rightarrow> bool" where
  "only_commit s t \<longleftrightarrow> (\<exists>B D W n. t = s\<lparr>outstanding := 0, lh_n := n, bufs := B, disk := D, written := W, committing := False\<rparr>)"

lemma end_op_frame:
  assumes "log_ok s" "outstanding s = 1" "\<not> committing s" "end_op s = Ok t"
  shows "only_commit s t"
proof -
  define u where "u = s\<lparr>outstanding := 0, committing := True\<rparr>"
  have b: "bc_ok u" "view u = view s" "held u = held s" "dirty u = dirty s" using same_blk [of u s] log_okD(1) [OF assms(1)] by (simp_all add: u_def)
  have ou: "log_ok u" using assms(1) b by (simp add: log_ok_def log_lists_def log_geom_def logged_def log_area_def lblk_def [abs_def]) (simp add: u_def)
  have run: "end_op s = obind (commit u) (\<lambda>s. Ok (s\<lparr>committing := False\<rparr>))"
    using assms(2,3) by (simp add: end_op_def Let_def u_def)
  show ?thesis
  proof (cases "0 < lh_n u")
    case True
    obtain v w where v: "commit u = Ok v" "only_blk u w" "only_blk (w\<lparr>lh_n := 0\<rparr>) v" using commit_spec [OF ou True] by blast
    obtain B D W where w: "w = u\<lparr>bufs := B, disk := D, written := W\<rparr>" using v(2) unfolding only_blk_def by blast
    obtain B' D' W' where "v = w\<lparr>lh_n := 0, bufs := B', disk := D', written := W'\<rparr>" using v(3) unfolding only_blk_def by auto
    then have "t = s\<lparr>outstanding := 0, lh_n := 0, bufs := B', disk := D', written := W', committing := False\<rparr>"
      using assms(4) run v(1) w by (simp add: u_def)
    then show ?thesis unfolding only_commit_def by blast
  next
    case False
    have "t = s\<lparr>outstanding := 0, lh_n := lh_n s, bufs := bufs s, disk := disk s, written := written s, committing := False\<rparr>"
      using False assms(4) run by (simp add: commit_def u_def)
    then show ?thesis unfolding only_commit_def by blast
  qed
qed

text \<open>No transaction is open and the log is empty.\<close>

definition idle :: "'a logst_scheme \<Rightarrow> bool" where
  "idle s \<longleftrightarrow> log_ok s \<and> log_empty s \<and> outstanding s = 0 \<and> \<not> committing s \<and> lh_n s = 0 \<and> log_size s = 30"

lemma end_op_same:
  fixes s :: "'a fsst_scheme"
  assumes "log_ok s" "log_empty s" "outstanding s = 1" "\<not> committing s" "log_size s = 30"
  obtains t where "end_op s = Ok t" "idle t" "same_fs s t" "only_commit s t" "\<And>b. b \<notin> log_area s \<Longrightarrow> disk t b = view s b" "icache t = icache s"
proof -
  obtain t where t: "end_op s = Ok t" "log_ok t" "log_empty t" "lh_n t = 0" "outstanding t = 0" "\<not> committing t" "log_area t = log_area s"
      "\<And>b. b \<notin> log_area s \<Longrightarrow> disk t b = view s b \<and> view t b = view s b"
    using end_op_spec [OF assms(1-4)] by blast
  have c: "only_commit s t" by (rule end_op_frame [OF assms(1,3,4) t(1)])
  then have f: "sblk t = sblk s" "disksize t = disksize s" "icache t = icache s" "log_size t = log_size s" by (auto simp: only_commit_def)
  have "same_fs s t" by (rule same_fsI) (use f t(7,8) in simp_all)
  then show ?thesis using that t c f assms(5) by (auto simp: idle_def)
qed


section \<open>One transaction\<close>

lemma upd_file_same [simp]:
  "bufs (upd_file f g s) = bufs s" "disk (upd_file f g s) = disk s" "view (upd_file f g s) = view s" "held (upd_file f g s) = held s"
  "log_in (upd_file f g s) = log_in s" "log_area (upd_file f g s) = log_area s" "sblk (upd_file f g s) = sblk s" "icache (upd_file f g s) = icache s"
  "disksize (upd_file f g s) = disksize s" "cur_pid (upd_file f g s) = cur_pid s" "log_size (upd_file f g s) = log_size s"
  "outstanding (upd_file f g s) = outstanding s" "committing (upd_file f g s) = committing s" "log_empty (upd_file f g s) = log_empty s"
proof -
  let ?t = "upd_file f g s"
  show b: "bufs ?t = bufs s" "disk ?t = disk s" "disksize ?t = disksize s" "cur_pid ?t = cur_pid s" "sblk ?t = sblk s" "icache ?t = icache s"
    "log_size ?t = log_size s" "outstanding ?t = outstanding s" "committing ?t = committing s"
    by (simp_all add: upd_file_def)
  note v = same_blk [of ?t s, OF b(1-4)]
  show "view ?t = view s" "held ?t = held s" by (rule v)+
  have l: "logged ?t = logged s" "lblk ?t = lblk s" by (simp_all add: logged_def lblk_def [abs_def]) (simp_all add: upd_file_def)
  show a: "log_area ?t = log_area s" using l b(7) by (simp add: log_area_def)
  show "log_in ?t = log_in s" using v l a b by (simp add: log_in_def log_geom_def log_lists_def) (simp add: upd_file_def)
  show "log_empty ?t = log_empty s" using l b(2) by (simp add: log_empty_def)
qed

lemma pages_chunk:
  assumes "n \<le> 1536"
  shows "pages x n \<le> 4"
proof -
  obtain q r where x: "x = 512 * q + r" "r < 512" "x div 512 = q" using that [of "x div 512" "x mod 512"] by simp
  have "(512 * q + (r + n - 1)) div 512 \<le> q + 3" if "0 < n" using that x(2) assms by simp
  moreover have "x + n - 1 = 512 * q + (r + n - 1)" if "0 < n" using that x(1) by simp
  ultimately have "(x + n - 1) div 512 \<le> x div 512 + 3" if "0 < n" using that x(3) by simp
  then show ?thesis by (cases "n = 0") (simp_all only: pages_def if_True if_False, simp, linarith)
qed

lemma charge_chunk: "n \<le> 1536 \<Longrightarrow> charge x n \<le> 5"
  using charge_le(2) [of x n] pages_chunk [of n x] by simp

lemma meta_card:
  assumes "card (bitmap_blocks s) = 1"
  shows "finite (meta_of s i)" "card (meta_of s i) \<le> 2"
proof -
  have "finite (bitmap_blocks s)" using assms by (metis card.infinite zero_neq_one)
  then show "finite (meta_of s i)" "card (meta_of s i) \<le> 2" using assms card_insert_le_m1 [of 2 "bitmap_blocks s"] by (simp_all add: meta_of_def)
qed

lemma chunk_room:
  assumes "log_in s" "in_op s" "held s = {}" "card (bitmap_blocks s) = 1" "length (logged s) + 7 < lim s" "n \<le> 1536"
  shows "room (meta_of s i) (charge x n) s" "lcost (meta_of s i) s \<le> length (logged s) + 2"
proof -
  note m = meta_card [OF assms(4), of i]
  show c: "lcost (meta_of s i) s \<le> length (logged s) + 2"
    using card_Un_le [of "set (logged s)" "meta_of s i"] card_length [of "logged s"] m(2) by (simp add: lcost_def)
  show "room (meta_of s i) (charge x n) s"
    using c m(1) assms charge_chunk [OF assms(6), of x] by (simp add: room_def) (auto simp: meta_of_def)
qed

text \<open>A file that can be written: its inode is in the cache, valid and not locked.\<close>

definition open_ok :: "'a fsst_scheme \<Rightarrow> nat \<Rightarrow> bool" where
  "open_ok s i \<longleftrightarrow> fs_ok s \<and> file_ok s i \<and> no_holes s i \<and> i_type (inode_of s i) \<noteq> T_DEV \<and> short_ok (inode_of s i) \<and>
     i_valid (inode_of s i) \<and> 1 \<le> i_ref (inode_of s i) \<and> \<not> locked (i_lock (inode_of s i)) \<and> card (bitmap_blocks s) = 1"

definition op_post :: "'a filest_scheme \<Rightarrow> nat \<Rightarrow> nat \<Rightarrow> nat \<Rightarrow> u8 list \<Rightarrow> 'a filest_scheme \<Rightarrow> bool" where
  "op_post s f i x bs t \<longleftrightarrow> idle t \<and> open_ok t i \<and> ftable t = (ftable s)[f := (file_of s f)\<lparr>f_off := of_nat (x + length bs)\<rparr>] \<and>
     (\<forall>y<71680. fbyte t i y = (if x \<le> y \<and> y < x + length bs then bs ! (y - x) else fbyte s i y)) \<and>
     unat (i_size (inode_of t i)) = max (unat (i_size (inode_of s i))) (x + length bs) \<and>
     (unat (i_size (inode_of s i)) < x + length bs \<longrightarrow> synced t i) \<and> meta t = meta s \<and>
     (\<forall>b. used s b \<longrightarrow> b \<notin> meta s \<longrightarrow> b \<notin> fset s i \<longrightarrow> view t b = view s b \<and> used t b \<and> b \<notin> fset t i) \<and>
     (\<forall>j. j \<noteq> i \<longrightarrow> inode_of t j = inode_of s j)"

lemma lock_same:
  assumes "i < length (icache s)"
  shows "same_fs s (upd_inode i (\<lambda>ip. ip\<lparr>i_lock := g ip\<rparr>) s)"
  unfolding same_fs_def using assms lock_id by (auto simp: upd_inode_nth)

lemma synced_same:
  assumes "same_fs s t" "fs_ok s" "file_ok s i" "synced s i"
  shows "synced t i"
proof -
  note a = same_fsD [OF assms(1)]
  obtain lk where lk: "inode_of t i = (inode_of s i)\<lparr>i_lock := lk\<rparr>" using a(6) file_okD(1) [OF assms(3)] by blast
  have "IBLOCK (i_inum (inode_of s i)) (sblk s) \<in> home s" by (rule inode_home(1) [OF assms(2) file_okD(3) [OF assms(3)]])
  then have v: "view t (IBLOCK (i_inum (inode_of s i)) (sblk s)) = view s (IBLOCK (i_inum (inode_of s i)) (sblk s))"
    by (intro a(4)) (simp add: home_def)
  have "rd_dinode d p (ip\<lparr>i_lock := lk\<rparr>) = (rd_dinode d p ip)\<lparr>i_lock := lk\<rparr>" for d p ip by (simp add: rd_dinode_def)
  then show ?thesis using assms(4) lk v a(1) by (simp add: synced_def Let_def)
qed

text \<open>The state in which \<open>writei\<close> runs.\<close>

definition op_start :: "nat \<Rightarrow> 'a fsst_scheme \<Rightarrow> 'a fsst_scheme" where
  "op_start i s = upd_inode i (\<lambda>ip. ip\<lparr>i_lock := take_lock (cur_pid s) (i_lock ip)\<rparr>) (s\<lparr>outstanding := 1\<rparr>)"

lemma op_start_run:
  assumes "idle s" "open_ok s i"
  shows "obind (begin_op s) (ilock i) = Ok (op_start i s)"
proof -
  have "i < length (icache s)" using assms(2) by (simp add: open_ok_def file_ok_def)
  then show ?thesis
    using assms by (simp add: begin_op_def idle_def ilock_def open_ok_def acquiresleep_def Let_def upd_inode_nth op_start_def)
      (simp add: upd_inode_def)
qed

lemma op_start_spec:
  assumes "idle s" "open_ok s i"
  shows "same_fs s (op_start i s)" "log_in (op_start i s)" "held (op_start i s) = {}" "logged (op_start i s) = []" "in_op (op_start i s)"
    "log_size (op_start i s) = 30" "outstanding (op_start i s) = 1" "\<not> committing (op_start i s)" "log_empty (op_start i s)" "cur_pid (op_start i s) = cur_pid s"
    "i_lock (inode_of (op_start i s) i) = take_lock (cur_pid s) (i_lock (inode_of s i))" "\<And>j. j \<noteq> i \<Longrightarrow> inode_of (op_start i s) j = inode_of s j"
    "i_valid (inode_of (op_start i s) i) = i_valid (inode_of s i)" "i_ref (inode_of (op_start i s) i) = i_ref (inode_of s i)"
proof -
  let ?u = "s\<lparr>outstanding := 1\<rparr>"
  have i: "i < length (icache ?u)" using assms(2) by (simp add: open_ok_def file_ok_def)
  have o: "log_ok s" "log_empty s" "lh_n s = 0" "log_size s = 30" "\<not> committing s" using assms(1) by (auto simp: idle_def)
  have b: "bc_ok ?u \<longleftrightarrow> bc_ok s" "view ?u = view s" "has ?u = has s" "held ?u = held s" "dirty ?u = dirty s"
    by (rule same_blk; simp)+
  have l: "logged ?u = logged s" "lblk ?u = lblk s" "log_area ?u = log_area s" by (simp_all add: logged_def lblk_def [abs_def] log_area_def)
  have u: "same_fs s ?u" by (rule same_fsI) (use b(2) l in simp_all)
  show "same_fs s (op_start i s)" unfolding op_start_def by (rule same_fs_trans [OF u lock_same [OF i]])
  have "log_in ?u" using o(1) b l by (simp add: log_in_def log_ok_def log_geom_def log_lists_def)
  then show "log_in (op_start i s)" by (simp add: op_start_def)
  show "held (op_start i s) = {}" using o(1) b by (simp add: op_start_def log_ok_def)
  show "logged (op_start i s) = []" using o(3) by (simp add: op_start_def logged_def upd_inode_def)
  show "in_op (op_start i s)" "log_size (op_start i s) = 30" using o by (simp_all add: op_start_def in_op_def upd_inode_def)
  show "outstanding (op_start i s) = 1" "\<not> committing (op_start i s)" "log_empty (op_start i s)" "cur_pid (op_start i s) = cur_pid s"
    using o by (simp_all add: op_start_def upd_inode_def log_empty_def lblk_def)
  show "i_lock (inode_of (op_start i s) i) = take_lock (cur_pid s) (i_lock (inode_of s i))" "\<And>j. j \<noteq> i \<Longrightarrow> inode_of (op_start i s) j = inode_of s j"
    "i_valid (inode_of (op_start i s) i) = i_valid (inode_of s i)" "i_ref (inode_of (op_start i s) i) = i_ref (inode_of s i)"
    using upd_inode_nth [OF i] by (simp_all add: op_start_def)
qed

lemma log_ok_in: "log_ok s \<longleftrightarrow> log_in s \<and> held s = {}"
  by (auto simp: log_ok_def log_in_def)

lemma chunk_write:
  assumes "fs_ok s" "file_ok s i" "held s = {}" "no_holes s i" "i_type (inode_of s i) \<noteq> T_DEV" "in_op s" "card (bitmap_blocks s) = 1"
    "length (logged s) + 7 < lim s" "x \<le> unat (i_size (inode_of s i))" "x + length bs \<le> 71680" "length bs \<le> 1536" "5 \<le> card (free_blocks s)"
  shows "\<exists>t. writei dv i bs (of_nat x) s = Ok (int (length bs), t) \<and> write_post s i x bs t \<and> length (logged t) \<le> length (logged s) + 7"
proof -
  have li: "log_in s" using assms(1) by (simp add: fs_ok_def)
  note c = chunk_room(1) [OF li assms(6,3,7,8,11), of i x] chunk_room(2) [OF li assms(6,3,7,8,11), of i]
  have p: "charge x (length bs) \<le> 5" by (rule charge_chunk [OF assms(11)])
  obtain t where t: "writei dv i bs (of_nat x) s = Ok (int (length bs), t)" "write_post s i x bs t"
    using writei_spec [OF assms(1-5,9,10) c(1), of dv] p assms(12) by auto
  have "log_in t" "lcost (meta_of s i) t \<le> lcost (meta_of s i) s + charge x (length bs)" using t(2) by (simp_all add: write_post_def fs_ok_def)
  then have "length (logged t) \<le> length (logged s) + 7"
    using lcost_logged [of t "meta_of s i"] meta_card(1) [OF assms(7)] c(2) p by fastforce
  then show ?thesis using t by blast
qed

lemma op_finish:
  fixes s :: "'a filest_scheme"
  assumes "write_post s i x bs t" "fs_ok s" "file_ok s i" "log_empty s" "outstanding s = 1" "\<not> committing s" "log_size s = 30" "short_ok (inode_of s i)"
    "i_valid (inode_of s i)" "1 \<le> i_ref (inode_of s i)" "i_lock (inode_of s i) = take_lock (cur_pid s) lk"
  obtains u where "obind (iunlock i (upd_file f g t)) end_op = Ok u" "idle u" "same_fs t u" "ftable u = ftable (upd_file f g s)"
    "i_valid (inode_of u i)" "1 \<le> i_ref (inode_of u i)" "\<not> locked (i_lock (inode_of u i))" "\<And>j. j \<noteq> i \<Longrightarrow> inode_of u j = inode_of s j"
proof -
  obtain as z where ip: "only_log (upd_inode i (\<lambda>ip. ip\<lparr>i_addrs := as, i_size := z\<rparr>) s) t" using assms(1) unfolding write_post_def by blast
  have p: "fs_ok t" "file_ok t i" "held t = {}" "\<And>j. j \<noteq> i \<Longrightarrow> inode_of t j = inode_of s j"
    using assms(1) by (simp_all add: write_post_def)
  have i: "i < length (icache t)" "i < length (icache s)" using file_okD(1) p(2) assms(3) by blast+
  note l = only_log_fields [OF ip]
  have it: "inode_of t i = (inode_of s i)\<lparr>i_addrs := as, i_size := z\<rparr>" using only_log_fs(2) [OF ip] i by (simp add: upd_inode_nth)
  have ft: "ftable t = ftable s" "outstanding t = 1" "\<not> committing t" "log_size t = 30" "log_empty t" "cur_pid t = cur_pid s"
    using ip assms(4-7) l by (auto simp: only_log_def upd_inode_def log_empty_def lblk_def)
  define v where "v = upd_inode i (\<lambda>ip. ip\<lparr>i_lock := releasesleep (i_lock ip)\<rparr>) (upd_file f g t)"
  have iv: "i < length (icache (upd_file f g t))" using i(1) by simp
  have run: "iunlock i (upd_file f g t) = Ok v"
    using it assms(10,11) ft(6) by (simp add: iunlock_def Let_def v_def holdingsleep_def take_lock_def)
  have v: "log_ok v" "log_empty v" "outstanding v = 1" "\<not> committing v" "log_size v = 30"
    using p(1,3) ft by (simp_all add: v_def log_ok_in fs_ok_def) (simp_all add: upd_inode_def log_empty_def lblk_def upd_file_def)
  obtain u where u: "end_op v = Ok u" "idle u" "same_fs v u" "only_commit v u" "icache u = icache v" by (rule end_op_same [OF v]) (rule that)
  have "same_fs t (upd_file f g t)" by (rule same_fsI) simp_all
  then have "same_fs t v" unfolding v_def by (rule same_fs_trans [OF _ lock_same [OF iv]])
  then have tu: "same_fs t u" by (rule same_fs_trans [OF _ u(3)])
  have "ftable u = ftable v" using u(4) by (auto simp: only_commit_def)
  then have "ftable u = ftable (upd_file f g s)" using ft(1) by (simp add: v_def upd_file_def upd_inode_def)
  moreover have n: "inode_of u j = (if j = i then (inode_of t i)\<lparr>i_lock := releasesleep (i_lock (inode_of t i))\<rparr> else inode_of s j)" for j
    using u(5) upd_inode_nth [OF iv] p(4) by (simp add: v_def)
  moreover have "obind (iunlock i (upd_file f g t)) end_op = Ok u" using run u(1) by simp
  ultimately show ?thesis using that tu u(2) it assms(9,10) n by (simp add: releasesleep_def drop_lock_def)
qed

lemma write_op_run:
  fixes s :: "'a filest_scheme"
  assumes "idle s" "open_ok s i" "f_ip (file_of s f) = i" "f_off (file_of s f) = of_nat x" "x \<le> unat (i_size (inode_of s i))"
    "x + length bs \<le> 71680" "length bs \<le> 1536" "bs \<noteq> []" "8 \<le> card (free_blocks s)"
  obtains t u where "write_op dv f bs s = Ok (int (length bs), u)" "write_post (op_start i s) i x bs t" "same_fs t u" "idle u"
    "ftable u = (ftable s)[f := (file_of s f)\<lparr>f_off := of_nat (x + length bs)\<rparr>]"
    "i_valid (inode_of u i)" "1 \<le> i_ref (inode_of u i)" "\<not> locked (i_lock (inode_of u i))" "\<And>j. j \<noteq> i \<Longrightarrow> inode_of u j = inode_of s j"
proof -
  define a where "a = op_start i s"
  note st = op_start_spec [OF assms(1,2), folded a_def]
  have o: "fs_ok s" "file_ok s i" "no_holes s i" "i_type (inode_of s i) \<noteq> T_DEV" "short_ok (inode_of s i)" "i_valid (inode_of s i)" "1 \<le> i_ref (inode_of s i)"
      "card (bitmap_blocks s) = 1"
    using assms(2) by (simp_all add: open_ok_def)
  note p = same_fs_parts [OF st(1) o(1) st(2)] and q = same_fs_file [OF st(1) o(1) st(2) o(2)]
  obtain t where t: "writei dv i bs (of_nat x) a = Ok (int (length bs), t)" "write_post a i x bs t"
    using chunk_write [of a i x bs dv] p q o st assms(5-7,9) by auto
  let ?g = "\<lambda>y. y\<lparr>f_off := f_off y + to_uint (int (length bs))\<rparr>"
  obtain u where u: "obind (iunlock i (upd_file f ?g t)) end_op = Ok u" "idle u" "same_fs t u" "ftable u = ftable (upd_file f ?g a)"
      "i_valid (inode_of u i)" "1 \<le> i_ref (inode_of u i)" "\<not> locked (i_lock (inode_of u i))" "\<And>j. j \<noteq> i \<Longrightarrow> inode_of u j = inode_of a j"
    by (rule op_finish [OF t(2) p(2) q(3) st(9,7,8,6)]) (use q o st in auto)
  obtain s1 where s1: "begin_op s = Ok s1" "ilock i s1 = Ok a" using op_start_run [OF assms(1,2)] unfolding a_def by (rule obind_OkE)
  have fa: "ftable a = ftable s" by (simp add: a_def op_start_def upd_inode_def)
  obtain w where w: "iunlock i (upd_file f ?g t) = Ok w" "end_op w = Ok u" using u(1) by (rule obind_OkE)
  have run: "write_op dv f bs s = Ok (int (length bs), u)"
    using s1 t(1) w assms(3,4,8) fa by (simp add: write_op_def Let_def)
  have "ftable u = (ftable s)[f := (file_of s f)\<lparr>f_off := of_nat (x + length bs)\<rparr>]"
    using u(4) fa assms(4) by (simp add: upd_file_def to_uint_def)
  then show ?thesis using that [OF run _ u(3,2)] t(2) u(5-8) st(12) by (simp add: a_def)
qed

lemma write_op_spec:
  fixes s :: "'a filest_scheme"
  assumes "idle s" "open_ok s i" "f_ip (file_of s f) = i" "f_off (file_of s f) = of_nat x" "x \<le> unat (i_size (inode_of s i))"
    "x + length bs \<le> 71680" "length bs \<le> 1536" "bs \<noteq> []" "8 \<le> card (free_blocks s)"
  shows "\<exists>t. write_op dv f bs s = Ok (int (length bs), t) \<and> op_post s f i x bs t \<and> card (free_blocks s) \<le> card (free_blocks t) + 8"
proof -
  define a where "a = op_start i s"
  note st = op_start_spec [OF assms(1,2), folded a_def]
  have o: "fs_ok s" "file_ok s i" "no_holes s i" "i_type (inode_of s i) \<noteq> T_DEV" "short_ok (inode_of s i)" "card (bitmap_blocks s) = 1"
    using assms(2) by (simp_all add: open_ok_def)
  note p = same_fs_parts [OF st(1) o(1) st(2)] and q = same_fs_file [OF st(1) o(1) st(2) o(2)]
  obtain t u where run: "write_op dv f bs s = Ok (int (length bs), u)" and t: "write_post a i x bs t" and u: "same_fs t u" "idle u"
      "ftable u = (ftable s)[f := (file_of s f)\<lparr>f_off := of_nat (x + length bs)\<rparr>]"
      "i_valid (inode_of u i)" "1 \<le> i_ref (inode_of u i)" "\<not> locked (i_lock (inode_of u i))" "\<And>j. j \<noteq> i \<Longrightarrow> inode_of u j = inode_of s j"
    by (rule write_op_run [OF assms, of dv, folded a_def]) (rule that)
  have P: "fs_ok t" "file_ok t i" "\<And>y. y < 71680 \<Longrightarrow> fbyte t i y = (if x \<le> y \<and> y < x + length bs then bs ! (y - x) else fbyte a i y)"
      "unat (i_size (inode_of t i)) = max (unat (i_size (inode_of a i))) (x + length bs)" "no_holes t i"
      "\<And>b. used a b \<Longrightarrow> b \<notin> meta_of a i \<Longrightarrow> b \<notin> fset a i \<Longrightarrow> view t b = view a b \<and> used t b"
      "i_type (inode_of t i) = i_type (inode_of a i)" "unat (i_size (inode_of a i)) < x + length bs \<Longrightarrow> short_ok (inode_of a i) \<Longrightarrow> synced t i"
      "fset t i \<subseteq> fset a i \<union> free_blocks a" "card (free_blocks a) \<le> card (free_blocks t) + charge x (length bs)"
      "\<exists>as z. only_log (upd_inode i (\<lambda>ip. ip\<lparr>i_addrs := as, i_size := z\<rparr>) a) t"
    using t unfolding write_post_def by blast+
  have lu: "log_in u" using u(2) by (simp add: idle_def log_ok_in)
  note pu = same_fs_parts [OF u(1) P(1) lu] and qu = same_fs_file [OF u(1) P(1) lu P(2)]
  obtain as z where ol: "only_log (upd_inode i (\<lambda>ip. ip\<lparr>i_addrs := as, i_size := z\<rparr>) a) t" using P(11) by blast
  note ot = only_log_fs [OF ol]
  have it: "inode_of t i = (inode_of a i)\<lparr>i_addrs := as, i_size := z\<rparr>" using ot(2) file_okD(1) [OF q(3)] by (simp add: upd_inode_nth)
  have mt: "meta u = meta s" "bitmap_blocks u = bitmap_blocks s" using pu(4,5) p(4,5) ot(5,7) by simp_all
  have "open_ok u i" unfolding open_ok_def using pu qu P(1,2,5,7) u(4-6) it q o(4-6) mt by (simp add: short_ok_def)
  moreover have "fbyte u i y = (if x \<le> y \<and> y < x + length bs then bs ! (y - x) else fbyte s i y)" if "y < 71680" for y
    using qu(4) P(3) q(4) that by simp
  moreover have "view u b = view s b \<and> used u b \<and> b \<notin> fset u i" if b: "used s b" "b \<notin> meta s" "b \<notin> fset s i" for b
  proof -
    have "meta_of a i \<subseteq> meta a" using inode_home(2) [OF p(2) file_okD(3) [OF q(3)]] by (auto simp: meta_of_def meta_def)
    then have "view t b = view a b \<and> used t b" using P(6) [of b] b p q by auto
    moreover have "b \<notin> log_area s" "b \<notin> log_area t" using b(2) ot(5) p(5) by (auto simp: meta_def)
    ultimately show ?thesis
      using same_fsD(4) [OF st(1)] same_fsD(4) [OF u(1)] pu(1) qu(5) P(9) b p(1,3) q(5) by (auto simp: free_blocks_def)
  qed
  moreover have "synced u i" if "unat (i_size (inode_of s i)) < x + length bs"
    using P(8) that q(7,10) o(5) synced_same [OF u(1) P(1,2)] by simp
  moreover have "card (free_blocks s) \<le> card (free_blocks u) + 8"
    using P(10) charge_chunk [OF assms(7), of x] pu(3) p(3) by simp
  ultimately show ?thesis using run u(2,3,7) mt(1) P(4) qu(7) q(7) by (intro exI [of _ u]) (simp add: op_post_def)
qed

section \<open>The whole write\<close>

lemma op_post_append:
  assumes "op_post s f i x as t" "op_post t f i (x + length as) bs u" "bs \<noteq> []" "f < length (ftable s)"
  shows "op_post s f i x (as @ bs) u"
proof -
  let ?z = "\<lambda>s. unat (i_size (inode_of s i))"
  have a: "\<And>y. y < 71680 \<Longrightarrow> fbyte t i y = (if x \<le> y \<and> y < x + length as then as ! (y - x) else fbyte s i y)" "meta t = meta s"
      "\<And>b. used s b \<Longrightarrow> b \<notin> meta s \<Longrightarrow> b \<notin> fset s i \<Longrightarrow> view t b = view s b \<and> used t b \<and> b \<notin> fset t i" "\<And>j. j \<noteq> i \<Longrightarrow> inode_of t j = inode_of s j"
      "ftable t = (ftable s)[f := (file_of s f)\<lparr>f_off := of_nat (x + length as)\<rparr>]" "?z t = max (?z s) (x + length as)"
    using assms(1) unfolding op_post_def by blast+
  have b: "idle u" "open_ok u i" "\<And>y. y < 71680 \<Longrightarrow> fbyte u i y = (if x + length as \<le> y \<and> y < x + length as + length bs then bs ! (y - (x + length as)) else fbyte t i y)"
      "meta u = meta t" "\<And>b. used t b \<Longrightarrow> b \<notin> meta t \<Longrightarrow> b \<notin> fset t i \<Longrightarrow> view u b = view t b \<and> used u b \<and> b \<notin> fset u i"
      "\<And>j. j \<noteq> i \<Longrightarrow> inode_of u j = inode_of t j" "ftable u = (ftable t)[f := (file_of t f)\<lparr>f_off := of_nat (x + length as + length bs)\<rparr>]"
      "?z u = max (?z t) (x + length as + length bs)" "?z t < x + length as + length bs \<Longrightarrow> synced u i"
    using assms(2) unfolding op_post_def by blast+
  have "fbyte u i y = (if x \<le> y \<and> y < x + length (as @ bs) then (as @ bs) ! (y - x) else fbyte s i y)" if "y < 71680" for y
    using a(1) [OF that] b(3) [OF that] by (auto simp: nth_append)
  moreover have "ftable u = (ftable s)[f := (file_of s f)\<lparr>f_off := of_nat (x + length (as @ bs))\<rparr>]"
    using a(5) b(7) assms(4) by (simp add: add.assoc)
  moreover have "synced u i" if "?z s < x + length (as @ bs)" using b(9) a(6) that assms(3) by simp
  ultimately show ?thesis unfolding op_post_def using a(2-4,6) b(1,2,4-6,8) by simp
qed

lemma filewrite_loop_spec:
  fixes s :: "'a filest_scheme"
  assumes rd: "\<And>i n. 0 \<le> i \<Longrightarrow> 0 \<le> n \<Longrightarrow> i + n \<le> int (length bs) \<Longrightarrow> rd i n = Ok (take (nat n) (drop (nat i) bs))"
    and "idle s" "open_ok s i" "f < length (ftable s)" "f_ip (file_of s f) = i" "f_off (file_of s f) = of_nat x" "x \<le> unat (i_size (inode_of s i))"
      "k < length bs" "x + (length bs - k) \<le> 71680" "8 * ((length bs - k + 1535) div 1536) \<le> card (free_blocks s)"
  shows "\<exists>t. filewrite_loop dv f rd (int (length bs)) (int k) s = Ok (int (length bs), t) \<and> op_post s f i x (drop k bs) t"
  using assms(2-)
proof (induction "length bs - k" arbitrary: k s x rule: less_induct)
  case less
  define m where "m = min (length bs - k) 1536"
  let ?cs = "take m (drop k bs)"
  have m: "0 < m" "m \<le> 1536" "k + m \<le> length bs" "length ?cs = m" "?cs \<noteq> []" using less.prems(7) by (auto simp: m_def)
  have xm: "x + length ?cs \<le> 71680" using less.prems(8) m by linarith
  have "1 \<le> (length bs - k + 1535) div 1536" using less.prems(7) by (simp add: Suc_le_eq div_greater_zero_iff)
  then have fr: "8 \<le> card (free_blocks s)" using less.prems(9) by linarith
  obtain t where t: "write_op dv f ?cs s = Ok (int m, t)" "op_post s f i x ?cs t" "card (free_blocks s) \<le> card (free_blocks t) + 8"
    using write_op_spec [OF less.prems(1,2,4-6) xm, of dv] m fr by auto
  have n1: "min (int (length bs) - int k) 1536 = int m" using less.prems(7) by (simp add: m_def of_nat_min of_nat_diff)
  have step: "filewrite_loop dv f rd (int (length bs)) (int k) s = filewrite_loop dv f rd (int (length bs)) (int (k + m)) t"
    using t(1) rd [of "int k" "int m"] m less.prems(7) n1 by (subst filewrite_loop.simps) (simp add: Let_def)
  show ?case
  proof (cases "k + m = length bs")
    case True
    then show ?thesis using step t(2) m by (subst (asm) (2) filewrite_loop.simps) (auto simp: m_def)
  next
    case False
    then have big: "m = 1536" "k + m < length bs" using m(3) by (auto simp: m_def)
    have p: "idle t" "open_ok t i" "ftable t = (ftable s)[f := (file_of s f)\<lparr>f_off := of_nat (x + m)\<rparr>]" "unat (i_size (inode_of t i)) = max (unat (i_size (inode_of s i))) (x + m)"
      using t(2) m(4) by (simp_all add: op_post_def)
    have "length bs - k + 1535 = (length bs - (k + m) + 1535) + 1536" using big by simp
    then have d: "(length bs - k + 1535) div 1536 = Suc ((length bs - (k + m) + 1535) div 1536)" by (simp only: div_add_self2 [of 1536] zero_neq_numeral)
    have b: "length bs - (k + m) < length bs - k" "x + m + (length bs - (k + m)) \<le> 71680" "8 * ((length bs - (k + m) + 1535) div 1536) \<le> card (free_blocks t)"
      using big less.prems(8,9) d t(3) by linarith+
    have "\<exists>u. filewrite_loop dv f rd (int (length bs)) (int (k + m)) t = Ok (int (length bs), u) \<and> op_post t f i (x + m) (drop (k + m) bs) u"
      by (rule less.hyps [OF b(1) p(1,2) _ _ _ _ big(2) b(2,3)]) (use p(3,4) less.prems(3,4) in auto)
    then obtain u where u: "filewrite_loop dv f rd (int (length bs)) (int (k + m)) t = Ok (int (length bs), u)" "op_post t f i (x + m) (drop (k + m) bs) u" by blast
    have e: "?cs @ drop (k + m) bs = drop k bs" by (metis append_take_drop_id drop_drop add.commute)
    have "op_post s f i x (?cs @ drop (k + m) bs) u"
      by (rule op_post_append [OF t(2)]) (use u(2) m big less.prems(3) in auto)
    then show ?thesis using step u(1) e by simp
  qed
qed

lemma idle_disk:
  assumes "idle s"
  shows "disk s b = view s b"
proof -
  have "bc_ok s" "held s = {}" "dirty s = {}" using assms by (auto simp: idle_def log_ok_def logged_def)
  then show ?thesis using clean_view [of s b] by simp
qed

section \<open>Properties\<close>

text \<open>C3. A write to a file is on the disk when \<open>filewrite\<close> returns. Let no transaction be open, let the file
  have no holes and its offset \<open>x\<close> be at most its size, and let there be free blocks for every chunk. Then
  writing any number of bytes \<open>bs\<close>, as long as the file stays below the maximal size, returns their number,
  no panic of the log is possible, the offset has moved by that number, and in the state that the disk
  holds the file consists of its old bytes overwritten by \<open>bs\<close> at \<open>x\<close>; if the file has grown its inode is
  on the disk. All other files keep their bytes.\<close>

theorem filewrite_durable:
  fixes s :: "'a filest_scheme"
  assumes "\<And>k n. 0 \<le> k \<Longrightarrow> 0 \<le> n \<Longrightarrow> k + n \<le> int (length bs) \<Longrightarrow> rd k n = Ok (take (nat n) (drop (nat k) bs))"
    and "idle s" "open_ok s i" "f < length (ftable s)" "f_type (file_of s f) = FD_INODE" "f_writable (file_of s f)" "f_ip (file_of s f) = i"
      "f_off (file_of s f) = of_nat x" "x \<le> unat (i_size (inode_of s i))" "x + length bs \<le> MAXFILE * BSIZE"
      "8 * ((length bs + 1535) div 1536) \<le> card (free_blocks s)"
  shows "\<exists>t. filewrite dv f rd (int (length bs)) s = Ok (int (length bs), t) \<and> idle t \<and> open_ok t i \<and> (\<forall>b. disk t b = view t b) \<and>
    f_off (file_of t f) = of_nat (x + length bs) \<and> (\<forall>g. g \<noteq> f \<longrightarrow> file_of t g = file_of s g) \<and>
    (\<forall>y<MAXFILE * BSIZE. fbyte t i y = (if x \<le> y \<and> y < x + length bs then bs ! (y - x) else fbyte s i y)) \<and>
    unat (i_size (inode_of t i)) = max (unat (i_size (inode_of s i))) (x + length bs) \<and>
    (unat (i_size (inode_of s i)) < x + length bs \<longrightarrow> synced t i) \<and>
    (\<forall>j. file_ok s j \<longrightarrow> j \<noteq> i \<longrightarrow> fset s j \<inter> fset s i = {} \<longrightarrow> (\<forall>y<MAXFILE * BSIZE. fbyte t j y = fbyte s j y))"
proof (cases "bs = []")
  case True
  then have "filewrite dv f rd (int (length bs)) s = Ok (int (length bs), s)"
    using assms(5,6) by (simp add: filewrite_def filewrite_loop.simps)
  then show ?thesis using True assms(2,3,8,9) idle_disk [OF assms(2)] by auto
next
  case False
  obtain t where t: "filewrite_loop dv f rd (int (length bs)) 0 s = Ok (int (length bs), t)" "op_post s f i x bs t"
    using filewrite_loop_spec [OF assms(1-4,7-9), of 0 dv] False assms(10,11) by auto
  have p: "idle t" "open_ok t i" "ftable t = (ftable s)[f := (file_of s f)\<lparr>f_off := of_nat (x + length bs)\<rparr>]"
      "\<forall>y<71680. fbyte t i y = (if x \<le> y \<and> y < x + length bs then bs ! (y - x) else fbyte s i y)"
      "unat (i_size (inode_of t i)) = max (unat (i_size (inode_of s i))) (x + length bs)" "unat (i_size (inode_of s i)) < x + length bs \<longrightarrow> synced t i"
      "\<And>b. used s b \<Longrightarrow> b \<notin> meta s \<Longrightarrow> b \<notin> fset s i \<Longrightarrow> view t b = view s b" "\<And>j. j \<noteq> i \<Longrightarrow> inode_of t j = inode_of s j"
    using t(2) unfolding op_post_def by blast+
  have "fbyte t j y = fbyte s j y" if "file_ok s j" "j \<noteq> i" "fset s j \<inter> fset s i = {}" "y < 71680" for j y
    by (rule other_file(2) [OF p(8) [OF that(2)] p(7) that(4)]) (use that(3) fset_used [OF that(1)] in auto)
  moreover have "filewrite dv f rd (int (length bs)) s = Ok (int (length bs), t)" using t(1) assms(5,6) by (simp add: filewrite_def)
  ultimately show ?thesis using p(1-6) idle_disk [OF p(1)] assms(4) by simp
qed

text \<open>What \<open>begin_op\<close> has made sure of when it lets an operation in: the space reserved for it is free.\<close>

lemma begin_op_admits:
  assumes "begin_op r = Ok s" "0 \<le> outstanding r"
  shows "in_op s" "lh_n s + MAXOPBLOCKS \<le> LOGSIZE"
  using assms by (auto simp: begin_op_def in_op_def split: if_splits)

text \<open>C16. A chunk of \<open>filewrite\<close> stays within its reservation. Take a sound file system on a disk with one bitmap block and a log of
  \<open>LOGSIZE\<close> blocks, a file without holes that is not a device, an operation in progress whose \<open>MAXOPBLOCKS\<close> blocks are
  still reserved (\<open>begin_op\<close> lets an operation in only if they are), no buffer held, and at least five free blocks on
  the disk. Then \<open>writei\<close> of at most the number of bytes that \<open>filewrite\<close> puts into one transaction, at any offset
  up to the end of the file and with any alignment, but not beyond the largest file, writes them all
  without a panic of the log, and adds at most seven blocks to it: four of data, the indirect block, the bitmap
  block and the block of the inode.\<close>

theorem filewrite_reservation:
  assumes "fs_ok s" "file_ok s i" "held s = {}" "no_holes s i" "i_type (inode_of s i) \<noteq> T_DEV" "in_op s" "card (bitmap_blocks s) = 1"
    "log_size s = LOGSIZE" "lh_n s + MAXOPBLOCKS \<le> LOGSIZE" "x \<le> unat (i_size (inode_of s i))" "x + length bs \<le> MAXFILE * BSIZE"
    "int (length bs) \<le> max_write" "5 \<le> card (free_blocks s)"
  shows "\<exists>t. writei dv i bs (of_nat x) s = Ok (int (length bs), t) \<and> lh_n t \<le> lh_n s + 7 \<and> lh_n t < log_size s - 1"
proof -
  have n: "int (length (logged u)) = lh_n u" if "fs_ok u" for u :: "'a fsst_scheme"
    using that by (auto simp: fs_ok_def log_in_def log_lists_def log_geom_def logged_def)
  have "length (logged s) + 7 < lim s" using n [OF assms(1)] assms(8,9) by linarith
  then obtain t where t: "writei dv i bs (of_nat x) s = Ok (int (length bs), t)" "write_post s i x bs t" "length (logged t) \<le> length (logged s) + 7"
    using chunk_write [OF assms(1-7) _ assms(10), of bs dv] assms(11-13) by auto
  moreover have "fs_ok t" using t(2) by (simp add: write_post_def)
  ultimately show ?thesis using n [of s] n [of t] assms(1,8,9) by auto
qed

section \<open>Witnesses\<close>

text \<open>The disk of the theory FsRw, with the empty file open for writing.\<close>

definition demo_boot :: filest where
  "demo_boot = \<lparr>disk = demo_disk, disksize = 1000, bufs = [], cur_pid = 1, written = [],
     log_start = 2, log_size = 30, outstanding = 0, committing = False, log_dev = 1, lh_n = 0, lh_block = replicate 30 0,
     sblk = demo_sb, icache = [demo_inode\<lparr>i_lock := initsleeplock\<rparr>, demo_inode\<lparr>i_ref := 0\<rparr>], cur_cwd = 0,
     ftable = [\<lparr>f_type = FD_INODE, f_ref = 1, f_readable = True, f_writable = True, f_pipe = 0, f_ip = 0, f_off = 0, f_name = 0\<rparr>],
     pipes = (\<lambda>_. None), kpages = [], cur_killed = False\<rparr>"

definition demo_file :: filest where
  "demo_file = boot demo_boot demo_disk"

lemma demo_file_idle: "idle demo_file" "view demo_file = demo_disk" "sblk demo_file = demo_sb" "log_area demo_file = log_area demo_fs"
    "icache demo_file = [demo_inode\<lparr>i_lock := initsleeplock\<rparr>, demo_inode\<lparr>i_ref := 0\<rparr>]" "disksize demo_file = 1000"
    "ftable demo_file = ftable demo_boot"
proof -
  have g: "log_geom demo_boot" by (simp add: log_geom_def demo_boot_def)
  have d: "length (demo_disk b) = 512" for b by (simp add: demo_disk_def)
  note b = boot_ok [of demo_boot demo_disk, OF g d, folded demo_file_def]
  show f: "view demo_file = demo_disk" "sblk demo_file = demo_sb" "disksize demo_file = 1000"
      "icache demo_file = [demo_inode\<lparr>i_lock := initsleeplock\<rparr>, demo_inode\<lparr>i_ref := 0\<rparr>]"
    using b by (simp_all add: demo_file_def) (simp_all add: demo_boot_def)
  show "log_area demo_file = log_area demo_fs" using b(9) demo_fs_log by (simp add: log_area_def lblk_def [abs_def]) (simp add: demo_boot_def)
  have l: "lh_n demo_file = 0" "outstanding demo_file = 0" "\<not> committing demo_file" "log_size demo_file = 30" "lblk demo_file 0 = 2"
    using b(8,12) by (simp_all add: demo_file_def) (simp_all add: boot_def demo_boot_def lblk_def to_uint_def)
  have "log_ok demo_file" using b l by (simp add: log_ok_def log_lists_def logged_def)
  moreover have "log_empty demo_file" using b(3) l(5) by (simp add: log_empty_def head_n_def demo_disk_def rd32_def to_int_def)
  ultimately show "idle demo_file" using l by (simp add: idle_def)
  let ?u = "demo_boot\<lparr>disk := demo_disk, bufs := replicate (Suc NBUF) buf_zero, written := []\<rparr>"
  obtain B D' W where "binit ?u = ?u\<lparr>bufs := B, disk := D', written := W\<rparr>" using only_blk_binit [of ?u] unfolding only_blk_def by blast
  then show "ftable demo_file = ftable demo_boot" unfolding demo_file_def boot_def by simp
qed

lemma demo_file_ok: "open_ok demo_file 0" "unat (i_size (inode_of demo_file 0)) = 0" "free_blocks demo_file = free_blocks demo_fs"
proof -
  note k = demo_file_idle and l = demo_fs_log
  have li: "log_in demo_file" using k(1) by (simp add: idle_def log_ok_in)
  have "\<exists>lk. icache demo_file ! j = (icache demo_fs ! j)\<lparr>i_lock := lk\<rparr>" if "j < length (icache demo_fs)" for j
    using that k(5) l(7) lock_id by (cases j) (auto simp: demo_inode_def)
  then have s: "same_fs demo_fs demo_file" unfolding same_fs_def using k l by simp
  note p = same_fs_parts [OF s demo_fs_ok(1) li] and q = same_fs_file [OF s demo_fs_ok(1) li demo_fs_ok(2)]
  show "free_blocks demo_file = free_blocks demo_fs" by (rule p(3))
  show z: "unat (i_size (inode_of demo_file 0)) = 0" using q(7) demo_fs_ok(9) by simp
  show "open_ok demo_file 0" unfolding open_ok_def using p q demo_fs_ok demo_areas(1) k(5) by (simp add: demo_inode_def initsleeplock_def)
qed

lemma demo_free: "8 \<le> card (free_blocks demo_fs)"
proof -
  have u: "unat (64 + of_nat k :: u32) = 64 + k" if "k < 8" for k using small_off(1) [of "64 + k"] that by simp
  have "(\<lambda>k. 64 + of_nat k :: u32) ` {..<8} \<subseteq> free_blocks demo_fs"
  proof safe
    fix k :: nat assume "k < 8"
    then show "64 + of_nat k \<in> free_blocks demo_fs" using u [of k] by (intro demo_used(2)) (simp_all add: word_le_nat_alt word_less_nat_alt)
  qed
  moreover have "inj_on (\<lambda>k. 64 + of_nat k :: u32) {..<8}"
    by (rule inj_onI) (metis u add_left_cancel lessThan_iff)
  then have "card ((\<lambda>k. 64 + of_nat k :: u32) ` {..<8}) = 8" by (simp only: card_image card_lessThan)
  ultimately show ?thesis using card_mono [OF finite, of "(\<lambda>k. 64 + of_nat k :: u32) ` {..<8}" "free_blocks demo_fs"] by (simp only:)
qed

definition no_dev :: "'a devsw" where
  "no_dev = \<lparr>d_read = (\<lambda>_. None), d_write = (\<lambda>_. None)\<rparr>"

theorem filewrite_durable_witness:
  "\<exists>t. filewrite no_dev 0 (\<lambda>k n. Ok (take (nat n) (drop (nat k) [104, 105, 33]))) 3 demo_file = Ok (3, t) \<and>
    unat (i_size (inode_of t 0)) = 3 \<and> fbyte t 0 1 = 105 \<and> synced t 0 \<and> f_off (file_of t 0) = 3"
proof -
  have f: "0 < length (ftable demo_file)" "f_type (file_of demo_file 0) = FD_INODE" "f_writable (file_of demo_file 0)" "f_ip (file_of demo_file 0) = 0"
    "f_off (file_of demo_file 0) = of_nat 0" using demo_file_idle(7) by (simp_all add: demo_boot_def)
  note t = filewrite_durable [of "[104, 105, 33]" "\<lambda>k n. Ok (take (nat n) (drop (nat k) [104, 105, 33]))" demo_file 0 0 0 no_dev,
      OF _ demo_file_idle(1) demo_file_ok(1) f]
  show ?thesis using t demo_file_ok(2,3) demo_free by auto
qed

definition demo_chunk :: "u8 list" where
  "demo_chunk = replicate 1536 7"

theorem filewrite_reservation_witness:
  "\<exists>t. writei no_dev 0 demo_chunk 0 demo_fs = Ok (1536, t) \<and> lh_n t \<le> 7 \<and> lh_n t < 29"
proof -
  have n: "lh_n demo_fs = 0" by (simp add: demo_fs_def) (simp add: boot_def)
  have l: "length demo_chunk = 1536" unfolding demo_chunk_def by (rule length_replicate)
  show ?thesis
    using filewrite_reservation [of demo_fs 0 0 demo_chunk no_dev] demo_fs_ok demo_fs_log demo_areas(1) demo_free n l by simp
qed

end
