(* ===== verification/Syscall.thy ===== *)
theory Syscall
  imports Proc
begin

text \<open>
  System call arguments and dispatch (syscall.c). User memory is the function \<open>um\<close> from virtual
  addresses to bytes, \<open>None\<close> where nothing is mapped: a kernel access there is a \<open>Fault\<close>. \<open>sz\<close> is the
  size of the calling process and \<open>esp\<close> its saved stack pointer. A C function that returns -1 and
  leaves its output argument alone returns \<open>None\<close> here.
\<close>

section \<open>Fetching arguments\<close>

type_synonym umem = "u32 \<Rightarrow> u8 option"

definition uld8 :: "umem \<Rightarrow> u32 \<Rightarrow> u8 outcome" where
  "uld8 um a = (case um a of Some v \<Rightarrow> Ok v | None \<Rightarrow> Fault)"

definition uld32 :: "umem \<Rightarrow> u32 \<Rightarrow> u32 outcome" where
  "uld32 um a =
     obind (uld8 um a) (\<lambda>b0. obind (uld8 um (a + 1)) (\<lambda>b1. obind (uld8 um (a + 2)) (\<lambda>b2. obind (uld8 um (a + 3)) (\<lambda>b3.
     Ok (ucast b0 OR push_bit 8 (ucast b1) OR push_bit 16 (ucast b2) OR push_bit 24 (ucast b3))))))"

definition fetchint :: "umem \<Rightarrow> u32 \<Rightarrow> u32 \<Rightarrow> int option outcome" where
  "fetchint um sz addr =
     (if addr \<ge> sz \<or> addr + 4 > sz then Ok None
      else obind (uld32 um addr) (\<lambda>v. Ok (Some (to_int v))))"

fun fetchstr_loop :: "nat \<Rightarrow> umem \<Rightarrow> u32 \<Rightarrow> u32 \<Rightarrow> u32 option outcome" where
  "fetchstr_loop 0 um s ep = Ok None"
| "fetchstr_loop (Suc n) um s ep =
     (if s < ep then obind (uld8 um s) (\<lambda>v. if v = 0 then Ok (Some s) else fetchstr_loop n um (s + 1) ep)
      else Ok None)"

text \<open>The scan visits at most \<open>sz - addr\<close> bytes, so this is enough fuel and the first equation is only
  reached at the end of the process.\<close>

definition fetchstr :: "umem \<Rightarrow> u32 \<Rightarrow> u32 \<Rightarrow> (u32 \<times> int) option outcome" where
  "fetchstr um sz addr =
     (if addr \<ge> sz then Ok None
      else obind (fetchstr_loop (unat (sz - addr)) um addr sz) (\<lambda>r.
        Ok (map_option (\<lambda>s. (addr, to_int (s - addr))) r)))"

definition argint :: "umem \<Rightarrow> u32 \<Rightarrow> u32 \<Rightarrow> int \<Rightarrow> int option outcome" where
  "argint um sz esp n = fetchint um sz (esp + 4 + to_uint (4 * n))"

definition argptr :: "umem \<Rightarrow> u32 \<Rightarrow> u32 \<Rightarrow> int \<Rightarrow> int \<Rightarrow> u32 option outcome" where
  "argptr um sz esp n size1 =
     obind (argint um sz esp n) (\<lambda>r. case r of
       None \<Rightarrow> Ok None
     | Some i \<Rightarrow>
         if size1 < 0 \<or> to_uint i \<ge> sz \<or> to_uint i + to_uint size1 > sz then Ok None
         else Ok (Some (to_uint i)))"

definition argstr :: "umem \<Rightarrow> u32 \<Rightarrow> u32 \<Rightarrow> int \<Rightarrow> (u32 \<times> int) option outcome" where
  "argstr um sz esp n =
     obind (argint um sz esp n) (\<lambda>r. case r of
       None \<Rightarrow> Ok None
     | Some addr \<Rightarrow> fetchstr um sz (to_uint addr))"

section \<open>Dispatch\<close>

datatype sysno = SYS_fork | SYS_exit | SYS_wait | SYS_pipe | SYS_read | SYS_kill | SYS_exec | SYS_fstat
  | SYS_chdir | SYS_dup | SYS_getpid | SYS_sbrk | SYS_sleep | SYS_uptime | SYS_open | SYS_write | SYS_mknod
  | SYS_unlink | SYS_link | SYS_mkdir | SYS_close | SYS_getfilename | SYS_wmap | SYS_wunmap | SYS_wremap
  | SYS_getpgdirinfo | SYS_getwmapinfo

definition syscalls :: "(sysno option) list" where
  "syscalls = [None, Some SYS_fork, Some SYS_exit, Some SYS_wait, Some SYS_pipe, Some SYS_read, Some SYS_kill,
     Some SYS_exec, Some SYS_fstat, Some SYS_chdir, Some SYS_dup, Some SYS_getpid, Some SYS_sbrk, Some SYS_sleep,
     Some SYS_uptime, Some SYS_open, Some SYS_write, Some SYS_mknod, Some SYS_unlink, Some SYS_link,
     Some SYS_mkdir, Some SYS_close, Some SYS_getfilename, Some SYS_wmap, Some SYS_wunmap, Some SYS_wremap,
     Some SYS_getwmapinfo, Some SYS_getpgdirinfo]"

text \<open>\<open>run\<close> stands for the table's functions: the system call \<open>c\<close> on the process table and the rest \<open>'k\<close>
  of the kernel state. The message for an unknown number goes to the console and is not in the state.\<close>

definition syscall :: "(sysno \<Rightarrow> ptable \<times> 'k \<Rightarrow> (int \<times> ptable \<times> 'k) outcome) \<Rightarrow> nat \<Rightarrow> ptable \<times> 'k \<Rightarrow> (ptable \<times> 'k) outcome" where
  "syscall run me = (\<lambda>(t, k).
     let num = to_int (t_eax (tf (procs t ! me)));
         ret = (\<lambda>r t. upd_proc me (\<lambda>p. p\<lparr>tf := (tf p)\<lparr>t_eax := to_uint r\<rparr>\<rparr>) t)
     in
     case (if 0 < num \<and> num < int (length syscalls) then syscalls ! nat num else None) of
       Some c \<Rightarrow> obind (run c (t, k)) (\<lambda>(r, t, k). Ok (ret r t, k))
     | None \<Rightarrow> Ok (ret (-1) t, k))"

section \<open>Arguments stay inside the process\<close>

lemma fetchint_inside:
  assumes "sz \<le> 0x80000000" "fetchint um sz a = Ok (Some v)"
  shows "uint a + 4 \<le> uint sz"
proof -
  have a: "a < sz" "a + 4 \<le> sz" using assms(2) by (auto simp: fetchint_def split: if_splits)
  then have "uint a < 2 ^ 31" using assms(1) by (simp add: word_less_def word_le_def)
  then have "uint (a + 4) = uint a + 4" by (simp add: uint_plus_if')
  then show ?thesis using a(2) by (simp add: word_le_def)
qed

lemma fetchstr_loop_spec:
  assumes "uint s + int n \<le> uint ep" "fetchstr_loop n um s ep = Ok (Some e)"
  shows "\<exists>k<n. e = s + of_nat k \<and> uint e = uint s + int k \<and> um e = Some 0 \<and> (\<forall>j<k. \<exists>v. um (s + of_nat j) = Some v \<and> v \<noteq> 0)"
  using assms
proof (induction n um s ep rule: fetchstr_loop.induct)
  case (2 n um s ep)
  have lt: "s < ep" using 2(3) by (auto split: if_splits)
  then obtain v where v: "um s = Some v" using 2(3) by (auto simp: uld8_def obind_eq_Ok split: option.splits)
  show ?case
  proof (cases "v = 0")
    case True
    then show ?thesis using 2(3) v lt by (intro exI [of _ 0]) (auto simp: uld8_def)
  next
    case False
    have u1: "uint (s + 1) = uint s + 1"
      using lt uint_bounded [of ep] by (simp add: uint_plus_if' word_less_def)
    then have "uint (s + 1) + int n \<le> uint ep" using 2(2) by simp
    then obtain k where k: "k < n" "e = s + 1 + of_nat k" "uint e = uint (s + 1) + int k" "um e = Some 0"
        "\<forall>j<k. \<exists>v. um (s + 1 + of_nat j) = Some v \<and> v \<noteq> 0"
      using 2(1) [OF lt, of v] 2(3) v lt False by (auto simp: uld8_def)
    have "\<exists>v. um (s + of_nat j) = Some v \<and> v \<noteq> 0" if "j < Suc k" for j
      using that k(5) v False by (cases j) (auto simp: add.assoc)
    then show ?thesis using k u1 by (intro exI [of _ "Suc k"]) (auto simp: add.assoc)
  qed
qed simp

text \<open>
  C25. Arguments of system calls stay inside the process. For a process of at most 2 GB: when \<open>argptr\<close>
  accepts a pointer to a block of \<open>n\<close> bytes, the whole block is below the process size, without
  wrap-around; when \<open>argstr\<close> accepts a string of length \<open>l\<close>, every byte of it is mapped and lies below
  the process size, the byte at \<open>l\<close> is the first NUL.
\<close>

theorem syscall_args_inside:
  assumes "sz \<le> 0x80000000"
  shows "(argptr um sz esp k n = Ok (Some p) \<longrightarrow> c_int n \<longrightarrow> 0 \<le> n \<and> uint p + n \<le> uint sz) \<and>
    (argstr um sz esp k = Ok (Some (p, l)) \<longrightarrow> 0 \<le> l \<and> uint p + l < uint sz \<and> um (p + to_uint l) = Some 0 \<and>
       (\<forall>j. 0 \<le> j \<longrightarrow> j < l \<longrightarrow> (\<exists>v. um (p + to_uint j) = Some v \<and> v \<noteq> 0)))"
proof (intro conjI impI)
  assume a: "argptr um sz esp k n = Ok (Some p)" "c_int n"
  then have n: "0 \<le> n" "p < sz" "p + to_uint n \<le> sz"
    by (auto simp: argptr_def obind_eq_Ok split: option.splits if_splits)
  show "0 \<le> n" by (rule n)
  have "uint p < 2 ^ 31" using n(2) assms by (simp add: word_less_def word_le_def)
  then have "uint (p + to_uint n) = uint p + n" using n(1) a(2) by (intro uint_add_to_uint) (auto simp: c_int_def)
  then show "uint p + n \<le> uint sz" using n(3) by (simp add: word_le_def)
next
  assume "argstr um sz esp k = Ok (Some (p, l))"
  then obtain e where e: "p < sz" "fetchstr_loop (unat (sz - p)) um p sz = Ok (Some e)" "l = to_int (e - p)"
    by (auto simp: argstr_def fetchstr_def obind_eq_Ok split: option.splits if_splits)
  have "int (unat (sz - p)) = uint sz - uint p" using e(1) by (simp add: uint_sub_if' word_less_def)
  then obtain i where i: "i < unat (sz - p)" "e = p + of_nat i" "uint e = uint p + int i" "um e = Some 0"
      "\<forall>j<i. \<exists>v. um (p + of_nat j) = Some v \<and> v \<noteq> 0"
    using fetchstr_loop_spec [OF _ e(2)] by auto
  have "uint p + int i < uint sz" using i(1) \<open>int (unat (sz - p)) = _\<close> by linarith
  moreover have "uint sz \<le> 2 ^ 31" using assms by (simp add: word_le_def)
  then have "int i < 2 ^ 31" using calculation uint_ge_0 [of p] by linarith
  then have "l = int i" unfolding e(3) i(2) by (simp add: to_int_cases word_less_def unsigned_of_nat take_bit_nat_eq_self)
  ultimately show "0 \<le> l" "uint p + l < uint sz" by auto
  show "um (p + to_uint l) = Some 0" using i \<open>l = int i\<close> by (simp add: to_uint_def)
  show "\<forall>j. 0 \<le> j \<longrightarrow> j < l \<longrightarrow> (\<exists>v. um (p + to_uint j) = Some v \<and> v \<noteq> 0)"
    using i(5) \<open>l = int i\<close> by (auto simp: to_uint_def) (metis nat_less_iff of_nat_nat)
qed

definition demo_um :: umem where
  "demo_um = (\<lambda>_. Some 0)(0x2004 := Some 0x10, 0x10 := Some 47, 0x11 := Some 97)"

lemma fetchstr_loop_numeral:
  "fetchstr_loop (numeral k) um s ep =
     (if s < ep then obind (uld8 um s) (\<lambda>v. if v = 0 then Ok (Some s) else fetchstr_loop (pred_numeral k) um (s + 1) ep)
      else Ok None)"
  by (simp add: numeral_eq_Suc)

theorem syscall_args_inside_witness:
  "argptr demo_um 0x3000 0x2000 0 0x2FF0 = Ok (Some 0x10) \<and> argstr demo_um 0x3000 0x2000 0 = Ok (Some (0x10, 2)) \<and>
   uint (0x10 :: u32) + 0x2FF0 \<le> uint (0x3000 :: u32) \<and> demo_um (0x10 + to_uint 2) = Some 0"
proof -
  have a: "argint demo_um 0x3000 0x2000 0 = Ok (Some 0x10)"
    by (simp add: argint_def fetchint_def uld32_def uld8_def demo_um_def to_uint_def to_int_def)
  have b: "argptr demo_um 0x3000 0x2000 0 0x2FF0 = Ok (Some 0x10)"
    by (simp add: argptr_def a to_uint_def)
  have "fetchstr demo_um 0x3000 0x10 = Ok (Some (0x10, 2))"
    by (simp add: fetchstr_def demo_um_def uld8_def to_int_def fetchstr_loop_numeral)
  then have c: "argstr demo_um 0x3000 0x2000 0 = Ok (Some (0x10, 2))"
    by (simp add: argstr_def a to_uint_def)
  show ?thesis
    using syscall_args_inside [of "0x3000" demo_um "0x2000" 0 "0x2FF0" "0x10" 2] b c by (simp add: c_int_def)
qed

end
