(* ===== verification/Sysfile.thy ===== *)
theory Sysfile
  imports FileWrite Syscall
begin

text \<open>
  The system calls on files (sysfile.c, and \<open>sys_getfilename\<close> of sysproc.c), for one kernel thread. The
  state has the open files of the calling process, its memory, its size and its saved stack pointer, from
  which the arguments come. A system call returns its result and the new state. \<open>exec\<close> is an argument of
  \<open>sys_exec\<close>.
\<close>

section \<open>State and user memory\<close>

abbreviation (input) NOFILE :: int where "NOFILE \<equiv> 16"

record sysst = filest +
  cur_ofile :: "nat option list"
  u_mem :: umem
  u_sz :: u32
  u_esp :: u32

text \<open>An argument that is missing or bad ends the call with \<open>bad\<close>.\<close>

definition need :: "'a option outcome \<Rightarrow> 'b outcome \<Rightarrow> ('a \<Rightarrow> 'b outcome) \<Rightarrow> 'b outcome" where
  "need m bad k = obind m (\<lambda>r. case r of None \<Rightarrow> bad | Some x \<Rightarrow> k x)"

fun urd :: "umem \<Rightarrow> u32 \<Rightarrow> nat \<Rightarrow> u8 list outcome" where
  "urd um a 0 = Ok []"
| "urd um a (Suc n) = obind (uld8 um a) (\<lambda>b. obind (urd um (a + 1) n) (\<lambda>bs. Ok (b # bs)))"

definition ust8 :: "u32 \<Rightarrow> u8 \<Rightarrow> umem \<Rightarrow> umem outcome" where
  "ust8 a b um = (if um a = None then Fault else Ok (um(a \<mapsto> b)))"

fun uwr :: "u32 \<Rightarrow> u8 list \<Rightarrow> umem \<Rightarrow> umem outcome" where
  "uwr a [] um = Ok um"
| "uwr a (b # bs) um = obind (ust8 a b um) (uwr (a + 1) bs)"

definition bytes16 :: "u16 \<Rightarrow> u8 list" where
  "bytes16 w = [ucast w, ucast (drop_bit 8 w)]"

definition bytes32 :: "u32 \<Rightarrow> u8 list" where
  "bytes32 w = [ucast w, ucast (drop_bit 8 w), ucast (drop_bit 16 w), ucast (drop_bit 24 w)]"

definition put_user :: "u32 \<Rightarrow> u8 list \<Rightarrow> 'a sysst_scheme \<Rightarrow> 'a sysst_scheme outcome" where
  "put_user a bs s = obind (uwr a bs (u_mem s)) (\<lambda>um. Ok (s\<lparr>u_mem := um\<rparr>))"

abbreviation s_argint :: "int \<Rightarrow> 'a sysst_scheme \<Rightarrow> int option outcome" where
  "s_argint n s \<equiv> argint (u_mem s) (u_sz s) (u_esp s) n"

abbreviation s_argptr :: "int \<Rightarrow> int \<Rightarrow> 'a sysst_scheme \<Rightarrow> u32 option outcome" where
  "s_argptr n k s \<equiv> argptr (u_mem s) (u_sz s) (u_esp s) n k"

text \<open>A string argument: its address and its bytes.\<close>

definition s_argstr :: "int \<Rightarrow> 'a sysst_scheme \<Rightarrow> (u32 \<times> u8 list) option outcome" where
  "s_argstr n s =
     need (argstr (u_mem s) (u_sz s) (u_esp s) n) (Ok None) (\<lambda>(p, l).
     obind (urd (u_mem s) p (nat l)) (\<lambda>bs. Ok (Some (p, bs))))"

section \<open>Descriptors\<close>

definition argfd :: "int \<Rightarrow> 'a sysst_scheme \<Rightarrow> (int \<times> nat) option outcome" where
  "argfd n s =
     need (s_argint n s) (Ok None) (\<lambda>fd.
     if fd < 0 \<or> fd \<ge> NOFILE then Ok None
     else Ok (map_option (\<lambda>f. (fd, f)) (cur_ofile s ! nat fd)))"

definition fdalloc :: "nat \<Rightarrow> 'a sysst_scheme \<Rightarrow> int \<times> 'a sysst_scheme" where
  "fdalloc f s =
     (case find (\<lambda>fd. cur_ofile s ! fd = None) [0..<nat NOFILE] of
        Some fd \<Rightarrow> (int fd, s\<lparr>cur_ofile := (cur_ofile s)[fd := Some f]\<rparr>)
      | None \<Rightarrow> (-1, s))"

definition sys_dup :: "'a sysst_scheme \<Rightarrow> (int \<times> 'a sysst_scheme) outcome" where
  "sys_dup s =
     need (argfd 0 s) (Ok (-1, s)) (\<lambda>(_, f).
     let (fd, s) = fdalloc f s in
     if fd < 0 then Ok (-1, s)
     else obind (filedup f s) (\<lambda>s. Ok (fd, s)))"

definition sys_read :: "'a sysst_scheme devsw \<Rightarrow> 'a sysst_scheme \<Rightarrow> (int \<times> 'a sysst_scheme) outcome" where
  "sys_read dv s =
     need (argfd 0 s) (Ok (-1, s)) (\<lambda>(_, f).
     need (s_argint 2 s) (Ok (-1, s)) (\<lambda>n.
     need (s_argptr 1 n s) (Ok (-1, s)) (\<lambda>p.
     obind (fileread dv f n s) (\<lambda>(r, bs, s).
     obind (put_user p bs s) (\<lambda>s. Ok (r, s))))))"

definition sys_write :: "'a sysst_scheme devsw \<Rightarrow> 'a sysst_scheme \<Rightarrow> (int \<times> 'a sysst_scheme) outcome" where
  "sys_write dv s =
     need (argfd 0 s) (Ok (-1, s)) (\<lambda>(_, f).
     need (s_argint 2 s) (Ok (-1, s)) (\<lambda>n.
     need (s_argptr 1 n s) (Ok (-1, s)) (\<lambda>p.
     filewrite dv f (\<lambda>i m. urd (u_mem s) (p + to_uint i) (nat m)) n s)))"

definition sys_close :: "'a sysst_scheme \<Rightarrow> (int \<times> 'a sysst_scheme) outcome" where
  "sys_close s =
     need (argfd 0 s) (Ok (-1, s)) (\<lambda>(fd, f).
     obind (fileclose f (s\<lparr>cur_ofile := (cur_ofile s)[nat fd := None]\<rparr>)) (\<lambda>s. Ok (0, s)))"

text \<open>\<open>struct stat\<close> has 20 bytes; \<open>stati\<close> stores the five fields.\<close>

definition put_stat :: "u32 \<Rightarrow> fstat \<Rightarrow> 'a sysst_scheme \<Rightarrow> 'a sysst_scheme outcome" where
  "put_stat p st s =
     obind (put_user (p + 4) (bytes32 (to_uint (st_dev st))) s) (\<lambda>s.
     obind (put_user (p + 8) (bytes32 (st_ino st)) s) (\<lambda>s.
     obind (put_user p (bytes16 (word_of_int (st_type st))) s) (\<lambda>s.
     obind (put_user (p + 12) (bytes16 (word_of_int (st_nlink st))) s) (\<lambda>s.
     put_user (p + 16) (bytes32 (st_size st)) s))))"

definition sys_fstat :: "'a sysst_scheme \<Rightarrow> (int \<times> 'a sysst_scheme) outcome" where
  "sys_fstat s =
     need (argfd 0 s) (Ok (-1, s)) (\<lambda>(_, f).
     need (s_argptr 1 20 s) (Ok (-1, s)) (\<lambda>p.
     obind (filestat f s) (\<lambda>(st, s).
     case st of
       None \<Rightarrow> Ok (-1, s)
     | Some st \<Rightarrow> obind (put_stat p st s) (\<lambda>s. Ok (0, s)))))"

section \<open>Links\<close>

definition end_with :: "int \<Rightarrow> 'a sysst_scheme \<Rightarrow> (int \<times> 'a sysst_scheme) outcome" where
  "end_with r s = obind (end_op s) (\<lambda>s. Ok (r, s))"

definition add_nlink :: "nat \<Rightarrow> int \<Rightarrow> 'a fsst_scheme \<Rightarrow> 'a fsst_scheme" where
  "add_nlink i d s = upd_inode i (\<lambda>ip. ip\<lparr>i_nlink := to_short (i_nlink ip + d)\<rparr>) s"

definition link_bad :: "nat \<Rightarrow> 'a sysst_scheme \<Rightarrow> (int \<times> 'a sysst_scheme) outcome" where
  "link_bad i s =
     obind (ilock i s) (\<lambda>s.
     obind (iupdate i (add_nlink i (-1) s)) (\<lambda>s.
     obind (iunlockput i s) (end_with (-1))))"

definition sys_link :: "'a sysst_scheme devsw \<Rightarrow> 'a sysst_scheme \<Rightarrow> (int \<times> 'a sysst_scheme) outcome" where
  "sys_link dv s =
     need (s_argstr 0 s) (Ok (-1, s)) (\<lambda>(_, old).
     need (s_argstr 1 s) (Ok (-1, s)) (\<lambda>(_, new).
     obind (begin_op s) (\<lambda>s.
     obind (namei dv old s) (\<lambda>(r, s).
     case r of
       None \<Rightarrow> end_with (-1) s
     | Some ip \<Rightarrow>
         obind (ilock ip s) (\<lambda>s.
         if i_type (inode_of s ip) = T_DIR then obind (iunlockput ip s) (end_with (-1))
         else
           obind (iupdate ip (add_nlink ip 1 s)) (\<lambda>s.
           obind (iunlock ip s) (\<lambda>s.
           obind (nameiparent dv new s) (\<lambda>(r, s).
           case r of
             None \<Rightarrow> link_bad ip s
           | Some (dp, name) \<Rightarrow>
               obind (ilock dp s) (\<lambda>s.
               if i_dev (inode_of s dp) \<noteq> i_dev (inode_of s ip) then obind (iunlockput dp s) (link_bad ip)
               else
                 obind (dirlink dv dp name (i_inum (inode_of s ip)) s) (\<lambda>(r, s).
                 if r < 0 then obind (iunlockput dp s) (link_bad ip)
                 else
                   obind (iunlockput dp s) (\<lambda>s.
                   obind (iput ip s) (end_with 0))))))))))))"

function isdirempty_loop :: "'a fsst_scheme devsw \<Rightarrow> nat \<Rightarrow> nat \<Rightarrow> nat \<Rightarrow> 'a fsst_scheme \<Rightarrow> (bool \<times> 'a fsst_scheme) outcome" where
  "isdirempty_loop dv dp sz off s =
     (if off < sz then
        obind (readi dv dp (of_nat off) 16 s) (\<lambda>(r, de, s).
        if r \<noteq> 16 then Panic ''isdirempty: readi''
        else if de_inum de \<noteq> 0 then Ok (False, s)
        else isdirempty_loop dv dp sz (off + 16) s)
      else Ok (True, s))"
  by pat_completeness auto

termination isdirempty_loop
  by (relation "measure (\<lambda>(dv, dp, sz, off, s). sz - off)") auto

declare isdirempty_loop.simps [simp del]

definition isdirempty :: "'a fsst_scheme devsw \<Rightarrow> nat \<Rightarrow> 'a fsst_scheme \<Rightarrow> (bool \<times> 'a fsst_scheme) outcome" where
  "isdirempty dv dp s = isdirempty_loop dv dp (unat (i_size (inode_of s dp))) 32 s"

definition unlink_bad :: "nat \<Rightarrow> 'a sysst_scheme \<Rightarrow> (int \<times> 'a sysst_scheme) outcome" where
  "unlink_bad dp s = obind (iunlockput dp s) (end_with (-1))"

text \<open>The part of \<open>sys_unlink\<close> that removes the entry at \<open>off\<close> of \<open>dp\<close>, which names \<open>ip\<close>.\<close>

definition unlink_entry :: "'a sysst_scheme devsw \<Rightarrow> nat \<Rightarrow> nat \<Rightarrow> u32 \<Rightarrow> 'a sysst_scheme \<Rightarrow> (int \<times> 'a sysst_scheme) outcome" where
  "unlink_entry dv dp ip off s =
     obind (writei dv dp (replicate 16 0) off s) (\<lambda>(r, s).
     if r \<noteq> 16 then Panic ''unlink: writei''
     else
       obind (if i_type (inode_of s ip) = T_DIR then iupdate dp (add_nlink dp (-1) s) else Ok s) (\<lambda>s.
       obind (iunlockput dp s) (\<lambda>s.
       obind (iupdate ip (add_nlink ip (-1) s)) (\<lambda>s.
       obind (iunlockput ip s) (end_with 0)))))"

definition sys_unlink :: "'a sysst_scheme devsw \<Rightarrow> 'a sysst_scheme \<Rightarrow> (int \<times> 'a sysst_scheme) outcome" where
  "sys_unlink dv s =
     need (s_argstr 0 s) (Ok (-1, s)) (\<lambda>(_, path).
     obind (begin_op s) (\<lambda>s.
     obind (nameiparent dv path s) (\<lambda>(r, s).
     case r of
       None \<Rightarrow> end_with (-1) s
     | Some (dp, name) \<Rightarrow>
         obind (ilock dp s) (\<lambda>s.
         if namecmp name [46] = 0 \<or> namecmp name [46, 46] = 0 then unlink_bad dp s
         else
           obind (dirlookup dv dp name s) (\<lambda>(r, s).
           case r of
             None \<Rightarrow> unlink_bad dp s
           | Some (ip, off) \<Rightarrow>
               obind (ilock ip s) (\<lambda>s.
               if i_nlink (inode_of s ip) < 1 then Panic ''unlink: nlink < 1''
               else
                 obind (if i_type (inode_of s ip) = T_DIR then isdirempty dv ip s else Ok (True, s)) (\<lambda>(e, s).
                 if \<not> e then obind (iunlockput ip s) (unlink_bad dp)
                 else unlink_entry dv dp ip off s)))))))"

section \<open>Creating and opening\<close>

text \<open>The part of \<open>create\<close> that makes the new inode \<open>ip\<close> and links it into the locked directory \<open>dp\<close>.\<close>

definition create_new :: "'a sysst_scheme devsw \<Rightarrow> nat \<Rightarrow> u8 list \<Rightarrow> int \<Rightarrow> int \<Rightarrow> int \<Rightarrow> 'a sysst_scheme \<Rightarrow> (nat \<times> 'a sysst_scheme) outcome" where
  "create_new dv dp name type major minor s =
     obind (ialloc (i_dev (inode_of s dp)) type s) (\<lambda>(ip, s).
     obind (ilock ip s) (\<lambda>s.
     obind (iupdate ip (upd_inode ip (\<lambda>x. x\<lparr>i_major := major, i_minor := minor, i_nlink := 1\<rparr>) s)) (\<lambda>s.
     obind (if type = T_DIR then
              obind (iupdate dp (add_nlink dp 1 s)) (\<lambda>s.
              obind (dirlink dv ip [46] (i_inum (inode_of s ip)) s) (\<lambda>(r, s).
              if r < 0 then Panic ''create dots''
              else
                obind (dirlink dv ip [46, 46] (i_inum (inode_of s dp)) s) (\<lambda>(r, s).
                if r < 0 then Panic ''create dots'' else Ok s)))
            else Ok s) (\<lambda>s.
     obind (dirlink dv dp name (i_inum (inode_of s ip)) s) (\<lambda>(r, s).
     if r < 0 then Panic ''create: dirlink''
     else obind (iunlockput dp s) (\<lambda>s. Ok (ip, s)))))))"

definition create :: "'a sysst_scheme devsw \<Rightarrow> u8 list \<Rightarrow> int \<Rightarrow> int \<Rightarrow> int \<Rightarrow> 'a sysst_scheme \<Rightarrow> (nat option \<times> 'a sysst_scheme) outcome" where
  "create dv path type major minor s =
     obind (nameiparent dv path s) (\<lambda>(r, s).
     case r of
       None \<Rightarrow> Ok (None, s)
     | Some (dp, name) \<Rightarrow>
         obind (ilock dp s) (\<lambda>s.
         obind (dirlookup dv dp name s) (\<lambda>(r, s).
         case r of
           Some (ip, _) \<Rightarrow>
             obind (iunlockput dp s) (\<lambda>s.
             obind (ilock ip s) (\<lambda>s.
             if type = T_FILE \<and> i_type (inode_of s ip) = T_FILE then Ok (Some ip, s)
             else obind (iunlockput ip s) (\<lambda>s. Ok (None, s))))
         | None \<Rightarrow>
             obind (create_new dv dp name type major minor s) (\<lambda>(ip, s). Ok (Some ip, s)))))"

definition has_flag :: "int \<Rightarrow> u32 \<Rightarrow> bool" where
  "has_flag omode m \<longleftrightarrow> to_uint omode AND m \<noteq> 0"

abbreviation (input) O_RDONLY :: int where "O_RDONLY \<equiv> 0"
abbreviation (input) O_WRONLY :: u32 where "O_WRONLY \<equiv> 1"
abbreviation (input) O_RDWR :: u32 where "O_RDWR \<equiv> 2"
abbreviation (input) O_CREATE :: u32 where "O_CREATE \<equiv> 0x200"

text \<open>The locked inode to open, if there is one.\<close>

definition open_inode :: "'a sysst_scheme devsw \<Rightarrow> u8 list \<Rightarrow> int \<Rightarrow> 'a sysst_scheme \<Rightarrow> (nat option \<times> 'a sysst_scheme) outcome" where
  "open_inode dv path omode s =
     (if has_flag omode O_CREATE then create dv path T_FILE 0 0 s
      else
        obind (namei dv path s) (\<lambda>(r, s).
        case r of
          None \<Rightarrow> Ok (None, s)
        | Some ip \<Rightarrow>
            obind (ilock ip s) (\<lambda>s.
            if i_type (inode_of s ip) = T_DIR \<and> omode \<noteq> O_RDONLY then obind (iunlockput ip s) (\<lambda>s. Ok (None, s))
            else Ok (Some ip, s))))"

definition sys_open :: "'a sysst_scheme devsw \<Rightarrow> 'a sysst_scheme \<Rightarrow> (int \<times> 'a sysst_scheme) outcome" where
  "sys_open dv s =
     need (s_argstr 0 s) (Ok (-1, s)) (\<lambda>(p, path).
     need (s_argint 1 s) (Ok (-1, s)) (\<lambda>omode.
     obind (begin_op s) (\<lambda>s.
     obind (open_inode dv path omode s) (\<lambda>(r, s).
     case r of
       None \<Rightarrow> end_with (-1) s
     | Some ip \<Rightarrow>
         (case filealloc s of
            (None, s) \<Rightarrow> obind (iunlockput ip s) (end_with (-1))
          | (Some f, s) \<Rightarrow>
              let (fd, s) = fdalloc f s in
              if fd < 0 then obind (fileclose f s) (\<lambda>s. obind (iunlockput ip s) (end_with (-1)))
              else
                obind (iunlock ip s) (\<lambda>s.
                obind (end_op s) (\<lambda>s.
                Ok (fd, upd_file f (\<lambda>x. x\<lparr>f_type := FD_INODE, f_ip := ip, f_off := 0, f_readable := \<not> has_flag omode O_WRONLY,
                  f_writable := has_flag omode O_WRONLY \<or> has_flag omode O_RDWR, f_name := p\<rparr>) s))))))))"

definition sys_mkdir :: "'a sysst_scheme devsw \<Rightarrow> 'a sysst_scheme \<Rightarrow> (int \<times> 'a sysst_scheme) outcome" where
  "sys_mkdir dv s =
     obind (begin_op s) (\<lambda>s.
     need (s_argstr 0 s) (end_with (-1) s) (\<lambda>(_, path).
     obind (create dv path T_DIR 0 0 s) (\<lambda>(r, s).
     case r of
       None \<Rightarrow> end_with (-1) s
     | Some ip \<Rightarrow> obind (iunlockput ip s) (end_with 0))))"

definition sys_mknod :: "'a sysst_scheme devsw \<Rightarrow> 'a sysst_scheme \<Rightarrow> (int \<times> 'a sysst_scheme) outcome" where
  "sys_mknod dv s =
     obind (begin_op s) (\<lambda>s.
     need (s_argstr 0 s) (end_with (-1) s) (\<lambda>(_, path).
     need (s_argint 1 s) (end_with (-1) s) (\<lambda>major.
     need (s_argint 2 s) (end_with (-1) s) (\<lambda>minor.
     obind (create dv path T_DEV (to_short major) (to_short minor) s) (\<lambda>(r, s).
     case r of
       None \<Rightarrow> end_with (-1) s
     | Some ip \<Rightarrow> obind (iunlockput ip s) (end_with 0))))))"

definition sys_chdir :: "'a sysst_scheme devsw \<Rightarrow> 'a sysst_scheme \<Rightarrow> (int \<times> 'a sysst_scheme) outcome" where
  "sys_chdir dv s =
     obind (begin_op s) (\<lambda>s.
     need (s_argstr 0 s) (end_with (-1) s) (\<lambda>(_, path).
     obind (namei dv path s) (\<lambda>(r, s).
     case r of
       None \<Rightarrow> end_with (-1) s
     | Some ip \<Rightarrow>
         obind (ilock ip s) (\<lambda>s.
         if i_type (inode_of s ip) \<noteq> T_DIR then obind (iunlockput ip s) (end_with (-1))
         else
           obind (iunlock ip s) (\<lambda>s.
           obind (iput (cur_cwd s) s) (\<lambda>s.
           obind (end_op s) (\<lambda>s.
           Ok (0, s\<lparr>cur_cwd := ip\<rparr>))))))))"

section \<open>exec, pipe and getfilename\<close>

abbreviation (input) MAXARG :: nat where "MAXARG \<equiv> 32"

text \<open>The argument vector at \<open>uargv\<close>, from entry \<open>i\<close> on, while \<open>k\<close> entries of \<open>argv\<close> are left.\<close>

fun exec_args :: "nat \<Rightarrow> u32 \<Rightarrow> 'a sysst_scheme \<Rightarrow> u8 list list option outcome" where
  "exec_args 0 a s = Ok None"
| "exec_args (Suc k) a s =
     need (fetchint (u_mem s) (u_sz s) a) (Ok None) (\<lambda>uarg.
     if uarg = 0 then Ok (Some [])
     else
       need (fetchstr (u_mem s) (u_sz s) (to_uint uarg)) (Ok None) (\<lambda>(p, l).
       obind (urd (u_mem s) p (nat l)) (\<lambda>x.
       need (exec_args k (a + 4) s) (Ok None) (\<lambda>xs. Ok (Some (x # xs))))))"

definition sys_exec :: "(u8 list \<Rightarrow> u8 list list \<Rightarrow> 'a sysst_scheme \<Rightarrow> (int \<times> 'a sysst_scheme) outcome) \<Rightarrow>
    'a sysst_scheme \<Rightarrow> (int \<times> 'a sysst_scheme) outcome" where
  "sys_exec exec s =
     need (s_argstr 0 s) (Ok (-1, s)) (\<lambda>(_, path).
     need (s_argint 1 s) (Ok (-1, s)) (\<lambda>uargv.
     need (exec_args MAXARG (to_uint uargv) s) (Ok (-1, s)) (\<lambda>argv.
     exec path argv s)))"

text \<open>The descriptors of the two ends.\<close>

definition pipe_fds :: "u32 \<Rightarrow> nat \<Rightarrow> nat \<Rightarrow> 'a sysst_scheme \<Rightarrow> (int \<times> 'a sysst_scheme) outcome" where
  "pipe_fds p f g t =
     (let (fd0, s) = fdalloc f t; (fd1, s) = (if fd0 < 0 then (-1, s) else fdalloc g s) in
      if fd0 < 0 \<or> fd1 < 0 then
        let s = (if fd0 \<ge> 0 then s\<lparr>cur_ofile := (cur_ofile s)[nat fd0 := None]\<rparr> else s) in
        obind (fileclose f s) (\<lambda>s. obind (fileclose g s) (\<lambda>s. Ok (-1, s)))
      else
        obind (put_user p (bytes32 (to_uint fd0)) s) (\<lambda>s.
        obind (put_user (p + 4) (bytes32 (to_uint fd1)) s) (\<lambda>s. Ok (0, s))))"

definition sys_pipe :: "'a sysst_scheme \<Rightarrow> (int \<times> 'a sysst_scheme) outcome" where
  "sys_pipe s =
     need (s_argptr 0 8 s) (Ok (-1, s)) (\<lambda>p.
     obind (pipealloc s) (\<lambda>(r, s).
     case r of
       None \<Rightarrow> Ok (-1, s)
     | Some (f0, f1) \<Rightarrow> pipe_fds p f0 f1 s))"

text \<open>\<open>strncpy\<close> in user memory; after the NUL the rest of the field is filled with NULs.\<close>

fun ustrncpy :: "nat \<Rightarrow> u32 \<Rightarrow> u32 \<Rightarrow> umem \<Rightarrow> umem outcome" where
  "ustrncpy 0 d t um = Ok um"
| "ustrncpy (Suc n) d t um =
     obind (uld8 um t) (\<lambda>c.
     if c = 0 then uwr d (replicate (Suc n) 0) um
     else obind (ust8 d c um) (ustrncpy n (d + 1) (t + 1)))"

definition getfilename :: "nat \<Rightarrow> u32 \<Rightarrow> int \<Rightarrow> 'a sysst_scheme \<Rightarrow> (int \<times> 'a sysst_scheme) outcome" where
  "getfilename f buf n s = obind (ustrncpy (nat n) buf (f_name (file_of s f)) (u_mem s)) (\<lambda>um. Ok (0, s\<lparr>u_mem := um\<rparr>))"

text \<open>\<open>argstr\<close> returns the length of the string that is in the buffer: unless the buffer starts with a NUL
  the call fails. A third argument that cannot be read leaves \<open>n\<close> undefined.\<close>

definition sys_getfilename :: "'a sysst_scheme \<Rightarrow> (int \<times> 'a sysst_scheme) outcome" where
  "sys_getfilename s =
     need (argfd 0 s) (Ok (-1, s)) (\<lambda>(fd, f).
     need (s_argstr 1 s) (Ok (-1, s)) (\<lambda>(buf, old).
     if old \<noteq> [] then Ok (-1, s)
     else need (s_argint 2 s) Fault (\<lambda>n. obind (getfilename f buf n s) (\<lambda>(_, s). Ok (0, s)))))"

end
