(* ===== verification/Kern.thy ===== *)
theory Kern
  imports WmapPlace VmCopy Proc Sysfile
begin

text \<open>
  The kernel with its parts together, for the process that runs: the process table and page tables, the
  open files and the disk, and the table of memory mappings. Here are the page-fault branch of \<open>trap\<close>
  (trap.c), \<open>wunmap\<close> and \<open>wremap\<close> of sysproc.c and \<open>exit\<close> of proc.c, composed from the operations of the other
  theories; process creation and the system calls are in the theory KernSys.
  Of \<open>trap\<close>, the tests for a killed process and for the timer after its branches are not part of the page-fault
  branch. The addresses that the linker
  gives are the fields of \<open>layout\<close>. The current directory, the process number and the killed flag that the
  file system reads are those of the running process.

  Where the code uses a user address in the kernel, the processor goes through the page table. An access
  to a page that is not there runs the page-fault branch and is tried again; if the page is still missing
  the code faults for ever, which is \<open>Diverge\<close>.
\<close>

section \<open>State\<close>

record layout =
  l_end :: u32
  l_data :: u32
  l_trapret :: u32
  l_forkret :: u32
  l_initcode :: u32
  l_initsize :: u32

record 'a kern =
  k_maps :: wmap_state
  k_pt :: ptable
  k_ks :: kst
  k_fs :: "'a filest_scheme"
  k_ticks :: u32
  k_cur :: nat

abbreviation me :: "'a kern \<Rightarrow> proc" where
  "me s \<equiv> procs (k_pt s) ! k_cur s"

definition upd_me :: "(proc \<Rightarrow> proc) \<Rightarrow> 'a kern \<Rightarrow> 'a kern" where
  "upd_me f s = s\<lparr>k_pt := upd_proc (k_cur s) f (k_pt s)\<rparr>"

text \<open>The kernel address of a user byte, for a read or a write by the kernel.\<close>

definition kaddr :: "bool \<Rightarrow> u32 \<Rightarrow> 'a kern \<Rightarrow> u32 option" where
  "kaddr w va s =
     (case xlate (kmem (k_ks s)) (p_pgdir (me s)) va of
        None \<Rightarrow> None
      | Some e \<Rightarrow> if w \<and> e AND PTE_W = 0 then None else Some (P2V (PTE_ADDR e) + (va - PGROUNDDOWN va)))"

definition umem_of :: "'a kern \<Rightarrow> umem" where
  "umem_of s va = map_option (kmem (k_ks s)) (kaddr False va s)"

definition k_argint :: "int \<Rightarrow> 'a kern \<Rightarrow> int option outcome" where
  "k_argint n s = argint (umem_of s) (p_sz (me s)) (t_esp (tf (me s))) n"

definition k_argptr :: "int \<Rightarrow> int \<Rightarrow> 'a kern \<Rightarrow> u32 option outcome" where
  "k_argptr n k s = argptr (umem_of s) (p_sz (me s)) (t_esp (tf (me s))) n k"

fun kput :: "u32 \<Rightarrow> u8 list \<Rightarrow> 'a kern \<Rightarrow> 'a kern outcome" where
  "kput va [] s = Ok s"
| "kput va (b # bs) s =
     (case kaddr True va s of
        None \<Rightarrow> Fault
      | Some a \<Rightarrow> kput (va + 1) bs (s\<lparr>k_ks := (k_ks s)\<lparr>kmem := (kmem (k_ks s))(a := b)\<rparr>\<rparr>))"

section \<open>Leaving\<close>

fun close_files :: "nat list \<Rightarrow> 'a kern \<Rightarrow> 'a kern outcome" where
  "close_files [] s = Ok s"
| "close_files (fd # fds) s =
     (case ofile (me s) ! fd of
        None \<Rightarrow> close_files fds s
      | Some f \<Rightarrow>
          obind (fileclose f (k_fs s)) (\<lambda>fs.
          close_files fds (upd_me (\<lambda>p. p\<lparr>ofile := (ofile p)[fd := None]\<rparr>) (s\<lparr>k_fs := fs\<rparr>))))"

text \<open>\<open>exit\<close>, up to the switch to the scheduler.\<close>

definition kexit :: "'a kern \<Rightarrow> 'a kern outcome" where
  "kexit s =
     (if initproc (k_pt s) = Some (k_cur s) then Panic ''init exiting''
      else
        obind (close_files [0..<16] s) (\<lambda>s.
        obind (exitHelper (k_maps s)) (\<lambda>(_, m).
        obind (begin_op (k_fs s)) (\<lambda>fs.
        case cwd (me s) of
          None \<Rightarrow> Fault
        | Some i \<Rightarrow>
            obind (iput i fs) (\<lambda>fs.
            obind (end_op fs) (\<lambda>fs.
            let s = upd_me (\<lambda>p. p\<lparr>cwd := None\<rparr>) (s\<lparr>k_maps := m, k_fs := fs\<rparr>) in
            Ok (s\<lparr>k_pt := exit_table (k_cur s) (k_pt s)\<rparr>)))))))"

section \<open>Page faults\<close>

text \<open>The result tells whether the interrupted code goes on (\<open>True\<close>) or the process has exited.\<close>

definition segfault :: "'a kern \<Rightarrow> (bool \<times> 'a kern) outcome" where
  "segfault s = obind (kexit s) (\<lambda>s. Ok (False, s))"

definition map_page :: "nptr \<Rightarrow> u32 \<Rightarrow> u32 \<Rightarrow> 'a kern \<Rightarrow> (bool \<times> 'a kern) outcome" where
  "map_page p va page s =
     obind (mappages (p_pgdir (me s)) va PGSIZE (V2P page) (PTE_W OR PTE_U) (k_ks s)) (\<lambda>(_, k).
     obind (nget (k_maps s) p) (\<lambda>n.
     obind (nset (k_maps s) p (n\<lparr>loadedPages := loadedPages n + 1\<rparr>)) (\<lambda>m.
     Ok (True, s\<lparr>k_maps := m, k_ks := k\<rparr>))))"

definition pgflt :: "'a filest_scheme devsw \<Rightarrow> u32 \<Rightarrow> 'a kern \<Rightarrow> (bool \<times> 'a kern) outcome" where
  "pgflt dv cr2 s =
     obind (pageInMappings (to_int cr2) (k_maps s)) (\<lambda>r.
     case r of
       None \<Rightarrow> segfault s
     | Some p \<Rightarrow>
         obind (nget (k_maps s) p) (\<lambda>n.
         let offset = to_int (cr2 - startAddress n);
             offset = offset - offset smod PGSIZE_int;
             va = startAddress n + to_uint offset;
             pte = fst (walkpgdir (p_pgdir (me s)) va False (k_ks s))
         in
         if pte \<noteq> 0 then Ok (True, s)
         else
           let (page, k) = kalloc (k_ks s) in
           if page = 0 then segfault (s\<lparr>k_ks := k\<rparr>)
           else
             let k = k\<lparr>kmem := memset (kmem k) page 0 PGSIZE\<rparr> in
             if mflags n AND MAP_ANONYMOUS \<noteq> 0 then map_page p va page (s\<lparr>k_ks := k\<rparr>)
             else
               let (page, k) = kalloc k; s = s\<lparr>k_ks := k\<rparr> in
               if page = 0 then segfault s
               else
                 obind (arr_get (ofile (me s)) (mfd n)) (\<lambda>f.
                 case f of
                   None \<Rightarrow> segfault s
                 | Some f \<Rightarrow>
                     obind (fileread dv f PGSIZE_int (k_fs s)) (\<lambda>(r, bs, fs).
                     let m = poke (kmem k) page bs;
                         m = (if r < PGSIZE_int then memset m (page + to_uint r) 0 (to_uint (PGSIZE_int - r)) else m)
                     in map_page p va page (s\<lparr>k_fs := fs, k_ks := k\<lparr>kmem := m\<rparr>\<rparr>)))))"

text \<open>A user address used by the kernel; no address when the process has exited on the fault.\<close>

definition touch :: "'a filest_scheme devsw \<Rightarrow> bool \<Rightarrow> u32 \<Rightarrow> 'a kern \<Rightarrow> (u32 option \<times> 'a kern) outcome" where
  "touch dv w va s =
     (case kaddr w va s of
        Some a \<Rightarrow> Ok (Some a, s)
      | None \<Rightarrow>
          obind (pgflt dv va s) (\<lambda>(back, s).
          if \<not> back then Ok (None, s)
          else case kaddr w va s of Some a \<Rightarrow> Ok (Some a, s) | None \<Rightarrow> Diverge))"

section \<open>Removing a mapping\<close>

text \<open>The bytes that \<open>overwrite_file\<close> reads. The inode is locked there, so a page that is missing cannot be
  loaded from its file: such a run is \<open>Fault\<close>.\<close>

fun kread :: "u32 \<Rightarrow> nat \<Rightarrow> 'a kern \<Rightarrow> u8 list outcome" where
  "kread va 0 s = Ok []"
| "kread va (Suc n) s =
     (case kaddr False va s of
        None \<Rightarrow> Fault
      | Some a \<Rightarrow> obind (kread (va + 1) n s) (\<lambda>bs. Ok (kmem (k_ks s) a # bs)))"

fun free_pages :: "nat \<Rightarrow> u32 \<Rightarrow> u32 \<Rightarrow> u32 \<Rightarrow> u32 \<Rightarrow> kst \<Rightarrow> kst outcome" where
  "free_pages 0 kend pgdir a e k = Diverge"
| "free_pages (Suc n) kend pgdir a e k =
     (if a < e then
        let pte = fst (walkpgdir pgdir a False k) in
        if pte = 0 then Ok k
        else
          let pa = PTE_ADDR (ld32 (kmem k) pte) in
          if pa = 0 then Ok k
          else obind (kfree kend (P2V pa) k) (free_pages n kend pgdir (a + PGSIZE) e)
      else Ok k)"

fun clear_pages :: "nat \<Rightarrow> u32 \<Rightarrow> u32 \<Rightarrow> u32 \<Rightarrow> kst \<Rightarrow> kst outcome" where
  "clear_pages 0 pgdir a e k = Diverge"
| "clear_pages (Suc n) pgdir a e k =
     (if a < e then
        let pte = fst (walkpgdir pgdir a False k) in
        if pte = 0 then Fault
        else clear_pages n pgdir (a + PGSIZE) e (k\<lparr>kmem := st32 (kmem k) pte 0\<rparr>)
      else Ok k)"

definition page_fuel :: "int \<Rightarrow> nat" where
  "page_fuel len = Suc (Suc (unat (to_uint len) div 4096))"

definition wunmap :: "layout \<Rightarrow> 'a filest_scheme devsw \<Rightarrow> u32 \<Rightarrow> 'a kern \<Rightarrow> (int \<times> 'a kern) outcome" where
  "wunmap l dv addr s =
     obind (pageInMappings (to_int addr) (k_maps s)) (\<lambda>r.
     case r of
       None \<Rightarrow> Ok (-1, s)
     | Some p \<Rightarrow>
         obind (nget (k_maps s) p) (\<lambda>n.
         obind (if mflags n AND MAP_ANONYMOUS = 0 \<and> mflags n AND MAP_SHARED \<noteq> 0 then
                  obind (arr_get (ofile (me s)) (mfd n)) (\<lambda>f.
                  case f of
                    None \<Rightarrow> Fault
                  | Some f \<Rightarrow>
                      obind (overwrite_file dv f (\<lambda>i k. kread (startAddress n + to_uint i) (nat k) s) (mlength n) (k_fs s)) (\<lambda>(_, fs).
                      Ok (s\<lparr>k_fs := fs\<rparr>)))
                else Ok s) (\<lambda>s.
         obind (removeValue (to_int addr) (k_maps s)) (\<lambda>(_, m).
         obind (nget m p) (\<lambda>n.
         let pgdir = p_pgdir (me s); e = addr + to_uint (mlength n); fuel = page_fuel (mlength n) in
         obind (free_pages fuel (l_end l) pgdir addr e (k_ks s)) (\<lambda>k.
         obind (clear_pages fuel pgdir addr e k) (\<lambda>k.
         Ok (0, s\<lparr>k_maps := m, k_ks := k\<rparr>))))))))"

section \<open>Resizing a mapping\<close>

fun unmap_partial_loop :: "nat \<Rightarrow> u32 \<Rightarrow> u32 \<Rightarrow> u32 \<Rightarrow> kst \<Rightarrow> kst outcome" where
  "unmap_partial_loop 0 pgdir a e k = Diverge"
| "unmap_partial_loop (Suc n) pgdir a e k =
     (if a < e then
        let pte = fst (walkpgdir pgdir a False k) in
        unmap_partial_loop n pgdir (a + PGSIZE) e (if pte = 0 then k else k\<lparr>kmem := st32 (kmem k) pte 0\<rparr>)
      else Ok k)"

definition wunmap_partial :: "u32 \<Rightarrow> int \<Rightarrow> 'a kern \<Rightarrow> 'a kern outcome" where
  "wunmap_partial addr len s =
     obind (unmap_partial_loop (page_fuel len) (p_pgdir (me s)) addr (addr + to_uint len) (k_ks s)) (\<lambda>k.
     Ok (s\<lparr>k_ks := k\<rparr>))"

fun grow_loop :: "nat \<Rightarrow> u32 \<Rightarrow> u32 \<Rightarrow> wmap_state \<Rightarrow> bool outcome" where
  "grow_loop 0 a e m = Diverge"
| "grow_loop (Suc n) a e m =
     (if a < e then
        obind (pageInMappings (to_int a) m) (\<lambda>r. if r \<noteq> None then Ok False else grow_loop n (a + PGSIZE) e m)
      else Ok True)"

definition can_grow_in_place :: "u32 \<Rightarrow> int \<Rightarrow> int \<Rightarrow> wmap_state \<Rightarrow> bool outcome" where
  "can_grow_in_place oldaddr oldsize newsize m =
     grow_loop (page_fuel (newsize - oldsize)) (oldaddr + to_uint oldsize) (oldaddr + to_uint newsize) m"

text \<open>\<open>memmove\<close> on user addresses, upwards and downwards.\<close>

fun user_copy :: "nat \<Rightarrow> 'a filest_scheme devsw \<Rightarrow> u32 \<Rightarrow> u32 \<Rightarrow> u32 \<Rightarrow> 'a kern \<Rightarrow> (bool \<times> 'a kern) outcome" where
  "user_copy 0 dv d a step s = Ok (True, s)"
| "user_copy (Suc n) dv d a step s =
     obind (touch dv False a s) (\<lambda>(x, s).
     case x of
       None \<Rightarrow> Ok (False, s)
     | Some x \<Rightarrow>
         let b = kmem (k_ks s) x in
         obind (touch dv True d s) (\<lambda>(y, s).
         case y of
           None \<Rightarrow> Ok (False, s)
         | Some y \<Rightarrow> user_copy n dv (d + step) (a + step) step (s\<lparr>k_ks := (k_ks s)\<lparr>kmem := (kmem (k_ks s))(y := b)\<rparr>\<rparr>)))"

definition user_memmove :: "'a filest_scheme devsw \<Rightarrow> u32 \<Rightarrow> u32 \<Rightarrow> u32 \<Rightarrow> 'a kern \<Rightarrow> (bool \<times> 'a kern) outcome" where
  "user_memmove dv dst src n s =
     (if src < dst \<and> src + n > dst then user_copy (unat n) dv (dst + n - 1) (src + n - 1) (- 1) s
      else user_copy (unat n) dv dst src 1 s)"

text \<open>The result is missing when the process has exited on a fault.\<close>

definition wremap :: "layout \<Rightarrow> 'a filest_scheme devsw \<Rightarrow> u32 \<Rightarrow> int \<Rightarrow> int \<Rightarrow> int \<Rightarrow> 'a kern \<Rightarrow> (u32 option \<times> 'a kern) outcome" where
  "wremap l dv oldaddr oldsize newsize flags s =
     obind (pageInMappings (to_int oldaddr) (k_maps s)) (\<lambda>r.
     case r of
       None \<Rightarrow> Ok (Some FAILED, s)
     | Some p \<Rightarrow>
         obind (nget (k_maps s) p) (\<lambda>n.
         if mlength n \<noteq> oldsize then Ok (Some FAILED, s)
         else if newsize < oldsize then
           obind (wunmap_partial (oldaddr + to_uint newsize) (oldsize - newsize) s) (\<lambda>s.
           obind (nset (k_maps s) p (n\<lparr>mlength := newsize\<rparr>)) (\<lambda>m. Ok (Some oldaddr, s\<lparr>k_maps := m\<rparr>)))
         else if newsize > oldsize then
           obind (can_grow_in_place oldaddr oldsize newsize (k_maps s)) (\<lambda>g.
           if g then obind (nset (k_maps s) p (n\<lparr>mlength := newsize\<rparr>)) (\<lambda>m. Ok (Some oldaddr, s\<lparr>k_maps := m\<rparr>))
           else if flags AND MREMAP_MAYMOVE \<noteq> 0 then
             obind (wmap MMAPBASE newsize (mflags n - MAP_FIXED) (mfd n) (k_maps s)) (\<lambda>(newaddr, m).
             let s = s\<lparr>k_maps := m\<rparr> in
             if newaddr \<noteq> FAILED then
               obind (user_memmove dv newaddr oldaddr (to_uint oldsize) s) (\<lambda>(back, s).
               if \<not> back then Ok (None, s)
               else obind (wunmap l dv oldaddr s) (\<lambda>(_, s). Ok (Some newaddr, s)))
             else Ok (Some FAILED, s))
           else Ok (Some FAILED, s))
         else Ok (Some FAILED, s)))"

end
