(* ===== verification/KernSys.thy ===== *)
theory KernSys
  imports Kern
begin

text \<open>
  Process creation (proc.c) and the system calls of sysproc.c on the whole kernel. A call that has to wait
  ends the run of the process: \<open>sys_wait\<close> and \<open>sys_sleep\<close> are \<open>Diverge\<close> there.
\<close>

section \<open>Creation\<close>

definition name_copy :: "u8 list \<Rightarrow> u8 list \<Rightarrow> u8 list" where
  "name_copy dst src = (let w = takeWhile (\<lambda>c. c \<noteq> 0) (take 15 src) in w @ [0] @ drop (Suc (length w)) dst)"

definition user_tf :: trapframe where
  "user_tf = \<lparr>t_edi = 0, t_esi = 0, t_ebp = 0, t_oesp = 0, t_ebx = 0, t_edx = 0, t_ecx = 0, t_eax = 0,
     t_gs = 0, t_fs = 0, t_es = push_bit 3 4 OR 3, t_ds = push_bit 3 4 OR 3, t_trapno = 0, t_err = 0, t_eip = 0,
     t_cs = push_bit 3 3 OR 3, t_eflags = 0x200, t_esp = PGSIZE, t_ss = push_bit 3 4 OR 3\<rparr>"

definition userinit :: "layout \<Rightarrow> 'a filest_scheme devsw \<Rightarrow> 'a kern \<Rightarrow> 'a kern outcome" where
  "userinit l dv s =
     obind (allocproc (l_trapret l) (l_forkret l) (k_pt s, k_ks s)) (\<lambda>(r, t, k).
     case r of
       None \<Rightarrow> Fault
     | Some p \<Rightarrow>
         let t = t\<lparr>initproc := Some p\<rparr> in
         obind (setupkvm (l_end l) (l_data l) k) (\<lambda>(d, k).
         if d = 0 then Panic ''userinit: out of memory?''
         else
           obind (inituvm d (l_initcode l) (l_initsize l) k) (\<lambda>k.
           obind (namei dv [47] (k_fs s)) (\<lambda>(c, fs).
           let t = upd_proc p (\<lambda>x. x\<lparr>p_pgdir := d, p_sz := PGSIZE, tf := user_tf,
                 pname := name_copy (pname x) [105, 110, 105, 116, 99, 111, 100, 101, 0], cwd := c, pstate := RUNNABLE\<rparr>) t
           in Ok (s\<lparr>k_pt := t, k_ks := k, k_fs := fs\<rparr>)))))"

fun dup_files :: "nat list \<Rightarrow> nat \<Rightarrow> 'a kern \<Rightarrow> 'a kern outcome" where
  "dup_files [] np s = Ok s"
| "dup_files (i # is) np s =
     (case ofile (me s) ! i of
        None \<Rightarrow> dup_files is np s
      | Some f \<Rightarrow>
          obind (filedup f (k_fs s)) (\<lambda>fs.
          dup_files is np (s\<lparr>k_fs := fs, k_pt := upd_proc np (\<lambda>p. p\<lparr>ofile := (ofile p)[i := Some f]\<rparr>) (k_pt s)\<rparr>)))"

definition fork :: "layout \<Rightarrow> 'a kern \<Rightarrow> (int \<times> 'a kern) outcome" where
  "fork l s =
     obind (allocproc (l_trapret l) (l_forkret l) (k_pt s, k_ks s)) (\<lambda>(r, t, k).
     case r of
       None \<Rightarrow> Ok (-1, s\<lparr>k_pt := t, k_ks := k\<rparr>)
     | Some np \<Rightarrow>
         obind (copyuvm (l_end l) (l_data l) (p_pgdir (me s)) (p_sz (me s)) k) (\<lambda>(d, k).
         if d = 0 then
           obind (kfree (l_end l) (kstack (procs t ! np)) k) (\<lambda>k.
           Ok (-1, s\<lparr>k_pt := upd_proc np (\<lambda>p. p\<lparr>p_pgdir := d, kstack := 0, pstate := UNUSED\<rparr>) t, k_ks := k\<rparr>))
         else
           let t = upd_proc np (\<lambda>p. p\<lparr>p_pgdir := d, p_sz := p_sz (me s), parent := Some (k_cur s),
                 tf := (tf (me s))\<lparr>t_eax := 0\<rparr>\<rparr>) t in
           obind (dup_files [0..<16] np (s\<lparr>k_pt := t, k_ks := k\<rparr>)) (\<lambda>s.
           case cwd (me s) of
             None \<Rightarrow> Fault
           | Some c \<Rightarrow>
               let (c, fs) = idup c (k_fs s);
                   t = upd_proc np (\<lambda>p. p\<lparr>cwd := Some c, pname := name_copy (pname p) (pname (me s))\<rparr>) (k_pt s)
               in
               obind (forkHelper (k_maps s)) (\<lambda>(_, m).
               Ok (pid (procs t ! np), s\<lparr>k_pt := upd_proc np (\<lambda>p. p\<lparr>pstate := RUNNABLE\<rparr>) t, k_fs := fs, k_maps := m\<rparr>)))))"

section \<open>The pages of a process\<close>

record pgdirinfo =
  n_upages :: u32
  pi_va :: "u32 list"
  pi_pa :: "u32 list"

definition user_entry :: "u32 \<Rightarrow> bool" where
  "user_entry e \<longleftrightarrow> e AND PTE_P \<noteq> 0 \<and> e AND PTE_U \<noteq> 0"

definition note_page :: "u32 \<Rightarrow> u32 \<Rightarrow> u32 \<times> pgdirinfo \<Rightarrow> u32 \<times> pgdirinfo" where
  "note_page va pa = (\<lambda>(count, w).
     (count + 1, if count < 32 then w\<lparr>pi_va := (pi_va w)[unat count := va], pi_pa := (pi_pa w)[unat count := pa]\<rparr> else w))"

fun table_pages :: "nat list \<Rightarrow> mem \<Rightarrow> u32 \<Rightarrow> u32 \<Rightarrow> u32 \<times> pgdirinfo \<Rightarrow> u32 \<times> pgdirinfo" where
  "table_pages [] m pgtab i acc = acc"
| "table_pages (j # js) m pgtab i acc =
     (let e = ld32 m (pgtab + 4 * of_nat j) in
      table_pages js m pgtab i
        (if user_entry e then note_page (i * PGSIZE * 1024 + of_nat j * PGSIZE) (PTE_ADDR e) acc else acc))"

fun dir_pages :: "nat list \<Rightarrow> mem \<Rightarrow> u32 \<Rightarrow> u32 \<times> pgdirinfo \<Rightarrow> u32 \<times> pgdirinfo" where
  "dir_pages [] m pgdir acc = acc"
| "dir_pages (i # is) m pgdir acc =
     (let d = ld32 m (pgdir + 4 * of_nat i) in
      dir_pages is m pgdir
        (if user_entry d then table_pages [0..<1024] m (P2V (PTE_ADDR d)) (of_nat i) acc else acc))"

definition getpgdirinfo :: "mem \<Rightarrow> u32 \<Rightarrow> pgdirinfo \<Rightarrow> int \<times> pgdirinfo" where
  "getpgdirinfo m pgdir w =
     (let (count, w) = dir_pages [0..<1024] m pgdir (0, w) in (0, w\<lparr>n_upages := count\<rparr>))"

section \<open>System calls\<close>

fun words_of :: "nat \<Rightarrow> u8 list \<Rightarrow> u32 list" where
  "words_of 0 bs = []"
| "words_of (Suc n) bs = rd32 bs 0 # words_of n (drop 4 bs)"

definition bytes_of :: "u32 list \<Rightarrow> u8 list" where
  "bytes_of ws = concat (map bytes32 ws)"

definition sys_wmap :: "'a kern \<Rightarrow> (u32 \<times> 'a kern) outcome" where
  "sys_wmap s =
     need (k_argint 0 s) (Ok (FAILED, s)) (\<lambda>addr.
     need (k_argint 1 s) (Ok (FAILED, s)) (\<lambda>len.
     need (k_argint 2 s) (Ok (FAILED, s)) (\<lambda>flags.
     need (k_argint 3 s) (Ok (FAILED, s)) (\<lambda>fd.
     obind (wmap (to_uint addr) len flags fd (k_maps s)) (\<lambda>(r, m). Ok (r, s\<lparr>k_maps := m\<rparr>))))))"

definition sys_wremap :: "layout \<Rightarrow> 'a filest_scheme devsw \<Rightarrow> 'a kern \<Rightarrow> (u32 option \<times> 'a kern) outcome" where
  "sys_wremap l dv s =
     need (k_argint 0 s) (Ok (Some FAILED, s)) (\<lambda>oldaddr.
     need (k_argint 1 s) (Ok (Some FAILED, s)) (\<lambda>oldsize.
     need (k_argint 2 s) (Ok (Some FAILED, s)) (\<lambda>newsize.
     need (k_argint 3 s) (Ok (Some FAILED, s)) (\<lambda>flags.
     wremap l dv (to_uint oldaddr) oldsize newsize flags s))))"

definition sys_wunmap :: "layout \<Rightarrow> 'a filest_scheme devsw \<Rightarrow> 'a kern \<Rightarrow> (int \<times> 'a kern) outcome" where
  "sys_wunmap l dv s = need (k_argint 0 s) (Ok (-1, s)) (\<lambda>addr. wunmap l dv (to_uint addr) s)"

definition sys_getpgdirinfo :: "'a kern \<Rightarrow> (int \<times> 'a kern) outcome" where
  "sys_getpgdirinfo s =
     need (k_argptr 0 260 s) (Ok (-1, s)) (\<lambda>a.
     obind (kread a 260 s) (\<lambda>bs.
     let ws = words_of 65 bs;
         w = \<lparr>n_upages = ws ! 0, pi_va = take 32 (drop 1 ws), pi_pa = drop 33 ws\<rparr>;
         (r, w) = getpgdirinfo (kmem (k_ks s)) (p_pgdir (me s)) w
     in obind (kput a (bytes_of (n_upages w # pi_va w @ pi_pa w)) s) (\<lambda>s. Ok (r, s))))"

definition sys_getwmapinfo :: "'a kern \<Rightarrow> (int \<times> 'a kern) outcome" where
  "sys_getwmapinfo s =
     need (k_argptr 0 196 s) (Ok (-1, s)) (\<lambda>a.
     obind (getwmapinfo (k_maps s)) (\<lambda>(r, w, m).
     let ws = map to_uint (total_mmaps w # wi_addr w @ wi_length w @ wi_n_loaded_pages w) in
     obind (kput a (bytes_of ws) (s\<lparr>k_maps := m\<rparr>)) (\<lambda>s. Ok (r, s))))"

definition sys_fork :: "layout \<Rightarrow> 'a kern \<Rightarrow> (int \<times> 'a kern) outcome" where
  "sys_fork l s = fork l s"

text \<open>\<open>sys_exit\<close> follows the chain of the first bucket.\<close>

fun exit_maps :: "nat \<Rightarrow> layout \<Rightarrow> 'a filest_scheme devsw \<Rightarrow> nptr option \<Rightarrow> 'a kern \<Rightarrow> 'a kern outcome" where
  "exit_maps 0 l dv p s = Diverge"
| "exit_maps (Suc n) l dv None s = Ok s"
| "exit_maps (Suc n) l dv (Some p) s =
     obind (nget (k_maps s) p) (\<lambda>x.
     obind (wunmap l dv (startAddress x) s) (\<lambda>(_, s). exit_maps n l dv (mnext x) s))"

definition sys_exit :: "layout \<Rightarrow> 'a filest_scheme devsw \<Rightarrow> 'a kern \<Rightarrow> 'a kern outcome" where
  "sys_exit l dv s = obind (exit_maps (chain_fuel (k_maps s)) l dv (Some (Tab 0)) s) kexit"

definition sys_wait :: "layout \<Rightarrow> 'a kern \<Rightarrow> (int \<times> 'a kern) outcome" where
  "sys_wait l s =
     obind (wait_pass (l_end l) (k_cur s) (k_pt s, k_ks s)) (\<lambda>(r, t, k).
     let s = s\<lparr>k_pt := t, k_ks := k\<rparr> in
     case r of Reaped n \<Rightarrow> Ok (n, s) | NoKids \<Rightarrow> Ok (-1, s) | MustSleep \<Rightarrow> Diverge)"

definition sys_kill :: "'a kern \<Rightarrow> (int \<times> 'a kern) outcome" where
  "sys_kill s =
     need (k_argint 0 s) (Ok (-1, s)) (\<lambda>n. let (r, t) = kill n (k_pt s) in Ok (r, s\<lparr>k_pt := t\<rparr>))"

definition sys_getpid :: "'a kern \<Rightarrow> int" where
  "sys_getpid s = pid (me s)"

definition sys_sbrk :: "layout \<Rightarrow> 'a kern \<Rightarrow> (int \<times> 'a kern) outcome" where
  "sys_sbrk l s =
     need (k_argint 0 s) (Ok (-1, s)) (\<lambda>n.
     let addr = to_int (p_sz (me s)) in
     obind (growproc (l_end l) (k_cur s) n (k_pt s, k_ks s)) (\<lambda>(r, t, k).
     Ok (if r < 0 then -1 else addr, s\<lparr>k_pt := t, k_ks := k\<rparr>)))"

text \<open>One look at the clock in the loop of \<open>sys_sleep\<close>: the result, or nothing when the process has to
  sleep.\<close>

definition sleep_pass :: "u32 \<Rightarrow> int \<Rightarrow> 'a kern \<Rightarrow> int option" where
  "sleep_pass ticks0 n s =
     (if k_ticks s - ticks0 < to_uint n then if killed (me s) then Some (-1) else None else Some 0)"

definition sys_sleep :: "'a kern \<Rightarrow> (int \<times> 'a kern) outcome" where
  "sys_sleep s =
     need (k_argint 0 s) (Ok (-1, s)) (\<lambda>n.
     case sleep_pass (k_ticks s) n s of Some r \<Rightarrow> Ok (r, s) | None \<Rightarrow> Diverge)"

definition sys_uptime :: "'a kern \<Rightarrow> int" where
  "sys_uptime s = to_int (k_ticks s)"

end
