(* ===== verification/KernMap.thy ===== *)
theory KernMap
  imports KernSys
begin

text \<open>
  Demand loading of memory mappings: what the page-fault branch of \<open>trap\<close> does for an anonymous mapping, and
  which pages it never loads.
\<close>

section \<open>One page\<close>

lemma last_byte: "page_aligned va \<Longrightarrow> PGROUNDDOWN (va + PGSIZE - 1) = va"
proof -
  assume "page_aligned va"
  moreover have "(4095 :: u32) < 4096" by (simp only: word_less_def) simp
  ultimately have "PGROUNDDOWN (va + 4095) = va" using page_offset by blast
  then show ?thesis by (simp add: add.commute)
qed

lemma mappages_one:
  assumes inv: "kinv kend st xs" "pt_ok kend (kmem st) pgdir (set xs)" and va: "page_aligned va"
    and new: "xlate (kmem st) pgdir va = None" and xs: "xs \<noteq> []"
  shows "\<exists>st' xs'. mappages pgdir va PGSIZE pa perm st = Ok (0, st') \<and> pt_step kend pgdir st xs st' xs' \<and>
    present (pde_of (kmem st') pgdir (PDX va)) \<and>
    (\<forall>b. xlate (kmem st') pgdir b = (if PGROUNDDOWN b = va then Some (pa OR perm OR PTE_P) else xlate (kmem st) pgdir b))"
proof (cases rule: walkpgdir_alloc [OF inv, of va])
  case 1
  then show ?thesis using xs by simp
next
  case (2 st1 xs1)
  let ?pte = "tab_of (kmem st1) pgdir (PDX va) + 4 * PTX va" and ?e = "pa OR perm OR PTE_P"
  let ?st = "st1\<lparr>kmem := st32 (kmem st1) ?pte ?e\<rparr>"
  have st1: "kinv kend st1 xs1" "pt_ok kend (kmem st1) pgdir (set xs1)" using 2(3) by (auto simp: pt_step_def)
  have "\<not> present (ld32 (kmem st1) ?pte)" using new 2(4) 2(5) [of va] by (auto simp: xlate_def Let_def split: if_splits)
  then have run: "mappages pgdir va PGSIZE pa perm st = Ok (0, ?st)"
    using 2(1,2) va last_byte [OF va] by (simp add: mappages_def Let_def)
  have step: "pt_step kend pgdir st xs ?st xs1" by (rule pt_step_trans [OF 2(3) pt_step_write [OF st1 2(4)]])
  have k: "kmem ?st = st32 (kmem st1) ?pte ?e" by simp
  note w = xlate_write [OF st1(2) 2(4) k]
  have "xlate (kmem ?st) pgdir b = (if PGROUNDDOWN b = va then Some ?e else xlate (kmem st) pgdir b)" for b
    using w(1) [of b] 2(5) [of b] va present_or_P by simp
  moreover have "present (pde_of (kmem ?st) pgdir (PDX va))"
  proof -
    note t = pt_ok_tab [OF st1(2) PDX_less 2(4)]
    have "kmem ?st x = kmem st1 x" if "PGROUNDDOWN x = pgdir" for x using w(3) t that by auto
    then show ?thesis using pt_ok_frame(2) [OF st1(2), of "kmem ?st"] PDX_less 2(4) by simp
  qed
  ultimately show ?thesis using run step by blast
qed

lemma zero_page:
  assumes inv: "kinv kend st (page # xs)" "pt_ok kend (kmem st) pgdir (set (page # xs))"
  shows "\<exists>k. kalloc st = (page, k) \<and> page \<noteq> 0 \<and> page \<notin> set xs \<and> page \<notin> pt_pages (kmem st) pgdir \<and> page_aligned page \<and>
    (let k' = k\<lparr>kmem := memset (kmem k) page 0 PGSIZE\<rparr> in
     kinv kend k' xs \<and> pt_ok kend (kmem k') pgdir (set xs) \<and> pt_pages (kmem k') pgdir = pt_pages (kmem st) pgdir \<and>
     (\<forall>b. xlate (kmem k') pgdir b = xlate (kmem st) pgdir b) \<and>
     (\<forall>x. kmem k' x = (if PGROUNDDOWN x = page then 0 else kmem st x)))"
proof -
  obtain k where k: "kalloc st = (page, k)" "kinv kend k xs" "kmem k = kmem st" using kalloc_Cons [OF inv(1)] by blast
  have p: "page_ok kend page" "page \<notin> set xs" "page \<noteq> 0" using inv(1) page_ok_nonzero [of kend page] by (auto simp: kinv_def)
  then have al: "page_aligned page" by (simp add: page_ok_def)
  have pt: "page \<notin> pt_pages (kmem st) pgdir" using pt_okD(2,5) [OF inv(2)] by (auto simp: pt_pages_def)
  let ?m = "memset (kmem k) page 0 PGSIZE"
  have m: "?m x = (if PGROUNDDOWN x = page then 0 else kmem st x)" for x
    using in_page [OF al, of x] k(3) by (simp add: memset_value)
  have same: "?m x = kmem st x" if "PGROUNDDOWN x \<in> pt_pages (kmem st) pgdir" for x using m that pt by auto
  have ok: "pt_ok kend (kmem st) pgdir (set xs)" by (rule pt_ok_subset [OF inv(2)]) auto
  have "kinv kend (k\<lparr>kmem := ?m\<rparr>) xs" using m p(2) k(3) by (intro kinv_frame [OF k(2)]) auto
  moreover have "xlate ?m pgdir b = xlate (kmem st) pgdir b" for b
    by (rule xlate_frame [OF ok]) (auto intro!: same simp: pt_pages_def)
  moreover have "pt_ok kend ?m pgdir (set xs)" "pt_pages ?m pgdir = pt_pages (kmem st) pgdir" by (rule ukva_frame [OF ok same]; assumption)+
  ultimately show ?thesis using k(1) p al pt m by (simp add: Let_def)
qed

section \<open>Loading a page\<close>

lemma fault_page:
  assumes s: "page_aligned a" "a \<le> va" "va - a < 0x80000000"
  shows "a + to_uint (to_int (va - a) - to_int (va - a) smod PGSIZE_int) = PGROUNDDOWN va"
proof -
  have d: "uint (va - a) = uint va - uint a" using s(2) by (simp add: uint_sub_if' word_le_def)
  have "0 \<le> uint va - uint a" using s(2) by (simp add: word_le_def)
  then have "(uint va - uint a) smod 4096 = (uint va - uint a) mod 4096" by (cases "uint va - uint a = 0") (auto simp: signed_modulo_int_def sgn_if)
  moreover have "(uint va - uint a) mod 4096 = uint va mod 4096"
    using s(1) mod_diff_right_eq [of "uint va" "uint a" 4096] by (auto simp: page_aligned_uint dvd_eq_mod_eq_0)
  ultimately have "to_int (va - a) - to_int (va - a) smod PGSIZE_int = uint (PGROUNDDOWN va) - uint a"
    using to_int_low [OF s(3)] d by (simp add: uint_PGROUNDDOWN)
  then show ?thesis by (simp add: to_uint_def)
qed

definition faulted :: "u32 \<Rightarrow> nptr \<Rightarrow> memHashNode \<Rightarrow> u32 \<Rightarrow> u32 \<Rightarrow> u32 list \<Rightarrow> 'a kern \<Rightarrow> bool" where
  "faulted kend p n va page xs s \<longleftrightarrow>
     kinv kend (k_ks s) (page # xs) \<and> pt_ok kend (kmem (k_ks s)) (p_pgdir (me s)) (set (page # xs)) \<and> xs \<noteq> [] \<and>
     pageInMappings (to_int va) (k_maps s) = Ok (Some p) \<and> nget (k_maps s) p = Ok n \<and> mflags n AND MAP_ANONYMOUS \<noteq> 0 \<and>
     page_aligned (startAddress n) \<and> startAddress n \<le> va \<and> va - startAddress n < 0x80000000 \<and>
     \<not> present (pde_of (kmem (k_ks s)) (p_pgdir (me s)) (PDX va))"

lemma nset_Ok: "nget m p = Ok n \<Longrightarrow> \<exists>m'. nset m p x = Ok m'"
  by (cases p) (auto split: if_splits)

lemma pgflt_anon:
  assumes "faulted kend p n va page xs s"
  shows "\<exists>s' m' xs'. pgflt dv va s = Ok (True, s') \<and> nset (k_maps s) p (n\<lparr>loadedPages := loadedPages n + 1\<rparr>) = Ok m' \<and>
    s' = s\<lparr>k_maps := m', k_ks := k_ks s'\<rparr> \<and>
    kinv kend (k_ks s') xs' \<and> pt_ok kend (kmem (k_ks s')) (p_pgdir (me s)) (set xs') \<and> set xs' \<subseteq> set xs \<and>
    present (pde_of (kmem (k_ks s')) (p_pgdir (me s)) (PDX va)) \<and>
    (\<forall>b. xlate (kmem (k_ks s')) (p_pgdir (me s)) b =
       (if PGROUNDDOWN b = PGROUNDDOWN va then Some (V2P page OR (PTE_W OR PTE_U) OR PTE_P) else xlate (kmem (k_ks s)) (p_pgdir (me s)) b)) \<and>
    (\<forall>x. PGROUNDDOWN x = page \<longrightarrow> kmem (k_ks s') x = 0) \<and>
    (\<forall>x. PGROUNDDOWN x \<notin> pt_pages (kmem (k_ks s)) (p_pgdir (me s)) \<union> set (page # xs) \<longrightarrow> kmem (k_ks s') x = kmem (k_ks s) x) \<and>
    page \<notin> set xs' \<and> page \<notin> pt_pages (kmem (k_ks s')) (p_pgdir (me s))"
proof -
  let ?d = "p_pgdir (me s)" and ?va = "PGROUNDDOWN va"
  note h = assms [unfolded faulted_def]
  obtain k where k: "kalloc (k_ks s) = (page, k)" "page \<noteq> 0" "page \<notin> set xs" "page \<notin> pt_pages (kmem (k_ks s)) ?d"
    and k': "let k' = k\<lparr>kmem := memset (kmem k) page 0 PGSIZE\<rparr> in
     kinv kend k' xs \<and> pt_ok kend (kmem k') ?d (set xs) \<and> pt_pages (kmem k') ?d = pt_pages (kmem (k_ks s)) ?d \<and>
     (\<forall>b. xlate (kmem k') ?d b = xlate (kmem (k_ks s)) ?d b) \<and>
     (\<forall>x. kmem k' x = (if PGROUNDDOWN x = page then 0 else kmem (k_ks s) x))"
    using zero_page [of kend "k_ks s" page xs ?d] h by blast
  define k1 where "k1 = k\<lparr>kmem := memset (kmem k) page 0 PGSIZE\<rparr>"
  note k1 = k' [unfolded Let_def, folded k1_def]
  have i: "PDX ?va = PDX va" using page_index [of ?va va] by simp
  have new: "xlate (kmem (k_ks s)) ?d b = None" if "PGROUNDDOWN b = ?va" for b
  proof -
    have "PDX b = PDX va" using page_index [of b va] that by simp
    then show ?thesis using h by (simp add: xlate_def)
  qed
  have "xlate (kmem k1) ?d ?va = None" using k1 new [of ?va] by simp
  then obtain k2 xs' where k2: "mappages ?d ?va PGSIZE (V2P page) (PTE_W OR PTE_U) k1 = Ok (0, k2)"
    "pt_step kend ?d k1 xs k2 xs'" "present (pde_of (kmem k2) ?d (PDX va))"
    "\<forall>b. xlate (kmem k2) ?d b = (if PGROUNDDOWN b = ?va then Some (V2P page OR (PTE_W OR PTE_U) OR PTE_P) else xlate (kmem k1) ?d b)"
    using mappages_one [of kend k1 xs ?d ?va "V2P page" "PTE_W OR PTE_U"] k1 h i by auto
  obtain m' where m': "nset (k_maps s) p (n\<lparr>loadedPages := loadedPages n + 1\<rparr>) = Ok m'" using nset_Ok h by blast
  have a: "startAddress n + to_uint (to_int (va - startAddress n) - to_int (va - startAddress n) smod PGSIZE_int) = ?va"
    using fault_page h by blast
  have w: "fst (walkpgdir ?d ?va False (k_ks s)) = 0" using h i by (simp add: walkpgdir_look)
  have run: "pgflt dv va s = Ok (True, s\<lparr>k_maps := m', k_ks := k2\<rparr>)"
    unfolding pgflt_def using h a w k(1,2) k2(1) m' by (simp add: Let_def map_page_def k1_def)
  have z: "kmem k2 x = 0" if "PGROUNDDOWN x = page" for x
    using k2(2) k1 k(3,4) that by (auto simp: pt_step_def)
  have f: "kmem k2 x = kmem (k_ks s) x" if "PGROUNDDOWN x \<notin> pt_pages (kmem (k_ks s)) ?d \<union> set (page # xs)" for x
    using k2(2) k1 that by (auto simp: pt_step_def)
  have u: "page \<notin> set xs'" "page \<notin> pt_pages (kmem k2) ?d" using k2(2) k1 k(3,4) by (auto simp: pt_step_def)
  show ?thesis
    by (rule exI [of _ "s\<lparr>k_maps := m', k_ks := k2\<rparr>"], rule exI [of _ m'], rule exI [of _ xs'])
      (use run m' k1 k2 z f u in \<open>simp add: pt_step_def\<close>)
qed

text \<open>Counting a loaded page does not change where a page is found.\<close>

definition same_nodes :: "wmap_state \<Rightarrow> wmap_state \<Rightarrow> bool" where
  "same_nodes m m' \<longleftrightarrow> length (table m') = length (table m) \<and> length (nodePool m') = length (nodePool m) \<and>
     (\<forall>p. nget m p = Fault \<and> nget m' p = Fault \<or> (\<exists>n c. nget m p = Ok n \<and> nget m' p = Ok (n\<lparr>loadedPages := c\<rparr>)))"

lemma same_nodesE:
  assumes "same_nodes m m'"
  obtains "nget m p = Fault" "nget m' p = Fault" | n c where "nget m p = Ok n" "nget m' p = Ok (n\<lparr>loadedPages := c\<rparr>)"
  using assms unfolding same_nodes_def by blast

lemma same_nodes_search: "same_nodes m m' \<Longrightarrow> search_loop k m' p v = search_loop k m p v"
proof (induction k arbitrary: p)
  case (Suc k)
  show ?case
  proof (cases p)
    case (Some q)
    then show ?thesis using Suc.IH [OF Suc.prems] by (cases rule: same_nodesE [OF Suc.prems, of q]) simp_all
  qed simp
qed simp

lemma same_nodes_cover: "same_nodes m m' \<Longrightarrow> cover_loop k m' p v = cover_loop k m p v"
proof (induction k arbitrary: p)
  case (Suc k)
  show ?case
  proof (cases p)
    case (Some q)
    then show ?thesis using Suc.IH [OF Suc.prems]
      by (cases rule: same_nodesE [OF Suc.prems, of q]) (simp_all add: covers_def node_end_def)
  qed simp
qed simp

lemma same_nodes_scan:
  assumes "same_nodes m m'"
  shows "cover_scan is m' a = cover_scan is m a"
proof (induction "is")
  case (Cons i "is")
  have "tab_at m' (int i) = tab_at m (int i)" "chain_fuel m' = chain_fuel m"
    using assms by (auto simp: tab_at_def chain_fuel_def same_nodes_def)
  then show ?case using same_nodes_cover [OF assms] Cons by simp
qed simp

lemma same_nodes_page:
  assumes "same_nodes m m'"
  shows "pageInMappings a m' = pageInMappings a m"
proof -
  have "tab_at m' (hash a) = tab_at m (hash a)" "chain_fuel m' = chain_fuel m"
    using assms by (auto simp: tab_at_def chain_fuel_def same_nodes_def)
  then show ?thesis
    by (simp only: pageInMappings_def hashSearch_def same_nodes_search [OF assms] same_nodes_scan [OF assms])
qed

lemma same_nodes_loaded:
  assumes "nget m p = Ok n" "nset m p (n\<lparr>loadedPages := c\<rparr>) = Ok m'"
  shows "same_nodes m m'" "nget m' p = Ok (n\<lparr>loadedPages := c\<rparr>)"
proof -
  have e: "\<exists>c. n = n\<lparr>loadedPages := c\<rparr>" for n :: memHashNode by (rule exI [of _ "loadedPages n"]) simp
  have e': "\<exists>ca. n\<lparr>loadedPages := c\<rparr> = n\<lparr>loadedPages := ca\<rparr>" for n :: memHashNode and c by blast
  have "nget m q = Fault \<and> nget m' q = Fault \<or> (\<exists>n c. nget m q = Ok n \<and> nget m' q = Ok (n\<lparr>loadedPages := c\<rparr>))" for q
    using assms by (cases p; cases q) (auto simp: nth_list_update split: if_splits intro!: e e')
  then show "same_nodes m m'" using assms by (cases p) (auto simp: same_nodes_def split: if_splits)
  show "nget m' p = Ok (n\<lparr>loadedPages := c\<rparr>)" using assms by (cases p) (auto split: if_splits)
qed

lemma or_7_writable: "(x OR 7) AND PTE_W \<noteq> 0"
proof
  assume "(x OR 7) AND PTE_W = 0"
  then have "\<not> bit ((x OR 7) AND PTE_W) 1" by simp
  then show False by (simp add: bit_and_iff bit_or_iff)
qed

lemma kaddr_page:
  assumes "xlate (kmem (k_ks s)) (p_pgdir (me s)) b = Some (V2P page OR (PTE_W OR PTE_U) OR PTE_P)" "page_aligned page"
  shows "kaddr w b s = Some (page + (b - PGROUNDDOWN b))"
proof -
  have x: "xlate (kmem (k_ks s)) (p_pgdir (me s)) b = Some (V2P page OR 7)" using assms(1) by simp
  have "P2V (PTE_ADDR (V2P page OR 7)) = page" using new_entry(2) [OF assms(2), of 7] by (simp add: bit_0)
  then show ?thesis using x or_7_writable by (simp add: kaddr_def)
qed

text \<open>
  C6. Demand loading of an anonymous mapping. A fault at \<open>va\<close> inside the mapping \<open>n\<close>, where no page table
  exists yet and two pages are free, is resolved: the interrupted code goes on, every byte of the page
  reads 0 and can be written, no other translation changes, no page in use except the page tables is
  touched, the counter of the mapping grows by one, the process table and the files are as before, and the
  page allocator and the page tables stay sound.
\<close>

theorem page_fault_loads:
  assumes "faulted kend p n va page xs s"
  shows "\<exists>s' xs'. pgflt dv va s = Ok (True, s') \<and>
    (\<forall>b. PGROUNDDOWN b = PGROUNDDOWN va \<longrightarrow> umem_of s' b = Some 0 \<and> kaddr True b s' \<noteq> None) \<and>
    (\<forall>b. PGROUNDDOWN b \<noteq> PGROUNDDOWN va \<longrightarrow> kaddr w b s' = kaddr w b s) \<and>
    (\<forall>x. PGROUNDDOWN x \<notin> pt_pages (kmem (k_ks s)) (p_pgdir (me s)) \<union> set (page # xs) \<longrightarrow> kmem (k_ks s') x = kmem (k_ks s) x) \<and>
    nget (k_maps s') p = Ok (n\<lparr>loadedPages := loadedPages n + 1\<rparr>) \<and> same_nodes (k_maps s) (k_maps s') \<and>
    k_pt s' = k_pt s \<and> k_fs s' = k_fs s \<and>
    kinv kend (k_ks s') xs' \<and> pt_ok kend (kmem (k_ks s')) (p_pgdir (me s')) (set xs') \<and> set xs' \<subseteq> set xs"
proof -
  obtain s' m' xs' where r: "pgflt dv va s = Ok (True, s')"
    "nset (k_maps s) p (n\<lparr>loadedPages := loadedPages n + 1\<rparr>) = Ok m'" "s' = s\<lparr>k_maps := m', k_ks := k_ks s'\<rparr>"
    "kinv kend (k_ks s') xs'" "pt_ok kend (kmem (k_ks s')) (p_pgdir (me s)) (set xs')" "set xs' \<subseteq> set xs"
    "\<forall>b. xlate (kmem (k_ks s')) (p_pgdir (me s)) b =
       (if PGROUNDDOWN b = PGROUNDDOWN va then Some (V2P page OR (PTE_W OR PTE_U) OR PTE_P) else xlate (kmem (k_ks s)) (p_pgdir (me s)) b)"
    "\<forall>x. PGROUNDDOWN x = page \<longrightarrow> kmem (k_ks s') x = 0"
    "\<forall>x. PGROUNDDOWN x \<notin> pt_pages (kmem (k_ks s)) (p_pgdir (me s)) \<union> set (page # xs) \<longrightarrow> kmem (k_ks s') x = kmem (k_ks s) x"
    using pgflt_anon [OF assms, of dv] by blast
  have al: "page_aligned page" using assms by (simp add: faulted_def kinv_def page_ok_def)
  have f: "k_maps s' = m'" "k_pt s' = k_pt s" "k_fs s' = k_fs s" "k_cur s' = k_cur s" by (subst r(3), simp)+
  have ka: "kaddr w b s' = Some (page + (b - PGROUNDDOWN b))" if "PGROUNDDOWN b = PGROUNDDOWN va" for w b
    using kaddr_page [of s' b page w] r(7) al f that by simp
  have "umem_of s' b = Some 0" if "PGROUNDDOWN b = PGROUNDDOWN va" for b
    using ka [OF that, of False] r(8) page_offset [OF al page_rest, of b] by (simp add: umem_of_def)
  moreover have "kaddr w b s' = kaddr w b s" if "PGROUNDDOWN b \<noteq> PGROUNDDOWN va" for b
    using r(7) f that by (simp add: kaddr_def)
  moreover have "nget (k_maps s) p = Ok n" using assms by (simp add: faulted_def)
  ultimately show ?thesis using r(1,4,5,6,9) ka same_nodes_loaded [OF _ r(2)] f
    by (intro exI [of _ s'] exI [of _ xs']) simp
qed

text \<open>
  C38. The other pages of the mapping. After that fault the page table exists, and the page-fault branch
  looks only for a missing page table: an access to another page of the same mapping under the same
  directory entry faults, the branch does nothing, and the access faults again for ever.
\<close>

theorem second_page_never_loads:
  assumes f: "faulted kend p n va page xs s"
    and vb: "PDX vb = PDX va" "PGROUNDDOWN vb \<noteq> PGROUNDDOWN va"
    and n: "pageInMappings (to_int vb) (k_maps s) = Ok (Some p)" "startAddress n \<le> vb" "vb - startAddress n < 0x80000000"
  shows "\<exists>s'. pgflt dv va s = Ok (True, s') \<and> touch dv w vb s' = Diverge"
proof -
  obtain s' m' xs' where r: "pgflt dv va s = Ok (True, s')"
    "nset (k_maps s) p (n\<lparr>loadedPages := loadedPages n + 1\<rparr>) = Ok m'" "s' = s\<lparr>k_maps := m', k_ks := k_ks s'\<rparr>"
    "pt_ok kend (kmem (k_ks s')) (p_pgdir (me s)) (set xs')" "present (pde_of (kmem (k_ks s')) (p_pgdir (me s)) (PDX va))"
    "\<forall>b. xlate (kmem (k_ks s')) (p_pgdir (me s)) b =
       (if PGROUNDDOWN b = PGROUNDDOWN va then Some (V2P page OR (PTE_W OR PTE_U) OR PTE_P) else xlate (kmem (k_ks s)) (p_pgdir (me s)) b)"
    using pgflt_anon [OF f, of dv] by blast
  have e: "k_maps s' = m'" "me s' = me s" by (subst r(3), simp)+
  note h = f [unfolded faulted_def]
  have "xlate (kmem (k_ks s)) (p_pgdir (me s)) vb = None" using vb h by (simp add: xlate_def)
  then have no: "kaddr w vb s' = None" using r(6) vb e by (simp add: kaddr_def)
  note m = same_nodes_loaded [OF _ r(2)]
  have pm: "pageInMappings (to_int vb) (k_maps s') = Ok (Some p)" using same_nodes_page [OF m(1)] h n(1) e by simp
  have a: "startAddress n + to_uint (to_int (vb - startAddress n) - to_int (vb - startAddress n) smod PGSIZE_int) = PGROUNDDOWN vb"
    using fault_page h n by blast
  have i: "PDX (PGROUNDDOWN vb) = PDX va" using page_index [of "PGROUNDDOWN vb" vb] vb(1) by simp
  have "PGROUNDDOWN (tab_of (kmem (k_ks s')) (p_pgdir (me s)) (PDX va) + 4 * PTX (PGROUNDDOWN vb)) \<noteq> 0"
    using pt_ok_tab [OF r(4) PDX_less r(5)] page_entry [OF _ PTX_less] by simp
  then have "fst (walkpgdir (p_pgdir (me s')) (PGROUNDDOWN vb) False (k_ks s')) \<noteq> 0"
    using r(5) e i by (auto simp: walkpgdir_look PGROUNDDOWN_def)
  then have "pgflt dv vb s' = Ok (True, s')" unfolding pgflt_def using pm m(2) h a e by (simp add: Let_def)
  then show ?thesis using r(1) no by (simp add: touch_def)
qed

text \<open>A process with two anonymous pages mapped at \<open>0x60000000\<close>, none of them loaded.\<close>

definition demo_maps :: wmap_state where
  "demo_maps = (case wmap 0x60000000 8192 14 (-1) wmap_boot of Ok (_, m) \<Rightarrow> m | _ \<Rightarrow> wmap_boot)"

definition demo_proc :: proc where
  "demo_proc = \<lparr>p_sz = 0, p_pgdir = 0x80300000, kstack = 0, pstate = RUNNING, pid = 1, parent = None, tf = junk_tf,
     p_context = 0, pchan = NoChan, killed = False, ofile = replicate 16 None, cwd = None, pname = replicate 16 0\<rparr>"

definition demo_kern :: "unit kern" where
  "demo_kern = \<lparr>k_maps = demo_maps, k_pt = \<lparr>procs = [demo_proc], nextpid = 2, initproc = None\<rparr>, k_ks = kst2,
     k_fs = demo_file, k_ticks = 0, k_cur = 0\<rparr>"

definition demo_region :: memHashNode where
  "demo_region = \<lparr>startAddress = 0x60000000, numPages = 2, mlength = 8192, mfd = -1, mflags = 14, loadedPages = 0, mnext = None\<rparr>"

lemma demo_maps_page: "pageInMappings (to_int 0x60000010) demo_maps = Ok (Some (Tab 7))"
    "pageInMappings (to_int 0x60001000) demo_maps = Ok (Some (Tab 7))" "nget demo_maps (Tab 7) = Ok demo_region"
  by code_simp+

lemma demo_faulted: "faulted 0x80108000 (Tab 7) demo_region 0x60000010 0x80200000 [0x80201000] demo_kern"
proof -
  have "pde_of (kmem kst2) 0x80300000 (PDX 0x60000010) = 0"
    using ld32_page [of "0x80300000" "4 * PDX 0x60000010" "kmem kst2" "\<lambda>_. 0"] entry_offset [OF PDX_less] kst2_zero
    by (simp add: pde_of_def page_aligned_def ld32_zero)
  then show ?thesis
    using kst2_inv kst2_pt demo_maps_page
    by (simp add: faulted_def demo_kern_def demo_proc_def demo_region_def present_def page_aligned_def)
qed

theorem page_fault_loads_witness:
  "\<exists>s' xs'. pgflt no_dev 0x60000010 demo_kern = Ok (True, s') \<and>
    (\<forall>b. PGROUNDDOWN b = PGROUNDDOWN 0x60000010 \<longrightarrow> umem_of s' b = Some 0 \<and> kaddr True b s' \<noteq> None) \<and>
    (\<forall>b. PGROUNDDOWN b \<noteq> PGROUNDDOWN 0x60000010 \<longrightarrow> kaddr False b s' = kaddr False b demo_kern) \<and>
    (\<forall>x. PGROUNDDOWN x \<notin> pt_pages (kmem (k_ks demo_kern)) (p_pgdir (me demo_kern)) \<union> set [0x80200000, 0x80201000] \<longrightarrow>
       kmem (k_ks s') x = kmem (k_ks demo_kern) x) \<and>
    nget (k_maps s') (Tab 7) = Ok (demo_region\<lparr>loadedPages := loadedPages demo_region + 1\<rparr>) \<and>
    same_nodes (k_maps demo_kern) (k_maps s') \<and> k_pt s' = k_pt demo_kern \<and> k_fs s' = k_fs demo_kern \<and>
    kinv 0x80108000 (k_ks s') xs' \<and> pt_ok 0x80108000 (kmem (k_ks s')) (p_pgdir (me s')) (set xs') \<and> set xs' \<subseteq> set [0x80201000]"
  by (rule page_fault_loads [OF demo_faulted])

theorem second_page_never_loads_witness:
  "\<exists>s'. pgflt no_dev 0x60000010 demo_kern = Ok (True, s') \<and> touch no_dev True 0x60001000 s' = Diverge"
proof (rule second_page_never_loads [OF demo_faulted])
  show "pageInMappings (to_int 0x60001000) (k_maps demo_kern) = Ok (Some (Tab 7))"
    using demo_maps_page by (simp add: demo_kern_def)
qed (simp_all add: PDX_def PGROUNDDOWN_def demo_region_def)

end
