(* ===== verification/KernUnmap.thy ===== *)
theory KernUnmap
  imports KernMap
begin

text \<open>
  What \<open>wunmap\<close> (sysproc.c) does to the page tables and to the page allocator: the pages of the mapping
  are free again and the process can no longer reach them.
\<close>

section \<open>The loops over the pages\<close>

text \<open>The \<open>i\<close>-th page of the run at \<open>a\<close> is loaded, and its frame is \<open>fs ! i\<close>.\<close>

definition loaded :: "mem \<Rightarrow> u32 \<Rightarrow> u32 \<Rightarrow> u32 list \<Rightarrow> bool" where
  "loaded m pgdir a fs \<longleftrightarrow> (\<forall>i < length fs. \<exists>e. xlate m pgdir (a + of_nat i * PGSIZE) = Some e \<and> PTE_ADDR e \<noteq> 0 \<and> P2V (PTE_ADDR e) = fs ! i)"

definition frames_ok :: "u32 \<Rightarrow> mem \<Rightarrow> u32 \<Rightarrow> u32 list \<Rightarrow> u32 list \<Rightarrow> bool" where
  "frames_ok kend m pgdir xs fs \<longleftrightarrow> distinct fs \<and> (\<forall>f \<in> set fs. page_ok kend f \<and> f \<notin> set xs \<and> f \<notin> pt_pages m pgdir)"

text \<open>The loop test: the run has the pages below \<open>e\<close>.\<close>

definition run_end :: "u32 \<Rightarrow> nat \<Rightarrow> u32 \<Rightarrow> bool" where
  "run_end a n e \<longleftrightarrow> uint a + int n * 4096 < 2 ^ 32 \<and> (\<forall>i < n. a + of_nat i * PGSIZE < e) \<and> \<not> a + of_nat n * PGSIZE < e"

lemma run_end_Suc: "run_end a (Suc n) e \<Longrightarrow> a < e \<and> run_end (a + PGSIZE) n e"
proof -
  assume r: "run_end a (Suc n) e"
  have "a + of_nat (Suc i) * PGSIZE = a + PGSIZE + of_nat i * PGSIZE" for i by (simp add: algebra_simps)
  then have "\<forall>i < n. a + PGSIZE + of_nat i * PGSIZE < e" "\<not> a + PGSIZE + of_nat n * PGSIZE < e"
    using r unfolding run_end_def by (metis Suc_less_eq)+
  moreover have "uint (a + PGSIZE) = uint a + 4096" using r by (subst uint_plus_if') (simp add: run_end_def)
  moreover have "a < e" using r unfolding run_end_def by (metis add.right_neutral mult_zero_left of_nat_0 zero_less_Suc)
  ultimately show ?thesis using r by (simp add: run_end_def)
qed

lemma loaded_Cons:
  "loaded m pgdir a (f # fs) \<longleftrightarrow> (\<exists>e. xlate m pgdir a = Some e \<and> PTE_ADDR e \<noteq> 0 \<and> P2V (PTE_ADDR e) = f) \<and> loaded m pgdir (a + PGSIZE) fs"
proof -
  have "a + of_nat (Suc i) * PGSIZE = a + PGSIZE + of_nat i * PGSIZE" for i by (simp add: algebra_simps)
  then show ?thesis unfolding loaded_def by (simp add: All_less_Suc2 add.assoc)
qed

lemma pt_same:
  assumes ok: "pt_ok kend m pgdir F" and same: "\<And>x. PGROUNDDOWN x \<in> pt_pages m pgdir \<Longrightarrow> m' x = m x"
  shows "xlate m' pgdir b = xlate m pgdir b" "pt_ok kend m' pgdir F" "pt_pages m' pgdir = pt_pages m pgdir"
    "loaded m' pgdir a fs = loaded m pgdir a fs"
proof -
  show x: "xlate m' pgdir b = xlate m pgdir b" for b
    by (rule xlate_frame [OF ok]) (auto intro!: same simp: pt_pages_def)
  show "pt_ok kend m' pgdir F" "pt_pages m' pgdir = pt_pages m pgdir" by (rule ukva_frame [OF ok same]; assumption)+
  show "loaded m' pgdir a fs = loaded m pgdir a fs" by (simp add: loaded_def x)
qed

lemma pt_ok_insert: "pt_ok kend m pgdir F \<Longrightarrow> f \<notin> pt_pages m pgdir \<Longrightarrow> pt_ok kend m pgdir (insert f F)"
  by (auto simp: pt_ok_def pt_pages_def)

lemma free_pages_spec:
  assumes "kinv kend k xs" "pt_ok kend (kmem k) pgdir (set xs)" "frames_ok kend (kmem k) pgdir xs fs"
    and "loaded (kmem k) pgdir a fs" "run_end a (length fs) e" "length fs < n"
  shows "\<exists>k'. free_pages n kend pgdir a e k = Ok k' \<and> kinv kend k' (rev fs @ xs) \<and>
    pt_ok kend (kmem k') pgdir (set (rev fs @ xs)) \<and> (\<forall>x. PGROUNDDOWN x \<notin> set fs \<longrightarrow> kmem k' x = kmem k x)"
  using assms
proof (induction fs arbitrary: n a k xs)
  case Nil
  then have "\<not> a < e" by (simp add: run_end_def)
  then show ?case using Nil by (cases n) simp_all
next
  case (Cons f fs)
  obtain n' where n: "n = Suc n'" using Cons.prems(6) by (cases n) auto
  obtain t where t: "xlate (kmem k) pgdir a = Some t" "PTE_ADDR t \<noteq> 0" "P2V (PTE_ADDR t) = f"
    and l: "loaded (kmem k) pgdir (a + PGSIZE) fs" using Cons.prems(4) loaded_Cons by blast
  have r: "a < e" "run_end (a + PGSIZE) (length fs) e" using run_end_Suc Cons.prems(5) by simp_all
  have f: "page_ok kend f" "f \<notin> set xs" "f \<notin> pt_pages (kmem k) pgdir" "f \<notin> set fs" using Cons.prems(3) by (auto simp: frames_ok_def)
  obtain k1 where k1: "kfree kend f k = Ok k1" "kinv kend k1 (f # xs)" "\<forall>x. PGROUNDDOWN x \<noteq> f \<longrightarrow> kmem k1 x = kmem k x"
    using kfree_inv [OF Cons.prems(1) f(1,2)] by blast
  have same: "kmem k1 x = kmem k x" if "PGROUNDDOWN x \<in> pt_pages (kmem k) pgdir" for x using k1(3) f(3) that by auto
  note s = pt_same [OF Cons.prems(2) same]
  have ok: "pt_ok kend (kmem k1) pgdir (set (f # xs))" using pt_ok_insert [OF s(2)] s(3) f(3) by simp
  have fr: "frames_ok kend (kmem k1) pgdir (f # xs) fs" using Cons.prems(3) s(3) f(4) by (auto simp: frames_ok_def)
  obtain k' where k': "free_pages n' kend pgdir (a + PGSIZE) e k1 = Ok k'" "kinv kend k' (rev fs @ f # xs)"
    "pt_ok kend (kmem k') pgdir (set (rev fs @ f # xs))" "\<forall>x. PGROUNDDOWN x \<notin> set fs \<longrightarrow> kmem k' x = kmem k1 x"
    using Cons.IH [OF k1(2) ok fr _ r(2), of n'] s(4) l Cons.prems(6) n by auto
  note w = loaded_walk [OF Cons.prems(2) t(1)]
  have "free_pages n kend pgdir a e k = Ok k'" using n r(1) w(1,2) t k1(1) k'(1) by (simp add: Let_def)
  then show ?case using k' k1(3) by auto
qed

lemma clear_pages_spec:
  assumes "kinv kend k xs" "pt_ok kend (kmem k) pgdir (set xs)" "page_aligned a"
    and "\<forall>i < m. present (pde_of (kmem k) pgdir (PDX (a + of_nat i * PGSIZE)))" "run_end a m e" "m < n"
  shows "\<exists>k'. clear_pages n pgdir a e k = Ok k' \<and> kinv kend k' xs \<and> pt_ok kend (kmem k') pgdir (set xs) \<and>
    (\<forall>b. xlate (kmem k') pgdir b = (if \<exists>i < m. PGROUNDDOWN b = a + of_nat i * PGSIZE then None else xlate (kmem k) pgdir b)) \<and>
    (\<forall>x. PGROUNDDOWN x \<notin> pt_pages (kmem k) pgdir \<longrightarrow> kmem k' x = kmem k x)"
  using assms
proof (induction m arbitrary: n a k)
  case 0
  then have "\<not> a < e" by (simp add: run_end_def)
  then show ?case using 0 by (cases n) simp_all
next
  case (Suc m)
  obtain n' where n: "n = Suc n'" using Suc.prems(6) by (cases n) auto
  have sh: "a + of_nat (Suc i) * PGSIZE = a + PGSIZE + of_nat i * PGSIZE" for i by (simp add: algebra_simps)
  have p0: "present (pde_of (kmem k) pgdir (PDX a))" using Suc.prems(4) by (metis add.right_neutral mult_zero_left of_nat_0 zero_less_Suc)
  have r: "a < e" "run_end (a + PGSIZE) m e" using run_end_Suc Suc.prems(5) by simp_all
  let ?pte = "tab_of (kmem k) pgdir (PDX a) + 4 * PTX a"
  let ?k = "k\<lparr>kmem := st32 (kmem k) ?pte 0\<rparr>"
  have km: "kmem ?k = st32 (kmem k) ?pte 0" by simp
  note w = xlate_write [OF Suc.prems(2) p0 km] and st = pt_step_write [OF Suc.prems(1,2) p0, of 0]
  note t = pt_ok_tab [OF Suc.prems(2) PDX_less p0]
  have inv: "kinv kend ?k xs" "pt_pages (kmem ?k) pgdir \<subseteq> pt_pages (kmem k) pgdir" using st by (simp_all add: pt_step_def)
  have pf: "pde_of (kmem ?k) pgdir i = pde_of (kmem k) pgdir i" if "i < 1024" for i
    by (rule pt_ok_frame(2) [OF Suc.prems(2) _ that]) (use w(3) t in auto)
  have pd: "present (pde_of (kmem ?k) pgdir (PDX (a + PGSIZE + of_nat i * PGSIZE)))" if "i < m" for i
    using Suc.prems(4) [rule_format, of "Suc i"] pf [OF PDX_less] that unfolding sh by simp
  obtain k' where k': "clear_pages n' pgdir (a + PGSIZE) e ?k = Ok k'" "kinv kend k' xs" "pt_ok kend (kmem k') pgdir (set xs)"
    "\<forall>b. xlate (kmem k') pgdir b = (if \<exists>i < m. PGROUNDDOWN b = a + PGSIZE + of_nat i * PGSIZE then None else xlate (kmem ?k) pgdir b)"
    "\<forall>x. PGROUNDDOWN x \<notin> pt_pages (kmem ?k) pgdir \<longrightarrow> kmem k' x = kmem ?k x"
    using Suc.IH [OF inv(1) w(2) page_aligned_step [OF Suc.prems(3)] _ r(2), of n'] pd Suc.prems(6) n by auto
  have "PGROUNDDOWN (tab_of (kmem k) pgdir (PDX a) + 4 * PTX a) \<noteq> 0" using t page_entry [OF _ PTX_less] by simp
  then have "?pte \<noteq> 0" by (auto simp: PGROUNDDOWN_def)
  then have run: "clear_pages n pgdir a e k = Ok k'" using n r(1) k'(1) p0 by (simp add: walkpgdir_look Let_def)
  have ex: "(\<exists>i < Suc m. PGROUNDDOWN b = a + of_nat i * PGSIZE) \<longleftrightarrow>
      PGROUNDDOWN b = a \<or> (\<exists>i < m. PGROUNDDOWN b = a + PGSIZE + of_nat i * PGSIZE)" for b
    unfolding Ex_less_Suc2 sh by simp
  have "xlate (kmem k') pgdir b = (if \<exists>i < Suc m. PGROUNDDOWN b = a + of_nat i * PGSIZE then None else xlate (kmem k) pgdir b)" for b
    unfolding ex using k'(4) w(1) [of b] Suc.prems(3) by (auto simp: present_def)
  moreover have "kmem k' x = kmem k x" if "PGROUNDDOWN x \<notin> pt_pages (kmem k) pgdir" for x
  proof -
    have "tab_of (kmem k) pgdir (PDX a) \<in> pt_pages (kmem k) pgdir" using PDX_less p0 by (auto simp: pt_pages_def)
    then show ?thesis using k'(5) inv(2) w(3) that by (metis (mono_tags, lifting) mem_Collect_eq subsetD)
  qed
  ultimately show ?case using run k'(2,3) by blast
qed

section \<open>Removing a mapping\<close>

lemma pages_cover: "len \<le> (len + 4095) div 4096 * (4096 :: int)"
  using div_mult_mod_eq [of "len + 4095" 4096] pos_mod_bound [of 4096 "len + 4095"] by linarith

lemma run_end_len:
  assumes "0 < len" "uint a + (len + 4095) div 4096 * 4096 < 2 ^ 32"
  shows "run_end a (nat ((len + 4095) div 4096)) (a + to_uint len)"
proof -
  let ?n = "nat ((len + 4095) div 4096)"
  have n: "int ?n = (len + 4095) div 4096" using assms(1) by simp
  have lo: "len \<le> int ?n * 4096" unfolding n by (rule pages_cover)
  have u: "uint (a + of_nat i * PGSIZE) = uint a + int i * 4096" if "i \<le> ?n" for i
  proof -
    have "int i \<le> int ?n" using that by (simp only: of_nat_le_iff)
    then have "uint a + int i * 4096 < 2 ^ 32" using assms(2) n by linarith
    then show ?thesis using uint_add_to_uint [of "int i * 4096" a] by (simp add: to_uint_def)
  qed
  have e: "uint (a + to_uint len) = uint a + len" using uint_add_to_uint [of len a] assms lo n by linarith
  have "int i * 4096 < len" if "i < ?n" for i
  proof -
    have "int i + 1 \<le> (len + 4095) div 4096" using that n by linarith
    then have "(int i + 1) * 4096 \<le> (len + 4095) div 4096 * 4096" by simp
    also have "\<dots> \<le> len + 4095" using div_mult_mod_eq [of "len + 4095" 4096] by linarith
    finally show ?thesis by simp
  qed
  then show ?thesis using u e assms(2) n lo unfolding run_end_def by (simp add: word_less_def)
qed

text \<open>\<open>removeValue\<close> changes addresses and links, not lengths.\<close>

lemma nset_mlength:
  assumes "nset m q x = Ok m'" "nget m q = Ok y" "mlength x = mlength y" "nget m p = Ok n"
  shows "\<exists>n'. nget m' p = Ok n' \<and> mlength n' = mlength n"
  using assms by (cases q; cases p) (auto simp: nth_list_update split: if_splits)

lemma removeValue_mlength:
  assumes r: "removeValue v m = Ok (r, m')" and n: "nget m p = Ok n"
  shows "\<exists>n'. nget m' p = Ok n' \<and> mlength n' = mlength n"
proof -
  obtain q h where q: "tab_at m (hash v) = Ok q" "nget m q = Ok h" using r by (auto simp: removeValue_def obind_eq_Ok)
  show ?thesis
  proof (cases "startAddress h = to_uint v")
    case True
    then obtain x where "nset m q x = Ok m'" "mlength x = mlength h"
      using r q by (auto simp: removeValue_def obind_eq_Ok split: option.splits)
    then show ?thesis using nset_mlength q(2) n by blast
  next
    case False
    then obtain prev node where l: "remove_loop (chain_fuel m) m None (Some q) (to_uint v) = Ok (prev, node)"
      and c: "(case node of None \<Rightarrow> Ok (-1, m) | Some q \<Rightarrow> (case prev of None \<Rightarrow> Ok (1, m) | Some r \<Rightarrow>
         obind (nget m q) (\<lambda>n. obind (nget m r) (\<lambda>x. obind (nset m r (x\<lparr>mnext := mnext n\<rparr>)) (\<lambda>st.
         obind (nget st q) (\<lambda>n. obind (nset st q (n\<lparr>startAddress := no_addr, mnext := None\<rparr>)) (\<lambda>st. Ok (1, st)))))))) = Ok (r, m')"
      using r q by (auto simp: removeValue_def obind_eq_Ok)
    show ?thesis
    proof (cases "node = None \<or> prev = None")
      case True
      then show ?thesis using c n by (auto split: option.splits)
    next
      case False
      then obtain a b where ab: "node = Some a" "prev = Some b" by auto
      then obtain x y m1 z where s: "nget m b = Ok x" "nset m b (x\<lparr>mnext := y\<rparr>) = Ok m1" "nget m1 a = Ok z"
        "nset m1 a (z\<lparr>startAddress := no_addr, mnext := None\<rparr>) = Ok m'" using c by (auto simp: obind_eq_Ok)
      obtain n1 where n1: "nget m1 p = Ok n1" "mlength n1 = mlength n"
        using nset_mlength [OF s(2,1) _ n] by auto
      then show ?thesis using nset_mlength [OF s(4,3) _ n1(1)] by auto
    qed
  qed
qed

definition unmappable :: "u32 \<Rightarrow> nptr \<Rightarrow> memHashNode \<Rightarrow> wmap_state \<Rightarrow> u32 list \<Rightarrow> u32 list \<Rightarrow> 'a kern \<Rightarrow> bool" where
  "unmappable kend p n m fs xs s \<longleftrightarrow>
     kinv kend (k_ks s) xs \<and> pt_ok kend (kmem (k_ks s)) (p_pgdir (me s)) (set xs) \<and>
     pageInMappings (to_int (startAddress n)) (k_maps s) = Ok (Some p) \<and> nget (k_maps s) p = Ok n \<and>
     removeValue (to_int (startAddress n)) (k_maps s) = Ok (1, m) \<and> mflags n AND MAP_ANONYMOUS \<noteq> 0 \<and>
     page_aligned (startAddress n) \<and> 0 < mlength n \<and> uint (startAddress n) + (mlength n + 4095) div 4096 * 4096 < 2 ^ 32 \<and>
     length fs = nat ((mlength n + 4095) div 4096) \<and> loaded (kmem (k_ks s)) (p_pgdir (me s)) (startAddress n) fs \<and>
     frames_ok kend (kmem (k_ks s)) (p_pgdir (me s)) xs fs"

lemma page_fuel_enough: "0 < len \<Longrightarrow> len < 2 ^ 32 \<Longrightarrow> nat ((len + 4095) div 4096) < page_fuel len"
proof -
  assume l: "0 < len" "len < 2 ^ 32"
  have "unat (to_uint len) = nat len" using uint_to_uint [of len] l by (simp add: unat_eq_nat_uint)
  moreover have "nat len div 4096 = nat (len div 4096)" using l by (simp add: nat_div_distrib)
  moreover have "(len + 4095) div 4096 \<le> len div 4096 + 1" using zdiv_mono1 [of "len + 4095" "len + 4096" 4096] by simp
  moreover have "0 \<le> len div 4096" using l by (simp add: pos_imp_zdiv_nonneg_iff)
  ultimately show ?thesis unfolding page_fuel_def by linarith
qed

text \<open>
  C10. Removing an anonymous mapping whose pages are all loaded: \<open>wunmap\<close> of its start returns 0, the
  mapping is taken out of the table, the frames of its pages are on the free list, no page of it can be
  reached any more, every other page of the process is where it was, and memory outside these frames and
  the page tables is unchanged. The allocator and the page tables stay sound.
\<close>

theorem wunmap_releases:
  assumes "unmappable (l_end l) p n m fs xs s"
  shows "\<exists>s'. wunmap l dv (startAddress n) s = Ok (0, s') \<and> k_maps s' = m \<and> k_pt s' = k_pt s \<and> k_fs s' = k_fs s \<and>
    kinv (l_end l) (k_ks s') (rev fs @ xs) \<and> pt_ok (l_end l) (kmem (k_ks s')) (p_pgdir (me s')) (set (rev fs @ xs)) \<and>
    (\<forall>w b. kaddr w b s' = (if \<exists>i < length fs. PGROUNDDOWN b = startAddress n + of_nat i * PGSIZE then None else kaddr w b s)) \<and>
    (\<forall>x. PGROUNDDOWN x \<notin> set fs \<union> pt_pages (kmem (k_ks s)) (p_pgdir (me s)) \<longrightarrow> kmem (k_ks s') x = kmem (k_ks s) x)"
proof -
  note h = assms [unfolded unmappable_def]
  let ?d = "p_pgdir (me s)" and ?a = "startAddress n" and ?e = "startAddress n + to_uint (mlength n)"
  have re: "run_end ?a (length fs) ?e" using run_end_len [of "mlength n" ?a] h by simp
  have "mlength n < 2 ^ 32" using h pages_cover [of "mlength n"] uint_ge_0 [of ?a] by linarith
  then have fu: "length fs < page_fuel (mlength n)" using page_fuel_enough h by simp
  obtain n' where n': "nget m p = Ok n'" "mlength n' = mlength n" using removeValue_mlength h by blast
  obtain k1 where k1: "free_pages (page_fuel (mlength n)) (l_end l) ?d ?a ?e (k_ks s) = Ok k1" "kinv (l_end l) k1 (rev fs @ xs)"
    "pt_ok (l_end l) (kmem k1) ?d (set (rev fs @ xs))" "\<forall>x. PGROUNDDOWN x \<notin> set fs \<longrightarrow> kmem k1 x = kmem (k_ks s) x"
    using free_pages_spec [of "l_end l" "k_ks s" xs ?d fs ?a ?e "page_fuel (mlength n)"] h re fu by blast
  have same: "kmem k1 x = kmem (k_ks s) x" if "PGROUNDDOWN x \<in> pt_pages (kmem (k_ks s)) ?d" for x
    using k1(4) h that by (auto simp: frames_ok_def)
  have ok: "pt_ok (l_end l) (kmem (k_ks s)) ?d (set xs)" using h by blast
  note sm = pt_same [OF ok same]
  have pr: "present (pde_of (kmem k1) ?d (PDX (?a + of_nat i * PGSIZE)))" if "i < length fs" for i
    using h that sm(1) loaded_walk(4) [OF k1(3)] unfolding loaded_def by metis
  obtain k2 where k2: "clear_pages (page_fuel (mlength n)) ?d ?a ?e k1 = Ok k2" "kinv (l_end l) k2 (rev fs @ xs)"
    "pt_ok (l_end l) (kmem k2) ?d (set (rev fs @ xs))"
    "\<forall>b. xlate (kmem k2) ?d b = (if \<exists>i < length fs. PGROUNDDOWN b = ?a + of_nat i * PGSIZE then None else xlate (kmem k1) ?d b)"
    "\<forall>x. PGROUNDDOWN x \<notin> pt_pages (kmem k1) ?d \<longrightarrow> kmem k2 x = kmem k1 x"
    using clear_pages_spec [OF k1(2,3), of ?a "length fs" ?e "page_fuel (mlength n)"] h pr re fu by blast
  let ?s = "s\<lparr>k_maps := m, k_ks := k2\<rparr>"
  have "wunmap l dv ?a s = Ok (0, ?s)" unfolding wunmap_def using h n' k1(1) k2(1) by (simp add: Let_def)
  moreover have "kaddr w b ?s = (if \<exists>i < length fs. PGROUNDDOWN b = ?a + of_nat i * PGSIZE then None else kaddr w b s)" for w b
    using k2(4) sm(1) by (auto simp: kaddr_def)
  moreover have "kmem k2 x = kmem (k_ks s) x" if "PGROUNDDOWN x \<notin> set fs \<union> pt_pages (kmem (k_ks s)) ?d" for x
    using k2(5) k1(4) sm(3) that by simp
  ultimately show ?thesis using k2(2,3) by (intro exI [of _ ?s]) simp
qed

text \<open>One anonymous page at \<open>0x60000000\<close>, loaded by a fault and removed again.\<close>

definition demo_maps1 :: wmap_state where
  "demo_maps1 = (case wmap 0x60000000 4096 14 (-1) wmap_boot of Ok (_, m) \<Rightarrow> m | _ \<Rightarrow> wmap_boot)"

definition demo_region1 :: memHashNode where
  "demo_region1 = \<lparr>startAddress = 0x60000000, numPages = 1, mlength = 4096, mfd = -1, mflags = 14, loadedPages = 0, mnext = None\<rparr>"

definition demo_layout :: layout where
  "demo_layout = \<lparr>l_end = 0x80108000, l_data = 0x80106000, l_trapret = 1, l_forkret = 2, l_initcode = 0x80107000, l_initsize = 44\<rparr>"

lemma demo_maps1_page: "pageInMappings (to_int 0x60000010) demo_maps1 = Ok (Some (Tab 7))" "nget demo_maps1 (Tab 7) = Ok demo_region1"
  by code_simp+

definition demo_loaded :: wmap_state where
  "demo_loaded = demo_maps1\<lparr>table := (table demo_maps1)[7 := demo_region1\<lparr>loadedPages := 1\<rparr>]\<rparr>"

lemma demo_loaded_ops: "nset demo_maps1 (Tab 7) (demo_region1\<lparr>loadedPages := 1\<rparr>) = Ok demo_loaded"
    "pageInMappings (to_int 0x60000000) demo_loaded = Ok (Some (Tab 7))"
    "removeValue (to_int 0x60000000) demo_loaded = Ok (1, demo_loaded\<lparr>table := (table demo_loaded)[7 := demo_region1\<lparr>loadedPages := 1, startAddress := no_addr\<rparr>]\<rparr>)"
    "nget demo_loaded (Tab 7) = Ok (demo_region1\<lparr>loadedPages := 1\<rparr>)"
  by code_simp+

lemma demo_faulted1: "faulted 0x80108000 (Tab 7) demo_region1 0x60000010 0x80200000 [0x80201000] (demo_kern\<lparr>k_maps := demo_maps1\<rparr>)"
proof -
  have "faulted 0x80108000 (Tab 7) demo_region 0x60000010 0x80200000 [0x80201000] demo_kern" by (rule demo_faulted)
  then show ?thesis using demo_maps1_page by (simp add: faulted_def demo_region_def demo_region1_def)
qed

theorem wunmap_releases_witness:
  "\<exists>s s'. pgflt no_dev 0x60000010 (demo_kern\<lparr>k_maps := demo_maps1\<rparr>) = Ok (True, s) \<and> wunmap demo_layout no_dev 0x60000000 s = Ok (0, s') \<and>
    (\<forall>w b. kaddr w b s' = (if PGROUNDDOWN b = 0x60000000 then None else kaddr w b s))"
proof -
  let ?d = "demo_kern\<lparr>k_maps := demo_maps1\<rparr>"
  obtain s m' xs' where r: "pgflt no_dev 0x60000010 ?d = Ok (True, s)"
    "nset (k_maps ?d) (Tab 7) (demo_region1\<lparr>loadedPages := loadedPages demo_region1 + 1\<rparr>) = Ok m'" "s = ?d\<lparr>k_maps := m', k_ks := k_ks s\<rparr>"
    "kinv 0x80108000 (k_ks s) xs'" "pt_ok 0x80108000 (kmem (k_ks s)) (p_pgdir (me ?d)) (set xs')"
    "\<forall>b. xlate (kmem (k_ks s)) (p_pgdir (me ?d)) b = (if PGROUNDDOWN b = PGROUNDDOWN 0x60000010
       then Some (V2P 0x80200000 OR (PTE_W OR PTE_U) OR PTE_P) else xlate (kmem (k_ks ?d)) (p_pgdir (me ?d)) b)"
    "0x80200000 \<notin> set xs'" "0x80200000 \<notin> pt_pages (kmem (k_ks s)) (p_pgdir (me ?d))"
    using pgflt_anon [OF demo_faulted1, of no_dev] by blast
  have m: "k_maps s = demo_loaded" using r(2) demo_loaded_ops(1) by (subst r(3)) (simp add: demo_region1_def)
  have "k_pt s = k_pt ?d" "k_cur s = k_cur ?d" by (subst r(3), simp)+
  then have e: "me s = me ?d" by simp
  let ?n = "demo_region1\<lparr>loadedPages := 1\<rparr>"
  have a: "PGROUNDDOWN 0x60000010 = 0x60000000" "PGROUNDDOWN 0x60000000 = 0x60000000" by (simp_all add: PGROUNDDOWN_def)
  have "unmappable (l_end demo_layout) (Tab 7) ?n (demo_loaded\<lparr>table := (table demo_loaded)[7 := demo_region1\<lparr>loadedPages := 1, startAddress := no_addr\<rparr>]\<rparr>) [0x80200000] xs' s"
    using r(4,5,6,7,8) m e demo_loaded_ops a
    by (simp add: unmappable_def demo_layout_def demo_region1_def page_aligned_def loaded_def frames_ok_def page_ok_def V2P_def P2V_def PTE_ADDR_def)
  from wunmap_releases [OF this, of no_dev] show ?thesis using r(1) by (auto simp: demo_region1_def)
qed

end
