(* ===== verification/WmapFork.thy ===== *)
theory WmapFork
  imports WmapPlace
begin

text \<open>
  The copy of the mappings when a process forks. \<open>forkHelper\<close> inserts every mapping again while it walks over
  the chains; the copies go behind the head of the bucket, so the walk meets the copy of the head and then the
  old nodes. With enough nodes left in the pool it ends, and the same addresses are mapped as before.
\<close>

section \<open>One bucket\<close>

text \<open>What the copies of bucket \<open>i\<close> keep.\<close>

definition copied :: "nat \<Rightarrow> wmap_state \<Rightarrow> (nat \<Rightarrow> nat list) \<Rightarrow> wmap_state \<Rightarrow> (nat \<Rightarrow> nat list) \<Rightarrow> nat \<Rightarrow> bool" where
  "copied i st cs st' cs' c \<longleftrightarrow> wmap_wf st' cs' \<and> poolCounter st' = poolCounter st + c \<and> hashInit st' = hashInit st \<and>
     (\<forall>x. mapped st' x \<longleftrightarrow> mapped st x) \<and> (\<forall>j. startAddress (table st' ! j) = startAddress (table st ! j)) \<and> (\<forall>j. j \<noteq> i \<longrightarrow> cs' j = cs j)"

lemma copied_refl: "wmap_wf st cs \<Longrightarrow> copied i st cs st cs 0"
  by (simp add: copied_def)

lemma copied_trans: "copied i st cs st1 cs1 a \<Longrightarrow> copied i st1 cs1 st2 cs2 b \<Longrightarrow> copied i st cs st2 cs2 (a + b)"
  by (simp add: copied_def)

text \<open>A node of bucket \<open>i\<close> is inserted again.\<close>

lemma copy_node:
  assumes wf: "wmap_wf st cs" and i: "i < MEM_HASH_SIZE" and full: "startAddress (table st ! i) \<noteq> no_addr"
    and room: "poolCounter st < MAX_WMMAP_INFO" and p: "p \<in> set (bptrs st cs i)"
  defines "n \<equiv> nd st p" and "st' \<equiv> pool_insert i ((nd st p)\<lparr>loadedPages := 0\<rparr>) st"
  shows "hashInsert (startAddress n) (mlength n) (numPages n) (mfd n) (mflags n) st = Ok st'"
    "copied i st cs st' (cs(i := poolCounter st # cs i)) 1"
proof -
  let ?n = "n\<lparr>loadedPages := 0\<rparr>" and ?cs = "cs(i := poolCounter st # cs i)"
  have lp: "live st p" using p i by (auto simp: live_aptrs [OF wf] set_aptrs)
  have ok: "entry_ok i ?n" using bptrs_entry_ok [OF wf i p] by (simp add: entry_ok_def n_def)
  show "hashInsert (startAddress n) (mlength n) (numPages n) (mfd n) (mflags n) st = Ok st'"
    using hashInsert_pool [OF wf ok _ full i room] by (simp add: st'_def n_def)
  have wf': "wmap_wf st' ?cs" unfolding st'_def n_def [symmetric] by (rule pool_insert_wf [OF wf ok full i room])
  have len: "length (table st) = MEM_HASH_SIZE" "length (nodePool st) = MAX_WMMAP_INFO" using wf_lengths [OF wf] by auto
  have b: "bptrs st' ?cs j = (if j = i then Tab i # Pool (poolCounter st) # map Pool (cs i) else bptrs st cs j)" for j
    unfolding st'_def using bptrs_pool_insert [of i st _ cs] i len full by simp
  have lv: "live st' q \<longleftrightarrow> q = Pool (poolCounter st) \<or> live st q" for q
    using full by (auto simp: live_upd [OF wf' i b] live_split [OF wf i] bptrs_def)
  have "\<not> live st (Pool (poolCounter st))"
    using wf_fresh [OF wf] by (auto simp: live_aptrs [OF wf] set_aptrs bptrs_def split: if_splits)
  then have ne: "q \<noteq> Pool (poolCounter st)" if "live st q" for q using that by blast
  have old: "covers (nd st' q) x \<longleftrightarrow> covers (nd st q) x" if "live st q" for q x
    using ne [OF that] i len by (cases q) (auto simp: st'_def pool_insert_def covers_def node_end_def nth_list_update)
  have "covers (nd st' (Pool (poolCounter st))) x \<longleftrightarrow> covers n x" for x
    using room len by (simp add: st'_def n_def pool_insert_def covers_def node_end_def)
  then have "mapped st' x \<longleftrightarrow> mapped st x" for x using lv old lp unfolding mapped_def n_def by metis
  then show "copied i st cs st' ?cs 1"
    unfolding copied_def using wf' i len by (auto simp: st'_def pool_insert_def nth_list_update)
qed

text \<open>The walk over nodes of the pool.\<close>

lemma fork_chain_pool:
  assumes "wmap_wf st cs" "i < MEM_HASH_SIZE" "startAddress (table st ! i) \<noteq> no_addr" "plink (nodePool st) p ks" "set ks \<subseteq> set (cs i)"
    "poolCounter st + length ks \<le> MAX_WMMAP_INFO" "length ks < f"
  shows "\<exists>st' cs'. fork_chain f p st = Ok st' \<and> copied i st cs st' cs' (length ks)"
  using assms
proof (induction ks arbitrary: p st cs f)
  case Nil
  then show ?case using copied_refl by (cases f) auto
next
  case (Cons k ks)
  obtain g where f: "f = Suc g" using Cons.prems(7) by (cases f) auto
  have k: "k \<in> set (cs i)" "k < poolCounter st" "entry_ok i (nodePool st ! k)" using Cons.prems(5) wf_pool [OF Cons.prems(1,2)] by auto
  have b: "Pool k \<in> set (bptrs st cs i)" using k(1) Cons.prems(3) by (simp add: bptrs_def)
  have room: "poolCounter st < MAX_WMMAP_INFO" using Cons.prems(6) by simp
  let ?st = "pool_insert i ((nd st (Pool k))\<lparr>loadedPages := 0\<rparr>) st" and ?cs = "cs(i := poolCounter st # cs i)"
  note c = copy_node [OF Cons.prems(1-3) room b]
  have len: "length (nodePool st) = MAX_WMMAP_INFO" "length (table st) = MEM_HASH_SIZE" using wf_lengths [OF Cons.prems(1)] by auto
  have fresh: "poolCounter st \<notin> set ks" using wf_fresh [OF Cons.prems(1,2)] Cons.prems(5) by auto
  have st: "nodePool ?st ! k = nodePool st ! k" "poolCounter ?st = Suc (poolCounter st)" "length (nodePool ?st) = MAX_WMMAP_INFO"
    using k(2) len by (simp_all add: pool_insert_def)
  have p: "p = Some (Pool k)" "plink (nodePool st) (mnext (nodePool st ! k)) ks" using Cons.prems(4) by simp_all
  have pl: "plink (nodePool ?st) (mnext (nodePool st ! k)) ks" using p(2) fresh by (simp add: pool_insert_def)
  have "wmap_wf ?st ?cs" "startAddress (table ?st ! i) \<noteq> no_addr" using c(2) Cons.prems(3) by (simp_all add: copied_def)
  then obtain st' cs' where r: "fork_chain g (mnext (nodePool st ! k)) ?st = Ok st'" "copied i ?st ?cs st' cs' (length ks)"
    using Cons.IH [of ?st ?cs "mnext (nodePool st ! k)" g] pl Cons.prems(2,5,6,7) st(2) f by fastforce
  have "fork_chain f p st = Ok st'"
    using r(1) c(1) st(1,3) k(2) len Cons.prems(6) entry_ok_not_none [OF k(3)] by (simp add: f p(1))
  then show ?case using copied_trans [OF c(2) r(2)] by auto
qed

definition bucket_need :: "wmap_state \<Rightarrow> (nat \<Rightarrow> nat list) \<Rightarrow> nat \<Rightarrow> nat" where
  "bucket_need st cs i = (if startAddress (table st ! i) = no_addr then 0 else Suc (length (bptrs st cs i)))"

lemma fork_chain_bucket:
  assumes "wmap_wf st cs" "i < MEM_HASH_SIZE" "poolCounter st + bucket_need st cs i \<le> MAX_WMMAP_INFO"
  shows "\<exists>st' cs'. fork_chain (chain_fuel st) (Some (Tab i)) st = Ok st' \<and> copied i st cs st' cs' (bucket_need st cs i)"
proof (cases "startAddress (table st ! i) = no_addr")
  case True
  have "i < length (table st)" using assms(2) wf_lengths [OF assms(1)] by simp
  then have "fork_chain (chain_fuel st) (Some (Tab i)) st = Ok st" using True by (simp add: chain_fuel_def)
  then show ?thesis using copied_refl [OF assms(1)] True by (auto simp: bucket_need_def)
next
  case False
  have len: "length (nodePool st) = MAX_WMMAP_INFO" "length (table st) = MEM_HASH_SIZE" using wf_lengths [OF assms(1)] by auto
  have need: "bucket_need st cs i = Suc (Suc (length (cs i)))" using False by (simp add: bucket_need_def bptrs_def)
  have room: "poolCounter st < MAX_WMMAP_INFO" using assms(3) need by simp
  let ?st = "pool_insert i ((nd st (Tab i))\<lparr>loadedPages := 0\<rparr>) st" and ?cs = "cs(i := poolCounter st # cs i)"
  have b: "Tab i \<in> set (bptrs st cs i)" using False by (simp add: bptrs_def)
  note c = copy_node [OF assms(1,2) False room b]
  have wf: "wmap_wf ?st ?cs" "startAddress (table ?st ! i) \<noteq> no_addr" using c(2) False by (simp_all add: copied_def)
  have hd: "table ?st ! i = (table st ! i)\<lparr>mnext := Some (Pool (poolCounter st))\<rparr>" "length (table ?st) = MEM_HASH_SIZE"
    "poolCounter ?st = Suc (poolCounter st)" using assms(2) len by (simp_all add: pool_insert_def)
  have pl: "plink (nodePool ?st) (Some (Pool (poolCounter st))) (poolCounter st # cs i)" using wf_plink [OF wf(1) assms(2)] hd by simp
  have "length (cs i) + 3 \<le> Suc (length (table st) + length (nodePool st))" using assms(3) need len by simp
  then obtain st' cs' where r: "fork_chain (Suc (length (table st) + length (nodePool st))) (Some (Pool (poolCounter st))) ?st = Ok st'"
      "copied i ?st ?cs st' cs' (length (poolCounter st # cs i))"
    using fork_chain_pool [OF wf(1) assms(2) wf(2) pl, of "Suc (length (table st) + length (nodePool st))"] assms(3) need hd(3) by fastforce
  have il: "i < length (table st)" "i < length (table ?st)" using assms(2) len hd(2) by simp_all
  have "fork_chain (chain_fuel st) (Some (Tab i)) st = Ok st'"
    using r(1) c(1) hd(1) il False by (simp add: chain_fuel_def)
  then show ?thesis using copied_trans [OF c(2) r(2)] need by auto
qed

section \<open>The whole table\<close>

lemma fork_scan_ok:
  assumes "wmap_wf st cs" "distinct js" "set js \<subseteq> {..<MEM_HASH_SIZE}" "poolCounter st + (\<Sum>j\<leftarrow>js. bucket_need st cs j) \<le> MAX_WMMAP_INFO"
  shows "\<exists>st' cs'. fork_scan js st = Ok st' \<and> wmap_wf st' cs' \<and> hashInit st' = hashInit st \<and> (\<forall>x. mapped st' x \<longleftrightarrow> mapped st x) \<and>
    poolCounter st' = poolCounter st + (\<Sum>j\<leftarrow>js. bucket_need st cs j)"
  using assms
proof (induction js arbitrary: st cs)
  case Nil
  then show ?case by auto
next
  case (Cons i js)
  obtain st1 cs1 where c: "fork_chain (chain_fuel st) (Some (Tab i)) st = Ok st1" "copied i st cs st1 cs1 (bucket_need st cs i)"
    using fork_chain_bucket [OF Cons.prems(1), of i] Cons.prems(3,4) by auto
  have "bucket_need st1 cs1 j = bucket_need st cs j" if "j \<in> set js" for j
    using c(2) that Cons.prems(2) by (auto simp: copied_def bucket_need_def bptrs_def)
  then have sm: "(\<Sum>j\<leftarrow>js. bucket_need st1 cs1 j) = (\<Sum>j\<leftarrow>js. bucket_need st cs j)" by (metis (mono_tags, lifting) map_cong)
  have t: "tab_at st (int i) = Ok (Tab i)" using Cons.prems(3) wf_lengths [OF Cons.prems(1)] by (intro tab_at_int) auto
  obtain st' cs' where r: "fork_scan js st1 = Ok st'" "wmap_wf st' cs'" "hashInit st' = hashInit st1" "\<forall>x. mapped st' x \<longleftrightarrow> mapped st1 x"
      "poolCounter st' = poolCounter st1 + (\<Sum>j\<leftarrow>js. bucket_need st1 cs1 j)"
    using Cons.IH [of st1 cs1] Cons.prems(2-4) c(2) sm by (auto simp: copied_def)
  then show ?case using t c sm by (auto simp: copied_def)
qed

text \<open>The nodes that the copies take: one for each mapping, and one more for each bucket that has any, because the
  walk meets the copy of its head.\<close>

definition fork_need :: "wmap_state \<Rightarrow> nat" where
  "fork_need st = card {p. live st p} + card {i. i < MEM_HASH_SIZE \<and> startAddress (table st ! i) \<noteq> no_addr}"

lemma fork_need_sum:
  assumes wf: "wmap_wf st cs"
  shows "fork_need st = (\<Sum>j\<leftarrow>[0..<MEM_HASH_SIZE]. bucket_need st cs j)"
proof -
  let ?I = "{..<MEM_HASH_SIZE}" and ?h = "\<lambda>i. if startAddress (table st ! i) \<noteq> no_addr then 1 else 0 :: nat"
  have dj: "set (bptrs st cs i) \<inter> set (bptrs st cs j) = {}" if "i \<in> ?I" "j \<in> ?I" "i \<noteq> j" for i j
    using wf_disj [OF wf, of i j] that by (auto simp: bptrs_def)
  have "{p. live st p} = (\<Union>i\<in>?I. set (bptrs st cs i))" by (auto simp: live_aptrs [OF wf] set_aptrs)
  then have "card {p. live st p} = (\<Sum>i\<in>?I. card (set (bptrs st cs i)))"
    using dj by (simp only:) (rule card_UN_disjoint, auto)
  also have "\<dots> = (\<Sum>i\<in>?I. length (bptrs st cs i))"
    using distinct_bptrs [OF wf] by (intro sum.cong) (auto simp: distinct_card)
  finally have a: "card {p. live st p} = (\<Sum>i\<in>?I. length (bptrs st cs i))" .
  have "{i. i < MEM_HASH_SIZE \<and> startAddress (table st ! i) \<noteq> no_addr} = {i \<in> ?I. startAddress (table st ! i) \<noteq> no_addr}" by auto
  then have h: "card {i. i < MEM_HASH_SIZE \<and> startAddress (table st ! i) \<noteq> no_addr} = (\<Sum>i\<in>?I. ?h i)"
    by (simp only: sum.inter_filter [symmetric] finite_lessThan card_eq_sum)
  have "(\<Sum>j\<leftarrow>[0..<MEM_HASH_SIZE]. bucket_need st cs j) = (\<Sum>i\<in>?I. bucket_need st cs i)"
    by (simp only: interv_sum_list_conv_sum_set_nat set_upt lessThan_atLeast0)
  also have "\<dots> = (\<Sum>i\<in>?I. length (bptrs st cs i) + ?h i)"
    by (intro sum.cong) (auto simp: bucket_need_def bptrs_def)
  finally show ?thesis unfolding fork_need_def a h by (simp only: sum.distrib)
qed

lemma forkHelper_ok:
  assumes "wmap_inv st" "poolCounter st + fork_need st \<le> MAX_WMMAP_INFO"
  obtains st' where "forkHelper st = Ok (0, st')" "wmap_inv st'" "\<And>x. mapped st' x \<longleftrightarrow> mapped st x" "hashInit st' = hashInit st"
    "poolCounter st' = poolCounter st + fork_need st"
proof -
  obtain cs where wf: "wmap_wf st cs" using assms(1) by (auto simp: wmap_inv_def)
  define I where "I = [0..<MEM_HASH_SIZE]"
  have I: "distinct I" "set I \<subseteq> {..<MEM_HASH_SIZE}" by (auto simp: I_def)
  note sm = fork_need_sum [OF wf, folded I_def]
  obtain st' cs' where "fork_scan I st = Ok st'" "wmap_wf st' cs'" "hashInit st' = hashInit st" "\<forall>x. mapped st' x \<longleftrightarrow> mapped st x"
      "poolCounter st' = poolCounter st + fork_need st"
    using fork_scan_ok [OF wf I] assms(2) unfolding sm by blast
  then show ?thesis using that [of st'] by (auto simp: forkHelper_def wmap_inv_def simp flip: I_def)
qed

lemma demo_need: "fork_need wmap_demo = 2"
proof -
  have h: "\<forall>i\<in>set [0..<19]. startAddress (table wmap_demo ! i) \<noteq> no_addr \<longrightarrow> i = 7" by code_simp
  have t: "startAddress (table wmap_demo ! 7) \<noteq> no_addr" "mnext (table wmap_demo ! 7) = None" by code_simp+
  have h': "i < 19 \<and> startAddress (table wmap_demo ! i) \<noteq> no_addr \<longleftrightarrow> i = 7" for i
    using h t(1) by (auto simp del: upt_rec_numeral)
  have "p = Tab 7" if "live wmap_demo p" for p using that by induction (use h' t(2) in auto)
  moreover have "live wmap_demo (Tab 7)" using t(1) by (intro live_head) simp_all
  ultimately have "{p. live wmap_demo p} = {Tab 7}" by blast
  then show ?thesis by (simp add: fork_need_def h')
qed

text \<open>
  Each fork inserts every mapping of the shared table once more per visited node: with a single
  mapping the pool of sixteen overflow nodes is used up by the fourth fork, which then writes past
  its end.
\<close>

theorem forkHelper_overflow:
  "is_Ok (obind (forkHelper wmap_demo) (\<lambda>(_, st). obind (forkHelper st) (\<lambda>(_, st). forkHelper st))) \<and>
   obind (forkHelper wmap_demo) (\<lambda>(_, st). obind (forkHelper st) (\<lambda>(_, st). obind (forkHelper st) (\<lambda>(_, st).
     forkHelper st))) = Fault"
  by code_simp

text \<open>Before the first \<open>wmap\<close> the table is not set up: all its start addresses are 0, which counts as a mapping, and
  a fork takes a node for each bucket and one more.\<close>

lemma forkHelper_boot: "forkHelper wmap_boot = Fault"
  by code_simp

end
