(* ===== verification/KernFork.thy ===== *)
theory KernFork
  imports KernUnmap ProcInv WmapFork
begin

text \<open>
  \<open>fork\<close> (proc.c) on the whole kernel: the child it makes, the memory the child sees, and the references to
  the files that both have open.
\<close>

section \<open>The slot and the stack\<close>

lemma stack_writes:
  assumes "page_aligned stk" "PGROUNDDOWN x \<noteq> stk"
  shows "st32 (memset (st32 m (stk + 4016) a) (stk + 3996) 0 20) (stk + 4012) b x = m x"
proof -
  have "\<not> x - (stk + 3996) < 20"
  proof
    define j where "j = x - (stk + 3996)"
    assume "x - (stk + 3996) < 20"
    then have "uint j < 20" by (simp add: j_def word_less_def)
    then have "3996 + j < PGSIZE" by (simp add: word_less_def uint_plus_if')
    then have "PGROUNDDOWN (stk + (3996 + j)) = stk" by (rule page_offset [OF assms(1)])
    then show False using assms(2) by (simp add: j_def)
  qed
  then show ?thesis using st32_page [OF assms(1) _ _ assms(2), of 4012] st32_page [OF assms(1) _ _ assms(2), of 4016]
    by (simp add: memset_value aligned4_def)
qed

lemma allocproc_spec:
  assumes inv: "kinv kend k (stk # xs)" and np: "find_unused 0 (procs t) = Some np" and pid: "c_int (nextpid t + 1)"
  shows "\<exists>k'. allocproc trapret forkret (t, k) = Ok (Some np,
      t\<lparr>procs := (procs t)[np := (procs t ! np)\<lparr>pstate := EMBRYO, pid := nextpid t, kstack := stk, tf := junk_tf, p_context := stk + 3996\<rparr>],
        nextpid := nextpid t + 1\<rparr>, k') \<and> kinv kend k' xs \<and> (\<forall>x. PGROUNDDOWN x \<noteq> stk \<longrightarrow> kmem k' x = kmem k x)"
proof -
  obtain k1 where k1: "kalloc k = (stk, k1)" "kinv kend k1 xs" "kmem k1 = kmem k" using kalloc_Cons [OF inv] by blast
  have stk: "stk \<noteq> 0" "page_aligned stk" "stk \<notin> set xs" using inv page_ok_nonzero [of kend stk] by (auto simp: kinv_def page_ok_def)
  let ?m = "st32 (memset (st32 (kmem k1) (stk + 4016) trapret) (stk + 3996) 0 20) (stk + 4012) forkret"
  have n: "np < length (procs t)" using find_unused_Some [OF np] by simp
  have "?m x = kmem k x" if "PGROUNDDOWN x \<noteq> stk" for x using stack_writes [OF stk(2) that] k1(3) by simp
  moreover have "kinv kend (k1\<lparr>kmem := ?m\<rparr>) xs"
    using stk(3) by (intro kinv_frame [OF k1(2)] stack_writes [OF stk(2)]) auto
  moreover have "allocproc trapret forkret (t, k) = Ok (Some np,
      t\<lparr>procs := (procs t)[np := (procs t ! np)\<lparr>pstate := EMBRYO, pid := nextpid t, kstack := stk, tf := junk_tf, p_context := stk + 3996\<rparr>],
        nextpid := nextpid t + 1\<rparr>, k1\<lparr>kmem := ?m\<rparr>)"
    using k1(1) stk(1) np pid n by (simp add: allocproc_def Let_def upd_proc_def add.commute [of stk])
  ultimately show ?thesis by auto
qed

section \<open>The open files\<close>

lemma dup_files_ok:
  assumes "np \<noteq> k_cur s" "np < length (procs (k_pt s))" "\<forall>i \<in> set is. i < length (ofile (procs (k_pt s) ! np))"
    and "\<forall>i \<in> set is. \<forall>f. ofile (me s) ! i = Some f \<longrightarrow> f < length (ftable (k_fs s)) \<and> 1 \<le> f_ref (file_of (k_fs s) f)"
  shows "\<exists>os F. dup_files is np s = Ok (s\<lparr>k_fs := (k_fs s)\<lparr>ftable := F\<rparr>, k_pt := upd_proc np (\<lambda>p. p\<lparr>ofile := os\<rparr>) (k_pt s)\<rparr>) \<and>
    length os = length (ofile (procs (k_pt s) ! np)) \<and>
    (\<forall>i < length os. os ! i = (if i \<in> set is \<and> ofile (me s) ! i \<noteq> None then ofile (me s) ! i else ofile (procs (k_pt s) ! np) ! i)) \<and>
    length F = length (ftable (k_fs s)) \<and>
    (\<forall>f < length F. F ! f = (file_of (k_fs s) f)\<lparr>f_ref := f_ref (file_of (k_fs s) f) + int (count_list (map (\<lambda>i. ofile (me s) ! i) is) (Some f))\<rparr>)"
  using assms
proof (induction "is" arbitrary: s)
  case Nil
  have "s = s\<lparr>k_fs := (k_fs s)\<lparr>ftable := ftable (k_fs s)\<rparr>, k_pt := upd_proc np (\<lambda>p. p\<lparr>ofile := ofile (procs (k_pt s) ! np)\<rparr>) (k_pt s)\<rparr>"
    by (simp add: upd_proc_def)
  then show ?case by (intro exI [of _ "ofile (procs (k_pt s) ! np)"] exI [of _ "ftable (k_fs s)"]) (simp add: upd_proc_def)
next
  case (Cons i "is")
  show ?case
  proof (cases "ofile (me s) ! i")
    case None
    then have same: "j \<in> set (i # is) \<and> ofile (me s) ! j \<noteq> None \<longleftrightarrow> j \<in> set is \<and> ofile (me s) ! j \<noteq> None" for j by auto
    have run: "dup_files (i # is) np s = dup_files is np s" using None by simp
    have cnt: "count_list (map (\<lambda>i. ofile (me s) ! i) (i # is)) (Some f) = count_list (map (\<lambda>i. ofile (me s) ! i) is) (Some f)" for f
      using None by simp
    show ?thesis unfolding same run cnt using Cons.prems by (intro Cons.IH) auto
  next
    case (Some f)
    have f: "f < length (ftable (k_fs s))" "1 \<le> f_ref (file_of (k_fs s) f)" using Cons.prems(4) Some by auto
    define t where "t = s\<lparr>k_fs := upd_file f (\<lambda>x. x\<lparr>f_ref := f_ref x + 1\<rparr>) (k_fs s), k_pt := upd_proc np (\<lambda>p. p\<lparr>ofile := (ofile p)[i := Some f]\<rparr>) (k_pt s)\<rparr>"
    have run: "dup_files (i # is) np s = dup_files is np t" using f(2) Some by (simp add: filedup_def t_def)
    have me: "me t = me s" "k_cur t = k_cur s" "length (procs (k_pt t)) = length (procs (k_pt s))"
      using Cons.prems(1) by (simp_all add: upd_proc_def t_def)
    have o: "ofile (procs (k_pt t) ! np) = (ofile (procs (k_pt s) ! np))[i := Some f]" using Cons.prems(2) by (simp add: upd_proc_def t_def)
    have ft: "length (ftable (k_fs t)) = length (ftable (k_fs s))"
      "g < length (ftable (k_fs s)) \<Longrightarrow> file_of (k_fs t) g = (file_of (k_fs s) g)\<lparr>f_ref := f_ref (file_of (k_fs s) g) + (if g = f then 1 else 0)\<rparr>" for g
      by (simp_all add: t_def upd_file_def nth_list_update)
    have h: "\<forall>i \<in> set is. \<forall>f. ofile (me t) ! i = Some f \<longrightarrow> f < length (ftable (k_fs t)) \<and> 1 \<le> f_ref (file_of (k_fs t) f)"
      using Cons.prems(4) ft unfolding me(1) by auto
    obtain os F where r: "dup_files is np t = Ok (t\<lparr>k_fs := (k_fs t)\<lparr>ftable := F\<rparr>, k_pt := upd_proc np (\<lambda>p. p\<lparr>ofile := os\<rparr>) (k_pt t)\<rparr>)"
      "length os = length (ofile (procs (k_pt t) ! np))"
      "\<forall>j < length os. os ! j = (if j \<in> set is \<and> ofile (me t) ! j \<noteq> None then ofile (me t) ! j else ofile (procs (k_pt t) ! np) ! j)"
      "length F = length (ftable (k_fs t))"
      "\<forall>g < length F. F ! g = (file_of (k_fs t) g)\<lparr>f_ref := f_ref (file_of (k_fs t) g) + int (count_list (map (\<lambda>i. ofile (me t) ! i) is) (Some g))\<rparr>"
      using Cons.IH [OF _ _ _ h] Cons.prems(1-3) me o by auto
    have e: "t\<lparr>k_fs := (k_fs t)\<lparr>ftable := F\<rparr>, k_pt := upd_proc np (\<lambda>p. p\<lparr>ofile := os\<rparr>) (k_pt t)\<rparr> =
        s\<lparr>k_fs := (k_fs s)\<lparr>ftable := F\<rparr>, k_pt := upd_proc np (\<lambda>p. p\<lparr>ofile := os\<rparr>) (k_pt s)\<rparr>"
      using Cons.prems(2) by (simp add: t_def upd_file_def upd_proc_def)
    show ?thesis
    proof (intro exI conjI)
      show "dup_files (i # is) np s = Ok (s\<lparr>k_fs := (k_fs s)\<lparr>ftable := F\<rparr>, k_pt := upd_proc np (\<lambda>p. p\<lparr>ofile := os\<rparr>) (k_pt s)\<rparr>)"
        using run r(1) e by simp
      show "length os = length (ofile (procs (k_pt s) ! np))" using r(2) o by simp
      then show "\<forall>j < length os. os ! j = (if j \<in> set (i # is) \<and> ofile (me s) ! j \<noteq> None then ofile (me s) ! j else ofile (procs (k_pt s) ! np) ! j)"
        using r(3) Some Cons.prems(3) unfolding me(1) o by (auto simp: nth_list_update)
      show l: "length F = length (ftable (k_fs s))" using r(4) ft(1) by simp
      show "\<forall>g < length F. F ! g = (file_of (k_fs s) g)\<lparr>f_ref := f_ref (file_of (k_fs s) g) + int (count_list (map (\<lambda>i. ofile (me s) ! i) (i # is)) (Some g))\<rparr>"
        using r(5) Some f(1) l ft(2) unfolding me(1) by auto
    qed
  qed
qed

section \<open>The child\<close>

text \<open>A state in which \<open>fork\<close> can make a child: a free slot \<open>np\<close>, open files with references, and \<open>xs\<close> the free
  pages, enough for the page tables, the frames and the stack of the child.\<close>

definition forkable :: "layout \<Rightarrow> 'a kern \<Rightarrow> u32 list \<Rightarrow> nat \<Rightarrow> bool" where
  "forkable l s xs np \<longleftrightarrow>
     find_unused 0 (procs (k_pt s)) = Some np \<and> c_int (nextpid (k_pt s) + 1) \<and> k_cur s < length (procs (k_pt s)) \<and> pstate (me s) \<noteq> UNUSED \<and>
     ofile (procs (k_pt s) ! np) = replicate 16 None \<and> length (ofile (me s)) = 16 \<and> cwd (me s) \<noteq> None \<and>
     (\<forall>f. Some f \<in> set (ofile (me s)) \<longrightarrow> f < length (ftable (k_fs s)) \<and> 1 \<le> f_ref (file_of (k_fs s) f)) \<and>
     wmap_inv (k_maps s) \<and> poolCounter (k_maps s) + fork_need (k_maps s) \<le> MAX_WMMAP_INFO \<and>
     kinv (l_end l) (k_ks s) xs \<and> pt_ok (l_end l) (kmem (k_ks s)) (p_pgdir (me s)) (set xs) \<and>
     KERNLINK < l_data l \<and> l_data l < P2V PHYSTOP \<and> page_aligned (l_data l) \<and> p_sz (me s) \<le> KERNBASE \<and>
     own_pages (kmem (k_ks s)) (p_pgdir (me s)) (p_sz (me s)) \<inter> set xs = {} \<and>
     (\<forall>va < p_sz (me s). \<exists>e. xlate (kmem (k_ks s)) (p_pgdir (me s)) va = Some e \<and> uint (P2V (PTE_ADDR e)) < 2 ^ 32 - 4096) \<and>
     1026 + pages_left (p_sz (me s)) 0 \<le> length xs"

definition child_of :: "'a kern \<Rightarrow> u32 \<Rightarrow> u32 \<Rightarrow> proc \<Rightarrow> proc" where
  "child_of s stk d p = p\<lparr>pid := nextpid (k_pt s), kstack := stk, p_context := stk + 3996, p_pgdir := d,
     p_sz := p_sz (me s), parent := Some (k_cur s), tf := (tf (me s))\<lparr>t_eax := 0\<rparr>, ofile := ofile (me s), cwd := cwd (me s),
     pname := name_copy (pname p) (pname (me s)), pstate := RUNNABLE\<rparr>"

lemma own_pages_frame:
  assumes ok: "pt_ok kend m pgdir F" and same: "\<And>x. PGROUNDDOWN x \<in> pt_pages m pgdir \<Longrightarrow> m' x = m x"
  shows "own_pages m' pgdir sz = own_pages m pgdir sz" "xlate m' pgdir b = xlate m pgdir b" "pt_ok kend m' pgdir F"
proof -
  show x: "xlate m' pgdir b = xlate m pgdir b" for b by (rule xlate_frame [OF ok]) (auto intro!: same simp: pt_pages_def)
  show "own_pages m' pgdir sz = own_pages m pgdir sz" unfolding own_pages_def x using ukva_frame(3) [OF ok same] by simp
  show "pt_ok kend m' pgdir F" by (rule ukva_frame(2) [OF ok same])
qed

lemma fork_run:
  assumes "forkable l s xs np" "forkHelper (k_maps s) = Ok (0, m)"
  shows "\<exists>stk ys k d k' F c. xs = stk # ys \<and> kinv (l_end l) k ys \<and> (\<forall>x. PGROUNDDOWN x \<noteq> stk \<longrightarrow> kmem k x = kmem (k_ks s) x) \<and>
    copyuvm (l_end l) (l_data l) (p_pgdir (me s)) (p_sz (me s)) k = Ok (d, k') \<and> d \<noteq> 0 \<and> cwd (me s) = Some c \<and>
    length F = length (ftable (k_fs s)) \<and>
    (\<forall>f < length F. F ! f = (file_of (k_fs s) f)\<lparr>f_ref := f_ref (file_of (k_fs s) f) + int (count_list (ofile (me s)) (Some f))\<rparr>) \<and>
    fork l s = Ok (nextpid (k_pt s), s\<lparr>k_ks := k',
      k_pt := (k_pt s)\<lparr>nextpid := nextpid (k_pt s) + 1, procs := (procs (k_pt s))[np := child_of s stk d (procs (k_pt s) ! np)]\<rparr>, k_fs := snd (idup c ((k_fs s)\<lparr>ftable := F\<rparr>)), k_maps := m\<rparr>)"
proof -
  note h = assms(1) [unfolded forkable_def] assms(2)
  let ?p = "procs (k_pt s) ! np"
  obtain stk ys where xs: "xs = stk # ys" using h by (cases xs) auto
  obtain c where c: "cwd (me s) = Some c" using h by auto
  have np: "np < length (procs (k_pt s))" "np \<noteq> k_cur s" using find_unused_Some [of 0 "procs (k_pt s)" np] h by auto
  define t1 where "t1 = (k_pt s)\<lparr>procs := (procs (k_pt s))[np := ?p\<lparr>pstate := EMBRYO, pid := nextpid (k_pt s), kstack := stk, tf := junk_tf, p_context := stk + 3996\<rparr>],
        nextpid := nextpid (k_pt s) + 1\<rparr>"
  obtain k where a: "allocproc (l_trapret l) (l_forkret l) (k_pt s, k_ks s) = Ok (Some np, t1, k)" "kinv (l_end l) k ys"
    "\<forall>x. PGROUNDDOWN x \<noteq> stk \<longrightarrow> kmem k x = kmem (k_ks s) x"
    unfolding t1_def using allocproc_spec [of "l_end l" "k_ks s" stk ys "k_pt s" np] h xs by blast
  have ok: "pt_ok (l_end l) (kmem (k_ks s)) (p_pgdir (me s)) (set ys)" by (rule pt_ok_subset [of _ _ _ "set xs"]) (use h xs in auto)
  have same: "kmem k x = kmem (k_ks s) x" if "PGROUNDDOWN x \<in> pt_pages (kmem (k_ks s)) (p_pgdir (me s))" for x
    using a(3) h xs that by (auto simp: own_pages_def)
  note fr = own_pages_frame [OF ok same]
  obtain d k' where d: "copyuvm (l_end l) (l_data l) (p_pgdir (me s)) (p_sz (me s)) k = Ok (d, k')" "d \<noteq> 0"
    using copyuvm_ok [OF a(2) fr(3), of "l_data l" "p_sz (me s)"] h xs fr(1,2) by auto
  define t2 where "t2 = upd_proc np (\<lambda>p. p\<lparr>p_pgdir := d, p_sz := p_sz (me s), parent := Some (k_cur s), tf := (tf (me s))\<lparr>t_eax := 0\<rparr>\<rparr>) t1"
  define s2 where "s2 = s\<lparr>k_pt := t2, k_ks := k'\<rparr>"
  have e2: "me s2 = me s" "k_cur s2 = k_cur s" "length (procs (k_pt s2)) = length (procs (k_pt s))" "k_fs s2 = k_fs s"
    "ofile (procs (k_pt s2) ! np) = replicate 16 None" "k_maps s2 = k_maps s"
    using np h by (simp_all add: s2_def t2_def t1_def upd_proc_def)
  have fl: "\<forall>i \<in> set [0..<16]. \<forall>f. ofile (me s2) ! i = Some f \<longrightarrow> f < length (ftable (k_fs s2)) \<and> 1 \<le> f_ref (file_of (k_fs s2) f)"
    using h e2(4) unfolding e2(1) by (metis atLeastLessThan_iff nth_mem set_upt)
  obtain os F where r: "dup_files [0..<16] np s2 = Ok (s2\<lparr>k_fs := (k_fs s2)\<lparr>ftable := F\<rparr>, k_pt := upd_proc np (\<lambda>p. p\<lparr>ofile := os\<rparr>) (k_pt s2)\<rparr>)"
    "length os = 16" "\<forall>i < length os. os ! i = (if i \<in> set [0..<16] \<and> ofile (me s2) ! i \<noteq> None then ofile (me s2) ! i else replicate 16 None ! i)"
    "length F = length (ftable (k_fs s2))"
    "\<forall>f < length F. F ! f = (file_of (k_fs s2) f)\<lparr>f_ref := f_ref (file_of (k_fs s2) f) + int (count_list (map (\<lambda>i. ofile (me s2) ! i) [0..<16]) (Some f))\<rparr>"
    using dup_files_ok [of np s2 "[0..<16]"] fl np e2(2,3,5) by (auto simp del: upt_rec_numeral)
  have os: "os = ofile (me s)" using r(2,3) h e2(1) by (intro nth_equalityI) (auto simp del: upt_rec_numeral)
  have mp: "map (\<lambda>i. ofile (me s2) ! i) [0..<16] = ofile (me s)" using h e2(1) by (metis map_nth)
  define I where "I = [0..<16 :: nat]"
  have "fork l s = Ok (nextpid (k_pt s), s\<lparr>k_ks := k',
      k_pt := (k_pt s)\<lparr>nextpid := nextpid (k_pt s) + 1, procs := (procs (k_pt s))[np := child_of s stk d ?p]\<rparr>, k_fs := snd (idup c ((k_fs s)\<lparr>ftable := F\<rparr>)), k_maps := m\<rparr>)"
    unfolding fork_def I_def [symmetric]
    using a(1) d r(1) [folded I_def] np h c
    by (simp add: t2_def [symmetric] s2_def [symmetric] e2) (simp add: s2_def t2_def t1_def upd_proc_def idup_def child_of_def os)
  then show ?thesis using xs a(2,3) d c r(4,5) e2(4) mp by (intro exI [of _ stk] exI [of _ ys] exI [of _ k] exI [of _ d] exI [of _ k'] exI [of _ F] exI [of _ c]) simp
qed

lemma PTE_ADDR_aligned: "page_aligned (PTE_ADDR e)"
  by (simp add: PTE_ADDR_eq)

lemma frame_offset: "PGROUNDDOWN (P2V (PTE_ADDR e) + (b - PGROUNDDOWN b)) = P2V (PTE_ADDR e)"
  by (rule page_offset [OF P2V_aligned [OF PTE_ADDR_aligned] page_rest])

text \<open>What \<open>copyuvm\<close> copied is what the process had before its child got a kernel stack.\<close>

lemma copied_before:
  assumes ok: "pt_ok kend m0 pgdir F" and same: "\<And>x. PGROUNDDOWN x \<in> own_pages m0 pgdir sz \<Longrightarrow> m1 x = m0 x"
    and cp: "\<forall>va < sz. page_copied m1 pgdir m d (own_pages m1 pgdir sz \<union> B) va"
  shows "\<forall>va < sz. page_copied m0 pgdir m d (own_pages m0 pgdir sz \<union> B) va" "own_pages m1 pgdir sz = own_pages m0 pgdir sz"
proof -
  note fr = own_pages_frame [OF ok same, unfolded own_pages_def, simplified, folded own_pages_def]
  show o: "own_pages m1 pgdir sz = own_pages m0 pgdir sz" by (rule fr(1))
  show "\<forall>va < sz. page_copied m0 pgdir m d (own_pages m0 pgdir sz \<union> B) va"
  proof (intro allI impI)
    fix va assume va: "va < sz"
    then obtain e e' where e: "xlate m0 pgdir va = Some e" "xlate m d va = Some e'" "PTE_FLAGS e' = PTE_FLAGS e"
      "page_aligned (P2V (PTE_ADDR e'))" "P2V (PTE_ADDR e') \<notin> own_pages m0 pgdir sz \<union> B"
      "\<forall>k < PGSIZE. m (P2V (PTE_ADDR e') + k) = m1 (P2V (PTE_ADDR e) + k)" using cp fr(2) o by (auto simp: page_copied_def)
    have "P2V (PTE_ADDR e) \<in> own_pages m0 pgdir sz" using e(1) va by (auto simp: own_pages_def)
    then have "m1 (P2V (PTE_ADDR e) + k) = m0 (P2V (PTE_ADDR e) + k)" if "k < PGSIZE" for k
      using same page_offset [OF P2V_aligned [OF PTE_ADDR_aligned] that] by simp
    then show "page_copied m0 pgdir m d (own_pages m0 pgdir sz \<union> B) va" using e by (simp add: page_copied_def)
  qed
qed

lemma kaddr_False: "kaddr False va s = map_option (\<lambda>e. P2V (PTE_ADDR e) + (va - PGROUNDDOWN va)) (xlate (kmem (k_ks s)) (p_pgdir (me s)) va)"
  by (simp add: kaddr_def split: option.splits)

lemma fork_memory:
  assumes own: "own_pages m0 pgdir sz \<inter> (set ys \<union> pt_pages m d) = {}"
    and cp: "\<forall>va < sz. page_copied m0 pgdir m d (own_pages m0 pgdir sz \<union> B) va"
    and keep: "\<forall>x. PGROUNDDOWN x \<in> own_pages m0 pgdir sz \<longrightarrow> m x = m0 x" and ok: "pt_ok kend m0 pgdir F"
    and s: "kmem (k_ks s) = m0" "p_pgdir (me s) = pgdir" and p: "kmem (k_ks p) = m" "p_pgdir (me p) = pgdir"
    and c: "kmem (k_ks c) = m" "p_pgdir (me c) = d" and va: "va < sz"
  shows "kaddr False va s \<noteq> None" "umem_of p va = umem_of s va" "umem_of c va = umem_of s va"
    "vb < sz \<Longrightarrow> kaddr False va c \<noteq> kaddr False vb p"
proof -
  obtain e e' where e: "xlate m0 pgdir va = Some e" "xlate m d va = Some e'" "P2V (PTE_ADDR e') \<notin> own_pages m0 pgdir sz"
    "\<forall>k < PGSIZE. m (P2V (PTE_ADDR e') + k) = m0 (P2V (PTE_ADDR e) + k)" using cp va by (auto simp: page_copied_def)
  have x: "xlate m pgdir b = xlate m0 pgdir b" for b
    by (rule own_pages_frame(2) [OF ok]) (use keep in \<open>auto simp: own_pages_def\<close>)
  have "P2V (PTE_ADDR e) \<in> own_pages m0 pgdir sz" using e(1) va by (auto simp: own_pages_def)
  then have k: "m (P2V (PTE_ADDR e) + (va - PGROUNDDOWN va)) = m0 (P2V (PTE_ADDR e) + (va - PGROUNDDOWN va))" using keep frame_offset by simp
  show "kaddr False va s \<noteq> None" "umem_of p va = umem_of s va" "umem_of c va = umem_of s va"
    using e k page_rest by (simp_all add: umem_of_def kaddr_False s p c x)
  show "kaddr False va c \<noteq> kaddr False vb p" if vb: "vb < sz"
  proof
    assume eq: "kaddr False va c = kaddr False vb p"
    then obtain q where q: "xlate m0 pgdir vb = Some q"
      "P2V (PTE_ADDR e') + (va - PGROUNDDOWN va) = P2V (PTE_ADDR q) + (vb - PGROUNDDOWN vb)"
      using e(2) by (cases "xlate m0 pgdir vb") (auto simp: kaddr_False p c x)
    have "P2V (PTE_ADDR e') = P2V (PTE_ADDR q)" using frame_offset [of e' va] frame_offset [of q vb] q(2) by simp
    moreover have "P2V (PTE_ADDR q) \<in> own_pages m0 pgdir sz" using q(1) vb by (auto simp: own_pages_def)
    ultimately show False using e(3) by simp
  qed
qed

text \<open>
  C5. Suppose that \<open>fork\<close> has all that it needs: a free slot with no open files and a pid that does not overflow; a parent in use with
  sixteen descriptors, a current directory, open files with references, a size up to the start of the kernel and a page
  (not the last of the address space) for every address below it; a sound page directory whose pages and frames are not
  on the sound free list, page-aligned kernel data between the link address and the end of physical memory, and \<open>1026\<close> free pages besides one for each page of the parent; and a mapping table that is set up, with as
  many pool nodes left as there are mappings and non-empty buckets, because \<open>forkHelper\<close> inserts every mapping again.
  Then \<open>fork\<close> returns the new pid. The child is runnable, has the size, the trap frame (with 0 for its own return value), the
  open files and the directory of its parent, every open file counts one more reference per descriptor, no other
  process changes, the table stays well-formed with the same addresses mapped, and below the size both read what the
  parent read before, through bytes of memory that they never share.
\<close>

theorem fork_child:
  assumes "forkable l s xs np"
  shows "\<exists>s'. fork l s = Ok (nextpid (k_pt s), s') \<and> wmap_inv (k_maps s') \<and> (\<forall>x. mapped (k_maps s') x \<longleftrightarrow> mapped (k_maps s) x) \<and> k_cur s' = k_cur s \<and>
    pstate (procs (k_pt s') ! np) = RUNNABLE \<and> pid (procs (k_pt s') ! np) = nextpid (k_pt s) \<and>
    parent (procs (k_pt s') ! np) = Some (k_cur s) \<and> p_sz (procs (k_pt s') ! np) = p_sz (me s) \<and>
    tf (procs (k_pt s') ! np) = (tf (me s))\<lparr>t_eax := 0\<rparr> \<and>
    ofile (procs (k_pt s') ! np) = ofile (me s) \<and> cwd (procs (k_pt s') ! np) = cwd (me s) \<and>
    (\<forall>i. i \<noteq> np \<longrightarrow> procs (k_pt s') ! i = procs (k_pt s) ! i) \<and> nextpid (k_pt s') = nextpid (k_pt s) + 1 \<and>
    (\<forall>f < length (ftable (k_fs s)). file_of (k_fs s') f =
       (file_of (k_fs s) f)\<lparr>f_ref := f_ref (file_of (k_fs s) f) + int (count_list (ofile (me s)) (Some f))\<rparr>) \<and>
    icache (k_fs s') = icache (snd (idup (the (cwd (me s))) (k_fs s))) \<and>
    (\<forall>va < p_sz (me s). umem_of s va \<noteq> None \<and> umem_of s' va = umem_of s va \<and> umem_of (s'\<lparr>k_cur := np\<rparr>) va = umem_of s va \<and>
       (\<forall>vb < p_sz (me s). kaddr False va (s'\<lparr>k_cur := np\<rparr>) \<noteq> kaddr False vb s'))"
proof -
  note h = assms [unfolded forkable_def]
  obtain m where m: "forkHelper (k_maps s) = Ok (0, m)" "wmap_inv m" "\<And>x. mapped m x \<longleftrightarrow> mapped (k_maps s) x"
    using forkHelper_ok [of "k_maps s"] h by metis
  obtain stk ys k d k' F c where r: "xs = stk # ys" "kinv (l_end l) k ys" "\<forall>x. PGROUNDDOWN x \<noteq> stk \<longrightarrow> kmem k x = kmem (k_ks s) x"
    "copyuvm (l_end l) (l_data l) (p_pgdir (me s)) (p_sz (me s)) k = Ok (d, k')" "d \<noteq> 0" "cwd (me s) = Some c"
    "length F = length (ftable (k_fs s))"
    "\<forall>f < length F. F ! f = (file_of (k_fs s) f)\<lparr>f_ref := f_ref (file_of (k_fs s) f) + int (count_list (ofile (me s)) (Some f))\<rparr>"
    "fork l s = Ok (nextpid (k_pt s), s\<lparr>k_ks := k',
      k_pt := (k_pt s)\<lparr>nextpid := nextpid (k_pt s) + 1, procs := (procs (k_pt s))[np := child_of s stk d (procs (k_pt s) ! np)]\<rparr>,
      k_fs := snd (idup c ((k_fs s)\<lparr>ftable := F\<rparr>)), k_maps := m\<rparr>)"
    using fork_run [OF assms m(1)] by blast
  define s' where "s' = s\<lparr>k_ks := k',
      k_pt := (k_pt s)\<lparr>nextpid := nextpid (k_pt s) + 1, procs := (procs (k_pt s))[np := child_of s stk d (procs (k_pt s) ! np)]\<rparr>,
      k_fs := snd (idup c ((k_fs s)\<lparr>ftable := F\<rparr>)), k_maps := m\<rparr>"
  have np: "np < length (procs (k_pt s))" "np \<noteq> k_cur s" using find_unused_Some [of 0 "procs (k_pt s)" np] h by auto
  have ok: "pt_ok (l_end l) (kmem (k_ks s)) (p_pgdir (me s)) (set ys)" by (rule pt_ok_subset [of _ _ _ "set xs"]) (use h r(1) in auto)
  let ?O = "own_pages (kmem (k_ks s)) (p_pgdir (me s)) (p_sz (me s))"
  have same: "kmem k x = kmem (k_ks s) x" if "PGROUNDDOWN x \<in> ?O" for x using r(1,3) h that by auto
  note fr = own_pages_frame [OF ok same, unfolded own_pages_def, simplified, folded own_pages_def]
  obtain zs where z: "own_pages (kmem k) (p_pgdir (me s)) (p_sz (me s)) \<inter> (set zs \<union> pt_pages (kmem k') d) = {}"
    "\<forall>va < p_sz (me s). page_copied (kmem k) (p_pgdir (me s)) (kmem k') d
       (own_pages (kmem k) (p_pgdir (me s)) (p_sz (me s)) \<union> (set zs \<union> pt_pages (kmem k') d)) va"
    "\<forall>x. PGROUNDDOWN x \<in> own_pages (kmem k) (p_pgdir (me s)) (p_sz (me s)) \<longrightarrow> kmem k' x = kmem k x"
    using copyuvm_spec [OF r(2) fr(3), of "l_data l" "p_sz (me s)" d k'] h r(1,4,5) fr(1,2) by (auto simp: Un_assoc)
  note cb = copied_before [OF ok _ z(2), simplified, OF same, simplified]
  have keep: "\<forall>x. PGROUNDDOWN x \<in> ?O \<longrightarrow> kmem k' x = kmem (k_ks s) x" using z(3) same unfolding cb(2) by simp
  have st: "kmem (k_ks s') = kmem k'" "me s' = me s" "kmem (k_ks (s'\<lparr>k_cur := np\<rparr>)) = kmem k'" "p_pgdir (me (s'\<lparr>k_cur := np\<rparr>)) = d"
    using np by (simp_all add: s'_def child_of_def)
  note mem = fork_memory [OF z(1) [unfolded cb(2)] cb(1) keep ok refl refl st(1) arg_cong [OF st(2), of p_pgdir] st(3,4)]
  have "file_of (k_fs s') f = F ! f" "icache (k_fs s') = icache (snd (idup c (k_fs s)))" for f
    by (simp_all add: s'_def idup_def upd_inode_def)
  moreover have "procs (k_pt s') ! np = child_of s stk d (procs (k_pt s) ! np)" "\<forall>i. i \<noteq> np \<longrightarrow> procs (k_pt s') ! i = procs (k_pt s) ! i"
    "nextpid (k_pt s') = nextpid (k_pt s) + 1" "k_maps s' = m" "k_cur s' = k_cur s" using np by (simp_all add: s'_def)
  ultimately show ?thesis using r(6,7,8) r(9) [folded s'_def] mem
    by (intro exI [of _ s'] conjI) (simp_all add: child_of_def umem_of_def m(2,3))
qed

section \<open>A process with one page\<close>

definition demo_paged :: kst where
  "demo_paged = kst0\<lparr>kmem := st32 (st32 (\<lambda>_. 0) 0x80300000 0x301007) 0x80301000 0x302007\<rparr>"

definition demo_parent :: "kst \<Rightarrow> unit kern" where
  "demo_parent k = demo_kern\<lparr>k_maps := demo_maps1, k_ks := k,
     k_pt := \<lparr>procs = [demo_proc\<lparr>p_sz := 4096, ofile := (replicate 16 None)[1 := Some 0, 2 := Some 0], cwd := Some 0\<rparr>,
       demo_proc\<lparr>pstate := UNUSED\<rparr>], nextpid = 2, initproc = None\<rparr>\<rparr>"

lemma demo_pde: "i < 1024 \<Longrightarrow> pde_of (kmem demo_paged) 0x80300000 i = (if i = 0 then 0x301007 else 0)"
proof -
  assume i: "i < 1024"
  have al: "aligned4 (0x80300000 + 4 * i)" using entry_aligned [OF _ i, of "0x80300000"] by (simp add: page_aligned_def)
  have "PGROUNDDOWN (0x80300000 + 4 * i) = 0x80300000"
    using page_offset [of "0x80300000" "4 * i"] entry_offset [OF i] by (simp add: page_aligned_def word_le_def word_less_def)
  then have n: "0x80301000 \<noteq> 0x80300000 + 4 * i" by (auto simp: PGROUNDDOWN_def)
  have z: "ld32 (\<lambda>_. 0) a = 0" for a by (rule ld32_zero) simp
  have "4 * i = 0 \<longleftrightarrow> i = 0" using i by (simp add: uint_times4 word_uint_eq_iff word_less_def)
  then show ?thesis using al n z by (simp add: pde_of_def demo_paged_def aligned4_def)
qed

lemma demo_tab: "tab_of (kmem demo_paged) 0x80300000 0 = 0x80301000" "pt_pages (kmem demo_paged) 0x80300000 = {0x80300000, 0x80301000}"
proof -
  show t: "tab_of (kmem demo_paged) 0x80300000 0 = 0x80301000"
    using demo_pde [of 0] by (simp add: tab_of_def P2V_def PTE_ADDR_def)
  show "pt_pages (kmem demo_paged) 0x80300000 = {0x80300000, 0x80301000}"
    using t demo_pde by (auto simp: pt_pages_def present_def split: if_splits intro!: exI [of _ "0 :: u32"])
qed

lemma demo_xlate: "va < 4096 \<Longrightarrow> xlate (kmem demo_paged) 0x80300000 va = Some 0x302007"
proof -
  assume "va < 4096"
  then have "PGROUNDDOWN va = PGROUNDDOWN 0" using page_offset [of 0 va] by (simp add: page_aligned_def)
  then have "PDX va = 0" "PTX va = 0" using page_index [of va 0] by (simp_all add: PDX_def PTX_def)
  then show ?thesis using demo_pde [of 0] demo_tab(1) by (simp add: xlate_def present_def demo_paged_def)
qed

definition demo_pages :: "u32 list" where
  "demo_pages = rev (pages_from 0x80400000 1200)"

lemma demo_offset: "i < 1200 \<Longrightarrow> uint (of_nat i * 4096 :: u32) = int i * 4096"
  by (simp add: uint_word_ariths unsigned_of_nat take_bit_eq_mod)

lemma demo_page: "x \<in> set demo_pages \<Longrightarrow> page_aligned x \<and> 0x80400000 \<le> x \<and> x < 0x808B0000"
proof -
  assume "x \<in> set demo_pages"
  then obtain i where i: "i < 1200" "x = 0x80400000 + of_nat i * 4096" by (auto simp: demo_pages_def pages_from_def)
  have "uint x = 0x80400000 + int i * 4096" using i demo_offset [OF i(1)] by (simp add: uint_plus_if')
  then show ?thesis using i(1) by (simp add: page_aligned_uint word_le_def word_less_def dvd_add)
qed

lemma demo_pages_distinct: "distinct demo_pages" "length demo_pages = 1200"
proof -
  have "inj_on (\<lambda>i. 0x80400000 + of_nat i * 4096 :: u32) {0..<1200}"
  proof (rule inj_onI)
    fix i j :: nat assume h: "i \<in> {0..<1200}" "j \<in> {0..<1200}" "(0x80400000 + of_nat i * 4096 :: u32) = 0x80400000 + of_nat j * 4096"
    then have "(of_nat i * 4096 :: u32) = of_nat j * 4096" by (simp only: add_left_cancel)
    then have "int i * 4096 = int j * 4096" using demo_offset [of i] demo_offset [of j] h(1,2) by (simp only: atLeastLessThan_iff)
    then show "i = j" by simp
  qed
  then show "distinct demo_pages" by (simp add: demo_pages_def pages_from_def distinct_map del: upt_rec_numeral)
  show "length demo_pages = 1200" by (simp add: demo_pages_def pages_from_def)
qed

lemma demo_freed: "\<exists>k. freerange 0x80108000 0x80400000 0x808B0000 demo_paged = Ok k \<and> kinv 0x80108000 k demo_pages \<and>
    (\<forall>x. PGROUNDDOWN x \<notin> set demo_pages \<longrightarrow> kmem k x = kmem demo_paged x)"
proof -
  have "kinv 0x80108000 demo_paged []" by (simp add: kinv_def demo_paged_def kst0_def)
  moreover have "page_ok 0x80108000 x" if "x \<in> set demo_pages" for x
    using demo_page [OF that] by (auto simp: page_ok_def V2P_def word_le_def word_less_def uint_word_ariths)
  ultimately show ?thesis
    using freerange_loop_pages [of "0x80108000" demo_paged "[]" "0x80400000" 1200 "0x808B0000"] demo_pages_distinct(1)
    by (simp add: freerange_def PGROUNDUP_def demo_pages_def)
qed

lemma demo_forkable:
  assumes k: "kinv 0x80108000 k demo_pages" "\<forall>x. PGROUNDDOWN x \<notin> set demo_pages \<longrightarrow> kmem k x = kmem demo_paged x"
  shows "forkable demo_layout (demo_parent k) demo_pages 1"
proof -
  have n: "x \<notin> set demo_pages" if "x < 0x80400000" for x using demo_page [of x] that by (auto simp: word_le_def word_less_def)
  have ok0: "pt_ok 0x80108000 (kmem demo_paged) 0x80300000 (set demo_pages)"
    by (rule pt_okI) (auto simp: demo_pde demo_tab page_ok_def page_aligned_def V2P_def n present_def split: if_splits)
  have same: "kmem k x = kmem demo_paged x" if "PGROUNDDOWN x \<in> pt_pages (kmem demo_paged) 0x80300000" for x
    using k(2) n that by (auto simp: demo_tab)
  note fr = own_pages_frame [OF ok0 same, simplified]
  have "{P2V (PTE_ADDR e) |va e. va < 4096 \<and> xlate (kmem demo_paged) 0x80300000 va = Some e} = {P2V (PTE_ADDR 0x302007)}"
    using demo_xlate [of 0] by (auto simp: demo_xlate intro: exI [of _ "0 :: u32"])
  then have o: "own_pages (kmem k) 0x80300000 4096 = {0x80300000, 0x80301000, 0x80302000}"
    unfolding fr(1) by (auto simp: own_pages_def demo_tab P2V_def PTE_ADDR_def)
  have "demo_maps1 = wmap_demo" by (simp add: demo_maps1_def wmap_demo_def)
  then have m: "wmap_inv demo_maps1" "poolCounter demo_maps1 + fork_need demo_maps1 \<le> MAX_WMMAP_INFO"
    using demo_added demo_start(2) demo_need by (simp_all add: region_added_def)
  have x: "\<forall>va < 4096. \<exists>e. xlate (kmem k) 0x80300000 va = Some e \<and> uint (P2V (PTE_ADDR e)) < 2 ^ 32 - 4096"
    unfolding fr(2) by (simp add: demo_xlate P2V_def PTE_ADDR_def)
  have l: "1026 + pages_left 4096 0 \<le> length demo_pages" by (simp add: demo_pages_distinct pages_left_def)
  have f: "\<forall>f. Some f \<in> set ((replicate 16 None)[1 := Some 0, 2 := Some 0]) \<longrightarrow> f < length (ftable demo_file) \<and> 1 \<le> f_ref (file_of demo_file f)"
    using demo_file_idle by (simp add: demo_boot_def eval_nat_numeral)
  have d: "own_pages (kmem k) 0x80300000 4096 \<inter> set demo_pages = {}" unfolding o by (simp add: n)
  show ?thesis
    unfolding forkable_def
    using k(1) fr(3) d x l f m
    by (simp add: demo_parent_def demo_kern_def demo_proc_def demo_layout_def c_int_def page_aligned_def P2V_def)
qed

theorem fork_child_witness:
  "\<exists>k s'. freerange 0x80108000 0x80400000 0x808B0000 demo_paged = Ok k \<and> fork demo_layout (demo_parent k) = Ok (2, s') \<and>
    parent (procs (k_pt s') ! 1) = Some 0 \<and> f_ref (file_of (k_fs s') 0) = 3 \<and> umem_of (s'\<lparr>k_cur := 1\<rparr>) 0x10 = umem_of s' 0x10 \<and>
    umem_of s' 0x10 \<noteq> None \<and> kaddr False 0x10 (s'\<lparr>k_cur := 1\<rparr>) \<noteq> kaddr False 0x10 s'"
proof -
  obtain k where k: "freerange 0x80108000 0x80400000 0x808B0000 demo_paged = Ok k" "kinv 0x80108000 k demo_pages"
    "\<forall>x. PGROUNDDOWN x \<notin> set demo_pages \<longrightarrow> kmem k x = kmem demo_paged x" using demo_freed by blast
  have d: "p_sz (me (demo_parent k)) = 4096" "ofile (me (demo_parent k)) = (replicate 16 None)[1 := Some 0, 2 := Some 0]"
    "k_fs (demo_parent k) = demo_file" "nextpid (k_pt (demo_parent k)) = 2"
    by (simp_all add: demo_parent_def demo_kern_def)
  have d0: "k_cur (demo_parent k) = 0" by (simp add: demo_parent_def demo_kern_def)
  have f: "length (ftable demo_file) = 1" "f_ref (file_of demo_file 0) = 1" using demo_file_idle by (simp_all add: demo_boot_def)
  have c: "count_list ((replicate 16 None)[1 := Some 0, 2 := Some 0]) (Some (0 :: nat)) = 2" by (simp add: eval_nat_numeral)
  obtain s' where s: "fork demo_layout (demo_parent k) = Ok (2, s')" "parent (procs (k_pt s') ! 1) = Some (k_cur (demo_parent k))"
    "\<forall>f < length (ftable demo_file). file_of (k_fs s') f = (file_of demo_file f)\<lparr>f_ref := f_ref (file_of demo_file f) +
       int (count_list ((replicate 16 None)[1 := Some 0, 2 := Some 0]) (Some f))\<rparr>"
    "\<forall>va < 4096. umem_of (demo_parent k) va \<noteq> None \<and> umem_of s' va = umem_of (demo_parent k) va \<and>
       umem_of (s'\<lparr>k_cur := 1\<rparr>) va = umem_of (demo_parent k) va \<and> (\<forall>vb < 4096. kaddr False va (s'\<lparr>k_cur := 1\<rparr>) \<noteq> kaddr False vb s')"
    using fork_child [OF demo_forkable [OF k(2,3)]] unfolding d by blast
  have "f_ref (file_of (k_fs s') 0) = 3" using s(3) [rule_format, of 0] f c by simp
  then show ?thesis using k(1) s(1,2) d0 s(4) [rule_format, of "0x10"] by (intro exI [of _ k] exI [of _ s']) simp
qed

end
