(* ===== verification/KernInfo.thy ===== *)
theory KernInfo
  imports KernFork
begin

text \<open>
  \<open>getpgdirinfo\<close> (sysproc.c) lists the pages that the process can reach: in increasing order, each once, with
  their frames, as far as the structure has room.
\<close>

definition user_mapped :: "mem \<Rightarrow> u32 \<Rightarrow> u32 \<Rightarrow> u32 \<Rightarrow> bool" where
  "user_mapped m pgdir va e \<longleftrightarrow> xlate m pgdir va = Some e \<and> pde_of m pgdir (PDX va) AND PTE_U \<noteq> 0 \<and> e AND PTE_U \<noteq> 0"

definition at :: "nat \<Rightarrow> nat \<Rightarrow> u32" where
  "at i j = of_nat i * PGSIZE * 1024 + of_nat j * PGSIZE"

definition tab_list :: "mem \<Rightarrow> u32 \<Rightarrow> nat \<Rightarrow> nat list \<Rightarrow> (u32 \<times> u32) list" where
  "tab_list m pgtab i js = map (\<lambda>j. (at i j, PTE_ADDR (ld32 m (pgtab + 4 * of_nat j)))) (filter (\<lambda>j. user_entry (ld32 m (pgtab + 4 * of_nat j))) js)"

definition dir_list :: "mem \<Rightarrow> u32 \<Rightarrow> nat list \<Rightarrow> (u32 \<times> u32) list" where
  "dir_list m pgdir is = concat (map (\<lambda>i. let d = pde_of m pgdir (of_nat i) in
     if user_entry d then tab_list m (P2V (PTE_ADDR d)) i [0..<1024] else []) is)"

text \<open>What the structure holds after the pages \<open>L\<close>.\<close>

definition noted :: "pgdirinfo \<Rightarrow> (u32 \<times> u32) list \<Rightarrow> u32 \<times> pgdirinfo" where
  "noted w L = (of_nat (length L), w\<lparr>pi_va := map fst (take 32 L) @ drop (length L) (pi_va w), pi_pa := map snd (take 32 L) @ drop (length L) (pi_pa w)\<rparr>)"

lemma append_update: "length xs < length ys \<Longrightarrow> (xs @ drop (length xs) ys)[length xs := v] = xs @ v # drop (Suc (length xs)) ys"
  by (simp add: list_update_append Cons_nth_drop_Suc [symmetric])

lemma note_page_noted:
  assumes w: "length (pi_va w) = 32" "length (pi_pa w) = 32" and L: "length L < 2 ^ 32"
  shows "note_page va pa (noted w L) = noted w (L @ [(va, pa)])"
proof (cases "length L < 32")
  case True
  then have u: "unat (of_nat (length L) :: u32) = length L" "(of_nat (length L) :: u32) < 32"
    using L by (simp_all add: unat_of_nat word_less_nat_alt)
  have "(map f L @ drop (length L) (ys :: u32 list))[length L := v] = map f L @ v # drop (Suc (length L)) ys" if "length ys = 32" for f ys v
    using append_update [of "map f L" ys v] that True by simp
  then show ?thesis using u w True by (simp add: note_page_def noted_def)
next
  case False
  then have "\<not> (of_nat (length L) :: u32) < 32" using L by (simp add: unat_of_nat word_less_nat_alt)
  then show ?thesis using False w by (simp add: note_page_def noted_def)
qed

lemma table_pages_noted:
  assumes w: "length (pi_va w) = 32" "length (pi_pa w) = 32"
  shows "length L + length js \<le> 2 ^ 32 \<Longrightarrow> table_pages js m pgtab (of_nat i) (noted w L) = noted w (L @ tab_list m pgtab i js)"
proof (induction js arbitrary: L)
  case (Cons j js)
  let ?e = "ld32 m (pgtab + 4 * of_nat j)"
  show ?case
  proof (cases "user_entry ?e")
    case True
    then have "table_pages (j # js) m pgtab (of_nat i) (noted w L) = table_pages js m pgtab (of_nat i) (noted w (L @ [(at i j, PTE_ADDR ?e)]))"
      using Cons.prems by (simp add: note_page_noted [OF w] at_def)
    then show ?thesis using Cons.IH [of "L @ [(at i j, PTE_ADDR ?e)]"] Cons.prems True by (simp add: tab_list_def)
  qed (use Cons in \<open>simp add: tab_list_def\<close>)
qed (simp add: tab_list_def)

lemma tab_list_length: "length (tab_list m pgtab i js) \<le> length js"
  by (simp add: tab_list_def)

lemma dir_pages_noted:
  assumes w: "length (pi_va w) = 32" "length (pi_pa w) = 32"
  shows "length L + length is * 1024 \<le> 2 ^ 32 \<Longrightarrow> dir_pages is m pgdir (noted w L) = noted w (L @ dir_list m pgdir is)"
proof (induction "is" arbitrary: L)
  case (Cons i js)
  define d where "d = pde_of m pgdir (of_nat i)"
  define I where "I = [0..<1024 :: nat]"
  define T where "T = (if user_entry d then tab_list m (P2V (PTE_ADDR d)) i I else [])"
  have I: "length I = 1024" by (simp add: I_def)
  have T: "length T \<le> 1024" using tab_list_length [of m "P2V (PTE_ADDR d)" i I] I by (simp add: T_def)
  have "dir_pages (i # js) m pgdir (noted w L) = dir_pages js m pgdir (noted w (L @ T))"
    using Cons.prems I table_pages_noted [OF w, of L I m "P2V (PTE_ADDR d)" i]
    by (simp add: T_def d_def pde_of_def I_def [symmetric] Let_def)
  also have "\<dots> = noted w (L @ dir_list m pgdir (i # js))"
    using Cons.IH [of "L @ T"] Cons.prems T by (simp add: dir_list_def T_def d_def I_def [symmetric] Let_def)
  finally show ?case .
qed (simp add: dir_list_def)

section \<open>The pages\<close>

lemma uint_PDX: "uint (PDX va) = uint va div 2 ^ 22 mod 1024" and uint_PTX: "uint (PTX va) = uint va div 2 ^ 12 mod 1024"
proof -
  have m: "x AND 0x3FF = take_bit 10 x" for x :: u32 by (simp add: take_bit_eq_mask mask_eq_exp_minus_1)
  show "uint (PDX va) = uint va div 2 ^ 22 mod 1024" "uint (PTX va) = uint va div 2 ^ 12 mod 1024"
    by (simp_all add: PDX_def PTX_def m take_bit_eq_mod drop_bit_eq_div uint_div_distrib uint_mod_distrib)
qed

lemma uint_at: "i < 1024 \<Longrightarrow> j < 1024 \<Longrightarrow> uint (at i j) = int i * 2 ^ 22 + int j * 2 ^ 12"
proof -
  assume h: "i < 1024" "j < 1024"
  have "uint (of_nat i * PGSIZE * 1024 :: u32) = int i * 2 ^ 22" "uint (of_nat j * PGSIZE :: u32) = int j * 2 ^ 12"
    using h by (simp_all add: uint_word_ariths unsigned_of_nat take_bit_eq_mod)
  then show ?thesis using h by (simp add: at_def uint_plus_if')
qed

lemma at_index: "i < 1024 \<Longrightarrow> j < 1024 \<Longrightarrow> PDX (at i j) = of_nat i \<and> PTX (at i j) = of_nat j \<and> page_aligned (at i j)"
proof -
  assume h: "i < 1024" "j < 1024"
  have n: "uint (of_nat k :: u32) = int k" if "k < 1024" for k using that by (simp add: unsigned_of_nat take_bit_eq_mod)
  have "(int i * 2 ^ 22 + int j * 2 ^ 12) div 2 ^ 22 = int i" "(int i * 2 ^ 22 + int j * 2 ^ 12) div 2 ^ 12 = int i * 1024 + int j"
    using h by auto
  then show ?thesis using h by (simp add: word_uint_eq_iff [of "PDX _"] word_uint_eq_iff [of "PTX _"] uint_PDX uint_PTX uint_at n page_aligned_uint)
qed

lemma at_less: "i < 1024 \<Longrightarrow> j < 1024 \<Longrightarrow> i' < 1024 \<Longrightarrow> j' < 1024 \<Longrightarrow> i < i' \<or> i = i' \<and> j < j' \<Longrightarrow> at i j < at i' j'"
  by (auto simp: word_less_def uint_at)

lemma dir_list_Cons: "dir_list m pgdir (i # is) = (let d = pde_of m pgdir (of_nat i) in
     if user_entry d then tab_list m (P2V (PTE_ADDR d)) i [0..<1024] else []) @ dir_list m pgdir is"
  by (simp add: dir_list_def del: upt_rec_numeral)

lemma tab_list_fst: "set (map fst (tab_list m t i js)) \<subseteq> at i ` set js"
  by (auto simp: tab_list_def)

lemma dir_list_fst: "set (map fst (dir_list m pgdir is)) \<subseteq> {at i j |i j. i \<in> set is \<and> j < 1024}"
  by (auto simp: dir_list_def tab_list_def Let_def split: if_splits simp del: upt_rec_numeral) blast+

lemma tab_list_sorted: "i < 1024 \<Longrightarrow> sorted_wrt (<) js \<Longrightarrow> \<forall>j\<in>set js. j < 1024 \<Longrightarrow> sorted_wrt (<) (map fst (tab_list m t i js))"
  by (induction js) (auto simp: tab_list_def at_less)

lemma dir_list_sorted: "sorted_wrt (<) is \<Longrightarrow> \<forall>i\<in>set is. i < 1024 \<Longrightarrow> sorted_wrt (<) (map fst (dir_list m pgdir is))"
proof (induction "is")
  case (Cons i js)
  define I where "I = [0..<1024 :: nat]"
  have "sorted_wrt (<) (map fst (tab_list m t i I))" for t by (rule tab_list_sorted) (use Cons.prems in \<open>auto simp: I_def\<close>)
  moreover have "a < b" if a: "a \<in> set (map fst (tab_list m t i I))" and b: "b \<in> set (map fst (dir_list m pgdir js))" for t a b
  proof -
    have "a \<in> at i ` set I" using tab_list_fst [of m t i I] a by blast
    moreover obtain i' j' where "b = at i' j'" "i' \<in> set js" "j' < 1024" using dir_list_fst [of m pgdir js] b by blast
    ultimately show ?thesis using Cons.prems by (auto simp: I_def intro: at_less)
  qed
  moreover define T where "T = (let d = pde_of m pgdir (of_nat i) in if user_entry d then tab_list m (P2V (PTE_ADDR d)) i I else [])"
  ultimately have "sorted_wrt (<) (map fst T) \<and> (\<forall>a\<in>set (map fst T). \<forall>b\<in>set (map fst (dir_list m pgdir js)). a < b)"
    unfolding T_def Let_def by (cases "user_entry (pde_of m pgdir (of_nat i))") (simp_all only: if_True if_False list.map list.set sorted_wrt.simps, blast+)
  moreover have "dir_list m pgdir (i # js) = T @ dir_list m pgdir js" by (simp only: dir_list_Cons T_def I_def)
  moreover have "sorted_wrt (<) (map fst (dir_list m pgdir js))" using Cons by simp
  ultimately show ?case by (simp add: sorted_wrt_append)
qed (simp add: dir_list_def)

lemma user_mapped_at:
  assumes "i < 1024" "j < 1024"
  shows "user_mapped m pgdir (at i j) e \<longleftrightarrow> user_entry (pde_of m pgdir (of_nat i)) \<and>
    user_entry e \<and> e = ld32 m (tab_of m pgdir (of_nat i) + 4 * of_nat j)"
  using at_index [OF assms] by (auto simp: user_mapped_def xlate_def user_entry_def present_def Let_def)

lemma tab_list_in: "x \<in> set (tab_list m t i js) \<longleftrightarrow>
    (\<exists>j\<in>set js. x = (at i j, PTE_ADDR (ld32 m (t + 4 * of_nat j))) \<and> user_entry (ld32 m (t + 4 * of_nat j)))"
  by (auto simp: tab_list_def)

lemma dir_list_in: "x \<in> set (dir_list m pgdir is) \<longleftrightarrow> (\<exists>i\<in>set is. user_entry (pde_of m pgdir (of_nat i)) \<and>
    x \<in> set (tab_list m (tab_of m pgdir (of_nat i)) i [0..<1024]))"
  by (induction "is") (auto simp: dir_list_Cons dir_list_def [of _ _ "[]"] Let_def tab_of_def simp del: upt_rec_numeral)

lemma dir_list_set: "set (dir_list m pgdir [0..<1024]) = {(va, PTE_ADDR e) |va e. page_aligned va \<and> user_mapped m pgdir va e}"
proof -
  have "x \<in> set (dir_list m pgdir [0..<1024]) \<longleftrightarrow> (\<exists>i<1024. \<exists>j<1024. \<exists>e. x = (at i j, PTE_ADDR e) \<and> user_mapped m pgdir (at i j) e)" for x
  proof -
    define P where "P i j \<longleftrightarrow> user_entry (pde_of m pgdir (of_nat i)) \<and> x = (at i j, PTE_ADDR (ld32 m (tab_of m pgdir (of_nat i) + 4 * of_nat j))) \<and>
        user_entry (ld32 m (tab_of m pgdir (of_nat i) + 4 * of_nat j))" for i j
    have e: "(\<exists>e. x = (at i j, PTE_ADDR e) \<and> user_mapped m pgdir (at i j) e) \<longleftrightarrow> P i j" if "i < 1024" "j < 1024" for i j
      using user_mapped_at [OF that, of m pgdir] by (auto simp: P_def)
    have "x \<in> set (dir_list m pgdir [0..<1024]) \<longleftrightarrow> (\<exists>i<1024. \<exists>j<1024. P i j)"
      unfolding dir_list_in tab_list_in P_def set_upt by (simp only: Bex_def atLeastLessThan_iff le0 simp_thms) blast
    then show ?thesis using e by (simp cong: conj_cong)
  qed
  moreover have "\<exists>i<1024. \<exists>j<1024. va = at i j" if "page_aligned va" for va
  proof -
    let ?i = "unat (PDX va)" and ?j = "unat (PTX va)"
    have l: "?i < 1024" "?j < 1024" using PDX_less [of va] PTX_less [of va] by (simp_all add: word_less_nat_alt)
    then have "PGROUNDDOWN (at ?i ?j) = PGROUNDDOWN va" using at_index [OF l] page_index [of "at ?i ?j" va] by simp
    then have "va = at ?i ?j" using at_index [OF l] that by simp
    then show ?thesis using l by blast
  qed
  ultimately show ?thesis using at_index by (fastforce simp: set_eq_iff)
qed

text \<open>
  C31. \<open>getpgdirinfo\<close> counts exactly the pages that user code can reach in the address space, and stores the first 32
  of them in increasing order, each with the frame that it is mapped to. It leaves the rest of the structure
  alone.
\<close>

theorem getpgdirinfo_pages:
  assumes w: "length (pi_va w) = 32" "length (pi_pa w) = 32"
  shows "\<exists>L w'. getpgdirinfo m pgdir w = (0, w') \<and> sorted_wrt (<) (map fst L) \<and>
    set L = {(va, PTE_ADDR e) |va e. page_aligned va \<and> user_mapped m pgdir va e} \<and> n_upages w' = of_nat (length L) \<and> length L \<le> 2 ^ 20 \<and>
    (\<forall>k < 32. (pi_va w' ! k, pi_pa w' ! k) = (if k < length L then L ! k else (pi_va w ! k, pi_pa w ! k)))"
proof -
  define I where "I = [0..<1024 :: nat]"
  define L where "L = dir_list m pgdir I"
  have "length (dir_list m pgdir is) \<le> length is * 1024" for "is"
    by (induction "is") (use tab_list_length [of m _ _ "[0..<1024]"] in \<open>auto simp: dir_list_Cons Let_def dir_list_def [of _ _ "[]"] simp del: upt_rec_numeral intro: order_trans add_le_mono\<close>)
  from this [of I] have len: "length L \<le> 2 ^ 20" by (simp add: L_def [symmetric]) (simp add: I_def)
  have "(0, w) = noted w []" by (simp add: noted_def)
  then have "dir_pages I m pgdir (0, w) = noted w L" using dir_pages_noted [OF w, of "[]" I m pgdir] by (simp add: L_def I_def)
  then have r: "getpgdirinfo m pgdir w = (0, (snd (noted w L))\<lparr>n_upages := of_nat (length L)\<rparr>)"
    by (simp add: getpgdirinfo_def I_def [symmetric] noted_def)
  have v: "((map f (take 32 L) @ drop (length L) (ys :: u32 list)) ! k) = (if k < length L then f (L ! k) else ys ! k)" if "k < 32" "length ys = 32" for f ys k
    using that by (simp add: nth_append)
  show ?thesis
    using r len dir_list_set [of m pgdir, folded I_def, folded L_def] dir_list_sorted [of I m pgdir, folded L_def] v w
    by (intro exI [of _ L] exI [of _ "(snd (noted w L))\<lparr>n_upages := of_nat (length L)\<rparr>"]) (simp add: noted_def I_def)
qed

lemma demo_pte: "j < 1024 \<Longrightarrow> ld32 (kmem demo_paged) (0x80301000 + 4 * j) = (if j = 0 then 0x302007 else 0)"
proof -
  assume j: "j < 1024"
  have al: "aligned4 (0x80301000 + 4 * j)" using entry_aligned [OF _ j, of "0x80301000"] by (simp add: page_aligned_def)
  have "PGROUNDDOWN (0x80301000 + 4 * j) = 0x80301000"
    using page_offset [of "0x80301000" "4 * j"] entry_offset [OF j] by (simp add: page_aligned_def word_le_def word_less_def)
  moreover have "PGROUNDDOWN 0x80300000 \<noteq> 0x80301000" by (simp add: PGROUNDDOWN_def)
  ultimately have n: "0x80300000 \<noteq> 0x80301000 + 4 * j" by metis
  have z: "ld32 (\<lambda>_. 0) a = 0" for a by (rule ld32_zero) simp
  have "4 * j = 0 \<longleftrightarrow> j = 0" using j by (simp add: uint_times4 word_uint_eq_iff word_less_def)
  then show ?thesis using al n ld32_st32_other [of "0x80300000" "0x80301000 + 4 * j"] z by (cases "j = 0") (simp_all add: demo_paged_def aligned4_def)
qed

lemma demo_user: "{(va, PTE_ADDR e) |va e. page_aligned va \<and> user_mapped (kmem demo_paged) 0x80300000 va e} = {(0, 0x302000)}"
proof -
  have "va = 0 \<and> e = 0x302007" if "page_aligned va" "user_mapped (kmem demo_paged) 0x80300000 va e" for va e
  proof -
    have d: "PDX va = 0" using that(2) demo_pde [OF PDX_less, of va] by (auto simp: user_mapped_def split: if_splits)
    then have t: "PTX va = 0 \<and> e = 0x302007"
      using that(2) demo_pte [OF PTX_less, of va] demo_tab(1) by (auto simp: user_mapped_def xlate_def Let_def split: if_splits)
    then have "PGROUNDDOWN va = PGROUNDDOWN 0" using d page_index [of va 0] by (simp add: PDX_def PTX_def)
    then show ?thesis using that(1) t by (simp add: PGROUNDDOWN_def [of 0])
  qed
  moreover have "user_mapped (kmem demo_paged) 0x80300000 0 0x302007"
    using demo_xlate [of 0] demo_pde [of 0] by (simp add: user_mapped_def PDX_def)
  moreover have "page_aligned 0" by (simp add: page_aligned_def)
  ultimately have "page_aligned va \<and> user_mapped (kmem demo_paged) 0x80300000 va e \<longleftrightarrow> va = 0 \<and> e = 0x302007" for va e by metis
  then show ?thesis by (simp add: PTE_ADDR_def)
qed

theorem getpgdirinfo_pages_witness:
  "\<exists>w'. getpgdirinfo (kmem demo_paged) 0x80300000 \<lparr>n_upages = 0, pi_va = replicate 32 7, pi_pa = replicate 32 7\<rparr> = (0, w') \<and>
    n_upages w' = 1 \<and> pi_va w' ! 0 = 0 \<and> pi_pa w' ! 0 = 0x302000 \<and> pi_va w' ! 1 = 7"
proof -
  let ?w = "\<lparr>n_upages = 0, pi_va = replicate 32 7, pi_pa = replicate 32 7\<rparr>"
  obtain L w' where r: "getpgdirinfo (kmem demo_paged) 0x80300000 ?w = (0, w')" "sorted_wrt (<) (map fst L)" "set L = {(0, 0x302000)}"
    "n_upages w' = of_nat (length L)"
    "\<forall>k < 32. (pi_va w' ! k, pi_pa w' ! k) = (if k < length L then L ! k else (pi_va ?w ! k, pi_pa ?w ! k))"
    using getpgdirinfo_pages [of ?w "kmem demo_paged" "0x80300000"] unfolding demo_user by auto
  have "L = [(0, 0x302000)]"
  proof (cases L)
    case (Cons a M)
    then show ?thesis using r(2,3) by (cases M) auto
  qed (use r(3) in simp)
  then show ?thesis using r(1,4) r(5) [rule_format, of 0] r(5) [rule_format, of 1] by simp
qed

end
