(* ===== verification/LogCrash.thy ===== *)
theory LogCrash
  imports LogOp "HOL-Library.Sublist"
begin

text \<open>
  Crash safety of the log. A crash keeps some first part of the disk writes of \<open>commit\<close>, and recovery
  may itself be cut short any number of times. Whatever happens, the recovery that finally completes
  leaves all blocks outside the log either as they were before the transaction or as the transaction
  left them.
\<close>

section \<open>Crashes\<close>

text \<open>The disks that a crash during \<open>commit\<close> can leave, and a crash during a recovery from such a disk,
  any number of times.\<close>

inductive crash :: "'a logst_scheme \<Rightarrow> (u32 \<Rightarrow> u8 list) \<Rightarrow> bool" for s where
  in_commit: "commit s = Ok t \<Longrightarrow> written t = written s @ ws \<Longrightarrow> prefix ps ws \<Longrightarrow> crash s (apply_writes ps (disk s))"
| in_recovery: "crash s D \<Longrightarrow> recover_from_log (boot s D) = Ok t \<Longrightarrow> prefix ps (written t) \<Longrightarrow> crash s (apply_writes ps D)"

text \<open>Before the header is written; with the header on the disk; after the header is cleared.\<close>

definition old_disk :: "'a logst_scheme \<Rightarrow> (u32 \<Rightarrow> u8 list) \<Rightarrow> bool" where
  "old_disk s D \<longleftrightarrow> (\<forall>b. length (D b) = 512) \<and> head_n (D (lblk s 0)) = 0 \<and> (\<forall>b. b \<notin> log_area s \<longrightarrow> D b = disk s b)"

definition mid_disk :: "'a logst_scheme \<Rightarrow> (u32 \<Rightarrow> u8 list) \<Rightarrow> bool" where
  "mid_disk s D \<longleftrightarrow> (\<forall>b. length (D b) = 512) \<and> head_n (D (lblk s 0)) = lh_n s \<and> head_list (D (lblk s 0)) = logged s \<and>
     (\<forall>j<length (logged s). D (lblk s (Suc j)) = view s (logged s ! j)) \<and>
     (\<forall>b. b \<notin> log_area s \<and> b \<notin> set (logged s) \<longrightarrow> D b = view s b)"

definition new_disk :: "'a logst_scheme \<Rightarrow> (u32 \<Rightarrow> u8 list) \<Rightarrow> bool" where
  "new_disk s D \<longleftrightarrow> (\<forall>b. length (D b) = 512) \<and> head_n (D (lblk s 0)) = 0 \<and> (\<forall>b. b \<notin> log_area s \<longrightarrow> D b = view s b)"

lemma apply_writes_keeps:
  "(\<And>w D. w \<in> set ws \<Longrightarrow> P D \<Longrightarrow> P (D(fst w := snd w))) \<Longrightarrow> P D \<Longrightarrow> P (apply_writes ws D)"
  by (induction ws arbitrary: D) auto

lemma apply_writes_prefix:
  assumes "prefix ps ws" "\<And>w D. w \<in> set ws \<Longrightarrow> P D \<Longrightarrow> P (D(fst w := snd w))" "P D"
  shows "P (apply_writes ps D)"
  by (rule apply_writes_keeps [of ps P]) (use assms set_mono_prefix [OF assms(1)] in blast)+

lemma clear_head: "length d = 512 \<Longrightarrow> head_n (wr32 d 0 0) = 0"
  by (simp add: head_n_def to_int_def)

lemma head_zero: "head_n d = 0 \<Longrightarrow> head_list d = []"
  by (simp add: head_list_def)

lemma log_head_other:
  assumes "log_ok s" "Suc j < nat (log_size s)"
  shows "lblk s (Suc j) \<noteq> lblk s 0" "lblk s (Suc j) \<in> log_area s"
proof -
  note g = log_okD(2) [OF assms(1)]
  have "0 < nat (log_size s)" using assms(2) by linarith
  then show "lblk s (Suc j) \<noteq> lblk s 0" using lblk_inj [OF g assms(2), of 0] by blast
  show "lblk s (Suc j) \<in> log_area s" by (rule lblk_uint(3) [OF g assms(2)])
qed

lemma mid_home:
  assumes "log_ok s" "w \<in> set (home_writes s)" "mid_disk s D"
  shows "mid_disk s (D(fst w := snd w))"
proof -
  obtain b where w: "w = (b, view s b)" and b: "b \<in> set (logged s)" using assms(2) by (auto simp: home_writes_def)
  note o = log_okD [OF assms(1)]
  have "b \<notin> log_area s" using b o(5,9) by auto
  moreover have "lblk s (Suc j) \<in> log_area s" if "j < length (logged s)" for j
    using that o(3,7,10) by (intro log_head_other [OF assms(1)]) (auto simp: log_lists_def)
  ultimately have "lblk s (Suc j) \<noteq> b" if "j < length (logged s)" for j using that by auto
  moreover have "lblk s 0 \<noteq> b" using \<open>b \<notin> log_area s\<close> o(8) by auto
  ultimately show ?thesis using assms(3) b view_length [OF o(1)] unfolding mid_disk_def w by auto
qed

lemma mid_new:
  assumes "log_ok s" "mid_disk s D"
  shows "new_disk s ((apply_writes (home_writes s) D)(lblk s 0 := wr32 (D (lblk s 0)) 0 0))"
proof -
  note o = log_okD [OF assms(1)]
  let ?E = "apply_writes (home_writes s) D"
  have m: "mid_disk s ?E"
    by (rule apply_writes_keeps [of _ "mid_disk s", OF mid_home [OF assms(1)] assms(2)])
  have "?E b = view s b" if "b \<notin> log_area s" for b
  proof (cases "b \<in> set (logged s)")
    case True
    then show ?thesis unfolding home_writes_def using o(3) by (subst apply_writes_map [where f = "\<lambda>b. b"]) (auto simp: log_lists_def)
  next
    case False
    then show ?thesis using m that by (simp add: mid_disk_def)
  qed
  moreover have "length (D (lblk s 0)) = 512" using assms(2) by (simp add: mid_disk_def)
  ultimately show ?thesis using m o(8) clear_head by (auto simp: new_disk_def mid_disk_def)
qed

lemma commit_phases:
  assumes "log_ok s" "old_disk s (disk s)" "prefix ps (commit_writes s)"
  shows "old_disk s (apply_writes ps (disk s)) \<or> mid_disk s (apply_writes ps (disk s)) \<or> new_disk s (apply_writes ps (disk s))"
proof -
  note o = log_okD [OF assms(1)]
  let ?W = "to_log s (view s) [0..<length (logged s)]" and ?L = "lblk s 0"
  let ?D1 = "apply_writes ?W (disk s)"
  let ?D2 = "?D1(?L := full_head s)"
  have ns: "length (logged s) < nat (log_size s)" using o(3,7,10) by (auto simp: log_lists_def)
  have old: "old_disk s (apply_writes us (disk s))" if "prefix us ?W" for us
  proof (rule apply_writes_prefix [OF that])
    fix w D assume w: "w \<in> set ?W" "old_disk s D"
    then have "fst w \<in> log_area s - {?L}" using to_log_targets [OF o(2) ns, of "view s"] by auto
    moreover have "length (snd w) = 512" using w(1) view_length [OF o(1)] by (auto simp: to_log_def)
    ultimately show "old_disk s (D(fst w := snd w))" using w(2) by (auto simp: old_disk_def)
  qed (rule assms(2))
  have h: "length (full_head s) = 512" "head_n (full_head s) = lh_n s" "head_list (full_head s) = logged s"
    using head_block_parts [of "disk s ?L" "lh_n s" "lh_block s"] assms(2) o(10-12) by (simp_all add: full_head_def logged_def old_disk_def)
  have d1: "old_disk s ?D1" by (rule old) simp
  have mid: "mid_disk s ?D2"
  proof -
    have "?D2 (lblk s (Suc j)) = view s (logged s ! j)" if "j < length (logged s)" for j
      using to_log_nth [OF o(2) ns that, of "view s" "disk s"] log_head_other(1) [OF assms(1), of j] that ns by simp
    moreover have "?D2 b = view s b" if "b \<notin> log_area s" "b \<notin> set (logged s)" for b
      using d1 that o(4,5,8) clean_view [OF o(1), of b] by (auto simp: old_disk_def)
    ultimately show ?thesis using d1 h by (simp add: mid_disk_def old_disk_def)
  qed
  have mids: "mid_disk s (apply_writes us ?D2)" if "prefix us (home_writes s)" for us
    by (rule apply_writes_prefix [of _ _ "mid_disk s", OF that mid_home [OF assms(1)] mid])
  have new: "new_disk s ((apply_writes (home_writes s) ?D2)(?L := wr32 (full_head s) 0 0))"
    using mid_new [OF assms(1) mid] by simp
  consider "prefix ps ?W" | us where "ps = ?W @ (?L, full_head s) # us" "prefix us (home_writes s)"
    | "ps = ?W @ (?L, full_head s) # home_writes s @ [(?L, wr32 (full_head s) 0 0)]"
    using assms(3) unfolding commit_writes_def by (auto simp: prefix_append prefix_Cons)
  then show ?thesis using old mids new by cases auto
qed

lemma recovery_phases:
  assumes "log_ok s" "old_disk s D \<or> mid_disk s D \<or> new_disk s D"
  shows "disk_ok s D" "prefix ps (recover_writes s D) \<Longrightarrow> old_disk s (apply_writes ps D) \<or> mid_disk s (apply_writes ps D) \<or> new_disk s (apply_writes ps D)"
    "old_disk s (apply_writes (recover_writes s D) D) \<or> new_disk s (apply_writes (recover_writes s D) D)"
proof -
  note o = log_okD [OF assms(1)]
  let ?L = "lblk s 0"
  have len: "length (D ?L) = 512" using assms(2) by (auto simp: old_disk_def mid_disk_def new_disk_def)
  have z: "recover_writes s D = [(?L, wr32 (D ?L) 0 0)]" if "old_disk s D \<or> new_disk s D"
    using that by (auto simp: recover_writes_def install_writes_def old_disk_def new_disk_def head_zero)
  have c: "old_disk s D \<Longrightarrow> old_disk s (D(?L := wr32 (D ?L) 0 0))" "new_disk s D \<Longrightarrow> new_disk s (D(?L := wr32 (D ?L) 0 0))"
    using clear_head [OF len] len o(8) by (auto simp: old_disk_def new_disk_def)
  have m: "install_writes s D = home_writes s" if "mid_disk s D"
    using that by (intro nth_equalityI) (auto simp: install_writes_def home_writes_def mid_disk_def)
  have mids: "mid_disk s (apply_writes us D)" if "prefix us (home_writes s)" "mid_disk s D" for us
    by (rule apply_writes_prefix [of _ _ "mid_disk s", OF that(1) mid_home [OF assms(1)] that(2)])
  show "disk_ok s D"
    using assms(2) o(2,3,10) unfolding disk_ok_def
    by (auto simp: old_disk_def new_disk_def mid_disk_def head_zero log_lists_def log_geom_def)
  show "old_disk s (apply_writes (recover_writes s D) D) \<or> new_disk s (apply_writes (recover_writes s D) D)"
    using assms(2) z c m mid_new [OF assms(1)] by (auto simp: recover_writes_def)
  show "old_disk s (apply_writes ps D) \<or> mid_disk s (apply_writes ps D) \<or> new_disk s (apply_writes ps D)" if "prefix ps (recover_writes s D)"
    using assms(2)
  proof (elim disjE)
    assume d: "mid_disk s D"
    then have "prefix ps (home_writes s) \<or> ps = home_writes s @ [(?L, wr32 (D ?L) 0 0)]"
      using that m by (auto simp: recover_writes_def prefix_append prefix_Cons)
    then show ?thesis using mids [OF _ d] mid_new [OF assms(1) d] by auto
  qed (use that z c in \<open>auto simp: prefix_Cons\<close>)
qed

lemma crash_phases:
  assumes "log_ok s" "log_empty s" "crash s D"
  shows "old_disk s D \<or> mid_disk s D \<or> new_disk s D"
  using assms(3)
proof induction
  case (in_commit t ws ps)
  have old: "old_disk s (disk s)" using assms(2) log_okD(1) [OF assms(1)] by (simp add: old_disk_def bc_ok_def log_empty_def)
  show ?case
  proof (cases "0 < lh_n s")
    case True
    then show ?thesis using commit_spec [OF assms(1)] in_commit commit_phases [OF assms(1) old] by auto
  next
    case False
    then show ?thesis using in_commit old by (auto simp: commit_def)
  qed
next
  case (in_recovery D t ps)
  note p = recovery_phases [OF assms(1) in_recovery.IH]
  have "written t = recover_writes s D" using recovery_spec [OF log_okD(2) [OF assms(1)] p(1)] in_recovery.hyps(2) by auto
  then show ?case using p(2) in_recovery.hyps(3) by simp
qed

text \<open>C1. The log makes a transaction atomic: however often the machine stops, during \<open>commit\<close> and during
  the recoveries that follow, a recovery that is not interrupted succeeds and leaves all blocks outside
  the log as they were on the disk before, or all as the transaction left them in the cache.\<close>

theorem crash_atomic:
  assumes "log_ok s" "log_empty s" "crash s D"
  shows "\<exists>r. recover_from_log (boot s D) = Ok r \<and>
    ((\<forall>b. b \<notin> log_area s \<longrightarrow> disk r b = disk s b) \<or> (\<forall>b. b \<notin> log_area s \<longrightarrow> disk r b = view s b))"
proof -
  note p = recovery_phases [OF assms(1) crash_phases [OF assms]]
  obtain r where "recover_from_log (boot s D) = Ok r" "disk r = apply_writes (recover_writes s D) D"
    using recovery_spec [OF log_okD(2) [OF assms(1)] p(1)] by auto
  then show ?thesis using p(3) by (auto simp: old_disk_def new_disk_def)
qed

text \<open>C28. When the last operation of a transaction ends, every block is on the disk as the operations left
  it in the cache: \<open>end_op\<close> succeeds, clears the log on the disk and in memory, and leaves no block
  pinned, ready for the next transaction.\<close>

theorem end_op_durable:
  assumes "log_ok s" "log_empty s" "outstanding s = 1" "\<not> committing s"
  shows "\<exists>t. end_op s = Ok t \<and> log_ok t \<and> log_empty t \<and> dirty t = {} \<and> outstanding t = 0 \<and> \<not> committing t \<and>
    (\<forall>b. b \<notin> log_area s \<longrightarrow> disk t b = view s b \<and> view t b = view s b)"
proof -
  obtain t where t: "end_op s = Ok t" "log_ok t" "log_empty t" "lh_n t = 0" "outstanding t = 0" "\<not> committing t"
      "\<forall>b. b \<notin> log_area s \<longrightarrow> disk t b = view s b \<and> view t b = view s b"
    using end_op_spec [OF assms] by blast
  moreover have "dirty t = {}" using log_okD(5) [OF t(2)] t(4) by (simp add: logged_def)
  ultimately show ?thesis by blast
qed

section \<open>Too many blocks\<close>

text \<open>\<open>begin_op\<close> reserves \<open>MAXOPBLOCKS\<close> blocks per operation, up to \<open>LOGSIZE\<close> = 30 in all; but a log of
  \<open>LOGSIZE\<close> blocks, as mkfs makes it, holds the header and 29 blocks.\<close>

fun log_writes :: "nat list \<Rightarrow> 'a logst_scheme \<Rightarrow> 'a logst_scheme outcome" where
  "log_writes [] s = Ok s"
| "log_writes (i # is) s = obind (log_write i s) (log_writes is)"

lemma log_writes_append: "log_writes (is @ js) s = obind (log_writes is s) (log_writes js)"
proof (induction "is" arbitrary: s)
  case (Cons i "is")
  then show ?case by (cases "log_write i s") simp_all
qed simp

lemma log_write_fresh:
  assumes "1 \<le> outstanding s" "lh_n s = int k" "k < 29" "log_size s = 30" "length (lh_block s) = 30" "i < length (bufs s)"
    "b_blockno (bufs s ! i) \<notin> set (logged s)"
  shows "\<exists>t. log_write i s = Ok t \<and> lh_n t = int (Suc k) \<and> logged t = logged s @ [b_blockno (bufs s ! i)] \<and> outstanding t = outstanding s \<and>
    log_size t = 30 \<and> length (lh_block t) = 30 \<and> map b_blockno (bufs t) = map b_blockno (bufs s)"
proof -
  let ?b = "b_blockno (bufs s ! i)"
  have "?b \<notin> to_uint ` set (take k (lh_block s))" using assms(2,7) by (simp add: logged_def)
  moreover note x = log_index_header [OF assms(5), of k ?b]
  ultimately have k: "log_index ?b 0 (take k (lh_block s)) = k"
      "map to_uint (take (Suc k) ((lh_block s)[k := to_int ?b])) = map to_uint (take k (lh_block s)) @ [?b]"
    using assms(3) by auto
  have "map b_blockno ((bufs s)[i := (bufs s ! i)\<lparr>b_dirty := True\<rparr>]) = map b_blockno (bufs s)"
    using assms(6) by (intro nth_equalityI) (auto simp: nth_list_update)
  then show ?thesis using assms(1-6) k
    by (simp add: log_write_def Let_def logged_def upd_buf_def nat_add_distrib)
qed

lemma distinct_take_nth: "distinct xs \<Longrightarrow> k < length xs \<Longrightarrow> xs ! k \<notin> set (take k xs)"
  by (auto simp: in_set_conv_nth distinct_conv_nth)

lemma log_overcommit:
  assumes "log_size s = 30" "outstanding s = 0" "\<not> committing s" "lh_n s = 0" "length (lh_block s) = 30" "length (bufs s) = 31"
    "distinct (map b_blockno (take 30 (bufs s)))"
  shows "\<exists>t u. obind (begin_op s) (\<lambda>s. obind (begin_op s) begin_op) = Ok t \<and>
    log_writes [0..<29] t = Ok u \<and> log_write 29 u = Panic ''too big a transaction''"
proof -
  define t where "t = s\<lparr>outstanding := 3\<rparr>"
  have b: "obind (begin_op s) (\<lambda>s. obind (begin_op s) begin_op) = Ok t" using assms(2-4) by (simp add: begin_op_def t_def)
  have "k \<le> 29 \<Longrightarrow> \<exists>u. log_writes [0..<k] t = Ok u \<and> lh_n u = int k \<and> logged u = map b_blockno (take k (bufs s)) \<and> outstanding u = 3 \<and>
      log_size u = 30 \<and> length (lh_block u) = 30 \<and> map b_blockno (bufs u) = map b_blockno (bufs s)" for k
  proof (induction k)
    case 0
    show ?case using assms(1,4,5) by (simp add: t_def logged_def)
  next
    case (Suc k)
    then obtain u where u: "log_writes [0..<k] t = Ok u" "lh_n u = int k" "logged u = map b_blockno (take k (bufs s))" "outstanding u = 3"
        "log_size u = 30" "length (lh_block u) = 30" "map b_blockno (bufs u) = map b_blockno (bufs s)" by auto
    have l: "length (bufs u) = 31" using arg_cong [OF u(7), of length] assms(6) by simp
    have "b_blockno (bufs u ! k) = map b_blockno (take 30 (bufs s)) ! k"
      using arg_cong [OF u(7), of "\<lambda>xs. xs ! k"] l Suc.prems assms(6) by simp
    moreover have "map b_blockno (take 30 (bufs s)) ! k \<notin> set (take k (map b_blockno (take 30 (bufs s))))"
      using assms(6,7) Suc.prems by (intro distinct_take_nth) auto
    ultimately have "b_blockno (bufs u ! k) \<notin> set (logged u)" "b_blockno (bufs u ! k) = b_blockno (bufs s ! k)"
      using u(3) Suc.prems assms(6) by (simp_all add: take_map min_def)
    moreover have "map b_blockno (take (Suc k) (bufs s)) = map b_blockno (take k (bufs s)) @ [b_blockno (bufs s ! k)]"
      using Suc.prems assms(6) by (simp add: take_Suc_conv_app_nth)
    ultimately show ?case using log_write_fresh [of u k k] u l Suc.prems by (auto simp: log_writes_append)
  qed
  from this [of 29] show ?thesis using b by (auto simp: log_write_def)
qed

section \<open>Witnesses\<close>

text \<open>A disk of 1000 blocks with the log in blocks 2 to 31, and a transaction that has changed block 100.\<close>

definition demo_log :: logst where
  "demo_log = \<lparr>disk = (\<lambda>_. replicate 512 0), disksize = 1000, bufs = [], cur_pid = 1, written = [],
     log_start = 2, log_size = 30, outstanding = 0, committing = False, log_dev = 1, lh_n = 0, lh_block = replicate 30 0\<rparr>"

definition demo_op :: logst where
  "demo_op = (boot demo_log (\<lambda>_. replicate 512 0))\<lparr>outstanding := 1\<rparr>"

lemma demo_op_ok:
  "log_in demo_op" "held demo_op = {}" "logged demo_op = []" "view demo_op = (\<lambda>_. replicate 512 0)" "disk demo_op = (\<lambda>_. replicate 512 0)"
  "100 \<in> home demo_op" "log_size demo_op = 30" "log_empty demo_op" "log_ok demo_op" "outstanding demo_op = 1" "\<not> committing demo_op" "in_op demo_op"
proof -
  note d = demo_log_def
  have g: "log_geom demo_log" by (simp add: d log_geom_def)
  note b = boot_ok [of demo_log "\<lambda>_. replicate 512 0", OF g]
  have l: "logged demo_op = []" "lh_n demo_op = 0" "length (lh_block demo_op) = 30" by (simp_all add: demo_op_def logged_def boot_def)
  show "logged demo_op = []" by (rule l)
  show s: "log_size demo_op = 30" "outstanding demo_op = 1" "\<not> committing demo_op" by (simp_all add: demo_op_def boot_def d)
  have k: "bc_ok demo_op" "view demo_op = (\<lambda>_. replicate 512 0)" "held demo_op = {}" "dirty demo_op = {}" "disk demo_op = (\<lambda>_. replicate 512 0)"
    using b same_blk [of demo_op "boot demo_log (\<lambda>_. replicate 512 0)"] by (simp_all add: demo_op_def)
  show "view demo_op = (\<lambda>_. replicate 512 0)" "held demo_op = {}" "disk demo_op = (\<lambda>_. replicate 512 0)" by (rule k)+
  have gg: "log_geom demo_op" by (simp add: demo_op_def boot_def d log_geom_def)
  have ll: "log_lists demo_op" using l s by (simp add: log_lists_def)
  show "log_in demo_op" "log_ok demo_op" using k gg ll l s by (simp_all add: log_in_def log_ok_def)
  show "in_op demo_op" using s by (simp add: in_op_def)
  have "lblk demo_op = (\<lambda>k. to_uint (2 + int k))" by (simp add: fun_eq_iff lblk_def demo_op_def boot_def d)
  moreover have "100 \<noteq> to_uint (2 + int k)" if "k < 30" for k
  proof
    assume "100 = to_uint (2 + int k)"
    then have "uint (100 :: u32) = uint (to_uint (2 + int k))" by simp
    then show False using that by (simp add: uint_to_uint)
  qed
  ultimately show "100 \<in> home demo_op" using s by (auto simp: home_def log_area_def demo_op_def boot_def d)
  show "log_empty demo_op" using k(5) by (simp add: log_empty_def head_n_def rd32_def to_int_def)
qed

lemma demo_change:
  obtains s :: logst where "log_ok s" "log_empty s" "logged s = [100]" "view s 100 = replicate 512 7" "outstanding s = 1" "\<not> committing s"
    "100 \<notin> log_area s" "disk s = (\<lambda>_. replicate 512 0)"
proof -
  note d = demo_op_ok
  obtain i s1 s2 t where t: "log_in t" "view t = (view demo_op)(100 := replicate 512 7)" "held t = {}" "logged t = [100]" "only_log demo_op t"
    using ts.modify [of demo_op 100 "\<lambda>_. replicate 512 7"] d by auto
  note f = only_log_fields [OF t(5)] only_log_area [OF t(5)]
  have "log_ok t" using t by (simp add: log_in_def log_ok_def)
  moreover have "log_empty t" using d(8) f by (simp add: log_empty_def lblk_def)
  moreover have "100 \<notin> log_area t" using f d(6) by (simp add: home_def)
  ultimately show ?thesis using that [of t] t f d by simp
qed

theorem crash_atomic_witness:
  "\<exists>(s :: logst) D r. log_ok s \<and> logged s = [100] \<and> D = apply_writes (take 2 (commit_writes s)) (disk s) \<and> recover_from_log (boot s D) = Ok r \<and>
    (disk r 100 = replicate 512 0 \<or> disk r 100 = replicate 512 7)"
proof -
  obtain s :: logst where s: "log_ok s" "log_empty s" "logged s = [100]" "view s 100 = replicate 512 7" "100 \<notin> log_area s" "disk s = (\<lambda>_. replicate 512 0)"
    by (rule demo_change)
  let ?D = "apply_writes (take 2 (commit_writes s)) (disk s)"
  have "0 < lh_n s" using log_okD(7,10) [OF s(1)] s(3) by simp
  then obtain t where "commit s = Ok t" "written t = written s @ commit_writes s" using commit_spec [OF s(1)] by auto
  then have "crash s ?D" by (rule in_commit) (simp add: take_is_prefix)
  from crash_atomic [OF s(1,2) this] obtain r where "recover_from_log (boot s ?D) = Ok r" "disk r 100 = disk s 100 \<or> disk r 100 = view s 100"
    using s(5) by blast
  then show ?thesis using s by (intro exI [of _ s] exI [of _ ?D] exI [of _ r]) simp
qed

theorem end_op_durable_witness: "\<exists>(s :: logst) t. logged s = [100] \<and> end_op s = Ok t \<and> disk s 100 = replicate 512 0 \<and> disk t 100 = replicate 512 7"
proof -
  obtain s :: logst where s: "log_ok s" "log_empty s" "logged s = [100]" "view s 100 = replicate 512 7" "outstanding s = 1" "\<not> committing s"
      "100 \<notin> log_area s" "disk s = (\<lambda>_. replicate 512 0)"
    by (rule demo_change)
  then obtain t where "end_op s = Ok t" "disk t 100 = view s 100" using end_op_durable [OF s(1,2,5,6)] by blast
  then show ?thesis using s by (intro exI [of _ s] exI [of _ t]) simp
qed

end
