(* ===== verification/FsFrame.thy ===== *)
theory FsFrame
  imports Sysfile
begin

text \<open>
  The file system does not touch the open files. Every operation of the layers below file.c that returns
  leaves the part of the state that extends \<open>fsst\<close> as it was. The rules are syntax-directed: \<open>oks P m\<close> says that
  \<open>P\<close> holds of the result if \<open>m\<close> returns.
\<close>

section \<open>Results that satisfy a predicate\<close>

named_theorems frames \<open>operations that keep the extension of the file system state\<close>

primrec oks :: "('a \<Rightarrow> bool) \<Rightarrow> 'a outcome \<Rightarrow> bool" where
  "oks P (Ok x) \<longleftrightarrow> P x"
| "oks P (Panic m) \<longleftrightarrow> True"
| "oks P Fault \<longleftrightarrow> True"
| "oks P Diverge \<longleftrightarrow> True"

lemma oks_bind: "oks Q m \<Longrightarrow> (\<And>x. m = Ok x \<Longrightarrow> Q x \<Longrightarrow> oks P (f x)) \<Longrightarrow> oks P (obind m f)"
  by (cases m) auto

lemma oks_any: "(\<And>x. m = Ok x \<Longrightarrow> oks P (f x)) \<Longrightarrow> oks P (obind m f)"
  by (cases m) auto

lemmas oks_pure = oks_any [where m = "arr_get xs i" for xs i] oks_any [where m = "arr_set xs i v" for xs i v]
  oks_any [where m = "acquiresleep p l" for p l] oks_any [where m = "bscan n Q g i bs" for n Q g i bs]

lemma oks_if: "(b \<Longrightarrow> oks P m) \<Longrightarrow> (\<not> b \<Longrightarrow> oks P n) \<Longrightarrow> oks P (if b then m else n)"
  by simp

lemma oks_Let: "(\<And>x. x = v \<Longrightarrow> oks P (f x)) \<Longrightarrow> oks P (Let v f)"
  by simp

lemma oks_option: "(x = None \<Longrightarrow> oks P m) \<Longrightarrow> (\<And>v. x = Some v \<Longrightarrow> oks P (f v)) \<Longrightarrow> oks P (case x of None \<Rightarrow> m | Some v \<Rightarrow> f v)"
  by (cases x) auto

lemma oks_OkD: "oks P m \<Longrightarrow> m = Ok x \<Longrightarrow> P x"
  by simp

abbreviation keep :: "'a \<Rightarrow> 'a fsst_scheme \<Rightarrow> bool" where
  "keep X t \<equiv> fsst.more t = X"

lemmas oks_intros = oks_bind oks_if oks_Let oks_option

section \<open>The cache and the log\<close>

lemma more_simps [simp]:
  "fsst.more (upd_buf i f s) = fsst.more s" "fsst.more (upd_data i g s) = fsst.more s" "fsst.more (upd_inode j h s) = fsst.more s"
  "fsst.more (link_front i s) = fsst.more s" "fsst.more (buf_unlink i s) = fsst.more s"
  by (simp_all add: upd_buf_def upd_data_def upd_inode_def link_front_def buf_unlink_def Let_def)

lemma keep_iderw [frames]: "keep X s \<Longrightarrow> oks (keep X) (iderw i s)"
  by (auto simp: iderw_def Let_def)

lemma keep_bget [frames]: "keep X s \<Longrightarrow> oks (\<lambda>(i, t). keep X t) (bget d b s)"
  unfolding bget_def by (auto intro!: oks_pure oks_option)

lemma keep_bread [frames]: "keep X s \<Longrightarrow> oks (\<lambda>(i, t). keep X t) (bread d b s)"
  unfolding bread_def by (rule oks_bind, erule keep_bget) (auto intro!: oks_bind [OF keep_iderw [OF refl]])

lemma keep_bwrite [frames]: "keep X s \<Longrightarrow> oks (keep X) (bwrite i s)"
  by (auto simp: bwrite_def intro!: keep_iderw)

lemma keep_brelse [frames]: "keep X s \<Longrightarrow> oks (keep X) (brelse i s)"
  by (auto simp: brelse_def Let_def)

lemma keep_log_write [frames]: "keep X s \<Longrightarrow> oks (keep X) (log_write i s)"
  by (auto simp: log_write_def Let_def intro!: oks_pure)

lemma keep_begin_op [frames]: "keep X s \<Longrightarrow> oks (keep X) (begin_op s)"
  by (auto simp: begin_op_def)

lemmas keep_binds = oks_bind [OF keep_bread [OF refl]] oks_bind [OF keep_bwrite [OF refl]] oks_bind [OF keep_brelse [OF refl]] oks_bind [OF keep_log_write [OF refl]]

lemma keep_write_log_loop [frames]: "keep X s \<Longrightarrow> oks (keep X) (write_log_loop k i s)"
  by (induction k arbitrary: X i s) (auto intro!: keep_binds oks_pure)

lemma keep_install_loop [frames]: "keep X s \<Longrightarrow> oks (keep X) (install_loop k i s)"
  by (induction k arbitrary: X i s) (auto intro!: keep_binds oks_pure)

lemma keep_write_head [frames]: "keep X s \<Longrightarrow> oks (keep X) (write_head s)"
  unfolding write_head_def by (auto intro!: keep_binds keep_brelse)

lemma keep_commit [frames]: "keep X s \<Longrightarrow> oks (keep X) (commit s)"
  unfolding commit_def write_log_def install_trans_def
  by (auto intro!: oks_bind [OF keep_write_log_loop [OF refl]] oks_bind [OF keep_write_head [OF refl]] oks_bind [OF keep_install_loop [OF refl]] keep_write_head)

lemma keep_end_op [frames]: "keep X s \<Longrightarrow> oks (keep X) (end_op s)"
  by (auto simp: end_op_def Let_def intro!: oks_bind [OF keep_commit [OF refl]])

section \<open>Blocks and inodes\<close>

lemma keep_bzero [frames]: "keep X s \<Longrightarrow> oks (keep X) (bzero d b s)"
  unfolding bzero_def by (auto intro!: keep_binds keep_brelse)

lemma keep_balloc_loop [frames]: "keep X s \<Longrightarrow> oks (\<lambda>(a, t). keep X t) (balloc_loop sz d b s)"
proof (induction sz d b s rule: balloc_loop.induct)
  case (1 sz d b s)
  show ?case
    by (subst balloc_loop.simps) (auto intro!: keep_binds oks_bind [OF keep_bzero [OF refl]] oks_option 1 simp: 1)
qed

lemma keep_balloc [frames]: "keep X s \<Longrightarrow> oks (\<lambda>(a, t). keep X t) (balloc d s)"
  unfolding balloc_def by (rule keep_balloc_loop)

lemma keep_bfree [frames]: "keep X s \<Longrightarrow> oks (keep X) (bfree d b s)"
  unfolding bfree_def by (auto intro!: keep_binds keep_brelse simp: Let_def)

lemma keep_iget [frames]: "keep X s \<Longrightarrow> oks (\<lambda>(i, t). keep X t) (iget d n s)"
  unfolding iget_def by (auto split: sum.splits option.splits)

lemma keep_ialloc_loop [frames]: "keep X s \<Longrightarrow> oks (\<lambda>(i, t). keep X t) (ialloc_loop n d ty k s)"
proof (induction "nat (n - k)" arbitrary: X k s rule: less_induct)
  case less
  show ?case
    by (subst ialloc_loop.simps) (auto intro!: keep_binds keep_iget less.hyps simp: less.prems Let_def)
qed

lemma keep_ialloc [frames]: "keep X s \<Longrightarrow> oks (\<lambda>(i, t). keep X t) (ialloc d ty s)"
  unfolding ialloc_def by (rule keep_ialloc_loop)

lemma keep_iupdate [frames]: "keep X s \<Longrightarrow> oks (keep X) (iupdate i s)"
  unfolding iupdate_def by (auto intro!: keep_binds keep_brelse simp: Let_def)

lemma keep_ilock [frames]: "keep X s \<Longrightarrow> oks (keep X) (ilock i s)"
  unfolding ilock_def by (auto intro!: keep_binds oks_pure simp: Let_def)

lemma keep_iunlock [frames]: "keep X s \<Longrightarrow> oks (keep X) (iunlock i s)"
  by (auto simp: iunlock_def Let_def)

lemma keep_bmap [frames]: "keep X s \<Longrightarrow> oks (\<lambda>(a, t). keep X t) (bmap i b s)"
  unfolding bmap_def Let_def by (auto simp: obind_assoc intro!: keep_binds oks_bind [OF keep_balloc [OF refl]])

lemma keep_itrunc_direct [frames]: "keep X s \<Longrightarrow> oks (keep X) (itrunc_direct ks i s)"
  by (induction ks arbitrary: X s) (auto intro!: oks_bind [OF keep_bfree [OF refl]] simp: Let_def)

lemma keep_itrunc_indirect [frames]: "keep X s \<Longrightarrow> oks (keep X) (itrunc_indirect js d b s)"
  by (induction js arbitrary: X s) (auto intro!: oks_bind [OF keep_bfree [OF refl]] simp: Let_def)

lemma keep_itrunc [frames]: "keep X s \<Longrightarrow> oks (keep X) (itrunc i s)"
  unfolding itrunc_def Let_def
  by (auto simp: obind_assoc intro!: keep_binds oks_bind [OF keep_itrunc_direct [OF refl]] oks_bind [OF keep_itrunc_indirect [OF refl]] oks_bind [OF keep_bfree [OF refl]] keep_iupdate)

lemma keep_iput [frames]: "keep X s \<Longrightarrow> oks (keep X) (iput i s)"
  unfolding iput_def Let_def by (auto simp: obind_assoc intro!: oks_pure oks_bind [OF keep_itrunc [OF refl]] oks_bind [OF keep_iupdate [OF refl]])

lemma keep_iunlockput [frames]: "keep X s \<Longrightarrow> oks (keep X) (iunlockput i s)"
  unfolding iunlockput_def by (auto intro!: oks_bind [OF keep_iunlock [OF refl]] keep_iput)

section \<open>Files and directories\<close>

text \<open>What is relied on of the device functions: they keep the extension as well.\<close>

definition dev_keeps :: "'a fsst_scheme devsw \<Rightarrow> bool" where
  "dev_keeps dv \<longleftrightarrow> (\<forall>m f i n s. d_read dv m = Some f \<longrightarrow> oks (\<lambda>(r, bs, t). keep (fsst.more s) t) (f i n s)) \<and>
     (\<forall>m f i bs s. d_write dv m = Some f \<longrightarrow> oks (\<lambda>(r, t). keep (fsst.more s) t) (f i bs s))"

lemma keep_readi_loop [frames]: "keep X s \<Longrightarrow> oks (\<lambda>(bs, t). keep X t) (readi_loop i off k s)"
proof (induction k arbitrary: X off s rule: less_induct)
  case (less k)
  show ?case
    by (subst readi_loop.simps)
      (auto intro!: keep_binds oks_bind [OF keep_bmap [OF refl]] oks_bind [OF less.IH] simp: less.prems Let_def)
qed

lemma keep_readi [frames]: "dev_keeps dv \<Longrightarrow> keep X s \<Longrightarrow> oks (\<lambda>(r, bs, t). keep X t) (readi dv i off n s)"
  unfolding readi_def Let_def
  by (auto intro!: oks_bind [OF keep_readi_loop [OF refl]] split: option.splits simp: dev_keeps_def)

lemma keep_writei_loop [frames]: "keep X s \<Longrightarrow> oks (keep X) (writei_loop i off bs s)"
proof (induction "length bs" arbitrary: X off bs s rule: less_induct)
  case less
  show ?case
    by (subst writei_loop.simps)
      (auto intro!: keep_binds oks_bind [OF keep_bmap [OF refl]] less.hyps simp: less.prems Let_def)
qed

lemma keep_writei [frames]: "dev_keeps dv \<Longrightarrow> keep X s \<Longrightarrow> oks (\<lambda>(r, t). keep X t) (writei dv i bs off s)"
  unfolding writei_def Let_def
  by (auto intro!: oks_bind [OF keep_writei_loop [OF refl]] oks_bind [OF keep_iupdate [OF refl]] split: option.splits simp: dev_keeps_def)

lemma keep_dirlookup_loop [frames]: "dev_keeps dv \<Longrightarrow> keep X s \<Longrightarrow> oks (\<lambda>(r, t). keep X t) (dirlookup_loop dv dp name sz off s)"
proof (induction "sz - off" arbitrary: X off s rule: less_induct)
  case less
  show ?case
    by (subst dirlookup_loop.simps)
      (auto intro!: oks_bind [OF keep_readi [OF less.prems(1) refl]] oks_bind [OF keep_iget [OF refl]] less.hyps simp: less.prems)
qed

lemma keep_dirlookup [frames]: "dev_keeps dv \<Longrightarrow> keep X s \<Longrightarrow> oks (\<lambda>(r, t). keep X t) (dirlookup dv dp name s)"
  unfolding dirlookup_def by (auto intro!: keep_dirlookup_loop)

lemma keep_dirlink_loop [frames]: "dev_keeps dv \<Longrightarrow> keep X s \<Longrightarrow> oks (\<lambda>(r, t). keep X t) (dirlink_loop dv dp sz off s)"
proof (induction "sz - off" arbitrary: X off s rule: less_induct)
  case less
  show ?case
    by (subst dirlink_loop.simps)
      (auto intro!: oks_bind [OF keep_readi [OF less.prems(1) refl]] less.hyps simp: less.prems)
qed

lemma keep_dirlink [frames]: "dev_keeps dv \<Longrightarrow> keep X s \<Longrightarrow> oks (\<lambda>(r, t). keep X t) (dirlink dv dp name inum s)"
  unfolding dirlink_def
  by (auto intro!: oks_bind [OF keep_dirlookup [OF _ refl]] oks_bind [OF keep_iput [OF refl]] oks_bind [OF keep_dirlink_loop [OF _ refl]] oks_bind [OF keep_writei [OF _ refl]] oks_option)

lemma keep_namex_loop [frames]: "dev_keeps dv \<Longrightarrow> keep X s \<Longrightarrow> oks (\<lambda>(r, t). keep X t) (namex_loop dv par path name i s)"
proof (induction "length path" arbitrary: X path name i s rule: less_induct)
  case less
  show ?case
    by (subst namex_loop.simps)
      (auto intro!: oks_option oks_bind [OF keep_iput [OF refl]] oks_bind [OF keep_ilock [OF refl]] oks_bind [OF keep_iunlockput [OF refl]] oks_bind [OF keep_iunlock [OF refl]]
        oks_bind [OF keep_dirlookup [OF less.prems(1) refl]] less.hyps dest: skipelem_shorter simp: less.prems)
qed

lemma keep_namex [frames]: "dev_keeps dv \<Longrightarrow> keep X s \<Longrightarrow> oks (\<lambda>(r, t). keep X t) (namex dv path par s)"
  unfolding namex_def idup_def by (auto intro!: oks_bind [OF keep_iget [OF refl]] keep_namex_loop)

lemma keep_namei [frames]: "dev_keeps dv \<Longrightarrow> keep X s \<Longrightarrow> oks (\<lambda>(r, t). keep X t) (namei dv path s)"
  unfolding namei_def by (auto intro!: oks_bind [OF keep_namex [OF _ refl]])

lemma keep_nameiparent [frames]: "dev_keeps dv \<Longrightarrow> keep X s \<Longrightarrow> oks (\<lambda>(r, t). keep X t) (nameiparent dv path s)"
  unfolding nameiparent_def by (rule keep_namex)

lemma keep_isdirempty_loop [frames]: "dev_keeps dv \<Longrightarrow> keep X s \<Longrightarrow> oks (\<lambda>(r, t). keep X t) (isdirempty_loop dv dp sz off s)"
proof (induction "sz - off" arbitrary: X off s rule: less_induct)
  case less
  show ?case
    by (subst isdirempty_loop.simps)
      (auto intro!: oks_bind [OF keep_readi [OF less.prems(1) refl]] less.hyps simp: less.prems)
qed

end
