(* ===== verification/SysfileInv.thy ===== *)
theory SysfileInv
  imports FsFrame
begin

text \<open>
  Descriptors always denote open files. \<open>fd_inv\<close> relates the descriptors of the calling process, the file
  table, the pipes and the free pages; every system call on files keeps it. Files may have more
  references than the process has descriptors: the others belong to other processes.
\<close>

section \<open>The invariant\<close>

abbreviation nrefs :: "nat option list \<Rightarrow> nat \<Rightarrow> int" where
  "nrefs os f \<equiv> int (count_list os (Some f))"

definition pipe_end :: "(nat \<Rightarrow> pipe option) \<Rightarrow> kfile \<Rightarrow> bool" where
  "pipe_end ps x \<longleftrightarrow> (f_readable x \<longleftrightarrow> \<not> f_writable x) \<and>
     (case ps (f_pipe x) of None \<Rightarrow> False | Some q \<Rightarrow> if f_writable x then writeopen q else readopen q)"

definition refs_ok :: "kfile list \<Rightarrow> bool" where
  "refs_ok ft \<longleftrightarrow> (\<forall>f<length ft. 0 \<le> f_ref (ft ! f) \<and> (f_ref (ft ! f) = 0 \<longrightarrow> f_type (ft ! f) = FD_NONE))"

definition ends_ok :: "kfile list \<Rightarrow> (nat \<Rightarrow> pipe option) \<Rightarrow> bool" where
  "ends_ok ft ps \<longleftrightarrow> (\<forall>f<length ft. f_type (ft ! f) = FD_PIPE \<longrightarrow> pipe_end ps (ft ! f))"

definition same_end :: "kfile \<Rightarrow> kfile \<Rightarrow> bool" where
  "same_end x y \<longleftrightarrow> f_type x = FD_PIPE \<and> f_type y = FD_PIPE \<and> f_pipe x = f_pipe y \<and> f_writable x = f_writable y"

definition ends_one :: "kfile list \<Rightarrow> bool" where
  "ends_one ft \<longleftrightarrow> (\<forall>f<length ft. \<forall>g<length ft. same_end (ft ! f) (ft ! g) \<longrightarrow> f = g)"

definition pages_ok :: "(nat \<Rightarrow> pipe option) \<Rightarrow> (nat \<times> u8 list) list \<Rightarrow> bool" where
  "pages_ok ps kp \<longleftrightarrow> (\<forall>p. ps p \<noteq> None \<longrightarrow> p \<notin> fst ` set kp) \<and> distinct (map fst kp)"

definition files_ok :: "kfile list \<Rightarrow> (nat \<Rightarrow> pipe option) \<Rightarrow> (nat \<times> u8 list) list \<Rightarrow> bool" where
  "files_ok ft ps kp \<longleftrightarrow> refs_ok ft \<and> ends_ok ft ps \<and> ends_one ft \<and> pages_ok ps kp"

definition fds_ok :: "nat option list \<Rightarrow> kfile list \<Rightarrow> bool" where
  "fds_ok os ft \<longleftrightarrow> length os = 16 \<and> (\<forall>f. Some f \<in> set os \<longrightarrow> f < length ft \<and> f_type (ft ! f) \<noteq> FD_NONE) \<and>
     (\<forall>f<length ft. nrefs os f \<le> f_ref (ft ! f))"

definition fd_inv :: "'a sysst_scheme \<Rightarrow> bool" where
  "fd_inv s \<longleftrightarrow> files_ok (ftable s) (pipes s) (kpages s) \<and> fds_ok (cur_ofile s) (ftable s)"

lemma more_fields:
  fixes s t :: "'a sysst_scheme"
  assumes "fsst.more t = fsst.more s"
  shows "ftable t = ftable s" "pipes t = pipes s" "kpages t = kpages s" "cur_ofile t = cur_ofile s" "cur_killed t = cur_killed s" "u_mem t = u_mem s"
    "u_sz t = u_sz s" "u_esp t = u_esp s"
  using assms by (cases s, cases t, simp)+

lemma fd_inv_more: "fsst.more t = fsst.more s \<Longrightarrow> fd_inv t = fd_inv s" for s t :: "'a sysst_scheme"
  using more_fields [of t s] by (simp add: fd_inv_def)

section \<open>Changes of the tables\<close>

lemma files_okD:
  assumes "files_ok ft ps kp" "f < length ft"
  shows "0 \<le> f_ref (ft ! f)" "f_ref (ft ! f) = 0 \<Longrightarrow> f_type (ft ! f) = FD_NONE" "f_type (ft ! f) = FD_PIPE \<Longrightarrow> pipe_end ps (ft ! f)"
  using assms by (auto simp: files_ok_def refs_ok_def ends_ok_def)

lemma same_end_sym: "same_end x y \<Longrightarrow> same_end y x"
  by (simp add: same_end_def)

lemma ends_one_upd:
  assumes "ends_one ft" "f < length ft" "\<And>g. g < length ft \<Longrightarrow> g \<noteq> f \<Longrightarrow> \<not> same_end x (ft ! g)"
  shows "ends_one (ft[f := x])"
proof -
  have "g = h" if "g < length ft" "h < length ft" "same_end (ft[f := x] ! g) (ft[f := x] ! h)" for g h
  proof (rule ccontr)
    assume n: "g \<noteq> h"
    have "\<not> same_end (ft ! g) (ft ! h)" using assms(1) that(1,2) n unfolding ends_one_def by blast
    moreover have "\<not> same_end (ft ! g) x" if "g \<noteq> f" "g < length ft" for g using assms(3) [OF that(2,1)] same_end_sym by blast
    ultimately show False using that n assms(2,3) by (cases "g = f"; cases "h = f") auto
  qed
  then show ?thesis by (simp add: ends_one_def)
qed

lemma refs_ok_upd: "refs_ok ft \<Longrightarrow> f < length ft \<Longrightarrow> 0 \<le> f_ref x \<Longrightarrow> f_ref x = 0 \<longrightarrow> f_type x = FD_NONE \<Longrightarrow> refs_ok (ft[f := x])"
  by (simp add: refs_ok_def nth_list_update)

text \<open>A change of a file that keeps its pipe end, or that is no pipe end afterwards.\<close>

lemma files_ok_upd:
  assumes "files_ok ft ps kp" "f < length ft" "0 \<le> f_ref x" "f_ref x = 0 \<longrightarrow> f_type x = FD_NONE"
    "f_type x = FD_PIPE \<longrightarrow> same_end x (ft ! f) \<and> f_readable x = f_readable (ft ! f)"
  shows "files_ok (ft[f := x]) ps kp"
proof -
  have "pipe_end ps x" if "f_type x = FD_PIPE"
    using assms(5) that files_okD(3) [OF assms(1,2)] by (simp add: pipe_end_def same_end_def cong: option.case_cong)
  then have "ends_ok (ft[f := x]) ps" using assms(1,2) by (simp add: files_ok_def ends_ok_def nth_list_update)
  moreover have "\<not> same_end x (ft ! g)" if "g < length ft" "g \<noteq> f" for g
    using assms(1,2,5) that by (auto simp: files_ok_def ends_one_def same_end_def)
  then have "ends_one (ft[f := x])" using assms(1,2) by (intro ends_one_upd) (auto simp: files_ok_def)
  ultimately show ?thesis using assms(1-4) refs_ok_upd [of ft f x] by (simp add: files_ok_def)
qed

lemma fds_ok_upd:
  assumes "fds_ok os ft" "f < length ft" "f_type x = FD_NONE \<longrightarrow> Some f \<notin> set os" "nrefs os f \<le> f_ref x"
  shows "fds_ok os (ft[f := x])"
  using assms by (auto simp: fds_ok_def nth_list_update)

lemma nrefs_upd:
  assumes "k < length os"
  shows "nrefs (os[k := v]) f = nrefs os f - (if os ! k = Some f then 1 else 0) + (if v = Some f then 1 else 0)"
proof -
  have e: "os = take k os @ os ! k # drop (Suc k) os" "os[k := v] = take k os @ v # drop (Suc k) os"
    using assms by (simp_all add: id_take_nth_drop upd_conv_take_nth_drop)
  have "nrefs os f = nrefs (take k os) f + (if os ! k = Some f then 1 else 0) + nrefs (drop (Suc k) os) f"
    by (subst e(1)) (simp add: count_list_append)
  moreover have "nrefs (os[k := v]) f = nrefs (take k os) f + (if v = Some f then 1 else 0) + nrefs (drop (Suc k) os) f"
    unfolding e(2) by (simp add: count_list_append)
  ultimately show ?thesis by simp
qed

lemma nrefs_pos: "Some f \<in> set os \<Longrightarrow> 1 \<le> nrefs os f"
  by (metis count_list_0_iff less_one linorder_not_less of_nat_1 of_nat_mono)

text \<open>Closing one end of a pipe.\<close>

lemma files_ok_close:
  assumes "files_ok ft ps kp" "f < length ft" "f_type (ft ! f) = FD_PIPE" "p = f_pipe (ft ! f)" "w = f_writable (ft ! f)"
    "x = (ft ! f)\<lparr>f_ref := 0, f_type := FD_NONE\<rparr>"
  shows "\<exists>q. ps p = Some q \<and> (case pipeclose w q of Some q' \<Rightarrow> files_ok (ft[f := x]) (ps(p \<mapsto> q')) kp
    | None \<Rightarrow> files_ok (ft[f := x]) (ps(p := None)) ((p, d) # kp))"
proof -
  have pe: "pipe_end ps (ft ! f)" using files_okD(3) [OF assms(1-3)] .
  then obtain q where q: "ps p = Some q" by (auto simp: pipe_end_def assms(4) split: option.splits)
  have x: "f_type x = FD_NONE" "f_ref x = 0" by (simp_all add: assms(6))
  have "files_ok (ft[f := x]) ps kp" by (rule files_ok_upd [OF assms(1,2)]) (simp_all add: x)
  then have o: "refs_ok (ft[f := x])" "ends_one (ft[f := x])" "pages_ok ps kp" by (simp_all add: files_ok_def)
  have other: "f_writable (ft ! g) \<noteq> w" if "g < length ft" "g \<noteq> f" "f_type (ft ! g) = FD_PIPE" "f_pipe (ft ! g) = p" for g
    using assms(1-5) that by (auto simp: files_ok_def ends_one_def same_end_def)
  have pg: "pipe_end ps (ft ! g)" if "g < length ft" "f_type (ft ! g) = FD_PIPE" for g using files_okD(3) [OF assms(1)] that by blast
  show ?thesis
  proof (cases "pipeclose w q")
    case (Some q')
    have "pipe_end (ps(p \<mapsto> q')) (ft ! g)" if "g < length ft" "g \<noteq> f" "f_type (ft ! g) = FD_PIPE" for g
      using other [OF that] pg [OF that(1,3)] Some q by (auto simp: pipe_end_def pipeclose_def Let_def split: if_splits)
    then have "ends_ok (ft[f := x]) (ps(p \<mapsto> q'))" using assms(2) x by (simp add: ends_ok_def nth_list_update)
    moreover have "pages_ok (ps(p \<mapsto> q')) kp" using o(3) q by (auto simp: pages_ok_def)
    ultimately show ?thesis using o(1,2) q Some by (simp add: files_ok_def)
  next
    case None
    have "f_pipe (ft ! g) \<noteq> p" if "g < length ft" "g \<noteq> f" "f_type (ft ! g) = FD_PIPE" for g
      using other [OF that] pg [OF that(1,3)] None q by (auto simp: pipe_end_def pipeclose_def Let_def split: if_splits)
    then have "pipe_end (ps(p := None)) (ft ! g)" if "g < length ft" "g \<noteq> f" "f_type (ft ! g) = FD_PIPE" for g
      using pg [OF that(1,3)] that by (simp add: pipe_end_def)
    then have "ends_ok (ft[f := x]) (ps(p := None))" using assms(2) x by (simp add: ends_ok_def nth_list_update)
    moreover have "pages_ok (ps(p := None)) ((p, d) # kp)" using o(3) q by (auto simp: pages_ok_def)
    ultimately show ?thesis using o(1,2) q None by (simp add: files_ok_def)
  qed
qed

text \<open>A read or write changes what is in a pipe, and neither of its ends.\<close>

lemma files_ok_pipe:
  assumes "files_ok ft ps kp" "ps p = Some q" "readopen q' = readopen q" "writeopen q' = writeopen q"
  shows "files_ok ft (ps(p \<mapsto> q')) kp"
proof -
  have "pipe_end (ps(p \<mapsto> q')) x = pipe_end ps x" for x using assms(2-4) by (simp add: pipe_end_def)
  then show ?thesis using assms(1,2) by (simp add: files_ok_def ends_ok_def pages_ok_def) 
qed

lemma pipe_ends_run:
  "readopen (snd (pipewrite_run kd n bs q)) = readopen q \<and> writeopen (snd (pipewrite_run kd n bs q)) = writeopen q"
  "readopen (snd (piperead_run kd n q)) = readopen q \<and> writeopen (snd (piperead_run kd n q)) = writeopen q"
proof -
  show "readopen (snd (pipewrite_run kd n bs q)) = readopen q \<and> writeopen (snd (pipewrite_run kd n bs q)) = writeopen q"
    by (induction kd n bs q rule: pipewrite_run.induct) (auto simp: pipe_put_def)
  have "readopen (snd (piperead_copy k q)) = readopen q \<and> writeopen (snd (piperead_copy k q)) = writeopen q" for k
    by (induction k q rule: piperead_copy.induct) (auto simp: Let_def split: prod.splits)
  then show "readopen (snd (piperead_run kd n q)) = readopen q \<and> writeopen (snd (piperead_run kd n q)) = writeopen q"
    by (auto simp: piperead_run_def split: prod.splits) (metis snd_conv)+
qed

section \<open>Rules\<close>

lemma oks_need: "oks P bad \<Longrightarrow> (\<And>x. m = Ok (Some x) \<Longrightarrow> oks P (k x)) \<Longrightarrow> oks P (need m bad k)"
  by (cases m) (auto simp: need_def split: option.splits)

lemma oks_mono: "oks P m \<Longrightarrow> (\<And>x. P x \<Longrightarrow> Q x) \<Longrightarrow> oks Q m"
  by (cases m) auto

text \<open>What keeps the extension of the state keeps the invariant.\<close>

lemma oks_inv:
  fixes s :: "'a sysst_scheme"
  assumes "fd_inv s"
  shows "oks (keep (fsst.more s)) m \<Longrightarrow> oks fd_inv m" "oks (\<lambda>(a, t). keep (fsst.more s) t) n \<Longrightarrow> oks (\<lambda>(a, t). fd_inv t) n"
    "oks (\<lambda>(a, b, t). keep (fsst.more s) t) l \<Longrightarrow> oks (\<lambda>(a, b, t). fd_inv t) l"
proof -
  have k: "fd_inv t" if "keep (fsst.more s) t" for t using assms fd_inv_more [OF that] by simp
  show "oks (keep (fsst.more s)) m \<Longrightarrow> oks fd_inv m" by (erule oks_mono, erule k)
  show "oks (\<lambda>(a, t). keep (fsst.more s) t) n \<Longrightarrow> oks (\<lambda>(a, t). fd_inv t) n" by (erule oks_mono) (use k in auto)
  show "oks (\<lambda>(a, b, t). keep (fsst.more s) t) l \<Longrightarrow> oks (\<lambda>(a, b, t). fd_inv t) l" by (erule oks_mono) (use k in auto)
qed

lemma fd_inv_off: "fd_inv s \<Longrightarrow> fd_inv (upd_file f (\<lambda>x. x\<lparr>f_off := g x\<rparr>) s)"
proof (cases "f < length (ftable s)")
  case True
  assume a: "fd_inv s"
  have "files_ok ((ftable s)[f := (file_of s f)\<lparr>f_off := g (file_of s f)\<rparr>]) (pipes s) (kpages s)"
    by (rule files_ok_upd) (use a True files_okD [of "ftable s"] in \<open>auto simp: fd_inv_def same_end_def\<close>)
  moreover have "fds_ok (cur_ofile s) ((ftable s)[f := (file_of s f)\<lparr>f_off := g (file_of s f)\<rparr>])"
    by (rule fds_ok_upd) (use a True in \<open>auto simp: fd_inv_def fds_ok_def\<close>)
  ultimately show ?thesis by (simp add: fd_inv_def upd_file_def)
qed (simp add: upd_file_def list_update_beyond)

lemma fd_inv_user [simp]:
  "fd_inv (s\<lparr>u_mem := m\<rparr>) = fd_inv s" "fd_inv (s\<lparr>u_esp := e\<rparr>) = fd_inv s" "fd_inv (s\<lparr>cur_cwd := c\<rparr>) = fd_inv s"
  by (simp_all add: fd_inv_def)

lemma fd_inv_pipe:
  assumes "fd_inv s" "pipes s p = Some q" "readopen q' = readopen q" "writeopen q' = writeopen q"
  shows "fd_inv (s\<lparr>pipes := (pipes s)(p \<mapsto> q')\<rparr>)"
  using assms files_ok_pipe [of "ftable s" "pipes s" "kpages s" p q q'] by (simp add: fd_inv_def)

section \<open>Allocation and release of files\<close>

lemma filealloc_inv:
  assumes "fd_inv s" "filealloc s = (Some f, t)"
  shows "fd_inv t" "f < length (ftable s)" "f_ref (file_of t f) = 1" "f_type (file_of t f) = FD_NONE" "Some f \<notin> set (cur_ofile t)"
    "length (ftable t) = length (ftable s)" "cur_ofile t = cur_ofile s" "kpages t = kpages s" "pipes t = pipes s" "\<And>g. g \<noteq> f \<Longrightarrow> file_of t g = file_of s g"
    "f_ref (file_of s f) = 0"
proof -
  have f: "f < length (ftable s)" "f_ref (file_of s f) = 0" and t: "t = upd_file f (\<lambda>x. x\<lparr>f_ref := 1\<rparr>) s"
    using assms(2) find_upt(1) [of "\<lambda>f. f_ref (file_of s f) = 0" "length (ftable s)" f]
    by (auto simp: filealloc_def split: option.splits)
  have k: "files_ok (ftable s) (pipes s) (kpages s)" "fds_ok (cur_ofile s) (ftable s)" using assms(1) by (simp_all add: fd_inv_def)
  note o = files_okD [OF k(1) f(1)]
  show "f < length (ftable s)" "f_ref (file_of s f) = 0" by (rule f)+
  have n: "nrefs (cur_ofile s) f \<le> 0" using k(2) f unfolding fds_ok_def by fastforce
  then show ni: "Some f \<notin> set (cur_ofile t)" using nrefs_pos [of f "cur_ofile s"] by (auto simp: t upd_file_def)
  have "files_ok ((ftable s)[f := (file_of s f)\<lparr>f_ref := 1\<rparr>]) (pipes s) (kpages s)"
    by (rule files_ok_upd [OF k(1) f(1)]) (use o f(2) in simp_all)
  moreover have "fds_ok (cur_ofile s) ((ftable s)[f := (file_of s f)\<lparr>f_ref := 1\<rparr>])"
    by (rule fds_ok_upd [OF k(2) f(1)]) (use n ni in \<open>simp_all add: t upd_file_def\<close>)
  ultimately show "fd_inv t" by (simp add: fd_inv_def t upd_file_def)
  show "f_ref (file_of t f) = 1" "f_type (file_of t f) = FD_NONE" using f o(2) by (simp_all add: t upd_file_def)
  show "length (ftable t) = length (ftable s)" "cur_ofile t = cur_ofile s" "kpages t = kpages s" "pipes t = pipes s" "\<And>g. g \<noteq> f \<Longrightarrow> file_of t g = file_of s g"
    by (simp_all add: t upd_file_def)
qed

lemma filealloc_None: "filealloc s = (None, t) \<Longrightarrow> t = s"
  by (auto simp: filealloc_def split: option.splits)

definition closed :: "nat \<Rightarrow> 'a sysst_scheme \<Rightarrow> 'a sysst_scheme \<Rightarrow> bool" where
  "closed f s t \<longleftrightarrow> fd_inv t \<and> cur_ofile t = cur_ofile s \<and> length (ftable t) = length (ftable s) \<and> (\<forall>g. g \<noteq> f \<longrightarrow> file_of t g = file_of s g)"

lemma close_tables:
  assumes "fd_inv s" "f < length (ftable s)" "nrefs (cur_ofile s) f = 0" "x = (file_of s f)\<lparr>f_ref := 0, f_type := FD_NONE\<rparr>"
  shows "fds_ok (cur_ofile s) ((ftable s)[f := x])" "files_ok ((ftable s)[f := x]) (pipes s) (kpages s)"
proof -
  have k: "files_ok (ftable s) (pipes s) (kpages s)" "fds_ok (cur_ofile s) (ftable s)" using assms(1) by (simp_all add: fd_inv_def)
  have "Some f \<notin> set (cur_ofile s)" using nrefs_pos [of f "cur_ofile s"] assms(3) by auto
  then show "fds_ok (cur_ofile s) ((ftable s)[f := x])" by (intro fds_ok_upd [OF k(2) assms(2)]) (use assms(3,4) in simp_all)
  show "files_ok ((ftable s)[f := x]) (pipes s) (kpages s)" by (rule files_ok_upd [OF k(1) assms(2)]) (use assms(4) in simp_all)
qed

lemma close_pipe_inv:
  fixes s :: "'a sysst_scheme"
  assumes "fd_inv s" "f < length (ftable s)" "nrefs (cur_ofile s) f = 0" "f_type (file_of s f) = FD_PIPE" "x = (file_of s f)\<lparr>f_ref := 0, f_type := FD_NONE\<rparr>"
  shows "\<exists>t. close_pipe (f_pipe (file_of s f)) (f_writable (file_of s f)) (s\<lparr>ftable := (ftable s)[f := x]\<rparr>) = Ok t \<and> closed f s t"
proof -
  let ?p = "f_pipe (file_of s f)" and ?w = "f_writable (file_of s f)"
  note c = close_tables [OF assms(1-3,5)]
  have k: "files_ok (ftable s) (pipes s) (kpages s)" using assms(1) by (simp add: fd_inv_def)
  obtain q where q: "pipes s ?p = Some q" "case pipeclose ?w q of Some q' \<Rightarrow> files_ok ((ftable s)[f := x]) ((pipes s)(?p \<mapsto> q')) (kpages s)
      | None \<Rightarrow> files_ok ((ftable s)[f := x]) ((pipes s)(?p := None)) ((?p, replicate 512 1) # kpages s)"
    using files_ok_close [OF k assms(2,4) refl refl assms(5)] by blast
  show ?thesis using q c(1) by (cases "pipeclose ?w q") (simp_all add: close_pipe_def closed_def fd_inv_def)
qed

lemma fileclose_inv:
  fixes s :: "'a sysst_scheme"
  assumes "fd_inv s" "f < length (ftable s)" "nrefs (cur_ofile s) f + 1 \<le> f_ref (file_of s f)"
  shows "oks (closed f s) (fileclose f s)"
proof -
  let ?x = "(file_of s f)\<lparr>f_ref := 0, f_type := FD_NONE\<rparr>"
  let ?t = "s\<lparr>ftable := (ftable s)[f := ?x]\<rparr>"
  have k: "files_ok (ftable s) (pipes s) (kpages s)" "fds_ok (cur_ofile s) (ftable s)" using assms(1) by (simp_all add: fd_inv_def)
  show ?thesis
  proof (cases "f_ref (file_of s f) = 1")
    case False
    let ?y = "(file_of s f)\<lparr>f_ref := f_ref (file_of s f) - 1\<rparr>"
    have "files_ok ((ftable s)[f := ?y]) (pipes s) (kpages s)" by (rule files_ok_upd [OF k(1) assms(2)]) (use False assms(3) in \<open>simp_all add: same_end_def\<close>)
    moreover have "fds_ok (cur_ofile s) ((ftable s)[f := ?y])"
      by (rule fds_ok_upd [OF k(2) assms(2)]) (use k(2) assms(3) in \<open>auto simp: fds_ok_def\<close>)
    moreover have "fileclose f s = Ok (s\<lparr>ftable := (ftable s)[f := ?y]\<rparr>)"
      using assms(2,3) False by (simp add: fileclose_def Let_def upd_file_def)
    ultimately show ?thesis by (simp add: closed_def fd_inv_def)
  next
    case True
    then have n: "nrefs (cur_ofile s) f = 0" using assms(3) by simp
    have run: "fileclose f s = (case f_type (file_of s f) of FD_PIPE \<Rightarrow> close_pipe (f_pipe (file_of s f)) (f_writable (file_of s f)) ?t
        | FD_INODE \<Rightarrow> obind (begin_op ?t) (\<lambda>s'. obind (iput (f_ip (file_of s f)) s') end_op) | FD_NONE \<Rightarrow> Ok ?t)"
      using assms(2) True by (simp add: fileclose_def Let_def upd_file_def cong: fdtype.case_cong)
    have c: "closed f s ?t" using close_tables [OF assms(1,2) n refl] by (simp add: closed_def fd_inv_def)
    have io: "oks (keep (fsst.more ?t)) (obind (begin_op ?t) (\<lambda>s'. obind (iput (f_ip (file_of s f)) s') end_op))"
      by (auto intro!: oks_bind [OF keep_begin_op [OF refl]] oks_bind [OF keep_iput [OF refl]] keep_end_op)
    have "oks (closed f s) (obind (begin_op ?t) (\<lambda>s'. obind (iput (f_ip (file_of s f)) s') end_op))"
    proof (rule oks_mono [OF io])
      fix v :: "'a sysst_scheme" assume "keep (fsst.more ?t) v"
      then show "closed f s v" using c more_fields [of v ?t] fd_inv_more [of v ?t] by (simp add: closed_def)
    qed
    then show ?thesis using run c close_pipe_inv [OF assms(1,2) n _ refl] by (cases "f_type (file_of s f)") auto
  qed
qed

section \<open>System calls on descriptors\<close>

lemma argfd_some:
  assumes "argfd n s = Ok (Some (fd, f))"
  shows "0 \<le> fd" "fd < 16" "cur_ofile s ! nat fd = Some f"
  using assms by (auto simp: argfd_def need_def obind_eq_Ok split: option.splits if_splits)

lemma argfd_inv:
  assumes "fd_inv s" "argfd n s = Ok (Some (fd, f))"
  shows "nat fd < length (cur_ofile s)" "f < length (ftable s)" "f_type (file_of s f) \<noteq> FD_NONE" "nrefs (cur_ofile s) f \<le> f_ref (file_of s f)" "1 \<le> nrefs (cur_ofile s) f"
proof -
  have k: "fds_ok (cur_ofile s) (ftable s)" using assms(1) by (simp add: fd_inv_def)
  note a = argfd_some [OF assms(2)]
  show l: "nat fd < length (cur_ofile s)" using k a by (simp add: fds_ok_def)
  then have m: "Some f \<in> set (cur_ofile s)" using a(3) nth_mem by metis
  then show "f < length (ftable s)" "f_type (file_of s f) \<noteq> FD_NONE" "nrefs (cur_ofile s) f \<le> f_ref (file_of s f)" using k by (simp_all add: fds_ok_def)
  show "1 \<le> nrefs (cur_ofile s) f" by (rule nrefs_pos [OF m])
qed

lemma fdalloc_cases:
  assumes "fdalloc f s = (fd, t)"
  shows "fd = -1 \<and> t = s \<or> (0 \<le> fd \<and> fd < 16 \<and> cur_ofile s ! nat fd = None \<and> t = s\<lparr>cur_ofile := (cur_ofile s)[nat fd := Some f]\<rparr>)"
proof (cases "find (\<lambda>fd. cur_ofile s ! fd = None) [0..<nat NOFILE]")
  case None
  show ?thesis using assms unfolding fdalloc_def None by simp
next
  case (Some k)
  have k: "k < nat NOFILE" "cur_ofile s ! k = None" using find_upt(1) [OF Some] by blast+
  have "fd = int k" "t = s\<lparr>cur_ofile := (cur_ofile s)[k := Some f]\<rparr>" using assms unfolding fdalloc_def Some by simp_all
  then show ?thesis using k by simp
qed

text \<open>A new descriptor for a file that has a reference for it.\<close>

lemma fds_ok_new:
  assumes "fds_ok os ft" "k < 16" "os ! k = None" "f < length ft" "f_type (ft ! f) \<noteq> FD_NONE" "nrefs os f + 1 \<le> f_ref (ft ! f)"
  shows "fds_ok (os[k := Some f]) ft"
proof -
  have k: "k < length os" using assms(1,2) by (simp add: fds_ok_def)
  have "g < length ft \<and> f_type (ft ! g) \<noteq> FD_NONE" if "Some g \<in> set (os[k := Some f])" for g
    using that set_update_subset_insert [of os k "Some f"] assms(1,4,5) by (auto simp: fds_ok_def)
  moreover have "nrefs (os[k := Some f]) g \<le> f_ref (ft ! g)" if "g < length ft" for g
    using assms(1,3,6) that nrefs_upd [OF k, of "Some f" g] by (auto simp: fds_ok_def)
  ultimately show ?thesis using assms(1) by (simp add: fds_ok_def)
qed

lemma fds_ok_drop:
  assumes "fds_ok os ft" "k < 16"
  shows "fds_ok (os[k := None]) ft"
proof -
  have k: "k < length os" using assms by (simp add: fds_ok_def)
  have "g < length ft \<and> f_type (ft ! g) \<noteq> FD_NONE" if "Some g \<in> set (os[k := None])" for g
    using that set_update_subset_insert [of os k None] assms(1) by (auto simp: fds_ok_def)
  moreover have "nrefs (os[k := None]) g \<le> f_ref (ft ! g)" if "g < length ft" for g
    using assms(1) that nrefs_upd [OF k, of None g] by (auto simp: fds_ok_def split: if_splits)
  ultimately show ?thesis using assms(1) by (simp add: fds_ok_def)
qed

lemma sys_dup_inv:
  assumes "fd_inv s"
  shows "oks (\<lambda>(r, t). fd_inv t) (sys_dup s)"
  unfolding sys_dup_def
proof (rule oks_need, simp add: assms, clarify)
  fix fd f assume a: "argfd 0 s = Ok (Some (fd, f))"
  note i = argfd_inv [OF assms a]
  obtain k t where t: "fdalloc f s = (k, t)" by fastforce
  have ok: "files_ok (ftable s) (pipes s) (kpages s)" "fds_ok (cur_ofile s) (ftable s)" using assms by (simp_all add: fd_inv_def)
  let ?x = "(file_of s f)\<lparr>f_ref := f_ref (file_of s f) + 1\<rparr>"
  have 1: "files_ok ((ftable s)[f := ?x]) (pipes s) (kpages s)" by (rule files_ok_upd [OF ok(1) i(2)]) (use i in \<open>simp_all add: same_end_def\<close>)
  have 2: "fds_ok (cur_ofile s) ((ftable s)[f := ?x])" by (rule fds_ok_upd [OF ok(2) i(2)]) (use i in simp_all)
  have "fds_ok ((cur_ofile s)[nat k := Some f]) ((ftable s)[f := ?x])" if "0 \<le> k" "k < 16" "cur_ofile s ! nat k = None"
    by (rule fds_ok_new [OF 2]) (use that i in simp_all)
  then show "oks (\<lambda>(r, t). fd_inv t) (let (fd, s) = fdalloc f s in if fd < 0 then Ok (-1, s) else obind (filedup f s) (\<lambda>s. Ok (fd, s)))"
    using fdalloc_cases [OF t] t 1 assms by (auto simp: filedup_def fd_inv_def upd_file_def)
qed

lemma sys_close_inv:
  assumes "fd_inv s"
  shows "oks (\<lambda>(r, t). fd_inv t) (sys_close s)"
  unfolding sys_close_def
proof (rule oks_need, simp add: assms, clarify)
  fix fd f assume a: "argfd 0 s = Ok (Some (fd, f))"
  note i = argfd_inv [OF assms a] and b = argfd_some [OF a]
  let ?t = "s\<lparr>cur_ofile := (cur_ofile s)[nat fd := None]\<rparr>"
  have "fd_inv ?t" using assms fds_ok_drop [of "cur_ofile s" "ftable s" "nat fd"] b by (simp add: fd_inv_def)
  moreover have "nrefs (cur_ofile ?t) f + 1 \<le> f_ref (file_of ?t f)" using nrefs_upd [OF i(1), of None f] b i by simp
  ultimately have "oks (closed f ?t) (fileclose f ?t)" using i(2) by (intro fileclose_inv) simp_all
  then show "oks (\<lambda>(r, t). fd_inv t) (obind (fileclose f ?t) (\<lambda>s. Ok (0, s)))"
    by (rule oks_bind) (simp add: closed_def)
qed

section \<open>Reading and writing\<close>

lemma fileread_inv:
  fixes s :: "'a sysst_scheme"
  assumes "fd_inv s" "dev_keeps dv"
  shows "oks (\<lambda>(r, bs, t). fd_inv t) (fileread dv f n s)"
proof (cases "f_type (file_of s f)")
  case FD_PIPE
  have "fd_inv (s\<lparr>pipes := (pipes s)(p \<mapsto> q')\<rparr>)" if "pipes s p = Some q" "piperead_run (cur_killed s) n q = (x, q')" for p q x q'
    by (rule fd_inv_pipe [OF assms(1) that(1)]) (use pipe_ends_run(2) [of "cur_killed s" n q] that(2) in simp_all)
  then show ?thesis using assms(1) FD_PIPE by (auto simp: fileread_def split: option.splits prod.splits)
next
  case FD_INODE
  show ?thesis unfolding fileread_def FD_INODE Let_def
    by (auto simp: assms intro!: oks_bind [OF oks_inv(1) [OF _ keep_ilock [OF refl]]] oks_bind [OF oks_inv(3) [OF _ keep_readi [OF assms(2) refl]]]
        oks_bind [OF oks_inv(1) [OF _ keep_iunlock [OF refl]]] fd_inv_off)
qed (use assms in \<open>simp add: fileread_def\<close>)

lemma write_op_inv:
  fixes s :: "'a sysst_scheme"
  assumes "fd_inv s" "dev_keeps dv"
  shows "oks (\<lambda>(r, t). fd_inv t) (write_op dv f bs s)"
  unfolding write_op_def Let_def
  by (auto simp: assms intro!: oks_bind [OF oks_inv(1) [OF _ keep_begin_op [OF refl]]] oks_bind [OF oks_inv(1) [OF _ keep_ilock [OF refl]]]
      oks_bind [OF oks_inv(2) [OF _ keep_writei [OF assms(2) refl]]] oks_bind [OF oks_inv(1) [OF _ keep_iunlock [OF refl]]]
      oks_bind [OF oks_inv(1) [OF _ keep_end_op [OF refl]]] fd_inv_off)

lemma filewrite_loop_inv:
  fixes s :: "'a sysst_scheme"
  assumes "fd_inv s" "dev_keeps dv"
  shows "oks (\<lambda>(r, t). fd_inv t) (filewrite_loop dv f rd n i s)"
  using assms(1)
proof (induction "nat (n - i)" arbitrary: i s rule: less_induct)
  case less
  show ?case
    by (subst filewrite_loop.simps)
      (auto simp: less.prems Let_def intro!: oks_any [where m = "rd i k" for k] oks_bind [OF write_op_inv [OF _ assms(2)]] less.hyps)
qed

lemma filewrite_inv:
  fixes s :: "'a sysst_scheme"
  assumes "fd_inv s" "dev_keeps dv"
  shows "oks (\<lambda>(r, t). fd_inv t) (filewrite dv f rd n s)"
proof (cases "f_type (file_of s f)")
  case FD_PIPE
  have "fd_inv (s\<lparr>pipes := (pipes s)(p \<mapsto> q')\<rparr>)" if "pipes s p = Some q" "pipewrite_run (cur_killed s) n bs q = (x, q')" for p q x q' bs
    by (rule fd_inv_pipe [OF assms(1) that(1)]) (use pipe_ends_run(1) [of "cur_killed s" n bs q] that(2) in simp_all)
  then show ?thesis using assms(1) FD_PIPE
    by (auto simp: filewrite_def split: option.splits prod.splits pipe_out.splits intro!: oks_any [where m = "rd i k" for i k])
next
  case FD_INODE
  then show ?thesis using assms
    by (auto simp: filewrite_def intro!: oks_bind [OF filewrite_loop_inv])
qed (use assms in \<open>simp add: filewrite_def\<close>)

section \<open>Pipes\<close>

lemma files_ok_new_pipe:
  assumes "files_ok ft ps ((p, d) # kp)" "f < length ft" "g < length ft" "f \<noteq> g" "f_type (ft ! f) = FD_NONE" "f_type (ft ! g) = FD_NONE"
    "f_ref x = 1" "f_type x = FD_PIPE" "f_pipe x = p" "f_readable x" "\<not> f_writable x"
    "f_ref y = 1" "f_type y = FD_PIPE" "f_pipe y = p" "\<not> f_readable y" "f_writable y"
  shows "files_ok (ft[f := x, g := y]) (ps(p \<mapsto> pipe_new d)) kp"
proof -
  let ?ft = "ft[f := x, g := y]" and ?ps = "ps(p \<mapsto> pipe_new d)"
  have o: "refs_ok ft" "ends_ok ft ps" "ends_one ft" "pages_ok ps ((p, d) # kp)" using assms(1) by (simp_all add: files_ok_def)
  have pn: "ps p = None" using o(4) by (force simp: pages_ok_def)
  have ne: "f_pipe (ft ! h) \<noteq> p \<and> pipe_end ?ps (ft ! h)" if "h < length ft" "f_type (ft ! h) = FD_PIPE" for h
    using o(2) that pn by (auto simp: ends_ok_def pipe_end_def split: option.splits if_splits)
  have ns: "\<not> same_end x (ft ! h)" "\<not> same_end y (ft ! h)" if "h < length ft" for h using ne [OF that] assms(9,14) by (auto simp: same_end_def)
  have "pipe_end ?ps x" "pipe_end ?ps y" using assms(7-16) by (simp_all add: pipe_end_def pipe_new_def)
  then have "ends_ok ?ft ?ps" using ne assms(2-4) by (simp add: ends_ok_def nth_list_update)
  moreover have "ends_one (ft[f := x])"
    by (rule ends_one_upd [OF o(3) assms(2)]) (rule ns(1))
  then have "ends_one ?ft"
    by (rule ends_one_upd) (use ns(2) assms(2,3,11,16) in \<open>auto simp: nth_list_update same_end_def [of y x]\<close>)
  moreover have "refs_ok ?ft" using o(1) assms(2,3,7,12) by (simp add: refs_ok_def nth_list_update)
  moreover have "pages_ok ?ps kp" using o(4) by (auto simp: pages_ok_def)
  ultimately show ?thesis by (simp add: files_ok_def)
qed

definition new_pair :: "'a sysst_scheme \<Rightarrow> (nat \<times> nat) option \<Rightarrow> 'a sysst_scheme \<Rightarrow> bool" where
  "new_pair s r t \<longleftrightarrow> fd_inv t \<and> cur_ofile t = cur_ofile s \<and>
     (case r of None \<Rightarrow> True | Some (f, g) \<Rightarrow> f \<noteq> g \<and> (\<forall>h\<in>{f, g}. h < length (ftable t) \<and> f_ref (file_of t h) = 1 \<and>
        f_type (file_of t h) = FD_PIPE \<and> Some h \<notin> set (cur_ofile t)))"

lemma nrefs_none: "Some f \<notin> set os \<Longrightarrow> nrefs os f = 0"
  by (simp add: count_notin)

lemma close_both:
  fixes s :: "'a sysst_scheme"
  assumes "fd_inv s" "f \<noteq> g" "f < length (ftable s)" "g < length (ftable s)" "f_ref (file_of s f) = 1" "f_ref (file_of s g) = 1"
    "Some f \<notin> set (cur_ofile s)" "Some g \<notin> set (cur_ofile s)"
  shows "oks (\<lambda>(r, t). r = x \<and> fd_inv t \<and> cur_ofile t = cur_ofile s) (obind (fileclose f s) (\<lambda>s. obind (fileclose g s) (\<lambda>s. Ok (x, s))))"
proof (rule oks_bind [OF fileclose_inv [OF assms(1,3)]])
  show "nrefs (cur_ofile s) f + 1 \<le> f_ref (file_of s f)" using assms nrefs_none by simp
  fix u assume u: "closed f s u"
  have "oks (closed g u) (fileclose g u)" by (rule fileclose_inv) (use u assms nrefs_none in \<open>simp_all add: closed_def\<close>)
  then show "oks (\<lambda>(r, t). r = x \<and> fd_inv t \<and> cur_ofile t = cur_ofile s) (obind (fileclose g u) (\<lambda>s. Ok (x, s)))"
    by (rule oks_bind) (use u in \<open>simp add: closed_def\<close>)
qed

lemma pipe_pair:
  fixes s :: "'a sysst_scheme"
  assumes "fd_inv s" "kpages s = (p, d) # kp" "f < length (ftable s)" "g < length (ftable s)" "f \<noteq> g" "f_type (file_of s f) = FD_NONE" "f_type (file_of s g) = FD_NONE"
    "f_ref (file_of s f) = 1" "f_ref (file_of s g) = 1" "Some f \<notin> set (cur_ofile s)" "Some g \<notin> set (cur_ofile s)"
  shows "new_pair s (Some (f, g)) (upd_file g (\<lambda>x. x\<lparr>f_type := FD_PIPE, f_readable := False, f_writable := True, f_pipe := p\<rparr>)
    (upd_file f (\<lambda>x. x\<lparr>f_type := FD_PIPE, f_readable := True, f_writable := False, f_pipe := p\<rparr>) (s\<lparr>kpages := kp, pipes := (pipes s)(p \<mapsto> pipe_new d)\<rparr>)))"
proof -
  let ?x = "(file_of s f)\<lparr>f_type := FD_PIPE, f_readable := True, f_writable := False, f_pipe := p\<rparr>"
  let ?y = "(file_of s g)\<lparr>f_type := FD_PIPE, f_readable := False, f_writable := True, f_pipe := p\<rparr>"
  have k: "files_ok (ftable s) (pipes s) ((p, d) # kp)" "fds_ok (cur_ofile s) (ftable s)" using assms(1,2) by (simp_all add: fd_inv_def)
  have "files_ok ((ftable s)[f := ?x, g := ?y]) ((pipes s)(p \<mapsto> pipe_new d)) kp"
    by (rule files_ok_new_pipe [OF k(1) assms(3-7)]) (use assms(8,9) in simp_all)
  moreover have "fds_ok (cur_ofile s) ((ftable s)[f := ?x])" by (rule fds_ok_upd [OF k(2) assms(3)]) (use assms nrefs_none in auto)
  then have "fds_ok (cur_ofile s) ((ftable s)[f := ?x, g := ?y])" by (rule fds_ok_upd) (use assms nrefs_none in auto)
  ultimately show ?thesis using assms(3-5,8-11) by (simp add: new_pair_def fd_inv_def upd_file_def)
qed

lemma pipealloc_inv:
  fixes s :: "'a sysst_scheme"
  assumes "fd_inv s"
  shows "oks (\<lambda>(r, t). new_pair s r t) (pipealloc s)"
proof (cases "filealloc s")
  case (Pair r1 s1)
  show ?thesis
  proof (cases r1)
    case None
    then show ?thesis using Pair assms filealloc_None [of s s1] by (simp add: pipealloc_def new_pair_def)
  next
    case (Some f)
    note a = filealloc_inv [OF assms Pair [unfolded Some]]
    obtain r2 s2 where p2: "filealloc s1 = (r2, s2)" by fastforce
    have cf: "oks (\<lambda>t. closed f s1 t) (fileclose f s1)" by (rule fileclose_inv [OF a(1)]) (use a nrefs_none in auto)
    show ?thesis
    proof (cases r2)
      case None
      have "pipealloc s = obind (fileclose f s1) (\<lambda>s. Ok (None, s))" using Pair Some None p2 filealloc_None [of s1 s2] by (simp add: pipealloc_def)
      then show ?thesis using a(7) by (auto intro!: oks_bind [OF cf] simp: closed_def new_pair_def)
    next
      case (Some g)
      note b = filealloc_inv [OF a(1) p2 [unfolded Some]]
      have "f \<noteq> g" using a(3) b(11) by auto
      then have fg: "f \<noteq> g" "f_type (file_of s2 f) = FD_NONE" "f_ref (file_of s2 f) = 1" using a(3,4) b(10) [of f] by simp_all
      have ni: "Some f \<notin> set (cur_ofile s)" "Some g \<notin> set (cur_ofile s)" using a(5,7) b(5,7) by simp_all
      show ?thesis
      proof (cases "kpages s2")
        case Nil
        have "pipealloc s = obind (fileclose f s2) (\<lambda>s. obind (fileclose g s) (\<lambda>s. Ok (None, s)))"
          using Pair \<open>r1 = Some f\<close> Some p2 Nil by (simp add: pipealloc_def)
        moreover have "oks (\<lambda>(r, t). r = None \<and> fd_inv t \<and> cur_ofile t = cur_ofile s2) (obind (fileclose f s2) (\<lambda>s. obind (fileclose g s) (\<lambda>s. Ok (None, s))))"
          by (rule close_both [OF b(1) fg(1)]) (use a(2,6,7) b(2,3,6,7) fg(3) ni in simp_all)
        ultimately show ?thesis using a(7) b(7) by (auto elim!: oks_mono simp: new_pair_def)
      next
        case (Cons pd kp)
        obtain p d where pd: "pd = (p, d)" by fastforce
        have l: "f < length (ftable s2)" "g < length (ftable s2)" using a(2,6) b(2,6) by simp_all
        show ?thesis using pipe_pair [OF b(1) Cons [unfolded pd] l fg(1,2) b(4) fg(3) b(3)] Pair \<open>r1 = Some f\<close> Some p2 Cons pd ni a(7) b(7)
          by (simp add: pipealloc_def Let_def new_pair_def)
      qed
    qed
  qed
qed

lemma put_user_inv: "fd_inv s \<Longrightarrow> oks fd_inv (put_user a bs s)"
  unfolding put_user_def by (rule oks_any) simp

lemma add_new:
  assumes "new_pair s (Some (f, g)) t" "fd < 16" "cur_ofile t ! fd = None"
  shows "fd_inv (t\<lparr>cur_ofile := (cur_ofile t)[fd := Some f]\<rparr>)"
proof -
  have d: "files_ok (ftable t) (pipes t) (kpages t)" "fds_ok (cur_ofile t) (ftable t)" "f < length (ftable t)" "f_ref (file_of t f) = 1" "f_type (file_of t f) = FD_PIPE"
      "Some f \<notin> set (cur_ofile t)"
    using assms(1) by (auto simp: new_pair_def fd_inv_def)
  have "fds_ok ((cur_ofile t)[fd := Some f]) (ftable t)"
    by (rule fds_ok_new [OF d(2) assms(2,3) d(3)]) (use d(4,5) nrefs_none [OF d(6)] in simp_all)
  then show ?thesis using d(1) by (simp add: fd_inv_def)
qed

lemma pipe_fds_inv:
  fixes s :: "'a sysst_scheme"
  assumes n: "new_pair s (Some (f, g)) t"
  shows "oks (\<lambda>(r, t). fd_inv t) (pipe_fds p f g t)"
proof -
  have d: "fd_inv t" "f \<noteq> g" "f < length (ftable t)" "g < length (ftable t)" "f_ref (file_of t f) = 1" "f_ref (file_of t g) = 1"
      "f_type (file_of t g) = FD_PIPE" "Some f \<notin> set (cur_ofile t)" "Some g \<notin> set (cur_ofile t)"
    using n by (auto simp: new_pair_def)
  have cl: "oks (\<lambda>(r, t). fd_inv t) (obind (fileclose f t) (\<lambda>s. obind (fileclose g s) (\<lambda>s. Ok (-1, s))))"
    by (rule oks_mono [OF close_both [OF d(1-6,8,9)]]) auto
  obtain fd0 u where u: "fdalloc f t = (fd0, u)" by fastforce
  obtain fd1 v where v: "fdalloc g u = (fd1, v)" by fastforce
  show ?thesis
  proof (cases "0 \<le> fd0")
    case False
    then have "pipe_fds p f g t = obind (fileclose f t) (\<lambda>s. obind (fileclose g s) (\<lambda>s. Ok (-1, s)))"
      using fdalloc_cases [OF u] u by (simp add: pipe_fds_def)
    then show ?thesis using cl by simp
  next
    case True
    then have f0: "fd0 < 16" "cur_ofile t ! nat fd0 = None" "u = t\<lparr>cur_ofile := (cur_ofile t)[nat fd0 := Some f]\<rparr>"
      using fdalloc_cases [OF u] by auto
    have iu: "fd_inv u" unfolding f0(3) by (rule add_new [OF n]) (use f0 True in simp_all)
    show ?thesis
    proof (cases "0 \<le> fd1")
      case False
      have ut: "u\<lparr>cur_ofile := (cur_ofile u)[nat fd0 := None]\<rparr> = t" using f0(2,3) list_update_id [of "cur_ofile t" "nat fd0"] by simp
      have "fd1 = -1" "v = u" using False fdalloc_cases [OF v] by auto
      then have "pipe_fds p f g t = obind (fileclose f t) (\<lambda>s. obind (fileclose g s) (\<lambda>s. Ok (-1, s)))"
        using u v True by (simp add: pipe_fds_def ut)
      then show ?thesis using cl by simp
    next
      case fd1: True
      have ng: "Some g \<notin> set (cur_ofile u)" using d(2,9) f0(3) set_update_subset_insert [of "cur_ofile t" "nat fd0" "Some f"] by auto
      have w: "fd1 < 16" "cur_ofile u ! nat fd1 = None" "v = u\<lparr>cur_ofile := (cur_ofile u)[nat fd1 := Some g]\<rparr>"
        using fdalloc_cases [OF v] fd1 by auto
      have k: "files_ok (ftable u) (pipes u) (kpages u)" "fds_ok (cur_ofile u) (ftable u)" using iu by (simp_all add: fd_inv_def)
      have "fds_ok ((cur_ofile u)[nat fd1 := Some g]) (ftable u)"
        by (rule fds_ok_new [OF k(2)]) (use w fd1 d(4,6,7) f0(3) nrefs_none [OF ng] in simp_all)
      then have "fd_inv v" using k(1) w(3) by (simp add: fd_inv_def)
      then show ?thesis using u v True fd1 by (simp add: pipe_fds_def) (intro oks_bind [OF put_user_inv], simp_all)
    qed
  qed
qed

lemma sys_pipe_inv:
  fixes s :: "'a sysst_scheme"
  assumes "fd_inv s"
  shows "oks (\<lambda>(r, t). fd_inv t) (sys_pipe s)"
  unfolding sys_pipe_def
proof (rule oks_need, simp add: assms, rule oks_bind [OF pipealloc_inv [OF assms]], clarify)
  fix p r t assume n: "new_pair s r t"
  show "oks (\<lambda>(r, t). fd_inv t) (case r of None \<Rightarrow> Ok (-1, t) | Some (f, g) \<Rightarrow> pipe_fds p f g t)"
  proof (cases r)
    case None
    then show ?thesis using n by (simp add: new_pair_def)
  next
    case (Some fg)
    then show ?thesis using pipe_fds_inv [of s "fst fg" "snd fg" t p] n by (cases fg) simp
  qed
qed

section \<open>Calls that leave the descriptors alone\<close>

lemma keep_end_with [frames]: "keep X s \<Longrightarrow> oks (\<lambda>(r, t). keep X t) (end_with k s)" for s :: "'a sysst_scheme"
  unfolding end_with_def by (auto intro!: oks_bind [OF keep_end_op [OF refl]])

lemma more_nlink [simp]: "fsst.more (add_nlink i d s) = fsst.more s"
  by (simp add: add_nlink_def)

lemma keep_isdirempty [frames]: "dev_keeps dv \<Longrightarrow> keep X s \<Longrightarrow> oks (\<lambda>(r, t). keep X t) (isdirempty dv dp s)"
  unfolding isdirempty_def by (rule keep_isdirempty_loop)

lemmas keep_steps = oks_bind [OF keep_begin_op [OF refl]] oks_bind [OF keep_ilock [OF refl]] oks_bind [OF keep_iunlock [OF refl]] oks_bind [OF keep_iput [OF refl]]
  oks_bind [OF keep_iunlockput [OF refl]] oks_bind [OF keep_iupdate [OF refl]] oks_bind [OF keep_ialloc [OF refl]] oks_bind [OF keep_end_op [OF refl]]
  oks_bind [OF keep_namei [OF _ refl]] oks_bind [OF keep_nameiparent [OF _ refl]] oks_bind [OF keep_dirlookup [OF _ refl]] oks_bind [OF keep_dirlink [OF _ refl]]
  oks_bind [OF keep_writei [OF _ refl]] oks_bind [OF keep_isdirempty [OF _ refl]]

lemma keep_link_bad [frames]: "keep X s \<Longrightarrow> oks (\<lambda>(r, t). keep X t) (link_bad i s)" for s :: "'a sysst_scheme"
  unfolding link_bad_def by (auto intro!: keep_steps keep_end_with)

lemma keep_sys_link:
  fixes s :: "'a sysst_scheme"
  assumes "dev_keeps dv"
  shows "oks (\<lambda>(r, t). keep (fsst.more s) t) (sys_link dv s)"
  unfolding sys_link_def by (auto simp: assms intro!: oks_need oks_option keep_steps keep_link_bad keep_end_with)

lemma keep_unlink_entry [frames]:
  fixes s :: "'a sysst_scheme"
  assumes "dev_keeps dv" "keep X s"
  shows "oks (\<lambda>(r, t). keep X t) (unlink_entry dv dp ip off s)"
  unfolding unlink_entry_def using assms by (auto intro!: keep_steps keep_end_with)

lemma keep_sys_unlink:
  fixes s :: "'a sysst_scheme"
  assumes "dev_keeps dv"
  shows "oks (\<lambda>(r, t). keep (fsst.more s) t) (sys_unlink dv s)"
  unfolding sys_unlink_def unlink_bad_def by (auto simp: assms intro!: oks_need oks_option keep_steps keep_unlink_entry keep_end_with)

lemma keep_create_new [frames]:
  fixes s :: "'a sysst_scheme"
  assumes "dev_keeps dv" "keep X s"
  shows "oks (\<lambda>(r, t). keep X t) (create_new dv dp name ty ma mi s)"
  unfolding create_new_def using assms by (auto simp: obind_assoc intro!: keep_steps)

lemma keep_create [frames]:
  fixes s :: "'a sysst_scheme"
  assumes "dev_keeps dv" "keep X s"
  shows "oks (\<lambda>(r, t). keep X t) (create dv path ty ma mi s)"
  unfolding create_def using assms by (auto intro!: oks_option keep_steps oks_bind [OF keep_create_new [OF _ refl]])

lemma keep_open_inode [frames]:
  fixes s :: "'a sysst_scheme"
  assumes "dev_keeps dv" "keep X s"
  shows "oks (\<lambda>(r, t). keep X t) (open_inode dv path m s)"
  unfolding open_inode_def using assms by (auto intro!: oks_option keep_steps keep_create)

lemma keep_sys_mkdir:
  fixes s :: "'a sysst_scheme"
  assumes "dev_keeps dv"
  shows "oks (\<lambda>(r, t). keep (fsst.more s) t) (sys_mkdir dv s)"
  unfolding sys_mkdir_def
  by (auto simp: assms intro!: oks_need oks_option keep_steps keep_end_with oks_bind [OF keep_create [OF _ refl]])

lemma keep_sys_mknod:
  fixes s :: "'a sysst_scheme"
  assumes "dev_keeps dv"
  shows "oks (\<lambda>(r, t). keep (fsst.more s) t) (sys_mknod dv s)"
  unfolding sys_mknod_def
  by (auto simp: assms intro!: oks_need oks_option keep_steps keep_end_with oks_bind [OF keep_create [OF _ refl]])

lemma keep_sys_chdir:
  fixes s :: "'a sysst_scheme"
  assumes "dev_keeps dv"
  shows "oks (\<lambda>(r, t). keep (fsst.more s) t) (sys_chdir dv s)"
  unfolding sys_chdir_def by (auto simp: assms intro!: oks_need oks_option keep_steps keep_end_with)

lemma sys_fstat_inv:
  fixes s :: "'a sysst_scheme"
  assumes "fd_inv s"
  shows "oks (\<lambda>(r, t). fd_inv t) (sys_fstat s)"
proof -
  have "oks (\<lambda>(st, t). fd_inv t) (filestat f s)" for f
    unfolding filestat_def Let_def
    by (auto simp: assms intro!: oks_bind [OF oks_inv(1) [OF _ keep_ilock [OF refl]]] oks_bind [OF oks_inv(1) [OF _ keep_iunlock [OF refl]]])
  then show ?thesis unfolding sys_fstat_def put_stat_def
    by (auto simp: assms obind_assoc intro!: oks_need oks_bind [of _ "filestat f s" for f] oks_option oks_bind [OF put_user_inv])
qed

section \<open>Opening files\<close>

lemma open_fd_inv:
  fixes s t u w :: "'a sysst_scheme"
  assumes "fd_inv s" "filealloc s = (Some f, t)" "0 \<le> fd" "fdalloc f t = (fd, u)" "fsst.more w = fsst.more u"
    "\<And>x. f_type (h x) = FD_INODE" "\<And>x. f_ref (h x) = f_ref x"
  shows "fd_inv (upd_file f h w)"
proof -
  note a = filealloc_inv [OF assms(1,2)]
  have u: "fd < 16" "cur_ofile t ! nat fd = None" "u = t\<lparr>cur_ofile := (cur_ofile t)[nat fd := Some f]\<rparr>" using fdalloc_cases [OF assms(4)] assms(3) by auto
  note w = more_fields [OF assms(5)]
  have k: "files_ok (ftable t) (pipes t) (kpages t)" "fds_ok (cur_ofile t) (ftable t)" using a(1) by (simp_all add: fd_inv_def)
  let ?x = "h (file_of t f)"
  have l: "f < length (ftable t)" using a(2,6) by simp
  have n: "nrefs (cur_ofile t) f = 0" by (rule nrefs_none [OF a(5)])
  have "files_ok ((ftable t)[f := ?x]) (pipes t) (kpages t)" by (rule files_ok_upd [OF k(1) l]) (use assms(6,7) a(3) in simp_all)
  moreover have "fds_ok (cur_ofile t) ((ftable t)[f := ?x])" by (rule fds_ok_upd [OF k(2) l]) (use assms(6,7) a(3) n in simp_all)
  then have "fds_ok ((cur_ofile t)[nat fd := Some f]) ((ftable t)[f := ?x])"
    by (rule fds_ok_new) (use u assms(3,6,7) l a(3) n in simp_all)
  ultimately show ?thesis using w u(3) by (simp add: fd_inv_def upd_file_def)
qed

lemma open_tail_inv:
  fixes s :: "'a sysst_scheme"
  assumes "fd_inv s" "\<And>x. f_type (h x) = FD_INODE" "\<And>x. f_ref (h x) = f_ref x"
  shows "oks (\<lambda>(r, t). fd_inv t) (case filealloc s of
      (None, s) \<Rightarrow> obind (iunlockput ip s) (end_with (-1))
    | (Some f, s) \<Rightarrow> let (fd, s) = fdalloc f s in
        if fd < 0 then obind (fileclose f s) (\<lambda>s. obind (iunlockput ip s) (end_with (-1)))
        else obind (iunlock ip s) (\<lambda>s. obind (end_op s) (\<lambda>s. Ok (fd, upd_file f h s))))"
proof (cases "filealloc s")
  case (Pair r t)
  have fin: "oks (\<lambda>(r, t). fd_inv t) (obind (iunlockput ip v) (end_with (-1)))" if "fd_inv v" for v :: "'a sysst_scheme"
    by (rule oks_inv(2) [OF that]) (auto intro!: keep_steps keep_end_with)
  show ?thesis
  proof (cases r)
    case None
    then show ?thesis using Pair filealloc_None [of s t] fin [OF assms(1)] by simp
  next
    case (Some f)
    note a = filealloc_inv [OF assms(1) Pair [unfolded Some]]
    obtain fd u where u: "fdalloc f t = (fd, u)" by fastforce
    show ?thesis
    proof (cases "0 \<le> fd")
      case True
      have "fd_inv (upd_file f h w)" if "fsst.more w = fsst.more u" for w
        by (rule open_fd_inv [OF assms(1) Pair [unfolded Some] True u that assms(2,3)])
      then show ?thesis using Pair Some u True by (auto intro!: keep_steps)
    next
      case False
      have "oks (\<lambda>t. fd_inv t) (fileclose f t)"
        by (rule oks_mono [OF fileclose_inv [OF a(1)]]) (use a(2,3,5,6) nrefs_none in \<open>auto simp: closed_def\<close>)
      then have "oks (\<lambda>(r, t). fd_inv t) (obind (fileclose f t) (\<lambda>s. obind (iunlockput ip s) (end_with (-1))))"
        by (rule oks_bind) (rule fin)
      then show ?thesis using Pair Some u False fdalloc_cases [OF u] by auto
    qed
  qed
qed

lemma sys_open_inv:
  fixes s :: "'a sysst_scheme"
  assumes "fd_inv s" "dev_keeps dv"
  shows "oks (\<lambda>(r, t). fd_inv t) (sys_open dv s)"
proof -
  have e: "oks (\<lambda>(r, t). fd_inv t) (end_with (-1) v)" if "fd_inv v" for v :: "'a sysst_scheme"
    by (rule oks_inv(2) [OF that keep_end_with [OF refl]])
  show ?thesis unfolding sys_open_def
    by (intro oks_need oks_bind [OF oks_inv(1) [OF _ keep_begin_op [OF refl]]], simp_all add: assms split_beta,
        intro oks_need oks_bind [OF oks_inv(1) [OF _ keep_begin_op [OF refl]]] oks_bind [OF oks_inv(2) [OF _ keep_open_inode [OF assms(2) refl]]])
      (auto simp: assms intro!: oks_option e open_tail_inv)
qed

lemma sys_read_inv:
  assumes "fd_inv s" "dev_keeps dv"
  shows "oks (\<lambda>(r, t). fd_inv t) (sys_read dv s)"
  unfolding sys_read_def
  by (auto simp: assms intro!: oks_need oks_bind [OF fileread_inv [OF _ assms(2)]] oks_bind [OF put_user_inv])

lemma sys_write_inv:
  assumes "fd_inv s" "dev_keeps dv"
  shows "oks (\<lambda>(r, t). fd_inv t) (sys_write dv s)"
  unfolding sys_write_def by (auto simp: assms intro!: oks_need filewrite_inv)

lemma sys_getfilename_inv:
  assumes "fd_inv s"
  shows "oks (\<lambda>(r, t). fd_inv t) (sys_getfilename s)"
  unfolding sys_getfilename_def getfilename_def
  by (auto simp: assms obind_assoc intro!: oks_need oks_any [where m = "ustrncpy n d t m" for n d t m])

section \<open>The process and its system calls\<close>

text \<open>The program changes its memory and its stack pointer between the calls.\<close>

inductive sys_step :: "'a sysst_scheme devsw \<Rightarrow> 'a sysst_scheme \<Rightarrow> 'a sysst_scheme \<Rightarrow> bool" for dv where
  do_user: "sys_step dv s (s\<lparr>u_mem := m, u_esp := e\<rparr>)"
| do_dup: "sys_dup s = Ok (r, t) \<Longrightarrow> sys_step dv s t"
| do_read: "sys_read dv s = Ok (r, t) \<Longrightarrow> sys_step dv s t"
| do_write: "sys_write dv s = Ok (r, t) \<Longrightarrow> sys_step dv s t"
| do_close: "sys_close s = Ok (r, t) \<Longrightarrow> sys_step dv s t"
| do_fstat: "sys_fstat s = Ok (r, t) \<Longrightarrow> sys_step dv s t"
| do_link: "sys_link dv s = Ok (r, t) \<Longrightarrow> sys_step dv s t"
| do_unlink: "sys_unlink dv s = Ok (r, t) \<Longrightarrow> sys_step dv s t"
| do_open: "sys_open dv s = Ok (r, t) \<Longrightarrow> sys_step dv s t"
| do_mkdir: "sys_mkdir dv s = Ok (r, t) \<Longrightarrow> sys_step dv s t"
| do_mknod: "sys_mknod dv s = Ok (r, t) \<Longrightarrow> sys_step dv s t"
| do_chdir: "sys_chdir dv s = Ok (r, t) \<Longrightarrow> sys_step dv s t"
| do_pipe: "sys_pipe s = Ok (r, t) \<Longrightarrow> sys_step dv s t"
| do_getfilename: "sys_getfilename s = Ok (r, t) \<Longrightarrow> sys_step dv s t"

inductive sys_reach :: "'a sysst_scheme devsw \<Rightarrow> 'a sysst_scheme \<Rightarrow> 'a sysst_scheme \<Rightarrow> bool" for dv s where
  start: "sys_reach dv s s"
| step: "sys_reach dv s t \<Longrightarrow> sys_step dv t u \<Longrightarrow> sys_reach dv s u"

lemma sys_step_inv:
  fixes s :: "'a sysst_scheme"
  assumes "sys_step dv s t" "dev_keeps dv" "fd_inv s"
  shows "fd_inv t"
  using assms(1)
proof cases
  case do_link
  then show ?thesis using oks_inv(2) [OF assms(3) keep_sys_link [OF assms(2)]] by simp
next
  case do_unlink
  then show ?thesis using oks_inv(2) [OF assms(3) keep_sys_unlink [OF assms(2)]] by simp
next
  case do_mkdir
  then show ?thesis using oks_inv(2) [OF assms(3) keep_sys_mkdir [OF assms(2)]] by simp
next
  case do_mknod
  then show ?thesis using oks_inv(2) [OF assms(3) keep_sys_mknod [OF assms(2)]] by simp
next
  case do_chdir
  then show ?thesis using oks_inv(2) [OF assms(3) keep_sys_chdir [OF assms(2)]] by simp
qed (use assms(3) sys_dup_inv [OF assms(3)] sys_read_inv [OF assms(3,2)] sys_write_inv [OF assms(3,2)] sys_close_inv [OF assms(3)]
    sys_fstat_inv [OF assms(3)] sys_open_inv [OF assms(3,2)] sys_pipe_inv [OF assms(3)] sys_getfilename_inv [OF assms(3)] in simp_all)

text \<open>At the start no file is open.\<close>

definition files_boot :: "'a sysst_scheme \<Rightarrow> bool" where
  "files_boot s \<longleftrightarrow> (\<forall>x\<in>set (ftable s). f_ref x = 0 \<and> f_type x = FD_NONE) \<and> cur_ofile s = replicate 16 None \<and> (\<forall>p. pipes s p = None) \<and>
     distinct (map fst (kpages s))"

lemma files_boot_inv: "files_boot s \<Longrightarrow> fd_inv s"
  by (auto simp: files_boot_def fd_inv_def files_ok_def refs_ok_def ends_ok_def ends_one_def same_end_def pages_ok_def fds_ok_def)

lemma sys_reach_inv: "sys_reach dv s t \<Longrightarrow> dev_keeps dv \<Longrightarrow> fd_inv s \<Longrightarrow> fd_inv t" for s t :: "'a sysst_scheme"
  by (induction rule: sys_reach.induct) (auto intro: sys_step_inv)

section \<open>Properties\<close>

text \<open>C11. A descriptor always denotes an open file. From a state with no open file, after any sequence of
  system calls on files, with any arguments and any changes that the program makes to its memory in
  between: a descriptor of the process refers to an entry of the file table that has a type and at least
  as many references as the process has descriptors for it; an entry with no reference has no type; and
  an entry for a pipe refers to an allocated pipe, whose page is not on the free list and whose end of
  that direction is open. So the panics of \<open>filedup\<close>, \<open>fileclose\<close>, \<open>fileread\<close> and \<open>filewrite\<close> are not
  reachable through a descriptor, and no freed pipe is used. The device functions are assumed to leave
  the open files alone.\<close>

theorem descriptors_sound:
  fixes s0 s :: "'a sysst_scheme"
  assumes "sys_reach dv s0 s" "files_boot s0" "dev_keeps dv"
  shows "(\<forall>fd f. fd < 16 \<longrightarrow> cur_ofile s ! fd = Some f \<longrightarrow> f < length (ftable s) \<and> f_type (file_of s f) \<noteq> FD_NONE \<and>
      1 \<le> f_ref (file_of s f) \<and> nrefs (cur_ofile s) f \<le> f_ref (file_of s f)) \<and>
    (\<forall>f<length (ftable s). f_ref (file_of s f) = 0 \<longrightarrow> f_type (file_of s f) = FD_NONE) \<and>
    (\<forall>f<length (ftable s). f_type (file_of s f) = FD_PIPE \<longrightarrow> (\<exists>q. pipes s (f_pipe (file_of s f)) = Some q \<and>
      f_pipe (file_of s f) \<notin> fst ` set (kpages s) \<and> (if f_writable (file_of s f) then writeopen q else readopen q)))"
proof -
  have i: "fd_inv s" by (rule sys_reach_inv [OF assms(1,3) files_boot_inv [OF assms(2)]])
  then have k: "files_ok (ftable s) (pipes s) (kpages s)" "fds_ok (cur_ofile s) (ftable s)" by (simp_all add: fd_inv_def)
  have "f < length (ftable s) \<and> f_type (file_of s f) \<noteq> FD_NONE \<and> 1 \<le> f_ref (file_of s f) \<and> nrefs (cur_ofile s) f \<le> f_ref (file_of s f)"
    if "fd < 16" "cur_ofile s ! fd = Some f" for fd f
  proof -
    have "Some f \<in> set (cur_ofile s)" using k(2) that nth_mem [of fd "cur_ofile s"] by (simp add: fds_ok_def)
    then show ?thesis using k(2) nrefs_pos [of f "cur_ofile s"] by (fastforce simp: fds_ok_def)
  qed
  moreover have "\<exists>q. pipes s (f_pipe (file_of s f)) = Some q \<and> f_pipe (file_of s f) \<notin> fst ` set (kpages s) \<and>
      (if f_writable (file_of s f) then writeopen q else readopen q)" if a: "f < length (ftable s)" "f_type (file_of s f) = FD_PIPE" for f
  proof -
    obtain q where q: "pipes s (f_pipe (file_of s f)) = Some q" "if f_writable (file_of s f) then writeopen q else readopen q"
      using files_okD(3) [OF k(1) a] by (auto simp: pipe_end_def split: option.splits)
    moreover have "f_pipe (file_of s f) \<notin> fst ` set (kpages s)" using k(1) q(1) unfolding files_ok_def pages_ok_def by blast
    ultimately show ?thesis by blast
  qed
  ultimately show ?thesis using files_okD(2) [OF k(1)] by blast
qed

section \<open>Witnesses\<close>

text \<open>A process with zeroed memory calls \<open>pipe\<close>: descriptors 0 and 1 are the two ends.\<close>

definition file0 :: kfile where
  "file0 = \<lparr>f_type = FD_NONE, f_ref = 0, f_readable = False, f_writable = False, f_pipe = 0, f_ip = 0, f_off = 0, f_name = 0\<rparr>"

definition demo_sys :: sysst where
  "demo_sys = \<lparr>disk = demo_disk, disksize = 1000, bufs = [], cur_pid = 1, written = [],
     log_start = 2, log_size = 30, outstanding = 0, committing = False, log_dev = 1, lh_n = 0, lh_block = replicate 30 0,
     sblk = demo_sb, icache = [], cur_cwd = 0, ftable = [file0, file0], pipes = (\<lambda>_. None), kpages = [(7, replicate 512 0)], cur_killed = False,
     cur_ofile = replicate 16 None, u_mem = (\<lambda>_. Some 0), u_sz = 0x1000, u_esp = 0x800\<rparr>"

definition demo_sys1 :: sysst where
  "demo_sys1 = demo_sys\<lparr>kpages := [], pipes := [7 \<mapsto> pipe_new (replicate 512 0)],
     ftable := [file0\<lparr>f_ref := 1, f_type := FD_PIPE, f_readable := True, f_writable := False, f_pipe := 7\<rparr>,
       file0\<lparr>f_ref := 1, f_type := FD_PIPE, f_readable := False, f_writable := True, f_pipe := 7\<rparr>]\<rparr>"

lemma demo_pipe: "sys_pipe demo_sys = Ok (0, demo_sys1\<lparr>cur_ofile := (replicate 16 None)[0 := Some 0, 1 := Some 1],
    u_mem := (\<lambda>_. Some 0)(0 \<mapsto> 0, 1 \<mapsto> 0, 2 \<mapsto> 0, 3 \<mapsto> 0, 4 \<mapsto> 1, 5 \<mapsto> 0, 6 \<mapsto> 0, 7 \<mapsto> 0)\<rparr>)"
proof -
  have a: "s_argptr 0 8 demo_sys = Ok (Some 0)"
    by (simp add: demo_sys_def argptr_def argint_def fetchint_def uld32_def uld8_def to_uint_def to_int_def)
  have p: "pipealloc demo_sys = Ok (Some (0, 1), demo_sys1)"
    by (simp add: pipealloc_def filealloc_def upd_file_def demo_sys_def demo_sys1_def file0_def Let_def)
  have "pipe_fds 0 0 1 demo_sys1 = Ok (0, demo_sys1\<lparr>cur_ofile := (replicate 16 None)[0 := Some 0, 1 := Some 1],
    u_mem := (\<lambda>_. Some 0)(0 \<mapsto> 0, 1 \<mapsto> 0, 2 \<mapsto> 0, 3 \<mapsto> 0, 4 \<mapsto> 1, 5 \<mapsto> 0, 6 \<mapsto> 0, 7 \<mapsto> 0)\<rparr>)"
    by (simp add: pipe_fds_def fdalloc_def put_user_def bytes32_def ust8_def to_uint_def demo_sys1_def demo_sys_def numeral_eq_Suc upt_rec)
  then show ?thesis using a p by (simp add: sys_pipe_def need_def)
qed

theorem descriptors_sound_witness:
  "\<exists>t. sys_reach no_dev demo_sys t \<and> cur_ofile t ! 1 = Some 1 \<and> 1 \<le> f_ref (file_of t 1) \<and> (\<exists>q. pipes t (f_pipe (file_of t 1)) = Some q \<and> writeopen q)"
proof -
  define t where "t = demo_sys1\<lparr>cur_ofile := (replicate 16 None)[0 := Some 0, 1 := Some 1],
    u_mem := (\<lambda>_. Some 0)(0 \<mapsto> 0, 1 \<mapsto> 0, 2 \<mapsto> 0, 3 \<mapsto> 0, 4 \<mapsto> 1, 5 \<mapsto> 0, 6 \<mapsto> 0, 7 \<mapsto> 0)\<rparr>"
  have r: "sys_reach no_dev demo_sys t" unfolding t_def by (rule sys_reach.step [OF sys_reach.start do_pipe [OF demo_pipe]])
  have b: "files_boot demo_sys" by (simp add: files_boot_def demo_sys_def file0_def)
  have d: "dev_keeps no_dev" by (simp add: dev_keeps_def no_dev_def)
  note c = descriptors_sound [OF r b d]
  have f: "cur_ofile t ! 1 = Some 1" "f_writable (file_of t 1)" "f_type (file_of t 1) = FD_PIPE" "1 < length (ftable t)"
    by (simp_all add: t_def demo_sys1_def demo_sys_def)
  have "1 \<le> f_ref (file_of t 1)" using conjunct1 [OF c, rule_format, of 1 1] f(1) by simp
  moreover have "\<exists>q. pipes t (f_pipe (file_of t 1)) = Some q \<and> writeopen q"
    using conjunct2 [OF conjunct2 [OF c], rule_format, of 1] f(2-4) by auto
  ultimately show ?thesis using r f(1) by blast
qed

end
