(* ===== verification/Spec2Isabelle.thy ===== *)
theory Spec2Isabelle
  imports ShPrint Grep Console KernInfo Syscall Pipe LogCrash SysfileInv
begin

text \<open>
  A verification library for the kernel in src/xv6-public: xv6 for the 32-bit x86, extended with the
  system calls \<open>wmap\<close>, \<open>wunmap\<close>, \<open>wremap\<close>, \<open>getpgdirinfo\<close>, \<open>getwmapinfo\<close> and \<open>getfilename\<close>.

  \<^bold>\<open>The program.\<close> A trap (trap.c) enters the kernel for a system call, an interrupt or a page fault.
  \<open>syscall\<close> (syscall.c) takes the arguments from the user stack and calls one of the functions of
  sysproc.c and sysfile.c. Those on files go through open files (file.c), inodes, directories and
  paths (fs.c), the log (log.c), the buffer cache (bio.c) and the disk (memide.c); a pipe (pipe.c) is an open
  file without an inode. Those on processes use the process table and the scheduler (proc.c), page
  tables (vm.c) and the page allocator (kalloc.c). The memory mappings of all processes are in one hash
  table (sysproc.c); their pages are loaded by the page-fault branch. Spin locks (spinlock.c) and sleep
  locks (sleeplock.c) order the processors and processes. The console (console.c) is the terminal; the shell (sh.c)
  and grep (grep.c) are user programs.

  \<^bold>\<open>Conventions\<close> (theory Prelude). \<open>uint\<close>, \<open>ushort\<close> and \<open>uchar\<close> are words, and their arithmetic wraps. A C
  \<open>int\<close> is an integer, converted by \<open>to_uint\<close> and \<open>to_int\<close>; where a signed result can leave the range the
  operation is checked. C code returns an \<open>outcome\<close>: \<open>Ok\<close>, \<open>Panic\<close> (the code calls \<open>panic\<close>), \<open>Fault\<close> (a null or wild
  pointer, an index out of range, a signed overflow) or \<open>Diverge\<close> (the code never returns). Theorems that say
  that an operation returns show \<open>Ok\<close>. A pointer into a table of the kernel is an index. The storage
  operations follow one kernel thread: where it would have to sleep for another process the run is
  \<open>Diverge\<close>. The protocols between processes are separate step relations, whose steps are the pieces
  of the code between two points where another process can run.

  \<^bold>\<open>Theories.\<close>

  \<^item> Memory, Cstring: byte memory and the routines of string.c and ulib.c; copying with overlap, filling,
    comparing, copying strings within bounds, \<open>atoi\<close>.
  \<^item> Kalloc: \<open>kalloc\<close>, \<open>kfree\<close>, \<open>freerange\<close>, with the free list inside the free pages. The locale \<open>page_alloc\<close> is the
    contract, interpreted for kalloc.c: no page is handed out twice, what is freed is allocated next.
  \<^item> Vm, VmTable, VmCopy: vm.c on page tables in byte memory. \<open>xlate\<close> is the walk of the processor. \<open>mappages\<close> changes
    exactly the translations of its range, \<open>copyout\<close> writes exactly the user bytes, \<open>setupkvm\<close> maps
    nothing below \<open>KERNBASE\<close>, and \<open>copyuvm\<close> gives equal bytes in other frames, and succeeds when there are enough
    free pages.
  \<^item> Spinlock, Sleeplock: the locks, cut at their atomic steps, for any number of processors and
    processes: mutual exclusion, release, and no lost wakeup.
  \<^item> Proc, ProcInv, ProcWait: the process table, with \<open>proc_step\<close> for all interleavings of the critical sections under
    \<open>ptable.lock\<close>: every reachable table is sound, and a process that waits for a child is woken by its exit.
  \<^item> Bio, BioCache: the buffer cache with its linked LRU list. The locale \<open>block_store\<close> is the contract
    (each block has one current contents), interpreted for bio.c; the least recently used buffer is recycled.
  \<^item> Bytes, Log, LogSpec, LogOp, LogCrash: log.c. The locale \<open>trans_store\<close> is the interface of a transaction, interpreted for
    the log on the cache. Whatever prefix of the disk writes survives a crash, and however often recovery is cut
    short, the disk ends as before the transaction or as after it.
  \<^item> Fs, FsBlock, FsMap, FsFile, FsRw, FsDir: fs.c. \<open>writei\<close> changes exactly the bytes it is given, in this file only,
    and within the room of the log: a block for each page and, once, the indirect block; \<open>readi\<close> reads them back; \<open>dirlink\<close> adds what \<open>dirlookup\<close> finds; \<open>namex\<close> takes a path
    apart into its elements.
  \<^item> Pipe: pipe.c with its blocking points, for any number of readers and writers: the bytes read are the bytes
    written, in order, and a sleeper is woken; the case in which it is not is a theorem of its own.
  \<^item> File, FileWrite: file.c, and \<open>pipealloc\<close>. \<open>filewrite\<close> splits a write into transactions that fit the log, in every
    state in which \<open>begin_op\<close> lets an operation in, and when it returns the bytes are on the disk.
  \<^item> Syscall, Sysfile, FsFrame, SysfileInv: syscall.c and sysfile.c. Arguments are inside the process; along every
    sequence of system calls on files the descriptors denote open files with enough references.
  \<^item> Wmap, WmapTable, WmapPlace, WmapFork: the mapping table of sysproc.c, with \<open>nodePool\<close> and the \<open>next\<close> pointers as they are. The
    locales \<open>page_lookup\<close> and \<open>addr_bag\<close> are the contracts of the table, interpreted for it; \<open>wmap\<close> places a mapping at the
    first fit from the start of its search, and a fixed mapping where it is asked for; \<open>forkHelper\<close> keeps the mapped
    addresses if the pool has the nodes for its copies.
  \<^item> Kern, KernSys: the whole kernel as one record: process table, page tables and free pages, open files
    and disk, mapping table. The page-fault branch of \<open>trap\<close>, \<open>wunmap\<close>, \<open>wremap\<close>, \<open>userinit\<close>, \<open>fork\<close>, \<open>exit\<close>, \<open>getpgdirinfo\<close> and the system
    calls of sysproc.c are composed from the operations above.
  \<^item> KernMap, KernUnmap, KernFork: a fault in an anonymous mapping gives the process a zeroed page and
    changes nothing else; another page of the mapping under the same page table is never loaded; \<open>wunmap\<close> gives back
    the frames and takes away the translations; \<open>fork\<close> makes a child with the files, the registers and the
    memory of its parent and shares no byte with it.
  \<^item> KernInfo: \<open>getpgdirinfo\<close> counts exactly the pages that user code can reach and lists the first 32 in order.
  \<^item> Console: console.c and printf.c. The screen never overflows; the input buffer is a line editor; \<open>consoleread\<close> returns
    a line at a time; the digits of \<open>printint\<close> stand for its number.
  \<^item> Sh, ShPrint: the parser of sh.c. It returns for every line, and reads back every command tree that is printed with
    the precedences of the grammar.
  \<^item> Grep: the matcher of grep.c decides the language of its patterns, and the program writes exactly the lines
    that match.

  \<^bold>\<open>Bounds and fuel.\<close> Loops over pages carry the number of rounds that their range has (\<open>page_fuel\<close> and the like), and the
  theorems show that it is enough. A chain of the mapping table has at most as many nodes as the two arrays:
  \<open>chain_fuel\<close>. The parser of the shell has four calls for each byte of the line and four more, and \<open>parsecmd_returns\<close> shows that it never runs
  out. Loops that stop at a NUL byte or at the end of the input are partial functions, with \<open>None\<close> for not
  returning.

  \<^bold>\<open>Parameters.\<close> The addresses that the linker gives (\<open>end\<close>, \<open>data\<close>, \<open>trapret\<close>, \<open>forkret\<close>, the initial program) are the fields of
  \<open>layout\<close>; the device switch and \<open>exec\<close>, where they are called, and \<open>read\<close> in grep are arguments of the model.

  \<^bold>\<open>Not modelled.\<close> Code that only drives hardware has no state that could be checked here: lapic.c, ioapic.c,
  picirq.c, mp.c, uart.c, kbd.c, ide.c (replaced by memide.c), bootmain.c, the assembly files, and in vm.c \<open>seginit\<close>, \<open>switchkvm\<close> and
  \<open>switchuvm\<close>. main.c calls the initialisation functions in order. The interrupt branches of \<open>trap\<close> call those
  drivers. \<open>exec\<close> (exec.c) is an argument of \<open>sys_exec\<close>. The
  functions \<open>runcmd\<close>, \<open>getcmd\<close> and \<open>main\<close> of sh.c and the other user programs sequence system calls; umalloc.c manages the heap of
  a user program; mkfs.c runs on the host. usertests.c and the other tests are not part of the system.
\<close>

end
